(* ===== verification/Prelude.thy ===== *)
theory Prelude
  imports Main "HOL-Library.Word"
begin

unbundle bit_operations_syntax

text \<open>
  Shared vocabulary of the development: the machine types, the result type of C functions
  that return a success flag, the little- and big-endian readings of byte lists, and the
  word lemmas the codecs of nanopb and BoringSSL share.
\<close>

section \<open>Machine types\<close>

type_synonym byte = "8 word"
type_synonym u16 = "16 word"
type_synonym u32 = "32 word"
type_synonym u64 = "64 word"

named_theorems res_simps \<open>equations that run the result type\<close>
named_theorems codec_intros \<open>round trips of the codecs\<close>

section \<open>Results of C functions\<close>

text \<open>
  A C function returning \<open>bool\<close> with its result in out-parameters: \<open>Ok x s\<close> is
  \<open>return true\<close> with the out-parameters \<open>x\<close> and the mutated state \<open>s\<close>;
  \<open>Fail s\<close> is \<open>return false\<close> with the state at that point; \<open>UB\<close> is undefined behaviour
  (an access outside the allocated memory, a release of a block that is not live);
  \<open>NoFuel\<close> is a call deeper than the fuel of a recursive model.
\<close>

datatype ('a, 's) res = Ok 'a 's | Fail 's | UB | NoFuel

fun rbind :: "('a, 's) res \<Rightarrow> ('a \<Rightarrow> 's \<Rightarrow> ('b, 's) res) \<Rightarrow> ('b, 's) res" where
  "rbind (Ok x s) f = f x s"
| "rbind (Fail s) f = Fail s"
| "rbind UB f = UB"
| "rbind NoFuel f = NoFuel"

fun rmap :: "('s \<Rightarrow> 't) \<Rightarrow> ('a, 's) res \<Rightarrow> ('a, 't) res" where
  "rmap g (Ok x s) = Ok x (g s)"
| "rmap g (Fail s) = Fail (g s)"
| "rmap g UB = UB"
| "rmap g NoFuel = NoFuel"

definition ropt :: "'a option \<Rightarrow> 's \<Rightarrow> ('a, 's) res" where
  "ropt v s = (case v of None \<Rightarrow> UB | Some x \<Rightarrow> Ok x s)"

lemma ropt_simps [simp, res_simps]: "ropt None s = UB" "ropt (Some x) s = Ok x s"
  by (simp_all add: ropt_def)

declare rbind.simps [res_simps] and rmap.simps [res_simps]

lemma rbind_Ok_iff: "rbind m f = Ok y t \<longleftrightarrow> (\<exists>x s. m = Ok x s \<and> f x s = Ok y t)"
  by (cases m) auto

lemma rbind_Fail_iff:
  "rbind m f = Fail t \<longleftrightarrow> m = Fail t \<or> (\<exists>x s. m = Ok x s \<and> f x s = Fail t)"
  by (cases m) auto

lemma rbind_UB_iff: "rbind m f = UB \<longleftrightarrow> m = UB \<or> (\<exists>x s. m = Ok x s \<and> f x s = UB)"
  by (cases m) auto

lemma rbind_NoFuel_iff:
  "rbind m f = NoFuel \<longleftrightarrow> m = NoFuel \<or> (\<exists>x s. m = Ok x s \<and> f x s = NoFuel)"
  by (cases m) auto

lemma rbind_assoc: "rbind (rbind m f) g = rbind m (\<lambda>x s. rbind (f x s) g)"
  by (cases m) auto

lemma rmap_iffs:
  "rmap g m = Ok x t \<longleftrightarrow> (\<exists>s. m = Ok x s \<and> t = g s)"
  "rmap g m = Fail t \<longleftrightarrow> (\<exists>s. m = Fail s \<and> t = g s)"
  "rmap g m = UB \<longleftrightarrow> m = UB"
  "rmap g m = NoFuel \<longleftrightarrow> m = NoFuel"
  by (cases m; auto)+

lemma ropt_iffs:
  "ropt v s = Ok x t \<longleftrightarrow> v = Some x \<and> t = s"
  "ropt v s = Fail t \<longleftrightarrow> False"
  "ropt v s = UB \<longleftrightarrow> v = None"
  "ropt v s = NoFuel \<longleftrightarrow> False"
  by (cases v; auto)+

lemmas res_iffs = rbind_Ok_iff rbind_Fail_iff rbind_UB_iff rbind_NoFuel_iff rmap_iffs ropt_iffs

lemma rbind_cong [fundef_cong]:
  "m = m' \<Longrightarrow> (\<And>x s. m' = Ok x s \<Longrightarrow> f x s = f' x s) \<Longrightarrow> rbind m f = rbind m' f'"
  by (cases m) auto

section \<open>Bytes of a word\<close>

text \<open>\<open>n\<close> bytes of a word, least significant first, and back.\<close>

definition le_bytes :: "nat \<Rightarrow> 'a::len word \<Rightarrow> byte list" where
  "le_bytes n w = map (\<lambda>i. ucast (drop_bit (8 * i) w)) [0..<n]"

fun of_le :: "byte list \<Rightarrow> 'a::len word" where
  "of_le [] = 0"
| "of_le (b # bs) = ucast b OR push_bit 8 (of_le bs)"

text \<open>Most significant byte first: the loop \<open>r = (r << 8) | b\<close>.\<close>

definition of_be :: "byte list \<Rightarrow> 'a::len word" where
  "of_be bs = foldl (\<lambda>r b. push_bit 8 r OR ucast b) 0 bs"

definition be_bytes :: "nat \<Rightarrow> 'a::len word \<Rightarrow> byte list" where
  "be_bytes n w = rev (le_bytes n w)"

lemma length_le_bytes [simp]: "length (le_bytes n w) = n"
  by (simp add: le_bytes_def)

lemma length_be_bytes [simp]: "length (be_bytes n w) = n"
  by (simp add: be_bytes_def)

lemma le_bytes_0 [simp]: "le_bytes 0 w = []"
  by (simp add: le_bytes_def)

lemma le_bytes_Suc: "le_bytes (Suc n) w = ucast w # le_bytes n (drop_bit 8 w)"
proof -
  have "[0..<Suc n] = 0 # map Suc [0..<n]"
    by (simp add: map_Suc_upt upt_conv_Cons)
  then show ?thesis
    by (simp add: le_bytes_def drop_bit_drop_bit add.commute comp_def del: upt_Suc)
qed

lemma ucast_byte_or_drop:
  "ucast (ucast w :: byte) OR push_bit 8 (take_bit n (drop_bit 8 w)) = take_bit (8 + n) (w :: 'a::len word)"
  by (rule bit_eqI) (auto simp: bit_simps)

lemma of_le_le_bytes: "of_le (le_bytes n w) = take_bit (8 * n) (w :: 'a::len word)"
proof (induction n arbitrary: w)
  case 0
  then show ?case by simp
next
  case (Suc n)
  then show ?case
    using ucast_byte_or_drop [of w "8 * n"] by (simp add: le_bytes_Suc)
qed

lemma of_le_le_bytes_full:
  "LENGTH('a) \<le> 8 * n \<Longrightarrow> of_le (le_bytes n w) = (w :: 'a::len word)"
  by (simp add: of_le_le_bytes) (metis take_bit_word_eq_self)

lemma of_be_snoc: "of_be (bs @ [b]) = (push_bit 8 (of_be bs) OR ucast b)"
  by (simp add: of_be_def)

lemma of_be_rev: "of_be (rev bs) = of_le bs"
  by (induction bs) (auto simp: of_be_def or.commute)

lemma of_be_be_bytes: "of_be (be_bytes n w) = take_bit (8 * n) (w :: 'a::len word)"
  by (simp add: be_bytes_def of_be_rev of_le_le_bytes)

lemma unat_push_or:
  fixes v b :: "'a::len word"
  assumes "unat v * 2 ^ k + unat b < 2 ^ LENGTH('a)" and "unat b < 2 ^ k"
  shows "unat (push_bit k v OR b) = unat v * 2 ^ k + unat b"
proof -
  have k: "\<not> (bit (push_bit k v) n \<and> bit b n)" for n
  proof
    assume "bit (push_bit k v) n \<and> bit b n"
    then have "k \<le> n" "bit (unat b) n" by (auto simp: bit_simps bit_unsigned_iff)
    moreover have "take_bit k (unat b) = unat b" using assms(2) by (simp add: take_bit_nat_eq_self)
    ultimately show False using bit_take_bit_iff [of k "unat b" n] by simp
  qed
  then have "push_bit k v OR b = push_bit k v + b"
    by (subst disjunctive_add) auto
  moreover have "unat (push_bit k v) = unat v * 2 ^ k"
    unfolding unsigned_push_bit_eq push_bit_nat_def using assms(1) by (simp add: take_bit_nat_eq_self)
  ultimately show ?thesis using assms(1) unat_add_lem [of "push_bit k v" b] by simp
qed

lemma le_bytes_take_bit:
  assumes "8 * n \<le> m"
  shows "le_bytes n (take_bit m w) = le_bytes n (w :: 'a::len word)"
proof -
  have "ucast (drop_bit (8 * i) (take_bit m w)) = (ucast (drop_bit (8 * i) w) :: byte)" if "i < n" for i
    using that assms by (intro bit_eqI) (auto simp: bit_simps)
  then show ?thesis by (simp add: le_bytes_def)
qed

lemma le_bytes_of_le: "8 * length bs \<le> LENGTH('a) \<Longrightarrow> le_bytes (length bs) (of_le bs :: 'a::len word) = bs"
proof (induction bs)
  case (Cons b bs)
  have "ucast (ucast b OR push_bit 8 (of_le bs :: 'a word)) = b"
    using Cons.prems by (intro bit_eqI) (auto simp: bit_simps)
  moreover have "drop_bit 8 (ucast b OR push_bit 8 (of_le bs :: 'a word)) = take_bit (LENGTH('a) - 8) (of_le bs)"
    by (rule bit_eqI) (auto simp: bit_simps dest: bit_imp_le_length)
  ultimately show ?case using Cons le_bytes_take_bit [of "length bs" "LENGTH('a) - 8" "of_le bs :: 'a word"]
    by (simp add: le_bytes_Suc)
qed simp
lemma be_bytes_of_be:
  assumes "8 * length bs \<le> LENGTH('a)"
  shows "be_bytes (length bs) (of_be bs :: 'a::len word) = bs"
  using le_bytes_of_le [of "rev bs", where 'a = 'a] assms of_be_rev [of "rev bs", where 'a = 'a]
  by (simp add: be_bytes_def)

lemma of_be_be_bytes_full: "LENGTH('a) \<le> 8 * n \<Longrightarrow> of_be (be_bytes n w) = (w :: 'a::len word)"
  by (simp add: of_be_be_bytes) (metis take_bit_word_eq_self)

lemma unat_of_be_less:
  assumes "8 * length bs \<le> LENGTH('a)"
  shows "unat (of_be bs :: 'a::len word) < 2 ^ (8 * length bs)"
proof -
  have "of_be bs = (take_bit (8 * length bs) (of_be bs) :: 'a word)"
    using be_bytes_of_be [OF assms] of_be_be_bytes [of "length bs" "of_be bs :: 'a word"] by simp
  then have "unat (of_be bs :: 'a word) = take_bit (8 * length bs) (unat (of_be bs :: 'a word))"
    by (metis unsigned_take_bit_eq)
  then show ?thesis by (metis take_bit_nat_less_exp)
qed

section \<open>Shifting a value in groups of seven bits\<close>

lemma take_bit_or_push7:
  fixes V :: "'a::len word"
  shows "take_bit n V OR push_bit n (take_bit 7 (drop_bit n V)) = take_bit (n + 7) V"
  by (rule bit_eqI) (auto simp: bit_simps)

lemma and_7F: "(x :: 'a::len word) AND 0x7F = take_bit 7 x"
  by (simp add: take_bit_eq_mask mask_eq_exp_minus_1)

text \<open>The continuation bit of a varint byte.\<close>

lemma or_80: "(x::'a::len word) OR 0x80 = set_bit 7 x"
  by (simp add: set_bit_eq_or push_bit_eq_mult)

lemma and_80: "(b :: byte) AND 0x80 = 0 \<longleftrightarrow> \<not> bit b 7"
  using and_exp_eq_0_iff_not_bit [of b 7] by simp

lemma drop_bit_zero_iff: "drop_bit k v = 0 \<longleftrightarrow> (\<forall>m\<ge>k. \<not> bit v m)" for v :: "'a::len word"
proof
  assume z: "drop_bit k v = 0"
  show "\<forall>m\<ge>k. \<not> bit v m"
  proof (intro allI impI)
    fix m
    assume "k \<le> m"
    then have "bit v m = bit (drop_bit k v) (m - k)" by (simp add: bit_drop_bit_eq)
    with z show "\<not> bit v m" by simp
  qed
next
  assume "\<forall>m\<ge>k. \<not> bit v m"
  then show "drop_bit k v = 0" by (intro bit_eqI) (simp add: bit_drop_bit_eq)
qed

lemma not_bit_7_and_7F: "\<not> bit (x AND 0x7F :: byte) 7"
  unfolding and_7F by (simp add: bit_simps)

section \<open>Rotations\<close>

lemma shifts_rotr:
  fixes x :: "'a::len word"
  assumes "0 < n" "n < LENGTH('a)"
  shows "push_bit n x OR drop_bit (LENGTH('a) - n) x = word_rotr (LENGTH('a) - n) x"
proof (rule bit_eqI)
  fix m
  assume "possible_bit TYPE('a word) m"
  then have m: "m < LENGTH('a)" by (simp add: possible_bit_word)
  have "bit (push_bit n x OR drop_bit (LENGTH('a) - n) x) m \<longleftrightarrow> n \<le> m \<and> bit x (m - n) \<or> bit x (LENGTH('a) - n + m)"
    using m by (auto simp: bit_simps)
  also have "\<dots> \<longleftrightarrow> bit x ((m + (LENGTH('a) - n)) mod LENGTH('a))"
  proof (cases "n \<le> m")
    case True
    then have "m + (LENGTH('a) - n) = m - n + LENGTH('a)" using assms by simp
    then have "(m + (LENGTH('a) - n)) mod LENGTH('a) = m - n" using m by (simp only: mod_add_self2) simp
    moreover have "\<not> bit x (LENGTH('a) - n + m)" using True assms bit_imp_le_length [of x "LENGTH('a) - n + m"] by auto
    ultimately show ?thesis using True by simp
  next
    case False
    then have "(m + (LENGTH('a) - n)) mod LENGTH('a) = LENGTH('a) - n + m" using assms m by simp
    then show ?thesis using False by simp
  qed
  also have "\<dots> \<longleftrightarrow> bit (word_rotr (LENGTH('a) - n) x) m" using m by (simp add: bit_word_rotr_iff)
  finally show "bit (push_bit n x OR drop_bit (LENGTH('a) - n) x) m \<longleftrightarrow> bit (word_rotr (LENGTH('a) - n) x) m" .
qed

section \<open>Lists read at an offset\<close>

lemma take_append_drop_update:
  "n \<le> length xs \<Longrightarrow> take n xs @ drop n xs = xs"
  by simp

lemma length_overwrite:
  "p + length d \<le> length b \<Longrightarrow> length (take p b @ d @ drop (p + length d) b) = length b"
  by simp

section \<open>Comparison in constant time\<close>

text \<open>\<open>CRYPTO_memcmp\<close> of \<open>crypto/mem.c\<close>: the difference of all bytes is collected, without an
  early exit.\<close>

definition CRYPTO_memcmp :: "byte list \<Rightarrow> byte list \<Rightarrow> nat \<Rightarrow> byte" where
  "CRYPTO_memcmp a b len = foldl (\<lambda>x i. x OR (a ! i XOR b ! i)) 0 [0..<len]"

lemma CRYPTO_memcmp_zero: "CRYPTO_memcmp a b n = 0 \<longleftrightarrow> (\<forall>i < n. a ! i = b ! i)"
proof (induction n)
  case (Suc n)
  have "CRYPTO_memcmp a b (Suc n) = CRYPTO_memcmp a b n OR (a ! n XOR b ! n)" by (simp add: CRYPTO_memcmp_def)
  moreover have "x OR y = 0 \<longleftrightarrow> x = 0 \<and> y = 0" for x y :: byte by (rule or_eq_0_iff)
  moreover have "x XOR y = 0 \<longleftrightarrow> x = y" for x y :: byte by (auto simp: bit_eq_iff bit_simps)
  ultimately show ?case using Suc less_Suc_eq by auto
qed (simp add: CRYPTO_memcmp_def)

lemma CRYPTO_memcmp_take: "length b = n \<Longrightarrow> n \<le> length a \<Longrightarrow> CRYPTO_memcmp a b n = 0 \<longleftrightarrow> b = take n a"
  unfolding CRYPTO_memcmp_zero by (auto simp: list_eq_iff_nth_eq)

end
