(* ===== verification/Pb_Types.thy ===== *)
theory Pb_Types
  imports Prelude
begin

text \<open>
  The field descriptors of \<open>pb.h\<close>, with the sizes of the app's build (\<open>PB_FIELD_32BIT\<close>,
  \<open>PB_NO_PACKED_STRUCTS\<close>, \<open>PB_ENABLE_MALLOC\<close>): \<open>pb_size_t\<close> is \<open>uint32_t\<close>, pointers have eight
  bytes.
\<close>

section \<open>Field types\<close>

abbreviation (input) PB_LTYPE_VARINT :: byte where "PB_LTYPE_VARINT \<equiv> 0x00"
abbreviation (input) PB_LTYPE_UVARINT :: byte where "PB_LTYPE_UVARINT \<equiv> 0x01"
abbreviation (input) PB_LTYPE_SVARINT :: byte where "PB_LTYPE_SVARINT \<equiv> 0x02"
abbreviation (input) PB_LTYPE_FIXED32 :: byte where "PB_LTYPE_FIXED32 \<equiv> 0x03"
abbreviation (input) PB_LTYPE_FIXED64 :: byte where "PB_LTYPE_FIXED64 \<equiv> 0x04"
abbreviation (input) PB_LTYPE_LAST_PACKABLE :: byte where "PB_LTYPE_LAST_PACKABLE \<equiv> 0x04"
abbreviation (input) PB_LTYPE_BYTES :: byte where "PB_LTYPE_BYTES \<equiv> 0x05"
abbreviation (input) PB_LTYPE_STRING :: byte where "PB_LTYPE_STRING \<equiv> 0x06"
abbreviation (input) PB_LTYPE_SUBMESSAGE :: byte where "PB_LTYPE_SUBMESSAGE \<equiv> 0x07"
abbreviation (input) PB_LTYPE_EXTENSION :: byte where "PB_LTYPE_EXTENSION \<equiv> 0x08"
abbreviation (input) PB_LTYPE_FIXED_LENGTH_BYTES :: byte where
  "PB_LTYPE_FIXED_LENGTH_BYTES \<equiv> 0x09"

abbreviation (input) PB_HTYPE_REQUIRED :: byte where "PB_HTYPE_REQUIRED \<equiv> 0x00"
abbreviation (input) PB_HTYPE_OPTIONAL :: byte where "PB_HTYPE_OPTIONAL \<equiv> 0x10"
abbreviation (input) PB_HTYPE_REPEATED :: byte where "PB_HTYPE_REPEATED \<equiv> 0x20"
abbreviation (input) PB_HTYPE_ONEOF :: byte where "PB_HTYPE_ONEOF \<equiv> 0x30"

abbreviation (input) PB_ATYPE_STATIC :: byte where "PB_ATYPE_STATIC \<equiv> 0x00"
abbreviation (input) PB_ATYPE_POINTER :: byte where "PB_ATYPE_POINTER \<equiv> 0x80"
abbreviation (input) PB_ATYPE_CALLBACK :: byte where "PB_ATYPE_CALLBACK \<equiv> 0x40"

definition PB_ATYPE :: "byte \<Rightarrow> byte" where "PB_ATYPE x = x AND 0xC0"

definition PB_HTYPE :: "byte \<Rightarrow> byte" where "PB_HTYPE x = x AND 0x30"

definition PB_LTYPE :: "byte \<Rightarrow> byte" where "PB_LTYPE x = x AND 0x0F"

lemma PB_HTYPE_cases: "PB_HTYPE x \<in> {0, 0x10, 0x20, 0x30}"
proof -
  have "PB_HTYPE x = (if bit x 4 then 0x10 else 0) OR (if bit x 5 then 0x20 else (0 :: byte))"
  proof (rule bit_word_eqI)
    fix n
    assume "n < LENGTH(8)"
    then have "n \<in> {0, 1, 2, 3, 4, 5, 6, 7}" by auto
    then show "bit (PB_HTYPE x) n =
        bit ((if bit x 4 then 0x10 else 0) OR (if bit x 5 then 0x20 else (0 :: byte))) n"
      by (auto simp: PB_HTYPE_def bit_simps)
  qed
  then show ?thesis by auto
qed

abbreviation (input) PB_SIZE_MAX :: u32 where "PB_SIZE_MAX \<equiv> 0xFFFFFFFF"

abbreviation (input) PB_MAX_REQUIRED_FIELDS :: nat where "PB_MAX_REQUIRED_FIELDS \<equiv> 64"

abbreviation (input) sizeof_ptr :: nat where "sizeof_ptr \<equiv> 8"

text \<open>\<open>pb_wire_type_t\<close>.\<close>

abbreviation (input) PB_WT_VARINT :: u32 where "PB_WT_VARINT \<equiv> 0"
abbreviation (input) PB_WT_64BIT :: u32 where "PB_WT_64BIT \<equiv> 1"
abbreviation (input) PB_WT_STRING :: u32 where "PB_WT_STRING \<equiv> 2"
abbreviation (input) PB_WT_32BIT :: u32 where "PB_WT_32BIT \<equiv> 5"

section \<open>Field descriptors\<close>

text \<open>
  What \<open>ptr\<close> points at: nothing, the descriptors of a submessage (by the address of their
  array) or the bytes of a default value.
\<close>

datatype pb_ptr = PtrNull | PtrFields nat | PtrDefault "byte list"

record pb_field =
  tag :: u32
  ftype :: byte
  data_offset :: u32
  size_offset :: u32
  data_size :: u32
  array_size :: u32
  ptr :: pb_ptr

definition PB_LAST_FIELD :: pb_field where
  "PB_LAST_FIELD = \<lparr>tag = 0, ftype = 0, data_offset = 0, size_offset = 0, data_size = 0,
     array_size = 0, ptr = PtrNull\<rparr>"

text \<open>A descriptor array is the list of its entries before the terminator.\<close>

definition field_at :: "pb_field list \<Rightarrow> nat \<Rightarrow> pb_field" where
  "field_at fs i = (if i < length fs then fs ! i else PB_LAST_FIELD)"

definition fields_wf :: "pb_field list \<Rightarrow> bool" where
  "fields_wf fs \<longleftrightarrow> (\<forall>f \<in> set fs. tag f \<noteq> 0)"

text \<open>The descriptors \<open>(const pb_field_t*)field->ptr\<close>; \<open>msgs\<close> holds the arrays by address.\<close>

definition sub_fields :: "(nat \<Rightarrow> pb_field list option) \<Rightarrow> pb_field \<Rightarrow> pb_field list option" where
  "sub_fields msgs f = (case ptr f of PtrFields i \<Rightarrow> msgs i | _ \<Rightarrow> None)"

text \<open>\<open>pb_bytes_array_t\<close>: a 32-bit size, then the bytes.\<close>

abbreviation (input) bytes_offset :: nat where "bytes_offset \<equiv> 4"

definition PB_BYTES_ARRAY_T_ALLOCSIZE :: "u32 \<Rightarrow> nat" where
  "PB_BYTES_ARRAY_T_ALLOCSIZE n = unat n + bytes_offset"

text \<open>Member offsets of \<open>pb_callback_t\<close> and \<open>pb_extension_t\<close>.\<close>

abbreviation (input) cb_funcs :: nat where "cb_funcs \<equiv> 0"
abbreviation (input) cb_arg :: nat where "cb_arg \<equiv> 8"
abbreviation (input) ext_type :: nat where "ext_type \<equiv> 0"
abbreviation (input) ext_dest :: nat where "ext_dest \<equiv> 8"
abbreviation (input) ext_next :: nat where "ext_next \<equiv> 16"
abbreviation (input) ext_found :: nat where "ext_found \<equiv> 24"

lemma tag_PB_LAST_FIELD [simp]: "tag PB_LAST_FIELD = 0"
  by (simp add: PB_LAST_FIELD_def)

lemma field_at_tag_0: "fields_wf fs \<Longrightarrow> tag (field_at fs i) = 0 \<longleftrightarrow> length fs \<le> i"
  by (auto simp: field_at_def fields_wf_def)

section \<open>An example\<close>

text \<open>A message with a submessage and a packed array, (concrete field tables for the witnesses).\<close>

definition inner_fields :: "pb_field list" where
  "inner_fields = [\<lparr>tag = 1, ftype = 0x01, data_offset = 0, size_offset = 0, data_size = 4,
     array_size = 0, ptr = PtrNull\<rparr>]"

definition outer_fields :: "pb_field list" where
  "outer_fields = [\<lparr>tag = 2, ftype = 0x07, data_offset = 0, size_offset = 0, data_size = 4,
      array_size = 0, ptr = PtrFields 1\<rparr>,
    \<lparr>tag = 3, ftype = 0x21, data_offset = 4, size_offset = - 4, data_size = 1, array_size = 3,
      ptr = PtrNull\<rparr>]"

end
