(* ===== verification/Pb_Istream.thy ===== *)
theory Pb_Istream
  imports Pb_Types
begin

text \<open>
  Input streams of nanopb (\<open>pb_decode.c\<close>, \<open>pb_decode.h\<close>): the stream structure, reading
  and skipping bytes, the varint, tag and fixed-width decoders, field skipping and the
  length-limited substreams.

  A stream's \<open>callback\<close> and \<open>state\<close> are one field, \<open>src\<close>. \<open>IBuf bs\<close> is the library's own
  callback \<open>buf_read\<close> with its state pointing at the bytes \<open>bs\<close> up to the end of the
  buffer; \<open>IUser f u\<close> is a user callback \<open>f\<close> with state \<open>u\<close>, which returns its success
  flag, the bytes it stored and its next state. \<open>bytes_left\<close> is a \<open>nat\<close>: every
  subtraction from it in the code is guarded by a comparison.
\<close>

section \<open>The stream\<close>

datatype 'u source =
    IBuf "byte list"
  | IUser "'u \<Rightarrow> nat \<Rightarrow> bool \<times> byte list \<times> 'u" 'u

record 'u istream =
  src :: "'u source"
  bytes_left :: nat
  errmsg :: "string option"

text \<open>\<open>PB_SET_ERROR\<close> keeps the first message; \<open>PB_RETURN_ERROR\<close> then returns false.\<close>

definition set_error :: "'u istream \<Rightarrow> string \<Rightarrow> 'u istream" where
  "set_error s msg = (case errmsg s of None \<Rightarrow> s\<lparr>errmsg := Some msg\<rparr> | Some _ \<Rightarrow> s)"

definition return_error :: "'u istream \<Rightarrow> string \<Rightarrow> ('a, 'u istream) res" where
  "return_error s msg = Fail (set_error s msg)"

definition is_buffer :: "'u istream \<Rightarrow> bool" where
  "is_buffer s = (case src s of IBuf _ \<Rightarrow> True | IUser _ _ \<Rightarrow> False)"

text \<open>
  \<open>buf_read\<close> advances the pointer and copies; reading past the end of the buffer is
  undefined behaviour.
\<close>

definition buf_read :: "byte list \<Rightarrow> nat \<Rightarrow> (byte list \<times> byte list) option" where
  "buf_read source count =
     (if count \<le> length source then Some (take count source, drop count source) else None)"

text \<open>The call \<open>stream->callback(stream, buf, count)\<close>.\<close>

definition is_callback :: "'u istream \<Rightarrow> nat \<Rightarrow> (byte list, 'u istream) res" where
  "is_callback s count = (case src s of
     IBuf source \<Rightarrow> (case buf_read source count of
         None \<Rightarrow> UB
       | Some (data, rest) \<Rightarrow> Ok data (s\<lparr>src := IBuf rest\<rparr>))
   | IUser f u \<Rightarrow> (case f u count of (ok, data, u') \<Rightarrow>
       if ok then Ok data (s\<lparr>src := IUser f u'\<rparr>) else Fail (s\<lparr>src := IUser f u'\<rparr>)))"

definition pb_istream_from_buffer :: "byte list \<Rightarrow> nat \<Rightarrow> 'u istream" where
  "pb_istream_from_buffer buf bufsize = \<lparr>src = IBuf buf, bytes_left = bufsize, errmsg = None\<rparr>"

section \<open>Reading bytes\<close>

text \<open>\<open>pb_read\<close> from the length check on; a failed callback sets \<open>io error\<close>.\<close>

definition pb_read_checked :: "'u istream \<Rightarrow> nat \<Rightarrow> (byte list, 'u istream) res" where
  "pb_read_checked s count =
     (if bytes_left s < count then return_error s ''end-of-stream''
      else (case is_callback s count of
          Ok data s1 \<Rightarrow> Ok data (s1\<lparr>bytes_left := bytes_left s1 - count\<rparr>)
        | Fail s1 \<Rightarrow> return_error s1 ''io error''
        | UB \<Rightarrow> UB
        | NoFuel \<Rightarrow> NoFuel))"

text \<open>The loop that skips input through a 16-byte scratch buffer.\<close>

function pb_read_skip :: "'u istream \<Rightarrow> nat \<Rightarrow> (byte list, 'u istream) res" where
  "pb_read_skip s count =
     (if 16 < count
      then rbind (pb_read_checked s 16) (\<lambda>_ s1. pb_read_skip s1 (count - 16))
      else pb_read_checked s count)"
  by pat_completeness auto
termination
  by (relation "measure snd") auto

declare pb_read_skip.simps [simp del]

text \<open>\<open>pb_read\<close>; \<open>null_buf\<close> is \<open>buf == NULL\<close>, when no data is stored.\<close>

definition pb_read :: "'u istream \<Rightarrow> bool \<Rightarrow> nat \<Rightarrow> (byte list, 'u istream) res" where
  "pb_read s null_buf count =
     (if null_buf \<and> \<not> is_buffer s then pb_read_skip s count else pb_read_checked s count)"

definition pb_readbyte :: "'u istream \<Rightarrow> (byte, 'u istream) res" where
  "pb_readbyte s =
     (if bytes_left s = 0 then return_error s ''end-of-stream''
      else (case is_callback s 1 of
          Ok data s1 \<Rightarrow>
            (case data of [] \<Rightarrow> UB | b # _ \<Rightarrow> Ok b (s1\<lparr>bytes_left := bytes_left s1 - 1\<rparr>))
        | Fail s1 \<Rightarrow> return_error s1 ''io error''
        | UB \<Rightarrow> UB
        | NoFuel \<Rightarrow> NoFuel))"

lemma bytes_left_set_error [simp]: "bytes_left (set_error s msg) = bytes_left s"
  by (simp add: set_error_def split: option.split)

lemma src_set_error [simp]: "src (set_error s msg) = src s"
  by (simp add: set_error_def split: option.split)

lemma is_callback_bytes_left:
  "is_callback s n = Ok d s' \<Longrightarrow> bytes_left s' = bytes_left s"
  by (auto simp: is_callback_def buf_read_def split: source.splits option.splits if_splits prod.splits)

lemma pb_readbyte_decreases:
  "pb_readbyte s = Ok b s' \<Longrightarrow> bytes_left s' < bytes_left s"
  by (auto simp: pb_readbyte_def return_error_def dest: is_callback_bytes_left
      split: if_splits res.splits list.splits)

section \<open>Varints\<close>

text \<open>
  The multi-byte loop of \<open>pb_decode_varint32_eof\<close>. \<open>bitpos\<close> is a \<open>uint_fast8_t\<close>, 8 bits
  wide on the platforms of the app, so \<open>bitpos + 7\<close> wraps at 256; the loop returns the value,
  the last byte and the last \<open>bitpos\<close> for the check after it.
\<close>

definition varint32_step :: "u32 \<Rightarrow> byte \<Rightarrow> byte \<Rightarrow> u32 option" where
  "varint32_step result bitpos b =
     (if 32 \<le> bitpos
      then (let sign_extension = (if bitpos < 63 then 0xFF else 0x01)
            in if b AND 0x7F \<noteq> 0 \<and> (drop_bit 31 result = 0 \<or> b \<noteq> sign_extension)
               then None else Some result)
      else Some (result OR push_bit (unat bitpos) (ucast (b AND 0x7F))))"

function varint32_loop :: "'u istream \<Rightarrow> u32 \<Rightarrow> byte \<Rightarrow> (u32 \<times> byte \<times> byte, 'u istream) res" where
  "varint32_loop s result bitpos =
     rbind (pb_readbyte s) (\<lambda>b s1.
       case varint32_step result bitpos b of
         None \<Rightarrow> return_error s1 ''varint overflow''
       | Some result' \<Rightarrow>
           if b AND 0x80 \<noteq> 0 then varint32_loop s1 result' (bitpos + 7)
           else Ok (result', b, bitpos + 7) s1)"
  by pat_completeness auto
termination
  by (relation "measure (\<lambda>(s, _). bytes_left s)") (auto dest: pb_readbyte_decreases)

declare varint32_loop.simps [simp del]

text \<open>The check after the loop: a last byte at bit 28 may carry four bits only.\<close>

definition varint32_check :: "u32 \<times> byte \<times> byte \<Rightarrow> 'u istream \<Rightarrow> (u32, 'u istream) res" where
  "varint32_check = (\<lambda>(result, last, bitpos) s.
     if bitpos = 35 \<and> last AND 0x70 \<noteq> 0 then return_error s ''varint overflow'' else Ok result s)"

text \<open>
  \<open>pb_decode_varint32_eof\<close>: the first component is \<open>*eof\<close>, set only when the first byte
  cannot be read because the stream is at its end.
\<close>

definition pb_decode_varint32_eof :: "'u istream \<Rightarrow> bool \<times> (u32, 'u istream) res" where
  "pb_decode_varint32_eof s = (case pb_readbyte s of
     Fail s1 \<Rightarrow> (bytes_left s1 = 0, Fail s1)
   | UB \<Rightarrow> (False, UB)
   | NoFuel \<Rightarrow> (False, NoFuel)
   | Ok b s1 \<Rightarrow> (False,
       if b AND 0x80 = 0 then Ok (ucast b) s1
       else rbind (varint32_loop s1 (ucast (b AND 0x7F)) 7) varint32_check))"

definition pb_decode_varint32 :: "'u istream \<Rightarrow> (u32, 'u istream) res" where
  "pb_decode_varint32 s = snd (pb_decode_varint32_eof s)"

function varint_loop :: "'u istream \<Rightarrow> u64 \<Rightarrow> byte \<Rightarrow> (u64, 'u istream) res" where
  "varint_loop s result bitpos =
     (if 64 \<le> bitpos then return_error s ''varint overflow''
      else rbind (pb_readbyte s) (\<lambda>b s1.
        let result' = result OR push_bit (unat bitpos) (ucast (b AND 0x7F))
        in if b AND 0x80 \<noteq> 0 then varint_loop s1 result' (bitpos + 7) else Ok result' s1))"
  by pat_completeness auto
termination
  by (relation "measure (\<lambda>(s, _). bytes_left s)") (auto dest: pb_readbyte_decreases)

declare varint_loop.simps [simp del]

definition pb_decode_varint :: "'u istream \<Rightarrow> (u64, 'u istream) res" where
  "pb_decode_varint s = varint_loop s 0 0"

text \<open>Zig-zag decoding: the stored \<open>int64_t\<close> as its 64-bit pattern.\<close>

definition pb_decode_svarint :: "'u istream \<Rightarrow> (u64, 'u istream) res" where
  "pb_decode_svarint s = rbind (pb_decode_varint s) (\<lambda>value s1.
     Ok (if value AND 1 \<noteq> 0 then NOT (drop_bit 1 value) else drop_bit 1 value) s1)"

section \<open>Skipping fields, tags and fixed-width values\<close>

lemma pb_read_decreases:
  assumes "pb_read s False (Suc n) = Ok d s'"
  shows "bytes_left s' < bytes_left s"
  using assms
  by (auto simp: pb_read_def pb_read_checked_def return_error_def dest: is_callback_bytes_left
      split: if_splits res.splits)

function pb_skip_varint :: "'u istream \<Rightarrow> (unit, 'u istream) res" where
  "pb_skip_varint s =
     rbind (pb_read s False (Suc 0)) (\<lambda>d s1.
       case d of [] \<Rightarrow> UB
       | b # _ \<Rightarrow> if b AND 0x80 \<noteq> 0 then pb_skip_varint s1 else Ok () s1)"
  by pat_completeness auto
termination
  by (relation "measure bytes_left") (auto dest: pb_read_decreases)

declare pb_skip_varint.simps [simp del]

definition pb_skip_string :: "'u istream \<Rightarrow> (unit, 'u istream) res" where
  "pb_skip_string s = rbind (pb_decode_varint32 s) (\<lambda>length s1.
     rbind (pb_read s1 True (unat length)) (\<lambda>_ s2. Ok () s2))"

text \<open>\<open>pb_decode_tag\<close>: \<open>*eof\<close>, and on success the wire type and the tag.\<close>

definition pb_decode_tag :: "'u istream \<Rightarrow> bool \<times> (u32 \<times> u32, 'u istream) res" where
  "pb_decode_tag s = (case pb_decode_varint32_eof s of
     (_, Ok temp s1) \<Rightarrow>
       if temp = 0 then (True, Fail s1) else (False, Ok (temp AND 7, drop_bit 3 temp) s1)
   | (eof, Fail s1) \<Rightarrow> (eof, Fail s1)
   | (_, UB) \<Rightarrow> (False, UB)
   | (_, NoFuel) \<Rightarrow> (False, NoFuel))"

definition pb_skip_field :: "'u istream \<Rightarrow> u32 \<Rightarrow> (unit, 'u istream) res" where
  "pb_skip_field s wire_type =
     (if wire_type = PB_WT_VARINT then pb_skip_varint s
      else if wire_type = PB_WT_64BIT then rbind (pb_read s True 8) (\<lambda>_ s1. Ok () s1)
      else if wire_type = PB_WT_STRING then pb_skip_string s
      else if wire_type = PB_WT_32BIT then rbind (pb_read s True 4) (\<lambda>_ s1. Ok () s1)
      else return_error s ''invalid wire_type'')"

text \<open>
  \<open>read_raw_value\<close>: the bytes of one scalar, at most \<open>max_size\<close> of them; too long a varint
  fails without a message.
\<close>

fun read_raw_varint :: "nat \<Rightarrow> 'u istream \<Rightarrow> (byte list, 'u istream) res" where
  "read_raw_varint 0 s = Fail s"
| "read_raw_varint (Suc room) s = rbind (pb_read s False 1) (\<lambda>d s1.
     case d of [] \<Rightarrow> UB
     | b # _ \<Rightarrow> if b AND 0x80 \<noteq> 0
         then rbind (read_raw_varint room s1) (\<lambda>bs s2. Ok (b # bs) s2) else Ok [b] s1)"

definition read_raw_value :: "'u istream \<Rightarrow> u32 \<Rightarrow> nat \<Rightarrow> (byte list, 'u istream) res" where
  "read_raw_value s wire_type max_size =
     (if wire_type = PB_WT_VARINT then read_raw_varint max_size s
      else if wire_type = PB_WT_64BIT then pb_read s False 8
      else if wire_type = PB_WT_32BIT then pb_read s False 4
      else return_error s ''invalid wire_type'')"

definition pb_decode_fixed32 :: "'u istream \<Rightarrow> (u32, 'u istream) res" where
  "pb_decode_fixed32 s = rbind (pb_read s False 4) (\<lambda>bytes s1.
     case bytes of
       [b0, b1, b2, b3] \<Rightarrow> Ok (push_bit 0 (ucast b0) OR push_bit 8 (ucast b1)
         OR push_bit 16 (ucast b2) OR push_bit 24 (ucast b3)) s1
     | _ \<Rightarrow> UB)"

definition pb_decode_fixed64 :: "'u istream \<Rightarrow> (u64, 'u istream) res" where
  "pb_decode_fixed64 s = rbind (pb_read s False 8) (\<lambda>bytes s1.
     case bytes of
       [b0, b1, b2, b3, b4, b5, b6, b7] \<Rightarrow> Ok (push_bit 0 (ucast b0) OR push_bit 8 (ucast b1)
         OR push_bit 16 (ucast b2) OR push_bit 24 (ucast b3) OR push_bit 32 (ucast b4)
         OR push_bit 40 (ucast b5) OR push_bit 48 (ucast b6) OR push_bit 56 (ucast b7)) s1
     | _ \<Rightarrow> UB)"

section \<open>Substreams\<close>

text \<open>
  \<open>pb_make_string_substream\<close> returns the substream; the parent gives up the bytes at once,
  its state moves only when the substream is closed.
\<close>

definition pb_make_string_substream :: "'u istream \<Rightarrow> ('u istream, 'u istream) res" where
  "pb_make_string_substream s = rbind (pb_decode_varint32 s) (\<lambda>size s1.
     if bytes_left s1 < unat size then return_error s1 ''parent stream too short''
     else Ok (s1\<lparr>bytes_left := unat size\<rparr>)
             (s1\<lparr>bytes_left := bytes_left s1 - unat size\<rparr>))"

definition pb_close_string_substream ::
    "'u istream \<Rightarrow> 'u istream \<Rightarrow> (unit, 'u istream) res" where
  "pb_close_string_substream stream substream =
     (let finish = (\<lambda>sub. Ok () (stream\<lparr>src := src sub, errmsg := errmsg sub\<rparr>))
      in if bytes_left substream \<noteq> 0
         then (case pb_read substream True (bytes_left substream) of
             Ok _ sub \<Rightarrow> finish sub
           | Fail _ \<Rightarrow> Fail stream
           | UB \<Rightarrow> UB
           | NoFuel \<Rightarrow> NoFuel)
         else finish substream)"

end
