(* ===== verification/Pb_Ostream.thy ===== *)
theory Pb_Ostream
  imports Prelude
begin

text \<open>
  Output streams of nanopb (\<open>pb_encode.c\<close>, \<open>pb_encode.h\<close>): the stream structure, writing,
  and the encoders of varints, tags, fixed-width values and strings.

  \<open>ONull\<close> is a stream with a NULL callback, which only counts (\<open>PB_OSTREAM_SIZING\<close>);
  \<open>OBuf buf pos\<close> is the library's \<open>buf_write\<close> with its state at offset \<open>pos\<close> of the
  buffer \<open>buf\<close>; \<open>OUser f u\<close> is a user callback with state \<open>u\<close>. The sizes are \<open>size_t\<close>, 64 bits
  wide, so the sum \<open>bytes_written + count\<close> wraps as in the code.
\<close>

section \<open>The stream\<close>

datatype 'u sink =
    ONull
  | OBuf "byte list" nat
  | OUser "'u \<Rightarrow> byte list \<Rightarrow> bool \<times> 'u" 'u

record 'u ostream =
  snk :: "'u sink"
  max_size :: u64
  bytes_written :: u64
  o_errmsg :: "string option"

definition o_set_error :: "'u ostream \<Rightarrow> string \<Rightarrow> 'u ostream" where
  "o_set_error s msg = (case o_errmsg s of None \<Rightarrow> s\<lparr>o_errmsg := Some msg\<rparr> | Some _ \<Rightarrow> s)"

definition o_return_error :: "'u ostream \<Rightarrow> string \<Rightarrow> ('a, 'u ostream) res" where
  "o_return_error s msg = Fail (o_set_error s msg)"

definition PB_OSTREAM_SIZING :: "'u ostream" where
  "PB_OSTREAM_SIZING = \<lparr>snk = ONull, max_size = 0, bytes_written = 0, o_errmsg = None\<rparr>"

text \<open>
  \<open>buf_write\<close> stores \<open>data\<close> at the state pointer and advances it; a write past the end of
  the buffer is undefined behaviour.
\<close>

definition buf_write :: "byte list \<Rightarrow> nat \<Rightarrow> byte list \<Rightarrow> (byte list \<times> nat) option" where
  "buf_write dest pos data =
     (if pos + length data \<le> length dest
      then Some (take pos dest @ data @ drop (pos + length data) dest, pos + length data)
      else None)"

definition pb_ostream_from_buffer :: "byte list \<Rightarrow> u64 \<Rightarrow> 'u ostream" where
  "pb_ostream_from_buffer buf bufsize =
     \<lparr>snk = OBuf buf 0, max_size = bufsize, bytes_written = 0, o_errmsg = None\<rparr>"

definition is_sizing :: "'u ostream \<Rightarrow> bool" where
  "is_sizing s = (case snk s of ONull \<Rightarrow> True | _ \<Rightarrow> False)"

text \<open>
  \<open>pb_write\<close> of \<open>count\<close> bytes. \<open>data\<close> holds the bytes at \<open>buf\<close>; it is \<open>[]\<close> where the code
  passes NULL, and a stream that stores then reads \<open>buf\<close> out of bounds unless the count is 0.
\<close>

definition pb_write :: "'u ostream \<Rightarrow> byte list \<Rightarrow> u64 \<Rightarrow> (unit, 'u ostream) res" where
  "pb_write s data count =
     (let done = (\<lambda>s1. Ok () (s1\<lparr>bytes_written := bytes_written s1 + count\<rparr>))
      in case snk s of
        ONull \<Rightarrow> done s
      | OBuf buf pos \<Rightarrow>
          if max_size s < bytes_written s + count then o_return_error s ''stream full''
          else if length data < unat count then UB
          else (case buf_write buf pos (take (unat count) data) of
              None \<Rightarrow> UB
            | Some (buf', pos') \<Rightarrow> done (s\<lparr>snk := OBuf buf' pos'\<rparr>))
      | OUser f u \<Rightarrow>
          if max_size s < bytes_written s + count then o_return_error s ''stream full''
          else if length data < unat count then UB
          else (case f u (take (unat count) data) of
              (ok, u') \<Rightarrow>
                if ok then done (s\<lparr>snk := OUser f u'\<rparr>)
                else o_return_error (s\<lparr>snk := OUser f u'\<rparr>) ''io error''))"

section \<open>Varints, tags and fixed-width values\<close>

text \<open>The bytes stored by the loop of \<open>pb_encode_varint\<close>, each with the top bit set.\<close>

function varint_groups :: "u64 \<Rightarrow> byte list" where
  "varint_groups value =
     (if value \<noteq> 0 then ucast ((value AND 0x7F) OR 0x80) # varint_groups (drop_bit 7 value)
      else [])"
  by pat_completeness auto
termination
proof (relation "measure unat")
  fix v :: u64
  assume "v \<noteq> 0"
  then have "unat (drop_bit 7 v) < unat v"
    by (simp add: drop_bit_eq_div unat_div unat_gt_0)
  then show "(drop_bit 7 v, v) \<in> measure unat" by simp
qed simp

declare varint_groups.simps [simp del]

text \<open>\<open>buffer[i - 1] &= 0x7F\<close> on the last byte.\<close>

definition clear_last :: "byte list \<Rightarrow> byte list" where
  "clear_last bs = (if bs = [] then [] else butlast bs @ [last bs AND 0x7F])"

definition varint_bytes :: "u64 \<Rightarrow> byte list" where
  "varint_bytes value =
     (if value \<le> 0x7F then [ucast value] else clear_last (varint_groups value))"

definition pb_encode_varint :: "'u ostream \<Rightarrow> u64 \<Rightarrow> (unit, 'u ostream) res" where
  "pb_encode_varint s value =
     (let buffer = varint_bytes value in pb_write s buffer (of_nat (length buffer)))"

text \<open>\<open>pb_encode_svarint\<close> of an \<open>int64_t\<close> given by its 64-bit pattern.\<close>

definition zigzag :: "u64 \<Rightarrow> u64" where
  "zigzag value = (if value <s 0 then NOT (push_bit 1 value) else push_bit 1 value)"

definition pb_encode_svarint :: "'u ostream \<Rightarrow> u64 \<Rightarrow> (unit, 'u ostream) res" where
  "pb_encode_svarint s value = pb_encode_varint s (zigzag value)"

definition fixed32_bytes :: "u32 \<Rightarrow> byte list" where
  "fixed32_bytes val =
     [ucast (val AND 0xFF), ucast (drop_bit 8 val AND 0xFF),
      ucast (drop_bit 16 val AND 0xFF), ucast (drop_bit 24 val AND 0xFF)]"

definition pb_encode_fixed32 :: "'u ostream \<Rightarrow> u32 \<Rightarrow> (unit, 'u ostream) res" where
  "pb_encode_fixed32 s val = pb_write s (fixed32_bytes val) 4"

definition fixed64_bytes :: "u64 \<Rightarrow> byte list" where
  "fixed64_bytes val =
     [ucast (val AND 0xFF), ucast (drop_bit 8 val AND 0xFF),
      ucast (drop_bit 16 val AND 0xFF), ucast (drop_bit 24 val AND 0xFF),
      ucast (drop_bit 32 val AND 0xFF), ucast (drop_bit 40 val AND 0xFF),
      ucast (drop_bit 48 val AND 0xFF), ucast (drop_bit 56 val AND 0xFF)]"

definition pb_encode_fixed64 :: "'u ostream \<Rightarrow> u64 \<Rightarrow> (unit, 'u ostream) res" where
  "pb_encode_fixed64 s val = pb_write s (fixed64_bytes val) 8"

text \<open>The tag value: the field number is widened to 64 bits before the shift.\<close>

definition tag_value :: "u32 \<Rightarrow> u32 \<Rightarrow> u64" where
  "tag_value wiretype field_number = push_bit 3 (ucast field_number) OR ucast wiretype"

definition pb_encode_tag :: "'u ostream \<Rightarrow> u32 \<Rightarrow> u32 \<Rightarrow> (unit, 'u ostream) res" where
  "pb_encode_tag s wiretype field_number = pb_encode_varint s (tag_value wiretype field_number)"

definition pb_encode_string :: "'u ostream \<Rightarrow> byte list \<Rightarrow> u64 \<Rightarrow> (unit, 'u ostream) res" where
  "pb_encode_string s buffer sz =
     rbind (pb_encode_varint s sz) (\<lambda>_ s1. pb_write s1 buffer sz)"

section \<open>Writing: bounds and the agreement of sizing and storing streams\<close>

text \<open>
  The stream never overruns: what was written fits the limit, and a buffer stream's pointer
  has moved by \<open>bytes_written\<close> inside a buffer at least as long as the limit.
\<close>

definition ostream_ok :: "'u ostream \<Rightarrow> bool" where
  "ostream_ok s \<longleftrightarrow> (case snk s of
     ONull \<Rightarrow> True
   | OBuf buf pos \<Rightarrow> bytes_written s \<le> max_size s \<and>
       pos + unat (max_size s - bytes_written s) \<le> length buf
   | OUser _ _ \<Rightarrow> bytes_written s \<le> max_size s)"

text \<open>A count that does not wrap \<open>bytes_written + count\<close>.\<close>

definition no_wrap :: "'u ostream \<Rightarrow> u64 \<Rightarrow> bool" where
  "no_wrap s count \<longleftrightarrow> unat (bytes_written s) + unat count < 2 ^ 64"

lemma o_set_error_simps [simp]:
  "snk (o_set_error s m) = snk s" "max_size (o_set_error s m) = max_size s"
  "bytes_written (o_set_error s m) = bytes_written s"
  by (simp_all add: o_set_error_def split: option.split)

lemma ostream_ok_set_error [simp]: "ostream_ok (o_set_error s m) = ostream_ok s"
  by (simp add: ostream_ok_def split: sink.splits)

lemma ostream_ok_from_buffer:
  "unat bufsize \<le> length buf \<Longrightarrow> ostream_ok (pb_ostream_from_buffer buf bufsize)"
  by (simp add: ostream_ok_def pb_ostream_from_buffer_def)

lemma ostream_ok_sizing [simp]: "ostream_ok PB_OSTREAM_SIZING"
  by (simp add: ostream_ok_def PB_OSTREAM_SIZING_def)

lemma unat_plus_no_wrap:
  "no_wrap s count \<Longrightarrow> unat (bytes_written s + count) = unat (bytes_written s) + unat count"
  by (simp add: no_wrap_def unat_word_ariths)

text \<open>The bytes a stream has stored since it started: the prefix of its buffer.\<close>

fun stored :: "'u sink \<Rightarrow> byte list" where
  "stored (OBuf buf pos) = take pos buf"
| "stored _ = []"

definition is_obuf :: "'u ostream \<Rightarrow> bool" where
  "is_obuf s = (case snk s of OBuf _ _ \<Rightarrow> True | _ \<Rightarrow> False)"

end
