(* ===== verification/Pb_Wire.thy ===== *)
theory Pb_Wire
  imports Pb_Istream Pb_Ostream
begin

text \<open>
  The wire format of nanopb: what the primitive encoders of \<open>pb_encode.c\<close> write is what the
  primitive decoders of \<open>pb_decode.c\<close> read. The contract of one value on the wire is the
  locale \<open>wire_codec\<close>; its consequences (injectivity, self-delimitation, sequences) are proved
  once and interpreted for varints, zig-zag varints, fixed-width values and tags.
\<close>

section \<open>Reading from a buffer stream\<close>

definition consume :: "nat \<Rightarrow> 'u istream \<Rightarrow> 'u istream" where
  "consume n s = (case src s of
     IBuf bs \<Rightarrow> s\<lparr>src := IBuf (drop n bs), bytes_left := bytes_left s - n\<rparr>
   | IUser _ _ \<Rightarrow> s)"

text \<open>The stream has the bytes \<open>bs\<close> in front and may read all of them.\<close>

definition offers :: "'u istream \<Rightarrow> byte list \<Rightarrow> byte list \<Rightarrow> bool" where
  "offers s bs rest \<longleftrightarrow> src s = IBuf (bs @ rest) \<and> length bs \<le> bytes_left s"

lemma consume_0 [simp]: "consume 0 s = s"
  by (cases s) (simp add: consume_def split: source.split)

lemma consume_consume [simp]: "consume m (consume n s) = consume (n + m) s"
  by (simp add: consume_def drop_drop add.commute split: source.split)

lemma bytes_left_consume: "src s = IBuf bs \<Longrightarrow> bytes_left (consume n s) = bytes_left s - n"
  by (simp add: consume_def)

lemma offers_consume [simp]:
  "offers s (bs @ cs) rest \<Longrightarrow> offers (consume (length bs) s) cs rest"
  by (auto simp: offers_def consume_def)

lemma offers_append1: "offers s (bs @ cs) rest \<Longrightarrow> offers s bs (cs @ rest)"
  by (auto simp: offers_def)

lemma offers_Cons: "offers s (b # cs) rest \<Longrightarrow> offers (consume (Suc 0) s) cs rest"
  by (auto simp: offers_def consume_def)

lemma offers_from_buffer: "offers (pb_istream_from_buffer (bs @ rest) (length bs)) bs rest"
  by (simp add: offers_def pb_istream_from_buffer_def)

lemma pb_readbyte_offers [simp]:
  "offers s (b # bs) rest \<Longrightarrow> pb_readbyte s = Ok b (consume (Suc 0) s)"
  by (auto simp: offers_def pb_readbyte_def is_callback_def buf_read_def consume_def)

lemma pb_read_offers [simp]:
  assumes "offers s bs rest" and "n = length bs"
  shows "pb_read s null n = Ok bs (consume n s)"
  using assms
  by (auto simp: offers_def pb_read_def is_buffer_def pb_read_checked_def is_callback_def
      buf_read_def consume_def)

section \<open>One value on the wire\<close>

locale wire_codec =
  fixes enc :: "'v \<Rightarrow> byte list"
    and dec :: "'u istream \<Rightarrow> ('v, 'u istream) res"
    and valid :: "'v \<Rightarrow> bool"
  assumes dec_enc:
      "valid v \<Longrightarrow> offers s (enc v) rest \<Longrightarrow> dec s = Ok v (consume (length (enc v)) s)"
    and enc_nonempty: "valid v \<Longrightarrow> enc v \<noteq> []"
begin

text \<open>No encoding is a proper prefix of another: the first value can always be cut off.\<close>

lemma prefix_free:
  assumes "valid v" "valid w" "enc v @ r = enc w @ t"
  shows "v = w \<and> r = t"
proof -
  let ?n = "length (enc v) + length (enc w)"
  let ?s = "pb_istream_from_buffer (enc v @ r) ?n :: 'u istream"
  have v: "offers ?s (enc v) r" and w: "offers ?s (enc w) t"
    using assms(3) by (simp_all add: offers_def pb_istream_from_buffer_def)
  have "v = w"
    using dec_enc [OF assms(1) v] dec_enc [OF assms(2) w] by simp
  then show ?thesis using assms(3) by simp
qed

lemma enc_inj: "valid v \<Longrightarrow> valid w \<Longrightarrow> enc v = enc w \<Longrightarrow> v = w"
  using prefix_free [of v w "[]" "[]"] by simp

text \<open>A packed sequence: decoding until the stream is used up gives the values back.\<close>

lemma dec_sequence:
  assumes "\<forall>v \<in> set vs. valid v" and "offers s (concat (map enc vs)) rest"
  shows "fold (\<lambda>v m. rbind m (\<lambda>acc t. rbind (dec t) (\<lambda>x u. Ok (acc @ [x]) u))) vs (Ok acc s) =
    Ok (acc @ vs) (consume (length (concat (map enc vs))) s)"
  using assms
proof (induction vs arbitrary: s acc)
  case Nil
  then show ?case by simp
next
  case (Cons v vs)
  have "dec s = Ok v (consume (length (enc v)) s)"
    using dec_enc [OF _ offers_append1] Cons.prems by simp
  moreover have "offers (consume (length (enc v)) s) (concat (map enc vs)) rest"
    using Cons.prems(2) by simp
  ultimately show ?case
    using Cons.IH Cons.prems(1) by simp
qed

end

section \<open>Varints\<close>

lemma bit_7_last_group: "drop_bit 7 v = 0 \<Longrightarrow> \<not> bit (ucast v :: byte) 7" for v :: u64
  by (simp add: drop_bit_zero_iff bit_simps)

lemma bit_7_more: "bit (ucast ((v AND 0x7F) OR 0x80) :: byte) 7" for v :: u64
  unfolding or_80 by (simp add: bit_simps)

lemma le_7F_iff: "(v :: u64) \<le> 0x7F \<longleftrightarrow> drop_bit 7 v = 0"
proof -
  have "drop_bit 7 v = 0 \<longleftrightarrow> unat v div 128 = 0"
    by (simp add: drop_bit_eq_div word_eq_iff_unsigned unat_div flip: unat_eq_zero)
  then show ?thesis by (auto simp add: word_le_nat_alt div_eq_0_iff)
qed

lemma last_group: "(ucast ((v AND 0x7F) OR 0x80) :: byte) AND 0x7F = ucast (v AND (0x7F :: u64))"
  unfolding and_7F or_80 by (rule bit_eqI) (auto simp: bit_simps)

lemma ucast_last: "drop_bit 7 v = 0 \<Longrightarrow> ucast (v AND 0x7F) = (ucast v :: byte)" for v :: u64
  unfolding and_7F drop_bit_zero_iff
  by (rule bit_eqI) (auto simp: bit_simps not_le)

lemma varint_groups_0 [simp]: "varint_groups 0 = []"
  by (subst varint_groups.simps) simp

lemma varint_groups_nonzero:
  "v \<noteq> 0 \<Longrightarrow> varint_groups v = ucast ((v AND 0x7F) OR 0x80) # varint_groups (drop_bit 7 v)"
  by (subst varint_groups.simps) simp

lemma varint_groups_eq_Nil [simp]: "varint_groups v = [] \<longleftrightarrow> v = 0"
  by (cases "v = 0") (simp_all add: varint_groups_nonzero)

lemma clear_last_Cons: "bs \<noteq> [] \<Longrightarrow> clear_last (b # bs) = b # clear_last bs"
  by (simp add: clear_last_def)

lemma clear_last_groups:
  assumes "v \<noteq> 0"
  shows "clear_last (varint_groups v) = 
    (if drop_bit 7 v = 0 then [ucast v]
     else ucast ((v AND 0x7F) OR 0x80) # clear_last (varint_groups (drop_bit 7 v)))"
proof (cases "drop_bit 7 v = 0")
  case True
  then show ?thesis using assms
    by (simp add: varint_groups_nonzero clear_last_def last_group ucast_last)
next
  case False
  then show ?thesis using assms by (simp add: varint_groups_nonzero [of v] clear_last_Cons)
qed

lemma varint_bytes_rec:
  "varint_bytes v =
    (if drop_bit 7 v = 0 then [ucast v]
     else ucast ((v AND 0x7F) OR 0x80) # varint_bytes (drop_bit 7 v))"
proof (cases "drop_bit 7 v = 0")
  case False
  then have "v \<noteq> 0" by auto
  with False show ?thesis
    by (auto simp add: varint_bytes_def le_7F_iff clear_last_groups [of v] clear_last_groups [of "drop_bit 7 v"])
qed (simp add: varint_bytes_def le_7F_iff)

lemma drop_bit_ge_size: "LENGTH('a) \<le> n \<Longrightarrow> drop_bit n v = 0" for v :: "'a::len word"
  by (auto simp: drop_bit_zero_iff dest: bit_imp_le_length)

lemma ucast_take_last: "drop_bit 7 v = 0 \<Longrightarrow> ucast (ucast v AND 0x7F :: byte) = v" for v :: u64
proof (rule bit_eqI)
  fix n
  assume "drop_bit 7 v = 0"
  then have "n < 7" if "bit v n"
    using that by (auto simp: drop_bit_zero_iff intro: leI)
  then show "bit (ucast (ucast v AND 0x7F :: byte) :: u64) n = bit v n"
    unfolding and_7F by (auto simp: bit_simps dest: bit_imp_le_length)
qed

lemma take_or_push_drop: "take_bit n V OR push_bit n (drop_bit n V) = V" for V :: "'a::len word"
proof (rule bit_word_eqI)
  fix m
  assume "m < LENGTH('a)"
  then show "bit (take_bit n V OR push_bit n (drop_bit n V)) m = bit V m"
    by (cases "m < n") (simp_all add: bit_simps)
qed

lemma ucast_take_more: "ucast (ucast ((v AND 0x7F) OR 0x80) AND 0x7F :: byte) = take_bit 7 v" for v :: u64
  unfolding and_7F or_80
  by (rule bit_eqI) (auto simp: bit_simps not_le)

lemma varint_loop_bytes:
  assumes "n < 64" and "offers s (varint_bytes (drop_bit n V)) rest"
  shows "varint_loop s (take_bit n V) (of_nat n) =
    Ok V (consume (length (varint_bytes (drop_bit n V))) s)"
  using assms
proof (induction "64 - n" arbitrary: n s rule: less_induct)
  case less
  let ?v = "drop_bit n V"
  have n: "unat (of_nat n :: byte) = n" "\<not> (64 :: byte) \<le> of_nat n"
    using less.prems(1) by (simp_all add: unat_of_nat word_le_nat_alt)
  show ?case
  proof (cases "drop_bit 7 ?v = 0")
    case True
    with less.prems(2) show ?thesis
      by (simp add: take_or_push_drop varint_loop.simps [of s] n varint_bytes_rec [of ?v] and_80 bit_7_last_group
          ucast_take_last)
  next
    case False
    then have "n + 7 < 64"
      using drop_bit_ge_size [of "n + 7" V] by (auto simp: add.commute intro: ccontr)
    moreover have "(of_nat n :: byte) + 7 = of_nat (n + 7)" by simp
    ultimately show ?thesis
      using less.hyps [of "n + 7" "consume (Suc 0) s"] less.prems False
      by (simp add: varint_loop.simps [of s] n varint_bytes_rec [of ?v] and_80 bit_7_more
          ucast_take_more take_bit_or_push7 offers_Cons add.commute)
  qed
qed

lemma pb_decode_varint_bytes:
  "offers s (varint_bytes v) rest \<Longrightarrow> pb_decode_varint s = Ok v (consume (length (varint_bytes v)) s)"
  using varint_loop_bytes [of 0 s v rest] by (simp add: pb_decode_varint_def)


section \<open>32-bit varints\<close>

lemma ucast_take_last32:
  "drop_bit 7 (drop_bit n v) = 0 \<Longrightarrow>
   take_bit n (ucast v) OR push_bit n (ucast (ucast (drop_bit n v) AND 0x7F :: byte)) = (ucast v :: u32)"
  for v :: u64
proof (rule bit_word_eqI)
  fix m
  assume z: "drop_bit 7 (drop_bit n v) = 0" and m: "m < LENGTH(32)"
  have "m - n < 7" if "bit v m"
    using that z by (force simp: drop_bit_drop_bit drop_bit_zero_iff not_le [symmetric])
  with m show "bit (take_bit n (ucast v :: u32) OR push_bit n (ucast (ucast (drop_bit n v) AND 0x7F :: byte))) m =
      bit (ucast v :: u32) m"
    unfolding and_7F by (cases "m < n") (auto simp: bit_simps)
qed

lemma ucast_take_more32:
  "take_bit n (ucast v :: u32) OR push_bit n (ucast (ucast ((drop_bit n v AND 0x7F) OR 0x80) AND 0x7F :: byte))
   = take_bit (n + 7) (ucast v :: u32)" for v :: u64
proof (rule bit_word_eqI)
  fix m
  assume m: "m < LENGTH(32)"
  then show "bit (take_bit n (ucast v :: u32) OR push_bit n (ucast (ucast ((drop_bit n v AND 0x7F) OR 0x80) AND 0x7F :: byte))) m
    = bit (take_bit (n + 7) (ucast v :: u32)) m"
    unfolding and_7F or_80 by (cases "m < n") (auto simp: bit_simps)
qed

text \<open>The result of the loop where the value fits: all groups up to bit 31.\<close>

lemma varint32_loop_fits:
  fixes V :: u64
  assumes "n < 32" and "drop_bit 32 V = 0" and "offers s (varint_bytes (drop_bit n V)) rest"
  shows "\<exists>last bp. varint32_loop s (take_bit n (ucast V)) (of_nat n) =
      Ok (ucast V, last, bp) (consume (length (varint_bytes (drop_bit n V))) s) \<and>
      (bp = 35 \<longrightarrow> last AND 0x70 = 0)"
  using assms(1,3)
proof (induction "32 - n" arbitrary: n s rule: less_induct)
  case less
  let ?v = "drop_bit n V"
  have n: "unat (of_nat n :: byte) = n" "\<not> (32 :: byte) \<le> of_nat n"
    using less.prems(1) by (simp_all add: unat_of_nat word_le_nat_alt)
  show ?case
  proof (cases "drop_bit 7 ?v = 0")
    case True
    have "(ucast ?v :: byte) AND 0x70 = 0" if "(of_nat n :: byte) + 7 = 35"
    proof -
      have "unat ((of_nat n :: byte) + 7) = n + 7"
        using less.prems(1) by (simp add: unat_word_ariths n)
      then have "n = 28" using that by simp
      then have "take_bit 4 (ucast ?v :: byte) = ucast ?v"
        using assms(2) by (intro bit_eqI) (force simp: bit_simps drop_bit_zero_iff not_le [symmetric])
      then have "(ucast ?v :: byte) AND 0x70 = ucast ?v AND (mask 4 AND 0x70)"
        by (metis and.assoc take_bit_eq_mask)
      then show ?thesis by (simp add: mask_eq_exp_minus_1)
    qed
    with True less.prems(2) show ?thesis
      by (simp add: varint32_loop.simps [of s] varint32_step_def n varint_bytes_rec [of ?v] and_80
          bit_7_last_group ucast_take_last32)
  next
    case False
    then have "n + 7 < 32"
      using assms(2) by (auto simp: drop_bit_zero_iff intro: ccontr)
    moreover have "(of_nat n :: byte) + 7 = of_nat (n + 7)" by simp
    ultimately show ?thesis
      using less.hyps [of "n + 7" "consume (Suc 0) s"] less.prems False
      by (simp add: varint32_loop.simps [of s] varint32_step_def n varint_bytes_rec [of ?v] and_80
          bit_7_more ucast_take_more32 offers_Cons add.commute)
  qed
qed

lemma byte_last7: "drop_bit 7 v = 0 \<Longrightarrow> (ucast v :: byte) AND 0x7F = ucast v" for v :: u64
  unfolding and_7F
  by (rule bit_eqI) (force simp: bit_simps drop_bit_zero_iff not_le [symmetric])

lemma pb_decode_varint32_bytes:
  fixes w :: u32
  assumes "offers s (varint_bytes (ucast w)) rest"
  shows "pb_decode_varint32 s = Ok w (consume (length (varint_bytes (ucast w))) s)"
proof -
  let ?V = "ucast w :: u64"
  have V: "drop_bit 32 ?V = 0" "(ucast ?V :: u32) = w"
    by (auto simp: drop_bit_zero_iff bit_simps dest: bit_imp_le_length intro!: bit_word_eqI)
  show ?thesis
  proof (cases "drop_bit 7 ?V = 0")
    case True
    have "(ucast (ucast ?V :: byte) :: u32) = w"
      using ucast_take_last32 [of 0 ?V] True V(2) byte_last7 [OF True] by simp
    with True assms show ?thesis
      by (simp add: pb_decode_varint32_def pb_decode_varint32_eof_def varint_bytes_rec [of ?V]
          and_80 bit_7_last_group)
  next
    case False
    let ?s = "consume (Suc 0) s"
    have 1: "(ucast ((ucast ((?V AND 0x7F) OR 0x80) :: byte) AND 0x7F) :: u32) = take_bit 7 (ucast ?V)"
      using ucast_take_more32 [of 0 ?V] by simp
    have "offers ?s (varint_bytes (drop_bit 7 ?V)) rest"
      using assms False by (simp add: varint_bytes_rec [of ?V] offers_Cons)
    from varint32_loop_fits [OF _ V(1) this] obtain last bp where
      "varint32_loop ?s (take_bit 7 (ucast ?V)) 7 =
        Ok (w, last, bp) (consume (length (varint_bytes (drop_bit 7 ?V))) ?s)"
      "bp = 35 \<longrightarrow> last AND 0x70 = 0"
      by (auto simp: V(2))
    with False assms 1 show ?thesis
      by (auto simp add: pb_decode_varint32_def pb_decode_varint32_eof_def varint_bytes_rec [of ?V]
          and_80 bit_7_more varint32_check_def)
  qed
qed

text \<open>
  Beyond bit 31 the loop only checks: while the result is not negative every group must be
  zero, so a varint that goes on with a nonzero value is refused.
\<close>

lemma varint32_loop_rejects:
  fixes V :: u64
  assumes "drop_bit 31 r = 0" and "32 \<le> n" and "n < 64" and "drop_bit n V \<noteq> 0"
    and "offers s (varint_bytes (drop_bit n V)) rest"
  shows "\<exists>t. varint32_loop s r (of_nat n) = return_error t ''varint overflow'' \<and> errmsg t = errmsg s"
  using assms(2-)
proof (induction "64 - n" arbitrary: n s rule: less_induct)
  case less
  let ?v = "drop_bit n V"
  have n: "(32 :: byte) \<le> of_nat n"
    using less.prems(1,2) by (simp add: unat_of_nat word_le_nat_alt)
  have cons [simp]: "errmsg (consume k s) = errmsg s" for k
    by (simp add: consume_def split: source.split)
  show ?case
  proof (cases "drop_bit 7 ?v = 0")
    case True
    have "(ucast ?v :: byte) AND 0x7F \<noteq> 0"
      using ucast_take_last [OF True] less.prems(3) by (metis ucast_0)
    with True less.prems(4) assms(1) n show ?thesis
      by (auto simp add: varint32_loop.simps [of s] varint32_step_def varint_bytes_rec [of ?v]
          intro!: exI [of _ "consume (Suc 0) s"])
  next
    case False
    then have m: "n + 7 < 64"
      using drop_bit_ge_size [of "n + 7" V] by (auto simp: add.commute intro: ccontr)
    have "offers (consume (Suc 0) s) (varint_bytes (drop_bit (n + 7) V)) rest"
      using less.prems(4) False by (simp add: varint_bytes_rec [of ?v] offers_Cons add.commute)
    moreover have "drop_bit (n + 7) V \<noteq> 0" using False by (simp add: add.commute)
    moreover have "(of_nat n :: byte) + 7 = of_nat (n + 7)" by simp
    ultimately show ?thesis
      using less.hyps [of "n + 7" "consume (Suc 0) s"] less.prems m False assms(1) n
      by (auto simp add: varint32_loop.simps [of s] varint32_step_def varint_bytes_rec [of ?v]
          and_80 bit_7_more intro!: exI [of _ "consume (Suc 0) s"])
  qed
qed

lemma return_error_Fail: "return_error t m = Fail (set_error t m)"
  by (simp add: return_error_def)

lemma byte_high_bits:
  fixes v :: u64
  assumes "drop_bit 7 v = 0" and "drop_bit 4 v \<noteq> 0"
  shows "(ucast v :: byte) AND 0x70 \<noteq> 0"
proof -
  obtain m where m: "4 \<le> m" "bit v m" using assms(2) by (auto simp: drop_bit_zero_iff)
  then have "m < 7" using assms(1) by (force simp: drop_bit_zero_iff not_le [symmetric])
  have eq: "(0x70 :: byte) = mask 7 AND NOT (mask 4)" by (simp add: mask_eq_exp_minus_1)
  have "bit ((ucast v :: byte) AND 0x70) m"
    unfolding eq bit_and_iff bit_not_iff bit_mask_iff
    using m \<open>m < 7\<close> by (simp add: bit_simps)
  then show ?thesis by force
qed

lemma varint32_rejects_from:
  fixes V :: u64
  assumes "drop_bit 32 V \<noteq> 0" and "\<not> bit V 31"
    and "n mod 7 = 0" and "n < 32" and "offers s (varint_bytes (drop_bit n V)) rest"
  shows "\<exists>t. rbind (varint32_loop s (take_bit n (ucast V)) (of_nat n)) varint32_check = Fail t"
  using assms(3-)
proof (induction "32 - n" arbitrary: n s rule: less_induct)
  case less
  let ?v = "drop_bit n V" and ?s = "consume (Suc 0) s"
  have n: "unat (of_nat n :: byte) = n" "\<not> (32 :: byte) \<le> of_nat n"
    using less.prems(2) by (simp_all add: unat_of_nat word_le_nat_alt)
  have n28: "n = 28" if "\<not> n + 7 < 32" using that less.prems(1,2) by presburger
  show ?case
  proof (cases "drop_bit 7 ?v = 0")
    case True
    then have "n = 28"
      using assms(1) n28 by (force simp: drop_bit_zero_iff)
    then have "drop_bit 4 ?v \<noteq> 0" using assms(1) by simp
    from byte_high_bits [OF True this] True less.prems(3) n \<open>n = 28\<close> show ?thesis
      by (simp add: varint32_loop.simps [of s] varint32_step_def varint_bytes_rec [of "drop_bit 28 V"]
          and_80 bit_7_last_group ucast_take_last32 varint32_check_def return_error_Fail)
  next
    case False
    have off: "offers ?s (varint_bytes (drop_bit (n + 7) V)) rest"
      using less.prems(3) False by (simp add: varint_bytes_rec [of ?v] offers_Cons add.commute)
    have step: "varint32_loop s (take_bit n (ucast V)) (of_nat n) =
        varint32_loop ?s (take_bit (n + 7) (ucast V)) (of_nat (n + 7))"
      using less.prems(3) False n
      by (simp add: varint32_loop.simps [of s] varint32_step_def varint_bytes_rec [of ?v] and_80
          bit_7_more ucast_take_more32 add.commute)
    show ?thesis
    proof (cases "n + 7 < 32")
      case True
      then show ?thesis
        unfolding step using less.hyps [of "n + 7" ?s] less.prems(1) off by simp
    next
      case False
      then have "n = 28" by (rule n28)
      have "drop_bit 31 (take_bit 35 (ucast V) :: u32) = 0"
        unfolding drop_bit_zero_iff
      proof (intro allI impI)
        fix m :: nat
        assume "31 \<le> m"
        then show "\<not> bit (take_bit 35 (ucast V) :: u32) m"
          using assms(2) by (cases "m = 31") (auto simp: bit_simps dest: bit_imp_le_length)
      qed
      moreover have "drop_bit 35 V \<noteq> 0"
        using \<open>drop_bit 7 ?v \<noteq> 0\<close> \<open>n = 28\<close> by simp
      ultimately show ?thesis
        unfolding step using varint32_loop_rejects [of "take_bit 35 (ucast V)" 35 V ?s rest] off
        by (auto simp: \<open>n = 28\<close> return_error_Fail)
    qed
  qed
qed

lemma pb_decode_varint32_rejects:
  fixes V :: u64
  assumes "2 ^ 32 \<le> V" and "\<not> bit V 31" and "offers s (varint_bytes V) rest"
  shows "\<exists>t. pb_decode_varint32 s = Fail t"
proof -
  have 32: "drop_bit 32 V \<noteq> 0"
  proof
    assume "drop_bit 32 V = 0"
    then have "unat V div 2 ^ 32 = 0"
      by (metis drop_bit_eq_div unat_drop_bit_eq unsigned_0)
    with assms(1) show False by (simp add: word_le_nat_alt div_eq_0_iff)
  qed
  then have more: "drop_bit 7 V \<noteq> 0" by (force simp: drop_bit_zero_iff)
  have "(ucast ((ucast ((V AND 0x7F) OR 0x80) :: byte) AND 0x7F) :: u32) = take_bit 7 (ucast V)"
    using ucast_take_more32 [of 0 V] by simp
  moreover have "offers (consume (Suc 0) s) (varint_bytes (drop_bit 7 V)) rest"
    using assms(3) more by (simp add: varint_bytes_rec [of V] offers_Cons)
  ultimately show ?thesis
    using varint32_rejects_from [OF 32 assms(2), of 7 "consume (Suc 0) s" rest] assms(3) more
    by (simp add: pb_decode_varint32_def pb_decode_varint32_eof_def varint_bytes_rec [of V]
          and_80 bit_7_more varint32_check_def case_prod_unfold)
qed

section \<open>Zig-zag, fixed-width values and tags\<close>

definition unzigzag :: "u64 \<Rightarrow> u64" where
  "unzigzag z = (if z AND 1 \<noteq> 0 then NOT (drop_bit 1 z) else drop_bit 1 z)"

lemma and_1_iff: "(z :: 'a::len word) AND 1 \<noteq> 0 \<longleftrightarrow> bit z 0"
  by (simp add: and_one_eq mod_2_eq_odd bit_0)

lemma sless_0_iff: "(v :: u64) <s 0 \<longleftrightarrow> bit v 63"
  using bit_last_iff [of v] by (simp add: word_sless_alt)

lemma bit_zigzag:
  "bit (zigzag v) n \<longleftrightarrow> n < 64 \<and> (if n = 0 then bit v 63 else bit v (n - 1) \<noteq> bit v 63)"
  unfolding zigzag_def sless_0_iff
  by (cases "bit v 63"; cases n)
    (simp_all only: if_True if_False bit_not_iff bit_push_bit_iff possible_bit_word, auto)

lemma unzigzag_zigzag: "unzigzag (zigzag v) = v"
proof (rule bit_word_eqI)
  fix n
  assume "n < LENGTH(64)"
  then show "bit (unzigzag (zigzag v)) n = bit v n"
    unfolding unzigzag_def and_1_iff
    by (cases "n = 63") (auto simp add: bit_zigzag bit_not_iff bit_drop_bit_eq)
qed

lemma and_FF: "(x :: 'a::len word) AND 0xFF = take_bit 8 x"
  by (simp add: take_bit_eq_mask mask_eq_exp_minus_1)

lemma ucast_and_FF: "(ucast (x AND 0xFF) :: byte) = ucast x" for x :: "'a::len word"
  unfolding and_FF by (rule bit_eqI) (auto simp: bit_simps)

lemma fixed32_bytes_le: "fixed32_bytes v = le_bytes 4 v"
  by (simp add: fixed32_bytes_def le_bytes_def upt_rec ucast_and_FF)

lemma fixed64_bytes_le: "fixed64_bytes v = le_bytes 8 v"
  by (simp add: fixed64_bytes_def le_bytes_def upt_rec ucast_and_FF)

lemma pb_decode_fixed32_bytes:
  assumes "offers s (fixed32_bytes v) rest"
  shows "pb_decode_fixed32 s = Ok v (consume 4 s)"
proof -
  have "of_le (fixed32_bytes v) = v"
    by (simp add: fixed32_bytes_le of_le_le_bytes_full)
  with assms show ?thesis
    by (simp add: pb_decode_fixed32_def fixed32_bytes_def push_bit_or)
qed
lemma pb_decode_fixed64_bytes:
  assumes "offers s (fixed64_bytes v) rest"
  shows "pb_decode_fixed64 s = Ok v (consume 8 s)"
proof -
  have "of_le (fixed64_bytes v) = v"
    by (simp add: fixed64_bytes_le of_le_le_bytes_full)
  with assms show ?thesis
    by (simp add: pb_decode_fixed64_def fixed64_bytes_def push_bit_or)
qed

lemma pb_decode_svarint_bytes:
  assumes "offers s (varint_bytes (zigzag v)) rest"
  shows "pb_decode_svarint s = Ok v (consume (length (varint_bytes (zigzag v))) s)"
  using assms unzigzag_zigzag [of v]
  by (simp add: pb_decode_svarint_def pb_decode_varint_bytes unzigzag_def split: if_splits)

text \<open>A tag with a 29-bit field number fits 32 bits and is split again.\<close>

definition valid_tag :: "u32 \<times> u32 \<Rightarrow> bool" where
  "valid_tag = (\<lambda>(wire_type, fld). drop_bit 3 wire_type = 0 \<and> drop_bit 29 fld = 0 \<and>
     (wire_type \<noteq> 0 \<or> fld \<noteq> 0))"

definition tag_bytes :: "u32 \<times> u32 \<Rightarrow> byte list" where
  "tag_bytes = (\<lambda>(wire_type, fld). varint_bytes (tag_value wire_type fld))"

lemma tag_value_32:
  assumes "drop_bit 29 fld = 0"
  shows "tag_value wt fld = ucast (push_bit 3 fld OR wt :: u32)"
proof (rule bit_word_eqI)
  fix n
  assume n: "n < LENGTH(64)"
  have "n - 3 < 29" if "bit fld (n - 3)"
    using that assms by (force simp: drop_bit_zero_iff not_le [symmetric])
  with n show "bit (tag_value wt fld) n = bit (ucast (push_bit 3 fld OR wt :: u32) :: u64) n"
    unfolding tag_value_def
    by (auto simp only: bit_or_iff bit_push_bit_iff bit_ucast_iff possible_bit_word)
      (auto dest: bit_imp_le_length)
qed

lemma tag_split:
  assumes "drop_bit 3 wt = 0" "drop_bit 29 fld = 0"
  shows "(push_bit 3 fld OR wt) AND 7 = (wt :: u32)" "drop_bit 3 (push_bit 3 fld OR wt) = fld"
proof -
  have w: "\<not> bit wt n" if "3 \<le> n" for n using assms(1) that by (simp add: drop_bit_zero_iff)
  have t: "\<not> bit fld n" if "29 \<le> n" for n using assms(2) that by (simp add: drop_bit_zero_iff)
  have 7: "(7 :: u32) = mask 3" by (simp add: mask_eq_exp_minus_1)
  show "(push_bit 3 fld OR wt) AND 7 = wt"
    unfolding 7 by (rule bit_word_eqI) (use w in \<open>auto simp only: bit_and_iff bit_or_iff
      bit_push_bit_iff bit_mask_iff possible_bit_word not_le [symmetric]\<close>)
  show "drop_bit 3 (push_bit 3 fld OR wt) = fld"
    by (rule bit_word_eqI) (use w t leI [of 29] in \<open>auto simp only: bit_drop_bit_eq comp_def bit_or_iff
      bit_push_bit_iff possible_bit_word not_less\<close>, auto intro: leI)
qed

lemma varint32_eof_Ok:
  "pb_decode_varint32 s = Ok v t \<Longrightarrow> pb_decode_varint32_eof s = (False, Ok v t)"
  by (auto simp: pb_decode_varint32_def pb_decode_varint32_eof_def split: res.splits)

lemma pb_decode_tag_bytes:
  assumes "valid_tag v" and "offers s (tag_bytes v) rest"
  shows "pb_decode_tag s = (False, Ok v (consume (length (tag_bytes v)) s))"
proof -
  obtain wt fld where v: "v = (wt, fld)" by (cases v)
  let ?w = "push_bit 3 fld OR wt :: u32"
  from assms(1) have d: "drop_bit 3 wt = 0" "drop_bit 29 fld = 0" and nz: "wt \<noteq> 0 \<or> fld \<noteq> 0"
    by (auto simp: valid_tag_def v)
  have "?w \<noteq> 0"
    using tag_split [OF d] nz by auto
  with assms(2) show ?thesis
    using tag_split [OF d] pb_decode_varint32_bytes [of s ?w rest]
    by (simp add: tag_bytes_def v tag_value_32 [OF d(2)] pb_decode_tag_def varint32_eof_Ok)
qed

section \<open>The codecs of the wire format\<close>

interpretation varint: wire_codec varint_bytes pb_decode_varint "\<lambda>_. True"
  by unfold_locales (simp_all add: pb_decode_varint_bytes, simp add: varint_bytes_rec)

interpretation svarint: wire_codec "\<lambda>v. varint_bytes (zigzag v)" pb_decode_svarint "\<lambda>_. True"
  by unfold_locales (simp_all add: pb_decode_svarint_bytes varint.enc_nonempty)

interpretation varint32: wire_codec "\<lambda>w. varint_bytes (ucast w)" pb_decode_varint32 "\<lambda>_. True"
  by unfold_locales (simp_all add: pb_decode_varint32_bytes varint.enc_nonempty)

interpretation fixed32: wire_codec fixed32_bytes pb_decode_fixed32 "\<lambda>_. True"
  by unfold_locales
    (use pb_decode_fixed32_bytes in \<open>simp_all add: fixed32_bytes_le le_bytes_Suc numeral_eq_Suc\<close>)

interpretation fixed64: wire_codec fixed64_bytes pb_decode_fixed64 "\<lambda>_. True"
  by unfold_locales
    (use pb_decode_fixed64_bytes in \<open>simp_all add: fixed64_bytes_le le_bytes_Suc numeral_eq_Suc\<close>)

interpretation tag: wire_codec tag_bytes "\<lambda>s. snd (pb_decode_tag s)" valid_tag
  by unfold_locales
    (simp_all add: pb_decode_tag_bytes, simp add: tag_bytes_def case_prod_unfold varint.enc_nonempty)

section \<open>From a writing stream to a reading one\<close>

definition read_from :: "byte list \<Rightarrow> 'u istream" where
  "read_from bs = pb_istream_from_buffer bs (length bs)"

lemma offers_read_from: "offers (read_from (bs @ rest)) bs rest"
  by (simp add: offers_def read_from_def pb_istream_from_buffer_def)

lemma consume_read_from: "consume (length bs) (read_from (bs @ rest)) = read_from rest"
  by (simp add: consume_def read_from_def pb_istream_from_buffer_def)

lemma pb_write_stored:
  assumes "pb_write (pb_ostream_from_buffer buf n) bs (of_nat (length bs)) = Ok () out"
    and "length bs < 2 ^ 64"
  shows "stored (snk out) = bs"
proof -
  have "unat (of_nat (length bs) :: u64) = length bs" using assms(2) by (simp add: unat_of_nat)
  with assms(1) show ?thesis
    by (auto simp: pb_write_def pb_ostream_from_buffer_def o_return_error_def buf_write_def Let_def
        split: if_splits)
qed

lemma varint_groups_length: "v = 0 \<or> length (varint_groups v) \<le> 10"
proof -
  have "drop_bit (7 * n) v = 0 \<or> length (varint_groups (drop_bit (7 * n) v)) \<le> 10 - n" if "n \<le> 10" for n
    using that
  proof (induction "10 - n" arbitrary: n)
    case 0
    then have "drop_bit (7 * n) v = 0" using drop_bit_ge_size [of "7 * n" v] by simp
    then show ?case by simp
  next
    case (Suc k)
    have IH: "drop_bit (7 * Suc n) v = 0 \<or> length (varint_groups (drop_bit (7 * Suc n) v)) \<le> 10 - Suc n"
      using Suc by (intro Suc.hyps(1)) simp_all
    have eq: "drop_bit 7 (drop_bit (7 * n) v) = drop_bit (7 * Suc n) v" by (simp add: add.commute)
    show ?case
      using IH Suc.hyps(2) varint_groups.simps [of "drop_bit (7 * n) v"] unfolding eq
      by (cases "drop_bit (7 * n) v = 0") auto
  qed
  from this [of 0] show ?thesis by simp
qed

text \<open>The buffer of ten bytes in \<open>pb_encode_varint\<close> is long enough.\<close>

lemma varint_bytes_length: "length (varint_bytes v) \<le> 10"
  using varint_groups_length [of v] by (auto simp: varint_bytes_def clear_last_def)

lemma encoded_varint:
  "pb_encode_varint (pb_ostream_from_buffer buf n) v = Ok () out \<Longrightarrow> stored (snk out) = varint_bytes v"
  using varint_bytes_length [of v] by (auto simp: pb_encode_varint_def Let_def intro: pb_write_stored)

section \<open>Properties\<close>

text \<open>C8: a varint written by \<open>pb_encode_varint\<close> is read back by \<open>pb_decode_varint\<close>, whatever
  follows it, and the stream is left right behind it.\<close>

theorem varint_roundtrip:
  assumes "pb_encode_varint (pb_ostream_from_buffer buf n) v = Ok () out"
  shows "pb_decode_varint (read_from (stored (snk out) @ rest)) = Ok v (read_from rest)"
  using varint.dec_enc [OF TrueI offers_read_from] by (simp add: encoded_varint [OF assms] consume_read_from)

theorem varint_roundtrip_witness:
  "\<exists>out. pb_encode_varint (pb_ostream_from_buffer [0, 0, 0] 3 :: unit ostream) 300 = Ok () out \<and>
     stored (snk out) = [0xAC, 2] \<and>
     pb_decode_varint (read_from ([0xAC, 2] @ [7]) :: unit istream) = Ok 300 (read_from [7])"
proof -
  have bytes: "varint_bytes 300 = [0xAC, 2]" by code_simp
  let ?out = "\<lparr>snk = OBuf [0xAC, 2, 0] 2, max_size = 3, bytes_written = 2,
    o_errmsg = None\<rparr> :: unit ostream"
  have e: "pb_encode_varint (pb_ostream_from_buffer [0, 0, 0] 3 :: unit ostream) 300 = Ok () ?out"
    by (simp add: pb_encode_varint_def bytes pb_write_def pb_ostream_from_buffer_def buf_write_def Let_def)
  then show ?thesis
    using varint_roundtrip [OF e, of "[7]"] by (intro exI [of _ ?out]) simp
qed

text \<open>a signed value written by \<open>pb_encode_svarint\<close> (zig-zag) is read back by
  \<open>pb_decode_svarint\<close>.\<close>

theorem svarint_roundtrip:
  assumes "pb_encode_svarint (pb_ostream_from_buffer buf n) v = Ok () out"
  shows "pb_decode_svarint (read_from (stored (snk out) @ rest)) = Ok v (read_from rest)"
  using svarint.dec_enc [OF TrueI offers_read_from] assms
  by (simp add: pb_encode_svarint_def encoded_varint consume_read_from)

theorem svarint_roundtrip_witness:
  "\<exists>out. pb_encode_svarint (pb_ostream_from_buffer [0, 0] 2 :: unit ostream) (- 3) = Ok () out \<and>
     pb_decode_svarint (read_from ([5] @ [9]) :: unit istream) = Ok (- 3) (read_from [9])"
proof -
  have z: "varint_bytes (zigzag (- 3)) = [5]" by code_simp
  let ?out = "\<lparr>snk = OBuf [5, 0] 1, max_size = 2, bytes_written = 1, o_errmsg = None\<rparr> :: unit ostream"
  have e: "pb_encode_svarint (pb_ostream_from_buffer [0, 0] 2) (- 3) = Ok () ?out"
    by (simp add: pb_encode_svarint_def pb_encode_varint_def z pb_write_def pb_ostream_from_buffer_def
        buf_write_def Let_def)
  then show ?thesis
    using svarint_roundtrip [OF e, of "[9]"] by (intro exI [of _ ?out]) simp
qed

text \<open>fixed-width values keep their byte order: what \<open>pb_encode_fixed32\<close> and
  \<open>pb_encode_fixed64\<close> store is what \<open>pb_decode_fixed32\<close> and \<open>pb_decode_fixed64\<close> assemble.\<close>

theorem fixed_roundtrip:
  assumes "pb_encode_fixed32 (pb_ostream_from_buffer buf n) v = Ok () out32"
    and "pb_encode_fixed64 (pb_ostream_from_buffer buf n) w = Ok () out64"
  shows "pb_decode_fixed32 (read_from (stored (snk out32) @ rest) :: 'u istream) = Ok v (read_from rest) \<and>
    pb_decode_fixed64 (read_from (stored (snk out64) @ rest) :: 'u istream) = Ok w (read_from rest)"
proof -
  have "stored (snk out32) = fixed32_bytes v" "stored (snk out64) = fixed64_bytes w"
    using assms pb_write_stored [of buf n "fixed32_bytes v" out32]
      pb_write_stored [of buf n "fixed64_bytes w" out64]
    by (simp_all add: pb_encode_fixed32_def pb_encode_fixed64_def fixed32_bytes_def fixed64_bytes_def)
  then show ?thesis
    by (simp add: fixed32.dec_enc [OF TrueI offers_read_from] fixed64.dec_enc [OF TrueI offers_read_from]
        consume_read_from)
qed

theorem fixed_roundtrip_witness:
  "pb_decode_fixed32 (read_from ([4, 3, 2, 1] @ []) :: unit istream) = Ok 0x01020304 (read_from [])"
proof -
  let ?o32 = "\<lparr>snk = OBuf [4, 3, 2, 1, 0, 0, 0, 0] 4, max_size = 8, bytes_written = 4, o_errmsg = None\<rparr> :: unit ostream"
  let ?o64 = "\<lparr>snk = OBuf [8, 7, 6, 5, 4, 3, 2, 1] 8, max_size = 8, bytes_written = 8, o_errmsg = None\<rparr> :: unit ostream"
  have b: "fixed32_bytes 0x01020304 = [4, 3, 2, 1]" "fixed64_bytes 0x0102030405060708 = [8, 7, 6, 5, 4, 3, 2, 1]"
    by code_simp+
  have "pb_encode_fixed32 (pb_ostream_from_buffer [0, 0, 0, 0, 0, 0, 0, 0] 8) 0x01020304 = Ok () ?o32"
    and "pb_encode_fixed64 (pb_ostream_from_buffer [0, 0, 0, 0, 0, 0, 0, 0] 8) 0x0102030405060708 = Ok () ?o64"
    by (simp_all add: pb_encode_fixed32_def pb_encode_fixed64_def b pb_write_def
        pb_ostream_from_buffer_def buf_write_def Let_def)
  from fixed_roundtrip [OF this, of "[]", where 'u = unit] show ?thesis by simp
qed

text \<open>a key written by \<open>pb_encode_tag\<close> with a three-bit wire type and a 29-bit field number,
  not both zero, is read back by \<open>pb_decode_tag\<close>, which does not report the end of the stream.\<close>

theorem tag_roundtrip:
  assumes "valid_tag (wire_type, number)"
    and "pb_encode_tag (pb_ostream_from_buffer buf n) wire_type number = Ok () out"
  shows "pb_decode_tag (read_from (stored (snk out) @ rest)) =
    (False, Ok (wire_type, number) (read_from rest))"
  using pb_decode_tag_bytes [OF assms(1) offers_read_from] assms(2)
  by (simp add: pb_encode_tag_def encoded_varint tag_bytes_def consume_read_from)

theorem tag_roundtrip_witness:
  "pb_decode_tag (read_from ([0x1A] @ [1]) :: unit istream) = (False, Ok (2, 3) (read_from [1]))"
proof -
  have z: "varint_bytes (tag_value 2 3) = [0x1A]" by code_simp
  let ?out = "\<lparr>snk = OBuf [0x1A] 1, max_size = 1, bytes_written = 1, o_errmsg = None\<rparr> :: unit ostream"
  have "pb_encode_tag (pb_ostream_from_buffer [0] 1) 2 3 = Ok () ?out"
    by (simp add: pb_encode_tag_def pb_encode_varint_def z pb_write_def pb_ostream_from_buffer_def
        buf_write_def Let_def)
  moreover have "valid_tag (2, 3)" by code_simp
  ultimately show ?thesis using tag_roundtrip [of 2 3 "[0]" 1 ?out "[1]"] by simp
qed

text \<open>a packed array is self-delimiting: decoding the concatenated varints of any list of
  values, one after the other, gives the list back and leaves the stream behind it.\<close>

theorem packed_varints_decode:
  "fold (\<lambda>v m. rbind m (\<lambda>acc t. rbind (pb_decode_varint t) (\<lambda>x u. Ok (acc @ [x]) u))) vs
     (Ok [] (read_from (concat (map varint_bytes vs) @ rest))) = Ok vs (read_from rest)"
  using varint.dec_sequence [OF _ offers_read_from, of vs "[]" rest]
  by (simp add: consume_read_from del: length_concat)

text \<open>\<open>pb_decode_varint32\<close> refuses every canonically encoded value that does not fit 32 bits,
  unless bit 31 is set, the form of a sign-extended negative number.\<close>

theorem varint32_overflow_refused:
  assumes "2 ^ 32 \<le> V" and "\<not> bit V 31"
  shows "\<exists>s. pb_decode_varint32 (read_from (varint_bytes V @ rest)) = Fail s"
  using pb_decode_varint32_rejects [OF assms offers_read_from] .

theorem varint32_overflow_refused_witness:
  "\<exists>s. pb_decode_varint32 (read_from ([0x80, 0x80, 0x80, 0x80, 0x10] @ []) :: unit istream) = Fail s"
proof -
  have "varint_bytes 0x100000000 = [0x80, 0x80, 0x80, 0x80, 0x10]" by code_simp
  moreover have "(2 ^ 32 :: u64) \<le> 0x100000000" "\<not> bit (0x100000000 :: u64) 31" by code_simp+
  ultimately show ?thesis using varint32_overflow_refused [of "0x100000000" "[]"] by simp
qed

text \<open>an overlong varint gets past \<open>pb_decode_varint32\<close>: \<open>bitpos\<close> has eight bits and wraps
  after 37 continuation bytes, so 37 bytes \<open>0x80\<close> and a byte \<open>0x01\<close> are read as the value 8
  instead of being refused, as \<open>pb_decode_varint\<close> refuses them.\<close>

theorem varint32_overlong_wraps:
  "(\<exists>s :: unit istream. pb_decode_varint32 (read_from (replicate 37 0x80 @ [0x01])) = Ok 8 s \<and>
      bytes_left s = 0) \<and>
   (\<exists>s :: unit istream. pb_decode_varint (read_from (replicate 37 0x80 @ [0x01])) = Fail s \<and>
      errmsg s = Some ''varint overflow'')"
proof -
  have "case pb_decode_varint32 (read_from (replicate 37 0x80 @ [0x01]) :: unit istream) of
      Ok v s \<Rightarrow> v = 8 \<and> bytes_left s = 0 | _ \<Rightarrow> False"
    by code_simp
  moreover have "case pb_decode_varint (read_from (replicate 37 0x80 @ [0x01]) :: unit istream) of
      Fail s \<Rightarrow> errmsg s = Some ''varint overflow'' | _ \<Rightarrow> False"
    by code_simp
  ultimately show ?thesis by (auto split: res.splits)
qed

end
