(* ===== verification/Pb_Common.thy ===== *)
theory Pb_Common
  imports Pb_Types
begin

text \<open>
  The field iterator (\<open>pb_common.c\<close>). Its pointers into the message structure move by offsets
  relative to the previous field; the theory shows that, wherever the iterator has been, they
  depend only on the field it stands at, and that a search visits every field.
\<close>

section \<open>The iterator\<close>

record pb_field_iter =
  start :: "pb_field list"
  pos :: nat
  required_field_index :: nat
  dest_struct :: nat
  pData :: nat
  pSize :: nat

definition cur :: "pb_field_iter \<Rightarrow> pb_field" where
  "cur iter = field_at (start iter) (pos iter)"

text \<open>Pointer plus a signed 32-bit offset.\<close>

definition ptr_off :: "nat \<Rightarrow> u32 \<Rightarrow> nat" where
  "ptr_off p off = nat (int p + sint off)"

definition pb_field_iter_begin :: "pb_field list \<Rightarrow> nat \<Rightarrow> bool \<times> pb_field_iter" where
  "pb_field_iter_begin fs dest =
     (let f = field_at fs 0; data = dest + unat (data_offset f)
      in (tag f \<noteq> 0,
          \<lparr>start = fs, pos = 0, required_field_index = 0, dest_struct = dest,
           pData = data, pSize = ptr_off data (size_offset f)\<rparr>))"

text \<open>The bytes a field takes in the structure, as \<open>pb_field_iter_next\<close> computes it.\<close>

definition prev_size :: "pb_field \<Rightarrow> nat" where
  "prev_size f =
     (if PB_ATYPE (ftype f) = PB_ATYPE_STATIC \<and> PB_HTYPE (ftype f) = PB_HTYPE_REPEATED
      then unat (data_size f) * unat (array_size f)
      else if PB_ATYPE (ftype f) = PB_ATYPE_POINTER then sizeof_ptr
      else unat (data_size f))"

definition same_union :: "pb_field \<Rightarrow> pb_field \<Rightarrow> bool" where
  "same_union prev f \<longleftrightarrow> PB_HTYPE (ftype prev) = PB_HTYPE_ONEOF \<and>
     PB_HTYPE (ftype f) = PB_HTYPE_ONEOF \<and> data_offset f = PB_SIZE_MAX"

definition pb_field_iter_next :: "pb_field_iter \<Rightarrow> bool \<times> pb_field_iter" where
  "pb_field_iter_next iter =
     (let prev = cur iter
      in if tag prev = 0 then (False, iter)
         else let iter1 = iter\<lparr>pos := Suc (pos iter)\<rparr>; f = cur iter1
           in if tag f = 0
              then (False, snd (pb_field_iter_begin (start iter) (dest_struct iter)))
              else if same_union prev f then (True, iter1)
              else let idx = (if PB_HTYPE (ftype prev) = PB_HTYPE_REQUIRED
                              then Suc (required_field_index iter) else required_field_index iter);
                       data = pData iter + prev_size prev + unat (data_offset f)
                in (True, iter1\<lparr>required_field_index := idx, pData := data,
                            pSize := ptr_off data (size_offset f)\<rparr>))"

text \<open>
  The search loop; \<open>None\<close> if it has not come round to \<open>first\<close> within the fuel, which
  \<open>pb_field_iter_find\<close> sets to one more than the number of fields.
\<close>

fun find_loop :: "nat \<Rightarrow> nat \<Rightarrow> (pb_field \<Rightarrow> bool) \<Rightarrow> pb_field_iter \<Rightarrow>
    (bool \<times> pb_field_iter) option" where
  "find_loop 0 first want iter = None"
| "find_loop (Suc fuel) first want iter =
     (if want (cur iter) then Some (True, iter)
      else let iter1 = snd (pb_field_iter_next iter)
        in if pos iter1 = first then Some (False, iter1)
           else find_loop fuel first want iter1)"

definition wanted :: "u32 \<Rightarrow> pb_field \<Rightarrow> bool" where
  "wanted t f \<longleftrightarrow> tag f = t \<and> PB_LTYPE (ftype f) \<noteq> PB_LTYPE_EXTENSION"

definition pb_field_iter_find :: "pb_field_iter \<Rightarrow> u32 \<Rightarrow> (bool \<times> pb_field_iter) option" where
  "pb_field_iter_find iter t =
     find_loop (Suc (length (start iter))) (pos iter) (wanted t) iter"

section \<open>The iterator's pointers are a function of its position\<close>

fun field_addr :: "pb_field list \<Rightarrow> nat \<Rightarrow> nat \<Rightarrow> nat" where
  "field_addr fs base 0 = base + unat (data_offset (field_at fs 0))"
| "field_addr fs base (Suc i) =
     (if same_union (field_at fs i) (field_at fs (Suc i)) then field_addr fs base i
      else field_addr fs base i + prev_size (field_at fs i) +
        unat (data_offset (field_at fs (Suc i))))"

fun size_addr :: "pb_field list \<Rightarrow> nat \<Rightarrow> nat \<Rightarrow> nat" where
  "size_addr fs base 0 = ptr_off (field_addr fs base 0) (size_offset (field_at fs 0))"
| "size_addr fs base (Suc i) =
     (if same_union (field_at fs i) (field_at fs (Suc i)) then size_addr fs base i
      else ptr_off (field_addr fs base (Suc i)) (size_offset (field_at fs (Suc i))))"

definition n_required :: "pb_field list \<Rightarrow> nat \<Rightarrow> nat" where
  "n_required fs i =
     length (filter (\<lambda>f. PB_HTYPE (ftype f) = PB_HTYPE_REQUIRED) (take i fs))"

definition iter_at :: "pb_field list \<Rightarrow> nat \<Rightarrow> nat \<Rightarrow> pb_field_iter" where
  "iter_at fs base i =
     \<lparr>start = fs, pos = i, required_field_index = n_required fs i, dest_struct = base,
      pData = field_addr fs base i, pSize = size_addr fs base i\<rparr>"

lemma cur_iter_at [simp]: "cur (iter_at fs base i) = field_at fs i"
  by (simp add: cur_def iter_at_def)

lemma pos_iter_at [simp]: "pos (iter_at fs base i) = i"
  by (simp add: iter_at_def)

lemma start_iter_at [simp]: "start (iter_at fs base i) = fs"
  by (simp add: iter_at_def)

lemma pb_field_iter_begin_at:
  "fields_wf fs \<Longrightarrow> pb_field_iter_begin fs base = (fs \<noteq> [], iter_at fs base 0)"
  by (simp add: pb_field_iter_begin_def iter_at_def n_required_def field_at_tag_0 Let_def)

lemma n_required_Suc:
  "i < length fs \<Longrightarrow> n_required fs (Suc i) =
    (if PB_HTYPE (ftype (field_at fs i)) = PB_HTYPE_REQUIRED
     then Suc (n_required fs i) else n_required fs i)"
  by (simp add: n_required_def take_Suc_conv_app_nth field_at_def)

lemma pb_field_iter_next_at:
  assumes "fields_wf fs" and "i < length fs"
  shows "pb_field_iter_next (iter_at fs base i) =
    (if Suc i < length fs then (True, iter_at fs base (Suc i))
     else (False, iter_at fs base 0))"
proof (cases "Suc i < length fs")
  case True
  then show ?thesis
    using assms field_at_tag_0 [OF assms(1), of i] field_at_tag_0 [OF assms(1), of "Suc i"]
    by (auto simp: pb_field_iter_next_def Let_def iter_at_def cur_def n_required_Suc same_union_def)
next
  case False
  then show ?thesis
    using assms field_at_tag_0 [OF assms(1), of i] field_at_tag_0 [OF assms(1), of "Suc i"]
      pb_field_iter_begin_at [OF assms(1), of base]
    by (simp add: pb_field_iter_next_def Let_def iter_at_def cur_def)
qed

lemma pb_field_iter_next_empty:
  "pb_field_iter_next (iter_at [] base 0) = (False, iter_at [] base 0)"
  by (simp add: pb_field_iter_next_def field_at_def)

section \<open>The search visits every field\<close>

text \<open>The position \<open>d\<close> steps after \<open>i\<close>, round the array of \<open>n\<close> fields.\<close>

lemma find_loop_at:
  assumes "fields_wf fs" and "i < length fs" and "d < length fs"
    and "\<forall>e < d. \<not> want (field_at fs ((i + e) mod length fs))"
    and "fuel = Suc (length fs) - d"
  shows "find_loop fuel i want (iter_at fs base ((i + d) mod length fs)) =
    (if \<exists>e < length fs. want (field_at fs ((i + e) mod length fs))
     then Some (True, iter_at fs base
       ((i + (LEAST e. want (field_at fs ((i + e) mod length fs)))) mod length fs))
     else Some (False, iter_at fs base i))"
  using assms(3-)
proof (induction "length fs - d" arbitrary: d fuel rule: less_induct)
  case less
  let ?n = "length fs"
  let ?at = "\<lambda>e. (i + e) mod ?n" and ?w = "\<lambda>e. want (field_at fs ((i + e) mod length fs))"
  obtain fuel' where fuel: "fuel = Suc fuel'" "fuel' = ?n - d"
    using less.prems(1,3) by (simp add: Suc_diff_le)
  have n: "0 < ?n" using assms(2) by linarith
  have next_it: "snd (pb_field_iter_next (iter_at fs base (?at d))) = iter_at fs base (?at (Suc d))"
    using pb_field_iter_next_at [OF assms(1), of "?at d" base] mod_less_divisor [OF n, of "i + d"]
    by (cases "Suc (?at d) = ?n") (simp_all add: mod_Suc)
  show ?case
  proof (cases "?w d")
    case True
    then have "(LEAST e. ?w e) = d"
      using less.prems(2) by (auto intro!: Least_equality) (meson not_less)
    with True less.prems(1) show ?thesis by (auto simp: fuel)
  next
    case False
    then have none: "\<forall>e < Suc d. \<not> ?w e" using less.prems(2) by (auto simp: less_Suc_eq)
    show ?thesis
    proof (cases "Suc d = ?n")
      case True
      then have "?at (Suc d) = i" using assms(2) by simp
      moreover have "\<not> (\<exists>e < ?n. ?w e)" using none True by auto
      ultimately show ?thesis using False next_it by (simp add: fuel)
    next
      case neq: False
      then have "Suc d < ?n" using less.prems(1) by simp
      moreover have "?at (Suc d) \<noteq> i"
        using neq less.prems(1) assms(2) by (auto simp: mod_if split: if_splits)
      ultimately show ?thesis
        using False next_it less.hyps [of "Suc d" fuel'] none
        by (simp add: fuel)
    qed
  qed
qed

lemma rotation_covers:
  fixes i n :: nat
  assumes "i < n"
  shows "(\<exists>e < n. P ((i + e) mod n)) \<longleftrightarrow> (\<exists>j < n. P j)"
proof
  assume "\<exists>j < n. P j"
  then obtain j where j: "j < n" "P j" by blast
  have "(i + (j + n - i) mod n) mod n = j"
    using assms j(1) by (simp add: mod_add_right_eq)
  moreover have "(j + n - i) mod n < n" using assms by simp
  ultimately show "\<exists>e < n. P ((i + e) mod n)" using j(2) by metis
next
  assume "\<exists>e < n. P ((i + e) mod n)"
  then obtain e where "P ((i + e) mod n)" by blast
  moreover have "(i + e) mod n < n" using assms by simp
  ultimately show "\<exists>j < n. P j" by blast
qed

text \<open>
  Where \<open>pb_field_iter_find\<close> ends: at the first wanted field, \<open>d\<close> steps round the array, or
  back where it started if there is none.
\<close>

lemma find_loop_first:
  assumes "fields_wf fs" and "i < length fs"
  shows "(\<exists>d < length fs. want (fs ! ((i + d) mod length fs)) \<and> (\<forall>e < d. \<not> want (fs ! ((i + e) mod length fs))) \<and>
      find_loop (Suc (length fs)) i want (iter_at fs base i) = Some (True, iter_at fs base ((i + d) mod length fs))) \<or>
    (\<forall>f \<in> set fs. \<not> want f) \<and> find_loop (Suc (length fs)) i want (iter_at fs base i) = Some (False, iter_at fs base i)"
proof -
  let ?n = "length fs"
  have n: "0 < ?n" using assms(2) by linarith
  have at: "field_at fs ((i + e) mod ?n) = fs ! ((i + e) mod ?n)" for e using n by (simp add: field_at_def)
  let ?w = "\<lambda>e. want (fs ! ((i + e) mod length fs))"
  have result: "find_loop (Suc ?n) i want (iter_at fs base i) =
      (if \<exists>e < ?n. ?w e then Some (True, iter_at fs base ((i + (LEAST e. ?w e)) mod ?n))
       else Some (False, iter_at fs base i))"
    using find_loop_at [OF assms n, of want] assms(2) by (simp add: at del: find_loop.simps)
  show ?thesis
  proof (cases "\<exists>e < ?n. ?w e")
    case True
    then obtain e where e: "e < ?n" "?w e" by blast
    then have "(LEAST e. ?w e) \<le> e" by (intro Least_le)
    then have "(LEAST e. ?w e) < ?n" using e(1) by (rule le_less_trans)
    moreover have "?w (LEAST e. ?w e)" using e(2) by (rule LeastI)
    moreover have "\<forall>e < (LEAST e. ?w e). \<not> ?w e" by (blast dest: not_less_Least)
    ultimately show ?thesis unfolding result if_P [OF True] by blast
  next
    case False
    then have "\<forall>f \<in> set fs. \<not> want f"
      using rotation_covers [OF assms(2), of "\<lambda>j. want (fs ! j)"] by (auto simp: in_set_conv_nth)
    then show ?thesis unfolding result if_not_P [OF False] by blast
  qed
qed

lemma pb_field_iter_find_first:
  assumes "fields_wf fs" and "i < length fs"
  shows "(\<exists>d < length fs. wanted t (fs ! ((i + d) mod length fs)) \<and> (\<forall>e < d. \<not> wanted t (fs ! ((i + e) mod length fs))) \<and>
      pb_field_iter_find (iter_at fs base i) t = Some (True, iter_at fs base ((i + d) mod length fs))) \<or>
    (\<forall>f \<in> set fs. \<not> wanted t f) \<and> pb_field_iter_find (iter_at fs base i) t = Some (False, iter_at fs base i)"
  using find_loop_first [OF assms, of "wanted t" base]
  by (simp add: pb_field_iter_find_def del: find_loop.simps)

text \<open>The same without the distance.\<close>

lemma find_loop_from:
  assumes "fields_wf fs" and "i < length fs"
  shows "\<exists>found j. find_loop (Suc (length fs)) i want (iter_at fs base i) = Some (found, iter_at fs base j) \<and>
    j < length fs \<and> (found \<longleftrightarrow> (\<exists>f \<in> set fs. want f)) \<and>
    (found \<longrightarrow> want (fs ! j)) \<and> (\<not> found \<longrightarrow> j = i)"
proof -
  let ?n = "length fs" and ?w = "\<lambda>e. want (field_at fs ((i + e) mod length fs))"
  have n: "0 < ?n" using assms(2) by linarith
  have ex: "(\<exists>e < ?n. ?w e) \<longleftrightarrow> (\<exists>f \<in> set fs. want f)"
  proof -
    have "(\<exists>j < ?n. want (field_at fs j)) \<longleftrightarrow> (\<exists>f \<in> set fs. want f)"
      unfolding Bex_def in_set_conv_nth by (auto simp only: field_at_def if_True)
    with rotation_covers [OF assms(2), of "\<lambda>j. want (field_at fs j)"]
    show ?thesis by (rule trans)
  qed
  have result: "find_loop (Suc (length fs)) i want (iter_at fs base i) =
      (if \<exists>e < ?n. ?w e then Some (True, iter_at fs base ((i + (LEAST e. ?w e)) mod ?n))
       else Some (False, iter_at fs base i))"
    using find_loop_at [OF assms n, of want] assms(2) by (simp del: find_loop.simps)
  show ?thesis
  proof (cases "\<exists>e < ?n. ?w e")
    case True
    let ?j = "(i + (LEAST e. ?w e)) mod ?n"
    have "?j < ?n" using n by simp
    from True obtain e where "?w e" by blast
    then have "want (field_at fs ?j)" by (rule LeastI)
    with \<open>?j < ?n\<close> have "want (fs ! ?j)" by (simp add: field_at_def)
    moreover have "find_loop (Suc (length fs)) i want (iter_at fs base i) = Some (True, iter_at fs base ?j)"
      unfolding result if_P [OF True] ..
    moreover have "\<exists>f \<in> set fs. want f" using True ex by (rule iffD1 [rotated])
    moreover note \<open>?j < ?n\<close>
    ultimately show ?thesis by (intro exI [of _ True] exI [of _ ?j] conjI impI iffI TrueI) (assumption | simp only: not_True_eq_False)+
  next
    case False
    with ex result assms(2) show ?thesis
      by (intro exI [of _ False] exI [of _ i]) (simp del: find_loop.simps)
  qed
qed

lemma pb_field_iter_find_at:
  assumes "fields_wf fs" and "i < length fs"
  shows "\<exists>found j. pb_field_iter_find (iter_at fs base i) t = Some (found, iter_at fs base j) \<and>
    j < length fs \<and> (found \<longleftrightarrow> (\<exists>f \<in> set fs. wanted t f)) \<and>
    (found \<longrightarrow> wanted t (fs ! j)) \<and> (\<not> found \<longrightarrow> j = i)"
  using find_loop_from [OF assms, of "wanted t" base]
  by (simp add: pb_field_iter_find_def del: find_loop.simps)

section \<open>Walking over all the fields\<close>

text \<open>
  The loop \<open>do body(iter) while (pb_field_iter_next(&iter))\<close> of the functions that visit every
  field; the body may fail. The fuel is the number of fields.
\<close>

fun iter_loop :: "nat \<Rightarrow> (pb_field_iter \<Rightarrow> 's \<Rightarrow> (unit, 's) res) \<Rightarrow> pb_field_iter \<Rightarrow> 's \<Rightarrow>
    (unit, 's) res" where
  "iter_loop 0 body iter s = NoFuel"
| "iter_loop (Suc n) body iter s = rbind (body iter s) (\<lambda>_ s1.
     case pb_field_iter_next iter of
       (True, iter1) \<Rightarrow> iter_loop n body iter1 s1
     | (False, _) \<Rightarrow> Ok () s1)"

text \<open>\<open>if (!pb_field_iter_begin(...)) return; do ... while (pb_field_iter_next(...))\<close>.\<close>

definition for_each_field :: "pb_field list \<Rightarrow> nat \<Rightarrow>
    (pb_field_iter \<Rightarrow> 's \<Rightarrow> (unit, 's) res) \<Rightarrow> 's \<Rightarrow> (unit, 's) res" where
  "for_each_field fs base body s = (case pb_field_iter_begin fs base of
     (True, iter) \<Rightarrow> iter_loop (length fs) body iter s
   | (False, _) \<Rightarrow> Ok () s)"

text \<open>The loop is a fold over the positions of the array.\<close>

fun seq_loop :: "('i \<Rightarrow> 's \<Rightarrow> (unit, 's) res) \<Rightarrow> 'i list \<Rightarrow> 's \<Rightarrow> (unit, 's) res" where
  "seq_loop body [] s = Ok () s"
| "seq_loop body (i # is) s = rbind (body i s) (\<lambda>_ s1. seq_loop body is s1)"

lemma iter_loop_seq:
  assumes "fields_wf fs" and "i < length fs" and "length fs - i \<le> n"
  shows "iter_loop n body (iter_at fs base i) s =
    seq_loop (\<lambda>i. body (iter_at fs base i)) [i..<length fs] s"
  using assms(2,3)
proof (induction n arbitrary: i s)
  case (Suc n)
  have step: "iter_loop n body (iter_at fs base (Suc i)) s1 =
      seq_loop (\<lambda>i. body (iter_at fs base i)) [Suc i..<length fs] s1"
    if "Suc i < length fs" for s1
    using Suc that by (intro Suc.IH) auto
  show ?case
  proof (cases "Suc i < length fs")
    case True
    then show ?thesis
      using Suc.prems pb_field_iter_next_at [OF assms(1) Suc.prems(1), of base]
      by (simp add: upt_conv_Cons [of i] step del: upt_Suc)
  next
    case False
    then have "[i..<length fs] = [i]" using Suc.prems by (simp add: upt_conv_Cons)
    then show ?thesis
      using False pb_field_iter_next_at [OF assms(1) Suc.prems(1), of base]
      by (cases "body (iter_at fs base i) s") simp_all
  qed
qed simp

lemma for_each_field_seq:
  assumes "fields_wf fs"
  shows "for_each_field fs base body s =
    seq_loop (\<lambda>i. body (iter_at fs base i)) [0..<length fs] s"
proof (cases "fs = []")
  case False
  then show ?thesis
    using iter_loop_seq [OF assms, of 0 "length fs" body base s]
    by (simp add: for_each_field_def pb_field_iter_begin_at [OF assms] del: upt_Suc)
qed (simp add: for_each_field_def pb_field_iter_begin_def field_at_def Let_def)

section \<open>Properties\<close>

text \<open>C7: in a well-formed descriptor array \<open>pb_field_iter_begin\<close> puts the iterator at the first field and
  \<open>pb_field_iter_next\<close> at the next one, or back at the first and out of the loop, with the data and size pointers that
  \<open>field_addr\<close> and \<open>size_addr\<close> give to the position. From any position \<open>pb_field_iter_find\<close> goes to the first field, cyclically
  and beginning with the current one, that has the wanted tag and is no extension; if there is none it ends
  where it started.\<close>

theorem iter_find_complete:
  assumes "fields_wf fs" and "i < length fs"
  shows "pb_field_iter_begin fs base = (True, iter_at fs base 0) \<and>
    pb_field_iter_next (iter_at fs base i) = (Suc i < length fs, iter_at fs base (Suc i mod length fs)) \<and>
    ((\<exists>d < length fs. wanted t (fs ! ((i + d) mod length fs)) \<and> (\<forall>e < d. \<not> wanted t (fs ! ((i + e) mod length fs))) \<and>
      pb_field_iter_find (iter_at fs base i) t = Some (True, iter_at fs base ((i + d) mod length fs))) \<or>
    (\<forall>f \<in> set fs. \<not> wanted t f) \<and> pb_field_iter_find (iter_at fs base i) t = Some (False, iter_at fs base i))"
proof (intro conjI pb_field_iter_find_first [OF assms])
  show "pb_field_iter_begin fs base = (True, iter_at fs base 0)" using pb_field_iter_begin_at [OF assms(1)] assms(2) by auto
  have "\<not> Suc i < length fs \<Longrightarrow> Suc i = length fs" using assms(2) by simp
  then show "pb_field_iter_next (iter_at fs base i) = (Suc i < length fs, iter_at fs base (Suc i mod length fs))"
    using pb_field_iter_next_at [OF assms] by auto
qed

theorem iter_find_complete_witness:
  "pb_field_iter_find (iter_at [PB_LAST_FIELD\<lparr>tag := 5\<rparr>, PB_LAST_FIELD\<lparr>tag := 6\<rparr>, PB_LAST_FIELD\<lparr>tag := 5\<rparr>] 0 1) 5 =
      Some (True, iter_at [PB_LAST_FIELD\<lparr>tag := 5\<rparr>, PB_LAST_FIELD\<lparr>tag := 6\<rparr>, PB_LAST_FIELD\<lparr>tag := 5\<rparr>] 0 2)"
proof -
  let ?fs = "[PB_LAST_FIELD\<lparr>tag := 5\<rparr>, PB_LAST_FIELD\<lparr>tag := 6\<rparr>, PB_LAST_FIELD\<lparr>tag := 5\<rparr>]"
  have wf: "fields_wf ?fs" by (simp add: fields_wf_def)
  have len: "length ?fs = 3" by simp
  have w: "wanted 5 (PB_LAST_FIELD\<lparr>tag := 5\<rparr>)" "\<not> wanted 5 (PB_LAST_FIELD\<lparr>tag := 6\<rparr>)" by code_simp+
  have "\<exists>d < 3. wanted 5 (?fs ! ((1 + d) mod 3)) \<and> (\<forall>e < d. \<not> wanted 5 (?fs ! ((1 + e) mod 3))) \<and>
      pb_field_iter_find (iter_at ?fs 0 1) 5 = Some (True, iter_at ?fs 0 ((1 + d) mod 3))"
  proof -
    have "(1 :: nat) < length ?fs" by simp
    from conjunct2 [OF conjunct2 [OF iter_find_complete [OF wf this, of 0 5, unfolded len]]] show ?thesis
    proof
      assume "(\<forall>f \<in> set ?fs. \<not> wanted 5 f) \<and> pb_field_iter_find (iter_at ?fs 0 1) 5 = Some (False, iter_at ?fs 0 1)"
      then show ?thesis using w(1) by simp
    qed
  qed
  then obtain d where d: "d < 3" "wanted 5 (?fs ! ((1 + d) mod 3))" "\<forall>e < d. \<not> wanted 5 (?fs ! ((1 + e) mod 3))"
    "pb_field_iter_find (iter_at ?fs 0 1) 5 = Some (True, iter_at ?fs 0 ((1 + d) mod 3))" by blast
  have "d \<noteq> 0" using d(2) w(2) by (cases d) simp_all
  moreover have "\<not> 1 < d" using spec [OF d(3), of 1] w(1) by simp
  ultimately have "d = 1" by simp
  then show ?thesis using d(4) by (simp add: numeral_2_eq_2)
qed

end
