(* ===== verification/C_Memory.thy ===== *)
theory C_Memory
  imports Prelude
begin

text \<open>
  The memory of a C program as far as nanopb's message structures use it: bytes at
  addresses, little-endian integers, pointers of eight bytes, and the heap of
  \<open>realloc\<close> and \<open>free\<close>. Addresses are \<open>nat\<close>; NULL is 0. An access outside the allocated bytes
  and a release of something that is not a live block give \<open>None\<close>: undefined behaviour.
\<close>

section \<open>Bytes and integers in memory\<close>

record heap =
  bytes :: "nat \<Rightarrow> byte option"
  blocks :: "nat \<Rightarrow> nat option"

definition load :: "heap \<Rightarrow> nat \<Rightarrow> nat \<Rightarrow> byte list option" where
  "load h a n = those (map (bytes h) [a..<a + n])"

definition writable :: "heap \<Rightarrow> nat \<Rightarrow> nat \<Rightarrow> bool" where
  "writable h a n \<longleftrightarrow> (\<forall>x \<in> set [a..<a + n]. bytes h x \<noteq> None)"

definition write_bytes :: "(nat \<Rightarrow> byte option) \<Rightarrow> nat \<Rightarrow> byte list \<Rightarrow> (nat \<Rightarrow> byte option)" where
  "write_bytes m a bs = (\<lambda>x. if a \<le> x \<and> x < a + length bs then Some (bs ! (x - a)) else m x)"

definition store :: "heap \<Rightarrow> nat \<Rightarrow> byte list \<Rightarrow> heap option" where
  "store h a bs =
     (if writable h a (length bs) then Some (h\<lparr>bytes := write_bytes (bytes h) a bs\<rparr>) else None)"

definition load_word :: "heap \<Rightarrow> nat \<Rightarrow> nat \<Rightarrow> 'a::len word option" where
  "load_word h a n = map_option of_le (load h a n)"

definition store_word :: "heap \<Rightarrow> nat \<Rightarrow> nat \<Rightarrow> 'a::len word \<Rightarrow> heap option" where
  "store_word h a n w = store h a (le_bytes n w)"

abbreviation load32 :: "heap \<Rightarrow> nat \<Rightarrow> u32 option" where
  "load32 h a \<equiv> load_word h a 4"

abbreviation store32 :: "heap \<Rightarrow> nat \<Rightarrow> u32 \<Rightarrow> heap option" where
  "store32 h a w \<equiv> store_word h a 4 w"

text \<open>A pointer and a \<open>bool\<close> in memory.\<close>

definition load_ptr :: "heap \<Rightarrow> nat \<Rightarrow> nat option" where
  "load_ptr h a = map_option unat (load_word h a 8 :: u64 option)"

definition store_ptr :: "heap \<Rightarrow> nat \<Rightarrow> nat \<Rightarrow> heap option" where
  "store_ptr h a p = store_word h a 8 (of_nat p :: u64)"

definition load_bool :: "heap \<Rightarrow> nat \<Rightarrow> bool option" where
  "load_bool h a = map_option (\<lambda>b. b \<noteq> 0) (load_word h a 1 :: byte option)"

definition store_bool :: "heap \<Rightarrow> nat \<Rightarrow> bool \<Rightarrow> heap option" where
  "store_bool h a b = store_word h a 1 (if b then 1 else 0 :: byte)"

section \<open>The allocator\<close>

text \<open>
  \<open>pick h n\<close> is the allocator's choice of a block of \<open>n\<close> bytes, \<open>None\<close> when it is out of
  memory; \<open>junk\<close> is what fresh memory contains. The old block is given back before the choice,
  so the block may grow in place; on failure it stays as it was.
\<close>

definition release_block :: "heap \<Rightarrow> nat \<Rightarrow> nat \<Rightarrow> heap" where
  "release_block h p n =
     h\<lparr>bytes := (\<lambda>x. if p \<le> x \<and> x < p + n then None else bytes h x), blocks := (blocks h)(p := None)\<rparr>"

definition new_block :: "heap \<Rightarrow> nat \<Rightarrow> byte list \<Rightarrow> heap" where
  "new_block h q bs =
     h\<lparr>bytes := write_bytes (bytes h) q bs, blocks := (blocks h)(q := Some (length bs))\<rparr>"

definition c_free :: "heap \<Rightarrow> nat \<Rightarrow> heap option" where
  "c_free h p = (if p = 0 then Some h
     else case blocks h p of None \<Rightarrow> None | Some n \<Rightarrow> Some (release_block h p n))"

definition c_realloc ::
    "(heap \<Rightarrow> nat \<Rightarrow> nat option) \<Rightarrow> (nat \<Rightarrow> byte) \<Rightarrow> heap \<Rightarrow> nat \<Rightarrow> nat \<Rightarrow> (nat \<times> heap) option" where
  "c_realloc pick junk h p n =
     (let grow = (\<lambda>h0 old. case pick h0 n of
          None \<Rightarrow> Some (0, h)
        | Some q \<Rightarrow> Some (q, new_block h0 q
            (take n old @ map junk [min n (length old)..<n])))
      in if p = 0 then grow h []
         else case blocks h p of
             None \<Rightarrow> None
           | Some m \<Rightarrow> (case load h p m of
               None \<Rightarrow> None
             | Some old \<Rightarrow> grow (release_block h p m) old))"

text \<open>
  The contract of an allocator: a block never covers NULL, lies in the 64-bit address space
  and is disjoint from everything allocated.
\<close>

definition alloc_ok :: "(heap \<Rightarrow> nat \<Rightarrow> nat option) \<Rightarrow> bool" where
  "alloc_ok pick \<longleftrightarrow> (\<forall>h n q. pick h n = Some q \<longrightarrow>
     0 < q \<and> q + n \<le> 2 ^ 64 \<and> (\<forall>x. q \<le> x \<and> x < q + n \<longrightarrow> bytes h x = None))"

section \<open>Laws of loads and stores\<close>

lemma those_eq_Some: "those xs = Some ys \<longleftrightarrow> xs = map Some ys"
proof (induction xs arbitrary: ys)
  case (Cons x xs)
  then show ?case by (cases x; cases ys) auto
qed auto

lemma load_eq_Some:
  "load h a n = Some bs \<longleftrightarrow> length bs = n \<and> (\<forall>i < n. bytes h (a + i) = Some (bs ! i))"
  by (auto simp: load_def those_eq_Some list_eq_iff_nth_eq)

lemma load_length: "load h a n = Some bs \<Longrightarrow> length bs = n"
  by (simp add: load_eq_Some)

lemma writable_iff: "writable h a n \<longleftrightarrow> (\<forall>i < n. bytes h (a + i) \<noteq> None)"
proof
  assume w: "writable h a n"
  show "\<forall>i < n. bytes h (a + i) \<noteq> None"
    using w by (auto simp: writable_def)
next
  assume r: "\<forall>i < n. bytes h (a + i) \<noteq> None"
  have "bytes h x \<noteq> None" if "a \<le> x" "x < a + n" for x
    using r [rule_format, of "x - a"] that by simp
  then show "writable h a n" by (simp add: writable_def)
qed

lemma writableD: "writable h a n \<Longrightarrow> a \<le> x \<Longrightarrow> x < a + n \<Longrightarrow> bytes h x \<noteq> None"
  by (simp add: writable_def)

lemma load_Some_iff_writable: "(\<exists>bs. load h a n = Some bs) \<longleftrightarrow> writable h a n"
proof
  assume "writable h a n"
  then have "load h a n = Some (map (\<lambda>i. the (bytes h (a + i))) [0..<n])"
    by (auto simp: load_eq_Some writable_iff)
  then show "\<exists>bs. load h a n = Some bs" by blast
qed (auto simp: load_eq_Some writable_iff)

lemma write_bytes_same [simp]: "i < length bs \<Longrightarrow> write_bytes m a bs (a + i) = Some (bs ! i)"
  by (simp add: write_bytes_def)

lemma write_bytes_other: "x < a \<or> a + length bs \<le> x \<Longrightarrow> write_bytes m a bs x = m x"
  by (auto simp: write_bytes_def)

lemma load_store_same: "store h a bs = Some h' \<Longrightarrow> load h' a (length bs) = Some bs"
  by (auto simp: store_def load_eq_Some split: if_splits)

lemma load_store_other:
  assumes "store h a bs = Some h'" and "b + n \<le> a \<or> a + length bs \<le> b"
  shows "load h' b n = load h b n"
proof -
  have "map (bytes h') [b..<b + n] = map (bytes h) [b..<b + n]"
    using assms by (auto simp: store_def write_bytes_other split: if_splits)
  then show ?thesis unfolding load_def by (rule arg_cong)
qed

lemma store_Some_iff: "(\<exists>h'. store h a bs = Some h') \<longleftrightarrow> writable h a (length bs)"
  by (simp add: store_def)

lemma store_frame:
  "store h a bs = Some h' \<Longrightarrow> x < a \<or> a + length bs \<le> x \<Longrightarrow> bytes h' x = bytes h x"
  by (auto simp: store_def write_bytes_other split: if_splits)

lemma store_alloc:
  "store h a bs = Some h' \<Longrightarrow> (bytes h' x = None) = (bytes h x = None)"
  by (auto simp: store_def write_bytes_def dest: writableD split: if_splits)

lemma store_blocks [simp]: "store h a bs = Some h' \<Longrightarrow> blocks h' = blocks h"
  by (auto simp: store_def split: if_splits)

lemma store_writable: "store h a bs = Some h' \<Longrightarrow> writable h' b n = writable h b n"
  using store_alloc by (auto simp: writable_iff)

lemma load_word_store_word:
  "store_word h a n w = Some h' \<Longrightarrow> LENGTH('a) \<le> 8 * n \<Longrightarrow> load_word h' a n = Some (w :: 'a::len word)"
  using load_store_same [of h a "le_bytes n w" h']
  by (simp add: store_word_def load_word_def of_le_le_bytes_full)

end
