(* ===== verification/Pb_Encode.thy ===== *)
theory Pb_Encode
  imports Pb_Ostream Pb_Common C_Memory
begin

text \<open>
  The message encoder (\<open>pb_encode.c\<close>): field encoders, arrays, oneofs, extensions, callbacks
  and submessages, over a message structure in memory that the encoder only reads.

  A call that the C code makes through a descriptor, \<open>pb_encode\<close> of a submessage, is the
  argument \<open>penc\<close> of the functions between; \<open>pb_encode\<close> ties the knot with fuel that bounds
  the nesting of submessages and the length of an extension list.
\<close>

section \<open>The environment of the encoder\<close>

text \<open>
  What the code reaches through pointers that are not data: descriptor arrays, the callbacks
  \<open>funcs.encode\<close> and the \<open>pb_extension_type_t\<close> objects (an encoder and the field descriptor
  \<open>arg\<close>). Callbacks are the application's.
\<close>

type_synonym 'v writer = "'v ostream \<Rightarrow> (unit, 'v ostream) res"

record 'v enc_env =
  e_msgs :: "nat \<Rightarrow> pb_field list option"
  e_callbacks :: "nat \<Rightarrow> (heap \<Rightarrow> pb_field \<Rightarrow> nat \<Rightarrow> 'v writer) option"
  e_exts :: "nat \<Rightarrow> ((heap \<Rightarrow> nat \<Rightarrow> 'v writer) option \<times> pb_field) option"

text \<open>
  The bytes at an address as \<open>pb_write\<close> gets them: all \<open>n\<close>, or nothing when they are not
  readable.
\<close>

definition mem_bytes :: "heap \<Rightarrow> nat \<Rightarrow> nat \<Rightarrow> byte list" where
  "mem_bytes h a n = (case load h a n of Some bs \<Rightarrow> bs | None \<Rightarrow> [])"

section \<open>Tags and scalar values\<close>

definition wire_type_of :: "byte \<Rightarrow> u32 option" where
  "wire_type_of ty = (let t = PB_LTYPE ty in
     if t \<in> {PB_LTYPE_VARINT, PB_LTYPE_UVARINT, PB_LTYPE_SVARINT} then Some PB_WT_VARINT
     else if t = PB_LTYPE_FIXED32 then Some PB_WT_32BIT
     else if t = PB_LTYPE_FIXED64 then Some PB_WT_64BIT
     else if t \<in> {PB_LTYPE_BYTES, PB_LTYPE_STRING, PB_LTYPE_SUBMESSAGE, PB_LTYPE_FIXED_LENGTH_BYTES}
       then Some PB_WT_STRING
     else None)"

definition pb_encode_tag_for_field :: "pb_field \<Rightarrow> 'v writer" where
  "pb_encode_tag_for_field f s = (case wire_type_of (ftype f) of
     Some wt \<Rightarrow> pb_encode_tag s wt (tag f)
   | None \<Rightarrow> o_return_error s ''invalid field type'')"

text \<open>
  A signed integer of \<open>data_size\<close> bytes, converted to \<open>int64_t\<close>: \<open>None\<close> is an invalid size,
  the inner \<open>None\<close> an unreadable address.
\<close>

definition load_signed :: "heap \<Rightarrow> u32 \<Rightarrow> nat \<Rightarrow> u64 option option" where
  "load_signed h sz p =
     (if sz = 1 then Some (map_option scast (load_word h p 1 :: byte option))
      else if sz = 2 then Some (map_option scast (load_word h p 2 :: u16 option))
      else if sz = 4 then Some (map_option scast (load_word h p 4 :: u32 option))
      else if sz = 8 then Some (load_word h p 8)
      else None)"

definition load_unsigned :: "heap \<Rightarrow> u32 \<Rightarrow> nat \<Rightarrow> u64 option option" where
  "load_unsigned h sz p =
     (if sz = 1 then Some (map_option ucast (load_word h p 1 :: byte option))
      else if sz = 2 then Some (map_option ucast (load_word h p 2 :: u16 option))
      else if sz = 4 then Some (map_option ucast (load_word h p 4 :: u32 option))
      else if sz = 8 then Some (load_word h p 8)
      else None)"

definition pb_enc_varint :: "heap \<Rightarrow> pb_field \<Rightarrow> nat \<Rightarrow> 'v writer" where
  "pb_enc_varint h f p s = (case load_signed h (data_size f) p of
     None \<Rightarrow> o_return_error s ''invalid data_size''
   | Some v \<Rightarrow> rbind (ropt v s) (\<lambda>value s. pb_encode_varint s value))"

definition pb_enc_uvarint :: "heap \<Rightarrow> pb_field \<Rightarrow> nat \<Rightarrow> 'v writer" where
  "pb_enc_uvarint h f p s = (case load_unsigned h (data_size f) p of
     None \<Rightarrow> o_return_error s ''invalid data_size''
   | Some v \<Rightarrow> rbind (ropt v s) (\<lambda>value s. pb_encode_varint s value))"

definition pb_enc_svarint :: "heap \<Rightarrow> pb_field \<Rightarrow> nat \<Rightarrow> 'v writer" where
  "pb_enc_svarint h f p s = (case load_signed h (data_size f) p of
     None \<Rightarrow> o_return_error s ''invalid data_size''
   | Some v \<Rightarrow> rbind (ropt v s) (\<lambda>value s. pb_encode_svarint s value))"

definition pb_enc_fixed32 :: "heap \<Rightarrow> pb_field \<Rightarrow> nat \<Rightarrow> 'v writer" where
  "pb_enc_fixed32 h f p s = rbind (ropt (load32 h p) s) (\<lambda>val s. pb_encode_fixed32 s val)"

definition pb_enc_fixed64 :: "heap \<Rightarrow> pb_field \<Rightarrow> nat \<Rightarrow> 'v writer" where
  "pb_enc_fixed64 h f p s = rbind (ropt (load_word h p 8) s) (\<lambda>val s. pb_encode_fixed64 s val)"

section \<open>Bytes, strings and submessages\<close>

definition pb_enc_bytes :: "heap \<Rightarrow> pb_field \<Rightarrow> nat \<Rightarrow> 'v writer" where
  "pb_enc_bytes h f p s =
     (if p = 0 then pb_encode_string s [] 0
      else rbind (ropt (load32 h p) s) (\<lambda>sz s.
        if PB_ATYPE (ftype f) = PB_ATYPE_STATIC \<and>
           unat (data_size f) < PB_BYTES_ARRAY_T_ALLOCSIZE sz
        then o_return_error s ''bytes size exceeded''
        else pb_encode_string s (mem_bytes h (p + bytes_offset) (unat sz)) (ucast sz)))"

text \<open>The loop in place of \<open>strnlen\<close>.\<close>

function strnlen_loop :: "heap \<Rightarrow> nat \<Rightarrow> nat \<Rightarrow> nat \<Rightarrow> nat option" where
  "strnlen_loop h p limit n =
     (if n < limit then
        (case bytes h (p + n) of
          None \<Rightarrow> None
        | Some c \<Rightarrow> if c \<noteq> 0 then strnlen_loop h p limit (Suc n) else Some n)
      else Some n)"
  by pat_completeness auto
termination
  by (relation "measure (\<lambda>(h, p, limit, n). limit - n)") auto

declare strnlen_loop.simps [simp del]

definition pb_enc_string :: "heap \<Rightarrow> pb_field \<Rightarrow> nat \<Rightarrow> 'v writer" where
  "pb_enc_string h f p s =
     (let limit = (if PB_ATYPE (ftype f) = PB_ATYPE_POINTER then 2 ^ 64 - 1
                   else unat (data_size f))
      in if p = 0 then pb_encode_string s [] 0
         else rbind (ropt (strnlen_loop h p limit 0) s) (\<lambda>n s.
           pb_encode_string s (mem_bytes h p n) (of_nat n)))"

definition pb_enc_fixed_length_bytes :: "heap \<Rightarrow> pb_field \<Rightarrow> nat \<Rightarrow> 'v writer" where
  "pb_enc_fixed_length_bytes h f p s =
     pb_encode_string s (mem_bytes h p (unat (data_size f))) (ucast (data_size f))"

text \<open>
  \<open>pb_encode_submessage\<close>: a first pass on a sizing stream, the size, and a second pass on a
  substream limited to that size.
\<close>

definition pb_encode_submessage :: "'v writer \<Rightarrow> 'v writer" where
  "pb_encode_submessage body s = (case body PB_OSTREAM_SIZING of
     UB \<Rightarrow> UB
   | NoFuel \<Rightarrow> NoFuel
   | Fail sub \<Rightarrow> Fail (s\<lparr>o_errmsg := o_errmsg sub\<rparr>)
   | Ok _ sub \<Rightarrow> (let size = bytes_written sub in
       rbind (pb_encode_varint s size) (\<lambda>_ s1.
         if is_sizing s1 then pb_write s1 [] size
         else if max_size s1 < bytes_written s1 + size then o_return_error s1 ''stream full''
         else (let
             merge = (\<lambda>sub. s1\<lparr>bytes_written := bytes_written s1 + bytes_written sub,
               snk := snk sub, o_errmsg := o_errmsg sub\<rparr>);
             finish = (\<lambda>sub status.
               if bytes_written sub \<noteq> size then o_return_error (merge sub) ''submsg size changed''
               else if status then Ok () (merge sub) else Fail (merge sub))
           in case body \<lparr>snk = snk s1, max_size = size, bytes_written = 0, o_errmsg = None\<rparr> of
             Ok _ sub2 \<Rightarrow> finish sub2 True
           | Fail sub2 \<Rightarrow> finish sub2 False
           | UB \<Rightarrow> UB
           | NoFuel \<Rightarrow> NoFuel))))"

definition pb_enc_submessage ::
    "(nat \<Rightarrow> pb_field list option) \<Rightarrow> (pb_field list \<Rightarrow> nat \<Rightarrow> 'v writer) \<Rightarrow>
     pb_field \<Rightarrow> nat \<Rightarrow> 'v writer" where
  "pb_enc_submessage msgs penc f p s =
     (if ptr f = PtrNull then o_return_error s ''invalid field descriptor''
      else case sub_fields msgs f of
        None \<Rightarrow> UB
      | Some fs \<Rightarrow> pb_encode_submessage (penc fs p) s)"

text \<open>The table \<open>PB_ENCODERS\<close>, indexed by the LTYPE; its extension entry is NULL.\<close>

definition PB_ENCODERS ::
    "(nat \<Rightarrow> pb_field list option) \<Rightarrow> (pb_field list \<Rightarrow> nat \<Rightarrow> 'v writer) \<Rightarrow> heap \<Rightarrow>
     byte \<Rightarrow> pb_field \<Rightarrow> nat \<Rightarrow> 'v writer" where
  "PB_ENCODERS msgs penc h t =
     (if t = PB_LTYPE_VARINT then pb_enc_varint h
      else if t = PB_LTYPE_UVARINT then pb_enc_uvarint h
      else if t = PB_LTYPE_SVARINT then pb_enc_svarint h
      else if t = PB_LTYPE_FIXED32 then pb_enc_fixed32 h
      else if t = PB_LTYPE_FIXED64 then pb_enc_fixed64 h
      else if t = PB_LTYPE_BYTES then pb_enc_bytes h
      else if t = PB_LTYPE_STRING then pb_enc_string h
      else if t = PB_LTYPE_SUBMESSAGE then pb_enc_submessage msgs penc
      else if t = PB_LTYPE_FIXED_LENGTH_BYTES then pb_enc_fixed_length_bytes h
      else (\<lambda>f p s. UB))"

section \<open>Arrays\<close>

text \<open>The loops over the entries, \<open>p = (const char*)p + field->data_size\<close> after each.\<close>

fun enc_items :: "(nat \<Rightarrow> 'v writer) \<Rightarrow> nat \<Rightarrow> nat \<Rightarrow> nat \<Rightarrow> 'v writer" where
  "enc_items item step 0 p s = Ok () s"
| "enc_items item step (Suc n) p s =
     rbind (item p s) (\<lambda>_ s1. enc_items item step n (p + step) s1)"

definition encode_packed ::
    "pb_field \<Rightarrow> nat \<Rightarrow> nat \<Rightarrow> (pb_field \<Rightarrow> nat \<Rightarrow> 'v writer) \<Rightarrow> 'v writer" where
  "encode_packed f p count func s =
     (let items = enc_items (func f) (unat (data_size f)) count p
      in rbind (pb_encode_tag s PB_WT_STRING (tag f)) (\<lambda>_ s1.
        let write_data = (\<lambda>size. rbind (pb_encode_varint s1 size) (\<lambda>_ s2.
              if is_sizing s2 then pb_write s2 [] size else items s2))
        in if PB_LTYPE (ftype f) = PB_LTYPE_FIXED32 then write_data (4 * of_nat count)
           else if PB_LTYPE (ftype f) = PB_LTYPE_FIXED64 then write_data (8 * of_nat count)
           else (case items PB_OSTREAM_SIZING of
               Ok _ sizestream \<Rightarrow> write_data (bytes_written sizestream)
             | Fail _ \<Rightarrow> Fail s1
             | UB \<Rightarrow> UB
             | NoFuel \<Rightarrow> NoFuel)))"

definition encode_unpacked ::
    "heap \<Rightarrow> pb_field \<Rightarrow> nat \<Rightarrow> nat \<Rightarrow> (pb_field \<Rightarrow> nat \<Rightarrow> 'v writer) \<Rightarrow> 'v writer" where
  "encode_unpacked h f p count func =
     enc_items (\<lambda>p s. rbind (pb_encode_tag_for_field f s) (\<lambda>_ s1.
       if PB_ATYPE (ftype f) = PB_ATYPE_POINTER \<and>
          PB_LTYPE (ftype f) \<in> {PB_LTYPE_STRING, PB_LTYPE_BYTES}
       then rbind (ropt (load_ptr h p) s1) (\<lambda>q s1. func f q s1)
       else func f p s1)) (unat (data_size f)) count p"

definition encode_array ::
    "heap \<Rightarrow> pb_field \<Rightarrow> nat \<Rightarrow> nat \<Rightarrow> (pb_field \<Rightarrow> nat \<Rightarrow> 'v writer) \<Rightarrow> 'v writer" where
  "encode_array h f p count func s =
     (if count = 0 then Ok () s
      else if PB_ATYPE (ftype f) \<noteq> PB_ATYPE_POINTER \<and> unat (array_size f) < count
      then o_return_error s ''array max size exceeded''
      else if PB_LTYPE (ftype f) \<le> PB_LTYPE_LAST_PACKABLE then encode_packed f p count func s
      else encode_unpacked h f p count func s)"

section \<open>The proto3 check for a zero value\<close>

text \<open>
  The check stops at the first nonzero byte; the loop over the fields of a submessage ends
  with the first field that is not zero (\<open>Fail\<close> carries the answer false out of it).
\<close>

fun zero_bytes_loop :: "heap \<Rightarrow> nat \<Rightarrow> nat \<Rightarrow> bool option" where
  "zero_bytes_loop h p 0 = Some True"
| "zero_bytes_loop h p (Suc n) = (case bytes h p of
     None \<Rightarrow> None
   | Some b \<Rightarrow> if b \<noteq> 0 then Some False else zero_bytes_loop h (Suc p) n)"

fun pb_check_proto3_default_value ::
    "(nat \<Rightarrow> pb_field list option) \<Rightarrow> heap \<Rightarrow> nat \<Rightarrow> pb_field \<Rightarrow> nat \<Rightarrow> (unit, unit) res" where
  "pb_check_proto3_default_value msgs h 0 f p = NoFuel"
| "pb_check_proto3_default_value msgs h (Suc fuel) f p =
     (let yes_if = (\<lambda>c. case c of None \<Rightarrow> UB | Some b \<Rightarrow> if b then Ok () () else Fail ());
          ty = ftype f; size = ptr_off p (size_offset f)
      in if PB_HTYPE ty = PB_HTYPE_REQUIRED then Fail ()
         else if PB_HTYPE ty = PB_HTYPE_REPEATED \<or> PB_HTYPE ty = PB_HTYPE_ONEOF
         then yes_if (map_option (\<lambda>n. n = 0) (load32 h size))
         else if PB_HTYPE ty = PB_HTYPE_OPTIONAL \<and> size_offset f \<noteq> 0
         then yes_if (map_option Not (load_bool h size))
         else if PB_ATYPE ty = PB_ATYPE_STATIC \<and> PB_LTYPE ty = PB_LTYPE_BYTES
         then yes_if (map_option (\<lambda>n. n = 0) (load32 h p))
         else if PB_ATYPE ty = PB_ATYPE_STATIC \<and> PB_LTYPE ty = PB_LTYPE_STRING
         then yes_if (map_option (\<lambda>c. c = 0) (bytes h p))
         else if PB_ATYPE ty = PB_ATYPE_STATIC \<and> PB_LTYPE ty = PB_LTYPE_FIXED_LENGTH_BYTES
         then yes_if (Some (data_size f = 0))
         else if PB_ATYPE ty = PB_ATYPE_STATIC \<and> PB_LTYPE ty = PB_LTYPE_SUBMESSAGE
         then (case sub_fields msgs f of
             None \<Rightarrow> UB
           | Some fs \<Rightarrow> for_each_field fs p
               (\<lambda>iter _. pb_check_proto3_default_value msgs h fuel (cur iter) (pData iter)) ())
         else yes_if (zero_bytes_loop h p (unat (data_size f))))"

section \<open>Fields\<close>

text \<open>
  \<open>encode_basic_field\<close>. \<open>pSize\<close> points at the member \<open>has_\<close>, the count or \<open>which_\<close>, or at the
  local \<open>implicit_has\<close>, of which the code reads one byte as \<open>bool\<close>; in the oneof case without a
  size member it reads four, past the local.
\<close>

definition implicit_has :: "'v enc_env \<Rightarrow> heap \<Rightarrow> nat \<Rightarrow> pb_field \<Rightarrow> nat \<Rightarrow> (bool, unit) res" where
  "implicit_has e h fuel f p =
     (if size_offset f = 0 \<and> PB_HTYPE (ftype f) = PB_HTYPE_OPTIONAL
      then (case pb_check_proto3_default_value (e_msgs e) h fuel f p of
          Ok _ _ \<Rightarrow> Ok False () | Fail _ \<Rightarrow> Ok True () | UB \<Rightarrow> UB | NoFuel \<Rightarrow> NoFuel)
      else Ok True ())"

definition encode_basic_field ::
    "'v enc_env \<Rightarrow> heap \<Rightarrow> nat \<Rightarrow> (pb_field list \<Rightarrow> nat \<Rightarrow> 'v writer) \<Rightarrow> pb_field \<Rightarrow> nat \<Rightarrow> 'v writer" where
  "encode_basic_field e h fuel penc f p s =
     (let ty = ftype f;
          func = PB_ENCODERS (e_msgs e) penc h (PB_LTYPE ty);
          pSize = ptr_off p (size_offset f);
          with_tag = (\<lambda>data s. rbind (pb_encode_tag_for_field f s) (\<lambda>_ s1. func f data s1))
      in rbind (rmap (\<lambda>_. s) (implicit_has e h fuel f p)) (\<lambda>has0 s.
         rbind (if PB_ATYPE ty = PB_ATYPE_POINTER
                then rbind (ropt (load_ptr h p) s) (\<lambda>q s. Ok (q, q \<noteq> 0) s)
                else Ok (p, has0) s) (\<lambda>(data, has) s.
         if PB_HTYPE ty = PB_HTYPE_REQUIRED then
           if data = 0 then o_return_error s ''missing required field'' else with_tag data s
         else if PB_HTYPE ty = PB_HTYPE_OPTIONAL then
           rbind (if size_offset f \<noteq> 0 then ropt (load_bool h pSize) s else Ok has s) (\<lambda>b s.
             if b then with_tag data s else Ok () s)
         else if PB_HTYPE ty = PB_HTYPE_REPEATED then
           rbind (if size_offset f \<noteq> 0 then ropt (load32 h pSize) s else Ok (array_size f) s)
             (\<lambda>count s. encode_array h f data (unat count) func s)
         else rbind (if size_offset f \<noteq> 0 then ropt (load32 h pSize) s else UB) (\<lambda>which s.
             if which = tag f then with_tag data s else Ok () s))))"

definition encode_callback_field :: "'v enc_env \<Rightarrow> heap \<Rightarrow> pb_field \<Rightarrow> nat \<Rightarrow> 'v writer" where
  "encode_callback_field e h f p s =
     rbind (ropt (load_ptr h (p + cb_funcs)) s) (\<lambda>fn s.
       if fn = 0 then Ok () s
       else (case e_callbacks e fn of
           None \<Rightarrow> UB
         | Some callback \<Rightarrow> (case callback h f (p + cb_arg) s of
             Fail s1 \<Rightarrow> o_return_error s1 ''callback error''
           | r \<Rightarrow> r)))"

definition encode_field ::
    "'v enc_env \<Rightarrow> heap \<Rightarrow> nat \<Rightarrow> (pb_field list \<Rightarrow> nat \<Rightarrow> 'v writer) \<Rightarrow> pb_field \<Rightarrow> nat \<Rightarrow> 'v writer" where
  "encode_field e h fuel penc f p s =
     (if PB_ATYPE (ftype f) = PB_ATYPE_STATIC \<or> PB_ATYPE (ftype f) = PB_ATYPE_POINTER
      then encode_basic_field e h fuel penc f p s
      else if PB_ATYPE (ftype f) = PB_ATYPE_CALLBACK then encode_callback_field e h f p s
      else o_return_error s ''invalid field type'')"

text \<open>Extensions: the list of \<open>pb_extension_t\<close> objects a message points at.\<close>

definition default_extension_encoder ::
    "'v enc_env \<Rightarrow> heap \<Rightarrow> nat \<Rightarrow> (pb_field list \<Rightarrow> nat \<Rightarrow> 'v writer) \<Rightarrow> pb_field \<Rightarrow> nat \<Rightarrow> 'v writer" where
  "default_extension_encoder e h fuel penc f ext s =
     (if PB_ATYPE (ftype f) = PB_ATYPE_POINTER then encode_field e h fuel penc f (ext + ext_dest) s
      else rbind (ropt (load_ptr h (ext + ext_dest)) s) (\<lambda>dest s.
        encode_field e h fuel penc f dest s))"

fun encode_extensions ::
    "'v enc_env \<Rightarrow> heap \<Rightarrow> nat \<Rightarrow> (pb_field list \<Rightarrow> nat \<Rightarrow> 'v writer) \<Rightarrow> nat \<Rightarrow> nat \<Rightarrow> 'v writer" where
  "encode_extensions e h fuel penc 0 ext s = NoFuel"
| "encode_extensions e h fuel penc (Suc n) ext s =
     (if ext = 0 then Ok () s
      else rbind (ropt (load_ptr h (ext + ext_type)) s) (\<lambda>ty s.
        rbind (case e_exts e ty of
            None \<Rightarrow> UB
          | Some (Some encode, _) \<Rightarrow> encode h ext s
          | Some (None, f) \<Rightarrow> default_extension_encoder e h fuel penc f ext s) (\<lambda>_ s.
        rbind (ropt (load_ptr h (ext + ext_next)) s) (\<lambda>next s.
          encode_extensions e h fuel penc n next s))))"

definition encode_extension_field ::
    "'v enc_env \<Rightarrow> heap \<Rightarrow> nat \<Rightarrow> (pb_field list \<Rightarrow> nat \<Rightarrow> 'v writer) \<Rightarrow> nat \<Rightarrow> 'v writer" where
  "encode_extension_field e h fuel penc p s =
     rbind (ropt (load_ptr h p) s) (\<lambda>ext s. encode_extensions e h fuel penc fuel ext s)"

section \<open>Messages\<close>

definition encode_message ::
    "'v enc_env \<Rightarrow> heap \<Rightarrow> nat \<Rightarrow> (pb_field list \<Rightarrow> nat \<Rightarrow> 'v writer) \<Rightarrow> pb_field list \<Rightarrow> nat \<Rightarrow> 'v writer" where
  "encode_message e h fuel penc fs base =
     for_each_field fs base (\<lambda>iter s.
       if PB_LTYPE (ftype (cur iter)) = PB_LTYPE_EXTENSION
       then encode_extension_field e h fuel penc (pData iter) s
       else encode_field e h fuel penc (cur iter) (pData iter) s)"

fun pb_encode :: "'v enc_env \<Rightarrow> heap \<Rightarrow> nat \<Rightarrow> pb_field list \<Rightarrow> nat \<Rightarrow> 'v writer" where
  "pb_encode e h 0 fs base s = NoFuel"
| "pb_encode e h (Suc fuel) fs base s = encode_message e h fuel (pb_encode e h fuel) fs base s"

definition pb_encode_delimited :: "'v enc_env \<Rightarrow> heap \<Rightarrow> nat \<Rightarrow> pb_field list \<Rightarrow> nat \<Rightarrow> 'v writer" where
  "pb_encode_delimited e h fuel fs base = pb_encode_submessage (pb_encode e h fuel fs base)"

definition pb_encode_nullterminated :: "'v enc_env \<Rightarrow> heap \<Rightarrow> nat \<Rightarrow> pb_field list \<Rightarrow> nat \<Rightarrow> 'v writer" where
  "pb_encode_nullterminated e h fuel fs base s =
     rbind (pb_encode e h fuel fs base s) (\<lambda>_ s1. pb_write s1 [0] 1)"

definition pb_get_encoded_size ::
    "'v enc_env \<Rightarrow> heap \<Rightarrow> nat \<Rightarrow> pb_field list \<Rightarrow> nat \<Rightarrow> (u64, unit) res" where
  "pb_get_encoded_size e h fuel fs base = (case pb_encode e h fuel fs base PB_OSTREAM_SIZING of
     Ok _ s \<Rightarrow> Ok (bytes_written s) ()
   | Fail _ \<Rightarrow> Fail ()
   | UB \<Rightarrow> UB
   | NoFuel \<Rightarrow> NoFuel)"

end
