(* ===== verification/Pb_Emits.thy ===== *)
theory Pb_Emits
  imports Pb_Encode
begin

text \<open>
  What it means for an encoder to emit a byte string: the same bytes whatever the stream is.
  A sizing stream counts them, a buffer stream with room for them stores them, and one
  without room fails without touching anything outside its window.
\<close>

section \<open>Emitting bytes\<close>

fun overwrite :: "'u sink \<Rightarrow> byte list \<Rightarrow> 'u sink" where
  "overwrite (OBuf buf p) bs =
     OBuf (take p buf @ bs @ drop (p + length bs) buf) (p + length bs)"
| "overwrite k bs = k"

definition put :: "'u ostream \<Rightarrow> byte list \<Rightarrow> 'u ostream" where
  "put s bs = s\<lparr>snk := overwrite (snk s) bs,
     bytes_written := bytes_written s + of_nat (length bs)\<rparr>"

text \<open>A stream without an error that counts, or stores within a buffer of less than \<open>2^63\<close> bytes.\<close>

definition good :: "'u ostream \<Rightarrow> bool" where
  "good s \<longleftrightarrow> o_errmsg s = None \<and> ostream_ok s \<and>
     (case snk s of ONull \<Rightarrow> True | OBuf _ _ \<Rightarrow> unat (max_size s) < 2 ^ 63 | OUser _ _ \<Rightarrow> False)"

definition fits :: "'u ostream \<Rightarrow> nat \<Rightarrow> bool" where
  "fits s n \<longleftrightarrow> (case snk s of
     ONull \<Rightarrow> True | _ \<Rightarrow> unat (bytes_written s) + n \<le> unat (max_size s))"

text \<open>The part of the buffer outside the stream's window is as it was.\<close>

definition kept :: "'u ostream \<Rightarrow> 'u ostream \<Rightarrow> bool" where
  "kept s s' \<longleftrightarrow> (\<exists>buf p buf' p'. snk s = OBuf buf p \<and> snk s' = OBuf buf' p' \<and>
     length buf' = length buf \<and> take p buf' = take p buf \<and>
     (let stop = p + unat (max_size s - bytes_written s) in drop stop buf' = drop stop buf))"

definition emits :: "'u writer \<Rightarrow> byte list \<Rightarrow> bool" where
  "emits w bs \<longleftrightarrow> (length bs < 2 ^ 63 \<longrightarrow> (\<forall>s. good s \<longrightarrow>
     (if fits s (length bs) then w s = Ok () (put s bs) else \<exists>s'. w s = Fail s' \<and> kept s s')))"

named_theorems emits_intros

lemma snk_cases:
  assumes "good s"
  obtains (null) "snk s = ONull" | (buf) buf p where "snk s = OBuf buf p"
    "bytes_written s \<le> max_size s" "p + unat (max_size s - bytes_written s) \<le> length buf"
    "unat (max_size s) < 2 ^ 63"
  using assms by (cases "snk s") (auto simp: good_def ostream_ok_def)

lemma good_sizing [simp]: "good PB_OSTREAM_SIZING"
  by (simp add: good_def) (simp add: PB_OSTREAM_SIZING_def)

lemma fits_sizing [simp]: "fits PB_OSTREAM_SIZING n"
  by (simp add: fits_def PB_OSTREAM_SIZING_def)

lemma unat_room: "b \<le> m \<Longrightarrow> unat (m - b) = unat m - unat (b :: u64)"
  by (simp add: unat_sub)

lemma bytes_written_put:
  assumes "snk s = OBuf buf p" "unat (max_size s) < 2 ^ 63" "fits s (length bs)"
  shows "unat (bytes_written (put s bs)) = unat (bytes_written s) + length bs"
proof -
  have "unat (bytes_written s) + length bs < 2 ^ 64"
    using assms by (simp add: fits_def)
  then show ?thesis by (simp add: put_def unat_word_ariths unat_of_nat)
qed

lemma put_simps [simp]:
  "max_size (put s bs) = max_size s" "o_errmsg (put s bs) = o_errmsg s"
  "snk (put s bs) = overwrite (snk s) bs"
  by (simp_all add: put_def)

lemma good_put:
  assumes "good s" "fits s (length bs)"
  shows "good (put s bs)"
  using assms(1)
proof (cases rule: snk_cases)
  case null
  with assms show ?thesis by (simp add: good_def ostream_ok_def)
next
  case (buf b p)
  have bw: "unat (bytes_written (put s bs)) = unat (bytes_written s) + length bs"
    using bytes_written_put buf assms(2) by blast
  then have le: "bytes_written (put s bs) \<le> max_size s"
    using assms(2) buf(1) by (simp add: fits_def word_le_nat_alt)
  have "unat (max_size s - bytes_written (put s bs)) =
      unat (max_size s) - (unat (bytes_written s) + length bs)"
    using unat_room [OF le] bw by simp
  with buf le assms show ?thesis
    by (auto simp: good_def ostream_ok_def unat_room fits_def)
qed

lemma fits_put:
  assumes "good s" "fits s (length a)"
  shows "fits (put s a) n \<longleftrightarrow> fits s (length a + n)"
  using assms(1)
proof (cases rule: snk_cases)
  case null
  then show ?thesis by (simp add: fits_def)
next
  case (buf b p)
  then show ?thesis
    using bytes_written_put [OF buf(1,4) assms(2)] by (simp add: fits_def add.assoc)
qed

lemma put_put:
  assumes "good s" "fits s (length a + length b)"
  shows "put (put s a) b = put s (a @ b)"
  using assms(1)
proof (cases rule: snk_cases)
  case null
  then show ?thesis by (simp add: put_def add.assoc)
next
  case (buf buf p)
  then have "p + length a + length b \<le> length buf"
    using assms(2) by (simp add: fits_def unat_room)
  moreover from this have "min (length buf) p = p" "min p (length buf) = p" by simp_all
  ultimately show ?thesis
    using buf(1) by (simp add: put_def ac_simps)
qed

lemma kept_put:
  assumes "good s" "snk s = OBuf buf p" "fits s (length a)" "kept (put s a) s'"
  shows "kept s s'"
proof -
  have m: "unat (max_size s) < 2 ^ 63" "bytes_written s \<le> max_size s"
    and room: "p + unat (max_size s - bytes_written s) \<le> length buf"
    using assms(1,2) by (auto simp: good_def ostream_ok_def)
  have bw: "unat (bytes_written (put s a)) = unat (bytes_written s) + length a"
    by (rule bytes_written_put [OF assms(2) m(1) assms(3)])
  have ok: "bytes_written (put s a) \<le> max_size s"
    using good_put [OF assms(1,3)] assms(2) by (simp add: good_def ostream_ok_def)
  have stop: "p + length a + unat (max_size s - bytes_written (put s a)) =
      p + unat (max_size s - bytes_written s)"
    using assms(3) by (simp add: unat_room [OF ok] bw unat_room [OF m(2)] assms(2) fits_def)
  have len: "p + length a \<le> length buf" using room stop by linarith
  let ?B = "take p buf @ a @ drop (p + length a) buf"
  have snk: "snk (put s a) = OBuf ?B (p + length a)" using assms(2) by simp
  have B: "length ?B = length buf" "take (p + length a) ?B = take p buf @ a"
    using len by (simp_all add: min_absorb2)
  from assms(4) obtain buf' p' where b': "snk s' = OBuf buf' p'" "length buf' = length buf"
    "take (p + length a) buf' = take p buf @ a"
    "drop (p + unat (max_size s - bytes_written s)) buf' =
     drop (p + unat (max_size s - bytes_written s)) ?B"
    unfolding kept_def snk Let_def put_simps(1) sink.inject by (elim exE conjE) (metis B stop)
  have "take p buf' = take p (take (p + length a) buf')" by simp
  also have "\<dots> = take p buf" using len by (simp add: b'(3) min_absorb2)
  finally have pre: "take p buf' = take p buf" .
  have "drop (p + unat (max_size s - bytes_written s)) ?B =
      drop (p + unat (max_size s - bytes_written s)) buf"
    using len stop by (simp add: min_absorb2 add.commute)
  with assms(2) b' pre show ?thesis by (simp add: kept_def Let_def)
qed

lemma kept_put_end:
  assumes "good s" "snk s = OBuf buf p" "fits s (length a)"
  shows "kept s (put s a)"
proof -
  have "kept (put s a) (put s a)" using assms(2) by (simp add: kept_def)
  then show ?thesis using kept_put [OF assms] by blast
qed

lemma kept_set_error [simp]: "kept s (o_set_error t m) = kept s t"
  by (simp add: kept_def)

lemma emitsI:
  assumes "\<And>s. \<lbrakk>length bs < 2 ^ 63; good s; fits s (length bs)\<rbrakk> \<Longrightarrow> w s = Ok () (put s bs)"
    and "\<And>s. \<lbrakk>length bs < 2 ^ 63; good s; \<not> fits s (length bs)\<rbrakk> \<Longrightarrow> \<exists>s'. w s = Fail s' \<and> kept s s'"
  shows "emits w bs"
  using assms by (simp add: emits_def)

lemma emits_fits:
  "emits w bs \<Longrightarrow> length bs < 2 ^ 63 \<Longrightarrow> good s \<Longrightarrow> fits s (length bs) \<Longrightarrow> w s = Ok () (put s bs)"
  by (simp add: emits_def)

lemma emits_full:
  "emits w bs \<Longrightarrow> length bs < 2 ^ 63 \<Longrightarrow> good s \<Longrightarrow> \<not> fits s (length bs) \<Longrightarrow>
   \<exists>s'. w s = Fail s' \<and> kept s s'"
  by (simp add: emits_def)

lemma put_Nil [simp]: "good s \<Longrightarrow> put s [] = s"
  by (erule snk_cases) (auto simp: put_def)

lemma fits_0: "good s \<Longrightarrow> fits s 0"
  by (erule snk_cases) (auto simp: fits_def word_le_nat_alt)

lemma emits_Nil [emits_intros]: "emits (Ok ()) []"
  by (rule emitsI) (simp_all add: fits_0)

lemma fits_mono: "fits s n \<Longrightarrow> m \<le> n \<Longrightarrow> fits s m"
  by (auto simp: fits_def split: sink.splits)

lemma not_fits_OBuf: "good s \<Longrightarrow> \<not> fits s n \<Longrightarrow> \<exists>buf p. snk s = OBuf buf p"
  by (erule snk_cases) (auto simp: fits_def)

lemma emits_rbind [emits_intros]:
  assumes a: "emits w1 a" and b: "emits w2 b"
  shows "emits (\<lambda>s. rbind (w1 s) (\<lambda>_ s1. w2 s1)) (a @ b)"
proof (rule emitsI)
  fix s :: "'a ostream"
  assume len: "length (a @ b) < 2 ^ 63" and g: "good s" and f: "fits s (length (a @ b))"
  have fa: "fits s (length a)" using f by (rule fits_mono) simp
  have "w1 s = Ok () (put s a)" using emits_fits [OF a _ g fa] len by simp
  moreover have "w2 (put s a) = Ok () (put (put s a) b)"
    using emits_fits [OF b _ good_put [OF g fa]] len f by (simp add: fits_put [OF g fa])
  ultimately show "rbind (w1 s) (\<lambda>_ s1. w2 s1) = Ok () (put s (a @ b))"
    using f by (simp add: put_put [OF g])
next
  fix s :: "'a ostream"
  assume len: "length (a @ b) < 2 ^ 63" and g: "good s" and nf: "\<not> fits s (length (a @ b))"
  obtain buf p where snk: "snk s = OBuf buf p" using not_fits_OBuf [OF g nf] by blast
  show "\<exists>s'. rbind (w1 s) (\<lambda>_ s1. w2 s1) = Fail s' \<and> kept s s'"
  proof (cases "fits s (length a)")
    case True
    have "w1 s = Ok () (put s a)" using emits_fits [OF a _ g True] len by simp
    moreover obtain s' where "w2 (put s a) = Fail s'" "kept (put s a) s'"
      using emits_full [OF b _ good_put [OF g True]] len nf by (auto simp: fits_put [OF g True])
    ultimately show ?thesis using kept_put [OF g snk True] by auto
  next
    case False
    then show ?thesis using emits_full [OF a _ g False] len by auto
  qed
qed

lemma emits_write [emits_intros]:
  assumes "count = of_nat (length bs)"
  shows "emits (\<lambda>s. pb_write s bs count) bs"
proof (rule emitsI)
  fix s :: "'a ostream"
  assume len: "length bs < 2 ^ 63" and g: "good s" and f: "fits s (length bs)"
  have u: "unat count = length bs" using len assms by (simp add: unat_of_nat)
  from g show "pb_write s bs count = Ok () (put s bs)"
  proof (cases rule: snk_cases)
    case null
    then show ?thesis by (simp add: pb_write_def put_def assms)
  next
    case (buf b p)
    have "unat (bytes_written s + count) = unat (bytes_written s) + length bs"
      using bytes_written_put [OF buf(1,4) f] by (simp add: put_def assms [symmetric])
    moreover have "p + length bs \<le> length b" using buf f by (simp add: fits_def unat_room)
    ultimately show ?thesis
      using buf(1) f
      by (simp add: pb_write_def word_less_nat_alt fits_def u buf_write_def put_def assms [symmetric])
  qed
next
  fix s :: "'a ostream"
  assume len: "length bs < 2 ^ 63" and g: "good s" and nf: "\<not> fits s (length bs)"
  have u: "unat count = length bs" using len assms by (simp add: unat_of_nat)
  from g show "\<exists>s'. pb_write s bs count = Fail s' \<and> kept s s'"
  proof (cases rule: snk_cases)
    case null
    with nf show ?thesis by (simp add: fits_def)
  next
    case (buf b p)
    have "unat (bytes_written s) + unat count < 2 ^ 64"
      using buf len u by (auto simp: word_le_nat_alt)
    then have "max_size s < bytes_written s + count"
      using nf buf by (simp add: word_less_nat_alt unat_word_ariths u fits_def)
    moreover have "kept s s" using buf by (simp add: kept_def)
    ultimately show ?thesis using buf(1) by (simp add: pb_write_def o_return_error_def)
  qed
qed

end
