(* ===== verification/Pb_Encode_Spec.thy ===== *)
theory Pb_Encode_Spec
  imports Pb_Emits
begin

text \<open>
  The abstract specification of the encoder: the bytes of a message as a function of the
  memory, in one pass and without streams, and the refinement by the two-pass streaming code.
\<close>

section \<open>The bytes of a message\<close>

definition string_bytes :: "byte list \<Rightarrow> byte list" where
  "string_bytes bs = varint_bytes (of_nat (length bs)) @ bs"

definition field_tag_bytes :: "pb_field \<Rightarrow> byte list option" where
  "field_tag_bytes f =
     map_option (\<lambda>wt. varint_bytes (tag_value wt (tag f))) (wire_type_of (ftype f))"

definition scalar_bytes :: "heap \<Rightarrow> byte \<Rightarrow> pb_field \<Rightarrow> nat \<Rightarrow> byte list option" where
  "scalar_bytes h t f p =
     (if t = PB_LTYPE_VARINT then map_option varint_bytes (Option.bind (load_signed h (data_size f) p) id)
      else if t = PB_LTYPE_UVARINT
      then map_option varint_bytes (Option.bind (load_unsigned h (data_size f) p) id)
      else if t = PB_LTYPE_SVARINT
      then map_option (\<lambda>v. varint_bytes (zigzag v)) (Option.bind (load_signed h (data_size f) p) id)
      else if t = PB_LTYPE_FIXED32 then map_option fixed32_bytes (load32 h p)
      else map_option fixed64_bytes (load_word h p 8))"

definition blob_bytes :: "heap \<Rightarrow> byte \<Rightarrow> pb_field \<Rightarrow> nat \<Rightarrow> byte list option" where
  "blob_bytes h t f p =
     (if t = PB_LTYPE_BYTES then
        (if p = 0 then Some (string_bytes [])
         else Option.bind (load32 h p) (\<lambda>n.
           if PB_ATYPE (ftype f) = PB_ATYPE_STATIC \<and> unat (data_size f) < PB_BYTES_ARRAY_T_ALLOCSIZE n
           then None else map_option string_bytes (load h (p + bytes_offset) (unat n))))
      else if t = PB_LTYPE_STRING then
        (if p = 0 then Some (string_bytes [])
         else Option.bind (strnlen_loop h p
             (if PB_ATYPE (ftype f) = PB_ATYPE_POINTER then 2 ^ 64 - 1 else unat (data_size f)) 0)
           (\<lambda>n. map_option string_bytes (load h p n)))
      else map_option string_bytes (load h p (unat (data_size f))))"

text \<open>A value by its LTYPE; \<open>sub\<close> gives the bytes of a submessage.\<close>

definition value_bytes ::
    "(nat \<Rightarrow> pb_field list option) \<Rightarrow> (pb_field list \<Rightarrow> nat \<Rightarrow> byte list option) \<Rightarrow> heap \<Rightarrow>
     byte \<Rightarrow> pb_field \<Rightarrow> nat \<Rightarrow> byte list option" where
  "value_bytes msgs sub h t f p =
     (if t \<le> PB_LTYPE_FIXED64 then scalar_bytes h t f p
      else if t \<in> {PB_LTYPE_BYTES, PB_LTYPE_STRING, PB_LTYPE_FIXED_LENGTH_BYTES} then blob_bytes h t f p
      else if t = PB_LTYPE_SUBMESSAGE
      then Option.bind (sub_fields msgs f) (\<lambda>fs. map_option string_bytes (sub fs p))
      else None)"

fun concat_items :: "(nat \<Rightarrow> byte list option) \<Rightarrow> nat \<Rightarrow> nat \<Rightarrow> nat \<Rightarrow> byte list option" where
  "concat_items item step 0 p = Some []"
| "concat_items item step (Suc n) p = Option.bind (item p) (\<lambda>a.
     map_option (\<lambda>b. a @ b) (concat_items item step n (p + step)))"

definition tagged :: "pb_field \<Rightarrow> byte list option \<Rightarrow> byte list option" where
  "tagged f v = Option.bind (field_tag_bytes f) (\<lambda>a. map_option (\<lambda>b. a @ b) v)"

definition item_bytes :: "heap \<Rightarrow> pb_field \<Rightarrow> (nat \<Rightarrow> byte list option) \<Rightarrow> nat \<Rightarrow> byte list option" where
  "item_bytes h f val p = tagged f
     (if PB_ATYPE (ftype f) = PB_ATYPE_POINTER \<and> PB_LTYPE (ftype f) \<in> {PB_LTYPE_STRING, PB_LTYPE_BYTES}
      then Option.bind (load_ptr h p) val else val p)"

definition array_bytes ::
    "heap \<Rightarrow> pb_field \<Rightarrow> nat \<Rightarrow> nat \<Rightarrow> (nat \<Rightarrow> byte list option) \<Rightarrow> byte list option" where
  "array_bytes h f p count val =
     (if count = 0 then Some []
      else if PB_ATYPE (ftype f) \<noteq> PB_ATYPE_POINTER \<and> unat (array_size f) < count then None
      else if PB_LTYPE (ftype f) \<le> PB_LTYPE_LAST_PACKABLE
      then map_option (\<lambda>bs. varint_bytes (tag_value PB_WT_STRING (tag f)) @ string_bytes bs)
        (concat_items val (unat (data_size f)) count p)
      else concat_items (item_bytes h f val) (unat (data_size f)) count p)"

section \<open>The stream encoders emit those bytes\<close>

lemma emits_varint [emits_intros]: "emits (\<lambda>s. pb_encode_varint s v) (varint_bytes v)"
  unfolding pb_encode_varint_def Let_def by (rule emits_write) simp

lemma emits_svarint: "emits (\<lambda>s. pb_encode_svarint s v) (varint_bytes (zigzag v))"
  unfolding pb_encode_svarint_def by (rule emits_varint)

lemma emits_fixed32: "emits (\<lambda>s. pb_encode_fixed32 s v) (fixed32_bytes v)"
  unfolding pb_encode_fixed32_def by (rule emits_write) (simp add: fixed32_bytes_def)

lemma emits_fixed64: "emits (\<lambda>s. pb_encode_fixed64 s v) (fixed64_bytes v)"
  unfolding pb_encode_fixed64_def by (rule emits_write) (simp add: fixed64_bytes_def)

lemma emits_tag [emits_intros]: "emits (\<lambda>s. pb_encode_tag s wt t) (varint_bytes (tag_value wt t))"
  unfolding pb_encode_tag_def by (rule emits_varint)

lemma emits_string:
  "sz = of_nat (length bs) \<Longrightarrow> emits (\<lambda>s. pb_encode_string s bs sz) (string_bytes bs)"
  unfolding pb_encode_string_def string_bytes_def by (simp, intro emits_intros refl)

lemma emits_tag_for_field:
  "field_tag_bytes f = Some bs \<Longrightarrow> emits (pb_encode_tag_for_field f) bs"
  by (auto simp: field_tag_bytes_def pb_encode_tag_for_field_def [abs_def] emits_tag)

lemma put_null:
  "snk s = ONull \<Longrightarrow> put s bs = s\<lparr>bytes_written := bytes_written s + of_nat (length bs)\<rparr>"
  by (cases s) (simp add: put_def)

lemma bytes_written_sizing [simp]:
  "bytes_written (put PB_OSTREAM_SIZING bs) = of_nat (length bs)"
  by (simp add: put_def PB_OSTREAM_SIZING_def)

lemma put_merge:
  "o_errmsg s = None \<Longrightarrow> put s bs = s\<lparr>bytes_written := bytes_written s + of_nat (length bs),
     snk := overwrite (snk s) bs, o_errmsg := None\<rparr>"
  by (cases s) (simp add: put_def)

lemma emits_submessage:
  assumes body: "emits body bs"
  shows "emits (pb_encode_submessage body) (string_bytes bs)"
proof (rule emitsI)
  fix s :: "'a ostream"
  let ?n = "of_nat (length bs) :: u64" and ?v = "varint_bytes (of_nat (length bs))"
  assume len: "length (string_bytes bs) < 2 ^ 63" and g: "good s"
    and f: "fits s (length (string_bytes bs))"
  have lb: "length bs < 2 ^ 63" using len by (simp add: string_bytes_def)
  have first: "body PB_OSTREAM_SIZING = Ok () (put PB_OSTREAM_SIZING bs)"
    using emits_fits [OF body lb] by simp
  have sz: "bytes_written (put PB_OSTREAM_SIZING bs) = ?n"
    by (simp add: put_def PB_OSTREAM_SIZING_def)
  have fv: "fits s (length ?v)" using f by (rule fits_mono) (simp add: string_bytes_def)
  have s1: "pb_encode_varint s ?n = Ok () (put s ?v)"
    using emits_fits [OF emits_varint _ g fv] len by (simp add: string_bytes_def)
  have g1: "good (put s ?v)" by (rule good_put [OF g fv])
  have f1: "fits (put s ?v) (length bs)" using f by (simp add: fits_put [OF g fv] string_bytes_def)
  have merge: "put (put s ?v) bs = put s (string_bytes bs)"
    using f by (simp add: put_put [OF g] string_bytes_def)
  show "pb_encode_submessage body s = Ok () (put s (string_bytes bs))"
    using g1
  proof (cases rule: snk_cases)
    case null
    then show ?thesis
      using merge put_null [OF null, of bs]
      by (simp add: pb_encode_submessage_def first sz s1 is_sizing_def pb_write_def Let_def)
  next
    case (buf b p)
    let ?sub = "\<lparr>snk = OBuf b p, max_size = ?n, bytes_written = 0, o_errmsg = None\<rparr> :: 'a ostream"
    have n: "unat ?n = length bs" using lb by (simp add: unat_of_nat)
    have room: "unat (bytes_written (put s ?v)) + length bs \<le> unat (max_size s)"
      using f1 buf(1) by (simp add: fits_def)
    have "good ?sub"
      using buf room lb n by (auto simp: good_def ostream_ok_def unat_room)
    moreover have "fits ?sub (length bs)" by (simp add: fits_def n)
    ultimately have second: "body ?sub = Ok () (put ?sub bs)" using emits_fits [OF body lb] by blast
    have "\<not> max_size s < bytes_written (put s ?v) + ?n"
      using room buf(4) by (simp add: word_less_nat_alt unat_word_ariths n)
    moreover have "o_errmsg (put s ?v) = None" using g by (simp add: good_def)
    ultimately show ?thesis
      using buf(1) merge put_merge [of "put s ?v" bs]
      by (simp add: pb_encode_submessage_def first sz s1 is_sizing_def second Let_def
        put_def [of ?sub])
  qed
next
  fix s :: "'a ostream"
  let ?n = "of_nat (length bs) :: u64" and ?v = "varint_bytes (of_nat (length bs))"
  assume len: "length (string_bytes bs) < 2 ^ 63" and g: "good s"
    and nf: "\<not> fits s (length (string_bytes bs))"
  have lb: "length bs < 2 ^ 63" using len by (simp add: string_bytes_def)
  have first: "body PB_OSTREAM_SIZING = Ok () (put PB_OSTREAM_SIZING bs)"
    using emits_fits [OF body lb] by simp
  have sz: "bytes_written (put PB_OSTREAM_SIZING bs) = ?n"
    by (simp add: put_def PB_OSTREAM_SIZING_def)
  obtain b p where snk: "snk s = OBuf b p" using not_fits_OBuf [OF g nf] by blast
  show "\<exists>s'. pb_encode_submessage body s = Fail s' \<and> kept s s'"
  proof (cases "fits s (length ?v)")
    case True
    have s1: "pb_encode_varint s ?n = Ok () (put s ?v)"
      using emits_fits [OF emits_varint _ g True] len by (simp add: string_bytes_def)
    have m: "unat (max_size s) < 2 ^ 63" using g snk by (simp add: good_def)
    have "\<not> unat (bytes_written (put s ?v)) + length bs \<le> unat (max_size s)"
      using nf fits_put [OF g True, of "length bs"] snk by (simp add: fits_def string_bytes_def)
    moreover have "unat (bytes_written (put s ?v)) \<le> unat (max_size s)"
      using bytes_written_put [OF snk m True] True snk by (simp add: fits_def)
    ultimately have "max_size s < bytes_written (put s ?v) + ?n"
      using m lb by (simp add: word_less_nat_alt unat_word_ariths unat_of_nat)
    then show ?thesis
      using kept_put_end [OF g snk True] snk
      by (simp add: pb_encode_submessage_def first sz s1 is_sizing_def o_return_error_def)
  next
    case False
    obtain s' where "pb_encode_varint s ?n = Fail s'" "kept s s'"
      using emits_full [OF emits_varint _ g False] len by (auto simp: string_bytes_def)
    then show ?thesis by (simp add: pb_encode_submessage_def first sz)
  qed
qed

section \<open>The bytes of fields and messages\<close>

text \<open>
  \<open>cbs\<close> and \<open>xcbs\<close> give the bytes that the application's field callbacks and extension
  encoders write; \<open>sub\<close> gives those of a submessage.
\<close>

type_synonym cb_spec = "nat \<Rightarrow> pb_field \<Rightarrow> nat \<Rightarrow> byte list option"
type_synonym xcb_spec = "nat \<Rightarrow> nat \<Rightarrow> byte list option"
type_synonym sub_spec = "pb_field list \<Rightarrow> nat \<Rightarrow> byte list option"

definition basic_field_bytes ::
    "'v enc_env \<Rightarrow> heap \<Rightarrow> nat \<Rightarrow> sub_spec \<Rightarrow> pb_field \<Rightarrow> nat \<Rightarrow> byte list option" where
  "basic_field_bytes e h fuel sub f p =
     (let ty = ftype f; pSize = ptr_off p (size_offset f);
          val = value_bytes (e_msgs e) sub h (PB_LTYPE ty) f
      in case implicit_has e h fuel f p of
        Ok has0 _ \<Rightarrow> Option.bind (if PB_ATYPE ty = PB_ATYPE_POINTER
            then map_option (\<lambda>q. (q, q \<noteq> 0)) (load_ptr h p) else Some (p, has0)) (\<lambda>(data, has).
          if PB_HTYPE ty = PB_HTYPE_REQUIRED then if data = 0 then None else tagged f (val data)
          else if PB_HTYPE ty = PB_HTYPE_OPTIONAL then
            Option.bind (if size_offset f \<noteq> 0 then load_bool h pSize else Some has)
              (\<lambda>b. if b then tagged f (val data) else Some [])
          else if PB_HTYPE ty = PB_HTYPE_REPEATED then
            Option.bind (if size_offset f \<noteq> 0 then load32 h pSize else Some (array_size f))
              (\<lambda>count. array_bytes h f data (unat count) val)
          else Option.bind (if size_offset f \<noteq> 0 then load32 h pSize else None)
              (\<lambda>which. if which = tag f then tagged f (val data) else Some []))
      | _ \<Rightarrow> None)"

definition field_bytes ::
    "'v enc_env \<Rightarrow> heap \<Rightarrow> nat \<Rightarrow> sub_spec \<Rightarrow> cb_spec \<Rightarrow> pb_field \<Rightarrow> nat \<Rightarrow> byte list option" where
  "field_bytes e h fuel sub cbs f p =
     (if PB_ATYPE (ftype f) = PB_ATYPE_STATIC \<or> PB_ATYPE (ftype f) = PB_ATYPE_POINTER
      then basic_field_bytes e h fuel sub f p
      else if PB_ATYPE (ftype f) = PB_ATYPE_CALLBACK
      then Option.bind (load_ptr h (p + cb_funcs))
        (\<lambda>fn. if fn = 0 then Some [] else cbs fn f (p + cb_arg))
      else None)"

definition extension_item_bytes ::
    "'v enc_env \<Rightarrow> heap \<Rightarrow> nat \<Rightarrow> sub_spec \<Rightarrow> cb_spec \<Rightarrow> xcb_spec \<Rightarrow> nat \<Rightarrow> nat \<Rightarrow> byte list option" where
  "extension_item_bytes e h fuel sub cbs xcbs ty ext = (case e_exts e ty of
     None \<Rightarrow> None
   | Some (Some _, _) \<Rightarrow> xcbs ty ext
   | Some (None, f) \<Rightarrow> (if PB_ATYPE (ftype f) = PB_ATYPE_POINTER
       then field_bytes e h fuel sub cbs f (ext + ext_dest)
       else Option.bind (load_ptr h (ext + ext_dest)) (field_bytes e h fuel sub cbs f)))"

fun extension_bytes ::
    "'v enc_env \<Rightarrow> heap \<Rightarrow> nat \<Rightarrow> sub_spec \<Rightarrow> cb_spec \<Rightarrow> xcb_spec \<Rightarrow> nat \<Rightarrow> nat \<Rightarrow> byte list option" where
  "extension_bytes e h fuel sub cbs xcbs 0 ext = None"
| "extension_bytes e h fuel sub cbs xcbs (Suc n) ext =
     (if ext = 0 then Some []
      else Option.bind (load_ptr h (ext + ext_type)) (\<lambda>ty.
        Option.bind (extension_item_bytes e h fuel sub cbs xcbs ty ext) (\<lambda>a.
        Option.bind (load_ptr h (ext + ext_next)) (\<lambda>next.
          map_option (\<lambda>b. a @ b) (extension_bytes e h fuel sub cbs xcbs n next)))))"

fun seq_bytes :: "('i \<Rightarrow> byte list option) \<Rightarrow> 'i list \<Rightarrow> byte list option" where
  "seq_bytes w [] = Some []"
| "seq_bytes w (i # is) = Option.bind (w i) (\<lambda>a. map_option (\<lambda>b. a @ b) (seq_bytes w is))"

text \<open>The fields in the order of the array, each at its offset in the structure.\<close>

definition message_bytes ::
    "'v enc_env \<Rightarrow> heap \<Rightarrow> nat \<Rightarrow> sub_spec \<Rightarrow> cb_spec \<Rightarrow> xcb_spec \<Rightarrow> sub_spec" where
  "message_bytes e h fuel sub cbs xcbs fs base =
     (if fields_wf fs
      then seq_bytes (\<lambda>i. let f = fs ! i; p = field_addr fs base i in
        if PB_LTYPE (ftype f) = PB_LTYPE_EXTENSION
        then Option.bind (load_ptr h p) (extension_bytes e h fuel sub cbs xcbs fuel)
        else field_bytes e h fuel sub cbs f p) [0..<length fs]
      else None)"

fun msg_bytes ::
    "'v enc_env \<Rightarrow> heap \<Rightarrow> cb_spec \<Rightarrow> xcb_spec \<Rightarrow> nat \<Rightarrow> sub_spec" where
  "msg_bytes e h cbs xcbs 0 fs base = None"
| "msg_bytes e h cbs xcbs (Suc n) fs base =
     message_bytes e h n (msg_bytes e h cbs xcbs n) cbs xcbs fs base"

section \<open>The encoder refines the specification\<close>

lemma emits_seq_loop:
  "(\<And>i bs. i \<in> set is \<Longrightarrow> w i = Some bs \<Longrightarrow> emits (body i) bs) \<Longrightarrow>
   seq_bytes w is = Some bs \<Longrightarrow> emits (seq_loop body is) bs"
proof (induction "is" arbitrary: bs)
  case Nil
  then show ?case by (simp add: seq_loop.simps(1) [abs_def] emits_Nil)
next
  case (Cons i "is")
  then obtain a b where "w i = Some a" "seq_bytes w is = Some b" "bs = a @ b"
    by (auto simp: bind_eq_Some_conv)
  then show ?case
    unfolding seq_loop.simps(2) [abs_def] using Cons by (auto intro!: emits_rbind)
qed

lemma emits_items:
  "(\<And>p bs. w p = Some bs \<Longrightarrow> emits (item p) bs) \<Longrightarrow> concat_items w step n p = Some bs \<Longrightarrow>
   emits (enc_items item step n p) bs"
proof (induction n arbitrary: p bs)
  case 0
  then show ?case by (simp add: enc_items.simps(1) [abs_def] emits_Nil)
next
  case (Suc n)
  then obtain a b where "w p = Some a" "concat_items w step n (p + step) = Some b" "bs = a @ b"
    by (auto simp: bind_eq_Some_conv)
  then show ?case
    unfolding enc_items.simps(2) [abs_def] using Suc by (auto intro!: emits_rbind)
qed

text \<open>
  The interface between the field encoders and what they call: the submessage encoder and the
  application's callbacks emit what their specifications say.
\<close>

lemma load_count: "load h p (unat (n :: u32)) = Some bs \<Longrightarrow> ucast n = (of_nat (length bs) :: u64)"
  by (simp add: load_length)

lemma load_count_nat: "load h p n = Some bs \<Longrightarrow> of_nat n = (of_nat (length bs) :: u64)"
  by (simp add: load_length)

locale sub_encoder =
  fixes e :: "'v enc_env"
    and h :: heap
    and penc :: "pb_field list \<Rightarrow> nat \<Rightarrow> 'v writer"
    and sub :: sub_spec
    and cbs :: cb_spec
    and xcbs :: xcb_spec
  assumes sub_emits: "sub fs p = Some bs \<Longrightarrow> emits (penc fs p) bs"
    and cb_emits: "cbs fn f arg = Some bs \<Longrightarrow>
      \<exists>callback. e_callbacks e fn = Some callback \<and> emits (callback h f arg) bs"
    and ext_emits: "xcbs ty ext = Some bs \<Longrightarrow> e_exts e ty = Some (Some encode, f) \<Longrightarrow>
      emits (encode h ext) bs"
begin

lemma emits_scalar:
  assumes "t \<le> PB_LTYPE_FIXED64" and "scalar_bytes h t f p = Some bs"
  shows "emits (PB_ENCODERS (e_msgs e) penc h t f p) bs"
proof -
  have "t \<in> {0, 1, 2, 3, 4}"
    using assms(1) unfolding word_le_nat_alt insert_iff empty_iff word_unat_eq_iff
    by (simp, presburger)
  then show ?thesis
    using assms(2)
    by (auto simp: PB_ENCODERS_def scalar_bytes_def bind_eq_Some_conv
        pb_enc_varint_def [abs_def] pb_enc_uvarint_def [abs_def] pb_enc_svarint_def [abs_def]
        pb_enc_fixed32_def [abs_def] pb_enc_fixed64_def [abs_def]
        emits_varint emits_svarint emits_fixed32 emits_fixed64)
qed

lemma emits_blob:
  assumes "t \<in> {PB_LTYPE_BYTES, PB_LTYPE_STRING, PB_LTYPE_FIXED_LENGTH_BYTES}"
    and "blob_bytes h t f p = Some bs"
  shows "emits (PB_ENCODERS (e_msgs e) penc h t f p) bs"
  using assms
  by (auto simp: PB_ENCODERS_def blob_bytes_def bind_eq_Some_conv mem_bytes_def
      pb_enc_bytes_def [abs_def] pb_enc_string_def [abs_def] pb_enc_fixed_length_bytes_def [abs_def]
      load_count split: if_splits intro!: emits_string load_count_nat)

lemma emits_value:
  assumes "value_bytes (e_msgs e) sub h t f p = Some bs"
  shows "emits (PB_ENCODERS (e_msgs e) penc h t f p) bs"
proof -
  consider "t \<le> PB_LTYPE_FIXED64" "scalar_bytes h t f p = Some bs"
    | "t \<in> {PB_LTYPE_BYTES, PB_LTYPE_STRING, PB_LTYPE_FIXED_LENGTH_BYTES}" "blob_bytes h t f p = Some bs"
    | fs bs' where "t = PB_LTYPE_SUBMESSAGE" "sub_fields (e_msgs e) f = Some fs" "sub fs p = Some bs'"
        "bs = string_bytes bs'"
    using assms by (auto simp: value_bytes_def bind_eq_Some_conv split: if_splits)
  then show ?thesis
  proof cases
    case 3
    then have "ptr f \<noteq> PtrNull" by (auto simp: sub_fields_def)
    with 3 show ?thesis
      by (simp add: PB_ENCODERS_def pb_enc_submessage_def [abs_def] emits_submessage sub_emits)
  qed (simp_all add: emits_scalar emits_blob)
qed

lemma emits_with_tag:
  assumes "tagged f v = Some bs" and "\<And>b. v = Some b \<Longrightarrow> emits w b"
  shows "emits (\<lambda>s. rbind (pb_encode_tag_for_field f s) (\<lambda>_ s1. w s1)) bs"
  using assms by (auto simp: tagged_def bind_eq_Some_conv intro!: emits_rbind emits_tag_for_field)

lemma fixed_items_length:
  assumes "concat_items (scalar_bytes h t f) step n p = Some bs"
  shows "t = PB_LTYPE_FIXED32 \<Longrightarrow> length bs = 4 * n" "t = PB_LTYPE_FIXED64 \<Longrightarrow> length bs = 8 * n"
  using assms
  by (induction n arbitrary: p bs; force simp: bind_eq_Some_conv scalar_bytes_def
      fixed32_bytes_def fixed64_bytes_def)+

lemma emits_packed:
  assumes t: "PB_LTYPE (ftype f) \<le> PB_LTYPE_LAST_PACKABLE"
    and "concat_items (value_bytes (e_msgs e) sub h (PB_LTYPE (ftype f)) f) (unat (data_size f)) n p = Some bs"
  shows "emits (encode_packed f p n (PB_ENCODERS (e_msgs e) penc h (PB_LTYPE (ftype f))))
    (varint_bytes (tag_value PB_WT_STRING (tag f)) @ string_bytes bs)"
proof -
  let ?items = "enc_items (PB_ENCODERS (e_msgs e) penc h (PB_LTYPE (ftype f)) f) (unat (data_size f)) n p"
  have items: "emits ?items bs"
    using assms(2) emits_value by (intro emits_items)
  have scalars: "concat_items (scalar_bytes h (PB_LTYPE (ftype f)) f) (unat (data_size f)) n p = Some bs"
    using assms by (simp add: value_bytes_def [abs_def])
  have writes: "emits (\<lambda>s. rbind (pb_encode_varint s size) (\<lambda>_ s2.
      if is_sizing s2 then pb_write s2 [] size else ?items s2)) (string_bytes bs)"
    if "size = of_nat (length bs)" for size
    unfolding string_bytes_def that
  proof (rule emits_rbind [OF emits_varint])
    show "emits (\<lambda>s2. if is_sizing s2 then pb_write s2 [] (of_nat (length bs)) else ?items s2) bs"
      using items
      by (auto simp: put_null emits_def is_sizing_def pb_write_def fits_def Let_def split: sink.split)
  qed
  have sized: "emits (\<lambda>s1. case ?items PB_OSTREAM_SIZING of
      Ok _ sizestream \<Rightarrow> rbind (pb_encode_varint s1 (bytes_written sizestream)) (\<lambda>_ s2.
        if is_sizing s2 then pb_write s2 [] (bytes_written sizestream) else ?items s2)
    | Fail _ \<Rightarrow> Fail s1 | UB \<Rightarrow> UB | NoFuel \<Rightarrow> NoFuel) (string_bytes bs)"
  proof (cases "length bs < 2 ^ 63")
    case True
    then have "?items PB_OSTREAM_SIZING = Ok () (put PB_OSTREAM_SIZING bs)"
      by (rule emits_fits [OF items _ good_sizing fits_sizing])
    with writes [OF bytes_written_sizing] show ?thesis by (simp only: res.case)
  next
    case False
    then show ?thesis by (simp add: emits_def string_bytes_def)
  qed
  have f32: "4 * of_nat n = (of_nat (length bs) :: u64)" if "PB_LTYPE (ftype f) = PB_LTYPE_FIXED32"
    using fixed_items_length(1) [OF scalars that] by simp
  have f64: "8 * of_nat n = (of_nat (length bs) :: u64)" if "PB_LTYPE (ftype f) = PB_LTYPE_FIXED64"
    using fixed_items_length(2) [OF scalars that] by simp
  show ?thesis
    unfolding encode_packed_def [abs_def] Let_def
  proof (rule emits_rbind [OF emits_tag], goal_cases)
    case 1
    show ?case
    proof (cases "PB_LTYPE (ftype f) = PB_LTYPE_FIXED32")
      case True
      show ?thesis unfolding if_P [OF True] by (rule writes [OF f32 [OF True]])
    next
      case n32: False
      show ?thesis
      proof (cases "PB_LTYPE (ftype f) = PB_LTYPE_FIXED64")
        case True
        show ?thesis
          unfolding if_not_P [OF n32] if_P [OF True] by (rule writes [OF f64 [OF True]])
      next
        case False
        show ?thesis unfolding if_not_P [OF n32] if_not_P [OF False] by (rule sized)
      qed
    qed
  qed
qed

lemma emits_unpacked_item:
  assumes "item_bytes h f val p = Some bs"
    and val: "\<And>p bs. val p = Some bs \<Longrightarrow> emits (func f p) bs"
  shows "emits (\<lambda>s. rbind (pb_encode_tag_for_field f s) (\<lambda>_ s1.
      if PB_ATYPE (ftype f) = PB_ATYPE_POINTER \<and>
         PB_LTYPE (ftype f) \<in> {PB_LTYPE_STRING, PB_LTYPE_BYTES}
      then rbind (ropt (load_ptr h p) s1) (\<lambda>q s1. func f q s1)
      else func f p s1)) bs"
  using assms(1) unfolding item_bytes_def
  by (rule emits_with_tag) (auto simp: bind_eq_Some_conv val split: if_splits)

lemma emits_array:
  assumes "array_bytes h f p n (value_bytes (e_msgs e) sub h (PB_LTYPE (ftype f)) f) = Some bs"
  shows "emits (encode_array h f p n (PB_ENCODERS (e_msgs e) penc h (PB_LTYPE (ftype f)))) bs"
proof (cases "n = 0 \<or> PB_LTYPE (ftype f) \<le> PB_LTYPE_LAST_PACKABLE")
  case True
  then show ?thesis
    using assms emits_packed
    by (auto simp: array_bytes_def encode_array_def [abs_def] emits_Nil split: if_splits)
next
  case False
  have "emits (encode_unpacked h f p n (PB_ENCODERS (e_msgs e) penc h (PB_LTYPE (ftype f)))) bs"
    if "concat_items (item_bytes h f (value_bytes (e_msgs e) sub h (PB_LTYPE (ftype f)) f))
      (unat (data_size f)) n p = Some bs"
    unfolding encode_unpacked_def
    by (rule emits_items [OF _ that], erule emits_unpacked_item, erule emits_value)
  with False assms show ?thesis
    by (auto simp: array_bytes_def encode_array_def [abs_def] split: if_splits)
qed

end

text \<open>The rest of the client's lemmas: fields, extensions and messages.\<close>

lemma emits_if:
  "(c \<Longrightarrow> emits v bs) \<Longrightarrow> (\<not> c \<Longrightarrow> emits w bs) \<Longrightarrow> emits (\<lambda>s. if c then v s else w s) bs"
  by (cases c) simp_all

context sub_encoder
begin

lemma emits_basic_field:
  assumes "basic_field_bytes e h fuel sub f p = Some bs"
  shows "emits (encode_basic_field e h fuel penc f p) bs"
proof -
  obtain has0 u where has: "implicit_has e h fuel f p = Ok has0 u"
    using assms by (auto simp: basic_field_bytes_def Let_def split: res.splits)
  have tagged: "emits (\<lambda>s. rbind (pb_encode_tag_for_field f s)
      (\<lambda>_ s1. PB_ENCODERS (e_msgs e) penc h (PB_LTYPE (ftype f)) f data s1)) b"
    if "tagged f (value_bytes (e_msgs e) sub h (PB_LTYPE (ftype f)) f data) = Some b" for data b
    using that by (rule emits_with_tag) (rule emits_value)
  show ?thesis
    using assms unfolding encode_basic_field_def [abs_def] basic_field_bytes_def has
    by (cases "PB_ATYPE (ftype f) = PB_ATYPE_POINTER"; cases "size_offset f = 0")
      (auto simp: Let_def bind_eq_Some_conv tagged emits_Nil emits_array
        split: if_splits intro!: emits_if)
qed

lemma emits_field:
  assumes "field_bytes e h fuel sub cbs f p = Some bs"
  shows "emits (encode_field e h fuel penc f p) bs"
proof -
  have wrap: "emits (\<lambda>s. case w s of Fail s1 \<Rightarrow> o_return_error s1 m | r \<Rightarrow> r) bs"
    if "emits w bs" for w :: "'v writer" and m
    using that by (fastforce simp: emits_def o_return_error_def)
  have "emits (encode_callback_field e h f p) bs"
    if "Option.bind (load_ptr h (p + cb_funcs))
      (\<lambda>fn. if fn = 0 then Some [] else cbs fn f (p + cb_arg)) = Some bs"
  proof -
    from that obtain fn where fn: "load_ptr h (p + cb_funcs) = Some fn"
      "(if fn = 0 then Some [] else cbs fn f (p + cb_arg)) = Some bs"
      by (auto simp: bind_eq_Some_conv)
    show ?thesis
    proof (cases "fn = 0")
      case True
      with fn show ?thesis by (simp add: encode_callback_field_def [abs_def] emits_Nil)
    next
      case False
      with fn cb_emits [of fn f "p + cb_arg" bs] show ?thesis
        by (auto simp: encode_callback_field_def [abs_def] wrap)
    qed
  qed
  with assms show ?thesis
    by (auto simp: encode_field_def [abs_def] field_bytes_def emits_basic_field split: if_splits)
qed

lemma emits_extension_item:
  assumes "extension_item_bytes e h fuel sub cbs xcbs ty ext = Some bs"
  shows "emits (\<lambda>s. case e_exts e ty of
      None \<Rightarrow> UB
    | Some (Some encode, _) \<Rightarrow> encode h ext s
    | Some (None, f) \<Rightarrow> default_extension_encoder e h fuel penc f ext s) bs"
proof (cases "e_exts e ty")
  case None
  with assms show ?thesis by (simp add: extension_item_bytes_def)
next
  case (Some x)
  obtain enc f where x: "x = (enc, f)" by (cases x)
  have "emits (\<lambda>s. default_extension_encoder e h fuel penc f ext s) bs" if "enc = None"
    using assms that Some unfolding x
    by (auto simp: extension_item_bytes_def default_extension_encoder_def [abs_def]
        bind_eq_Some_conv emits_field split: if_splits)
  moreover have "emits (encode h ext) bs" if "enc = Some encode" for encode
    using assms that Some unfolding x by (simp add: extension_item_bytes_def ext_emits)
  ultimately show ?thesis
    by (cases enc) (simp_all add: Some x)
qed

lemma emits_extensions:
  "extension_bytes e h fuel sub cbs xcbs n ext = Some bs \<Longrightarrow>
   emits (encode_extensions e h fuel penc n ext) bs"
proof (induction n arbitrary: ext bs)
  case (Suc n)
  show ?case
  proof (cases "ext = 0")
    case True
    with Suc.prems show ?thesis by (simp add: encode_extensions.simps(2) [abs_def] emits_Nil)
  next
    case False
    then obtain ty a nxt b where ext: "load_ptr h (ext + ext_type) = Some ty"
      "extension_item_bytes e h fuel sub cbs xcbs ty ext = Some a"
      "load_ptr h (ext + ext_next) = Some nxt"
      "extension_bytes e h fuel sub cbs xcbs n nxt = Some b" "bs = a @ b"
      using Suc.prems by (auto simp: bind_eq_Some_conv)
    have "emits (encode_extensions e h fuel penc n nxt) b"
      using Suc.IH ext(4) .
    with emits_extension_item [OF ext(2)] show ?thesis
      using False ext(1,3,5)
      by (simp add: encode_extensions.simps(2) [abs_def] emits_rbind)
  qed
qed simp

lemma emits_message:
  assumes "message_bytes e h fuel sub cbs xcbs fs base = Some bs"
  shows "emits (encode_message e h fuel penc fs base) bs"
proof -
  have wf: "fields_wf fs" using assms by (simp add: message_bytes_def split: if_splits)
  show ?thesis
    unfolding encode_message_def [abs_def] for_each_field_seq [OF wf]
  proof (rule emits_seq_loop)
    show "seq_bytes (\<lambda>i. let f = fs ! i; p = field_addr fs base i in
        if PB_LTYPE (ftype f) = PB_LTYPE_EXTENSION
        then Option.bind (load_ptr h p) (extension_bytes e h fuel sub cbs xcbs fuel)
        else field_bytes e h fuel sub cbs f p) [0..<length fs] = Some bs"
      using assms wf by (simp add: message_bytes_def)
  next
    fix i a
    assume "i \<in> set [0..<length fs]"
      and "(let f = fs ! i; p = field_addr fs base i in
        if PB_LTYPE (ftype f) = PB_LTYPE_EXTENSION
        then Option.bind (load_ptr h p) (extension_bytes e h fuel sub cbs xcbs fuel)
        else field_bytes e h fuel sub cbs f p) = Some a"
    then show "emits (\<lambda>s. if PB_LTYPE (ftype (cur (iter_at fs base i))) = PB_LTYPE_EXTENSION
        then encode_extension_field e h fuel penc (pData (iter_at fs base i)) s
        else encode_field e h fuel penc (cur (iter_at fs base i)) (pData (iter_at fs base i)) s) a"
      by (auto simp: Let_def field_at_def iter_at_def encode_extension_field_def bind_eq_Some_conv
          emits_extensions emits_field cur_def split: if_splits)
  qed
qed

end

text \<open>
  The knot: \<open>pb_encode\<close> at any fuel is a submessage encoder that emits \<open>msg_bytes\<close>, so every
  message does.
\<close>

lemma sub_encoder_pb_encode:
  assumes "sub_encoder e h (\<lambda>fs p s. UB) (\<lambda>fs p. None) cbs xcbs"
  shows "sub_encoder e h (pb_encode e h n) (msg_bytes e h cbs xcbs n) cbs xcbs"
proof -
  note app = sub_encoder.cb_emits [OF assms] sub_encoder.ext_emits [OF assms]
  show ?thesis
  proof (induction n)
    case 0
    show ?case by unfold_locales (use app in auto)
  next
    case (Suc n)
    show ?case
      by unfold_locales
        (use sub_encoder.emits_message [OF Suc] app in \<open>auto simp: pb_encode.simps(2) [abs_def]\<close>)
  qed
qed

lemma sub_encoder_no_callbacks:
  "sub_encoder e h (\<lambda>fs p s. UB) (\<lambda>fs p. None) (\<lambda>fn f arg. None) (\<lambda>ty ext. None)"
  by unfold_locales simp_all

interpretation enc: sub_encoder e h "pb_encode e h n" "msg_bytes e h (\<lambda>fn f arg. None) (\<lambda>ty ext. None) n"
    "\<lambda>fn f arg. None" "\<lambda>ty ext. None"
  by (rule sub_encoder_pb_encode [OF sub_encoder_no_callbacks])

section \<open>An example message\<close>

text \<open>The message of the witnesses, in memory.\<close>

definition outer_env :: "unit enc_env" where
  "outer_env = \<lparr>e_msgs = (\<lambda>i. if i = 1 then Some inner_fields else None),
     e_callbacks = (\<lambda>_. None), e_exts = (\<lambda>_. None)\<rparr>"

definition outer_struct :: heap where
  "outer_struct = \<lparr>bytes = (\<lambda>a. if 16 \<le> a \<and> a < 27
     then Some ([150, 0, 0, 0, 2, 0, 0, 0, 7, 8, 9] ! (a - 16)) else None), blocks = (\<lambda>_. None)\<rparr>"

lemma outer_bytes:
  "msg_bytes outer_env outer_struct (\<lambda>fn f arg. None) (\<lambda>ty ext. None) 3 outer_fields 16 =
    Some [0x12, 3, 0x08, 0x96, 1, 0x1A, 2, 7, 8]"
  by code_simp

section \<open>Properties\<close>

text \<open>C2: \<open>pb_encode\<close> into a buffer with room writes exactly the bytes that the specification
  \<open>msg_bytes\<close> gives for the message in memory, leaves the rest of the buffer alone and counts
  them; the two passes over submessages and packed arrays leave no trace.\<close>

theorem pb_encode_refines_spec:
  assumes "msg_bytes e h (\<lambda>fn f arg. None) (\<lambda>ty ext. None) n fs base = Some bs"
    and "unat sz \<le> length buf" and "unat sz < 2 ^ 63" and "length bs \<le> unat sz"
  shows "pb_encode e h n fs base (pb_ostream_from_buffer buf sz) =
    Ok () \<lparr>snk = OBuf (bs @ drop (length bs) buf) (length bs), max_size = sz,
           bytes_written = of_nat (length bs), o_errmsg = None\<rparr>"
proof -
  let ?s = "pb_ostream_from_buffer buf sz :: 'a ostream"
  have "good ?s" using assms(2,3)
    by (simp add: good_def ostream_ok_from_buffer) (simp add: pb_ostream_from_buffer_def)
  moreover have "fits ?s (length bs)" using assms(4) by (simp add: fits_def pb_ostream_from_buffer_def)
  ultimately have "pb_encode e h n fs base ?s = Ok () (put ?s bs)"
    using emits_fits [OF enc.sub_emits [OF assms(1)]] assms(3,4) by simp
  then show ?thesis by (simp add: put_def pb_ostream_from_buffer_def)
qed

theorem pb_encode_refines_spec_witness:
  "pb_encode outer_env outer_struct 3 outer_fields 16 (pb_ostream_from_buffer [0, 0, 0, 0, 0, 0, 0, 0, 0, 42] 9) =
    Ok () \<lparr>snk = OBuf [0x12, 3, 0x08, 0x96, 1, 0x1A, 2, 7, 8, 42] 9, max_size = 9, bytes_written = 9,
      o_errmsg = None\<rparr>"
  using pb_encode_refines_spec [OF outer_bytes, of 9 "[0, 0, 0, 0, 0, 0, 0, 0, 0, 42]"] by simp

text \<open>C3: \<open>pb_get_encoded_size\<close> is the length of what \<open>pb_encode\<close> will write, for every message
  of less than \<open>2^63\<close> bytes.\<close>

theorem pb_get_encoded_size_spec:
  assumes "msg_bytes e h (\<lambda>fn f arg. None) (\<lambda>ty ext. None) n fs base = Some bs"
    and "length bs < 2 ^ 63"
  shows "pb_get_encoded_size e h n fs base = Ok (of_nat (length bs)) ()"
  using emits_fits [OF enc.sub_emits [OF assms(1)] assms(2) good_sizing fits_sizing]
  by (simp add: pb_get_encoded_size_def)

theorem pb_get_encoded_size_spec_witness:
  "pb_get_encoded_size outer_env outer_struct 3 outer_fields 16 = Ok 9 ()"
  using pb_get_encoded_size_spec [OF outer_bytes] by simp

text \<open>C4: encoding into a buffer that is too small fails, and nothing outside the first \<open>sz\<close>
  bytes of the buffer has changed.\<close>

theorem pb_encode_too_small:
  assumes "msg_bytes e h (\<lambda>fn f arg. None) (\<lambda>ty ext. None) n fs base = Some bs"
    and "unat sz \<le> length buf" and "unat sz < length bs" and "length bs < 2 ^ 63"
  shows "\<exists>s buf' p. pb_encode e h n fs base (pb_ostream_from_buffer buf sz) = Fail s \<and>
    snk s = OBuf buf' p \<and> length buf' = length buf \<and> drop (unat sz) buf' = drop (unat sz) buf"
proof -
  let ?s = "pb_ostream_from_buffer buf sz :: 'a ostream"
  have "good ?s" using assms(2-)
    by (simp add: good_def ostream_ok_from_buffer) (simp add: pb_ostream_from_buffer_def)
  moreover have "\<not> fits ?s (length bs)" using assms(3) by (simp add: fits_def pb_ostream_from_buffer_def)
  ultimately obtain s' where "pb_encode e h n fs base ?s = Fail s'" "kept ?s s'"
    using emits_full [OF enc.sub_emits [OF assms(1)] assms(4)] by blast
  then show ?thesis by (auto simp: kept_def pb_ostream_from_buffer_def Let_def)
qed

theorem pb_encode_too_small_witness:
  "\<exists>s buf' p. pb_encode outer_env outer_struct 3 outer_fields 16
      (pb_ostream_from_buffer [0, 0, 0, 0, 0, 0, 0, 42] 7) = Fail s \<and>
    snk s = OBuf buf' p \<and> drop 7 buf' = [42]"
  using pb_encode_too_small [OF outer_bytes, of 7 "[0, 0, 0, 0, 0, 0, 0, 42]"] by simp blast

end
