(* ===== verification/Pb_Memory_Ops.thy ===== *)
theory Pb_Memory_Ops
  imports Pb_Common C_Memory
begin

text \<open>
  What the decoder does to a message structure apart from decoding into it (\<open>pb_decode.c\<close>):
  setting defaults, allocating, initialising and releasing. All of it works on memory only; the
  descriptor arrays, the extension types and the allocator are the environment.
\<close>

section \<open>The environment\<close>

record mem_env =
  m_msgs :: "nat \<Rightarrow> pb_field list option"
  m_exts :: "nat \<Rightarrow> pb_field option"
  m_pick :: "heap \<Rightarrow> nat \<Rightarrow> nat option"
  m_junk :: "nat \<Rightarrow> byte"

text \<open>Steps on memory that cannot fail except by undefined behaviour.\<close>

type_synonym mem_op = "heap \<Rightarrow> (unit, heap) res"

definition upd :: "(heap \<Rightarrow> heap option) \<Rightarrow> mem_op" where
  "upd f h = (case f h of None \<Rightarrow> UB | Some h' \<Rightarrow> Ok () h')"

definition mem_set :: "nat \<Rightarrow> byte \<Rightarrow> nat \<Rightarrow> mem_op" where
  "mem_set p b n = upd (\<lambda>h. store h p (replicate n b))"

text \<open>\<open>memcpy\<close> of a field's default value.\<close>

definition copy_default :: "nat \<Rightarrow> pb_ptr \<Rightarrow> nat \<Rightarrow> mem_op" where
  "copy_default p src n = (case src of
     PtrDefault bs \<Rightarrow> if length bs < n then (\<lambda>h. UB) else upd (\<lambda>h. store h p (take n bs))
   | _ \<Rightarrow> (\<lambda>h. UB))"

section \<open>Extensions\<close>

text \<open>
  \<open>iter_from_extension\<close>. The \<open>arg\<close> of an extension type is taken to be one descriptor
  followed by a terminator.
\<close>

definition iter_from_extension :: "mem_env \<Rightarrow> heap \<Rightarrow> nat \<Rightarrow> pb_field_iter option" where
  "iter_from_extension env h ext =
     Option.bind (load_ptr h (ext + ext_type)) (\<lambda>ty.
     Option.bind (m_exts env ty) (\<lambda>f.
     Option.bind (load_ptr h (ext + ext_dest)) (\<lambda>dest.
       Some ((snd (pb_field_iter_begin [f] dest))
         \<lparr>pData := (if PB_ATYPE (ftype f) = PB_ATYPE_POINTER then ext + ext_dest else dest),
          pSize := ext + ext_found\<rparr>))))"

text \<open>A walk along the list of extensions, \<open>ext = ext->next\<close> after each; fuel for its length.\<close>

fun for_each_extension :: "nat \<Rightarrow> (nat \<Rightarrow> mem_op) \<Rightarrow> nat \<Rightarrow> mem_op" where
  "for_each_extension 0 body ext h = NoFuel"
| "for_each_extension (Suc n) body ext h =
     (if ext = 0 then Ok () h
      else rbind (body ext h) (\<lambda>_ h1.
        rbind (ropt (load_ptr h1 (ext + ext_next)) h1) (\<lambda>next h2. for_each_extension n body next h2)))"

section \<open>Default values\<close>

text \<open>The branch \<open>if (init_data)\<close> of \<open>pb_field_set_to_default\<close>.\<close>

definition init_data ::
    "mem_env \<Rightarrow> (pb_field list \<Rightarrow> nat \<Rightarrow> mem_op) \<Rightarrow> pb_field \<Rightarrow> nat \<Rightarrow> mem_op" where
  "init_data env msg_rec f p h =
     (if PB_LTYPE (ftype f) = PB_LTYPE_SUBMESSAGE
      then (case sub_fields (m_msgs env) f of None \<Rightarrow> UB | Some fs \<Rightarrow> msg_rec fs p h)
      else if ptr f \<noteq> PtrNull then copy_default p (ptr f) (unat (data_size f)) h
      else mem_set p 0 (unat (data_size f)) h)"

text \<open>
  \<open>pb_field_set_to_default\<close>, with its calls to itself, on the extensions' iterators, and to
  \<open>pb_message_set_to_defaults\<close> as arguments.
\<close>

definition field_default ::
    "mem_env \<Rightarrow> nat \<Rightarrow> (pb_field_iter \<Rightarrow> mem_op) \<Rightarrow> (pb_field list \<Rightarrow> nat \<Rightarrow> mem_op) \<Rightarrow>
     pb_field_iter \<Rightarrow> mem_op" where
  "field_default env fuel field_rec msg_rec iter h =
     (let f = cur iter; ty = ftype f; init = init_data env msg_rec f (pData iter)
      in if PB_LTYPE ty = PB_LTYPE_EXTENSION then
           rbind (ropt (load_ptr h (pData iter)) h) (\<lambda>ext h.
             for_each_extension fuel (\<lambda>ext h.
               rbind (upd (\<lambda>h. store_bool h (ext + ext_found) False) h) (\<lambda>_ h.
               rbind (ropt (iter_from_extension env h ext) h) (\<lambda>ext_iter h. field_rec ext_iter h))) ext h)
         else if PB_ATYPE ty = PB_ATYPE_STATIC then
           if PB_HTYPE ty = PB_HTYPE_OPTIONAL \<and> pSize iter \<noteq> pData iter then
             rbind (upd (\<lambda>h. store_bool h (pSize iter) False) h) (\<lambda>_ h. init h)
           else if PB_HTYPE ty = PB_HTYPE_REPEATED \<or> PB_HTYPE ty = PB_HTYPE_ONEOF then
             upd (\<lambda>h. store32 h (pSize iter) 0) h
           else init h
         else if PB_ATYPE ty = PB_ATYPE_POINTER then
           rbind (upd (\<lambda>h. store_ptr h (pData iter) 0) h) (\<lambda>_ h.
             if PB_HTYPE ty = PB_HTYPE_REPEATED \<or> PB_HTYPE ty = PB_HTYPE_ONEOF
             then upd (\<lambda>h. store32 h (pSize iter) 0) h else Ok () h)
         else Ok () h)"

fun pb_field_set_to_default :: "mem_env \<Rightarrow> nat \<Rightarrow> pb_field_iter \<Rightarrow> mem_op"
  and pb_message_set_to_defaults :: "mem_env \<Rightarrow> nat \<Rightarrow> pb_field list \<Rightarrow> nat \<Rightarrow> mem_op" where
  "pb_field_set_to_default env 0 iter h = NoFuel"
| "pb_field_set_to_default env (Suc n) iter h =
     field_default env n (\<lambda>it h. pb_field_set_to_default env n it h)
       (\<lambda>fs p h. pb_message_set_to_defaults env n fs p h) iter h"
| "pb_message_set_to_defaults env 0 fs p h = NoFuel"
| "pb_message_set_to_defaults env (Suc n) fs p h =
     for_each_field fs p (\<lambda>it h. pb_field_set_to_default env n it h) h"

section \<open>Releasing\<close>

fun release_items :: "(nat \<Rightarrow> mem_op) \<Rightarrow> nat \<Rightarrow> nat \<Rightarrow> nat \<Rightarrow> mem_op" where
  "release_items rel step 0 p h = Ok () h"
| "release_items rel step (Suc n) p h =
     rbind (rel p h) (\<lambda>_ h1. release_items rel step n (p + step) h1)"

text \<open>\<open>while (count--) { pb_free(*pItem); *pItem++ = NULL; }\<close>.\<close>

definition free_pointer :: "nat \<Rightarrow> mem_op" where
  "free_pointer p h = rbind (ropt (load_ptr h p) h) (\<lambda>q h.
     rbind (upd (\<lambda>h. c_free h q) h) (\<lambda>_ h. upd (\<lambda>h. store_ptr h p 0) h))"

text \<open>The number of submessages to release.\<close>

definition release_count :: "pb_field_iter \<Rightarrow> heap \<Rightarrow> u32 option" where
  "release_count iter h =
     (let f = cur iter; ty = ftype f; static = (PB_ATYPE ty = PB_ATYPE_STATIC)
      in if PB_HTYPE ty = PB_HTYPE_REPEATED then
           map_option (\<lambda>count. if static \<and> array_size f < count then array_size f else count)
             (if static \<and> pSize iter = pData iter then Some (array_size f) else load32 h (pSize iter))
         else Some 1)"

definition release_contents ::
    "mem_env \<Rightarrow> nat \<Rightarrow> (pb_field_iter \<Rightarrow> mem_op) \<Rightarrow> (pb_field list \<Rightarrow> nat \<Rightarrow> mem_op) \<Rightarrow>
     pb_field_iter \<Rightarrow> mem_op" where
  "release_contents env fuel single_rec rel_rec iter h =
     (let f = cur iter; ty = ftype f
      in if PB_LTYPE ty = PB_LTYPE_EXTENSION then
           rbind (ropt (load_ptr h (pData iter)) h) (\<lambda>ext h.
             for_each_extension fuel (\<lambda>ext h.
               rbind (ropt (iter_from_extension env h ext) h) (\<lambda>ext_iter h. single_rec ext_iter h)) ext h)
         else if PB_LTYPE ty = PB_LTYPE_SUBMESSAGE then
           rbind (if PB_ATYPE ty = PB_ATYPE_POINTER then ropt (load_ptr h (pData iter)) h
                  else Ok (pData iter) h) (\<lambda>item h.
           rbind (ropt (release_count iter h) h) (\<lambda>count h.
             if item \<noteq> 0 then release_items (\<lambda>p h. case sub_fields (m_msgs env) f of
                 None \<Rightarrow> UB | Some fs \<Rightarrow> rel_rec fs p h) (unat (data_size f)) (unat count) item h
             else Ok () h))
         else Ok () h)"

definition release_pointer :: "pb_field_iter \<Rightarrow> mem_op" where
  "release_pointer iter h =
     (let f = cur iter; ty = ftype f
      in if PB_ATYPE ty = PB_ATYPE_POINTER then
           rbind (if PB_HTYPE ty = PB_HTYPE_REPEATED \<and> PB_LTYPE ty \<in> {PB_LTYPE_STRING, PB_LTYPE_BYTES}
             then rbind (ropt (load_ptr h (pData iter)) h) (\<lambda>item h.
                  rbind (ropt (load32 h (pSize iter)) h) (\<lambda>count h.
                    release_items free_pointer sizeof_ptr (unat count) item h))
             else Ok () h) (\<lambda>_ h.
           rbind (if PB_HTYPE ty = PB_HTYPE_REPEATED
             then upd (\<lambda>h. store32 h (pSize iter) 0) h else Ok () h) (\<lambda>_ h.
             free_pointer (pData iter) h))
         else Ok () h)"

definition release_field ::
    "mem_env \<Rightarrow> nat \<Rightarrow> (pb_field_iter \<Rightarrow> mem_op) \<Rightarrow> (pb_field list \<Rightarrow> nat \<Rightarrow> mem_op) \<Rightarrow>
     pb_field_iter \<Rightarrow> mem_op" where
  "release_field env fuel single_rec rel_rec iter h =
     (let f = cur iter
      in rbind (if PB_HTYPE (ftype f) = PB_HTYPE_ONEOF
          then rbind (ropt (load32 h (pSize iter)) h) (\<lambda>which h. Ok (which = tag f) h)
          else Ok True h) (\<lambda>current h.
        if current
        then rbind (release_contents env fuel single_rec rel_rec iter h) (\<lambda>_ h. release_pointer iter h)
        else Ok () h))"

fun pb_release_single_field :: "mem_env \<Rightarrow> nat \<Rightarrow> pb_field_iter \<Rightarrow> mem_op"
  and pb_release :: "mem_env \<Rightarrow> nat \<Rightarrow> pb_field list \<Rightarrow> nat \<Rightarrow> mem_op" where
  "pb_release_single_field env 0 iter h = NoFuel"
| "pb_release_single_field env (Suc n) iter h =
     release_field env n (\<lambda>it h. pb_release_single_field env n it h)
       (\<lambda>fs p h. pb_release env n fs p h) iter h"
| "pb_release env 0 fs p h = NoFuel"
| "pb_release env (Suc n) fs p h =
     (if p = 0 then Ok () h
      else for_each_field fs p (\<lambda>it h. pb_release_single_field env n it h) h)"

end
