(* ===== verification/Pb_Decode.thy ===== *)
theory Pb_Decode
  imports Pb_Istream Pb_Memory_Ops
begin

text \<open>
  The message decoder (\<open>pb_decode.c\<close>): value decoders, static, pointer, callback and extension
  fields, oneofs, and the main loop with its required-field check. The state of a call is the
  stream it reads and the memory it writes.
\<close>

section \<open>State and environment\<close>

type_synonym 'u dstate = "'u istream \<times> heap"
type_synonym 'u reader = "'u dstate \<Rightarrow> (unit, 'u dstate) res"

text \<open>
  The application's field callbacks and extension decoders (by the address in the structure),
  and the address \<open>stack\<close> of the four bytes of the local \<open>fixed_count_size\<close>.
\<close>

record 'u dec_env =
  d_mem :: mem_env
  d_callbacks :: "nat \<Rightarrow> (pb_field \<Rightarrow> nat \<Rightarrow> 'u reader) option"
  d_exts :: "nat \<Rightarrow> ((nat \<Rightarrow> u32 \<Rightarrow> u32 \<Rightarrow> 'u reader) option \<times> pb_field) option"
  d_stack :: "heap \<Rightarrow> nat"

definition d_error :: "string \<Rightarrow> 'u dstate \<Rightarrow> ('a, 'u dstate) res" where
  "d_error msg = (\<lambda>(s, h). Fail (set_error s msg, h))"

definition on_stream :: "('u istream \<Rightarrow> ('a, 'u istream) res) \<Rightarrow> 'u dstate \<Rightarrow> ('a, 'u dstate) res" where
  "on_stream f = (\<lambda>(s, h). rmap (\<lambda>s1. (s1, h)) (f s))"

definition on_mem :: "mem_op \<Rightarrow> 'u reader" where
  "on_mem f = (\<lambda>(s, h). rmap (\<lambda>h1. (s, h1)) (f h))"

definition peek :: "(heap \<Rightarrow> 'a option) \<Rightarrow> 'u dstate \<Rightarrow> ('a, 'u dstate) res" where
  "peek f = (\<lambda>(s, h). ropt (f h) (s, h))"

definition poke :: "(heap \<Rightarrow> heap option) \<Rightarrow> 'u reader" where
  "poke f = on_mem (upd f)"

text \<open>\<open>pb_read\<close> into memory.\<close>

definition read_into :: "nat \<Rightarrow> nat \<Rightarrow> 'u reader" where
  "read_into p n d = rbind (on_stream (\<lambda>s. pb_read s False n) d) (\<lambda>data d. poke (\<lambda>h. store h p data) d)"

section \<open>Scalar values\<close>

text \<open>
  Store a 64-bit value in a member of \<open>data_size\<close> bytes; the result is the value the member
  has then, sign-extended or not, and the caller compares it with the original.
\<close>

definition store_clamped :: "bool \<Rightarrow> u32 \<Rightarrow> nat \<Rightarrow> u64 \<Rightarrow> 'u dstate \<Rightarrow> (u64, 'u dstate) res" where
  "store_clamped sgnd sz p v d =
     (if sz = 8 then rbind (poke (\<lambda>h. store_word h p 8 v) d) (\<lambda>_ d. Ok v d)
      else if sz = 4 then rbind (poke (\<lambda>h. store_word h p 4 (ucast v :: u32)) d)
        (\<lambda>_ d. Ok (if sgnd then scast (ucast v :: u32) else ucast (ucast v :: u32)) d)
      else if sz = 2 then rbind (poke (\<lambda>h. store_word h p 2 (ucast v :: u16)) d)
        (\<lambda>_ d. Ok (if sgnd then scast (ucast v :: u16) else ucast (ucast v :: u16)) d)
      else if sz = 1 then rbind (poke (\<lambda>h. store_word h p 1 (ucast v :: byte)) d)
        (\<lambda>_ d. Ok (if sgnd then scast (ucast v :: byte) else ucast (ucast v :: byte)) d)
      else d_error ''invalid data_size'' d)"

definition store_checked :: "bool \<Rightarrow> u32 \<Rightarrow> nat \<Rightarrow> u64 \<Rightarrow> 'u reader" where
  "store_checked sgnd sz p v d = rbind (store_clamped sgnd sz p v d) (\<lambda>clamped d.
     if clamped \<noteq> v then d_error ''integer too large'' d else Ok () d)"

definition pb_dec_varint :: "pb_field \<Rightarrow> nat \<Rightarrow> 'u reader" where
  "pb_dec_varint f p d = rbind (on_stream pb_decode_varint d) (\<lambda>value d.
     let svalue = (if data_size f = 8 then value else scast (ucast value :: u32))
     in store_checked True (data_size f) p svalue d)"

definition pb_dec_uvarint :: "pb_field \<Rightarrow> nat \<Rightarrow> 'u reader" where
  "pb_dec_uvarint f p d = rbind (on_stream pb_decode_varint d)
     (\<lambda>value d. store_checked False (data_size f) p value d)"

definition pb_dec_svarint :: "pb_field \<Rightarrow> nat \<Rightarrow> 'u reader" where
  "pb_dec_svarint f p d = rbind (on_stream pb_decode_svarint d)
     (\<lambda>value d. store_checked True (data_size f) p value d)"

definition pb_dec_fixed32 :: "pb_field \<Rightarrow> nat \<Rightarrow> 'u reader" where
  "pb_dec_fixed32 f p d = rbind (on_stream pb_decode_fixed32 d)
     (\<lambda>v d. poke (\<lambda>h. store32 h p v) d)"

definition pb_dec_fixed64 :: "pb_field \<Rightarrow> nat \<Rightarrow> 'u reader" where
  "pb_dec_fixed64 f p d = rbind (on_stream pb_decode_fixed64 d)
     (\<lambda>v d. poke (\<lambda>h. store_word h p 8 v) d)"

section \<open>Allocation\<close>

definition allocate_field :: "mem_env \<Rightarrow> nat \<Rightarrow> nat \<Rightarrow> nat \<Rightarrow> 'u reader" where
  "allocate_field env p dsize asize d =
     rbind (peek (\<lambda>h. load_ptr h p) d) (\<lambda>ptr d.
       if dsize = 0 \<or> asize = 0 then d_error ''invalid size'' d
       else if (2 ^ 32 \<le> dsize \<or> 2 ^ 32 \<le> asize) \<and> (2 ^ 64 - 1) div asize < dsize
       then d_error ''size too large'' d
       else rbind (peek (\<lambda>h. c_realloc (m_pick env) (m_junk env) h ptr (asize * dsize)) d)
         (\<lambda>(q, h1) (s, _). if q = 0 then d_error ''realloc failed'' (s, h1)
           else poke (\<lambda>h. store_ptr h p q) (s, h1)))"

definition initialize_pointer_field :: "mem_env \<Rightarrow> nat \<Rightarrow> nat \<Rightarrow> pb_field_iter \<Rightarrow> mem_op" where
  "initialize_pointer_field env fuel item iter h =
     (let f = cur iter; lt = PB_LTYPE (ftype f)
      in if lt \<in> {PB_LTYPE_STRING, PB_LTYPE_BYTES} then upd (\<lambda>h. store_ptr h item 0) h
         else if lt = PB_LTYPE_SUBMESSAGE then
           rbind (mem_set item 0 (unat (data_size f)) h) (\<lambda>_ h.
             case sub_fields (m_msgs env) f of None \<Rightarrow> UB
             | Some fs \<Rightarrow> pb_message_set_to_defaults env fuel fs item h)
         else Ok () h)"

section \<open>Bytes, strings and submessages\<close>

definition pb_dec_bytes :: "mem_env \<Rightarrow> pb_field \<Rightarrow> nat \<Rightarrow> 'u reader" where
  "pb_dec_bytes env f p d = rbind (on_stream pb_decode_varint32 d) (\<lambda>sz d.
     let alloc_size = PB_BYTES_ARRAY_T_ALLOCSIZE sz
     in if alloc_size < unat sz then d_error ''size too large'' d
        else rbind (if PB_ATYPE (ftype f) = PB_ATYPE_POINTER
            then rbind (allocate_field env p alloc_size 1 d) (\<lambda>_ d. peek (\<lambda>h. load_ptr h p) d)
            else if unat (data_size f) < alloc_size then d_error ''bytes overflow'' d
            else Ok p d) (\<lambda>bdest d.
          rbind (poke (\<lambda>h. store32 h bdest sz) d) (\<lambda>_ d. read_into (bdest + bytes_offset) (unat sz) d)))"

text \<open>\<open>size + 1\<close> is computed in \<open>uint32_t\<close>; the terminator is stored whether the read succeeds or not.\<close>

definition pb_dec_string :: "mem_env \<Rightarrow> pb_field \<Rightarrow> nat \<Rightarrow> 'u reader" where
  "pb_dec_string env f p d = rbind (on_stream pb_decode_varint32 d) (\<lambda>sz d.
     let alloc_size = unat (sz + 1)
     in if alloc_size < unat sz then d_error ''size too large'' d
        else rbind (if PB_ATYPE (ftype f) = PB_ATYPE_POINTER
            then rbind (allocate_field env p alloc_size 1 d) (\<lambda>_ d. peek (\<lambda>h. load_ptr h p) d)
            else if unat (data_size f) < alloc_size then d_error ''string overflow'' d
            else Ok p d) (\<lambda>dest d.
          let terminate = poke (\<lambda>h. store h (dest + unat sz) [0])
          in case read_into dest (unat sz) d of
            Ok _ d1 \<Rightarrow> terminate d1
          | Fail d1 \<Rightarrow> rbind (terminate d1) (\<lambda>_ d2. Fail d2)
          | UB \<Rightarrow> UB
          | NoFuel \<Rightarrow> NoFuel))"

definition pb_dec_fixed_length_bytes :: "pb_field \<Rightarrow> nat \<Rightarrow> 'u reader" where
  "pb_dec_fixed_length_bytes f p d = rbind (on_stream pb_decode_varint32 d) (\<lambda>sz d.
     if sz = 0 then on_mem (mem_set p 0 (unat (data_size f))) d
     else if sz \<noteq> data_size f then d_error ''incorrect fixed length bytes size'' d
     else read_into p (unat (data_size f)) d)"

text \<open>
  The state with a substream in place of its parent, and back: \<open>close_sub\<close> is
  \<open>pb_close_string_substream\<close> followed by returning \<open>status\<close>.
\<close>

definition make_sub :: "'u dstate \<Rightarrow> ('u istream, 'u dstate) res" where
  "make_sub = on_stream pb_make_string_substream"

definition close_sub :: "bool \<Rightarrow> 'u istream \<Rightarrow> 'u dstate \<Rightarrow> (unit, 'u dstate) res" where
  "close_sub status sub d = rbind (on_stream (\<lambda>s. pb_close_string_substream s sub) d)
     (\<lambda>_ d. if status then Ok () d else Fail d)"

text \<open>Run \<open>body\<close> on the substream; the parent's stream stays behind it.\<close>

definition with_sub :: "'u reader \<Rightarrow> 'u istream \<Rightarrow> 'u reader" where
  "with_sub body sub = (\<lambda>(s, h). case body (sub, h) of
     Ok _ (sub1, h1) \<Rightarrow> close_sub True sub1 (s, h1)
   | Fail (sub1, h1) \<Rightarrow> close_sub False sub1 (s, h1)
   | UB \<Rightarrow> UB
   | NoFuel \<Rightarrow> NoFuel)"

definition pb_dec_submessage ::
    "mem_env \<Rightarrow> (pb_field list \<Rightarrow> nat \<Rightarrow> 'u reader) \<Rightarrow> (pb_field list \<Rightarrow> nat \<Rightarrow> 'u reader) \<Rightarrow>
     pb_field \<Rightarrow> nat \<Rightarrow> 'u reader" where
  "pb_dec_submessage env decode noinit f p d = rbind (make_sub d) (\<lambda>sub d.
     if ptr f = PtrNull then d_error ''invalid field descriptor'' d
     else case sub_fields (m_msgs env) f of
       None \<Rightarrow> UB
     | Some fs \<Rightarrow> with_sub (if PB_HTYPE (ftype f) = PB_HTYPE_REPEATED then decode fs p else noinit fs p) sub d)"

definition PB_DECODERS ::
    "mem_env \<Rightarrow> (pb_field list \<Rightarrow> nat \<Rightarrow> 'u reader) \<Rightarrow> (pb_field list \<Rightarrow> nat \<Rightarrow> 'u reader) \<Rightarrow>
     byte \<Rightarrow> pb_field \<Rightarrow> nat \<Rightarrow> 'u reader" where
  "PB_DECODERS env decode noinit t =
     (if t = PB_LTYPE_VARINT then pb_dec_varint
      else if t = PB_LTYPE_UVARINT then pb_dec_uvarint
      else if t = PB_LTYPE_SVARINT then pb_dec_svarint
      else if t = PB_LTYPE_FIXED32 then pb_dec_fixed32
      else if t = PB_LTYPE_FIXED64 then pb_dec_fixed64
      else if t = PB_LTYPE_BYTES then pb_dec_bytes env
      else if t = PB_LTYPE_STRING then pb_dec_string env
      else if t = PB_LTYPE_SUBMESSAGE then pb_dec_submessage env decode noinit
      else if t = PB_LTYPE_FIXED_LENGTH_BYTES then pb_dec_fixed_length_bytes
      else (\<lambda>f p d. UB))"

section \<open>Static fields\<close>

text \<open>
  The loop over a packed array: its state is the substream and the memory; the result says
  whether an entry failed. Every entry takes at least a byte, so the bytes left bound the loop.
\<close>

fun static_packed_loop ::
    "nat \<Rightarrow> (pb_field \<Rightarrow> nat \<Rightarrow> 'u reader) \<Rightarrow> pb_field_iter \<Rightarrow> 'u dstate \<Rightarrow> (bool, 'u dstate) res" where
  "static_packed_loop 0 func iter d = NoFuel"
| "static_packed_loop (Suc n) func iter d =
     (if bytes_left (fst d) = 0 then Ok True d
      else rbind (peek (\<lambda>h. load32 h (pSize iter)) d) (\<lambda>sz d.
        if array_size (cur iter) \<le> sz then Ok True d
        else (case func (cur iter) (pData iter + unat (data_size (cur iter) * sz)) d of
            Ok _ d1 \<Rightarrow> rbind (peek (\<lambda>h. load32 h (pSize iter)) d1) (\<lambda>sz1 d.
              rbind (poke (\<lambda>h. store32 h (pSize iter) (sz1 + 1)) d) (\<lambda>_ d.
                static_packed_loop n func iter d))
          | Fail d1 \<Rightarrow> Ok False d1
          | UB \<Rightarrow> UB
          | NoFuel \<Rightarrow> NoFuel)))"

definition decode_static_packed ::
    "(pb_field \<Rightarrow> nat \<Rightarrow> 'u reader) \<Rightarrow> pb_field_iter \<Rightarrow> 'u reader" where
  "decode_static_packed func iter d = rbind (make_sub d) (\<lambda>sub (s, h).
     case static_packed_loop (Suc (bytes_left sub)) func iter (sub, h) of
       Ok status (sub1, h1) \<Rightarrow>
         if bytes_left sub1 \<noteq> 0 then d_error ''array overflow'' (s, h1)
         else close_sub status sub1 (s, h1)
     | Fail (sub1, h1) \<Rightarrow> Fail (s, h1)
     | UB \<Rightarrow> UB
     | NoFuel \<Rightarrow> NoFuel)"

definition decode_static_field ::
    "mem_env \<Rightarrow> nat \<Rightarrow> (byte \<Rightarrow> pb_field \<Rightarrow> nat \<Rightarrow> 'u reader) \<Rightarrow> u32 \<Rightarrow> pb_field_iter \<Rightarrow> 'u reader" where
  "decode_static_field env fuel decoders wire_type iter d =
     (let f = cur iter; ty = ftype f; func = decoders (PB_LTYPE ty)
      in if PB_HTYPE ty = PB_HTYPE_REQUIRED then func f (pData iter) d
         else if PB_HTYPE ty = PB_HTYPE_OPTIONAL then
           rbind (if pSize iter \<noteq> pData iter then poke (\<lambda>h. store_bool h (pSize iter) True) d else Ok () d)
             (\<lambda>_ d. func f (pData iter) d)
         else if PB_HTYPE ty = PB_HTYPE_REPEATED then
           if wire_type = PB_WT_STRING \<and> PB_LTYPE ty \<le> PB_LTYPE_LAST_PACKABLE
           then decode_static_packed func iter d
           else rbind (peek (\<lambda>h. load32 h (pSize iter)) d) (\<lambda>sz d.
             rbind (poke (\<lambda>h. store32 h (pSize iter) (sz + 1)) d) (\<lambda>_ d.
               if array_size f \<le> sz then d_error ''array overflow'' d
               else func f (pData iter + unat (data_size f * sz)) d))
         else rbind (poke (\<lambda>h. store32 h (pSize iter) (tag f)) d) (\<lambda>_ d.
           rbind (if PB_LTYPE ty = PB_LTYPE_SUBMESSAGE
             then rbind (on_mem (mem_set (pData iter) 0 (unat (data_size f))) d) (\<lambda>_ d.
               case sub_fields (m_msgs env) f of None \<Rightarrow> UB
               | Some fs \<Rightarrow> on_mem (pb_message_set_to_defaults env fuel fs (pData iter)) d)
             else Ok () d) (\<lambda>_ d. func f (pData iter) d)))"

section \<open>Pointer fields\<close>

text \<open>
  The loop over a packed array whose storage grows as it goes; the result is the status and
  whether the count reached \<open>PB_SIZE_MAX\<close>, which sets the parent stream's message.
\<close>

fun pointer_packed_loop ::
    "nat \<Rightarrow> mem_env \<Rightarrow> nat \<Rightarrow> (pb_field \<Rightarrow> nat \<Rightarrow> 'u reader) \<Rightarrow> pb_field_iter \<Rightarrow> nat \<Rightarrow>
     'u dstate \<Rightarrow> (bool \<times> bool, 'u dstate) res" where
  "pointer_packed_loop 0 env fuel func iter allocated d = NoFuel"
| "pointer_packed_loop (Suc n) env fuel func iter allocated d =
     (if bytes_left (fst d) = 0 then Ok (True, False) d
      else rbind (peek (\<lambda>h. load32 h (pSize iter)) d) (\<lambda>sz d.
        let grow = allocated < unat sz + 1;
            dsize = unat (data_size (cur iter));
            allocated' = (if grow then allocated + ((bytes_left (fst d) - 1) div dsize + 1) else allocated)
        in if grow \<and> dsize = 0 then UB
           else (case (if grow then allocate_field env (pData iter) dsize allocated' d else Ok () d) of
             UB \<Rightarrow> UB
           | NoFuel \<Rightarrow> NoFuel
           | Fail d1 \<Rightarrow> Ok (False, False) d1
           | Ok _ d1 \<Rightarrow>
               rbind (peek (\<lambda>h. load_ptr h (pData iter)) d1) (\<lambda>base d.
               rbind (peek (\<lambda>h. load32 h (pSize iter)) d) (\<lambda>sz d.
               let item = base + unat (data_size (cur iter) * sz)
               in rbind (on_mem (initialize_pointer_field env fuel item iter) d) (\<lambda>_ d.
                 case func (cur iter) item d of
                   UB \<Rightarrow> UB
                 | NoFuel \<Rightarrow> NoFuel
                 | Fail d2 \<Rightarrow> Ok (False, False) d2
                 | Ok _ d2 \<Rightarrow> rbind (peek (\<lambda>h. load32 h (pSize iter)) d2) (\<lambda>sz d.
                     if sz = PB_SIZE_MAX then Ok (False, True) d
                     else rbind (poke (\<lambda>h. store32 h (pSize iter) (sz + 1)) d) (\<lambda>_ d.
                       pointer_packed_loop n env fuel func iter allocated' d))))))))"

definition decode_pointer_packed ::
    "mem_env \<Rightarrow> nat \<Rightarrow> (pb_field \<Rightarrow> nat \<Rightarrow> 'u reader) \<Rightarrow> pb_field_iter \<Rightarrow> 'u reader" where
  "decode_pointer_packed env fuel func iter d =
     rbind (peek (\<lambda>h. load32 h (pSize iter)) d) (\<lambda>sz d.
     rbind (make_sub d) (\<lambda>sub (s, h).
       case pointer_packed_loop (Suc (bytes_left sub)) env fuel func iter (unat sz) (sub, h) of
         Ok (status, full) (sub1, h1) \<Rightarrow>
           close_sub status sub1 (if full then s\<lparr>errmsg := Some ''too many array entries''\<rparr> else s, h1)
       | Fail (sub1, h1) \<Rightarrow> Fail (s, h1)
       | UB \<Rightarrow> UB
       | NoFuel \<Rightarrow> NoFuel))"

definition decode_pointer_item ::
    "mem_env \<Rightarrow> nat \<Rightarrow> (pb_field \<Rightarrow> nat \<Rightarrow> 'u reader) \<Rightarrow> pb_field_iter \<Rightarrow> 'u reader" where
  "decode_pointer_item env fuel func iter d =
     rbind (peek (\<lambda>h. load32 h (pSize iter)) d) (\<lambda>sz d.
       if sz = PB_SIZE_MAX then d_error ''too many array entries'' d
       else rbind (poke (\<lambda>h. store32 h (pSize iter) (sz + 1)) d) (\<lambda>_ d.
         rbind (allocate_field env (pData iter) (unat (data_size (cur iter))) (unat (sz + 1)) d) (\<lambda>_ d.
         rbind (peek (\<lambda>h. load_ptr h (pData iter)) d) (\<lambda>base d.
         rbind (peek (\<lambda>h. load32 h (pSize iter)) d) (\<lambda>sz1 d.
           let item = base + unat (data_size (cur iter) * (sz1 - 1))
           in rbind (on_mem (initialize_pointer_field env fuel item iter) d) (\<lambda>_ d.
             func (cur iter) item d))))))"

definition decode_pointer_field ::
    "mem_env \<Rightarrow> nat \<Rightarrow> (byte \<Rightarrow> pb_field \<Rightarrow> nat \<Rightarrow> 'u reader) \<Rightarrow> u32 \<Rightarrow> pb_field_iter \<Rightarrow> 'u reader" where
  "decode_pointer_field env fuel decoders wire_type iter d =
     (let f = cur iter; ty = ftype f; func = decoders (PB_LTYPE ty)
      in if PB_HTYPE ty = PB_HTYPE_REPEATED then
           if wire_type = PB_WT_STRING \<and> PB_LTYPE ty \<le> PB_LTYPE_LAST_PACKABLE
           then decode_pointer_packed env fuel func iter d
           else decode_pointer_item env fuel func iter d
         else
           rbind (if PB_LTYPE ty = PB_LTYPE_SUBMESSAGE
             then rbind (peek (\<lambda>h. load_ptr h (pData iter)) d) (\<lambda>old d.
               if old \<noteq> 0 then on_mem (pb_release_single_field env fuel iter) d else Ok () d)
             else Ok () d) (\<lambda>_ d.
           rbind (if PB_HTYPE ty = PB_HTYPE_ONEOF then poke (\<lambda>h. store32 h (pSize iter) (tag f)) d
             else Ok () d) (\<lambda>_ d.
             if PB_LTYPE ty \<in> {PB_LTYPE_STRING, PB_LTYPE_BYTES} then func f (pData iter) d
             else rbind (allocate_field env (pData iter) (unat (data_size f)) 1 d) (\<lambda>_ d.
               rbind (peek (\<lambda>h. load_ptr h (pData iter)) d) (\<lambda>item d.
               rbind (on_mem (initialize_pointer_field env fuel item iter) d) (\<lambda>_ d.
               rbind (peek (\<lambda>h. load_ptr h (pData iter)) d) (\<lambda>item d. func f item d)))))))"

section \<open>Callback fields\<close>

text \<open>The call \<open>pCallback->funcs.decode(&substream, iter->pos, arg)\<close>.\<close>

definition call_decoder :: "'u dec_env \<Rightarrow> pb_field_iter \<Rightarrow> 'u reader" where
  "call_decoder e iter d = rbind (peek (\<lambda>h. load_ptr h (pData iter + cb_funcs)) d) (\<lambda>fn d.
     case d_callbacks e fn of None \<Rightarrow> UB | Some decode \<Rightarrow> decode (cur iter) (pData iter + cb_arg) d)"

text \<open>
  The callback is called until the substream is used up; it need not read anything, so the
  loop has fuel. On failure the parent's stream, whose message is set, is the state.
\<close>

fun callback_loop :: "nat \<Rightarrow> 'u dec_env \<Rightarrow> pb_field_iter \<Rightarrow> 'u reader" where
  "callback_loop 0 e iter d = NoFuel"
| "callback_loop (Suc n) e iter d = rbind (call_decoder e iter d) (\<lambda>_ d.
     if bytes_left (fst d) \<noteq> 0 then callback_loop n e iter d else Ok () d)"

definition decode_callback_field :: "'u dec_env \<Rightarrow> nat \<Rightarrow> u32 \<Rightarrow> pb_field_iter \<Rightarrow> 'u reader" where
  "decode_callback_field e fuel wire_type iter d =
     rbind (if pData iter = 0 then Ok 0 d else peek (\<lambda>h. load_ptr h (pData iter + cb_funcs)) d) (\<lambda>fn d.
       if fn = 0 then on_stream (\<lambda>s. pb_skip_field s wire_type) d
       else if wire_type = PB_WT_STRING then
         rbind (make_sub d) (\<lambda>sub (s, h).
           case callback_loop fuel e iter (sub, h) of
             Ok _ (sub1, h1) \<Rightarrow> close_sub True sub1 (s, h1)
           | Fail (sub1, h1) \<Rightarrow> d_error ''callback failed'' (s, h1)
           | UB \<Rightarrow> UB
           | NoFuel \<Rightarrow> NoFuel)
       else rbind (on_stream (\<lambda>s. read_raw_value s wire_type 10) d) (\<lambda>buffer (s, h).
         rmap (\<lambda>(_, h1). (s, h1))
           (call_decoder e iter (pb_istream_from_buffer buffer (length buffer), h))))"

section \<open>Oneofs and the choice of the allocation type\<close>

text \<open>
  \<open>pb_release_union_field\<close> moves the iterator to the old member of the union and back; it
  returns the iterator.
\<close>

definition iter_find :: "pb_field_iter \<Rightarrow> u32 \<Rightarrow> 'u dstate \<Rightarrow> (bool \<times> pb_field_iter, 'u dstate) res" where
  "iter_find iter t d = (case pb_field_iter_find iter t of None \<Rightarrow> NoFuel | Some r \<Rightarrow> Ok r d)"

definition pb_release_union_field ::
    "mem_env \<Rightarrow> nat \<Rightarrow> pb_field_iter \<Rightarrow> 'u dstate \<Rightarrow> (pb_field_iter, 'u dstate) res" where
  "pb_release_union_field env fuel iter d =
     rbind (peek (\<lambda>h. load32 h (pSize iter)) d) (\<lambda>old_tag d.
       let new_tag = tag (cur iter)
       in if old_tag = 0 \<or> old_tag = new_tag then Ok iter d
          else rbind (iter_find iter old_tag d) (\<lambda>(found, iter1) d.
            if \<not> found then d_error ''invalid union tag'' d
            else rbind (on_mem (pb_release_single_field env fuel iter1) d) (\<lambda>_ d.
              rbind (iter_find iter1 new_tag d) (\<lambda>(found, iter2) d.
                if \<not> found then d_error ''iterator error'' d else Ok iter2 d))))"

text \<open>\<open>decode_field\<close> returns the iterator too.\<close>

definition decode_field ::
    "'u dec_env \<Rightarrow> nat \<Rightarrow> (byte \<Rightarrow> pb_field \<Rightarrow> nat \<Rightarrow> 'u reader) \<Rightarrow> u32 \<Rightarrow> pb_field_iter \<Rightarrow>
     'u dstate \<Rightarrow> (pb_field_iter, 'u dstate) res" where
  "decode_field e fuel decoders wire_type iter0 d =
     rbind (if PB_HTYPE (ftype (cur iter0)) = PB_HTYPE_ONEOF
       then pb_release_union_field (d_mem e) fuel iter0 d else Ok iter0 d) (\<lambda>iter d.
     let atype = PB_ATYPE (ftype (cur iter))
     in rbind (if atype = PB_ATYPE_STATIC then decode_static_field (d_mem e) fuel decoders wire_type iter d
          else if atype = PB_ATYPE_POINTER then decode_pointer_field (d_mem e) fuel decoders wire_type iter d
          else if atype = PB_ATYPE_CALLBACK then decode_callback_field e fuel wire_type iter d
          else d_error ''invalid field type'' d) (\<lambda>_ d. Ok iter d))"

section \<open>Extensions\<close>

definition default_extension_decoder ::
    "'u dec_env \<Rightarrow> nat \<Rightarrow> (byte \<Rightarrow> pb_field \<Rightarrow> nat \<Rightarrow> 'u reader) \<Rightarrow> pb_field \<Rightarrow> nat \<Rightarrow> u32 \<Rightarrow> u32 \<Rightarrow>
     'u reader" where
  "default_extension_decoder e fuel decoders f ext t wire_type d =
     (if tag f \<noteq> t then Ok () d
      else rbind (peek (\<lambda>h. iter_from_extension (d_mem e) h ext) d) (\<lambda>iter d.
        rbind (poke (\<lambda>h. store_bool h (ext + ext_found) True) d) (\<lambda>_ d.
        rbind (decode_field e fuel decoders wire_type iter d) (\<lambda>_ d. Ok () d))))"

text \<open>The list of extensions, until one of them has read from the stream.\<close>

fun extension_loop ::
    "nat \<Rightarrow> 'u dec_env \<Rightarrow> nat \<Rightarrow> (byte \<Rightarrow> pb_field \<Rightarrow> nat \<Rightarrow> 'u reader) \<Rightarrow> u32 \<Rightarrow> u32 \<Rightarrow> nat \<Rightarrow>
     nat \<Rightarrow> 'u reader" where
  "extension_loop 0 e fuel decoders t wire_type start_left ext d = NoFuel"
| "extension_loop (Suc n) e fuel decoders t wire_type start_left ext d =
     (if ext = 0 \<or> bytes_left (fst d) \<noteq> start_left then Ok () d
      else rbind (peek (\<lambda>h. load_ptr h (ext + ext_type)) d) (\<lambda>ty d.
        rbind (case d_exts e ty of
            None \<Rightarrow> UB
          | Some (Some decode, _) \<Rightarrow> decode ext t wire_type d
          | Some (None, f) \<Rightarrow> default_extension_decoder e fuel decoders f ext t wire_type d) (\<lambda>_ d.
        rbind (peek (\<lambda>h. load_ptr h (ext + ext_next)) d) (\<lambda>next d.
          extension_loop n e fuel decoders t wire_type start_left next d))))"

definition decode_extension ::
    "'u dec_env \<Rightarrow> nat \<Rightarrow> (byte \<Rightarrow> pb_field \<Rightarrow> nat \<Rightarrow> 'u reader) \<Rightarrow> u32 \<Rightarrow> u32 \<Rightarrow> pb_field_iter \<Rightarrow>
     'u reader" where
  "decode_extension e fuel decoders t wire_type iter d =
     rbind (peek (\<lambda>h. load_ptr h (pData iter)) d) (\<lambda>ext d.
       extension_loop fuel e fuel decoders t wire_type (bytes_left (fst d)) ext d)"

definition find_extension_field :: "pb_field_iter \<Rightarrow> (bool \<times> pb_field_iter) option" where
  "find_extension_field iter = find_loop (Suc (length (start iter))) (pos iter)
     (\<lambda>f. PB_LTYPE (ftype f) = PB_LTYPE_EXTENSION) iter"

section \<open>The main loop\<close>

text \<open>
  The locals of \<open>pb_decode_noinit\<close>: the iterator, the two words \<open>fields_seen\<close>,
  \<open>extension_range_start\<close> and the position of \<open>fixed_count_field\<close>. The local \<open>fixed_count_size\<close>,
  which the iterator can point at, is in memory at \<open>fc\<close>.
\<close>

record dec_locals =
  it :: pb_field_iter
  seen0 :: u32
  seen1 :: u32
  ext_start :: u32
  fixed_field :: "nat option"

definition mark_seen :: "dec_locals \<Rightarrow> dec_locals" where
  "mark_seen l =
     (let i = required_field_index (it l); msk = push_bit (i mod 32) 1
      in if PB_HTYPE (ftype (cur (it l))) = PB_HTYPE_REQUIRED \<and> i < PB_MAX_REQUIRED_FIELDS
         then if i div 32 = 0 then l\<lparr>seen0 := seen0 l OR msk\<rparr> else l\<lparr>seen1 := seen1 l OR msk\<rparr>
         else l)"

text \<open>The fixed count field before this one must have got all its entries.\<close>

definition fixed_incomplete :: "dec_locals \<Rightarrow> nat \<Rightarrow> heap \<Rightarrow> bool option" where
  "fixed_incomplete l fc h = (case fixed_field l of
     None \<Rightarrow> Some False
   | Some i \<Rightarrow> map_option (\<lambda>n. n \<noteq> array_size (field_at (start (it l)) i)) (load32 h fc))"

definition enter_fixed_count :: "nat \<Rightarrow> dec_locals \<Rightarrow> 'u dstate \<Rightarrow> (dec_locals, 'u dstate) res" where
  "enter_fixed_count fc l d =
     (if PB_HTYPE (ftype (cur (it l))) = PB_HTYPE_REPEATED \<and> pSize (it l) = pData (it l)
      then rbind (if fixed_field l \<noteq> Some (pos (it l))
          then rbind (peek (fixed_incomplete l fc) d) (\<lambda>incomplete d.
            if incomplete then d_error ''wrong size for fixed count field'' d
            else rbind (poke (\<lambda>h. store32 h fc 0) d) (\<lambda>_ d. Ok (l\<lparr>fixed_field := Some (pos (it l))\<rparr>) d))
          else Ok l d) (\<lambda>l d. Ok (l\<lparr>it := (it l)\<lparr>pSize := fc\<rparr>\<rparr>) d)
      else Ok l d)"

text \<open>A tag that no field has: an extension may take it, otherwise it is skipped.\<close>

definition decode_unknown ::
    "'u dec_env \<Rightarrow> nat \<Rightarrow> (byte \<Rightarrow> pb_field \<Rightarrow> nat \<Rightarrow> 'u reader) \<Rightarrow> u32 \<Rightarrow> u32 \<Rightarrow> dec_locals \<Rightarrow>
     'u dstate \<Rightarrow> (dec_locals, 'u dstate) res" where
  "decode_unknown e fuel decoders t wire_type l d =
     (let skip = (\<lambda>l d. rbind (on_stream (\<lambda>s. pb_skip_field s wire_type) d) (\<lambda>_ d. Ok l d))
      in if t < ext_start l then skip l d
         else (case find_extension_field (it l) of
             None \<Rightarrow> NoFuel
           | Some (found, iter) \<Rightarrow>
               let l1 = l\<lparr>it := iter, ext_start := (if found then tag (cur iter) else 0xFFFFFFFF)\<rparr>
               in if t < ext_start l1 then skip l1 d
                  else rbind (decode_extension e fuel decoders t wire_type iter d) (\<lambda>_ d1.
                    if bytes_left (fst d1) \<noteq> bytes_left (fst d) then Ok l1 d1 else skip l1 d1)))"

definition decode_known ::
    "'u dec_env \<Rightarrow> nat \<Rightarrow> (byte \<Rightarrow> pb_field \<Rightarrow> nat \<Rightarrow> 'u reader) \<Rightarrow> nat \<Rightarrow> u32 \<Rightarrow> dec_locals \<Rightarrow>
     'u dstate \<Rightarrow> (dec_locals, 'u dstate) res" where
  "decode_known e fuel decoders fc wire_type l d =
     rbind (enter_fixed_count fc l d) (\<lambda>l d.
       let l1 = mark_seen l
       in rbind (decode_field e fuel decoders wire_type (it l1) d) (\<lambda>iter d. Ok (l1\<lparr>it := iter\<rparr>) d))"

text \<open>The loop \<open>while (stream->bytes_left)\<close>; a tag takes at least a byte.\<close>

fun decode_loop ::
    "nat \<Rightarrow> 'u dec_env \<Rightarrow> nat \<Rightarrow> (byte \<Rightarrow> pb_field \<Rightarrow> nat \<Rightarrow> 'u reader) \<Rightarrow> nat \<Rightarrow> dec_locals \<Rightarrow>
     'u dstate \<Rightarrow> (dec_locals, 'u dstate) res" where
  "decode_loop 0 e fuel decoders fc l d = NoFuel"
| "decode_loop (Suc n) e fuel decoders fc l d =
     (if bytes_left (fst d) = 0 then Ok l d
      else (case pb_decode_tag (fst d) of
          (eof, Fail s1) \<Rightarrow> if eof then Ok l (s1, snd d) else Fail (s1, snd d)
        | (_, UB) \<Rightarrow> UB
        | (_, NoFuel) \<Rightarrow> NoFuel
        | (_, Ok (wire_type, t) s1) \<Rightarrow>
            rbind (iter_find (it l) t (s1, snd d)) (\<lambda>(found, iter) d.
              rbind (if found then decode_known e fuel decoders fc wire_type (l\<lparr>it := iter\<rparr>) d
                     else decode_unknown e fuel decoders t wire_type (l\<lparr>it := iter\<rparr>) d) (\<lambda>l d.
                decode_loop n e fuel decoders fc l d))))"

section \<open>The checks after the loop\<close>

text \<open>Seek to the end of the fields: the required index and type of the last, and the iterator.\<close>

fun seek_end :: "nat \<Rightarrow> pb_field_iter \<Rightarrow> (nat \<times> byte \<times> pb_field_iter) option" where
  "seek_end 0 iter = None"
| "seek_end (Suc n) iter = (case pb_field_iter_next iter of
     (True, iter1) \<Rightarrow> seek_end n iter1
   | (False, iter1) \<Rightarrow> Some (required_field_index iter, ftype (cur iter), iter1))"

definition req_field_count :: "pb_field_iter \<Rightarrow> nat option" where
  "req_field_count iter = map_option (\<lambda>(n, last_type, iter1).
     min PB_MAX_REQUIRED_FIELDS
       (if PB_HTYPE last_type = PB_HTYPE_REQUIRED \<and> tag (cur iter1) \<noteq> 0 then Suc n else n))
     (seek_end (Suc (length (start iter))) iter)"

text \<open>Whole words of \<open>fields_seen\<close>, then the remaining bits.\<close>

definition required_seen :: "nat \<Rightarrow> u32 \<Rightarrow> u32 \<Rightarrow> bool" where
  "required_seen n w0 w1 \<longleftrightarrow>
     (\<forall>i < n div 32. [w0, w1] ! i = 0xFFFFFFFF) \<and>
     (n mod 32 \<noteq> 0 \<longrightarrow> [w0, w1] ! (n div 32) = drop_bit (32 - n mod 32) 0xFFFFFFFF)"

definition final_checks :: "nat \<Rightarrow> dec_locals \<Rightarrow> 'u reader" where
  "final_checks fc l d = rbind (peek (fixed_incomplete l fc) d) (\<lambda>incomplete d.
     if incomplete then d_error ''wrong size for fixed count field'' d
     else (case req_field_count (it l) of
         None \<Rightarrow> NoFuel
       | Some n \<Rightarrow> if required_seen n (seen0 l) (seen1 l) then Ok () d
           else d_error ''missing required field'' d))"

section \<open>Decoding a message\<close>

text \<open>The frame of the local \<open>fixed_count_size\<close>: four bytes, zero at first, gone on return.\<close>

definition push_local :: "nat \<Rightarrow> heap \<Rightarrow> heap" where
  "push_local fc h = h\<lparr>bytes := write_bytes (bytes h) fc [0, 0, 0, 0]\<rparr>"

definition pop_local :: "nat \<Rightarrow> heap \<Rightarrow> heap" where
  "pop_local fc h = h\<lparr>bytes := (\<lambda>x. if fc \<le> x \<and> x < fc + 4 then None else bytes h x)\<rparr>"

definition decode_message ::
    "'u dec_env \<Rightarrow> nat \<Rightarrow> (byte \<Rightarrow> pb_field \<Rightarrow> nat \<Rightarrow> 'u reader) \<Rightarrow> pb_field list \<Rightarrow> nat \<Rightarrow> 'u reader" where
  "decode_message e fuel decoders fs dest = (\<lambda>(s, h).
     let fc = d_stack e h;
         l = \<lparr>it = snd (pb_field_iter_begin fs dest), seen0 = 0, seen1 = 0, ext_start = 0,
              fixed_field = None\<rparr>
     in rmap (\<lambda>(s1, h1). (s1, pop_local fc h1))
          (rbind (decode_loop (Suc (bytes_left s)) e fuel decoders fc l (s, push_local fc h))
            (\<lambda>l d. final_checks fc l d)))"

text \<open>
  \<open>pb_decode\<close>: defaults, decode, release on failure. \<open>with_init\<close> is its body around a given
  \<open>pb_decode_noinit\<close>; the decoders call both on submessages.
\<close>

definition with_init ::
    "mem_env \<Rightarrow> nat \<Rightarrow> (pb_field list \<Rightarrow> nat \<Rightarrow> 'u reader) \<Rightarrow> pb_field list \<Rightarrow> nat \<Rightarrow> 'u reader" where
  "with_init env fuel noinit fs dest d =
     rbind (on_mem (pb_message_set_to_defaults env fuel fs dest) d) (\<lambda>_ d.
       case noinit fs dest d of
         Fail d1 \<Rightarrow> rbind (on_mem (pb_release env fuel fs dest) d1) (\<lambda>_ d2. Fail d2)
       | r \<Rightarrow> r)"

fun pb_decode_noinit :: "'u dec_env \<Rightarrow> nat \<Rightarrow> pb_field list \<Rightarrow> nat \<Rightarrow> 'u reader" where
  "pb_decode_noinit e 0 fs dest d = NoFuel"
| "pb_decode_noinit e (Suc n) fs dest d =
     decode_message e n (PB_DECODERS (d_mem e)
       (with_init (d_mem e) n (\<lambda>fs p d. pb_decode_noinit e n fs p d))
       (\<lambda>fs p d. pb_decode_noinit e n fs p d)) fs dest d"

definition pb_decode :: "'u dec_env \<Rightarrow> nat \<Rightarrow> pb_field list \<Rightarrow> nat \<Rightarrow> 'u reader" where
  "pb_decode e n = with_init (d_mem e) n (pb_decode_noinit e n)"

definition pb_decode_delimited_noinit :: "'u dec_env \<Rightarrow> nat \<Rightarrow> pb_field list \<Rightarrow> nat \<Rightarrow> 'u reader" where
  "pb_decode_delimited_noinit e n fs dest d =
     rbind (make_sub d) (\<lambda>sub d. with_sub (pb_decode_noinit e n fs dest) sub d)"

definition pb_decode_delimited :: "'u dec_env \<Rightarrow> nat \<Rightarrow> pb_field list \<Rightarrow> nat \<Rightarrow> 'u reader" where
  "pb_decode_delimited e n fs dest d =
     rbind (make_sub d) (\<lambda>sub d. with_sub (pb_decode e n fs dest) sub d)"

definition pb_decode_nullterminated :: "'u dec_env \<Rightarrow> nat \<Rightarrow> pb_field list \<Rightarrow> nat \<Rightarrow> 'u reader" where
  "pb_decode_nullterminated e n fs dest = pb_decode e n fs dest"

end
