(* ===== verification/Pb_Safe_Mem.thy ===== *)
theory Pb_Safe_Mem
  imports Pb_Memory_Ops
begin

text \<open>
  Memory safety of the operations on message structures whose fields are all static: they
  touch only the bytes of the structure, for any contents of it. Also the layout a descriptor
  array must have for that, with the nesting depth of the submessages.
\<close>

section \<open>Regions\<close>

text \<open>Only the bytes at the addresses \<open>A\<close> may change; nothing is allocated or freed.\<close>

definition frame :: "nat set \<Rightarrow> heap \<Rightarrow> heap \<Rightarrow> bool" where
  "frame A h h' \<longleftrightarrow> (\<forall>x. x \<notin> A \<longrightarrow> bytes h' x = bytes h x) \<and>
     (\<forall>x. (bytes h' x = None) = (bytes h x = None)) \<and> blocks h' = blocks h"

definition owns :: "nat set \<Rightarrow> heap \<Rightarrow> bool" where
  "owns A h \<longleftrightarrow> (\<forall>x \<in> A. bytes h x \<noteq> None)"

definition area :: "nat \<Rightarrow> nat \<Rightarrow> nat set" where
  "area a n = {x. a \<le> x \<and> x < a + n}"

lemma frame_refl [simp]: "frame A h h"
  by (simp add: frame_def)

lemma frame_trans: "frame A h h' \<Longrightarrow> frame A h' h'' \<Longrightarrow> frame A h h''"
  by (simp add: frame_def)

lemma frame_mono: "frame A h h' \<Longrightarrow> A \<subseteq> B \<Longrightarrow> frame B h h'"
  by (auto simp: frame_def)

lemma owns_frame: "owns A h \<Longrightarrow> frame B h h' \<Longrightarrow> owns A h'"
  by (simp add: owns_def frame_def)

lemma owns_mono: "owns B h \<Longrightarrow> A \<subseteq> B \<Longrightarrow> owns A h"
  by (auto simp: owns_def)

lemma owns_writable: "owns A h \<Longrightarrow> area p n \<subseteq> A \<Longrightarrow> writable h p n"
  by (auto simp: owns_def writable_def area_def subset_iff)

lemma area_sub: "area p n \<subseteq> area q m \<longleftrightarrow> n = 0 \<or> q \<le> p \<and> p + n \<le> q + m"
proof
  assume sub: "area p n \<subseteq> area q m"
  show "n = 0 \<or> q \<le> p \<and> p + n \<le> q + m"
  proof (cases "n = 0")
    case False
    then have "p \<in> area p n" "p + (n - 1) \<in> area p n" by (auto simp: area_def)
    with sub have "p \<in> area q m" "p + (n - 1) \<in> area q m" by auto
    with False show ?thesis by (auto simp: area_def)
  qed simp
qed (auto simp: area_def)

lemma area_0 [simp]: "area p 0 = {}"
  by (simp add: area_def)

lemma area_take: "n \<le> m \<Longrightarrow> area p m \<subseteq> A \<Longrightarrow> area p n \<subseteq> A"
  by (auto simp: area_def)

lemma store_frame_area:
  assumes "owns A h" and "area p (length bs) \<subseteq> A"
  shows "\<exists>h'. store h p bs = Some h' \<and> frame A h h'"
proof -
  obtain h' where st: "store h p bs = Some h'"
    using owns_writable [OF assms] store_Some_iff by blast
  have "bytes h' x = bytes h x" if "x \<notin> A" for x
  proof -
    have "\<not> (p \<le> x \<and> x < p + length bs)" using that assms(2) by (auto simp: area_def subset_iff)
    then show ?thesis by (intro store_frame [OF st]) linarith
  qed
  then show ?thesis
    using st store_alloc [OF st] store_blocks [OF st] by (auto simp: frame_def)
qed

lemma store_word_area:
  assumes "owns A h" and "area p n \<subseteq> A"
  shows "\<exists>h'. store_word h p n w = Some h' \<and> frame A h h'"
  using store_frame_area [OF assms(1), of p "le_bytes n w"] assms(2) by (simp add: store_word_def)

lemma load_area: "owns A h \<Longrightarrow> area p n \<subseteq> A \<Longrightarrow> \<exists>bs. load h p n = Some bs"
  using owns_writable load_Some_iff_writable by blast

lemma load_word_area: "owns A h \<Longrightarrow> area p n \<subseteq> A \<Longrightarrow> \<exists>w. load_word h p n = Some w"
  using load_area by (fastforce simp: load_word_def)

section \<open>Safe operations\<close>

definition msafe :: "nat set \<Rightarrow> heap \<Rightarrow> ('a, heap) res \<Rightarrow> bool" where
  "msafe A h r \<longleftrightarrow> (case r of Ok _ h' \<Rightarrow> frame A h h' | _ \<Rightarrow> False)"

named_theorems msafe_intros

lemma msafe_Ok [msafe_intros]: "msafe A h (Ok x h)"
  by (simp add: msafe_def)

lemma msafe_rbind:
  assumes "owns A h" and "msafe A h m"
    and "\<And>x h'. m = Ok x h' \<Longrightarrow> owns A h' \<Longrightarrow> msafe A h' (f x h')"
  shows "msafe A h (rbind m f)"
proof (cases m)
  case (Ok x h')
  then have fr: "frame A h h'" using assms(2) by (simp add: msafe_def)
  then have "msafe A h' (f x h')" using Ok assms(1,3) owns_frame by blast
  with Ok fr show ?thesis
    by (auto simp: msafe_def intro: frame_trans split: res.splits)
qed (use assms(2) in \<open>simp_all add: msafe_def\<close>)

lemma msafe_mono: "msafe A h r \<Longrightarrow> A \<subseteq> B \<Longrightarrow> msafe B h r"
  by (auto simp: msafe_def intro: frame_mono split: res.splits)

lemma msafe_store [msafe_intros]:
  "owns A h \<Longrightarrow> area p (length bs) \<subseteq> A \<Longrightarrow> msafe A h (upd (\<lambda>h. store h p bs) h)"
  using store_frame_area by (fastforce simp: upd_def msafe_def)

lemma msafe_store_word [msafe_intros]:
  "owns A h \<Longrightarrow> area p n \<subseteq> A \<Longrightarrow> msafe A h (upd (\<lambda>h. store_word h p n w) h)"
  using store_frame_area [of A h p "le_bytes n w"]
  by (auto simp: upd_def msafe_def store_word_def)

lemma msafe_store_bool [msafe_intros]:
  "owns A h \<Longrightarrow> area p 1 \<subseteq> A \<Longrightarrow> msafe A h (upd (\<lambda>h. store_bool h p b) h)"
  unfolding store_bool_def by (rule msafe_store_word)

lemma msafe_mem_set [msafe_intros]:
  "owns A h \<Longrightarrow> area p n \<subseteq> A \<Longrightarrow> msafe A h (mem_set p b n h)"
  unfolding mem_set_def by (rule msafe_store) simp_all

lemma msafe_load [msafe_intros]:
  "owns A h \<Longrightarrow> area p n \<subseteq> A \<Longrightarrow> msafe A h (ropt (load_word h p n) h)"
  using load_area [of A h p n] by (auto simp: msafe_def load_word_def)

lemma msafe_seq_loop:
  assumes "owns A h" and "\<And>i h. i \<in> set is \<Longrightarrow> owns A h \<Longrightarrow> msafe A h (body i h)"
  shows "msafe A h (seq_loop body is h)"
  using assms
proof (induction "is" arbitrary: h)
  case Nil
  then show ?case by (simp add: msafe_intros)
next
  case (Cons i "is")
  show ?case
    unfolding seq_loop.simps
    by (rule msafe_rbind [OF Cons.prems(1)]) (use Cons in auto)
qed

lemma msafe_release_items:
  assumes "owns A h" and "\<And>k h. k < n \<Longrightarrow> owns A h \<Longrightarrow> msafe A h (rel (p + k * step) h)"
  shows "msafe A h (release_items rel step n p h)"
  using assms
proof (induction n arbitrary: p h)
  case 0
  then show ?case by (simp add: msafe_intros)
next
  case (Suc n)
  have "msafe A h' (rel (p + step + k * step) h')" if "k < n" "owns A h'" for k h'
    using Suc.prems(2) [of "Suc k" h'] that by (simp add: add.assoc)
  then show ?case
    unfolding release_items.simps
    by (intro msafe_rbind [OF Suc.prems(1)] Suc.IH) (use Suc.prems(2) [of 0 h] Suc.prems(1) in auto)
qed

section \<open>The layout of a static message\<close>

text \<open>
  \<open>fits_value\<close>: a value of field \<open>f\<close> may be decoded at \<open>p\<close>; \<open>sub\<close> is the layout of submessages.
  \<open>fits_field\<close>: the members of the field, data at \<open>p\<close> and count, \<open>has_\<close> or \<open>which_\<close> at \<open>q\<close>, lie in
  the structure.
\<close>

definition fits_value ::
    "(nat \<Rightarrow> pb_field list option) \<Rightarrow> (pb_field list \<Rightarrow> nat \<Rightarrow> nat \<Rightarrow> bool) \<Rightarrow> pb_field \<Rightarrow> nat \<Rightarrow> bool" where
  "fits_value msgs sub f p \<longleftrightarrow> (let t = PB_LTYPE (ftype f); n = unat (data_size f) in
     t \<le> PB_LTYPE_FIXED_LENGTH_BYTES \<and> t \<noteq> PB_LTYPE_EXTENSION \<and>
     (t = PB_LTYPE_FIXED32 \<longrightarrow> 4 \<le> n) \<and> (t = PB_LTYPE_FIXED64 \<longrightarrow> 8 \<le> n) \<and>
     (t = PB_LTYPE_SUBMESSAGE \<longrightarrow> ptr f \<noteq> PtrNull \<and>
        (case sub_fields msgs f of None \<Rightarrow> False | Some fs \<Rightarrow> sub fs p n)))"

definition default_ok :: "pb_field \<Rightarrow> bool" where
  "default_ok f \<longleftrightarrow> (case ptr f of PtrNull \<Rightarrow> True | PtrDefault bs \<Rightarrow> unat (data_size f) \<le> length bs
     | PtrFields _ \<Rightarrow> PB_LTYPE (ftype f) = PB_LTYPE_SUBMESSAGE)"

definition inside :: "nat \<Rightarrow> nat \<Rightarrow> nat \<Rightarrow> nat \<Rightarrow> bool" where
  "inside base sz p n \<longleftrightarrow> base \<le> p \<and> p + n \<le> base + sz"

definition fits_field ::
    "(nat \<Rightarrow> pb_field list option) \<Rightarrow> (pb_field list \<Rightarrow> nat \<Rightarrow> nat \<Rightarrow> bool) \<Rightarrow> nat \<Rightarrow> nat \<Rightarrow>
     pb_field \<Rightarrow> nat \<Rightarrow> nat \<Rightarrow> bool" where
  "fits_field msgs sub base sz f p q \<longleftrightarrow> (let ht = PB_HTYPE (ftype f) in
     PB_ATYPE (ftype f) = PB_ATYPE_STATIC \<and> inside base sz p (prev_size f) \<and>
     (if ht = PB_HTYPE_REPEATED
      then inside base sz q 4 \<and> unat (data_size f) * unat (array_size f) < 2 ^ 32 \<and>
        list_all (\<lambda>k. fits_value msgs sub f (p + unat (data_size f) * k)) [0..<unat (array_size f)]
      else fits_value msgs sub f p \<and> default_ok f \<and>
        (ht = PB_HTYPE_OPTIONAL \<longrightarrow> q \<noteq> p \<longrightarrow> inside base sz q 1) \<and>
        (ht = PB_HTYPE_ONEOF \<longrightarrow> inside base sz q 4)) \<and>
     PB_LTYPE (ftype f) \<le> PB_LTYPE_FIXED_LENGTH_BYTES \<and> PB_LTYPE (ftype f) \<noteq> PB_LTYPE_EXTENSION)"

text \<open>A message of \<open>sz\<close> bytes at \<open>base\<close> with submessages nested less than \<open>k\<close> deep.\<close>

fun static_layout ::
    "(nat \<Rightarrow> pb_field list option) \<Rightarrow> nat \<Rightarrow> pb_field list \<Rightarrow> nat \<Rightarrow> nat \<Rightarrow> bool" where
  "static_layout msgs 0 fs base sz = False"
| "static_layout msgs (Suc k) fs base sz \<longleftrightarrow> list_all (\<lambda>f. tag f \<noteq> 0) fs \<and>
     list_all (\<lambda>i. fits_field msgs (static_layout msgs k) base sz (fs ! i)
       (field_addr fs base i) (size_addr fs base i)) [0..<length fs]"

section \<open>Setting defaults and releasing\<close>

lemma inside_area: "inside base sz p n \<Longrightarrow> area p n \<subseteq> area base sz"
  by (auto simp: inside_def area_def)

lemma fits_field_cases:
  assumes "fits_field msgs sub base sz f p q"
  shows "PB_ATYPE (ftype f) = PB_ATYPE_STATIC" "PB_LTYPE (ftype f) \<noteq> PB_LTYPE_EXTENSION"
    "PB_HTYPE (ftype f) \<noteq> PB_HTYPE_REPEATED \<Longrightarrow> area p (unat (data_size f)) \<subseteq> area base sz"
    "PB_HTYPE (ftype f) = PB_HTYPE_REPEATED \<Longrightarrow>
      area p (unat (data_size f) * unat (array_size f)) \<subseteq> area base sz"
    "PB_HTYPE (ftype f) \<in> {PB_HTYPE_REPEATED, PB_HTYPE_ONEOF} \<Longrightarrow> area q 4 \<subseteq> area base sz"
    "PB_HTYPE (ftype f) = PB_HTYPE_OPTIONAL \<Longrightarrow> q \<noteq> p \<Longrightarrow> area q 1 \<subseteq> area base sz"
  using assms inside_area [of base sz p "prev_size f"] inside_area [of base sz q]
  by (auto simp: fits_field_def Let_def prev_size_def split: if_splits)

lemma fits_field_value:
  assumes "fits_field msgs sub base sz f p q" and "PB_HTYPE (ftype f) \<noteq> PB_HTYPE_REPEATED"
  shows "fits_value msgs sub f p" "default_ok f"
  using assms by (simp_all add: fits_field_def Let_def split: if_splits)

lemma fits_field_item:
  assumes "fits_field msgs sub base sz f p q" and "PB_HTYPE (ftype f) = PB_HTYPE_REPEATED"
    and "k < array_size f"
  shows "fits_value msgs sub f (p + unat (data_size f * k))"
    and "area (p + unat (data_size f * k)) (unat (data_size f)) \<subseteq> area base sz"
proof -
  let ?n = "unat (data_size f)" and ?m = "unat (array_size f)"
  have k: "unat k < ?m" using assms(3) by (simp add: word_less_nat_alt)
  then have le: "?n * unat k + ?n \<le> ?n * ?m"
    by (metis Suc_leI add.commute mult_Suc_right mult_le_mono2)
  have small: "?n * ?m < 2 ^ 32"
    using assms(1,2) by (simp add: fits_field_def Let_def)
  then have eq: "unat (data_size f * k) = ?n * unat k"
    using le by (simp add: unat_word_ariths)
  show "fits_value msgs sub f (p + unat (data_size f * k))"
    using assms(1,2) k by (simp add: fits_field_def Let_def list_all_iff eq)
  show "area (p + unat (data_size f * k)) ?n \<subseteq> area base sz"
    using fits_field_cases(4) [OF assms(1,2)] le by (auto simp: eq area_sub)
qed

text \<open>
  The contract between a field operation and the operation on the submessages it calls: safe
  on every message of a given layout.
\<close>

locale static_op =
  fixes env :: mem_env
    and layout :: "pb_field list \<Rightarrow> nat \<Rightarrow> nat \<Rightarrow> bool"
    and op :: "pb_field list \<Rightarrow> nat \<Rightarrow> mem_op"
  assumes op_safe: "layout fs p n \<Longrightarrow> owns (area p n) h \<Longrightarrow> msafe (area p n) h (op fs p h)"
begin

lemma op_safe_in:
  assumes "layout fs p n" and "owns A h" and "area p n \<subseteq> A"
  shows "msafe A h (op fs p h)"
  using assms op_safe msafe_mono owns_mono by blast

lemma init_data_safe:
  assumes "fits_value (m_msgs env) layout f p" and "default_ok f"
    and "area p (unat (data_size f)) \<subseteq> A" and "owns A h"
  shows "msafe A h (init_data env op f p h)"
proof (cases "PB_LTYPE (ftype f) = PB_LTYPE_SUBMESSAGE")
  case True
  then obtain fs where "sub_fields (m_msgs env) f = Some fs" "layout fs p (unat (data_size f))"
    using assms(1) by (auto simp: fits_value_def Let_def split: option.splits)
  with True assms(3,4) show ?thesis by (simp add: init_data_def op_safe_in)
next
  case False
  then show ?thesis
    using assms
    by (auto simp: init_data_def default_ok_def copy_default_def min_absorb2 split: pb_ptr.splits
        intro!: msafe_intros)
qed

lemma field_default_safe:
  assumes fits: "fits_field (m_msgs env) layout base sz (cur iter) (pData iter) (pSize iter)"
    and "owns (area base sz) h"
  shows "msafe (area base sz) h (field_default env fuel rec op iter h)"
proof -
  have "msafe (area base sz) h' (init_data env op (cur iter) (pData iter) h')"
    if "owns (area base sz) h'" "PB_HTYPE (ftype (cur iter)) \<noteq> PB_HTYPE_REPEATED" for h'
    using init_data_safe fits_field_value [OF fits that(2)] fits_field_cases(3) [OF fits that(2)] that(1)
    by blast
  then show ?thesis
    using fits_field_cases [OF fits] assms(2)
    unfolding field_default_def Let_def
    by (auto intro!: msafe_rbind msafe_intros)
qed

text \<open>Releasing: there is nothing to free, the walk only follows the submessages.\<close>

lemma release_field_safe:
  assumes fits: "fits_field (m_msgs env) layout base sz (cur iter) (pData iter) (pSize iter)"
    and "owns (area base sz) h"
  shows "msafe (area base sz) h (release_field env fuel rec op iter h)"
proof -
  let ?f = "cur iter" and ?p = "pData iter"
  note cases = fits_field_cases [OF fits]
  have item: "msafe (area base sz) h' (case sub_fields (m_msgs env) ?f of None \<Rightarrow> UB | Some fs \<Rightarrow> op fs p h')"
    if "fits_value (m_msgs env) layout ?f p" "area p (unat (data_size ?f)) \<subseteq> area base sz"
      "PB_LTYPE (ftype ?f) = PB_LTYPE_SUBMESSAGE" "owns (area base sz) h'" for p h'
    using that op_safe_in by (auto simp: fits_value_def Let_def split: option.splits)
  have contents: "msafe (area base sz) h' (release_contents env fuel rec op iter h')"
    if own: "owns (area base sz) h'" for h'
  proof (cases "PB_LTYPE (ftype ?f) = PB_LTYPE_SUBMESSAGE")
    case sub: True
    show ?thesis
    proof (cases "PB_HTYPE (ftype ?f) = PB_HTYPE_REPEATED")
      case True
      obtain w where "load32 h' (pSize iter) = Some w"
        using load_word_area [OF own cases(5)] True by auto
      then obtain n where n: "release_count iter h' = Some n" "n \<le> array_size ?f"
        using cases(1) True
        by (cases "pSize iter = pData iter"; cases "array_size ?f < w")
          (auto simp: release_count_def Let_def not_less)
      have "msafe (area base sz) h'' (case sub_fields (m_msgs env) ?f of
          None \<Rightarrow> UB | Some fs \<Rightarrow> op fs (?p + k * unat (data_size ?f)) h'')"
        if "k < unat n" "owns (area base sz) h''" for k h''
      proof -
        have lt: "k < unat (array_size ?f)" using that(1) n(2) by (simp add: word_le_nat_alt)
        then have u: "unat (of_nat k :: u32) = k"
          using unsigned_less [of "array_size ?f", where 'a = nat] by (simp add: unat_of_nat)
        then have k: "of_nat k < array_size ?f" using lt by (simp add: word_less_nat_alt)
        have "unat (data_size ?f) * k \<le> unat (data_size ?f) * unat (array_size ?f)" using lt by simp
        also have "\<dots> < 2 ^ 32" using fits True by (simp add: fits_field_def Let_def)
        finally have kk: "unat (data_size ?f * of_nat k) = k * unat (data_size ?f)"
          by (simp add: unat_word_ariths u mult.commute)
        show ?thesis
          using fits_field_item [OF fits True k] item [OF _ _ sub that(2)] by (simp add: kk)
      qed
      then show ?thesis
        using cases(1) sub n own
        by (auto simp: release_contents_def Let_def intro!: msafe_release_items msafe_Ok)
    next
      case False
      then show ?thesis
        using cases(1) sub own item [OF fits_field_value(1) [OF fits False] cases(3) [OF False] sub]
        by (auto simp: release_contents_def Let_def release_count_def
            intro!: msafe_rbind msafe_release_items msafe_Ok)
    qed
  qed (use cases(2) in \<open>simp add: release_contents_def Let_def msafe_Ok\<close>)
  moreover have "release_pointer iter h' = Ok () h'" for h'
    using cases(1) by (simp add: release_pointer_def Let_def)
  ultimately show ?thesis
    using cases(5) assms(2) unfolding release_field_def Let_def
    by (auto intro!: msafe_rbind msafe_intros)
qed

end

text \<open>A walk over the fields of a static message, with a safe step for every field.\<close>

lemma for_each_field_safe:
  assumes "static_layout msgs (Suc k) fs base sz" and "owns (area base sz) h"
    and "\<And>iter h. owns (area base sz) h \<Longrightarrow>
      fits_field msgs (static_layout msgs k) base sz (cur iter) (pData iter) (pSize iter) \<Longrightarrow>
      msafe (area base sz) h (body iter h)"
  shows "msafe (area base sz) h (for_each_field fs base body h)"
proof -
  have wf: "fields_wf fs" using assms(1) by (simp add: fields_wf_def list_all_iff)
  have "fits_field msgs (static_layout msgs k) base sz (cur (iter_at fs base i))
      (pData (iter_at fs base i)) (pSize (iter_at fs base i))" if "i < length fs" for i
    using assms(1) that by (simp add: list_all_iff iter_at_def cur_def field_at_def)
  then show ?thesis
    unfolding for_each_field_seq [OF wf] by (intro msafe_seq_loop assms(2,3)) simp_all
qed

interpretation defaults: static_op env "static_layout (m_msgs env) k" "pb_message_set_to_defaults env (2 * k + j)"
proof (induction k arbitrary: j)
  case 0
  show ?case by unfold_locales simp
next
  case (Suc k)
  show ?case
  proof
    fix fs p n h
    assume l: "static_layout (m_msgs env) (Suc k) fs p n" and own: "owns (area p n) h"
    show "msafe (area p n) h (pb_message_set_to_defaults env (2 * Suc k + j) fs p h)"
      using for_each_field_safe [OF l own] static_op.field_default_safe [OF Suc]
      by (simp add: msafe_def)
  qed
qed

interpretation release: static_op env "static_layout (m_msgs env) k" "pb_release env (2 * k + j)"
proof (induction k arbitrary: j)
  case 0
  show ?case by unfold_locales simp
next
  case (Suc k)
  show ?case
  proof
    fix fs p n h
    assume l: "static_layout (m_msgs env) (Suc k) fs p n" and own: "owns (area p n) h"
    show "msafe (area p n) h (pb_release env (2 * Suc k + j) fs p h)"
      using for_each_field_safe [OF l own] static_op.release_field_safe [OF Suc]
      by (simp add: msafe_Ok)
  qed
qed

end
