(* ===== verification/Pb_Reader.thy ===== *)
theory Pb_Reader
  imports Pb_Istream
begin

text \<open>
  The readers of \<open>pb_decode.c\<close> on a buffer stream: whatever the bytes are, every primitive
  terminates, reads only inside the bytes the stream may read, and leaves the stream in a
  state where that still holds.
\<close>

section \<open>Readers stay inside the buffer\<close>

definition istream_ok :: "'u istream \<Rightarrow> bool" where
  "istream_ok s \<longleftrightarrow> (case src s of IBuf bs \<Rightarrow> bytes_left s \<le> length bs | IUser _ _ \<Rightarrow> False)"

text \<open>\<open>s'\<close> is \<open>s\<close> after reading \<open>k\<close> of the bytes it may read.\<close>

definition adv :: "'u istream \<Rightarrow> 'u istream \<Rightarrow> bool" where
  "adv s s' \<longleftrightarrow> (\<exists>k bs. src s = IBuf bs \<and> k \<le> bytes_left s \<and>
     src s' = IBuf (drop k bs) \<and> bytes_left s' = bytes_left s - k)"

definition reads_ok :: "'u istream \<Rightarrow> ('a, 'u istream) res \<Rightarrow> bool" where
  "reads_ok s r \<longleftrightarrow> (case r of Ok x s' \<Rightarrow> adv s s' | Fail s' \<Rightarrow> adv s s' | UB \<Rightarrow> False | NoFuel \<Rightarrow> False)"

lemma adv_refl: "istream_ok s \<Longrightarrow> adv s s"
  by (auto simp: adv_def istream_ok_def split: source.splits intro!: exI [of _ 0])

lemma adv_trans: "adv s t \<Longrightarrow> adv t u \<Longrightarrow> adv s u"
proof -
  assume "adv s t" "adv t u"
  then obtain k l bs where "src s = IBuf bs" "k \<le> bytes_left s" "l \<le> bytes_left s - k"
    "src u = IBuf (drop l (drop k bs))" "bytes_left u = bytes_left s - k - l"
    by (auto simp: adv_def)
  then show "adv s u" unfolding adv_def
    by (intro exI [of _ "k + l"] exI [of _ bs]) (auto simp: add.commute)
qed

lemma adv_istream_ok: "istream_ok s \<Longrightarrow> adv s t \<Longrightarrow> istream_ok t"
  by (auto simp: adv_def istream_ok_def)

lemma adv_bytes_left: "adv s t \<Longrightarrow> bytes_left t \<le> bytes_left s"
  by (auto simp: adv_def)

lemma adv_set_error [simp]: "adv s (set_error t m) = adv s t"
  by (simp add: adv_def)

named_theorems reads_intros

lemma reads_ok_Ok [reads_intros]: "istream_ok s \<Longrightarrow> reads_ok s (Ok x s)"
  by (simp add: reads_ok_def adv_refl)

lemma reads_ok_error [reads_intros]: "istream_ok s \<Longrightarrow> reads_ok s (return_error s m)"
  by (simp add: reads_ok_def return_error_def adv_refl)

lemma reads_ok_trans: "adv s t \<Longrightarrow> reads_ok t r \<Longrightarrow> reads_ok s r"
  by (auto simp: reads_ok_def split: res.splits intro: adv_trans)

text \<open>The step of every proof: a sequence reads safely if its parts do.\<close>

lemma reads_ok_rbind [reads_intros]:
  assumes "istream_ok s" and "reads_ok s m"
    and "\<And>x t. m = Ok x t \<Longrightarrow> istream_ok t \<Longrightarrow> reads_ok t (f x t)"
  shows "reads_ok s (rbind m f)"
  using assms by (cases m) (auto simp: reads_ok_def [of _ "Ok _ _"] reads_ok_def [of _ "Fail _"]
      reads_ok_def [of _ UB] reads_ok_def [of _ NoFuel] intro: reads_ok_trans adv_istream_ok)

lemma pb_read_checked_ok [reads_intros]:
  "istream_ok s \<Longrightarrow> reads_ok s (pb_read_checked s n)"
proof (cases "bytes_left s < n")
  case True
  then show "istream_ok s \<Longrightarrow> ?thesis"
    by (simp add: pb_read_checked_def reads_ok_error)
next
  case False
  then show "istream_ok s \<Longrightarrow> ?thesis"
    by (auto simp: istream_ok_def pb_read_checked_def is_callback_def buf_read_def
        reads_ok_def adv_def split: source.splits intro!: exI [of _ n])
qed

lemma pb_read_ok [reads_intros]: "istream_ok s \<Longrightarrow> reads_ok s (pb_read s null n)"
  by (auto simp: pb_read_def is_buffer_def istream_ok_def split: source.splits
      intro: pb_read_checked_ok [unfolded istream_ok_def])

lemma pb_read_length:
  "istream_ok s \<Longrightarrow> pb_read s null n = Ok d t \<Longrightarrow> length d = n \<and> bytes_left t = bytes_left s - n"
  by (auto simp: pb_read_def is_buffer_def istream_ok_def pb_read_checked_def return_error_def
      is_callback_def buf_read_def split: source.splits if_splits)

lemma pb_read_not_Nil [simp]: "istream_ok s \<Longrightarrow> pb_read s null (Suc n) \<noteq> Ok [] t"
  by (auto dest: pb_read_length)

lemma pb_readbyte_ok [reads_intros]: "istream_ok s \<Longrightarrow> reads_ok s (pb_readbyte s)"
  by (auto simp: istream_ok_def pb_readbyte_def return_error_def is_callback_def buf_read_def
      reads_ok_def adv_def split: source.splits list.splits intro!: exI [of _ 0] exI [of _ 1])

lemma varint32_loop_ok [reads_intros]:
  "istream_ok s \<Longrightarrow> reads_ok s (varint32_loop s result bitpos)"
proof (induction s result bitpos rule: varint32_loop.induct)
  case (1 s result bitpos)
  show ?case
    by (subst varint32_loop.simps)
      (use 1 in \<open>auto intro!: reads_intros split: option.split\<close>)
qed

lemma pb_decode_varint32_eof_ok: "istream_ok s \<Longrightarrow> reads_ok s (snd (pb_decode_varint32_eof s))"
proof -
  assume ok: "istream_ok s"
  have "reads_ok s (rbind (pb_readbyte s) (\<lambda>b s1.
       if b AND 0x80 = 0 then Ok (ucast b) s1
       else rbind (varint32_loop s1 (ucast (b AND 0x7F)) 7) varint32_check))"
    using ok by (auto intro!: reads_intros simp: varint32_check_def split: prod.splits)
  then show ?thesis
    by (cases "pb_readbyte s") (simp_all add: pb_decode_varint32_eof_def)
qed

lemma pb_decode_varint32_ok [reads_intros]:
  "istream_ok s \<Longrightarrow> reads_ok s (pb_decode_varint32 s)"
  by (simp add: pb_decode_varint32_def pb_decode_varint32_eof_ok)

lemma varint_loop_ok [reads_intros]:
  "istream_ok s \<Longrightarrow> reads_ok s (varint_loop s result bitpos)"
proof (induction s result bitpos rule: varint_loop.induct)
  case (1 s result bitpos)
  show ?case
    by (subst varint_loop.simps) (use 1 in \<open>auto intro!: reads_intros simp: Let_def\<close>)
qed

lemma pb_decode_varint_ok [reads_intros]: "istream_ok s \<Longrightarrow> reads_ok s (pb_decode_varint s)"
  by (simp add: pb_decode_varint_def varint_loop_ok)

lemma pb_decode_svarint_ok [reads_intros]: "istream_ok s \<Longrightarrow> reads_ok s (pb_decode_svarint s)"
  unfolding pb_decode_svarint_def by (intro reads_intros)

lemma pb_skip_varint_ok [reads_intros]: "istream_ok s \<Longrightarrow> reads_ok s (pb_skip_varint s)"
proof (induction s rule: pb_skip_varint.induct)
  case (1 s)
  show ?case
    by (subst pb_skip_varint.simps)
      (use 1 in \<open>auto intro!: reads_intros split: list.split\<close>)
qed

lemma pb_skip_string_ok [reads_intros]: "istream_ok s \<Longrightarrow> reads_ok s (pb_skip_string s)"
  unfolding pb_skip_string_def by (intro reads_intros)

lemma pb_skip_field_ok [reads_intros]: "istream_ok s \<Longrightarrow> reads_ok s (pb_skip_field s wt)"
  unfolding pb_skip_field_def by (auto intro!: reads_intros)

lemma pb_decode_tag_ok: "istream_ok s \<Longrightarrow> reads_ok s (snd (pb_decode_tag s))"
  using pb_decode_varint32_eof_ok [of s]
  by (auto simp: pb_decode_tag_def reads_ok_def split: prod.splits res.splits)

lemma read_raw_varint_ok [reads_intros]: "istream_ok s \<Longrightarrow> reads_ok s (read_raw_varint n s)"
proof (induction n arbitrary: s)
  case 0
  then show ?case by (simp add: reads_ok_def adv_refl)
next
  case (Suc n)
  then show ?case
    by (auto intro!: reads_intros split: list.split)
qed

lemma read_raw_value_ok [reads_intros]: "istream_ok s \<Longrightarrow> reads_ok s (read_raw_value s wt n)"
  unfolding read_raw_value_def by (auto intro!: reads_intros)

lemma length_4: "length d = 4 \<longleftrightarrow> (\<exists>a b c e. d = [a, b, c, e])"
  by (auto simp: length_Suc_conv numeral_eq_Suc)

lemma length_8: "length d = 8 \<longleftrightarrow> (\<exists>a b c e f g h i. d = [a, b, c, e, f, g, h, i])"
  by (auto simp: length_Suc_conv numeral_eq_Suc)

lemma pb_decode_fixed32_ok [reads_intros]: "istream_ok s \<Longrightarrow> reads_ok s (pb_decode_fixed32 s)"
  unfolding pb_decode_fixed32_def
  by (rule reads_ok_rbind, assumption, rule reads_intros, assumption)
    (frule (1) pb_read_length, auto simp: length_4 intro: reads_intros)

lemma pb_decode_fixed64_ok [reads_intros]: "istream_ok s \<Longrightarrow> reads_ok s (pb_decode_fixed64 s)"
  unfolding pb_decode_fixed64_def
  by (rule reads_ok_rbind, assumption, rule reads_intros, assumption)
    (frule (1) pb_read_length, auto simp: length_8 intro: reads_intros)

section \<open>Substreams\<close>

lemma pb_make_string_substream_ok:
  assumes "istream_ok s"
  shows "case pb_make_string_substream s of
      Ok sub par \<Rightarrow> istream_ok sub \<and> istream_ok par \<and> src sub = src par \<and>
        (\<exists>t. adv s t \<and> src t = src par \<and> bytes_left sub + bytes_left par = bytes_left t)
    | Fail t \<Rightarrow> adv s t
    | _ \<Rightarrow> False"
proof -
  have "reads_ok s (pb_decode_varint32 s)" using assms by (rule reads_intros)
  then show ?thesis
    using assms
    by (cases "pb_decode_varint32 s")
      (force simp: pb_make_string_substream_def reads_ok_def return_error_def istream_ok_def
        adv_def split: source.splits)+
qed
text \<open>
  Closing a substream leaves the parent right behind the string, whatever part of it was
  read.
\<close>

lemma pb_close_string_substream_ok:
  assumes "src par = IBuf bs" and "istream_ok sub0" and "src sub0 = IBuf bs" and "adv sub0 sub"
  shows "pb_close_string_substream par sub =
    Ok () (par\<lparr>src := IBuf (drop (bytes_left sub0) bs), errmsg := errmsg sub\<rparr>)"
proof -
  obtain k where k: "k \<le> bytes_left sub0" "src sub = IBuf (drop k bs)" "bytes_left sub = bytes_left sub0 - k"
    using assms(3,4) by (auto simp: adv_def)
  moreover have "bytes_left sub0 \<le> length bs" using assms(2,3) by (simp add: istream_ok_def)
  ultimately show ?thesis
    by (auto simp: pb_close_string_substream_def pb_read_def is_buffer_def pb_read_checked_def
        is_callback_def buf_read_def Let_def)
qed

section \<open>Properties\<close>

text \<open>C5: on a buffer stream whose \<open>bytes_left\<close> does not exceed the buffer, every reader ends,
  never reads outside the buffer, and leaves a stream of the same kind that has moved forward by
  some number of the bytes it was allowed to read, whether it succeeds or fails.\<close>

theorem readers_stay_in_buffer:
  assumes "istream_ok s"
  shows "reads_ok s (pb_read s null n) \<and> reads_ok s (pb_decode_varint s) \<and>
    reads_ok s (pb_decode_varint32 s) \<and> reads_ok s (pb_decode_svarint s) \<and>
    reads_ok s (pb_decode_fixed32 s) \<and> reads_ok s (pb_decode_fixed64 s) \<and>
    reads_ok s (snd (pb_decode_tag s)) \<and> reads_ok s (pb_skip_field s wt) \<and>
    reads_ok s (read_raw_value s wt n)"
  using assms by (intro conjI reads_intros pb_decode_tag_ok)

theorem readers_stay_in_buffer_witness:
  "reads_ok (pb_istream_from_buffer [0xFF, 0x01] 2 :: unit istream)
     (pb_decode_varint (pb_istream_from_buffer [0xFF, 0x01] 2))"
  using readers_stay_in_buffer [of "pb_istream_from_buffer [0xFF, 0x01] 2 :: unit istream"]
  by (simp add: istream_ok_def pb_istream_from_buffer_def)

text \<open>C6: a length-delimited field is framed. When a length \<open>len\<close> can be read and the stream has as many bytes behind it,
  \<open>pb_make_string_substream\<close> returns a substream of exactly these bytes and takes exactly them from the parent. Whatever part of
  them the reader of the substream took, \<open>pb_close_string_substream\<close> puts the parent right behind the string, and nothing
  else of the parent changes. A length beyond the end of the parent, or none, is an error.\<close>

theorem substream_framing:
  assumes "istream_ok s"
  shows "case pb_decode_varint32 s of
      Ok len t \<Rightarrow> adv s t \<and>
        (if bytes_left t < unat len then \<exists>t'. pb_make_string_substream s = Fail t' \<and> adv s t'
         else \<exists>sub par bs. pb_make_string_substream s = Ok sub par \<and> src t = IBuf bs \<and>
           sub = t\<lparr>bytes_left := unat len\<rparr> \<and> bytes_left t = unat len + bytes_left par \<and> unat len \<le> length bs \<and>
           (\<forall>sub'. adv sub sub' \<longrightarrow> pb_close_string_substream par sub' =
             Ok () (t\<lparr>src := IBuf (drop (unat len) bs), bytes_left := bytes_left t - unat len, errmsg := errmsg sub'\<rparr>)))
    | Fail t \<Rightarrow> pb_make_string_substream s = Fail t \<and> adv s t
    | _ \<Rightarrow> False"
proof -
  have reads: "reads_ok s (pb_decode_varint32 s)" using assms by (rule reads_intros)
  show ?thesis
  proof (cases "pb_decode_varint32 s")
    case (Ok len t)
    then have t: "adv s t" "istream_ok t" using reads adv_istream_ok [OF assms] by (simp_all add: reads_ok_def)
    then obtain bs where bs: "src t = IBuf bs" "bytes_left t \<le> length bs"
      by (auto simp: istream_ok_def split: source.splits)
    show ?thesis
    proof (cases "bytes_left t < unat len")
      case True
      then show ?thesis
        using pb_make_string_substream_ok [OF assms] Ok t by (simp add: pb_make_string_substream_def return_error_def)
    next
      case False
      let ?sub = "t\<lparr>bytes_left := unat len\<rparr>" and ?par = "t\<lparr>bytes_left := bytes_left t - unat len\<rparr>"
      have "istream_ok ?sub" using bs False by (simp add: istream_ok_def)
      then have "pb_close_string_substream ?par sub' =
          Ok () (t\<lparr>src := IBuf (drop (unat len) bs), bytes_left := bytes_left t - unat len, errmsg := errmsg sub'\<rparr>)"
        if "adv ?sub sub'" for sub'
        using pb_close_string_substream_ok [of ?par bs ?sub sub'] bs that by simp
      moreover have "pb_make_string_substream s = Ok ?sub ?par" using Ok False by (simp add: pb_make_string_substream_def)
      moreover have "bytes_left t = unat len + bytes_left ?par" "unat len \<le> length bs" using False bs(2) by simp_all
      ultimately show ?thesis using Ok False t(1) bs(1) by auto
    qed
  qed (use reads in \<open>simp_all add: reads_ok_def pb_make_string_substream_def\<close>)
qed

theorem substream_framing_witness:
  "\<exists>sub par. pb_make_string_substream (pb_istream_from_buffer [2, 10, 11, 12] 4 :: unit istream) = Ok sub par \<and>
     bytes_left sub = 2 \<and> pb_close_string_substream par sub = Ok () (pb_istream_from_buffer [12] 1)"
proof -
  let ?s = "pb_istream_from_buffer [2, 10, 11, 12] 4 :: unit istream"
  have len: "pb_decode_varint32 ?s = Ok 2 (pb_istream_from_buffer [10, 11, 12] 3)"
    by (simp add: pb_decode_varint32_def pb_decode_varint32_eof_def pb_readbyte_def is_callback_def buf_read_def pb_istream_from_buffer_def)
  have "istream_ok ?s" by (simp add: istream_ok_def pb_istream_from_buffer_def)
  from substream_framing [OF this] obtain sub par where
    made: "pb_make_string_substream ?s = Ok sub par" and sub: "sub = (pb_istream_from_buffer [10, 11, 12] 3)\<lparr>bytes_left := 2\<rparr>"
    and close: "\<forall>sub'. adv sub sub' \<longrightarrow> pb_close_string_substream par sub' =
      Ok () ((pb_istream_from_buffer [10, 11, 12] 3)\<lparr>src := IBuf [12], bytes_left := 1, errmsg := errmsg sub'\<rparr>)"
    unfolding len by (auto simp: pb_istream_from_buffer_def)
  have "istream_ok sub" by (simp add: sub istream_ok_def pb_istream_from_buffer_def)
  then have "pb_close_string_substream par sub =
      Ok () ((pb_istream_from_buffer [10, 11, 12] 3)\<lparr>src := IBuf [12], bytes_left := 1, errmsg := errmsg sub\<rparr>)"
    using close adv_refl by blast
  then show ?thesis using made by (auto simp: sub pb_istream_from_buffer_def)
qed

end
