(* ===== verification/Pb_Decode_Safe.thy ===== *)
theory Pb_Decode_Safe
  imports Pb_Decode Pb_Safe_Mem Pb_Reader
begin

text \<open>
  Safety of the decoder on untrusted input: decoding any bytes into a message of static fields
  ends, never reads outside the input buffer and never touches memory outside the structure.
\<close>

section \<open>Safe steps of the decoder\<close>

text \<open>
  \<open>wadv\<close> is \<open>adv\<close> without the exact count: a function that fails between splitting off a
  substream and closing it leaves bytes of the parent unaccounted for.
\<close>

definition wadv :: "'u istream \<Rightarrow> 'u istream \<Rightarrow> bool" where
  "wadv s s' \<longleftrightarrow> (\<exists>k bs. src s = IBuf bs \<and> src s' = IBuf (drop k bs) \<and>
     k + bytes_left s' \<le> bytes_left s)"

definition ok :: "nat set \<Rightarrow> 'u dstate \<Rightarrow> bool" where
  "ok A d \<longleftrightarrow> istream_ok (fst d) \<and> owns A (snd d) \<and> finite (dom (bytes (snd d)))"

definition moves :: "nat set \<Rightarrow> 'u dstate \<Rightarrow> 'u dstate \<Rightarrow> bool" where
  "moves A d d' \<longleftrightarrow> wadv (fst d) (fst d') \<and> frame A (snd d) (snd d')"

definition safe :: "nat set \<Rightarrow> 'u dstate \<Rightarrow> ('a, 'u dstate) res \<Rightarrow> bool" where
  "safe A d r \<longleftrightarrow> (case r of Ok _ d' \<Rightarrow> moves A d d' | Fail d' \<Rightarrow> moves A d d' | _ \<Rightarrow> False)"

lemma safe_simps [simp]:
  "safe A d (Ok x d') = moves A d d'" "safe A d (Fail d') = moves A d d'"
  "\<not> safe A d UB" "\<not> safe A d NoFuel"
  by (simp_all add: safe_def)

lemma d_error_simps [simp]:
  "d_error m d \<noteq> Ok x d'" "d_error m d \<noteq> UB" "d_error m d \<noteq> NoFuel"
  by (cases d; simp add: d_error_def)+

named_theorems safe_intros

lemma adv_wadv: "adv s s' \<Longrightarrow> wadv s s'"
  unfolding adv_def wadv_def by fastforce

lemma wadv_refl: "istream_ok s \<Longrightarrow> wadv s s"
  by (simp add: adv_refl adv_wadv)

lemma wadv_trans: "wadv s t \<Longrightarrow> wadv t u \<Longrightarrow> wadv s u"
  unfolding wadv_def by (elim exE conjE) (rule exI, rule exI, auto simp: add.commute)

lemma wadv_ok: "istream_ok s \<Longrightarrow> wadv s t \<Longrightarrow> istream_ok t"
  by (auto simp: wadv_def istream_ok_def)

lemma wadv_set_error [simp]: "wadv s (set_error t m) = wadv s t"
  by (simp add: wadv_def)

lemma wadv_left: "wadv s t \<Longrightarrow> bytes_left t \<le> bytes_left s"
  by (auto simp: wadv_def)

lemma moves_refl [simp]: "ok A d \<Longrightarrow> moves A d d"
  by (simp add: moves_def ok_def wadv_refl)

lemma moves_trans: "moves A d d' \<Longrightarrow> moves A d' d'' \<Longrightarrow> moves A d d''"
  by (auto simp: moves_def intro: wadv_trans frame_trans)

lemma frame_dom: "frame A h h' \<Longrightarrow> dom (bytes h') = dom (bytes h)"
  by (auto simp: frame_def dom_def)

lemma moves_ok: "ok A d \<Longrightarrow> moves B d d' \<Longrightarrow> ok A d'"
  by (auto simp: moves_def ok_def frame_dom intro: wadv_ok owns_frame)

lemma moves_left: "moves A d d' \<Longrightarrow> bytes_left (fst d') \<le> bytes_left (fst d)"
  by (simp add: moves_def wadv_left)

lemma safe_trans: "moves A d d' \<Longrightarrow> safe A d' r \<Longrightarrow> safe A d r"
  by (cases r) (auto intro: moves_trans)

lemma safe_Ok [safe_intros]: "ok A d \<Longrightarrow> safe A d (Ok x d)"
  by simp

lemma safe_Fail [safe_intros]: "ok A d \<Longrightarrow> safe A d (Fail d)"
  by simp

lemma safe_error [safe_intros]: "ok A d \<Longrightarrow> safe A d (d_error m d)"
  by (cases d) (simp add: d_error_def moves_def ok_def wadv_refl)

lemma safe_rbind [safe_intros]:
  assumes "ok A d" and "safe A d m"
    and "\<And>x d'. m = Ok x d' \<Longrightarrow> moves A d d' \<Longrightarrow> ok A d' \<Longrightarrow> safe A d' (f x d')"
  shows "safe A d (rbind m f)"
  using assms by (cases m) (auto intro: safe_trans moves_ok)

lemma safe_on_stream [safe_intros]:
  "ok A d \<Longrightarrow> reads_ok (fst d) (f (fst d)) \<Longrightarrow> safe A d (on_stream f d)"
  by (cases d; cases "f (fst d)")
    (auto simp: on_stream_def reads_ok_def moves_def adv_wadv)

lemma safe_on_mem [safe_intros]:
  "ok A d \<Longrightarrow> msafe A (snd d) (f (snd d)) \<Longrightarrow> safe A d (on_mem f d)"
  by (cases d; cases "f (snd d)")
    (auto simp: on_mem_def msafe_def moves_def ok_def wadv_refl)

lemma safe_poke_store [safe_intros]:
  "ok A d \<Longrightarrow> area p (length bs) \<subseteq> A \<Longrightarrow> safe A d (poke (\<lambda>h. store h p bs) d)"
  unfolding poke_def by (intro safe_on_mem msafe_store) (simp_all add: ok_def)

lemma safe_poke_word [safe_intros]:
  "ok A d \<Longrightarrow> area p n \<subseteq> A \<Longrightarrow> safe A d (poke (\<lambda>h. store_word h p n w) d)"
  unfolding poke_def by (intro safe_on_mem msafe_store_word) (simp_all add: ok_def)

lemma safe_poke_bool [safe_intros]:
  "ok A d \<Longrightarrow> area p 1 \<subseteq> A \<Longrightarrow> safe A d (poke (\<lambda>h. store_bool h p b) d)"
  unfolding poke_def by (intro safe_on_mem msafe_store_bool) (simp_all add: ok_def)

lemma safe_peek_word [safe_intros]:
  assumes "ok A d" and "area p n \<subseteq> A"
  shows "safe A d (peek (\<lambda>h. load_word h p n :: 'b::len word option) d)"
proof (cases d)
  case (Pair s h)
  obtain w where "load_word h p n = Some (w :: 'b word)"
    using load_word_area [of A h p n] assms Pair by (auto simp: ok_def)
  with assms(1) Pair show ?thesis by (simp add: peek_def)
qed

lemma safe_mono: "safe A d r \<Longrightarrow> A \<subseteq> B \<Longrightarrow> safe B d r"
  by (cases r) (auto simp: moves_def intro: frame_mono)

lemma ok_mono: "ok B d \<Longrightarrow> A \<subseteq> B \<Longrightarrow> ok A d"
  by (auto simp: ok_def intro: owns_mono)

lemma safe_read_into [safe_intros]:
  assumes "ok A d" and "area p n \<subseteq> A"
  shows "safe A d (read_into p n d)"
  unfolding read_into_def
proof (rule safe_rbind [OF assms(1)])
  show "safe A d (on_stream (\<lambda>s. pb_read s False n) d)"
    using assms(1) by (intro safe_intros reads_intros) (simp_all add: ok_def)
next
  fix data d'
  assume r: "on_stream (\<lambda>s. pb_read s False n) d = Ok data d'" and "ok A d'"
  have "length data = n"
    using r assms(1) by (cases d) (auto simp: on_stream_def rmap_iffs ok_def dest: pb_read_length)
  with \<open>ok A d'\<close> assms(2) show "safe A d' (poke (\<lambda>h. store h p data) d')"
    by (intro safe_intros) simp_all
qed

section \<open>Substreams\<close>

text \<open>\<open>s\<close> has been split into a substream and the parent behind it.\<close>

definition split_off :: "'u istream \<Rightarrow> 'u istream \<Rightarrow> 'u istream \<Rightarrow> bool" where
  "split_off s sub par \<longleftrightarrow> (\<exists>k bs. src s = IBuf bs \<and> src sub = IBuf (drop k bs) \<and>
     src par = IBuf (drop k bs) \<and> k + bytes_left sub + bytes_left par \<le> bytes_left s)"

lemma split_off_wadv:
  assumes "split_off s sub par"
  shows "wadv s par" "wadv s sub"
proof -
  obtain k bs where "src s = IBuf bs" "src sub = IBuf (drop k bs)"
     "src par = IBuf (drop k bs)" "k + bytes_left sub + bytes_left par \<le> bytes_left s"
    using assms by (auto simp: split_off_def)
  then show "wadv s par" "wadv s sub" by (auto simp: wadv_def intro!: exI [of _ k])
qed

lemma split_off_errmsg [simp]: "split_off s sub (par\<lparr>errmsg := m\<rparr>) = split_off s sub par"
  by (simp add: split_off_def)

lemma make_sub_safe:
  assumes "ok A (s, h)"
    and "\<And>sub par. split_off s sub par \<Longrightarrow> istream_ok sub \<Longrightarrow> istream_ok par \<Longrightarrow> safe A (s, h) (f sub (par, h))"
  shows "safe A (s, h) (rbind (make_sub (s, h)) f)"
proof -
  have s: "istream_ok s" using assms(1) by (simp add: ok_def)
  show ?thesis
  proof (cases "pb_make_string_substream s")
    case (Ok sub par)
    then obtain t where t: "adv s t" "src t = src par" "src sub = src par"
      "bytes_left sub + bytes_left par = bytes_left t" "istream_ok sub" "istream_ok par"
      using pb_make_string_substream_ok [OF s] by auto
    obtain k bs where "k \<le> bytes_left s" "src s = IBuf bs" "src t = IBuf (drop k bs)"
      "bytes_left t = bytes_left s - k"
      using t(1) by (auto simp: adv_def)
    then have "split_off s sub par"
      using t(2-4) by (auto simp: split_off_def intro!: exI [of _ k])
    then show ?thesis
      using assms(2) [of sub par] t Ok by (simp add: make_sub_def on_stream_def)
  next
    case (Fail par)
    then have "adv s par" using pb_make_string_substream_ok [OF s] by simp
    with Fail show ?thesis by (simp add: make_sub_def on_stream_def moves_def adv_wadv)
  qed (use pb_make_string_substream_ok [OF s] in simp_all)
qed

lemma close_sub_safe:
  assumes "split_off s sub par" and "istream_ok s" and "wadv sub sub1" and "frame A h h1"
  shows "safe A (s, h) (close_sub status sub1 (par, h1))"
proof -
  obtain k bs where s: "src s = IBuf bs" "src sub = IBuf (drop k bs)" "src par = IBuf (drop k bs)"
    "k + bytes_left sub + bytes_left par \<le> bytes_left s"
    using assms(1) by (auto simp: split_off_def)
  obtain i where i: "src sub1 = IBuf (drop (i + k) bs)" "i + bytes_left sub1 \<le> bytes_left sub"
    using assms(3) s(2) by (auto simp: wadv_def add.commute)
  have "bytes_left s \<le> length bs" using assms(2) s(1) by (simp add: istream_ok_def)
  then have "bytes_left sub1 \<le> length (drop (i + k) bs)" using s(4) i(2) by simp
  then have "\<exists>j. pb_close_string_substream par sub1 =
      Ok () (par\<lparr>src := IBuf (drop j bs), errmsg := errmsg sub1\<rparr>) \<and> j \<le> i + k + bytes_left sub1"
    using i(1) by (auto simp: pb_close_string_substream_def pb_read_def is_buffer_def
        pb_read_checked_def is_callback_def buf_read_def Let_def add.commute
        intro!: exI [of _ "i + k + bytes_left sub1"])
  then obtain j where "pb_close_string_substream par sub1 =
      Ok () (par\<lparr>src := IBuf (drop j bs), errmsg := errmsg sub1\<rparr>)" "j \<le> i + k + bytes_left sub1"
    by blast
  moreover have "wadv s (par\<lparr>src := IBuf (drop j bs), errmsg := errmsg sub1\<rparr>)"
    if "j \<le> i + k + bytes_left sub1"
    using that s i(2) by (auto simp: wadv_def intro!: exI [of _ j])
  ultimately show ?thesis
    using assms(4) by (cases status) (simp_all add: close_sub_def on_stream_def moves_def)
qed

section \<open>Values\<close>

lemma store_checked_safe [safe_intros]:
  assumes "ok A d" and "area p (unat sz) \<subseteq> A"
  shows "safe A d (store_checked sg sz p v d)"
  using assms unfolding store_checked_def store_clamped_def
  by (auto intro!: safe_intros)

lemma store_clamped_left:
  "store_clamped sg sz p v d = Ok x d' \<Longrightarrow> fst d' = fst d"
  by (cases d) (auto simp: store_clamped_def poke_def on_mem_def d_error_def rbind_Ok_iff rmap_iffs
      split: if_splits)

lemma with_sub_safe:
  assumes "split_off s sub par" and "istream_ok s" and "safe A (sub, h) (body (sub, h))"
  shows "safe A (s, h) (with_sub body sub (par, h))"
proof (cases "body (sub, h)")
  case (Ok x d)
  with assms show ?thesis
    by (cases d) (auto simp: with_sub_def moves_def intro!: close_sub_safe)
next
  case (Fail d)
  with assms show ?thesis
    by (cases d) (auto simp: with_sub_def moves_def intro!: close_sub_safe)
qed (use assms(3) in simp_all)

text \<open>A scalar decoder that succeeds has read at least one byte.\<close>

lemma reads_ok_left: "reads_ok s r \<Longrightarrow> r = Ok x t \<Longrightarrow> bytes_left t \<le> bytes_left s"
  by (simp add: reads_ok_def adv_bytes_left)

lemma varint_loop_left:
  assumes "istream_ok s" and "varint_loop s r b = Ok v t"
  shows "bytes_left t < bytes_left s"
proof -
  obtain c s1 where c: "pb_readbyte s = Ok c s1"
    using assms(2) by (subst (asm) varint_loop.simps) (auto simp: rbind_Ok_iff return_error_def split: if_splits)
  have s1: "istream_ok s1" "bytes_left s1 < bytes_left s"
    using pb_readbyte_ok [OF assms(1)] c adv_istream_ok [OF assms(1)] pb_readbyte_decreases [OF c]
    by (simp_all add: reads_ok_def)
  have "bytes_left t \<le> bytes_left s1"
    using assms(2) c reads_ok_left [OF varint_loop_ok [OF s1(1)]]
    by (subst (asm) varint_loop.simps) (auto simp: return_error_def Let_def split: if_splits)
  with s1(2) show ?thesis by simp
qed

lemma pb_decode_tag_left:
  assumes "istream_ok s" and "pb_decode_tag s = (eof, Ok v t)"
  shows "bytes_left t < bytes_left s" "snd v < 2 ^ 29"
proof -
  obtain e temp where e: "pb_decode_varint32_eof s = (e, Ok temp t)" and v: "snd v = drop_bit 3 temp"
    using assms(2) by (auto simp: pb_decode_tag_def split: prod.splits res.splits if_splits)
  obtain c s1 where c: "pb_readbyte s = Ok c s1"
    using e by (auto simp: pb_decode_varint32_eof_def split: res.splits)
  have s1: "istream_ok s1" "bytes_left s1 < bytes_left s"
    using pb_readbyte_ok [OF assms(1)] c adv_istream_ok [OF assms(1)] pb_readbyte_decreases [OF c]
    by (simp_all add: reads_ok_def)
  have "reads_ok s1 (rbind (varint32_loop s1 (ucast (c AND 0x7F)) 7) varint32_check)"
    using s1(1) by (auto intro!: reads_intros simp: varint32_check_def split: prod.splits)
  then have "bytes_left t \<le> bytes_left s1"
    using e c by (auto simp: pb_decode_varint32_eof_def reads_ok_def adv_bytes_left split: if_splits)
  with s1(2) show "bytes_left t < bytes_left s" by simp
  have "unat (drop_bit 3 temp) < 2 ^ 29"
    using unsigned_less [of temp, where 'a = nat] by (simp only: unat_drop_bit_eq) (simp add: drop_bit_eq_div)
  then show "snd v < 2 ^ 29" unfolding v by (simp add: word_less_nat_alt)
qed

definition shrinks :: "'u dstate \<Rightarrow> ('a, 'u dstate) res \<Rightarrow> bool" where
  "shrinks d r \<longleftrightarrow> (\<forall>x d'. r = Ok x d' \<longrightarrow> bytes_left (fst d') < bytes_left (fst d))"

lemma shrinks_on_stream:
  assumes "\<And>x t. f (fst d) = Ok x t \<Longrightarrow> bytes_left t < bytes_left (fst d)"
    and "\<And>x d1 y d2. g x d1 = Ok y d2 \<Longrightarrow> fst d2 = fst d1"
  shows "shrinks d (rbind (on_stream f d) g)"
  using assms by (cases d) (fastforce simp: shrinks_def rbind_Ok_iff on_stream_def rmap_iffs)

lemma store_checked_left: "store_checked sg sz p v d = Ok x d' \<Longrightarrow> fst d' = fst d"
  by (auto simp: store_checked_def rbind_Ok_iff d_error_def dest: store_clamped_left
      split: if_splits prod.splits)

lemma poke_left: "poke f d = Ok x d' \<Longrightarrow> fst d' = fst d"
  by (cases d) (auto simp: poke_def on_mem_def rmap_iffs)

lemma pb_read_left: "istream_ok s \<Longrightarrow> pb_read s b (Suc n) = Ok d t \<Longrightarrow> bytes_left t < bytes_left s"
  using pb_read_length [of s b "Suc n" d t]
  by (auto simp: pb_read_def pb_read_checked_def return_error_def is_buffer_def istream_ok_def
      split: source.splits if_splits)

lemma scalar_shrinks:
  assumes "ok A d" and "t \<le> PB_LTYPE_LAST_PACKABLE"
  shows "shrinks d (PB_DECODERS env dec noinit t f p d)"
proof -
  have s: "istream_ok (fst d)" using assms(1) by (simp add: ok_def)
  have v: "bytes_left t < bytes_left (fst d)" if "pb_decode_varint (fst d) = Ok x t" for x t
    using varint_loop_left [OF s] that by (simp add: pb_decode_varint_def)
  have z: "bytes_left t < bytes_left (fst d)" if "pb_decode_svarint (fst d) = Ok x t" for x t
    using v that by (auto simp: pb_decode_svarint_def rbind_Ok_iff)
  have w: "bytes_left t < bytes_left (fst d)" if "pb_decode_fixed32 (fst d) = Ok x t" for x t
    using that pb_read_left [OF s, of False 3] unfolding pb_decode_fixed32_def rbind_Ok_iff
    by (elim exE conjE) (auto split: list.split_asm)
  have q: "bytes_left t < bytes_left (fst d)" if "pb_decode_fixed64 (fst d) = Ok x t" for x t
    using that pb_read_left [OF s, of False 7] unfolding pb_decode_fixed64_def rbind_Ok_iff
    by (elim exE conjE) (auto split: list.split_asm)
  have t: "t \<in> {0, 1, 2, 3, 4}"
    using assms(2) unfolding word_le_nat_alt insert_iff empty_iff word_unat_eq_iff by (simp, presburger)
  show ?thesis
    using t unfolding PB_DECODERS_def pb_dec_varint_def pb_dec_uvarint_def pb_dec_svarint_def
      pb_dec_fixed32_def pb_dec_fixed64_def
    by (auto intro!: shrinks_on_stream simp: Let_def dest: v z w q store_checked_left poke_left)
qed

text \<open>The contract between the value decoders and the decoders of submessages they call.\<close>

locale static_decoder =
  fixes env :: mem_env
    and layout :: "pb_field list \<Rightarrow> nat \<Rightarrow> nat \<Rightarrow> bool"
    and dec :: "pb_field list \<Rightarrow> nat \<Rightarrow> 'u reader"
    and noinit :: "pb_field list \<Rightarrow> nat \<Rightarrow> 'u reader"
  assumes dec_safe: "layout fs p n \<Longrightarrow> ok A d \<Longrightarrow> area p n \<subseteq> A \<Longrightarrow> safe A d (dec fs p d)"
    and noinit_safe: "layout fs p n \<Longrightarrow> ok A d \<Longrightarrow> area p n \<subseteq> A \<Longrightarrow> safe A d (noinit fs p d)"
begin

lemma scalar_safe:
  assumes "ok A d" and "area p (unat (data_size f)) \<subseteq> A"
    and "t = PB_LTYPE_FIXED32 \<Longrightarrow> 4 \<le> unat (data_size f)"
    and "t = PB_LTYPE_FIXED64 \<Longrightarrow> 8 \<le> unat (data_size f)"
    and "t \<le> PB_LTYPE_LAST_PACKABLE"
  shows "safe A d (PB_DECODERS env dec noinit t f p d)"
proof -
  have t: "t \<in> {0, 1, 2, 3, 4}"
    using assms(5) unfolding word_le_nat_alt insert_iff empty_iff word_unat_eq_iff by (simp, presburger)
  have s: "istream_ok (fst d)" using assms(1) by (simp add: ok_def)
  show ?thesis
    using t assms(1-4) s area_take [OF _ assms(2), of 4] area_take [OF _ assms(2), of 8]
    unfolding PB_DECODERS_def pb_dec_varint_def pb_dec_uvarint_def pb_dec_svarint_def
      pb_dec_fixed32_def pb_dec_fixed64_def
    by (auto intro!: safe_intros reads_intros simp: Let_def)
qed

lemma bytes_safe:
  assumes "ok A d" and "area p (unat (data_size f)) \<subseteq> A" and "PB_ATYPE (ftype f) = PB_ATYPE_STATIC"
  shows "safe A d (pb_dec_bytes env f p d)"
proof -
  have members: "area p 4 \<subseteq> A" "area (p + 4) (unat sz) \<subseteq> A"
    if "PB_BYTES_ARRAY_T_ALLOCSIZE sz \<le> unat (data_size f)" for sz
    using that assms(2) by (auto simp: PB_BYTES_ARRAY_T_ALLOCSIZE_def area_def subset_iff)
  show ?thesis
    using assms unfolding pb_dec_bytes_def
    by (auto intro!: safe_intros reads_intros members simp: ok_def [of A d] Let_def not_less)
qed

lemma string_safe:
  fixes d :: "'w dstate"
  assumes "ok A d" and "area p (unat (data_size f)) \<subseteq> A" and "PB_ATYPE (ftype f) = PB_ATYPE_STATIC"
  shows "safe A d (pb_dec_string env f p d)"
proof -
  have members: "area p (unat sz) \<subseteq> A" "area (p + unat sz) 1 \<subseteq> A"
    if "unat sz \<le> unat (sz + 1)" "unat (sz + 1) \<le> unat (data_size f)" for sz :: u32
  proof -
    have "sz + 1 \<noteq> 0"
    proof
      assume z: "sz + 1 = 0"
      then have "sz = 0" using that(1) by (simp add: unat_eq_zero)
      with z show False by simp
    qed
    then have "unat (sz + 1) = Suc (unat sz)" by (simp add: unatSuc add.commute)
    with that(2) assms(2) show "area p (unat sz) \<subseteq> A" "area (p + unat sz) 1 \<subseteq> A"
      by (auto simp: area_def subset_iff)
  qed
  have "safe A d1 (case read_into p (unat sz) d1 of
      Ok _ d2 \<Rightarrow> poke (\<lambda>h. store h (p + unat sz) [0]) d2
    | Fail d2 \<Rightarrow> rbind (poke (\<lambda>h. store h (p + unat sz) [0]) d2) (\<lambda>_ d3. Fail d3)
    | UB \<Rightarrow> UB | NoFuel \<Rightarrow> NoFuel)"
    if "ok A d1" "unat sz \<le> unat (sz + 1)" "unat (sz + 1) \<le> unat (data_size f)" for d1 :: "'w dstate" and sz :: u32
  proof -
    have r: "safe A d1 (read_into p (unat sz) d1)"
      using that members by (intro safe_intros)
    have "safe A d2 (poke (\<lambda>h. store h (p + unat sz) [0]) d2)"
      "safe A d2 (rbind (poke (\<lambda>h. store h (p + unat sz) [0]) d2) (\<lambda>_ d3. Fail d3) :: (unit, 'w dstate) res)"
      if "moves A d1 d2" for d2
      using members(2) [OF \<open>unat sz \<le> unat (sz + 1)\<close> \<open>unat (sz + 1) \<le> unat (data_size f)\<close>]
        moves_ok [OF \<open>ok A d1\<close> that]
      by (auto intro!: safe_intros)
    then show ?thesis
      using r by (cases "read_into p (unat sz) d1") (auto intro: safe_trans)
  qed
  then show ?thesis
    using assms unfolding pb_dec_string_def
    by (auto intro!: safe_intros reads_intros simp: ok_def [of A d] Let_def not_less)
qed

lemma fixed_length_safe:
  assumes "ok A d" and "area p (unat (data_size f)) \<subseteq> A"
  shows "safe A d (pb_dec_fixed_length_bytes f p d)"
  using assms unfolding pb_dec_fixed_length_bytes_def
  by (auto intro!: safe_intros reads_intros msafe_intros simp: ok_def)

lemma submessage_safe:
  assumes "ok A d" and "area p (unat (data_size f)) \<subseteq> A"
    and "sub_fields (m_msgs env) f = Some fs" and "layout fs p (unat (data_size f))"
  shows "safe A d (pb_dec_submessage env dec noinit f p d)"
proof (cases d)
  case (Pair s h)
  have "ptr f \<noteq> PtrNull" using assms(3) by (auto simp: sub_fields_def)
  then show ?thesis
    unfolding pb_dec_submessage_def Pair
    using assms Pair
    by (auto intro!: make_sub_safe with_sub_safe dec_safe [OF assms(4)] noinit_safe [OF assms(4)]
        simp: ok_def)
qed

lemma value_safe:
  assumes "fits_value (m_msgs env) layout f p" and "ok A d" and "area p (unat (data_size f)) \<subseteq> A"
    and "PB_ATYPE (ftype f) = PB_ATYPE_STATIC"
  shows "safe A d (PB_DECODERS env dec noinit (PB_LTYPE (ftype f)) f p d)"
proof (cases "PB_LTYPE (ftype f) \<le> PB_LTYPE_LAST_PACKABLE")
  case True
  with assms show ?thesis by (intro scalar_safe) (simp_all add: fits_value_def Let_def)
next
  case False
  have "PB_LTYPE (ftype f) \<in> {5, 6, 7, 9}"
  proof -
    have "PB_LTYPE (ftype f) \<le> PB_LTYPE_FIXED_LENGTH_BYTES" "PB_LTYPE (ftype f) \<noteq> PB_LTYPE_EXTENSION"
      using assms(1) by (simp_all add: fits_value_def Let_def)
    with False show ?thesis
      unfolding word_le_nat_alt insert_iff empty_iff word_unat_eq_iff by (simp, presburger)
  qed
  then consider (b) "PB_LTYPE (ftype f) = 5" | (s) "PB_LTYPE (ftype f) = 6"
    | (m) "PB_LTYPE (ftype f) = 7" | (l) "PB_LTYPE (ftype f) = 9" by blast
  then show ?thesis
  proof cases
    case b
    then show ?thesis using bytes_safe [OF assms(2-4)] by (simp add: PB_DECODERS_def)
  next
    case s
    then show ?thesis using string_safe [OF assms(2-4)] by (simp add: PB_DECODERS_def)
  next
    case m
    then obtain fs where "sub_fields (m_msgs env) f = Some fs" "layout fs p (unat (data_size f))"
      using assms(1) by (auto simp: fits_value_def Let_def split: option.splits)
    with m show ?thesis using submessage_safe [OF assms(2,3)] by (simp add: PB_DECODERS_def)
  next
    case l
    then show ?thesis using fixed_length_safe [OF assms(2,3)] by (simp add: PB_DECODERS_def)
  qed
qed

end

section \<open>Iterators of the main loop\<close>

text \<open>
  The iterators of \<open>pb_decode_noinit\<close>: at a field of the array (or the terminator of an empty
  one), the size pointer possibly redirected to the local counter at \<open>fc\<close>.
\<close>

definition valid_pos :: "pb_field list \<Rightarrow> nat \<Rightarrow> bool" where
  "valid_pos fs j \<longleftrightarrow> j < length fs \<or> fs = [] \<and> j = 0"

definition iter_ok :: "pb_field list \<Rightarrow> nat \<Rightarrow> nat \<Rightarrow> pb_field_iter \<Rightarrow> bool" where
  "iter_ok fs base fc iter \<longleftrightarrow> (\<exists>j. valid_pos fs j \<and> (iter = iter_at fs base j \<or>
     PB_HTYPE (ftype (field_at fs j)) = PB_HTYPE_REPEATED \<and> iter = (iter_at fs base j)\<lparr>pSize := fc\<rparr>))"

lemma iter_ok_at: "valid_pos fs j \<Longrightarrow> iter_ok fs base fc (iter_at fs base j)"
  by (auto simp: iter_ok_def)

lemma next_redirected:
  assumes "fields_wf fs" and "PB_HTYPE (ftype (field_at fs j)) = PB_HTYPE_REPEATED"
  shows "snd (pb_field_iter_next ((iter_at fs base j)\<lparr>pSize := fc\<rparr>)) =
      (if tag (field_at fs j) = 0 then (iter_at fs base j)\<lparr>pSize := fc\<rparr>
       else snd (pb_field_iter_next (iter_at fs base j)))"
  using assms by (simp add: pb_field_iter_next_def Let_def cur_def iter_at_def same_union_def)

lemma find_loop_ok:
  assumes wf: "fields_wf fs" and ok: "iter_ok fs base fc iter"
  shows "\<exists>found iter'. find_loop (Suc (length fs)) (pos iter) want iter = Some (found, iter') \<and>
    iter_ok fs base fc iter' \<and> (found \<longrightarrow> want (cur iter'))"
proof -
  obtain j where j: "valid_pos fs j" and it: "iter = iter_at fs base j \<or>
      PB_HTYPE (ftype (field_at fs j)) = PB_HTYPE_REPEATED \<and> iter = (iter_at fs base j)\<lparr>pSize := fc\<rparr>"
    using ok by (auto simp: iter_ok_def)
  have plain: "\<exists>found iter'. find_loop (Suc (length fs)) j want (iter_at fs base j) = Some (found, iter') \<and>
      iter_ok fs base fc iter' \<and> (found \<longrightarrow> want (cur iter'))"
  proof (cases "fs = []")
    case True
    then have "pb_field_iter_next (iter_at fs base j) = (False, iter_at fs base j)"
      using j by (simp add: valid_pos_def pb_field_iter_next_empty)
    with True show ?thesis using iter_ok_at [OF j, of base fc] by (auto simp: Let_def)
  next
    case False
    then have "j < length fs" using j by (simp add: valid_pos_def)
    from find_loop_from [OF wf this, of want base] obtain found k where
      "find_loop (Suc (length fs)) j want (iter_at fs base j) = Some (found, iter_at fs base k)"
      "k < length fs" "found \<longrightarrow> want (fs ! k)" by blast
    then show ?thesis
      using iter_ok_at [of fs k base fc] by (auto simp: valid_pos_def field_at_def simp del: find_loop.simps)
  qed
  show ?thesis
  proof (cases "want (cur iter)")
    case True
    then show ?thesis using ok by auto
  next
    case False
    have "find_loop (Suc (length fs)) (pos iter) want iter =
        find_loop (Suc (length fs)) j want (iter_at fs base j)" if "iter \<noteq> iter_at fs base j"
    proof -
      have r: "PB_HTYPE (ftype (field_at fs j)) = PB_HTYPE_REPEATED"
        and i: "iter = (iter_at fs base j)\<lparr>pSize := fc\<rparr>"
        using it that by auto
      have "tag (field_at fs j) \<noteq> 0"
      proof
        assume "tag (field_at fs j) = 0"
        then have "field_at fs j = PB_LAST_FIELD"
          using field_at_tag_0 [OF wf, of j] by (simp add: field_at_def)
        with r show False by (simp add: PB_LAST_FIELD_def PB_HTYPE_def)
      qed
      then show ?thesis
        using next_redirected [OF wf r, where base = base and fc = fc] False
        by (simp add: i cur_def iter_at_def)
    qed
    then show ?thesis
      using plain it by (cases "iter = iter_at fs base j") (auto simp del: find_loop.simps)
  qed
qed

lemma iter_find_ok:
  assumes "fields_wf fs" and "iter_ok fs base fc iter"
  shows "\<exists>found iter'. iter_find iter t d = Ok (found, iter') d \<and> iter_ok fs base fc iter'"
proof -
  have "start iter = fs" using assms(2) by (auto simp: iter_ok_def iter_at_def)
  then show ?thesis
    using find_loop_ok [OF assms, of "wanted t"]
    by (auto simp: iter_find_def pb_field_iter_find_def simp del: find_loop.simps)
qed

section \<open>Fields\<close>

text \<open>What a step of the decoder needs to know of the field at \<open>p\<close> with its size member at \<open>q\<close>.\<close>

definition field_ok ::
    "(nat \<Rightarrow> pb_field list option) \<Rightarrow> (pb_field list \<Rightarrow> nat \<Rightarrow> nat \<Rightarrow> bool) \<Rightarrow> nat set \<Rightarrow>
     pb_field \<Rightarrow> nat \<Rightarrow> nat \<Rightarrow> bool" where
  "field_ok msgs layout A f p q \<longleftrightarrow> PB_ATYPE (ftype f) = PB_ATYPE_STATIC \<and>
     (if PB_HTYPE (ftype f) = PB_HTYPE_REPEATED
      then area q 4 \<subseteq> A \<and> (\<forall>k < array_size f. fits_value msgs layout f (p + unat (data_size f * k)) \<and>
        area (p + unat (data_size f * k)) (unat (data_size f)) \<subseteq> A)
      else fits_value msgs layout f p \<and> area p (unat (data_size f)) \<subseteq> A \<and>
        (PB_HTYPE (ftype f) = PB_HTYPE_OPTIONAL \<longrightarrow> q \<noteq> p \<longrightarrow> area q 1 \<subseteq> A) \<and>
        (PB_HTYPE (ftype f) = PB_HTYPE_ONEOF \<longrightarrow> area q 4 \<subseteq> A))"

lemma fits_field_ok:
  assumes "fits_field msgs layout base sz f p q" and "area base sz \<subseteq> A"
  shows "field_ok msgs layout A f p q"
  using fits_field_cases [OF assms(1)] fits_field_value [OF assms(1)] fits_field_item [OF assms(1)] assms(2)
  unfolding field_ok_def by (auto simp: subset_iff)

lemma peek_Ok: "peek f d = Ok x d' \<Longrightarrow> d' = d"
  by (cases d) (auto simp: peek_def ropt_iffs)

context static_decoder
begin

lemma static_packed_loop_safe:
  assumes "field_ok (m_msgs env) layout A (cur iter) (pData iter) (pSize iter)"
    and "PB_HTYPE (ftype (cur iter)) = PB_HTYPE_REPEATED"
    and "PB_LTYPE (ftype (cur iter)) \<le> PB_LTYPE_LAST_PACKABLE"
    and "ok A d" and "bytes_left (fst d) < n"
  shows "safe A d (static_packed_loop n (PB_DECODERS env dec noinit (PB_LTYPE (ftype (cur iter)))) iter d)"
  using assms(4,5)
proof (induction n arbitrary: d)
  case 0
  then show ?case by simp
next
  case (Suc n)
  let ?f = "cur iter" and ?func = "PB_DECODERS env dec noinit (PB_LTYPE (ftype (cur iter)))"
  have q: "area (pSize iter) 4 \<subseteq> A" using assms(1,2) by (simp add: field_ok_def)
  have step: "safe A d1 (case ?func ?f (pData iter + unat (data_size ?f * k)) d1 of
      Ok _ d2 \<Rightarrow> rbind (peek (\<lambda>h. load32 h (pSize iter)) d2) (\<lambda>sz1 d.
        rbind (poke (\<lambda>h. store32 h (pSize iter) (sz1 + 1)) d) (\<lambda>_ d. static_packed_loop n ?func iter d))
    | Fail d2 \<Rightarrow> Ok False d2 | UB \<Rightarrow> UB | NoFuel \<Rightarrow> NoFuel)"
    if k: "k < array_size ?f" and d1: "ok A d1" "fst d1 = fst d" for k d1
  proof -
    have v: "safe A d1 (?func ?f (pData iter + unat (data_size ?f * k)) d1)"
      using assms(1,2) k d1 by (intro value_safe) (simp_all add: field_ok_def)
    have sh: "shrinks d1 (?func ?f (pData iter + unat (data_size ?f * k)) d1)"
      using scalar_shrinks [OF d1(1) assms(3)] .
    show ?thesis
    proof (cases "?func ?f (pData iter + unat (data_size ?f * k)) d1")
      case (Ok x d2)
      then have m: "moves A d1 d2" and lt: "bytes_left (fst d2) < bytes_left (fst d)"
        using v sh d1(2) by (simp_all add: shrinks_def)
      have "safe A d2 (rbind (peek (\<lambda>h. load32 h (pSize iter)) d2) (\<lambda>sz1 d.
          rbind (poke (\<lambda>h. store32 h (pSize iter) (sz1 + 1)) d) (\<lambda>_ d. static_packed_loop n ?func iter d)))"
        using q lt Suc.prems(2) moves_ok [OF d1(1) m]
        by (intro safe_intros Suc.IH) (auto dest!: moves_left)
      with Ok m show ?thesis by (simp add: safe_trans)
    qed (use v in simp_all)
  qed
  show ?case
    using Suc.prems(1) q by (auto intro!: safe_intros step simp: not_le dest: peek_Ok)
qed

lemma decode_static_packed_safe:
  assumes "field_ok (m_msgs env) layout A (cur iter) (pData iter) (pSize iter)"
    and "PB_HTYPE (ftype (cur iter)) = PB_HTYPE_REPEATED"
    and "PB_LTYPE (ftype (cur iter)) \<le> PB_LTYPE_LAST_PACKABLE" and "ok A d"
  shows "safe A d (decode_static_packed (PB_DECODERS env dec noinit (PB_LTYPE (ftype (cur iter)))) iter d)"
proof (cases d)
  case (Pair s h)
  show ?thesis
    unfolding decode_static_packed_def Pair
  proof (rule make_sub_safe)
    show "ok A (s, h)" using assms(4) Pair by simp
    fix sub par
    assume sp: "split_off s sub par" and sub: "istream_ok sub"
    let ?r = "static_packed_loop (Suc (bytes_left sub)) (PB_DECODERS env dec noinit (PB_LTYPE (ftype (cur iter)))) iter (sub, h)"
    have r: "safe A (sub, h) ?r"
      using assms sub Pair by (intro static_packed_loop_safe) (simp_all add: ok_def)
    have "safe A (s, h) (if bytes_left sub1 \<noteq> 0 then d_error ''array overflow'' (par, h1)
        else close_sub status sub1 (par, h1))" if "moves A (sub, h) (sub1, h1)" for sub1 h1 status
      using that sp assms(4) Pair
      by (auto simp: moves_def ok_def d_error_def split_off_wadv intro!: close_sub_safe)
    then show "safe A (s, h) (case (par, h) of (s, h) \<Rightarrow> case static_packed_loop (Suc (bytes_left sub))
        (PB_DECODERS env dec noinit (PB_LTYPE (ftype (cur iter)))) iter (sub, h) of
          Ok status (sub1, h1) \<Rightarrow> if bytes_left sub1 \<noteq> 0 then d_error ''array overflow'' (s, h1)
            else close_sub status sub1 (s, h1)
        | Fail (sub1, h1) \<Rightarrow> Fail (s, h1) | UB \<Rightarrow> UB | NoFuel \<Rightarrow> NoFuel)"
      using r sp by (cases ?r) (auto simp: moves_def split_off_wadv)
  qed
qed

end

text \<open>
  A field may also set the defaults of a oneof's submessage and release its old member: the
  decoder extended by the two operations on submessages.
\<close>

locale static_fields =
  static_decoder env layout dec noinit +
  defaults: static_op env layout "pb_message_set_to_defaults env (Suc m)" +
  release: static_op env layout "pb_release env m"
  for env :: mem_env
    and layout :: "pb_field list \<Rightarrow> nat \<Rightarrow> nat \<Rightarrow> bool"
    and dec :: "pb_field list \<Rightarrow> nat \<Rightarrow> 'u reader"
    and noinit :: "pb_field list \<Rightarrow> nat \<Rightarrow> 'u reader"
    and m :: nat
begin

lemma decode_static_field_safe:
  assumes f: "field_ok (m_msgs env) layout A (cur iter) (pData iter) (pSize iter)" and ok: "ok A d"
  shows "safe A d (decode_static_field env (Suc m) (PB_DECODERS env dec noinit) wt iter d)"
proof -
  let ?f = "cur iter" and ?p = "pData iter"
  let ?func = "PB_DECODERS env dec noinit (PB_LTYPE (ftype ?f))"
  have static: "PB_ATYPE (ftype ?f) = PB_ATYPE_STATIC" using f by (simp add: field_ok_def)
  consider (rep) "PB_HTYPE (ftype ?f) = PB_HTYPE_REPEATED" | (single) "PB_HTYPE (ftype ?f) \<noteq> PB_HTYPE_REPEATED"
    by blast
  then show ?thesis
  proof cases
    case rep
    then have q: "area (pSize iter) 4 \<subseteq> A" using f by (simp add: field_ok_def)
    have item: "safe A d1 (?func ?f (?p + unat (data_size ?f * k)) d1)"
      if "k < array_size ?f" "ok A d1" for k d1
      using f rep that by (intro value_safe) (simp_all add: field_ok_def)
    show ?thesis
      unfolding decode_static_field_def Let_def
      using rep q ok decode_static_packed_safe [OF f rep _ ok]
      by (auto intro!: safe_intros item simp: not_le)
  next
    case single
    then have v: "fits_value (m_msgs env) layout ?f ?p" and a: "area ?p (unat (data_size ?f)) \<subseteq> A"
      and opt: "PB_HTYPE (ftype ?f) = PB_HTYPE_OPTIONAL \<Longrightarrow> pSize iter \<noteq> ?p \<Longrightarrow> area (pSize iter) 1 \<subseteq> A"
      and one: "PB_HTYPE (ftype ?f) = PB_HTYPE_ONEOF \<Longrightarrow> area (pSize iter) 4 \<subseteq> A"
      using f by (auto simp: field_ok_def)
    have val: "safe A d1 (?func ?f ?p d1)" if "ok A d1" for d1
      using v that a static by (rule value_safe)
    have sub: "safe A d1 (case sub_fields (m_msgs env) ?f of None \<Rightarrow> UB
        | Some fs \<Rightarrow> on_mem (pb_message_set_to_defaults env (Suc m) fs ?p) d1)"
      if "ok A d1" "PB_LTYPE (ftype ?f) = PB_LTYPE_SUBMESSAGE" for d1 :: "'u dstate"
    proof -
      from v that(2) obtain fs where "sub_fields (m_msgs env) ?f = Some fs"
        "layout fs ?p (unat (data_size ?f))"
        by (auto simp: fits_value_def Let_def split: option.splits)
      then show ?thesis
        using that(1) a by (auto intro!: safe_intros defaults.op_safe_in simp: ok_def)
    qed
    have cases: "PB_HTYPE (ftype ?f) = PB_HTYPE_REQUIRED \<or> PB_HTYPE (ftype ?f) = PB_HTYPE_OPTIONAL \<or>
        PB_HTYPE (ftype ?f) = PB_HTYPE_ONEOF"
      using single PB_HTYPE_cases [of "ftype ?f"] by auto
    have set0: "safe A d1 (on_mem (mem_set ?p 0 (unat (data_size ?f))) d1)" if "ok A d1" for d1 :: "'u dstate"
      using that a by (intro safe_intros msafe_mem_set) (simp_all add: ok_def)
    from cases show ?thesis
    proof (elim disjE)
      assume "PB_HTYPE (ftype ?f) = PB_HTYPE_REQUIRED"
      then show ?thesis using ok by (simp add: decode_static_field_def Let_def val)
    next
      assume h: "PB_HTYPE (ftype ?f) = PB_HTYPE_OPTIONAL"
      show ?thesis
        unfolding decode_static_field_def Let_def
        using h ok opt [OF h] by (auto intro!: safe_intros val)
    next
      assume h: "PB_HTYPE (ftype ?f) = PB_HTYPE_ONEOF"
      show ?thesis
        unfolding decode_static_field_def Let_def
        using h ok one [OF h] by (auto intro!: safe_intros val sub set0)
    qed
  qed
qed

end

section \<open>The main loop\<close>

text \<open>A safe step whose result satisfies \<open>P\<close>.\<close>

definition safeP :: "('a \<Rightarrow> bool) \<Rightarrow> nat set \<Rightarrow> 'u dstate \<Rightarrow> ('a, 'u dstate) res \<Rightarrow> bool" where
  "safeP P A d r \<longleftrightarrow> safe A d r \<and> (\<forall>x d'. r = Ok x d' \<longrightarrow> P x)"

lemma safeP_rbind:
  assumes "ok A d" and "safeP Q A d m"
    and "\<And>x d'. m = Ok x d' \<Longrightarrow> Q x \<Longrightarrow> moves A d d' \<Longrightarrow> ok A d' \<Longrightarrow> safeP P A d' (f x d')"
  shows "safeP P A d (rbind m f)"
proof (cases m)
  case (Ok x d')
  then have "Q x" "moves A d d'" using assms(2) by (auto simp: safeP_def)
  then show ?thesis
    using assms(3) [OF Ok] Ok moves_ok [OF assms(1)] by (auto simp: safeP_def intro: safe_trans)
qed (use assms(2) in \<open>auto simp: safeP_def\<close>)

lemma safeP_Ok: "ok A d \<Longrightarrow> P x \<Longrightarrow> safeP P A d (Ok x d)"
  by (simp add: safeP_def)

lemma safeP_error: "ok A d \<Longrightarrow> safeP P A d (d_error m d)"
  by (simp add: safeP_def safe_error)

lemma safeP_safe: "safe A d r \<Longrightarrow> safeP (\<lambda>_. True) A d r"
  by (simp add: safeP_def)

text \<open>The fields of a message at \<open>base\<close> are laid out in \<open>sz\<close> bytes.\<close>

definition fields_laid ::
    "(nat \<Rightarrow> pb_field list option) \<Rightarrow> (pb_field list \<Rightarrow> nat \<Rightarrow> nat \<Rightarrow> bool) \<Rightarrow> pb_field list \<Rightarrow> nat \<Rightarrow> nat \<Rightarrow> bool" where
  "fields_laid msgs layout fs base sz \<longleftrightarrow> fields_wf fs \<and>
     (\<forall>i < length fs. fits_field msgs layout base sz (fs ! i) (field_addr fs base i) (size_addr fs base i))"

lemma static_layout_Suc: "static_layout msgs (Suc k) fs base sz \<longleftrightarrow> fields_laid msgs (static_layout msgs k) fs base sz"
  by (auto simp: fields_laid_def fields_wf_def list_all_iff)

lemma iter_field_ok:
  assumes laid: "fields_laid msgs layout fs base sz" and it: "iter_ok fs base fc iter"
    and A: "area base sz \<subseteq> A" "area fc 4 \<subseteq> A"
  shows "field_ok msgs layout A (cur iter) (pData iter) (pSize iter)"
proof -
  obtain j where j: "valid_pos fs j" and it: "iter = iter_at fs base j \<or>
      PB_HTYPE (ftype (field_at fs j)) = PB_HTYPE_REPEATED \<and> iter = (iter_at fs base j)\<lparr>pSize := fc\<rparr>"
    using it by (auto simp: iter_ok_def)
  have at: "field_ok msgs layout A (field_at fs j) (field_addr fs base j) (size_addr fs base j)"
  proof (cases "fs = []")
    case True
    then show ?thesis
      by (simp add: field_at_def PB_LAST_FIELD_def field_ok_def PB_ATYPE_def PB_HTYPE_def PB_LTYPE_def
          fits_value_def Let_def)
  next
    case False
    then have "j < length fs" using j by (simp add: valid_pos_def)
    then show ?thesis
      using laid fits_field_ok [OF _ A(1)] by (simp add: fields_laid_def field_at_def)
  qed
  from it show ?thesis
  proof
    assume "iter = iter_at fs base j"
    then show ?thesis using at by (simp add: cur_def iter_at_def)
  next
    assume "PB_HTYPE (ftype (field_at fs j)) = PB_HTYPE_REPEATED \<and> iter = (iter_at fs base j)\<lparr>pSize := fc\<rparr>"
    then show ?thesis
      using at A(2) by (simp add: cur_def iter_at_def field_ok_def)
  qed
qed

context static_fields
begin

definition plain_iter :: "pb_field list \<Rightarrow> nat \<Rightarrow> pb_field_iter \<Rightarrow> bool" where
  "plain_iter fs base iter \<longleftrightarrow> (\<exists>j < length fs. iter = iter_at fs base j)"

lemma release_single_safe:
  assumes laid: "fields_laid (m_msgs env) layout fs base sz" and it: "plain_iter fs base iter"
    and A: "area base sz \<subseteq> A" and ok: "ok A d"
  shows "safe A d (on_mem (pb_release_single_field env (Suc m) iter) d)"
proof -
  obtain j where "j < length fs" "iter = iter_at fs base j" using it by (auto simp: plain_iter_def)
  then have "fits_field (m_msgs env) layout base sz (cur iter) (pData iter) (pSize iter)"
    using laid by (simp add: fields_laid_def cur_def iter_at_def field_at_def)
  from release.release_field_safe [OF this] have "msafe A h (pb_release_single_field env (Suc m) iter h)"
    if "owns A h" for h
    using that A msafe_mono owns_mono by simp blast
  then show ?thesis using ok by (intro safe_intros) (simp_all add: ok_def)
qed

lemma release_union_safe:
  fixes d :: "'u dstate"
  assumes laid: "fields_laid (m_msgs env) layout fs base sz" and it: "plain_iter fs base iter"
    and A: "area base sz \<subseteq> A" and q: "area (pSize iter) 4 \<subseteq> A" and ok: "ok A d"
  shows "safeP (plain_iter fs base) A d (pb_release_union_field env (Suc m) iter d)"
proof -
  have find: "safeP (\<lambda>(found, iter'). plain_iter fs base iter') A d1 (iter_find iter1 t d1)"
    if p: "plain_iter fs base iter1" and "ok A d1" for iter1 t and d1 :: "'u dstate"
  proof -
    obtain j where j: "j < length fs" "iter1 = iter_at fs base j" using p by (auto simp: plain_iter_def)
    have "fields_wf fs" using laid by (simp add: fields_laid_def)
    from pb_field_iter_find_at [OF this j(1), of base t] obtain found k where
      "pb_field_iter_find iter1 t = Some (found, iter_at fs base k)" "k < length fs"
      unfolding j(2) by blast
    with that(2) show ?thesis by (auto simp: iter_find_def safeP_def plain_iter_def)
  qed
  have second: "safeP (plain_iter fs base) A d1 (rbind (iter_find iter1 t d1) (\<lambda>(found, iter2) d.
      if \<not> found then d_error msg d else Ok iter2 d))"
    if "plain_iter fs base iter1" "ok A d1" for iter1 t msg and d1 :: "'u dstate"
    by (rule safeP_rbind [OF that(2) find [OF that]]) (auto intro: safeP_error safeP_Ok)
  have first: "safeP (plain_iter fs base) A d1 (rbind (iter_find iter t d1) (\<lambda>(found, iter1) d.
      if \<not> found then d_error msg d
      else rbind (on_mem (pb_release_single_field env (Suc m) iter1) d) (\<lambda>_ d.
        rbind (iter_find iter1 u d) (\<lambda>(found, iter2) d.
          if \<not> found then d_error msg2 d else Ok iter2 d))))"
    if "ok A d1" for t u msg msg2 and d1 :: "'u dstate"
  proof (rule safeP_rbind [OF that find [OF it that]], clarify, goal_cases)
    case (1 found iter1 s h)
    then show ?case
      using safeP_rbind [OF _ safeP_safe [OF release_single_safe [OF laid _ A]] second]
      by (auto intro: safeP_error)
  qed
  show ?thesis
    unfolding pb_release_union_field_def Let_def
    by (rule safeP_rbind [OF ok safeP_safe [OF safe_peek_word [OF ok q]]])
      (auto intro: first simp: safeP_Ok it)
qed

lemma decode_field_safe:
  assumes laid: "fields_laid (m_msgs env) layout fs base sz" and it: "iter_ok fs base fc iter"
    and A: "area base sz \<subseteq> A" "area fc 4 \<subseteq> A" and ok: "ok A d" and e: "d_mem e = env"
  shows "safeP (iter_ok fs base fc) A d
    (decode_field e (Suc m) (PB_DECODERS env dec noinit) wt iter d)"
proof -
  have static: "safeP (iter_ok fs base fc) A d1
      (rbind (decode_static_field env (Suc m) (PB_DECODERS env dec noinit) wt iter1 d1) (\<lambda>_ d. Ok iter1 d))"
    if "iter_ok fs base fc iter1" "ok A d1" for iter1 and d1 :: "'u dstate"
    by (rule safeP_rbind [OF that(2) safeP_safe
          [OF decode_static_field_safe [OF iter_field_ok [OF laid that(1) A] that(2)]]])
      (simp add: safeP_Ok that)
  have at: "PB_ATYPE (ftype (cur iter1)) = PB_ATYPE_STATIC" if "iter_ok fs base fc iter1" for iter1
    using iter_field_ok [OF laid that A] by (simp add: field_ok_def)
  show ?thesis
  proof (cases "PB_HTYPE (ftype (cur iter)) = PB_HTYPE_ONEOF")
    case True
    have q: "area (pSize iter) 4 \<subseteq> A"
      using iter_field_ok [OF laid it A] True by (simp add: field_ok_def)
    obtain j where j: "valid_pos fs j" "iter = iter_at fs base j"
      using it True by (auto simp: iter_ok_def cur_def iter_at_def)
    have "fs \<noteq> []"
    proof
      assume "fs = []"
      with True j show False by (simp add: field_at_def PB_LAST_FIELD_def PB_HTYPE_def)
    qed
    with j have p: "plain_iter fs base iter" by (auto simp: plain_iter_def valid_pos_def)
    have "iter_ok fs base fc iter1" if "plain_iter fs base iter1" for iter1
      using that by (auto simp: plain_iter_def valid_pos_def intro!: iter_ok_at)
    then show ?thesis
      unfolding decode_field_def e if_P [OF True] Let_def
      by (intro safeP_rbind [OF ok release_union_safe [OF laid p A(1) q ok]])
        (simp add: at static)
  next
    case False
    then show ?thesis
      using static [OF it ok] at [OF it] by (simp add: decode_field_def e)
  qed
qed

text \<open>No field is an extension, so an unknown tag is always skipped.\<close>

lemma decode_unknown_safe:
  assumes laid: "fields_laid (m_msgs env) layout fs base sz" and it: "iter_ok fs base fc (it l)"
    and A: "area base sz \<subseteq> A" "area fc 4 \<subseteq> A" and ok: "ok A d" and t: "t < 2 ^ 29"
  shows "safeP (\<lambda>l. iter_ok fs base fc (it l)) A d (decode_unknown e fuel dec' t wt l d)"
proof -
  have wf: "fields_wf fs" using laid by (simp add: fields_laid_def)
  have skip: "safeP (\<lambda>l. iter_ok fs base fc (it l)) A d
      (rbind (on_stream (\<lambda>s. pb_skip_field s wt) d) (\<lambda>_ d. Ok l1 d))"
    if "iter_ok fs base fc (it l1)" for l1
    using ok that
    by (intro safeP_rbind [OF ok safeP_safe] safe_intros reads_intros)
      (simp_all add: safeP_Ok ok_def)
  have ext: "PB_LTYPE (ftype (cur i)) \<noteq> PB_LTYPE_EXTENSION" if "iter_ok fs base fc i" for i
  proof -
    from that obtain j where "valid_pos fs j" "cur i = field_at fs j"
      by (auto simp: iter_ok_def cur_def iter_at_def)
    with laid show ?thesis
      by (auto simp: fields_laid_def valid_pos_def field_at_def fits_field_def Let_def
          PB_LAST_FIELD_def PB_LTYPE_def)
  qed
  have "start (it l) = fs" using it by (auto simp: iter_ok_def iter_at_def)
  then obtain iter' where f: "find_extension_field (it l) = Some (False, iter')" "iter_ok fs base fc iter'"
    using find_loop_ok [OF wf it, of "\<lambda>f. PB_LTYPE (ftype f) = PB_LTYPE_EXTENSION"] ext
    by (auto simp: find_extension_field_def simp del: find_loop.simps)
  have "t < 0xFFFFFFFF" using t by (simp add: word_less_nat_alt)
  with f skip [of "l\<lparr>it := iter', ext_start := 0xFFFFFFFF\<rparr>"] skip [OF it] show ?thesis
    by (simp add: decode_unknown_def Let_def)
qed

end

lemma next_redirected_pair:
  assumes "fields_wf fs" and "PB_HTYPE (ftype (field_at fs j)) = PB_HTYPE_REPEATED" and "j < length fs"
  shows "pb_field_iter_next ((iter_at fs base j)\<lparr>pSize := fc\<rparr>) = pb_field_iter_next (iter_at fs base j)"
  using assms field_at_tag_0 [OF assms(1), of j]
  by (auto simp: pb_field_iter_next_def Let_def cur_def iter_at_def same_union_def)

lemma seek_end_at:
  assumes "fields_wf fs" and "valid_pos fs j" and "length fs - j < n"
  shows "\<exists>r. seek_end n (iter_at fs base j) = Some r"
  using assms(2,3)
proof (induction n arbitrary: j)
  case (Suc n)
  show ?case
  proof (cases "j < length fs")
    case True
    show ?thesis
    proof (cases "Suc j < length fs")
      case more: True
      then show ?thesis
        using Suc pb_field_iter_next_at [OF assms(1) True, of base] by (simp add: valid_pos_def)
    next
      case False
      then show ?thesis using pb_field_iter_next_at [OF assms(1) True, of base] by simp
    qed
  next
    case False
    then have "fs = []" "j = 0" using Suc.prems(1) by (auto simp: valid_pos_def)
    then show ?thesis by (simp add: pb_field_iter_next_empty)
  qed
qed simp

lemma req_field_count_Some:
  assumes "fields_wf fs" and "iter_ok fs base fc iter"
  shows "\<exists>n. req_field_count iter = Some n"
proof -
  obtain j where j: "valid_pos fs j" and it: "iter = iter_at fs base j \<or>
      PB_HTYPE (ftype (field_at fs j)) = PB_HTYPE_REPEATED \<and> iter = (iter_at fs base j)\<lparr>pSize := fc\<rparr>"
    using assms(2) by (auto simp: iter_ok_def)
  have "length fs - j < Suc (length fs)" by simp
  from seek_end_at [OF assms(1) j this] obtain r where
    r: "seek_end (Suc (length fs)) (iter_at fs base j) = Some r" by blast
  have "\<exists>r. seek_end (Suc (length fs)) iter = Some r"
  proof (cases "iter = iter_at fs base j")
    case True
    then show ?thesis using r by (intro exI [of _ r]) (simp only:)
  next
    case False
    then have red: "PB_HTYPE (ftype (field_at fs j)) = PB_HTYPE_REPEATED" "iter = (iter_at fs base j)\<lparr>pSize := fc\<rparr>"
      using it by auto
    have "j < length fs"
      using j red(1) by (auto simp: valid_pos_def field_at_def PB_LAST_FIELD_def PB_HTYPE_def)
    then have nxt: "pb_field_iter_next iter = pb_field_iter_next (iter_at fs base j)"
      unfolding red(2) by (rule next_redirected_pair [OF assms(1) red(1)])
    obtain more i where p: "pb_field_iter_next (iter_at fs base j) = (more, i)"
      by (cases "pb_field_iter_next (iter_at fs base j)")
    show ?thesis
      by (cases more; cases r) (use r in \<open>simp_all add: nxt p\<close>)
  qed
  moreover have "start iter = fs" using it by (auto simp: iter_at_def)
  ultimately show ?thesis by (auto simp: req_field_count_def)
qed

context static_fields
begin

lemma enter_fixed_safe:
  assumes laid: "fields_laid (m_msgs env) layout fs base sz" and it: "iter_ok fs base fc (it l)"
    and A: "area fc 4 \<subseteq> A" and ok: "ok A d"
  shows "safeP (\<lambda>l. iter_ok fs base fc (it l)) A d (enter_fixed_count fc l d)"
proof (cases "PB_HTYPE (ftype (cur (it l))) = PB_HTYPE_REPEATED \<and> pSize (it l) = pData (it l)")
  case True
  have redirect: "iter_ok fs base fc ((it l)\<lparr>pSize := fc\<rparr>)"
    using it True by (auto simp: iter_ok_def cur_def iter_at_def)
  have peek: "safe A d (peek (fixed_incomplete l fc) d)"
    using safe_peek_word [OF ok A, where 'b = 32] ok
    by (cases d; cases "fixed_field l"; cases "load32 (snd d) fc") (auto simp: peek_def fixed_incomplete_def)
  have tail: "safeP (\<lambda>l. iter_ok fs base fc (it l)) A d1
      (rbind m1 (\<lambda>l d. Ok (l\<lparr>it := (it l)\<lparr>pSize := fc\<rparr>\<rparr>) d))"
    if "safeP (\<lambda>l'. it l' = it l) A d1 m1" "ok A d1" for d1 m1
    by (rule safeP_rbind [OF that(2,1)]) (use redirect in \<open>auto intro!: safeP_Ok\<close>)
  have "safeP (\<lambda>l'. it l' = it l) A d (if fixed_field l \<noteq> Some (pos (it l))
      then rbind (peek (fixed_incomplete l fc) d) (\<lambda>incomplete d.
        if incomplete then d_error ''wrong size for fixed count field'' d
        else rbind (poke (\<lambda>h. store32 h fc 0) d) (\<lambda>_ d. Ok (l\<lparr>fixed_field := Some (pos (it l))\<rparr>) d))
      else Ok l d)"
    using ok A
    by (auto intro!: safeP_rbind [OF _ safeP_safe] safeP_Ok safeP_error safe_intros peek)
  then show ?thesis
    unfolding enter_fixed_count_def if_P [OF True] using tail ok by blast
next
  case False
  then show ?thesis using ok it by (auto simp: enter_fixed_count_def intro: safeP_Ok)
qed

lemma it_mark_seen [simp]: "it (mark_seen l) = it l"
  by (simp add: mark_seen_def Let_def)

lemma decode_known_safe:
  assumes laid: "fields_laid (m_msgs env) layout fs base sz" and it: "iter_ok fs base fc (it l)"
    and A: "area base sz \<subseteq> A" "area fc 4 \<subseteq> A" and ok: "ok A d" and e: "d_mem e = env"
  shows "safeP (\<lambda>l. iter_ok fs base fc (it l)) A d
    (decode_known e (Suc m) (PB_DECODERS env dec noinit) fc wt l d)"
  unfolding decode_known_def Let_def
proof (rule safeP_rbind [OF ok enter_fixed_safe [OF laid it A(2) ok]], goal_cases)
  case (1 l1 d1)
  show ?case
    by (rule safeP_rbind [OF 1(4) decode_field_safe [OF laid _ A 1(4) e]])
      (use 1(2) in \<open>simp_all add: safeP_Ok\<close>)
qed

lemma decode_loop_safe:
  assumes laid: "fields_laid (m_msgs env) layout fs base sz"
    and A: "area base sz \<subseteq> A" "area fc 4 \<subseteq> A" and e: "d_mem e = env"
  shows "iter_ok fs base fc (it l) \<Longrightarrow> ok A d \<Longrightarrow> bytes_left (fst d) < n \<Longrightarrow>
    safeP (\<lambda>l. iter_ok fs base fc (it l)) A d
      (decode_loop n e (Suc m) (PB_DECODERS env dec noinit) fc l d)"
proof (induction n arbitrary: l d)
  case (Suc n)
  note it = Suc.prems(1) and ok = Suc.prems(2)
  obtain s h where d: "d = (s, h)" by (cases d)
  have s: "istream_ok s" using ok d by (simp add: ok_def)
  have wf: "fields_wf fs" using laid by (simp add: fields_laid_def)
  obtain eof r where tag: "pb_decode_tag s = (eof, r)" by (cases "pb_decode_tag s")
  have reads: "reads_ok s r" using pb_decode_tag_ok [OF s] by (simp add: tag)
  show ?case
  proof (cases "bytes_left s = 0")
    case True
    then show ?thesis using it ok by (simp add: d safeP_Ok)
  next
    case False
    show ?thesis
    proof (cases r)
      case (Ok v s1)
      obtain wt t where v: "v = (wt, t)" by (cases v)
      have lt: "bytes_left s1 < bytes_left s" "t < 2 ^ 29"
        using pb_decode_tag_left [OF s] tag Ok by (auto simp: v)
      have mv: "moves A (s, h) (s1, h)" using reads Ok by (simp add: reads_ok_def moves_def adv_wadv)
      then have ok1: "ok A (s1, h)" using moves_ok ok d by blast
      obtain found iter' where f: "iter_find (it l) t (s1, h) = Ok (found, iter') (s1, h)"
        "iter_ok fs base fc iter'"
        using iter_find_ok [OF wf it] by blast
      let ?step = "if found then decode_known e (Suc m) (PB_DECODERS env dec noinit) fc wt (l\<lparr>it := iter'\<rparr>) (s1, h)
        else decode_unknown e (Suc m) (PB_DECODERS env dec noinit) t wt (l\<lparr>it := iter'\<rparr>) (s1, h)"
      have step: "safeP (\<lambda>l. iter_ok fs base fc (it l)) A (s1, h) ?step"
        using decode_known_safe [OF laid _ A ok1 e] decode_unknown_safe [OF laid _ A ok1 lt(2)] f(2)
        by simp
      have "safeP (\<lambda>l. iter_ok fs base fc (it l)) A (s1, h)
          (rbind ?step (\<lambda>l d. decode_loop n e (Suc m) (PB_DECODERS env dec noinit) fc l d))"
        by (rule safeP_rbind [OF ok1 step], rule Suc.IH)
          (use lt(1) Suc.prems(3) d in \<open>auto dest!: moves_left\<close>)
      then show ?thesis
        using False f(1) mv safe_trans [OF mv] by (auto simp: d tag Ok v safeP_def)
    next
      case (Fail s1)
      then show ?thesis
        using False reads it by (auto simp: d tag safeP_def reads_ok_def moves_def adv_wadv)
    qed (use reads in \<open>simp_all add: reads_ok_def\<close>)
  qed
qed simp

lemma final_checks_safe:
  assumes laid: "fields_laid (m_msgs env) layout fs base sz" and it: "iter_ok fs base fc (it l)"
    and A: "area fc 4 \<subseteq> A" and ok: "ok A d"
  shows "safe A d (final_checks fc l d)"
proof -
  have wf: "fields_wf fs" using laid by (simp add: fields_laid_def)
  have "safe A d (peek (fixed_incomplete l fc) d)"
    using safe_peek_word [OF ok A, where 'b = 32] ok
    by (cases d; cases "fixed_field l"; cases "load32 (snd d) fc") (auto simp: peek_def fixed_incomplete_def)
  then show ?thesis
    unfolding final_checks_def
    using req_field_count_Some [OF wf it] ok by (auto intro!: safe_intros)
qed

lemma safe_rmap:
  "safe B d0 r \<Longrightarrow> (\<And>d'. moves B d0 d' \<Longrightarrow> moves A d (g d')) \<Longrightarrow> safe A d (rmap g r)"
  by (cases r) auto

lemma decode_message_safe:
  fixes e :: "'u dec_env"
  assumes laid: "fields_laid (m_msgs env) layout fs base sz" and e: "d_mem e = env"
    and fresh: "\<And>h x. finite (dom (bytes h)) \<Longrightarrow> x \<in> area (d_stack e h) 4 \<Longrightarrow> bytes h x = None"
    and ok: "ok A d" and A: "area base sz \<subseteq> A"
  shows "safe A d (decode_message e (Suc m) (PB_DECODERS env dec noinit) fs base d)"
proof (cases d)
  case (Pair s h)
  let ?fc = "d_stack e h" and ?A = "A \<union> area (d_stack e h) 4"
  let ?h = "push_local ?fc h"
  let ?l = "\<lparr>it = snd (pb_field_iter_begin fs base), seen0 = 0, seen1 = 0, ext_start = 0,
    fixed_field = None\<rparr>"
  let ?r = "rbind (decode_loop (Suc (bytes_left s)) e (Suc m) (PB_DECODERS env dec noinit) ?fc ?l (s, ?h))
    (\<lambda>l d. final_checks ?fc l d)"
  have wf: "fields_wf fs" using laid by (simp add: fields_laid_def)
  have stack: "bytes h x = None" if "x \<in> area ?fc 4" for x
    using fresh [OF _ that] ok Pair by (simp add: ok_def)
  have other: "bytes ?h x = bytes h x" if "x \<notin> area ?fc 4" for x
    using that by (auto simp: push_local_def write_bytes_def area_def)
  have "bytes ?h x \<noteq> None" if "x \<in> area ?fc 4" for x
    using that by (auto simp: push_local_def write_bytes_def area_def)
  then have "owns ?A ?h"
    using ok other Pair by (auto simp: ok_def owns_def) (metis option.distinct(1))
  moreover have "dom (bytes ?h) \<subseteq> dom (bytes h) \<union> area ?fc 4"
    by (auto simp: push_local_def write_bytes_def area_def dom_def)
  then have "finite (dom (bytes ?h))"
    using ok Pair by (auto simp: ok_def area_def elim: finite_subset)
  ultimately have ok1: "ok ?A (s, ?h)"
    using ok Pair by (simp add: ok_def)
  have it: "iter_ok fs base ?fc (it ?l)"
    by (simp add: pb_field_iter_begin_at [OF wf] iter_ok_at valid_pos_def)
  have loop: "safeP (\<lambda>l. iter_ok fs base ?fc (it l)) ?A (s, ?h)
      (decode_loop (Suc (bytes_left s)) e (Suc m) (PB_DECODERS env dec noinit) ?fc ?l (s, ?h))"
    using A by (intro decode_loop_safe [OF laid _ _ e it ok1]) auto
  have "safeP (\<lambda>_. True) ?A (s, ?h) ?r"
    by (rule safeP_rbind [OF ok1 loop], rule safeP_safe, rule final_checks_safe [OF laid]) auto
  then have r: "safe ?A (s, ?h) ?r" by (simp add: safeP_def)
  have pop: "moves A (s, h) (s1, pop_local ?fc h1)" if mv: "moves ?A (s, ?h) (s1, h1)" for s1 h1
  proof -
    have fr: "frame ?A ?h h1" and w: "wadv s s1" using mv by (simp_all add: moves_def)
    have cell: "bytes (pop_local ?fc h1) x = None" "bytes h x = None" if "x \<in> area ?fc 4" for x
      using that stack by (auto simp: pop_local_def area_def)
    have rest: "bytes (pop_local ?fc h1) x = bytes h1 x" if "x \<notin> area ?fc 4" for x
      using that by (auto simp: pop_local_def area_def)
    have "frame A h (pop_local ?fc h1)"
      unfolding frame_def
    proof (intro conjI allI impI)
      fix x
      assume "x \<notin> A"
      then show "bytes (pop_local ?fc h1) x = bytes h x"
        using fr cell rest other by (cases "x \<in> area ?fc 4") (auto simp: frame_def)
    next
      fix x
      show "(bytes (pop_local ?fc h1) x = None) = (bytes h x = None)"
        using fr cell rest other by (cases "x \<in> area ?fc 4") (auto simp: frame_def)
    next
      show "blocks (pop_local ?fc h1) = blocks h"
        using fr by (simp add: frame_def pop_local_def push_local_def)
    qed
    with w show ?thesis by (simp add: moves_def)
  qed
  have eq: "decode_message e (Suc m) (PB_DECODERS env dec noinit) fs base d =
      rmap (\<lambda>(s1, h1). (s1, pop_local ?fc h1)) ?r"
    by (simp add: decode_message_def Pair Let_def)
  show ?thesis
    unfolding eq by (subst Pair, rule safe_rmap [OF r]) (use pop in auto)
qed

end

section \<open>All messages\<close>

lemma with_init_safe:
  assumes "static_op layout (pb_message_set_to_defaults env n)"
    and "static_op layout (pb_release env n)"
    and "layout fs p sz" and "ok A d" and "area p sz \<subseteq> A"
    and noinit: "\<And>d. ok A d \<Longrightarrow> safe A d (noinit fs p d)"
  shows "safe A d (with_init env n noinit fs p d)"
proof -
  have init: "safe A d (on_mem (pb_message_set_to_defaults env n fs p) d)"
    and rel: "safe A d1 (on_mem (pb_release env n fs p) d1)" if "ok A d1" for d1
    using static_op.op_safe_in [OF assms(1,3) _ assms(5)] static_op.op_safe_in [OF assms(2,3) _ assms(5)]
      assms(4) that
    by (auto intro!: safe_intros simp: ok_def)
  have "safe A d1 (case noinit fs p d1 of
      Fail d2 \<Rightarrow> rbind (on_mem (pb_release env n fs p) d2) (\<lambda>_ d3. Fail d3) | r \<Rightarrow> r)"
    if ok1: "ok A d1" for d1
  proof (cases "noinit fs p d1")
    case (Fail d2)
    then have mv: "moves A d1 d2" using noinit [OF ok1] by simp
    have ok2: "ok A d2" by (rule moves_ok [OF ok1 mv])
    show ?thesis
      unfolding Fail res.case by (rule safe_trans [OF mv]) (intro safe_rbind [OF ok2] rel ok2 safe_Fail)
  qed (use noinit [OF ok1] in auto)
  with init [OF assms(4)] show ?thesis
    unfolding with_init_def using assms(4) by (auto intro!: safe_rbind)
qed

text \<open>
  The stack cell of a call is memory that nothing else uses, as long as finitely many addresses
  are in use.
\<close>

definition stack_ok :: "'u dec_env \<Rightarrow> bool" where
  "stack_ok e \<longleftrightarrow> (\<forall>h. finite (dom (bytes h)) \<longrightarrow> (\<forall>x \<in> area (d_stack e h) 4. bytes h x = None))"

lemma static_decoder_noinit:
  assumes "stack_ok e"
  shows "static_decoder (static_layout (m_msgs (d_mem e)) k)
    (with_init (d_mem e) (2 * k + j) (pb_decode_noinit e (2 * k + j))) (pb_decode_noinit e (2 * k + j))"
proof (induction k arbitrary: j)
  case 0
  show ?case by unfold_locales simp_all
next
  case (Suc k)
  have stack: "\<And>h x. finite (dom (bytes h)) \<Longrightarrow> x \<in> area (d_stack e h) 4 \<Longrightarrow> bytes h x = None"
    using assms by (simp add: stack_ok_def)
  let ?env = "d_mem e"
  let ?L = "static_layout (m_msgs (d_mem e))"
  let ?noinit = "pb_decode_noinit e (2 * k + Suc j)"
  let ?dec = "with_init ?env (2 * k + Suc j) ?noinit"
  have fields: "static_fields ?env (?L k) ?dec ?noinit (2 * k + j)"
    using Suc [of "Suc j"] defaults.static_op_axioms [of ?env k "Suc j"]
      release.static_op_axioms [of ?env k j]
    by (intro static_fields.intro) (simp_all only: add_Suc_right)
  have noinit: "safe A d (pb_decode_noinit e (2 * Suc k + j) fs p d)"
    if "?L (Suc k) fs p n" "ok A d" "area p n \<subseteq> A" for fs p n A d
    using static_fields.decode_message_safe [OF fields that(1) [unfolded static_layout_Suc] refl stack that(2,3)]
    by simp
  have dec: "safe A d (with_init ?env (2 * Suc k + j) (pb_decode_noinit e (2 * Suc k + j)) fs p d)"
    if l: "?L (Suc k) fs p n" and "ok A d" "area p n \<subseteq> A" for fs p n A d
    by (rule with_init_safe [OF defaults.static_op_axioms release.static_op_axioms that])
      (rule noinit [OF l _ that(3)])
  show ?case by unfold_locales (use noinit dec in blast)+
qed

interpretation decoder: static_decoder "d_mem e"
    "\<lambda>fs p n. stack_ok e \<and> static_layout (m_msgs (d_mem e)) k fs p n"
    "with_init (d_mem e) (2 * k + j) (pb_decode_noinit e (2 * k + j))" "pb_decode_noinit e (2 * k + j)"
  by unfold_locales
    (use static_decoder.dec_safe [OF static_decoder_noinit] static_decoder.noinit_safe [OF static_decoder_noinit]
      in blast)+

interpretation fields: static_fields "d_mem e"
    "\<lambda>fs p n. stack_ok e \<and> static_layout (m_msgs (d_mem e)) k fs p n"
    "with_init (d_mem e) (2 * k + j) (pb_decode_noinit e (2 * k + j))" "pb_decode_noinit e (2 * k + j)"
    "2 * k + i"
  by unfold_locales
    (use defaults.op_safe [of "d_mem e" k] release.op_safe [of "d_mem e" k] in
      \<open>force simp del: pb_message_set_to_defaults.simps simp flip: add_Suc_right\<close>)+

section \<open>Properties\<close>

text \<open>C1: memory safety of the decoder on untrusted input. Whatever the bytes of the input
  buffer and the previous contents of the structure are, \<open>pb_decode\<close> of a message of static fields
  (scalars, strings, bytes, arrays, packed or not, oneofs, submessages, nested less than \<open>k\<close> deep)
  ends with fuel \<open>2 k + j\<close>, never reads outside the buffer, changes no byte outside the structure
  and neither allocates nor frees.\<close>

theorem pb_decode_static_safe:
  assumes "static_layout (m_msgs (d_mem e)) k fs base sz" and "stack_ok e"
    and "istream_ok s" and "owns (area base sz) h" and "finite (dom (bytes h))"
  shows "\<exists>s' h'. (pb_decode e (2 * k + j) fs base (s, h) = Ok () (s', h') \<or>
      pb_decode e (2 * k + j) fs base (s, h) = Fail (s', h')) \<and>
    wadv s s' \<and> frame (area base sz) h h'"
proof -
  have "safe (area base sz) (s, h) (pb_decode e (2 * k + j) fs base (s, h))"
    unfolding pb_decode_def
    by (rule decoder.dec_safe [where p = base and n = sz]) (use assms in \<open>simp_all add: ok_def\<close>)
  then show ?thesis
    by (cases "pb_decode e (2 * k + j) fs base (s, h)") (auto simp: moves_def)
qed

text \<open>The decoder's environment for the example message: the stack cell lies behind all memory in
  use.\<close>

definition outer_mem :: mem_env where
  "outer_mem = \<lparr>m_msgs = (\<lambda>i. if i = 1 then Some inner_fields else None),
     m_exts = (\<lambda>_. None), m_pick = (\<lambda>_ _. None), m_junk = (\<lambda>_. 0xAA)\<rparr>"

definition outer_dec_env :: "unit dec_env" where
  "outer_dec_env = \<lparr>d_mem = outer_mem, d_callbacks = (\<lambda>_. None), d_exts = (\<lambda>_. None),
     d_stack = (\<lambda>h. Suc (Max (insert 0 (dom (bytes h)))))\<rparr>"

definition blank_struct :: heap where
  "blank_struct = \<lparr>bytes = (\<lambda>a. if 16 \<le> a \<and> a < 27 then Some 0x55 else None), blocks = (\<lambda>_. None)\<rparr>"

lemmas layout_eval = fits_field_def fits_value_def Let_def PB_LTYPE_def PB_HTYPE_def PB_ATYPE_def inside_def
  default_ok_def sub_fields_def field_at_def prev_size_def ptr_off_def same_union_def

lemma outer_layout: "static_layout (m_msgs outer_mem) (Suc (Suc 0)) outer_fields 16 11"
  by (simp add: layout_eval outer_mem_def outer_fields_def inner_fields_def upt_rec)

lemma outer_stack: "stack_ok outer_dec_env"
proof -
  have "bytes h x = None" if "\<forall>a \<in> dom (bytes h). a < x" for h x
    using that by (cases "bytes h x") (auto simp: domI)
  then show ?thesis by (fastforce simp: stack_ok_def outer_dec_env_def area_def Suc_le_eq)
qed

theorem pb_decode_static_safe_witness:
  "\<exists>s' h'. (pb_decode outer_dec_env 4 outer_fields 16
        (pb_istream_from_buffer [0x12, 3, 8, 0x96, 1, 0x1A, 2, 7] 8, blank_struct) = Ok () (s', h') \<or>
      pb_decode outer_dec_env 4 outer_fields 16
        (pb_istream_from_buffer [0x12, 3, 8, 0x96, 1, 0x1A, 2, 7] 8, blank_struct) = Fail (s', h')) \<and>
    wadv (pb_istream_from_buffer [0x12, 3, 8, 0x96, 1, 0x1A, 2, 7] 8) s' \<and>
    frame (area 16 11) blank_struct h'"
proof -
  have dom: "dom (bytes blank_struct) = area 16 11"
    by (auto simp: blank_struct_def area_def dom_def)
  have "owns (area 16 11) blank_struct"
    by (simp add: owns_def dom) (auto simp: blank_struct_def area_def)
  moreover have "finite (dom (bytes blank_struct))" unfolding dom by (simp add: area_def)
  ultimately show ?thesis
    using pb_decode_static_safe [OF _ outer_stack, where k = "Suc (Suc 0)" and fs = outer_fields and base = 16 and sz = 11 and j = 0 and h = blank_struct
      and s = "pb_istream_from_buffer [0x12, 3, 8, 0x96, 1, 0x1A, 2, 7] 8"]
      outer_layout by (simp add: outer_dec_env_def istream_ok_def pb_istream_from_buffer_def)
qed

end
