(* ===== verification/Cbs.thy ===== *)
theory Cbs
  imports Prelude
begin

text \<open>
  The byte-string parser of BoringSSL, \<open>crypto/bytestring/cbs.c\<close>. A \<open>CBS\<close> is a pointer and a
  length into memory it does not own; the model is the list of the bytes it spans. A function
  that advances its \<open>CBS\<close> is a reader: \<open>Ok x rest\<close> is \<open>return 1\<close> with the out-parameters \<open>x\<close>,
  \<open>Fail rest\<close> is \<open>return 0\<close> with the \<open>CBS\<close> as the failing call leaves it (some functions have
  consumed a length or a tag by then). Out-parameters are specified on success only. The
  functions that build text with a \<open>CBB\<close> are in \<open>Cbb_Oid\<close>.
\<close>

type_synonym cbs = "byte list"
type_synonym 'a parser = "cbs \<Rightarrow> ('a, cbs) res"

section \<open>Bytes and integers\<close>

definition CBS_init :: "byte list \<Rightarrow> nat \<Rightarrow> cbs" where
  "CBS_init data len = take len data"

definition cbs_get :: "nat \<Rightarrow> byte list parser" where
  "cbs_get n cbs = (if length cbs < n then Fail cbs else Ok (take n cbs) (drop n cbs))"

definition CBS_skip :: "nat \<Rightarrow> unit parser" where
  "CBS_skip len cbs = rbind (cbs_get len cbs) (\<lambda>dummy. Ok ())"

definition CBS_len :: "cbs \<Rightarrow> nat" where
  "CBS_len cbs = length cbs"

text \<open>\<open>OPENSSL_memchr\<close> for the byte 0.\<close>

definition CBS_contains_zero_byte :: "cbs \<Rightarrow> bool" where
  "CBS_contains_zero_byte cbs \<longleftrightarrow> list_ex (\<lambda>b. b = 0) cbs"

definition CBS_mem_equal :: "cbs \<Rightarrow> byte list \<Rightarrow> nat \<Rightarrow> bool" where
  "CBS_mem_equal cbs data len \<longleftrightarrow> len = CBS_len cbs \<and> CRYPTO_memcmp cbs data len = 0"

definition cbs_get_u :: "nat \<Rightarrow> u32 parser" where
  "cbs_get_u len cbs = rbind (cbs_get len cbs) (\<lambda>data. Ok (of_be data))"

definition CBS_get_u8 :: "byte parser" where
  "CBS_get_u8 cbs = rbind (cbs_get 1 cbs) (\<lambda>v. Ok (hd v))"

definition CBS_get_u16 :: "u16 parser" where
  "CBS_get_u16 cbs = rbind (cbs_get_u 2 cbs) (\<lambda>v. Ok (ucast v))"

definition CBS_get_u24 :: "u32 parser" where
  "CBS_get_u24 cbs = cbs_get_u 3 cbs"

definition CBS_get_u32 :: "u32 parser" where
  "CBS_get_u32 cbs = cbs_get_u 4 cbs"

definition CBS_get_last_u8 :: "byte parser" where
  "CBS_get_last_u8 cbs = (if cbs = [] then Fail cbs else Ok (last cbs) (butlast cbs))"

definition CBS_get_bytes :: "nat \<Rightarrow> cbs parser" where
  "CBS_get_bytes len cbs = rbind (cbs_get len cbs) (\<lambda>v. Ok (CBS_init v len))"

definition CBS_copy_bytes :: "nat \<Rightarrow> byte list parser" where
  "CBS_copy_bytes len cbs = cbs_get len cbs"

definition cbs_get_length_prefixed :: "nat \<Rightarrow> cbs parser" where
  "cbs_get_length_prefixed len_len cbs =
     rbind (cbs_get_u len_len cbs) (\<lambda>len. CBS_get_bytes (unat len))"

definition CBS_get_u8_length_prefixed :: "cbs parser" where
  "CBS_get_u8_length_prefixed cbs = cbs_get_length_prefixed 1 cbs"

definition CBS_get_u16_length_prefixed :: "cbs parser" where
  "CBS_get_u16_length_prefixed cbs = cbs_get_length_prefixed 2 cbs"

definition CBS_get_u24_length_prefixed :: "cbs parser" where
  "CBS_get_u24_length_prefixed cbs = cbs_get_length_prefixed 3 cbs"

section \<open>Copies\<close>

text \<open>
  Copies made with \<open>OPENSSL_malloc\<close>; \<open>grant n\<close> says whether an allocation of \<open>n\<close> bytes succeeds.
  The result is the return value and the block, \<open>None\<close> for \<open>NULL\<close>.
\<close>

definition BUF_memdup :: "(nat \<Rightarrow> bool) \<Rightarrow> byte list \<Rightarrow> byte list option" where
  "BUF_memdup grant data = (if length data = 0 then None else if grant (length data) then Some data else None)"

fun BUF_strnlen :: "byte list \<Rightarrow> nat \<Rightarrow> nat" where
  "BUF_strnlen str 0 = 0"
| "BUF_strnlen [] (Suc max_len) = 0"
| "BUF_strnlen (b # str) (Suc max_len) = (if b = 0 then 0 else Suc (BUF_strnlen str max_len))"

definition BUF_strndup :: "(nat \<Rightarrow> bool) \<Rightarrow> byte list \<Rightarrow> nat \<Rightarrow> byte list option" where
  "BUF_strndup grant str max_len = (let n = BUF_strnlen str max_len in
     if (n + 1) mod 2 ^ 64 < n then None
     else if grant (n + 1) then Some (take n str @ [0]) else None)"

definition CBS_stow :: "(nat \<Rightarrow> bool) \<Rightarrow> cbs \<Rightarrow> bool \<times> byte list option" where
  "CBS_stow grant cbs =
     (if CBS_len cbs = 0 then (True, None)
      else case BUF_memdup grant cbs of None \<Rightarrow> (False, None) | Some p \<Rightarrow> (True, Some p))"

definition CBS_strdup :: "(nat \<Rightarrow> bool) \<Rightarrow> cbs \<Rightarrow> bool \<times> byte list option" where
  "CBS_strdup grant cbs = (let p = BUF_strndup grant cbs (CBS_len cbs) in (p \<noteq> None, p))"

section \<open>ASN.1 elements\<close>

abbreviation (input) CBS_ASN1_BOOLEAN :: u32 where "CBS_ASN1_BOOLEAN \<equiv> 0x1"
abbreviation (input) CBS_ASN1_INTEGER :: u32 where "CBS_ASN1_INTEGER \<equiv> 0x2"
abbreviation (input) CBS_ASN1_BITSTRING :: u32 where "CBS_ASN1_BITSTRING \<equiv> 0x3"
abbreviation (input) CBS_ASN1_OCTETSTRING :: u32 where "CBS_ASN1_OCTETSTRING \<equiv> 0x4"
abbreviation (input) CBS_ASN1_TAG_SHIFT :: nat where "CBS_ASN1_TAG_SHIFT \<equiv> 24"
abbreviation (input) CBS_ASN1_CONSTRUCTED :: u32 where "CBS_ASN1_CONSTRUCTED \<equiv> 0x20000000"
abbreviation (input) CBS_ASN1_TAG_NUMBER_MASK :: u32 where "CBS_ASN1_TAG_NUMBER_MASK \<equiv> 0x1FFFFFFF"

fun base128_loop :: "u64 \<Rightarrow> u64 parser" where
  "base128_loop v [] = Fail []"
| "base128_loop v (b # cbs) =
     (if drop_bit (64 - 7) v \<noteq> 0 then Fail cbs
      else if v = 0 \<and> b = 0x80 then Fail cbs
      else let v = push_bit 7 v OR ucast (b AND 0x7F) in
        if b AND 0x80 \<noteq> 0 then base128_loop v cbs else Ok v cbs)"

definition parse_base128_integer :: "u64 parser" where
  "parse_base128_integer cbs = base128_loop 0 cbs"

definition parse_asn1_tag :: "u32 parser" where
  "parse_asn1_tag cbs = rbind (CBS_get_u8 cbs) (\<lambda>tag_byte cbs.
     let tag = push_bit CBS_ASN1_TAG_SHIFT (ucast tag_byte AND 0xE0) :: u32;
         tag_number = tag_byte AND 0x1F
     in if tag_number = 0x1F
        then rbind (parse_base128_integer cbs) (\<lambda>v cbs.
          if ucast CBS_ASN1_TAG_NUMBER_MASK < v \<or> v < 0x1F then Fail cbs
          else Ok (tag OR ucast v) cbs)
        else Ok (tag OR ucast tag_number) cbs)"

text \<open>
  The functions that work on a copy of their \<open>CBS\<close> leave it as it was when they fail on the copy.
\<close>

definition on_copy :: "('a, cbs) res \<Rightarrow> cbs \<Rightarrow> ('a \<Rightarrow> cbs \<Rightarrow> ('b, cbs) res) \<Rightarrow> ('b, cbs) res" where
  "on_copy m cbs f = (case m of Ok x header \<Rightarrow> f x header | Fail _ \<Rightarrow> Fail cbs | UB \<Rightarrow> UB | NoFuel \<Rightarrow> NoFuel)"

text \<open>
  The element, its tag and the length of its header. \<open>size_t\<close> has 64 bits: the sum of the lengths
  is taken modulo \<open>2^64\<close> for the overflow check.
\<close>

definition cbs_get_any_asn1_element :: "bool \<Rightarrow> (cbs \<times> u32 \<times> nat) parser" where
  "cbs_get_any_asn1_element ber_ok cbs =
     on_copy (parse_asn1_tag cbs) cbs (\<lambda>tag header.
     on_copy (CBS_get_u8 header) cbs (\<lambda>length_byte header.
       let header_len = CBS_len cbs - CBS_len header in
       if length_byte AND 0x80 = 0 then
         rbind (CBS_get_bytes (unat length_byte + header_len) cbs) (\<lambda>out. Ok (out, tag, header_len))
       else let num_bytes = unat (length_byte AND 0x7F) in
         if ber_ok \<and> tag AND CBS_ASN1_CONSTRUCTED \<noteq> 0 \<and> num_bytes = 0 then
           rbind (CBS_get_bytes header_len cbs) (\<lambda>out. Ok (out, tag, header_len))
         else if num_bytes = 0 \<or> 4 < num_bytes then Fail cbs
         else on_copy (cbs_get_u num_bytes header) cbs (\<lambda>len32 header.
           if len32 < 128 then Fail cbs
           else if drop_bit ((num_bytes - 1) * 8) len32 = 0 then Fail cbs
           else if (unat len32 + header_len + num_bytes) mod 2 ^ 64 < unat len32 then Fail cbs
           else rbind (CBS_get_bytes (unat len32 + header_len + num_bytes) cbs)
             (\<lambda>out. Ok (out, tag, header_len + num_bytes)))))"

definition CBS_get_any_asn1_element :: "(cbs \<times> u32 \<times> nat) parser" where
  "CBS_get_any_asn1_element cbs = cbs_get_any_asn1_element False cbs"

definition CBS_get_any_ber_asn1_element :: "(cbs \<times> u32 \<times> nat) parser" where
  "CBS_get_any_ber_asn1_element cbs = cbs_get_any_asn1_element True cbs"

text \<open>Skipping the header of the element, which is never longer than the element.\<close>

definition skip_header :: "nat \<Rightarrow> cbs \<Rightarrow> cbs \<Rightarrow> (cbs, cbs) res" where
  "skip_header header_len out cbs =
     (case CBS_skip header_len out of Ok _ body \<Rightarrow> Ok body cbs | _ \<Rightarrow> UB)"

definition CBS_get_any_asn1 :: "(cbs \<times> u32) parser" where
  "CBS_get_any_asn1 cbs = rbind (CBS_get_any_asn1_element cbs) (\<lambda>(out, tag, header_len) cbs.
     rbind (skip_header header_len out cbs) (\<lambda>body. Ok (body, tag)))"

definition cbs_get_asn1 :: "u32 \<Rightarrow> bool \<Rightarrow> cbs parser" where
  "cbs_get_asn1 tag_value skip cbs = rbind (CBS_get_any_asn1_element cbs) (\<lambda>(out, tag, header_len) cbs.
     if tag \<noteq> tag_value then Fail cbs
     else if skip then skip_header header_len out cbs
     else Ok out cbs)"

definition CBS_get_asn1 :: "u32 \<Rightarrow> cbs parser" where
  "CBS_get_asn1 tag_value cbs = cbs_get_asn1 tag_value True cbs"

definition CBS_get_asn1_element :: "u32 \<Rightarrow> cbs parser" where
  "CBS_get_asn1_element tag_value cbs = cbs_get_asn1 tag_value False cbs"

definition CBS_peek_asn1_tag :: "cbs \<Rightarrow> u32 \<Rightarrow> bool" where
  "CBS_peek_asn1_tag cbs tag_value \<longleftrightarrow> 1 \<le> CBS_len cbs \<and>
     (case parse_asn1_tag cbs of Ok actual_tag _ \<Rightarrow> tag_value = actual_tag | _ \<Rightarrow> False)"

section \<open>ASN.1 values\<close>

fun uint64_loop :: "u64 \<Rightarrow> byte list \<Rightarrow> u64 option" where
  "uint64_loop out [] = Some out"
| "uint64_loop out (b # data) =
     (if drop_bit 56 out \<noteq> 0 then None else uint64_loop (push_bit 8 out OR ucast b) data)"

definition CBS_get_asn1_uint64 :: "u64 parser" where
  "CBS_get_asn1_uint64 cbs = rbind (CBS_get_asn1 CBS_ASN1_INTEGER cbs) (\<lambda>data cbs.
     if CBS_len data = 0 then Fail cbs
     else if data ! 0 AND 0x80 \<noteq> 0 then Fail cbs
     else if data ! 0 = 0 \<and> 1 < CBS_len data \<and> data ! 1 AND 0x80 = 0 then Fail cbs
     else case uint64_loop 0 data of None \<Rightarrow> Fail cbs | Some out \<Rightarrow> Ok out cbs)"

definition CBS_get_asn1_bool :: "bool parser" where
  "CBS_get_asn1_bool cbs = rbind (CBS_get_asn1 CBS_ASN1_BOOLEAN cbs) (\<lambda>bytes cbs.
     if CBS_len bytes \<noteq> 1 then Fail cbs
     else let v = bytes ! 0 in
       if v \<noteq> 0 \<and> v \<noteq> 0xFF then Fail cbs else Ok (v \<noteq> 0) cbs)"

text \<open>An optional element: \<open>None\<close> is \<open>*out_present = 0\<close>.\<close>

definition CBS_get_optional_asn1 :: "u32 \<Rightarrow> cbs option parser" where
  "CBS_get_optional_asn1 tag cbs =
     (if CBS_peek_asn1_tag cbs tag then rbind (CBS_get_asn1 tag cbs) (\<lambda>out. Ok (Some out))
      else Ok None cbs)"

text \<open>The value inside the optional element: \<open>inner\<close> must take all of it.\<close>

definition whole_child :: "'a parser \<Rightarrow> cbs \<Rightarrow> cbs \<Rightarrow> ('a, cbs) res" where
  "whole_child inner child cbs = (case inner child of
     Ok x rest \<Rightarrow> if CBS_len rest \<noteq> 0 then Fail cbs else Ok x cbs
   | Fail _ \<Rightarrow> Fail cbs | UB \<Rightarrow> UB | NoFuel \<Rightarrow> NoFuel)"

definition CBS_get_optional_asn1_octet_string :: "u32 \<Rightarrow> (cbs \<times> bool) parser" where
  "CBS_get_optional_asn1_octet_string tag cbs = rbind (CBS_get_optional_asn1 tag cbs) (\<lambda>child cbs.
     case child of
       Some child \<Rightarrow> rbind (whole_child (CBS_get_asn1 CBS_ASN1_OCTETSTRING) child cbs) (\<lambda>out. Ok (out, True))
     | None \<Rightarrow> Ok ([], False) cbs)"

definition CBS_get_optional_asn1_uint64 :: "u32 \<Rightarrow> u64 \<Rightarrow> u64 parser" where
  "CBS_get_optional_asn1_uint64 tag default_value cbs = rbind (CBS_get_optional_asn1 tag cbs) (\<lambda>child cbs.
     case child of
       Some child \<Rightarrow> whole_child CBS_get_asn1_uint64 child cbs
     | None \<Rightarrow> Ok default_value cbs)"

definition CBS_get_optional_asn1_bool :: "u32 \<Rightarrow> int \<Rightarrow> int parser" where
  "CBS_get_optional_asn1_bool tag default_value cbs = rbind (CBS_get_optional_asn1 tag cbs) (\<lambda>child cbs.
     case child of
       Some child \<Rightarrow> rbind (whole_child (CBS_get_asn1 CBS_ASN1_BOOLEAN) child cbs) (\<lambda>child2 cbs.
         if CBS_len child2 \<noteq> 1 then Fail cbs
         else if child2 ! 0 = 0 then Ok 0 cbs
         else if child2 ! 0 = 0xFF then Ok 1 cbs
         else Fail cbs)
     | None \<Rightarrow> Ok default_value cbs)"

definition CBS_is_valid_asn1_bitstring :: "cbs \<Rightarrow> bool" where
  "CBS_is_valid_asn1_bitstring cbs = (case CBS_get_u8 cbs of
     Ok num_unused_bits rest \<Rightarrow>
       if 7 < num_unused_bits then False
       else if num_unused_bits = 0 then True
       else (case CBS_get_last_u8 rest of
           Ok l _ \<Rightarrow> l AND (push_bit (unat num_unused_bits) 1 - 1) = 0
         | _ \<Rightarrow> False)
   | _ \<Rightarrow> False)"

definition CBS_asn1_bitstring_has_bit :: "cbs \<Rightarrow> u32 \<Rightarrow> bool" where
  "CBS_asn1_bitstring_has_bit cbs b \<longleftrightarrow> CBS_is_valid_asn1_bitstring cbs \<and>
     (let byte_num = drop_bit 3 b + 1; bit_num = 7 - (b AND 7) in
       unat byte_num < CBS_len cbs \<and> cbs ! unat byte_num AND push_bit (unat bit_num) 1 \<noteq> 0)"

end
