(* ===== verification/C_Library.thy ===== *)
theory C_Library
  imports Prelude "HOL-Library.Multiset"
begin

text \<open>
  The functions of the C library that BoringSSL sorts and searches with: \<open>memcmp\<close>, \<open>qsort\<close> and
  \<open>bsearch\<close>, and what they do when the comparison function is consistent.
\<close>

text \<open>\<open>memcmp\<close>: the first difference of two byte strings of the same length.\<close>

fun memcmp :: "byte list \<Rightarrow> byte list \<Rightarrow> int" where
  "memcmp (a # as) (b # bs) = (if a = b then memcmp as bs else uint a - uint b)"
| "memcmp _ _ = 0"

text \<open>\<open>qsort\<close>, as an insertion sort by the given comparison.\<close>

fun qinsert :: "('a \<Rightarrow> 'a \<Rightarrow> int) \<Rightarrow> 'a \<Rightarrow> 'a list \<Rightarrow> 'a list" where
  "qinsert cmp x [] = [x]"
| "qinsert cmp x (y # ys) = (if cmp x y \<le> 0 then x # y # ys else y # qinsert cmp x ys)"

definition qsort :: "('a \<Rightarrow> 'a \<Rightarrow> int) \<Rightarrow> 'a list \<Rightarrow> 'a list" where
  "qsort cmp xs = foldr (qinsert cmp) xs []"

text \<open>\<open>bsearch\<close> between two positions; the comparison with the key is \<open>c\<close>.\<close>

function bsearch :: "('a \<Rightarrow> int) \<Rightarrow> 'a list \<Rightarrow> nat \<Rightarrow> nat \<Rightarrow> nat option" where
  "bsearch c xs l u =
     (if l < u then
        let i = (l + u) div 2 in
        if c (xs ! i) < 0 then bsearch c xs l i
        else if 0 < c (xs ! i) then bsearch c xs (Suc i) u
        else Some i
      else None)"
  by pat_completeness auto

termination by (relation "measure (\<lambda>(c, xs, l, u). u - l)") auto

declare bsearch.simps [simp del]

section \<open>Facts\<close>

lemma memcmp_eq_0: "length a = length b \<Longrightarrow> memcmp a b = 0 \<longleftrightarrow> a = b"
  by (induction a b rule: list_induct2) (auto simp: word_uint_eq_iff)

lemma mset_qinsert: "mset (qinsert cmp x xs) = add_mset x (mset xs)"
  by (induction xs) auto

lemma mset_qsort [simp]: "mset (qsort cmp xs) = mset xs"
proof -
  have "mset (foldr (qinsert cmp) xs []) = mset xs" by (induction xs) (simp_all add: mset_qinsert)
  then show ?thesis by (simp add: qsort_def)
qed

lemma set_qsort [simp]: "set (qsort cmp xs) = set xs"
  by (metis mset_qsort set_mset_mset)

lemma length_qsort [simp]: "length (qsort cmp xs) = length xs"
  by (metis mset_qsort size_mset)

text \<open>What \<open>qsort\<close> and \<open>bsearch\<close> require of a comparison function.\<close>

locale comparator =
  fixes cmp :: "'a \<Rightarrow> 'a \<Rightarrow> int"
  assumes sign: "cmp x y < 0 \<longleftrightarrow> 0 < cmp y x"
    and cmp_trans: "cmp x y \<le> 0 \<Longrightarrow> cmp y z \<le> 0 \<Longrightarrow> cmp x z \<le> 0"
begin

abbreviation ordered :: "'a list \<Rightarrow> bool" where
  "ordered xs \<equiv> sorted_wrt (\<lambda>x y. cmp x y \<le> 0) xs"

lemma cmp_refl: "cmp x x = 0"
  using sign [of x x] by linarith

lemma le_cases: "\<not> cmp x y \<le> 0 \<Longrightarrow> cmp y x \<le> 0"
  using sign [of y x] by linarith

lemma eq_sym: "cmp x y = 0 \<longleftrightarrow> cmp y x = 0"
  using sign [of x y] sign [of y x] by linarith

lemma eq_trans: "cmp x y = 0 \<Longrightarrow> cmp y z = 0 \<Longrightarrow> cmp x z = 0"
  using cmp_trans [of x y z] cmp_trans [of z y x] sign [of x z] eq_sym [of x y] eq_sym [of y z] by linarith

lemma set_qinsert: "set (qinsert cmp x xs) = insert x (set xs)"
  by (metis mset_qinsert set_mset_add_mset_insert set_mset_mset)

lemma ordered_qinsert: "ordered xs \<Longrightarrow> ordered (qinsert cmp x xs)"
  by (induction xs) (auto simp: set_qinsert intro: cmp_trans le_cases)

lemma ordered_qsort: "ordered (qsort cmp xs)"
proof -
  have "ordered (foldr (qinsert cmp) xs [])" by (induction xs) (simp_all add: ordered_qinsert)
  then show ?thesis by (simp add: qsort_def)
qed

text \<open>A search in an ordered list finds an equal element if there is one.\<close>

lemma bsearch_correct:
  assumes "ordered xs" and "u \<le> length xs"
  shows "(\<forall>i. bsearch (cmp k) xs l u = Some i \<longrightarrow> l \<le> i \<and> i < u \<and> cmp k (xs ! i) = 0) \<and>
    (bsearch (cmp k) xs l u = None \<longrightarrow> (\<forall>i. l \<le> i \<and> i < u \<longrightarrow> cmp k (xs ! i) \<noteq> 0))"
  using assms
proof (induction "cmp k" xs l u rule: bsearch.induct)
  case (1 xs l u)
  show ?case
  proof (cases "l < u")
    case False
    then show ?thesis by (simp add: bsearch.simps)
  next
    case True
    let ?m = "(l + u) div 2"
    have m: "l \<le> ?m" "?m < u" using True by auto
    have le: "cmp (xs ! i) (xs ! j) \<le> 0" if "i \<le> j" "j < u" for i j
      using sorted_wrt_nth_less [OF 1(3), of i j] that 1(4) cmp_refl [of "xs ! i"] by (cases "i = j") auto
    consider (left) "cmp k (xs ! ?m) < 0" | (right) "0 < cmp k (xs ! ?m)" | (here) "cmp k (xs ! ?m) = 0" by linarith
    then show ?thesis
    proof cases
      case left
      have "cmp k (xs ! i) \<noteq> 0" if "?m \<le> i" "i < u" for i
      proof
        assume "cmp k (xs ! i) = 0"
        then have "cmp (xs ! i) k \<le> 0" using eq_sym [of k] by simp
        then have "cmp (xs ! ?m) k \<le> 0" using le [OF that] cmp_trans by blast
        then show False using left sign by force
      qed
      then have "i < ?m" if "i < u" "cmp k (xs ! i) = 0" for i using that not_less by blast
      moreover have "i < u" if "i < ?m" for i using that m(2) by simp
      moreover have eq: "bsearch (cmp k) xs l u = bsearch (cmp k) xs l ?m"
        using left True by (simp add: bsearch.simps [of "cmp k" xs l u] Let_def)
      moreover have "?m \<le> length xs" using 1(4) m(2) by simp
      note 1(1) [OF True refl left 1(3) this]
      ultimately show ?thesis unfolding eq by blast
    next
      case right
      have "cmp k (xs ! i) \<noteq> 0" if "i \<le> ?m" for i
      proof
        assume "cmp k (xs ! i) = 0"
        then have "cmp k (xs ! ?m) \<le> 0" using le [OF that m(2)] cmp_trans [of k "xs ! i"] by simp
        then show False using right by simp
      qed
      then have "Suc ?m \<le> i" if "cmp k (xs ! i) = 0" for i using that not_less_eq_eq by blast
      moreover have "l \<le> i" if "Suc ?m \<le> i" for i using that m(1) by simp
      moreover have eq: "bsearch (cmp k) xs l u = bsearch (cmp k) xs (Suc ?m) u"
        using right True by (simp add: bsearch.simps [of "cmp k" xs l u] Let_def)
      moreover have "\<not> cmp k (xs ! ?m) < 0" using right by simp
      note 1(2) [OF True refl this right 1(3,4)]
      ultimately show ?thesis unfolding eq by blast
    next
      case here
      then show ?thesis using m True unfolding bsearch.simps [of "cmp k" xs l u] Let_def by simp
    qed
  qed
qed

end

end
