(* ===== verification/Cbb.thy ===== *)
theory Cbb
  imports Cbs C_Library
begin

text \<open>
  The byte-string builder of BoringSSL, \<open>crypto/bytestring/cbb.c\<close>. All \<open>CBB\<close>s that share a
  buffer form a chain, because a \<open>CBB\<close> has at most one open child: the state is the buffer and the
  list of the open \<open>CBB\<close>s, the top-level one first, and a \<open>CBB *\<close> is its position in the list. A
  position behind the end is a child that has been flushed or discarded (\<open>base == NULL\<close>). The
  capacity of the buffer is the length of \<open>buf\<close>.
\<close>

record cbb_buffer =
  buf :: "byte list"
  blen :: nat
  can_resize :: bool
  berror :: bool

record cbb =
  offset :: nat
  pending_len_len :: nat
  pending_is_asn1 :: bool

record cbb_state =
  base :: "cbb_buffer option"
  chain :: "cbb list"

text \<open>\<open>OPENSSL_malloc\<close> and \<open>OPENSSL_realloc\<close>: which sizes they grant, and what new memory holds.\<close>

record cbb_mem =
  grant :: "nat \<Rightarrow> bool"
  junk :: "nat \<Rightarrow> byte"

abbreviation (input) cap :: "cbb_buffer \<Rightarrow> nat" where "cap b \<equiv> length (buf b)"

abbreviation (input) top_level :: cbb where
  "top_level \<equiv> \<lparr>offset = 0, pending_len_len = 0, pending_is_asn1 = False\<rparr>"

section \<open>Life cycle\<close>

definition cbb_init :: "cbb_mem \<Rightarrow> byte list \<Rightarrow> bool \<Rightarrow> cbb_state option" where
  "cbb_init mem data resize = (if grant mem 32
     then Some \<lparr>base = Some \<lparr>buf = data, blen = 0, can_resize = resize, berror = False\<rparr>,
       chain = [top_level]\<rparr>
     else None)"

definition CBB_init :: "cbb_mem \<Rightarrow> nat \<Rightarrow> cbb_state option" where
  "CBB_init mem initial_capacity =
     (if 0 < initial_capacity \<and> \<not> grant mem initial_capacity then None
      else cbb_init mem (map (junk mem) [0..<initial_capacity]) True)"

definition CBB_init_fixed :: "cbb_mem \<Rightarrow> byte list \<Rightarrow> cbb_state option" where
  "CBB_init_fixed mem data = cbb_init mem data False"

definition CBB_cleanup :: "cbb_state \<Rightarrow> cbb_state" where
  "CBB_cleanup s = s\<lparr>base := None\<rparr>"

section \<open>The buffer\<close>

definition cbb_set_error :: "cbb_buffer \<Rightarrow> ('a, cbb_buffer) res" where
  "cbb_set_error b = Fail (b\<lparr>berror := True\<rparr>)"

definition cbb_buffer_reserve :: "cbb_mem \<Rightarrow> nat \<Rightarrow> cbb_buffer \<Rightarrow> (unit, cbb_buffer) res" where
  "cbb_buffer_reserve mem len b = (let newlen = (blen b + len) mod 2 ^ 64 in
     if newlen < blen b then cbb_set_error b
     else if cap b < newlen then
       (let newcap = cap b * 2 mod 2 ^ 64 in
        if \<not> can_resize b then cbb_set_error b
        else let newcap = (if newcap < cap b \<or> newcap < newlen then newlen else newcap) in
          if \<not> grant mem newcap then cbb_set_error b
          else Ok () (b\<lparr>buf := buf b @ map (junk mem) [cap b..<newcap]\<rparr>))
     else Ok () b)"

definition cbb_buffer_add :: "cbb_mem \<Rightarrow> nat \<Rightarrow> cbb_buffer \<Rightarrow> (nat, cbb_buffer) res" where
  "cbb_buffer_add mem len b = rbind (cbb_buffer_reserve mem len b) (\<lambda>_ b.
     Ok (blen b) (b\<lparr>blen := blen b + len\<rparr>))"

definition put_at :: "nat \<Rightarrow> byte list \<Rightarrow> cbb_buffer \<Rightarrow> cbb_buffer" where
  "put_at p bs b = b\<lparr>buf := take p (buf b) @ bs @ drop (p + length bs) (buf b)\<rparr>"

text \<open>The loops that store a number from its last byte to its first; what is left of the number
  must be 0.\<close>

fun be_loop :: "nat \<Rightarrow> nat \<Rightarrow> byte list \<times> nat" where
  "be_loop 0 v = ([], v)"
| "be_loop (Suc i) v = (let (bs, r) = be_loop i (v div 256) in (bs @ [of_nat v], r))"

definition cbb_buffer_add_u :: "cbb_mem \<Rightarrow> u32 \<Rightarrow> nat \<Rightarrow> cbb_buffer \<Rightarrow> (unit, cbb_buffer) res" where
  "cbb_buffer_add_u mem v len_len b =
     (if len_len = 0 then Ok () b
      else rbind (cbb_buffer_add mem len_len b) (\<lambda>p b.
        let (bs, v) = be_loop len_len (unat v); b = put_at p bs b in
        if v \<noteq> 0 then cbb_set_error b else Ok () b))"

section \<open>Flushing\<close>

text \<open>The size of the length prefix in front of \<open>len\<close> bytes and its first byte.\<close>

definition asn1_len_len :: "nat \<Rightarrow> nat \<times> byte" where
  "asn1_len_len len =
     (if 0xFFFFFF < len then (5, 0x80 OR 4)
      else if 0xFFFF < len then (4, 0x80 OR 3)
      else if 0xFF < len then (3, 0x80 OR 2)
      else if 0x7F < len then (2, 0x80 OR 1)
      else (1, of_nat len))"

text \<open>Room for the longer form: the contents move to the right.\<close>

definition shift_contents :: "cbb_mem \<Rightarrow> nat \<Rightarrow> nat \<Rightarrow> nat \<Rightarrow> cbb_buffer \<Rightarrow> (unit, cbb_buffer) res" where
  "shift_contents mem child_start extra_bytes len b = rbind (cbb_buffer_add mem extra_bytes b) (\<lambda>_ b.
     Ok () (put_at (child_start + extra_bytes) (take len (drop child_start (buf b))) b))"

definition write_pending :: "cbb_mem \<Rightarrow> cbb \<Rightarrow> cbb_buffer \<Rightarrow> (unit, cbb_buffer) res" where
  "write_pending mem d b = (let child_start = offset d + pending_len_len d; len = blen b - child_start in
     if pending_is_asn1 d then
       if 0xFFFFFFFE < len then cbb_set_error b
       else let (len_len, initial_length_byte) = asn1_len_len len in
         rbind (if len_len \<noteq> 1 then shift_contents mem child_start (len_len - 1) len b else Ok () b) (\<lambda>_ b.
           let (bs, r) = be_loop (len_len - 1) (if len_len = 1 then 0 else len);
               b = put_at (offset d + 1) bs (put_at (offset d) [initial_length_byte] b) in
           if r \<noteq> 0 then cbb_set_error b else Ok () b)
     else let (bs, r) = be_loop (pending_len_len d) len; b = put_at (offset d) bs b in
       if r \<noteq> 0 then cbb_set_error b else Ok () b)"

text \<open>\<open>CBB_flush\<close> of a \<open>CBB\<close> whose open descendants are \<open>d # ds\<close>.\<close>

fun flush_children :: "cbb_mem \<Rightarrow> cbb list \<Rightarrow> cbb_buffer \<Rightarrow> (unit, cbb_buffer) res" where
  "flush_children mem [] b = (if berror b then Fail b else Ok () b)"
| "flush_children mem (d # ds) b =
     (if berror b then Fail b
      else if pending_len_len d = 0 then Ok () b
      else case flush_children mem ds b of
          Ok _ b' \<Rightarrow>
            (let child_start = (offset d + pending_len_len d) mod 2 ^ 64 in
             if child_start < offset d \<or> blen b' < child_start then cbb_set_error b'
             else write_pending mem d b')
        | Fail b' \<Rightarrow> cbb_set_error b'
        | UB \<Rightarrow> UB | NoFuel \<Rightarrow> NoFuel)"

definition on_base :: "(cbb_buffer \<Rightarrow> ('a, cbb_buffer) res) \<Rightarrow> cbb_state \<Rightarrow> ('a, cbb_state) res" where
  "on_base f s = (case base s of None \<Rightarrow> UB | Some b \<Rightarrow> rmap (\<lambda>b. s\<lparr>base := Some b\<rparr>) (f b))"

definition CBB_flush :: "cbb_mem \<Rightarrow> nat \<Rightarrow> cbb_state \<Rightarrow> (unit, cbb_state) res" where
  "CBB_flush mem i s =
     (if base s = None \<or> length (chain s) \<le> i then Fail s
      else rbind (on_base (flush_children mem (drop (Suc i) (chain s))) s) (\<lambda>_ s.
        if Suc i < length (chain s) \<and> pending_len_len (chain s ! Suc i) = 0 then Ok () s
        else Ok () (s\<lparr>chain := take (Suc i) (chain s)\<rparr>)))"

text \<open>The result of \<open>CBB_finish\<close>; both out-parameters are given.\<close>

definition CBB_finish :: "cbb_mem \<Rightarrow> nat \<Rightarrow> cbb_state \<Rightarrow> (byte list, cbb_state) res" where
  "CBB_finish mem i s =
     (if i \<noteq> 0 then Fail s
      else rbind (CBB_flush mem i s) (\<lambda>_ s.
        rbind (on_base (\<lambda>b. Ok (take (blen b) (buf b)) b) s) (\<lambda>out s. Ok out (CBB_cleanup s))))"

section \<open>Contents so far\<close>

definition CBB_data :: "nat \<Rightarrow> cbb_state \<Rightarrow> byte list option" where
  "CBB_data i s = (case base s of None \<Rightarrow> None | Some b \<Rightarrow>
     if length (chain s) \<noteq> Suc i then None
     else Some (take (blen b - (offset (chain s ! i) + pending_len_len (chain s ! i)))
       (drop (offset (chain s ! i) + pending_len_len (chain s ! i)) (buf b))))"

definition CBB_len :: "nat \<Rightarrow> cbb_state \<Rightarrow> nat option" where
  "CBB_len i s = (case base s of None \<Rightarrow> None | Some b \<Rightarrow>
     if length (chain s) \<noteq> Suc i \<or> blen b < offset (chain s ! i) + pending_len_len (chain s ! i) then None
     else Some (blen b - offset (chain s ! i) - pending_len_len (chain s ! i)))"

section \<open>Adding bytes and integers\<close>

definition flushed :: "cbb_mem \<Rightarrow> nat \<Rightarrow> (cbb_buffer \<Rightarrow> ('a, cbb_buffer) res) \<Rightarrow> cbb_state \<Rightarrow> ('a, cbb_state) res" where
  "flushed mem i f s = rbind (CBB_flush mem i s) (\<lambda>_. on_base f)"

definition CBB_add_bytes :: "cbb_mem \<Rightarrow> nat \<Rightarrow> byte list \<Rightarrow> cbb_state \<Rightarrow> (unit, cbb_state) res" where
  "CBB_add_bytes mem i data = flushed mem i (\<lambda>b.
     rbind (cbb_buffer_add mem (length data) b) (\<lambda>p b. Ok () (put_at p data b)))"

definition CBB_add_space :: "cbb_mem \<Rightarrow> nat \<Rightarrow> nat \<Rightarrow> cbb_state \<Rightarrow> (nat, cbb_state) res" where
  "CBB_add_space mem i len = flushed mem i (cbb_buffer_add mem len)"

definition CBB_reserve :: "cbb_mem \<Rightarrow> nat \<Rightarrow> nat \<Rightarrow> cbb_state \<Rightarrow> (nat, cbb_state) res" where
  "CBB_reserve mem i len = flushed mem i (\<lambda>b.
     rbind (cbb_buffer_reserve mem len b) (\<lambda>_ b. Ok (blen b) b))"

definition CBB_did_write :: "nat \<Rightarrow> nat \<Rightarrow> cbb_state \<Rightarrow> (unit, cbb_state) res" where
  "CBB_did_write i len s = (case base s of
     None \<Rightarrow> UB
   | Some b \<Rightarrow> (let newlen = (blen b + len) mod 2 ^ 64 in
       if length (chain s) \<le> i then UB
       else if Suc i < length (chain s) \<or> newlen < blen b \<or> cap b < newlen then Fail s
       else Ok () (s\<lparr>base := Some (b\<lparr>blen := newlen\<rparr>)\<rparr>)))"

definition CBB_add_u8 :: "cbb_mem \<Rightarrow> nat \<Rightarrow> byte \<Rightarrow> cbb_state \<Rightarrow> (unit, cbb_state) res" where
  "CBB_add_u8 mem i v = flushed mem i (cbb_buffer_add_u mem (ucast v) 1)"

definition CBB_add_u16 :: "cbb_mem \<Rightarrow> nat \<Rightarrow> u16 \<Rightarrow> cbb_state \<Rightarrow> (unit, cbb_state) res" where
  "CBB_add_u16 mem i v = flushed mem i (cbb_buffer_add_u mem (ucast v) 2)"

definition CBB_add_u24 :: "cbb_mem \<Rightarrow> nat \<Rightarrow> u32 \<Rightarrow> cbb_state \<Rightarrow> (unit, cbb_state) res" where
  "CBB_add_u24 mem i v = flushed mem i (cbb_buffer_add_u mem v 3)"

definition CBB_add_u32 :: "cbb_mem \<Rightarrow> nat \<Rightarrow> u32 \<Rightarrow> cbb_state \<Rightarrow> (unit, cbb_state) res" where
  "CBB_add_u32 mem i v = flushed mem i (cbb_buffer_add_u mem v 4)"

section \<open>Children\<close>

text \<open>The new child of \<open>i\<close> is \<open>Suc i\<close>.\<close>

definition open_child :: "nat \<Rightarrow> cbb \<Rightarrow> cbb_state \<Rightarrow> cbb_state" where
  "open_child i d s = s\<lparr>chain := take (Suc i) (chain s) @ [d]\<rparr>"

definition cbb_add_length_prefixed :: "cbb_mem \<Rightarrow> nat \<Rightarrow> nat \<Rightarrow> cbb_state \<Rightarrow> (unit, cbb_state) res" where
  "cbb_add_length_prefixed mem i len_len s =
     rbind (flushed mem i (\<lambda>b. rbind (cbb_buffer_add mem len_len b) (\<lambda>p b.
       Ok p (put_at p (replicate len_len 0) b))) s) (\<lambda>p s.
     Ok () (open_child i \<lparr>offset = p, pending_len_len = len_len, pending_is_asn1 = False\<rparr> s))"

definition CBB_add_u8_length_prefixed :: "cbb_mem \<Rightarrow> nat \<Rightarrow> cbb_state \<Rightarrow> (unit, cbb_state) res" where
  "CBB_add_u8_length_prefixed mem i = cbb_add_length_prefixed mem i 1"

definition CBB_add_u16_length_prefixed :: "cbb_mem \<Rightarrow> nat \<Rightarrow> cbb_state \<Rightarrow> (unit, cbb_state) res" where
  "CBB_add_u16_length_prefixed mem i = cbb_add_length_prefixed mem i 2"

definition CBB_add_u24_length_prefixed :: "cbb_mem \<Rightarrow> nat \<Rightarrow> cbb_state \<Rightarrow> (unit, cbb_state) res" where
  "CBB_add_u24_length_prefixed mem i = cbb_add_length_prefixed mem i 3"

definition CBB_discard_child :: "nat \<Rightarrow> cbb_state \<Rightarrow> cbb_state" where
  "CBB_discard_child i s =
     (if Suc i < length (chain s)
      then s\<lparr>base := map_option (\<lambda>b. b\<lparr>blen := offset (chain s ! Suc i)\<rparr>) (base s),
        chain := take (Suc i) (chain s)\<rparr>
      else s)"

section \<open>ASN.1\<close>

function base128_len :: "u64 \<Rightarrow> nat" where
  "base128_len copy = (if copy = 0 then 0 else Suc (base128_len (drop_bit 7 copy)))"
  by pat_completeness auto

termination
proof (relation "measure unat")
  fix copy :: u64
  assume "copy \<noteq> 0"
  then have "unat (drop_bit 7 copy) < unat copy" by (simp add: drop_bit_eq_div unat_div unat_gt_0)
  then show "(drop_bit 7 copy, copy) \<in> measure unat" by simp
qed simp

declare base128_len.simps [simp del]

text \<open>The bytes numbered from \<open>k - 1\<close> down to 0.\<close>

fun base128_write :: "cbb_mem \<Rightarrow> nat \<Rightarrow> u64 \<Rightarrow> nat \<Rightarrow> cbb_state \<Rightarrow> (unit, cbb_state) res" where
  "base128_write mem c v 0 s = Ok () s"
| "base128_write mem c v (Suc i) s =
     (let b = ucast (drop_bit (7 * i) v) AND 0x7F; b = (if i \<noteq> 0 then b OR 0x80 else b) in
      rbind (CBB_add_u8 mem c b s) (\<lambda>_. base128_write mem c v i))"

definition add_base128_integer :: "cbb_mem \<Rightarrow> nat \<Rightarrow> u64 \<Rightarrow> cbb_state \<Rightarrow> (unit, cbb_state) res" where
  "add_base128_integer mem c v = (let len_len = base128_len v in
     base128_write mem c v (if len_len = 0 then 1 else len_len))"

definition CBB_add_asn1 :: "cbb_mem \<Rightarrow> nat \<Rightarrow> u32 \<Rightarrow> cbb_state \<Rightarrow> (unit, cbb_state) res" where
  "CBB_add_asn1 mem i tag s =
     rbind (CBB_flush mem i s) (\<lambda>_ s.
     let tag_bits = ucast (drop_bit CBS_ASN1_TAG_SHIFT tag) AND 0xE0 :: byte;
         tag_number = tag AND CBS_ASN1_TAG_NUMBER_MASK
     in rbind (if 0x1F \<le> tag_number
          then rbind (CBB_add_u8 mem i (tag_bits OR 0x1F) s) (\<lambda>_. add_base128_integer mem i (ucast tag_number))
          else CBB_add_u8 mem i (tag_bits OR ucast tag_number) s) (\<lambda>_ s.
        rbind (on_base (\<lambda>b. Ok (blen b) b) s) (\<lambda>p s.
        rbind (CBB_add_u8 mem i 0 s) (\<lambda>_ s.
        Ok () (open_child i \<lparr>offset = p, pending_len_len = 1, pending_is_asn1 = True\<rparr> s)))))"

text \<open>The bytes of \<open>value\<close> numbered from \<open>8 - k\<close>, with what \<open>started\<close> is at the end.\<close>

fun uint64_write :: "cbb_mem \<Rightarrow> nat \<Rightarrow> u64 \<Rightarrow> nat \<Rightarrow> bool \<Rightarrow> cbb_state \<Rightarrow> (bool, cbb_state) res" where
  "uint64_write mem c v 0 started s = Ok started s"
| "uint64_write mem c v (Suc k) started s =
     (let b = ucast (drop_bit (8 * k) v AND 0xFF) :: byte in
      if \<not> started \<and> b = 0 then uint64_write mem c v k started s
      else rbind (if \<not> started \<and> b AND 0x80 \<noteq> 0 then CBB_add_u8 mem c 0 s else Ok () s) (\<lambda>_ s.
        rbind (CBB_add_u8 mem c b s) (\<lambda>_. uint64_write mem c v k True)))"

definition CBB_add_asn1_uint64 :: "cbb_mem \<Rightarrow> nat \<Rightarrow> u64 \<Rightarrow> cbb_state \<Rightarrow> (unit, cbb_state) res" where
  "CBB_add_asn1_uint64 mem i v s =
     rbind (CBB_add_asn1 mem i CBS_ASN1_INTEGER s) (\<lambda>_ s.
     rbind (uint64_write mem (Suc i) v 8 False s) (\<lambda>started s.
     rbind (if \<not> started then CBB_add_u8 mem (Suc i) 0 s else Ok () s) (\<lambda>_.
     CBB_flush mem i)))"

definition CBB_add_asn1_octet_string :: "cbb_mem \<Rightarrow> nat \<Rightarrow> byte list \<Rightarrow> cbb_state \<Rightarrow> (unit, cbb_state) res" where
  "CBB_add_asn1_octet_string mem i data s =
     rbind (CBB_add_asn1 mem i CBS_ASN1_OCTETSTRING s) (\<lambda>_ s.
     rbind (CBB_add_bytes mem (Suc i) data s) (\<lambda>_. CBB_flush mem i))"

definition CBB_add_asn1_bool :: "cbb_mem \<Rightarrow> nat \<Rightarrow> int \<Rightarrow> cbb_state \<Rightarrow> (unit, cbb_state) res" where
  "CBB_add_asn1_bool mem i v s =
     rbind (CBB_add_asn1 mem i CBS_ASN1_BOOLEAN s) (\<lambda>_ s.
     rbind (CBB_add_u8 mem (Suc i) (if v \<noteq> 0 then 0xFF else 0) s) (\<lambda>_. CBB_flush mem i))"

section \<open>Sets\<close>

definition compare_set_of_element :: "cbs \<Rightarrow> cbs \<Rightarrow> int" where
  "compare_set_of_element a b = (let min_len = min (CBS_len a) (CBS_len b);
      ret = memcmp (take min_len a) (take min_len b) in
     if ret \<noteq> 0 then ret
     else if CBS_len a = CBS_len b then 0
     else if CBS_len a < CBS_len b then - 1 else 1)"

text \<open>The elements in the contents; \<open>None\<close> if they do not parse. The fuel is the length, since every
  element takes at least one byte.\<close>

fun split_elements :: "nat \<Rightarrow> cbs \<Rightarrow> cbs list option" where
  "split_elements n [] = Some []"
| "split_elements 0 (b # cbs) = None"
| "split_elements (Suc n) (b # cbs) = (case CBS_get_any_asn1_element (b # cbs) of
     Ok (out, _, _) rest \<Rightarrow> map_option ((#) out) (split_elements n rest)
   | _ \<Rightarrow> None)"

fun add_children :: "cbb_mem \<Rightarrow> nat \<Rightarrow> cbs list \<Rightarrow> cbb_state \<Rightarrow> (unit, cbb_state) res" where
  "add_children mem i [] s = Ok () s"
| "add_children mem i (c # cs) s = rbind (CBB_add_bytes mem i c s) (\<lambda>_. add_children mem i cs)"

definition CBB_flush_asn1_set_of :: "cbb_mem \<Rightarrow> nat \<Rightarrow> cbb_state \<Rightarrow> (unit, cbb_state) res" where
  "CBB_flush_asn1_set_of mem i s = rbind (CBB_flush mem i s) (\<lambda>_ s.
     case CBB_data i s of
       None \<Rightarrow> UB
     | Some data \<Rightarrow> (case split_elements (length data) data of
         None \<Rightarrow> Fail s
       | Some children \<Rightarrow>
           if length children < 2 then Ok () s
           else if (2 ^ 64 - 1) div 16 < length children then Fail s
           else if BUF_memdup (grant mem) data = None \<or> \<not> grant mem (length children * 16) then Fail s
           else rbind (on_base (\<lambda>b. Ok () (b\<lparr>blen := offset (chain s ! i) + pending_len_len (chain s ! i)\<rparr>)) s)
             (\<lambda>_ s. rbind (add_children mem i (qsort compare_set_of_element children) s)
             (\<lambda>_ s. if CBB_len i s = Some (length data) then Ok () s else UB))))"

end
