(* ===== verification/Der.thy ===== *)
theory Der
  imports Cbs "HOL-Library.Sublist"
begin

text \<open>
  The distinguished encoding rules as functions from values to bytes, and the theorem that the
  parsers of \<open>cbs.c\<close> accept exactly these encodings: the contract is the locale \<open>exact_parser\<close>.
\<close>

section \<open>Exact parsers\<close>

text \<open>
  The parser accepts precisely the encodings of valid values, each followed by any bytes: it is
  complete and sound for \<open>enc\<close>. So no value has two encodings and no encoding is a prefix of
  another.
\<close>

locale exact_parser =
  fixes parse :: "'a parser" and enc :: "'a \<Rightarrow> byte list" and valid :: "'a \<Rightarrow> bool"
  assumes parse_enc: "valid x \<Longrightarrow> parse (enc x @ rest) = Ok x rest"
    and parse_sound: "parse cbs = Ok x rest \<Longrightarrow> valid x \<and> cbs = enc x @ rest"
begin

lemma parse_iff: "parse cbs = Ok x rest \<longleftrightarrow> valid x \<and> cbs = enc x @ rest"
  using parse_enc parse_sound by blast

lemma enc_unique: "valid x \<Longrightarrow> valid y \<Longrightarrow> enc x @ r = enc y @ r' \<Longrightarrow> x = y \<and> r = r'"
  by (metis parse_enc res.inject(1))

lemma enc_inject: "valid x \<Longrightarrow> valid y \<Longrightarrow> enc x = enc y \<longleftrightarrow> x = y"
  using enc_unique [of x y "[]" "[]"] by auto

lemma consumes: "parse cbs = Ok x rest \<Longrightarrow> length cbs = length (enc x) + length rest"
  using parse_sound by fastforce

end

section \<open>Integers\<close>

lemma cbs_get_Ok: "cbs_get n cbs = Ok bs rest \<longleftrightarrow> length bs = n \<and> cbs = bs @ rest"
  by (auto simp: cbs_get_def)

lemma CBS_get_bytes_Ok: "CBS_get_bytes n cbs = Ok bs rest \<longleftrightarrow> length bs = n \<and> cbs = bs @ rest"
  by (auto simp: CBS_get_bytes_def CBS_init_def cbs_get_def)

lemma CBS_get_u8_Ok: "CBS_get_u8 cbs = Ok b rest \<longleftrightarrow> cbs = b # rest"
  by (cases cbs) (auto simp: CBS_get_u8_def cbs_get_def)

lemma CBS_get_u8_simps [simp]: "CBS_get_u8 (b # rest) = Ok b rest" "CBS_get_u8 [] = Fail []"
  by (simp_all add: CBS_get_u8_def cbs_get_def)

interpretation u8: exact_parser CBS_get_u8 "\<lambda>b. [b]" "\<lambda>_. True"
  by unfold_locales (simp_all add: CBS_get_u8_Ok)

lemma cbs_get_u_Ok:
  assumes "n \<le> 4"
  shows "cbs_get_u n cbs = Ok v rest \<longleftrightarrow> unat v < 2 ^ (8 * n) \<and> cbs = be_bytes n v @ rest"
proof
  assume "cbs_get_u n cbs = Ok v rest"
  then obtain bs where "length bs = n" "cbs = bs @ rest" "v = of_be bs"
    by (auto simp: cbs_get_u_def rbind_Ok_iff cbs_get_Ok)
  then show "unat v < 2 ^ (8 * n) \<and> cbs = be_bytes n v @ rest"
    using be_bytes_of_be [of bs, where 'a = 32] unat_of_be_less [of bs, where 'a = 32] assms by simp
next
  assume *: "unat v < 2 ^ (8 * n) \<and> cbs = be_bytes n v @ rest"
  then have "take_bit (8 * n) v = v"
    by (metis take_bit_nat_eq_self unsigned_take_bit_eq unsigned_word_eqI)
  with * show "cbs_get_u n cbs = Ok v rest"
    by (simp add: cbs_get_u_def rbind_Ok_iff cbs_get_Ok of_be_be_bytes)
qed

interpretation u24: exact_parser CBS_get_u24 "be_bytes 3" "\<lambda>v. unat v < 2 ^ 24"
  by unfold_locales (simp_all add: CBS_get_u24_def cbs_get_u_Ok)

interpretation u32: exact_parser CBS_get_u32 "be_bytes 4" "\<lambda>_. True"
  by unfold_locales (use unsigned_less [where 'a = nat and 'b = 32] in \<open>simp_all add: CBS_get_u32_def cbs_get_u_Ok\<close>)

section \<open>Base-128 integers\<close>

text \<open>All groups of seven bits, with the continuation bit on all but the last.\<close>

fun base128_groups :: "nat \<Rightarrow> byte list" where
  "base128_groups n =
     (if n = 0 then [] else base128_groups (n div 128) @ [of_nat (n mod 128) OR 0x80])"

declare base128_groups.simps [simp del]

definition base128_bytes :: "nat \<Rightarrow> byte list" where
  "base128_bytes n = base128_groups (n div 128) @ [of_nat (n mod 128)]"

lemma base128_groups_0 [simp]: "base128_groups 0 = []"
  by (simp add: base128_groups.simps)

lemma unat_and_7F: "unat (b AND 0x7F :: byte) = unat b mod 128"
  unfolding and_7F unsigned_take_bit_eq by (simp add: take_bit_eq_mod)

lemma byte_low_half: "b AND 0x80 = 0 \<Longrightarrow> unat (b :: byte) < 128"
proof -
  assume "b AND 0x80 = 0"
  then have "take_bit 7 b = b"
    unfolding and_80 by (intro bit_eqI) (auto simp: bit_simps less_Suc_eq numeral_eq_Suc)
  then have "unat b = take_bit 7 (unat b)" by (metis unsigned_take_bit_eq)
  then show ?thesis using take_bit_nat_less_exp [of 7 "unat b"] by simp
qed

lemma byte_high_half: "b AND 0x80 \<noteq> 0 \<Longrightarrow> (b AND 0x7F) OR 0x80 = (b :: byte)"
  unfolding and_80 and_7F or_80 by (rule bit_eqI) (auto simp: bit_simps less_Suc_eq numeral_eq_Suc)

lemma drop_bit_zero_less: "drop_bit k v = 0 \<longleftrightarrow> unat v < 2 ^ k" for v :: "'a::len word"
proof -
  have "drop_bit k v = 0 \<longleftrightarrow> drop_bit k (unat v) = 0"
    by (simp add: unsigned_drop_bit_eq take_bit_nat_eq_self flip: unat_eq_0)
  then show ?thesis by (simp add: drop_bit_eq_div div_eq_0_iff)
qed

lemma base128_step:
  fixes v :: u64 and b :: byte
  assumes "drop_bit (64 - 7) v = 0"
  shows "unat (push_bit 7 v OR ucast (b AND 0x7F)) = unat v * 128 + unat b mod 128"
proof -
  have "unat v < 2 ^ 57" using assms unfolding drop_bit_zero_less by simp
  moreover have "unat (ucast (b AND 0x7F) :: u64) = unat b mod 128"
    unfolding unsigned_ucast_eq unat_and_7F by (rule take_bit_nat_eq_self) (simp add: less_le_trans [OF mod_less_divisor])
  moreover have "unat b mod 128 < 128" by simp
  ultimately show ?thesis
    using unat_push_or [of v 7 "ucast (b AND 0x7F)"] by simp
qed

lemma base128_groups_step:
  "0 < n \<Longrightarrow> base128_groups n = base128_groups (n div 128) @ [of_nat (n mod 128) OR 0x80]"
  by (simp add: base128_groups.simps [of n])

lemma base128_groups_byte:
  assumes "b AND 0x80 \<noteq> 0" and "0 < m * 128 + unat b mod 128"
  shows "base128_groups (m * 128 + unat b mod 128) = base128_groups m @ [b]"
proof -
  have "of_nat (unat b mod 128) = b AND 0x7F" using unat_and_7F [of b] by (metis of_nat_unat ucast_id)
  then show ?thesis
    using base128_groups_step [OF assms(2)] byte_high_half [OF assms(1)] by simp
qed

lemma base128_bytes_byte:
  assumes "b AND 0x80 = 0"
  shows "base128_bytes (m * 128 + unat b) = base128_groups m @ [b]"
  using byte_low_half [OF assms] by (simp add: base128_bytes_def)

lemma base128_loop_Cons:
  assumes "drop_bit (64 - 7) v = 0" and "\<not> (v = 0 \<and> b = 0x80)"
  shows "base128_loop v (b # cbs) =
    (if b AND 0x80 \<noteq> 0 then base128_loop (push_bit 7 v OR ucast (b AND 0x7F)) cbs
     else Ok (push_bit 7 v OR ucast (b AND 0x7F)) cbs)"
  using assms by (auto simp: Let_def)

lemma base128_loop_sound:
  assumes "base128_loop v cbs = Ok w rest"
  shows "base128_groups (unat v) @ cbs = base128_bytes (unat w) @ rest"
  using assms
proof (induction v cbs rule: base128_loop.induct)
  case (2 v b cbs)
  let ?v = "push_bit 7 v OR ucast (b AND 0x7F)"
  have z: "drop_bit (64 - 7) v = 0" and nz: "\<not> (v = 0 \<and> b = 0x80)"
    using 2(2) by (auto split: if_splits)
  note step = base128_step [OF z, of b]
  show ?case
  proof (cases "b AND 0x80 = 0")
    case True
    then have "w = ?v \<and> rest = cbs" using 2(2) by (simp add: base128_loop_Cons [OF z nz] del: base128_loop.simps)
    then show ?thesis
      using base128_bytes_byte [OF True, of "unat v"] step byte_low_half [OF True] by simp
  next
    case False
    then have "base128_loop ?v cbs = Ok w rest"
      using 2(2) by (simp add: base128_loop_Cons [OF z nz] del: base128_loop.simps)
    then have IH: "base128_groups (unat ?v) @ cbs = base128_bytes (unat w) @ rest"
      using 2(1) z nz False by blast
    have "0 < unat v * 128 + unat b mod 128"
    proof (rule ccontr)
      assume "\<not> ?thesis"
      then have "v = 0" and "unat (b AND 0x7F) = 0" by (simp_all add: unat_and_7F unat_eq_0)
      then have "b = 0x80" using byte_high_half [OF False] by (simp add: unat_eq_0)
      with \<open>v = 0\<close> nz show False by simp
    qed
    then show ?thesis using IH step base128_groups_byte [OF False, of "unat v"] by simp
  qed
qed simp

lemma base128_group_bits:
  assumes "g < 128"
  shows "(of_nat g OR 0x80 :: byte) AND 0x80 \<noteq> 0" "(of_nat g OR 0x80 :: byte) AND 0x7F = of_nat g"
    "(of_nat g :: byte) AND 0x80 = 0" "(of_nat g :: byte) AND 0x7F = of_nat g"
    "of_nat g OR 0x80 = (0x80 :: byte) \<longleftrightarrow> g = 0"
proof -
  have low: "take_bit 7 (of_nat g :: byte) = of_nat g"
    using assms by (simp add: take_bit_of_nat take_bit_nat_eq_self)
  have hi: "n < 7" if "bit (of_nat g :: byte) n" for n using that low by (metis bit_take_bit_iff)
  then have no7: "\<not> bit (of_nat g :: byte) 7" by blast
  show "(of_nat g OR 0x80 :: byte) AND 0x80 \<noteq> 0" unfolding and_80 or_80 by (simp add: bit_set_bit_iff)
  show *: "(of_nat g OR 0x80 :: byte) AND 0x7F = of_nat g"
    unfolding or_80 and_7F by (rule bit_eqI) (auto simp: bit_take_bit_iff bit_set_bit_iff dest: hi)
  show "(of_nat g :: byte) AND 0x80 = 0" unfolding and_80 by (rule no7)
  show "(of_nat g :: byte) AND 0x7F = of_nat g" unfolding and_7F by (rule low)
  have "g = 0" if "of_nat g OR 0x80 = (0x80 :: byte)"
  proof -
    have "of_nat g = (0 :: byte)" using * unfolding that by simp
    then have "unat (of_nat g :: byte) = 0" by simp
    then show ?thesis using assms unfolding unat_of_nat by simp
  qed
  then show "of_nat g OR 0x80 = (0x80 :: byte) \<longleftrightarrow> g = 0" by auto
qed

lemma base128_loop_groups:
  assumes "n < 2 ^ 57"
  shows "base128_loop 0 (base128_groups n @ cbs) = base128_loop (of_nat n) cbs"
  using assms
proof (induction n arbitrary: cbs rule: base128_groups.induct)
  case (1 n)
  show ?case
  proof (cases "n = 0")
    case False
    let ?b = "of_nat (n mod 128) OR 0x80 :: byte" and ?v = "of_nat (n div 128) :: u64"
    have bits: "?b AND 0x80 \<noteq> 0" "?b AND 0x7F = of_nat (n mod 128)" "?b = 0x80 \<longleftrightarrow> n mod 128 = 0"
      by (rule base128_group_bits; simp)+
    have v: "unat ?v = n div 128" using 1(2) by (simp add: unat_of_nat)
    then have z: "drop_bit (64 - 7) ?v = 0" using 1(2) by (simp add: drop_bit_zero_less)
    have "unat ?b mod 128 = n mod 128" using bits(2) unat_and_7F [of ?b] by (simp add: unat_of_nat)
    then have "unat (push_bit 7 ?v OR ucast (?b AND 0x7F)) = n"
      using base128_step [OF z, of ?b] v by simp
    then have nxt: "push_bit 7 ?v OR ucast (?b AND 0x7F) = of_nat n"
      by (metis of_nat_unat ucast_id)
    have nz: "\<not> (?v = 0 \<and> ?b = 0x80)"
      using False v bits(3) by (metis div_mult_mod_eq mult_0 add_0 unat_0)
    have "base128_loop 0 (base128_groups n @ cbs) = base128_loop ?v (?b # cbs)"
      using 1(1) [OF False, of "?b # cbs"] 1(2) False by (simp add: base128_groups_step)
    also have "\<dots> = base128_loop (of_nat n) cbs"
      using z nz bits(1) nxt by (simp only: base128_loop_Cons [OF z nz] if_True not_False_eq_True)
    finally show ?thesis .
  qed simp
qed

lemma base128_loop_bytes:
  "base128_loop 0 (base128_bytes (unat v) @ rest) = Ok v rest" for v :: u64
proof -
  let ?b = "of_nat (unat v mod 128) :: byte" and ?v = "of_nat (unat v div 128) :: u64"
  have bits: "?b AND 0x80 = 0" "?b AND 0x7F = ?b" by (rule base128_group_bits; simp)+
  have bound: "unat v div 128 < 2 ^ 57" using unsigned_less [of v, where 'a = nat] by simp
  have v: "unat ?v = unat v div 128" using bound by (simp add: unat_of_nat)
  have z: "drop_bit (64 - 7) ?v = 0" using bound unfolding drop_bit_zero_less v by simp
  have nz: "\<not> (?v = 0 \<and> ?b = 0x80)" using bits(1) by auto
  have "unat ?b mod 128 = unat v mod 128" using unat_and_7F [of ?b] bits(2) by (simp add: unat_of_nat)
  then have "unat (push_bit 7 ?v OR ucast (?b AND 0x7F)) = unat v"
    using base128_step [OF z, of ?b] v by simp
  then have "push_bit 7 ?v OR ucast (?b AND 0x7F) = v" by (rule word_unat_eq_iff [THEN iffD2])
  moreover have "base128_loop 0 (base128_bytes (unat v) @ rest) = base128_loop ?v (?b # rest)"
    using base128_loop_groups [OF bound, of "?b # rest"] by (simp add: base128_bytes_def)
  ultimately show ?thesis
    using bits(1) by (simp only: base128_loop_Cons [OF z nz]) simp
qed

interpretation base128: exact_parser parse_base128_integer "\<lambda>v. base128_bytes (unat v)" "\<lambda>_. True"
  by unfold_locales (use base128_loop_sound [of 0] in \<open>auto simp: parse_base128_integer_def base128_loop_bytes\<close>)

section \<open>Tags\<close>

text \<open>The class and the constructed bit above the number; a number of 31 or more follows the
  first byte as a base-128 integer.\<close>

definition tag_number :: "u32 \<Rightarrow> u32" where
  "tag_number t = t AND CBS_ASN1_TAG_NUMBER_MASK"

definition tag_bits :: "u32 \<Rightarrow> byte" where
  "tag_bits t = ucast (drop_bit CBS_ASN1_TAG_SHIFT t) AND 0xE0"

definition der_tag :: "u32 \<Rightarrow> byte list" where
  "der_tag t = (if 0x1F \<le> tag_number t then (tag_bits t OR 0x1F) # base128_bytes (unat (tag_number t))
     else [tag_bits t OR ucast (tag_number t)])"

lemma tag_number_eq: "tag_number t = take_bit 29 t"
  unfolding tag_number_def by (simp add: take_bit_eq_mask mask_eq_exp_minus_1)

lemma bit_E0: "bit (0xE0 :: 'a::len word) n \<longleftrightarrow> n < LENGTH('a) \<and> 5 \<le> n \<and> n < 8"
proof -
  have e: "(0xE0 :: 'a word) = push_bit 5 (mask 3)" by (simp add: mask_eq_exp_minus_1 push_bit_eq_mult)
  show ?thesis unfolding e by (auto simp: bit_simps)
qed

lemma bit_1F: "bit (0x1F :: 'a::len word) n \<longleftrightarrow> n < LENGTH('a) \<and> n < 5"
proof -
  have e: "(0x1F :: 'a word) = mask 5" by (simp add: mask_eq_exp_minus_1)
  show ?thesis unfolding e by (auto simp: bit_simps)
qed

lemma tag_parts:
  assumes "\<And>n. bit x n \<Longrightarrow> n < 5"
  shows "push_bit CBS_ASN1_TAG_SHIFT (ucast (tag_bits t OR x) AND 0xE0) OR tag_number t = t"
proof -
  define y where "y = (ucast (tag_bits t OR x) AND 0xE0 :: u32)"
  have tb: "bit (tag_bits t) m \<longleftrightarrow> 5 \<le> m \<and> m < 8 \<and> bit t (24 + m)" for m
    unfolding tag_bits_def bit_and_iff bit_E0 bit_unsigned_iff bit_drop_bit_eq comp_def by auto
  have bit_y: "bit y m \<longleftrightarrow> 5 \<le> m \<and> m < 8 \<and> bit t (24 + m)" for m
    unfolding y_def bit_and_iff bit_E0 bit_unsigned_iff bit_or_iff tb using assms [of m] by auto
  have y: "bit (push_bit 24 y) n \<longleftrightarrow> 29 \<le> n \<and> bit t n" if "n < 32" for n
  proof (cases "24 \<le> n")
    case True
    then obtain m where "n = 24 + m" using le_Suc_ex by blast
    with that show ?thesis by (simp add: bit_push_bit_iff bit_y)
  qed (simp add: bit_push_bit_iff)
  have "bit (push_bit 24 y OR take_bit 29 t) n \<longleftrightarrow> bit t n" if "n < 32" for n
    unfolding bit_or_iff y [OF that] bit_take_bit_iff by auto
  then show ?thesis
    unfolding y_def [symmetric] tag_number_eq by (intro bit_eqI) simp
qed

lemma tag_first_byte:
  assumes "\<And>n. bit x n \<Longrightarrow> n < 5"
  shows "(tag_bits t OR x) AND 0x1F = x"
  unfolding tag_bits_def
  by (rule bit_eqI) (auto simp: bit_and_iff bit_or_iff bit_unsigned_iff bit_E0 bit_1F simp del: bit_numeral_word_iff dest: assms)

lemma tag_number_small:
  assumes "tag_number t < 0x1F"
  shows "bit (ucast (tag_number t) :: byte) n \<Longrightarrow> n < 5" and "ucast (tag_number t) \<noteq> (0x1F :: byte)"
    and "ucast (ucast (tag_number t) :: byte) = tag_number t"
proof -
  have u: "unat (tag_number t) < 31" using assms by (simp add: word_less_nat_alt)
  then have t5: "take_bit 5 (unat (tag_number t)) = unat (tag_number t)" by (simp add: take_bit_nat_eq_self)
  show "n < 5" if "bit (ucast (tag_number t) :: byte) n"
  proof -
    have "bit (unat (tag_number t)) n" using that by (simp add: bit_unsigned_iff)
    then show ?thesis by (metis t5 bit_take_bit_iff)
  qed
  have b: "unat (ucast (tag_number t) :: byte) = unat (tag_number t)"
    unfolding unsigned_ucast_eq by (intro take_bit_nat_eq_self less_trans [OF u]) simp
  show "ucast (tag_number t) \<noteq> (0x1F :: byte)"
  proof
    assume eq: "ucast (tag_number t) = (0x1F :: byte)"
    from b show False unfolding eq using u by simp
  qed
  have "unat (ucast (ucast (tag_number t) :: byte) :: u32) = unat (tag_number t)"
    unfolding unsigned_ucast_eq [of "ucast (tag_number t) :: byte"] b using u by (simp add: take_bit_nat_eq_self)
  then show "ucast (ucast (tag_number t) :: byte) = tag_number t" by (rule word_unat_eq_iff [THEN iffD2])
qed

lemma tag_number_wide:
  fixes t :: u32
  shows "unat (ucast (tag_number t) :: u64) = unat (tag_number t)"
    and "\<not> ucast CBS_ASN1_TAG_NUMBER_MASK < (ucast (tag_number t) :: u64)"
    and "0x1F \<le> tag_number t \<Longrightarrow> \<not> (ucast (tag_number t) :: u64) < 0x1F"
    and "ucast (ucast (tag_number t) :: u64) = tag_number t"
proof -
  have "unat (tag_number t) = take_bit 29 (unat t)" unfolding tag_number_eq unsigned_take_bit_eq ..
  then have u: "unat (tag_number t) < 2 ^ 29" by (metis take_bit_nat_less_exp)
  show w: "unat (ucast (tag_number t) :: u64) = unat (tag_number t)"
    unfolding unsigned_ucast_eq using u by (simp add: take_bit_nat_eq_self)
  show "\<not> ucast CBS_ASN1_TAG_NUMBER_MASK < (ucast (tag_number t) :: u64)"
    unfolding word_less_nat_alt w using u by simp
  show "\<not> (ucast (tag_number t) :: u64) < 0x1F" if "0x1F \<le> tag_number t"
    using that unfolding word_less_nat_alt w word_le_nat_alt by simp
  have "unat (ucast (ucast (tag_number t) :: u64) :: u32) = unat (tag_number t)"
    unfolding unsigned_ucast_eq [of "ucast (tag_number t) :: u64"] w using u by (simp add: take_bit_nat_eq_self)
  then show "ucast (ucast (tag_number t) :: u64) = tag_number t" by (rule word_unat_eq_iff [THEN iffD2])
qed

lemma parse_asn1_tag_enc: "parse_asn1_tag (der_tag t @ rest) = Ok t rest"
proof (cases "0x1F \<le> tag_number t")
  case True
  have bytes: "der_tag t = (tag_bits t OR 0x1F) # base128_bytes (unat (tag_number t))"
    using True by (simp add: der_tag_def)
  have x: "\<And>n. bit (0x1F :: byte) n \<Longrightarrow> n < 5" by (simp add: bit_1F del: bit_numeral_word_iff)
  have "parse_base128_integer (base128_bytes (unat (tag_number t)) @ rest) = Ok (ucast (tag_number t)) rest"
    using base128.parse_enc [of "ucast (tag_number t)" rest] tag_number_wide(1) [of t] by simp
  then show ?thesis
    unfolding bytes parse_asn1_tag_def
    using tag_number_wide [of t] True tag_first_byte [where x = "0x1F" and t = t, OF x] tag_parts [where x = "0x1F" and t = t, OF x]
    by (simp add: Let_def)
next
  case False
  then have small: "tag_number t < 0x1F" by simp
  have bytes: "der_tag t = [tag_bits t OR ucast (tag_number t)]" using False by (simp add: der_tag_def)
  show ?thesis unfolding bytes
    using tag_number_small [of t] tag_first_byte [where x = "ucast (tag_number t)" and t = t] tag_parts [where x = "ucast (tag_number t)" and t = t]
    by (simp add: parse_asn1_tag_def Let_def small)
qed

lemma asn1_tag_split:
  assumes "\<And>n. bit x n \<Longrightarrow> n < 29"
  shows "tag_number (push_bit CBS_ASN1_TAG_SHIFT (ucast (b :: byte) AND 0xE0) OR x) = x"
    and "tag_bits (push_bit CBS_ASN1_TAG_SHIFT (ucast b AND 0xE0) OR x) = b AND 0xE0"
proof -
  define y where "y = (ucast b AND 0xE0 :: u32)"
  have y: "bit y m \<longleftrightarrow> 5 \<le> m \<and> m < 8 \<and> bit b m" for m
    unfolding y_def bit_and_iff bit_E0 bit_unsigned_iff by auto
  show "tag_number (push_bit CBS_ASN1_TAG_SHIFT (ucast b AND 0xE0) OR x) = x"
    unfolding tag_number_eq y_def [symmetric]
    by (rule bit_eqI) (auto simp: bit_take_bit_iff bit_or_iff bit_push_bit_iff y dest: assms)
  show "tag_bits (push_bit CBS_ASN1_TAG_SHIFT (ucast b AND 0xE0) OR x) = b AND 0xE0"
    unfolding tag_bits_def y_def [symmetric]
    by (rule bit_eqI)
      (auto simp: bit_and_iff bit_or_iff bit_unsigned_iff bit_drop_bit_eq bit_push_bit_iff bit_E0 y
        simp del: bit_numeral_word_iff dest: assms)
qed

lemma byte_E0_1F: "(b AND 0xE0) OR (b AND 0x1F) = (b :: byte)"
  by (rule bit_eqI) (auto simp: bit_and_iff bit_or_iff bit_E0 bit_1F simp del: bit_numeral_word_iff)

lemma parse_asn1_tag_sound:
  assumes "parse_asn1_tag cbs = Ok t rest"
  shows "cbs = der_tag t @ rest"
proof -
  obtain b c where cbs: "cbs = b # c" using assms by (cases cbs) (auto simp: parse_asn1_tag_def)
  let ?t = "push_bit CBS_ASN1_TAG_SHIFT (ucast b AND 0xE0) :: u32"
  show ?thesis
  proof (cases "b AND 0x1F = 0x1F")
    case True
    with assms obtain v where v: "parse_base128_integer c = Ok v rest" "v \<le> 0x1FFFFFFF" "0x1F \<le> v" "t = ?t OR ucast v"
      unfolding cbs parse_asn1_tag_def by (auto simp: Let_def rbind_Ok_iff not_less split: if_splits)
    have u: "unat v < 2 ^ 29" using v(2) by (simp add: word_le_nat_alt)
    have "take_bit 29 (unat v) = unat v" using u by (simp add: take_bit_nat_eq_self)
    moreover have "bit (unat v) n" if "bit (ucast v :: u32) n" for n using that by (simp add: bit_unsigned_iff)
    ultimately have "bit (ucast v :: u32) n \<Longrightarrow> n < 29" for n by (metis bit_take_bit_iff)
    note split = asn1_tag_split [where x = "ucast v" and b = b, OF this]
    have uv: "unat (ucast v :: u32) = unat v" unfolding unsigned_ucast_eq using u by (simp add: take_bit_nat_eq_self)
    then have "0x1F \<le> tag_number t" using v(3,4) split(1) by (simp add: word_le_nat_alt)
    moreover have "(b AND 0xE0) OR 0x1F = b" using byte_E0_1F [of b] True by simp
    moreover have "c = base128_bytes (unat v) @ rest" using base128.parse_sound [OF v(1)] by simp
    ultimately show ?thesis using split v(4) uv cbs by (simp add: der_tag_def)
  next
    case False
    then have t: "t = ?t OR ucast (b AND 0x1F)" "rest = c"
      using assms unfolding cbs parse_asn1_tag_def by (auto simp: Let_def)
    have "bit (ucast (b AND 0x1F) :: u32) n \<Longrightarrow> n < 29" for n
      by (auto simp: bit_unsigned_iff bit_and_iff bit_1F simp del: bit_numeral_word_iff)
    note split = asn1_tag_split [where x = "ucast (b AND 0x1F)" and b = b, OF this]
    have "b AND 0x1F \<le> 0x1F" by (rule word_and_le1)
    with False have "b AND 0x1F < 0x1F" by (simp add: order_less_le)
    then have less: "unat (b AND 0x1F) < 31" by (simp add: word_less_nat_alt)
    have up: "unat (ucast (b AND 0x1F) :: u32) = unat (b AND 0x1F)"
      unfolding unsigned_ucast_eq by (intro take_bit_nat_eq_self less_trans [OF less]) simp
    have "unat (ucast (ucast (b AND 0x1F) :: u32) :: byte) = unat (b AND 0x1F)"
      unfolding unsigned_ucast_eq [of "ucast (b AND 0x1F) :: u32"] up
      by (intro take_bit_nat_eq_self less_trans [OF less]) simp
    then have same: "ucast (ucast (b AND 0x1F) :: u32) = b AND 0x1F" by (rule word_unat_eq_iff [THEN iffD2])
    have tn: "tag_number t = ucast (b AND 0x1F)" unfolding t(1) by (rule split(1))
    have "ucast (tag_number t) = b AND 0x1F" unfolding tn by (rule same)
    moreover have "\<not> 0x1F \<le> tag_number t" unfolding tn word_le_nat_alt up using less by simp
    moreover have "tag_bits t = b AND 0xE0" unfolding t(1) by (rule split(2))
    ultimately have "der_tag t = [(b AND 0xE0) OR (b AND 0x1F)]" unfolding der_tag_def by simp
    then show ?thesis using t(2) cbs unfolding byte_E0_1F by simp
  qed
qed

interpretation asn1_tag: exact_parser parse_asn1_tag der_tag "\<lambda>_. True"
  by unfold_locales (simp_all add: parse_asn1_tag_enc parse_asn1_tag_sound)

section \<open>Elements\<close>

text \<open>Short form below 128, otherwise the shortest big-endian form with its size in front.\<close>

definition len_octets :: "nat \<Rightarrow> nat" where
  "len_octets n = (if n < 2 ^ 8 then 1 else if n < 2 ^ 16 then 2 else if n < 2 ^ 24 then 3 else 4)"

definition der_len :: "nat \<Rightarrow> byte list" where
  "der_len n = (if n < 128 then [of_nat n]
     else of_nat (128 + len_octets n) # be_bytes (len_octets n) (of_nat n :: u32))"

definition der_header :: "u32 \<Rightarrow> nat \<Rightarrow> byte list" where
  "der_header t n = der_tag t @ der_len n"

definition der_element :: "u32 \<Rightarrow> byte list \<Rightarrow> byte list" where
  "der_element t body = der_header t (length body) @ body"

lemma len_octets_bounds:
  "1 \<le> len_octets n" "len_octets n \<le> 4" "n < 2 ^ 32 \<Longrightarrow> n < 2 ^ (8 * len_octets n)"
  "128 \<le> n \<Longrightarrow> n < 2 ^ ((len_octets n - 1) * 8) \<longleftrightarrow> False"
  by (auto simp: len_octets_def)

lemma len_octets_unique:
  assumes "1 \<le> k" "k \<le> 4" "n < 2 ^ (8 * k)" "\<not> n < 2 ^ ((k - 1) * 8)"
  shows "len_octets n = k"
proof -
  have "k \<in> {1, 2, 3, 4}" using assms(1,2) by auto
  then show ?thesis using assms(3,4) by (auto simp: len_octets_def)
qed

lemma length_base128_groups: "length (base128_groups n) \<le> n"
proof (induction n rule: base128_groups.induct)
  case (1 n)
  then show ?case
    by (cases "n = 0") (auto simp: base128_groups_step intro!: order.trans [of _ "n div 128 + 1" n])
qed

lemma length_der_tag: "length (der_tag t) \<le> 2 ^ 32 + 2"
proof -
  have "unat (tag_number t) div 128 < 2 ^ 32"
    using unsigned_less [of "tag_number t", where 'a = nat] by (simp add: div_less_dividend less_mult_imp_div_less)
  then show ?thesis
    using length_base128_groups [of "unat (tag_number t) div 128"] by (simp add: der_tag_def base128_bytes_def)
qed

lemma length_byte:
  assumes "n < 128"
  shows "(of_nat n :: byte) AND 0x80 = 0" "unat (of_nat n :: byte) = n"
    "(of_nat (128 + n) :: byte) AND 0x80 \<noteq> 0" "unat ((of_nat (128 + n) :: byte) AND 0x7F) = n"
proof -
  show "(of_nat n :: byte) AND 0x80 = 0" by (rule base128_group_bits(3) [OF assms])
  show "unat (of_nat n :: byte) = n" using assms by (simp add: unat_of_nat)
  have u: "unat (of_nat (128 + n) :: byte) = 128 + n" unfolding unat_of_nat using assms by simp
  then show "(of_nat (128 + n) :: byte) AND 0x80 \<noteq> 0"
    using byte_low_half [of "of_nat (128 + n)"] by auto
  show "unat ((of_nat (128 + n) :: byte) AND 0x7F) = n" unfolding unat_and_7F u using assms by simp
qed

lemma any_asn1_element_short:
  assumes "parse_asn1_tag cbs = Ok t (lb # h)" and "lb AND 0x80 = 0"
  shows "cbs_get_any_asn1_element ber_ok cbs = (let hl = length cbs - length h in
    rbind (CBS_get_bytes (unat lb + hl) cbs) (\<lambda>out. Ok (out, t, hl)))"
  using assms by (simp add: cbs_get_any_asn1_element_def on_copy_def CBS_len_def)

lemma any_asn1_element_long:
  assumes "parse_asn1_tag cbs = Ok t (lb # h)" and "lb AND 0x80 \<noteq> 0" and "unat (lb AND 0x7F) = k"
    and "1 \<le> k" "k \<le> 4" and "cbs_get_u k h = Ok len32 h'"
    and "\<not> len32 < 128" and "drop_bit ((k - 1) * 8) len32 \<noteq> 0"
  shows "cbs_get_any_asn1_element ber_ok cbs = (let hl = length cbs - length h in
    if (unat len32 + hl + k) mod 2 ^ 64 < unat len32 then Fail cbs
    else rbind (CBS_get_bytes (unat len32 + hl + k) cbs) (\<lambda>out. Ok (out, t, hl + k)))"
proof -
  have "k \<noteq> 0" "\<not> 4 < k" using assms(4,5) by auto
  then show ?thesis
    unfolding cbs_get_any_asn1_element_def assms(1) on_copy_def res.case CBS_get_u8_simps CBS_len_def
      Let_def assms(3)
    using assms(2,6-8) by simp
qed

lemma any_asn1_element_enc:
  assumes "length body < 2 ^ 32"
  shows "cbs_get_any_asn1_element ber_ok (der_element t body @ rest) =
    Ok (der_element t body, t, length (der_header t (length body))) rest"
proof -
  let ?n = "length body"
  have tag: "parse_asn1_tag (der_element t body @ rest) = Ok t (der_len ?n @ body @ rest)"
    by (simp add: der_element_def der_header_def parse_asn1_tag_enc)
  show ?thesis
  proof (cases "?n < 128")
    case True
    then show ?thesis
      using length_byte(1,2) [OF True] tag
      by (simp add: cbs_get_any_asn1_element_def on_copy_def Let_def CBS_len_def der_len_def
          der_element_def der_header_def CBS_get_bytes_def cbs_get_def CBS_init_def)
  next
    case False
    let ?k = "len_octets ?n" and ?v = "of_nat ?n :: u32"
    have k: "1 \<le> ?k" "?k \<le> 4" "?n < 2 ^ (8 * ?k)" "\<not> ?n < 2 ^ ((?k - 1) * 8)"
      using len_octets_bounds [of ?n] assms False by auto
    have lb: "(of_nat (128 + ?k) :: byte) AND 0x80 \<noteq> 0" "unat ((of_nat (128 + ?k) :: byte) AND 0x7F) = ?k"
      by (rule length_byte(3,4), use k(2) in simp)+
    have v: "unat ?v = ?n" using assms by (simp add: unat_of_nat)
    have get: "cbs_get_u ?k (be_bytes ?k ?v @ body @ rest) = Ok ?v (body @ rest)"
      using k v by (simp add: cbs_get_u_Ok)
    have conds: "\<not> ?v < 128" "drop_bit ((?k - 1) * 8) ?v \<noteq> 0"
      using False k(4) v by (simp_all add: word_less_nat_alt drop_bit_zero_less)
    have fits: "(?n + (length (der_tag t) + 1) + ?k) mod 2 ^ 64 = ?n + (length (der_tag t) + 1) + ?k"
      using length_der_tag [of t] k(2) assms by simp
    have split: "der_element t body @ rest =
        der_tag t @ of_nat (128 + ?k) # be_bytes ?k ?v @ body @ rest"
      using False by (simp add: der_element_def der_header_def der_len_def)
    have parse: "parse_asn1_tag (der_element t body @ rest) =
        Ok t (of_nat (128 + ?k) # be_bytes ?k ?v @ body @ rest)"
      unfolding split by (rule parse_asn1_tag_enc)
    have hl: "length (der_element t body @ rest) - length (be_bytes ?k ?v @ body @ rest) = length (der_tag t) + 1"
      unfolding split by simp
    have total: "?n + (length (der_tag t) + 1) + ?k = length (der_element t body)"
      "length (der_tag t) + 1 + ?k = length (der_header t ?n)"
      using False by (simp_all add: der_element_def der_header_def der_len_def)
    show ?thesis
      unfolding any_asn1_element_long [OF parse lb k(1,2) get conds] Let_def hl v fits
      unfolding total by (simp add: CBS_get_bytes_def cbs_get_def CBS_init_def not_less)
        (simp add: der_element_def)
  qed
qed

lemma any_asn1_element_sound:
  assumes "cbs_get_any_asn1_element False cbs = Ok (out, t, hl) rest"
  shows "\<exists>body. length body < 2 ^ 32 \<and> out = der_element t body \<and> hl = length (der_header t (length body)) \<and>
    cbs = out @ rest"
proof -
  from assms obtain lb h where tag: "parse_asn1_tag cbs = Ok t (lb # h)"
    unfolding cbs_get_any_asn1_element_def on_copy_def
    by (auto simp: Let_def CBS_get_u8_Ok rbind_Ok_iff split: res.splits if_splits)
  have cbs: "cbs = der_tag t @ lb # h" by (rule parse_asn1_tag_sound [OF tag])
  then have hl: "length cbs - length h = length (der_tag t) + 1" by simp
  show ?thesis
  proof (cases "lb AND 0x80 = 0")
    case True
    from assms have "CBS_get_bytes (unat lb + (length (der_tag t) + 1)) cbs = Ok out rest"
      and hl': "length (der_tag t) + 1 = hl"
      unfolding any_asn1_element_short [OF tag True] Let_def hl by (auto simp: rbind_Ok_iff)
    then have out: "length out = unat lb + (length (der_tag t) + 1)" "cbs = out @ rest"
      by (simp_all add: CBS_get_bytes_Ok)
    define body where "body = drop (length (der_tag t) + 1) out"
    have n: "length body = unat lb" using out(1) by (simp add: body_def)
    have "take (length (der_tag t) + 1) out = take (length (der_tag t) + 1) cbs" using out by simp
    also have "\<dots> = der_tag t @ [lb]" using cbs by simp
    finally have "out = der_tag t @ [lb] @ body"
      unfolding body_def by (metis append_assoc append_take_drop_id)
    moreover have "der_len (unat lb) = [lb]" using byte_low_half [OF True] by (simp add: der_len_def)
    ultimately show ?thesis
      using out(2) n hl' byte_low_half [OF True]
      by (intro exI [of _ body]) (simp add: der_element_def der_header_def)
  next
    case False
    define k where "k = unat (lb AND 0x7F)"
    from assms obtain len32 h' where k: "1 \<le> k" "k \<le> 4" and get: "cbs_get_u k h = Ok len32 h'"
      and min: "\<not> len32 < 128" "drop_bit ((k - 1) * 8) len32 \<noteq> 0"
      and bytes: "CBS_get_bytes (unat len32 + (length (der_tag t) + 1) + k) cbs = Ok out rest"
      and hl': "length (der_tag t) + 1 + k = hl"
      unfolding cbs_get_any_asn1_element_def tag on_copy_def res.case CBS_get_u8_simps CBS_len_def Let_def
        hl k_def [symmetric]
      using False by (auto simp: rbind_Ok_iff not_less Suc_le_eq split: res.splits if_splits)
    have h: "unat len32 < 2 ^ (8 * k)" "h = be_bytes k len32 @ h'" using get k(2) by (simp_all add: cbs_get_u_Ok)
    have n: "128 \<le> unat len32" "\<not> unat len32 < 2 ^ ((k - 1) * 8)"
      using min by (simp_all add: word_less_nat_alt drop_bit_zero_less)
    have octets: "len_octets (unat len32) = k" by (rule len_octets_unique [OF k h(1) n(2)])
    have "lb = of_nat (128 + k)"
    proof -
      have "\<not> unat lb < 128"
        using base128_group_bits(3) [of "unat lb"] False by (metis of_nat_unat ucast_id)
      moreover have "unat lb mod 128 = k" unfolding k_def unat_and_7F ..
      moreover have "unat lb < 256" using unsigned_less [of lb, where 'a = nat] by simp
      ultimately have "unat lb = 128 + k" by (simp add: le_mod_geq)
      then show ?thesis by (metis of_nat_unat ucast_id)
    qed
    then have len: "der_len (unat len32) = lb # be_bytes k len32" using n(1) octets by (simp add: der_len_def)
    have out: "length out = unat len32 + (length (der_tag t) + 1) + k" "cbs = out @ rest"
      using bytes by (simp_all add: CBS_get_bytes_Ok)
    define body where "body = drop (length (der_tag t) + 1 + k) out"
    have body: "length body = unat len32" using out(1) by (simp add: body_def)
    have "take (length (der_tag t) + 1 + k) out = take (length (der_tag t) + 1 + k) cbs" using out by simp
    also have "\<dots> = der_tag t @ lb # be_bytes k len32" using cbs h(2) by simp
    finally have "out = (der_tag t @ lb # be_bytes k len32) @ body"
      unfolding body_def by (metis append_take_drop_id)
    then show ?thesis
      using out(2) body len hl' unsigned_less [of len32, where 'a = nat]
      by (intro exI [of _ body]) (simp add: der_element_def der_header_def)
  qed
qed

text \<open>The parser of any element accepts the distinguished encoding and nothing else.\<close>

lemma CBS_get_any_asn1_element_iff:
  "CBS_get_any_asn1_element cbs = Ok (out, t, hl) rest \<longleftrightarrow> cbs = out @ rest \<and>
    (\<exists>body. length body < 2 ^ 32 \<and> out = der_element t body \<and> hl = length (der_header t (length body)))"
  unfolding CBS_get_any_asn1_element_def
  using any_asn1_element_sound [of cbs out t hl rest] any_asn1_element_enc [of _ False t rest] by auto

lemma skip_header_element:
  "skip_header (length (der_header t (length body))) (der_element t body) cbs = Ok body cbs"
  by (simp add: skip_header_def CBS_skip_def cbs_get_def der_element_def)

lemma CBS_get_any_asn1_Ok:
  "CBS_get_any_asn1 cbs = Ok (body, t) rest \<longleftrightarrow> length body < 2 ^ 32 \<and> cbs = der_element t body @ rest"
proof
  assume "CBS_get_any_asn1 cbs = Ok (body, t) rest"
  then show "length body < 2 ^ 32 \<and> cbs = der_element t body @ rest"
    by (auto simp: CBS_get_any_asn1_def rbind_Ok_iff CBS_get_any_asn1_element_iff skip_header_element)
next
  assume *: "length body < 2 ^ 32 \<and> cbs = der_element t body @ rest"
  then show "CBS_get_any_asn1 cbs = Ok (body, t) rest"
    using any_asn1_element_enc [of body False t rest]
    by (simp add: CBS_get_any_asn1_def CBS_get_any_asn1_element_def skip_header_element)
qed

interpretation any_asn1: exact_parser CBS_get_any_asn1 "\<lambda>(body, t). der_element t body"
    "\<lambda>(body, t). length body < 2 ^ 32"
  by unfold_locales (auto simp: CBS_get_any_asn1_Ok)

lemma CBS_get_asn1_Ok:
  "CBS_get_asn1 t cbs = Ok body rest \<longleftrightarrow> length body < 2 ^ 32 \<and> cbs = der_element t body @ rest"
proof
  assume "CBS_get_asn1 t cbs = Ok body rest"
  then show "length body < 2 ^ 32 \<and> cbs = der_element t body @ rest"
    by (auto simp: CBS_get_asn1_def cbs_get_asn1_def rbind_Ok_iff CBS_get_any_asn1_element_iff
        skip_header_element split: if_splits)
next
  assume *: "length body < 2 ^ 32 \<and> cbs = der_element t body @ rest"
  then show "CBS_get_asn1 t cbs = Ok body rest"
    using any_asn1_element_enc [of body False t rest]
    by (simp add: CBS_get_asn1_def cbs_get_asn1_def CBS_get_any_asn1_element_def skip_header_element)
qed

interpretation asn1: exact_parser "CBS_get_asn1 t" "der_element t" "\<lambda>body. length body < 2 ^ 32"
  by unfold_locales (auto simp: CBS_get_asn1_Ok)

section \<open>Integers and booleans\<close>

text \<open>The shortest big-endian form, with a zero in front if it would look negative.\<close>

fun be_min :: "nat \<Rightarrow> byte list" where
  "be_min n = (if n < 256 then [of_nat n] else be_min (n div 256) @ [of_nat (n mod 256)])"

declare be_min.simps [simp del]

definition der_uint :: "u64 \<Rightarrow> byte list" where
  "der_uint v = (let bs = be_min (unat v) in if hd bs AND 0x80 \<noteq> 0 then 0 # bs else bs)"

lemma be_min_small: "be_min (unat b) = [b]" for b :: byte
  using unsigned_less [of b, where 'a = nat] by (simp add: be_min.simps [of "unat b"])

lemma be_min_snoc:
  fixes b :: byte
  assumes "0 < m"
  shows "be_min (m * 256 + unat b) = be_min m @ [b]"
proof -
  have "unat b < 256" using unsigned_less [of b, where 'a = nat] by simp
  then show ?thesis using assms by (simp add: be_min.simps [of "m * 256 + unat b"])
qed

lemma be_min_nonempty [simp]: "be_min n \<noteq> []"
  by (simp add: be_min.simps [of n])

lemma uint64_step:
  fixes out :: u64 and b :: byte
  assumes "drop_bit 56 out = 0"
  shows "unat (push_bit 8 out OR ucast b) = unat out * 256 + unat b"
proof -
  have "unat (ucast b :: u64) = unat b"
    unfolding unsigned_ucast_eq by (intro take_bit_nat_eq_self less_trans [OF unsigned_less]) simp
  moreover have "unat b < 256" using unsigned_less [of b, where 'a = nat] by simp
  moreover have "unat out < 2 ^ 56" using assms unfolding drop_bit_zero_less .
  ultimately show ?thesis using unat_push_or [of out 8 "ucast b"] by simp
qed

lemma uint64_loop_be_min:
  assumes "uint64_loop out data = Some w" and "out \<noteq> 0"
  shows "be_min (unat w) = be_min (unat out) @ data"
  using assms
proof (induction data arbitrary: out)
  case (Cons b data)
  let ?out = "push_bit 8 out OR ucast b"
  have z: "drop_bit 56 out = 0" and rest: "uint64_loop ?out data = Some w"
    using Cons.prems(1) by (simp_all split: if_splits)
  have pos: "0 < unat out" using Cons.prems(2) by (simp add: word_greater_zero_iff unat_gt_0)
  with uint64_step [OF z, of b] have "?out \<noteq> 0" by auto
  from Cons.IH [OF rest this] show ?case using uint64_step [OF z, of b] be_min_snoc [OF pos, of b] by simp
qed simp

lemma uint64_loop_append:
  "uint64_loop out (xs @ ys) = (case uint64_loop out xs of None \<Rightarrow> None | Some w \<Rightarrow> uint64_loop w ys)"
  by (induction xs arbitrary: out) simp_all

lemma uint64_loop_of_be_min:
  assumes "n < 2 ^ 64"
  shows "uint64_loop 0 (be_min n) = Some (of_nat n)"
  using assms
proof (induction n rule: be_min.induct)
  case (1 n)
  show ?case
  proof (cases "n < 256")
    case True
    then have "ucast (of_nat n :: byte) = (of_nat n :: u64)"
      by (intro word_unat_eq_iff [THEN iffD2]) (simp add: unsigned_ucast_eq unat_of_nat take_bit_eq_mod)
    then show ?thesis using True by (simp add: be_min.simps [of n])
  next
    case False
    let ?m = "of_nat (n div 256) :: u64" and ?b = "of_nat (n mod 256) :: byte"
    have m: "unat ?m = n div 256" using 1(2) by (simp add: unat_of_nat)
    have z: "drop_bit 56 ?m = 0" unfolding drop_bit_zero_less m using 1(2) by simp
    have "unat (push_bit 8 ?m OR ucast ?b) = unat (of_nat n :: u64)"
      unfolding uint64_step [OF z] m using 1(2) by (simp add: unat_of_nat)
    then have "push_bit 8 ?m OR ucast ?b = of_nat n" by (rule word_unat_eq_iff [THEN iffD2])
    then show ?thesis
      using 1 False z by (simp add: be_min.simps [of n] uint64_loop_append)
  qed
qed

definition uint_body :: "byte list \<Rightarrow> bool" where
  "uint_body data \<longleftrightarrow> data \<noteq> [] \<and> data ! 0 AND 0x80 = 0 \<and>
     \<not> (data ! 0 = 0 \<and> 1 < length data \<and> data ! 1 AND 0x80 = 0)"

lemma der_uint_sound:
  assumes "uint_body data" and "uint64_loop 0 data = Some w"
  shows "data = der_uint w"
proof -
  obtain b bs where data: "data = b # bs" and b: "b AND 0x80 = 0" using assms(1) by (cases data) (auto simp: uint_body_def)
  have loop: "uint64_loop (ucast b) bs = Some w" using assms(2) data by simp
  have ub: "unat (ucast b :: u64) = unat b"
    unfolding unsigned_ucast_eq by (intro take_bit_nat_eq_self less_trans [OF unsigned_less]) simp
  show ?thesis
  proof (cases "b = 0 \<and> bs \<noteq> []")
    case False
    show ?thesis
    proof (cases "b = 0")
      case True
      then show ?thesis using False loop data by (simp add: der_uint_def be_min.simps)
    next
      case nz: False
      then have "(ucast b :: u64) \<noteq> 0" using ub by (metis unat_eq_0)
      from uint64_loop_be_min [OF loop this] have "be_min (unat w) = b # bs"
        using ub be_min_small [of b] by simp
      then show ?thesis using b data by (simp add: der_uint_def)
    qed
  next
    case True
    then obtain c cs where bs: "bs = c # cs" by (cases bs) auto
    then have c: "c AND 0x80 \<noteq> 0" using assms(1) data True by (auto simp: uint_body_def)
    then have "c \<noteq> 0" by auto
    have uc: "unat (ucast c :: u64) = unat c"
      unfolding unsigned_ucast_eq by (intro take_bit_nat_eq_self less_trans [OF unsigned_less]) simp
    have "uint64_loop (ucast c) cs = Some w" using loop True bs by simp
    moreover have "(ucast c :: u64) \<noteq> 0" using uc \<open>c \<noteq> 0\<close> by (metis unat_eq_0)
    ultimately have "be_min (unat w) = c # cs" using uint64_loop_be_min uc be_min_small [of c] by fastforce
    then show ?thesis using True bs data c by (simp add: der_uint_def)
  qed
qed

lemma be_min_hd: "256 \<le> n \<Longrightarrow> hd (be_min n) \<noteq> 0"
proof (induction n rule: be_min.induct)
  case (1 n)
  show ?case
  proof (cases "n div 256 < 256")
    case True
    have "(of_nat (n div 256) :: byte) \<noteq> 0"
    proof
      assume "(of_nat (n div 256) :: byte) = 0"
      then have "unat (of_nat (n div 256) :: byte) = 0" by simp
      then show False using True 1(2) unfolding unat_of_nat by simp
    qed
    then show ?thesis using 1(2) True by (simp add: be_min.simps [of n] be_min.simps [of "n div 256"])
  next
    case False
    then show ?thesis using 1 by (simp add: be_min.simps [of n])
  qed
qed

lemma length_be_min_le: "n < 256 ^ k \<Longrightarrow> 0 < k \<Longrightarrow> length (be_min n) \<le> k"
proof (induction k arbitrary: n)
  case (Suc k)
  show ?case
  proof (cases "n < 256")
    case False
    then have "0 < k" using Suc.prems(1) by (cases k) auto
    moreover have "n div 256 < 256 ^ k" using Suc.prems(1) by (simp add: less_mult_imp_div_less mult.commute)
    ultimately show ?thesis using Suc.IH False by (simp add: be_min.simps [of n])
  qed (simp add: be_min.simps [of n])
qed simp

lemma der_uint_complete: "uint_body (der_uint w)" "uint64_loop 0 (der_uint w) = Some w" "length (der_uint w) \<le> 9"
proof -
  let ?bs = "be_min (unat w)"
  obtain b bs where shape: "?bs = b # bs" by (cases ?bs) auto
  have zero: "b = 0 \<Longrightarrow> bs = []"
    using be_min_hd [of "unat w"] shape be_min.simps [of "unat w"] by (cases "unat w < 256") simp_all
  have loop: "uint64_loop 0 ?bs = Some w"
    using uint64_loop_of_be_min [of "unat w"] unsigned_less [of w, where 'a = nat] by simp
  show "uint_body (der_uint w)"
    using zero by (cases "b AND 0x80 = 0") (auto simp: der_uint_def shape uint_body_def)
  show "uint64_loop 0 (der_uint w) = Some w" using loop by (simp add: der_uint_def Let_def)
  have "length ?bs \<le> 8" using length_be_min_le [of "unat w" 8] unsigned_less [of w, where 'a = nat] by simp
  then show "length (der_uint w) \<le> 9" by (simp add: der_uint_def Let_def)
qed

lemma CBS_get_asn1_uint64_Ok:
  "CBS_get_asn1_uint64 cbs = Ok w rest \<longleftrightarrow> cbs = der_element CBS_ASN1_INTEGER (der_uint w) @ rest"
proof -
  have body: "(if CBS_len data = 0 then Fail c
     else if data ! 0 AND 0x80 \<noteq> 0 then Fail c
     else if data ! 0 = 0 \<and> 1 < CBS_len data \<and> data ! 1 AND 0x80 = 0 then Fail c
     else case uint64_loop 0 data of None \<Rightarrow> Fail c | Some out \<Rightarrow> Ok out c) = Ok w rest \<longleftrightarrow>
     uint_body data \<and> uint64_loop 0 data = Some w \<and> c = rest" for data c
    by (simp add: uint_body_def CBS_len_def split: option.splits)
  have "CBS_get_asn1_uint64 cbs = Ok w rest \<longleftrightarrow> (\<exists>data. CBS_get_asn1 CBS_ASN1_INTEGER cbs = Ok data rest \<and>
      uint_body data \<and> uint64_loop 0 data = Some w)"
    unfolding CBS_get_asn1_uint64_def rbind_Ok_iff body by blast
  also have "\<dots> \<longleftrightarrow> CBS_get_asn1 CBS_ASN1_INTEGER cbs = Ok (der_uint w) rest"
    using der_uint_sound [of _ w] der_uint_complete(1,2) [of w] by metis
  finally show ?thesis using der_uint_complete(3) [of w] by (simp add: CBS_get_asn1_Ok)
qed

interpretation asn1_uint64: exact_parser CBS_get_asn1_uint64
    "\<lambda>w. der_element CBS_ASN1_INTEGER (der_uint w)" "\<lambda>_. True"
  by unfold_locales (simp_all add: CBS_get_asn1_uint64_Ok)

lemma CBS_get_asn1_bool_Ok:
  "CBS_get_asn1_bool cbs = Ok v rest \<longleftrightarrow>
     cbs = der_element CBS_ASN1_BOOLEAN [if v then 0xFF else 0] @ rest"
proof -
  have "CBS_get_asn1_bool cbs = Ok v rest \<longleftrightarrow> CBS_get_asn1 CBS_ASN1_BOOLEAN cbs = Ok [if v then 0xFF else 0] rest"
  proof
    assume "CBS_get_asn1_bool cbs = Ok v rest"
    then show "CBS_get_asn1 CBS_ASN1_BOOLEAN cbs = Ok [if v then 0xFF else 0] rest"
      by (auto simp: CBS_get_asn1_bool_def rbind_Ok_iff Let_def CBS_len_def length_Suc_conv split: if_splits)
  qed (simp add: CBS_get_asn1_bool_def CBS_len_def)
  then show ?thesis by (simp add: CBS_get_asn1_Ok)
qed

interpretation asn1_bool: exact_parser CBS_get_asn1_bool
    "\<lambda>v. der_element CBS_ASN1_BOOLEAN [if v then 0xFF else 0]" "\<lambda>_. True"
  by unfold_locales (simp_all add: CBS_get_asn1_bool_Ok)

section \<open>Parsers move forward\<close>

text \<open>A parser takes a prefix of its input, on success and on failure, and never runs into one of
  the assertions.\<close>

definition moved :: "cbs \<Rightarrow> ('a, cbs) res \<Rightarrow> bool" where
  "moved cbs r \<longleftrightarrow> (case r of Ok _ rest \<Rightarrow> suffix rest cbs | Fail rest \<Rightarrow> suffix rest cbs | _ \<Rightarrow> False)"

lemma moved_simps [simp]:
  "moved cbs (Ok x rest) \<longleftrightarrow> suffix rest cbs" "moved cbs (Fail rest) \<longleftrightarrow> suffix rest cbs"
  "\<not> moved cbs UB" "\<not> moved cbs NoFuel"
  by (simp_all add: moved_def)

lemma moved_bind:
  assumes "moved cbs m" and "\<And>x rest. m = Ok x rest \<Longrightarrow> moved rest (q x rest)"
  shows "moved cbs (rbind m q)"
proof (cases m)
  case (Ok x rest)
  then have "suffix rest cbs" "moved rest (q x rest)" using assms by simp_all
  then show ?thesis using Ok by (cases "q x rest") (auto dest: suffix_order.trans)
qed (use assms(1) in simp_all)

lemma moved_cbs_get [intro]: "moved cbs (cbs_get n cbs)"
  by (simp add: cbs_get_def suffix_drop)

lemma moved_get_bytes [intro]: "moved cbs (CBS_get_bytes n cbs)"
  unfolding CBS_get_bytes_def by (rule moved_bind) auto

lemma moved_get_u [intro]: "moved cbs (cbs_get_u n cbs)"
  unfolding cbs_get_u_def by (rule moved_bind) auto

lemma moved_get_u8 [intro]: "moved cbs (CBS_get_u8 cbs)"
  unfolding CBS_get_u8_def by (rule moved_bind) auto

lemma moved_base128_loop: "moved cbs (base128_loop v cbs)"
proof (induction v cbs rule: base128_loop.induct)
  case (2 v b cbs)
  have sub: "moved (b # cbs) r" if "moved cbs r" for r :: "(u64, cbs) res"
    using that by (cases r) (auto intro: suffix_ConsI)
  show ?case using 2 by (auto simp: Let_def intro!: sub suffix_ConsI)
qed simp

lemma moved_parse_tag [intro]: "moved cbs (parse_asn1_tag cbs)"
  unfolding parse_asn1_tag_def
  by (rule moved_bind [OF moved_get_u8])
    (auto simp: Let_def parse_base128_integer_def intro!: moved_bind moved_base128_loop)

lemma moved_on_copy:
  assumes "\<And>c. moved c m \<or> m \<noteq> UB \<and> m \<noteq> NoFuel" and "\<And>x rest. m = Ok x rest \<Longrightarrow> moved cbs (f x rest)"
  shows "moved cbs (on_copy m cbs f)"
  using assms by (cases m) (auto simp: on_copy_def)

lemma not_UB: "moved c m \<Longrightarrow> m \<noteq> UB \<and> m \<noteq> NoFuel"
  by auto

lemma moved_any_element: "moved cbs (cbs_get_any_asn1_element ber_ok cbs)"
  unfolding cbs_get_any_asn1_element_def
  by (rule moved_on_copy, use not_UB moved_parse_tag in blast)
    (rule moved_on_copy, use not_UB moved_get_u8 in blast,
      auto simp: Let_def intro!: moved_on_copy moved_bind not_UB [OF moved_get_u])

lemma moved_skip_header:
  "CBS_get_any_asn1_element cbs = Ok (out, t, hl) rest \<Longrightarrow> moved rest (skip_header hl out rest)"
  by (auto simp: CBS_get_any_asn1_element_iff skip_header_element)

lemma moved_any_asn1: "moved cbs (CBS_get_any_asn1 cbs)"
  unfolding CBS_get_any_asn1_def
  by (rule moved_bind) (auto simp: CBS_get_any_asn1_element_def [symmetric] moved_skip_header
      intro!: moved_bind moved_any_element [of _ False, folded CBS_get_any_asn1_element_def])

lemma moved_get_asn1 [intro]: "moved cbs (CBS_get_asn1 t cbs)"
  unfolding CBS_get_asn1_def cbs_get_asn1_def
  by (rule moved_bind) (auto simp: moved_skip_header
      intro!: moved_any_element [of _ False, folded CBS_get_any_asn1_element_def])

lemma moved_uint64 [intro]: "moved cbs (CBS_get_asn1_uint64 cbs)"
  unfolding CBS_get_asn1_uint64_def by (rule moved_bind [OF moved_get_asn1]) (auto split: option.splits)

lemma moved_bool [intro]: "moved cbs (CBS_get_asn1_bool cbs)"
  unfolding CBS_get_asn1_bool_def by (rule moved_bind [OF moved_get_asn1]) (auto simp: Let_def)

lemma moved_optional [intro]: "moved cbs (CBS_get_optional_asn1 t cbs)"
  unfolding CBS_get_optional_asn1_def by (auto intro!: moved_bind)

lemma moved_whole_child: "moved child (inner child) \<Longrightarrow> moved cbs (whole_child inner child cbs)"
  by (cases "inner child") (simp_all add: whole_child_def)

section \<open>Properties\<close>

text \<open>How a parser has to end: it never runs into an assertion; if it fails it has moved forward by some part of its input; if it
  succeeds it has taken a part that \<open>P\<close> relates to its result, and nothing else.\<close>

definition splits :: "cbs \<Rightarrow> ('a \<Rightarrow> byte list \<Rightarrow> bool) \<Rightarrow> ('a, cbs) res \<Rightarrow> bool" where
  "splits cbs P r \<longleftrightarrow>
     (case r of Ok x rest \<Rightarrow> \<exists>taken. cbs = taken @ rest \<and> P x taken | Fail rest \<Rightarrow> suffix rest cbs | _ \<Rightarrow> False)"

lemma splitsI: "moved cbs r \<Longrightarrow> (\<And>x rest. r = Ok x rest \<Longrightarrow> \<exists>taken. cbs = taken @ rest \<and> P x taken) \<Longrightarrow> splits cbs P r"
  by (cases r) (simp_all add: splits_def)

lemma get_bytes_Ok_iff: "CBS_get_bytes n cbs = Ok out rest \<longleftrightarrow> cbs = out @ rest \<and> length out = n"
  by (auto simp: CBS_get_bytes_def cbs_get_def CBS_init_def append_eq_conv_conj)

lemma any_asn1_element_Ok:
  "CBS_get_any_asn1_element cbs = Ok (out, t, hl) rest \<longleftrightarrow>
     (\<exists>body. length body < 2 ^ 32 \<and> out = der_element t body \<and> hl + length body = length out \<and> cbs = out @ rest)"
proof -
  have "hl = length (der_header t (length body)) \<longleftrightarrow> hl + length body = length (der_element t body)" for body
    by (simp add: der_element_def)
  then show ?thesis unfolding CBS_get_any_asn1_element_iff by blast
qed

lemma ber_element_Ok:
  assumes "CBS_get_any_ber_asn1_element cbs = Ok (out, t, hl) rest"
  shows "cbs = out @ rest \<and> hl \<le> length out"
  using assms unfolding CBS_get_any_ber_asn1_element_def cbs_get_any_asn1_element_def
  by (auto simp: on_copy_def Let_def rbind_Ok_iff get_bytes_Ok_iff split: res.splits if_splits)

lemma optional_Ok:
  "CBS_get_optional_asn1 t cbs = Ok child rest \<longleftrightarrow>
    (if CBS_peek_asn1_tag cbs t then \<exists>body. child = Some body \<and> CBS_get_asn1 t cbs = Ok body rest else child = None \<and> rest = cbs)"
  by (auto simp: CBS_get_optional_asn1_def rbind_Ok_iff)

lemma whole_child_Ok: "whole_child inner child cbs = Ok x rest \<longleftrightarrow> inner child = Ok x [] \<and> rest = cbs"
  by (auto simp: whole_child_def CBS_len_def split: res.splits if_splits)

text \<open>The parts that the parsers take.\<close>

lemma splits_length_prefixed:
  "splits cbs (\<lambda>out taken. \<exists>p. taken = p @ out \<and> length p = k \<and> length out = unat (of_be p :: u32)) (cbs_get_length_prefixed k cbs)"
proof (rule splitsI)
  show "moved cbs (cbs_get_length_prefixed k cbs)" unfolding cbs_get_length_prefixed_def by (rule moved_bind) auto
next
  fix out rest
  assume "cbs_get_length_prefixed k cbs = Ok out rest"
  then obtain l rest' where 1: "cbs_get_u k cbs = Ok l rest'" and 2: "CBS_get_bytes (unat l) rest' = Ok out rest"
    by (auto simp: cbs_get_length_prefixed_def rbind_Ok_iff)
  have "cbs = take k cbs @ rest'" "length (take k cbs) = k" "l = of_be (take k cbs)"
    using 1 by (auto simp: cbs_get_u_def cbs_get_def split: if_splits)
  then show "\<exists>taken. cbs = taken @ rest \<and> (\<exists>p. taken = p @ out \<and> length p = k \<and> length out = unat (of_be p :: u32))"
    using 2 by (metis append_assoc get_bytes_Ok_iff)
qed

lemma splits_optional_octet_string:
  "splits cbs (\<lambda>(out, present) taken. present = CBS_peek_asn1_tag cbs t \<and>
      taken = (if present then der_element t (der_element CBS_ASN1_OCTETSTRING out) else []) \<and> (present \<or> out = []))
    (CBS_get_optional_asn1_octet_string t cbs)"
proof (rule splitsI)
  show "moved cbs (CBS_get_optional_asn1_octet_string t cbs)"
    by (auto simp: CBS_get_optional_asn1_octet_string_def split: option.splits intro!: moved_bind moved_whole_child)
next
  fix x rest
  assume r: "CBS_get_optional_asn1_octet_string t cbs = Ok x rest"
  show "\<exists>taken. cbs = taken @ rest \<and> (\<lambda>(out, present) taken. present = CBS_peek_asn1_tag cbs t \<and>
      taken = (if present then der_element t (der_element CBS_ASN1_OCTETSTRING out) else []) \<and> (present \<or> out = [])) x taken"
  proof (cases "CBS_peek_asn1_tag cbs t")
    case True
    then obtain child out where "CBS_get_asn1 t cbs = Ok child rest" "CBS_get_asn1 CBS_ASN1_OCTETSTRING child = Ok out []" "x = (out, True)"
      using r by (auto simp: CBS_get_optional_asn1_octet_string_def rbind_Ok_iff optional_Ok whole_child_Ok)
    then show ?thesis using True by (simp add: CBS_get_asn1_Ok)
  next
    case False
    then have "x = ([], False)" "rest = cbs" using r by (auto simp: CBS_get_optional_asn1_octet_string_def rbind_Ok_iff optional_Ok)
    then show ?thesis using False by simp
  qed
qed

lemma splits_optional_uint64:
  "splits cbs (\<lambda>v taken. if CBS_peek_asn1_tag cbs t then taken = der_element t (der_element CBS_ASN1_INTEGER (der_uint v))
      else taken = [] \<and> v = v0) (CBS_get_optional_asn1_uint64 t v0 cbs)"
proof (rule splitsI)
  show "moved cbs (CBS_get_optional_asn1_uint64 t v0 cbs)"
    by (auto simp: CBS_get_optional_asn1_uint64_def split: option.splits intro!: moved_bind moved_whole_child)
qed (auto simp: CBS_get_optional_asn1_uint64_def rbind_Ok_iff optional_Ok whole_child_Ok CBS_get_asn1_Ok CBS_get_asn1_uint64_Ok
    split: option.splits if_splits)

lemma splits_optional_bool:
  "splits cbs (\<lambda>v taken. if CBS_peek_asn1_tag cbs t
      then v \<in> {0, 1} \<and> taken = der_element t (der_element CBS_ASN1_BOOLEAN [if v = 1 then 0xFF else 0])
      else taken = [] \<and> v = v0) (CBS_get_optional_asn1_bool t v0 cbs)"
proof (rule splitsI)
  show "moved cbs (CBS_get_optional_asn1_bool t v0 cbs)"
    by (auto simp: CBS_get_optional_asn1_bool_def split: option.splits intro!: moved_bind moved_whole_child)
next
  fix v rest
  assume "CBS_get_optional_asn1_bool t v0 cbs = Ok v rest"
  then show "\<exists>taken. cbs = taken @ rest \<and> (if CBS_peek_asn1_tag cbs t
      then v \<in> {0, 1} \<and> taken = der_element t (der_element CBS_ASN1_BOOLEAN [if v = 1 then 0xFF else 0])
      else taken = [] \<and> v = v0)"
    by (auto simp: CBS_get_optional_asn1_bool_def rbind_Ok_iff optional_Ok whole_child_Ok CBS_get_asn1_Ok CBS_len_def length_Suc_conv
        split: option.splits if_splits)
qed


text \<open>C10: the parser of DER elements accepts the distinguished encoding of a tag, a length and contents, and
  nothing else: no padded tag number, no length longer than needed, no indefinite length.
  \<open>CBS_get_any_asn1_element\<close> returns the encoding with the length of its header, \<open>CBS_get_any_asn1\<close> the contents, and
  \<open>CBS_get_asn1\<close> and \<open>CBS_get_asn1_element\<close> the same for one tag. So an element has one encoding only.\<close>

theorem der_parser_exact:
  "(CBS_get_any_asn1_element cbs = Ok (out, t, hl) rest \<longleftrightarrow>
     (\<exists>body. length body < 2 ^ 32 \<and> out = der_element t body \<and> hl + length body = length out \<and> cbs = out @ rest)) \<and>
   (CBS_get_any_asn1 cbs = Ok (body, t) rest \<longleftrightarrow> length body < 2 ^ 32 \<and> cbs = der_element t body @ rest) \<and>
   (CBS_get_asn1 t cbs = Ok body rest \<longleftrightarrow> length body < 2 ^ 32 \<and> cbs = der_element t body @ rest) \<and>
   (CBS_get_asn1_element t cbs = Ok out rest \<longleftrightarrow> (\<exists>body. length body < 2 ^ 32 \<and> out = der_element t body \<and> cbs = out @ rest))"
proof (intro conjI any_asn1_element_Ok CBS_get_any_asn1_Ok CBS_get_asn1_Ok)
  show "CBS_get_asn1_element t cbs = Ok out rest \<longleftrightarrow> (\<exists>body. length body < 2 ^ 32 \<and> out = der_element t body \<and> cbs = out @ rest)"
  proof
    assume "CBS_get_asn1_element t cbs = Ok out rest"
    then show "\<exists>body. length body < 2 ^ 32 \<and> out = der_element t body \<and> cbs = out @ rest"
      by (auto simp: CBS_get_asn1_element_def cbs_get_asn1_def rbind_Ok_iff CBS_get_any_asn1_element_iff split: if_splits)
  next
    assume "\<exists>body. length body < 2 ^ 32 \<and> out = der_element t body \<and> cbs = out @ rest"
    then obtain body where "length body < 2 ^ 32" "out = der_element t body" "cbs = out @ rest" by blast
    then have "CBS_get_any_asn1_element cbs = Ok (out, t, length (der_header t (length body))) rest"
      by (auto simp: CBS_get_any_asn1_element_iff)
    then show "CBS_get_asn1_element t cbs = Ok out rest" by (simp add: CBS_get_asn1_element_def cbs_get_asn1_def)
  qed
qed

text \<open>C11: \<open>CBS_get_asn1_uint64\<close> and \<open>CBS_get_asn1_bool\<close> accept exactly the shortest two's-complement
  encoding of a non-negative number below \<open>2^64\<close> and the two boolean encodings.\<close>

theorem asn1_integer_bool_exact:
  "(CBS_get_asn1_uint64 cbs = Ok v rest \<longleftrightarrow> cbs = der_element CBS_ASN1_INTEGER (der_uint v) @ rest) \<and>
   (CBS_get_asn1_bool cbs = Ok b rest \<longleftrightarrow> cbs = der_element CBS_ASN1_BOOLEAN [if b then 0xFF else 0] @ rest)"
  using CBS_get_asn1_uint64_Ok CBS_get_asn1_bool_Ok by blast

end
