(* ===== verification/Cbb_Spec.thy ===== *)
theory Cbb_Spec
  imports Cbb Der
begin

text \<open>
  What the builder promises: \<open>appends mem i p bs\<close> says that the program \<open>p\<close>, which writes through the
  \<open>CBB\<close> number \<open>i\<close>, appends the bytes \<open>bs\<close> to its contents, with every pending length prefix
  accounted for as the next flush will write it. A child becomes a length prefix or a DER header
  in front of what its own program appends.
\<close>

section \<open>Lists in the buffer\<close>

lemma put_at_middle:
  assumes "buf b = P @ Q @ R" and "p = length P" and "length Q = length bs"
  shows "put_at p bs b = b\<lparr>buf := P @ bs @ R\<rparr>"
  using assms by (simp add: put_at_def)

lemma ucast_of_nat_byte: "ucast (of_nat v :: u32) = (of_nat v :: byte)"
  by (rule bit_eqI) (simp add: bit_unsigned_iff bit_of_nat_iff possible_bit_word)

lemma drop_bit_of_nat_32: "v < 2 ^ 32 \<Longrightarrow> drop_bit 8 (of_nat v :: u32) = of_nat (v div 256)"
  by (rule word_unat_eq_iff [THEN iffD2])
    (simp add: drop_bit_eq_div unat_div unat_of_nat)

lemma be_loop_eq:
  assumes "v < 2 ^ 32"
  shows "be_loop n v = (be_bytes n (of_nat v :: u32), v div 256 ^ n)"
  using assms
proof (induction n arbitrary: v)
  case (Suc n)
  have "be_bytes (Suc n) (of_nat v :: u32) = be_bytes n (of_nat (v div 256) :: u32) @ [of_nat v]"
    using Suc.prems by (simp add: be_bytes_def le_bytes_Suc drop_bit_of_nat_32 ucast_of_nat_byte)
  then show ?case using Suc by (simp add: div_mult2_eq)
qed (simp add: be_bytes_def)

section \<open>States\<close>

definition settled :: "cbb list \<Rightarrow> byte list \<Rightarrow> cbb_state \<Rightarrow> bool" where
  "settled ch out s \<longleftrightarrow> (\<exists>b R. s = \<lparr>base = Some b, chain = ch\<rparr> \<and> can_resize b \<and> \<not> berror b \<and>
     buf b = out @ R \<and> blen b = length out)"

definition holds :: "cbb_mem \<Rightarrow> cbb list \<Rightarrow> byte list \<Rightarrow> cbb_state \<Rightarrow> bool" where
  "holds mem ch out s \<longleftrightarrow> ch \<noteq> [] \<and>
     (\<exists>s'. CBB_flush mem (length ch - 1) s = Ok () s' \<and> settled ch out s')"

definition appends :: "cbb_mem \<Rightarrow> nat \<Rightarrow> (cbb_state \<Rightarrow> ('a, cbb_state) res) \<Rightarrow> byte list \<Rightarrow> bool" where
  "appends mem i p bs \<longleftrightarrow> (\<forall>s ch out. length ch = Suc i \<longrightarrow> holds mem ch out s \<longrightarrow>
     length out + length bs < 2 ^ 64 \<longrightarrow> (\<exists>x s'. p s = Ok x s' \<and> holds mem ch (out @ bs) s'))"

text \<open>The same with nothing pending at the end.\<close>

definition writes :: "cbb_mem \<Rightarrow> nat \<Rightarrow> (cbb_state \<Rightarrow> ('a, cbb_state) res) \<Rightarrow> byte list \<Rightarrow> bool" where
  "writes mem i p bs \<longleftrightarrow> (\<forall>s ch out. length ch = Suc i \<longrightarrow> holds mem ch out s \<longrightarrow>
     length out + length bs < 2 ^ 64 \<longrightarrow> (\<exists>x s'. p s = Ok x s' \<and> settled ch (out @ bs) s'))"

lemma appendsD:
  assumes "appends mem i p bs" and "length ch = Suc i" and "holds mem ch out s"
    and "length out + length bs < 2 ^ 64"
  obtains x s' where "p s = Ok x s'" and "holds mem ch (out @ bs) s'"
  using assms unfolding appends_def by blast

lemma writesD:
  assumes "writes mem i p bs" and "length ch = Suc i" and "holds mem ch out s"
    and "length out + length bs < 2 ^ 64"
  obtains x s' where "p s = Ok x s'" and "settled ch (out @ bs) s'"
  using assms unfolding writes_def by blast

lemma CBB_flush_eq:
  assumes "base s = Some b" and "i < length (chain s)"
  shows "CBB_flush mem i s = (case flush_children mem (drop (Suc i) (chain s)) b of
      Ok _ b \<Rightarrow> Ok () \<lparr>base = Some b, chain =
        (if Suc i < length (chain s) \<and> pending_len_len (chain s ! Suc i) = 0 then chain s
         else take (Suc i) (chain s))\<rparr>
    | Fail b \<Rightarrow> Fail \<lparr>base = Some b, chain = chain s\<rparr> | UB \<Rightarrow> UB | NoFuel \<Rightarrow> NoFuel)"
  using assms by (cases s) (auto simp: CBB_flush_def on_base_def split: res.splits)

lemma flush_settled:
  assumes "settled ch out s" and "length ch = Suc i"
  shows "CBB_flush mem i s = Ok () s"
  using assms by (auto simp: settled_def CBB_flush_def on_base_def)

lemma settled_holds: "settled ch out s \<Longrightarrow> ch \<noteq> [] \<Longrightarrow> holds mem ch out s"
  using flush_settled [of ch out s "length ch - 1" mem] by (auto simp: holds_def)

lemma holdsE:
  assumes "holds mem ch out s" and "length ch = Suc i"
  obtains s' where "CBB_flush mem i s = Ok () s'" and "settled ch out s'"
  using assms by (auto simp: holds_def)

lemma appendsI:
  assumes "\<And>s s' ch out. length ch = Suc i \<Longrightarrow> CBB_flush mem i s = Ok () s' \<Longrightarrow> settled ch out s' \<Longrightarrow>
    length out + length bs < 2 ^ 64 \<Longrightarrow> \<exists>x t. p s = Ok x t \<and> holds mem ch (out @ bs) t"
  shows "appends mem i p bs"
  unfolding appends_def by (meson assms holdsE)

section \<open>Programs\<close>

lemma appends_bind:
  assumes "appends mem i p bs" and "\<And>x. appends mem i (q x) cs"
  shows "appends mem i (\<lambda>s. rbind (p s) q) (bs @ cs)"
  unfolding appends_def
proof (intro allI impI)
  fix s ch out
  assume ch: "length ch = Suc i" and h: "holds mem ch out s" and n: "length out + length (bs @ cs) < 2 ^ 64"
  then obtain x s' where p: "p s = Ok x s'" and "holds mem ch (out @ bs) s'"
    by (auto intro: appendsD [OF assms(1)])
  with ch n obtain y t where "q x s' = Ok y t" "holds mem ch ((out @ bs) @ cs) t"
    by (auto intro: appendsD [OF assms(2) [of x]])
  then show "\<exists>x s'. rbind (p s) q = Ok x s' \<and> holds mem ch (out @ bs @ cs) s'" using p by simp
qed

lemma appends_Ok: "appends mem i (Ok x) []"
  by (simp add: appends_def)

lemma writes_appends: "writes mem i p bs \<Longrightarrow> appends mem i p bs"
  unfolding writes_def appends_def by (metis settled_holds list.size(3) nat.distinct(1))

lemma writes_bind:
  assumes "writes mem i p bs" and "\<And>x. writes mem i (q x) cs"
  shows "writes mem i (\<lambda>s. rbind (p s) q) (bs @ cs)"
  unfolding writes_def
proof (intro allI impI)
  fix s ch out
  assume ch: "length ch = Suc i" and h: "holds mem ch out s" and n: "length out + length (bs @ cs) < 2 ^ 64"
  then obtain x s' where p: "p s = Ok x s'" and "settled ch (out @ bs) s'"
    by (auto intro: writesD [OF assms(1)])
  then have "holds mem ch (out @ bs) s'" using ch by (auto intro!: settled_holds)
  with ch n obtain y t where "q x s' = Ok y t" "settled ch ((out @ bs) @ cs) t"
    by (auto intro: writesD [OF assms(2) [of x]])
  then show "\<exists>x s'. rbind (p s) q = Ok x s' \<and> settled ch (out @ bs @ cs) s'" using p by simp
qed

lemma writes_flush: "writes mem i (CBB_flush mem i) []"
  unfolding writes_def by (auto elim: holdsE)

text \<open>A program on the flushed state.\<close>

lemma writes_flushed:
  assumes "\<And>b out R. can_resize b \<Longrightarrow> \<not> berror b \<Longrightarrow> buf b = out @ R \<Longrightarrow> blen b = length out \<Longrightarrow>
      length out + length bs < 2 ^ 64 \<Longrightarrow>
      \<exists>x b' R'. f b = Ok x b' \<and> can_resize b' \<and> \<not> berror b' \<and> buf b' = (out @ bs) @ R' \<and>
        blen b' = length (out @ bs)"
  shows "writes mem i (flushed mem i f) bs"
  unfolding writes_def
proof (intro allI impI)
  fix s ch out
  assume ch: "length ch = Suc i" and h: "holds mem ch out s" and n: "length out + length bs < 2 ^ 64"
  from holdsE [OF h ch] obtain s' where fl: "CBB_flush mem i s = Ok () s'" and st: "settled ch out s'" .
  from st obtain b R where b: "s' = \<lparr>base = Some b, chain = ch\<rparr>" "can_resize b" "\<not> berror b"
    "buf b = out @ R" "blen b = length out" unfolding settled_def by auto
  from assms [OF b(2-5) n] obtain x b' R' where b': "f b = Ok x b'" "can_resize b'" "\<not> berror b'"
    "buf b' = (out @ bs) @ R'" "blen b' = length (out @ bs)" by auto
  then have "settled ch (out @ bs) \<lparr>base = Some b', chain = ch\<rparr>" unfolding settled_def by auto
  then show "\<exists>x t. flushed mem i f s = Ok x t \<and> settled ch (out @ bs) t"
    using fl b(1) b'(1) by (simp add: flushed_def on_base_def)
qed

definition grants_all :: "cbb_mem \<Rightarrow> bool" where
  "grants_all mem \<longleftrightarrow> (\<forall>n. grant mem n)"

lemma buffer_add:
  assumes "grants_all mem" and "can_resize b" "\<not> berror b" "buf b = out @ R" "blen b = length out"
    and "length out + n < 2 ^ 64"
  shows "\<exists>b' J R'. cbb_buffer_add mem n b = Ok (length out) b' \<and> can_resize b' \<and> \<not> berror b' \<and>
    buf b' = out @ J @ R' \<and> length J = n \<and> blen b' = length out + n"
proof -
  have wrap: "(length out + n) mod 2 ^ 64 = length out + n" using assms(6) by simp
  define tl where "tl = (if cap b < length out + n
     then R @ map (junk mem) [cap b..<(let m = cap b * 2 mod 2 ^ 64 in
       if m < cap b \<or> m < length out + n then length out + n else m)] else R)"
  have "cbb_buffer_reserve mem n b = Ok () (b\<lparr>buf := out @ tl\<rparr>)"
    unfolding cbb_buffer_reserve_def Let_def assms(5) wrap
    using assms(1,2,4) by (auto simp: grants_all_def tl_def Let_def)
  moreover have "n \<le> length tl"
    using assms(4) unfolding tl_def Let_def by auto
  then have "tl = take n tl @ drop n tl" "length (take n tl) = n" by simp_all
  ultimately show ?thesis using assms(2,3,5)
    by (intro exI [of _ "b\<lparr>buf := out @ tl, blen := length out + n\<rparr>"] exI [of _ "take n tl"] exI [of _ "drop n tl"])
      (simp add: cbb_buffer_add_def)
qed

lemma writes_add_bytes:
  assumes "grants_all mem"
  shows "writes mem i (CBB_add_bytes mem i data) data"
  unfolding CBB_add_bytes_def
proof (rule writes_flushed)
  fix b :: cbb_buffer and out R
  assume b: "can_resize b" "\<not> berror b" "buf b = out @ R" "blen b = length out"
    and n: "length out + length data < 2 ^ 64"
  from buffer_add [OF assms b n] obtain b' J R' where b': "cbb_buffer_add mem (length data) b = Ok (length out) b'"
    "can_resize b'" "\<not> berror b'" "buf b' = out @ J @ R'" "length J = length data" "blen b' = length out + length data"
    by blast
  from put_at_middle [OF b'(4) refl b'(5)] b' show "\<exists>x b' R'. rbind (cbb_buffer_add mem (length data) b) (\<lambda>p b. Ok () (put_at p data b)) = Ok x b' \<and>
       can_resize b' \<and> \<not> berror b' \<and> buf b' = (out @ data) @ R' \<and> blen b' = length (out @ data)"
    by simp
qed

lemma writes_add_u:
  assumes "grants_all mem" and "0 < k" and "unat v < 256 ^ k"
  shows "writes mem i (flushed mem i (cbb_buffer_add_u mem v k)) (be_bytes k v)"
proof (rule writes_flushed)
  fix b :: cbb_buffer and out R
  assume b: "can_resize b" "\<not> berror b" "buf b = out @ R" "blen b = length out"
    and "length out + length (be_bytes k v) < 2 ^ 64"
  then have n: "length out + k < 2 ^ 64" by simp
  from buffer_add [OF assms(1) b n] obtain b' J R' where b': "cbb_buffer_add mem k b = Ok (length out) b'"
    "can_resize b'" "\<not> berror b'" "buf b' = out @ J @ R'" "length J = k" "blen b' = length out + k"
    by blast
  have loop: "be_loop k (unat v) = (be_bytes k v, 0)"
    using be_loop_eq [of "unat v" k] assms(3) unsigned_less [of v, where 'a = nat] by simp
  have "put_at (length out) (be_bytes k v) b' = b'\<lparr>buf := out @ be_bytes k v @ R'\<rparr>"
    using put_at_middle [OF b'(4) refl] b'(5) by simp
  then show "\<exists>x b' R'. cbb_buffer_add_u mem v k b = Ok x b' \<and>
       can_resize b' \<and> \<not> berror b' \<and> buf b' = (out @ be_bytes k v) @ R' \<and> blen b' = length (out @ be_bytes k v)"
    using b' loop assms(2) by (simp add: cbb_buffer_add_u_def)
qed

lemma be_bytes_1: "be_bytes 1 w = [ucast w]"
  by (simp add: be_bytes_def le_bytes_Suc)

lemma unat_ucast_8_32: "unat (ucast v :: u32) = unat v" for v :: byte
  unfolding unsigned_ucast_eq by (intro take_bit_nat_eq_self less_trans [OF unsigned_less]) simp

lemma writes_add_u8:
  assumes "grants_all mem"
  shows "writes mem i (CBB_add_u8 mem i v) [v]"
proof -
  have "unat (ucast v :: u32) < 256 ^ 1" using unsigned_less [of v, where 'a = nat] by (simp add: unat_ucast_8_32)
  moreover have "be_bytes 1 (ucast v :: u32) = [v]" unfolding be_bytes_1 by (intro list.inject [THEN iffD2] conjI refl bit_eqI) (auto simp: bit_simps)
  ultimately show ?thesis
    using writes_add_u [OF assms, of 1 "ucast v :: u32" i] unfolding CBB_add_u8_def by simp
qed

lemma writes_add_u24:
  assumes "grants_all mem" and "unat v < 2 ^ 24"
  shows "writes mem i (CBB_add_u24 mem i v) (be_bytes 3 v)"
  unfolding CBB_add_u24_def by (rule writes_add_u) (use assms in simp_all)

lemma writes_add_u32:
  assumes "grants_all mem"
  shows "writes mem i (CBB_add_u32 mem i v) (be_bytes 4 v)"
  unfolding CBB_add_u32_def
  by (rule writes_add_u) (use assms unsigned_less [of v, where 'a = nat] in simp_all)

lemma unat_ucast_16_32: "unat (ucast v :: u32) = unat v" for v :: u16
  unfolding unsigned_ucast_eq by (intro take_bit_nat_eq_self less_trans [OF unsigned_less]) simp

lemma be_bytes_ucast_16: "be_bytes 2 (ucast v :: u32) = be_bytes 2 v" for v :: u16
proof -
  have "ucast (drop_bit (8 * i) (ucast v :: u32)) = (ucast (drop_bit (8 * i) v) :: byte)" for i
    by (rule bit_eqI) (auto simp: bit_simps dest: bit_imp_le_length)
  then show ?thesis by (simp add: be_bytes_def le_bytes_def)
qed

lemma writes_add_u16:
  assumes "grants_all mem"
  shows "writes mem i (CBB_add_u16 mem i v) (be_bytes 2 v)"
  using writes_add_u [OF assms, of 2 "ucast v :: u32" i] unsigned_less [of v, where 'a = nat]
  unfolding CBB_add_u16_def by (simp add: be_bytes_ucast_16 unat_ucast_16_32)

section \<open>Children\<close>

text \<open>The state with an open child: flushing the child and writing its length.\<close>

lemma holds_child:
  assumes "holds mem (ch @ [d]) out s" and "ch \<noteq> []" and "pending_len_len d \<noteq> 0"
    and "offset d + pending_len_len d \<le> length out" "length out < 2 ^ 64"
    and "\<And>b R. can_resize b \<Longrightarrow> \<not> berror b \<Longrightarrow> buf b = out @ R \<Longrightarrow> blen b = length out \<Longrightarrow>
      \<exists>b' R'. write_pending mem d b = Ok () b' \<and> can_resize b' \<and> \<not> berror b' \<and> buf b' = out' @ R' \<and>
        blen b' = length out'"
  shows "holds mem ch out' s"
proof -
  let ?i = "length ch"
  from assms(1) obtain s' b R where fl: "CBB_flush mem ?i s = Ok () s'" and s': "s' = \<lparr>base = Some b, chain = ch @ [d]\<rparr>"
    and b: "can_resize b" "\<not> berror b" "buf b = out @ R" "blen b = length out"
    by (auto simp: holds_def settled_def)
  from fl obtain b0 where base: "base s = Some b0" and len: "?i < length (chain s)"
    by (cases "base s") (auto simp: CBB_flush_def split: if_splits)
  from fl have kids: "flush_children mem (drop (Suc ?i) (chain s)) b0 = Ok () b"
    and chain': "(if Suc ?i < length (chain s) \<and> pending_len_len (chain s ! Suc ?i) = 0 then chain s
         else take (Suc ?i) (chain s)) = ch @ [d]"
    unfolding CBB_flush_eq [OF base len] s' by (auto split: res.splits)
  have chain: "take (Suc ?i) (chain s) = ch @ [d]" using chain' by (auto split: if_splits)
  define ds where "ds = drop (Suc ?i) (chain s)"
  have cs: "chain s = ch @ d # ds" using chain append_take_drop_id [of "Suc ?i" "chain s"] by (simp add: ds_def)
  have noerr: "\<not> berror b0" using kids by (cases "drop (Suc ?i) (chain s)") (auto split: if_splits)
  have wrap: "(offset d + pending_len_len d) mod 2 ^ 64 = offset d + pending_len_len d"
    using assms(4,5) by simp
  from assms(6) [OF b] obtain b' R' where b': "write_pending mem d b = Ok () b'" "can_resize b'" "\<not> berror b'"
    "buf b' = out' @ R'" "blen b' = length out'" by blast
  have flush: "flush_children mem (d # ds) b0 = Ok () b'"
    using noerr assms(3,4) kids b(4) b'(1) wrap by (simp add: ds_def Let_def)
  obtain j where j: "?i = Suc j" using assms(2) by (cases "length ch") auto
  have dr: "drop (Suc j) (chain s) = d # ds" "take (Suc j) (chain s) = ch" "chain s ! Suc j = d"
    using cs j by (simp_all flip: j)
  have "CBB_flush mem j s = Ok () \<lparr>base = Some b', chain = ch\<rparr>"
    using len j flush assms(3) dr by (simp add: CBB_flush_eq [OF base] del: flush_children.simps)
  moreover have "settled ch out' \<lparr>base = Some b', chain = ch\<rparr>" unfolding settled_def using b' by auto
  ultimately show ?thesis unfolding holds_def using assms(2) j by auto
qed

lemma write_pending_prefix:
  assumes "buf b = (P @ Z @ body) @ R" "blen b = length (P @ Z @ body)" "length Z = k"
    and "length body < 2 ^ 32" "length body < 256 ^ k"
  shows "write_pending mem \<lparr>offset = length P, pending_len_len = k, pending_is_asn1 = False\<rparr> b =
    Ok () (b\<lparr>buf := (P @ be_bytes k (of_nat (length body) :: u32) @ body) @ R\<rparr>)"
proof -
  have "blen b - (length P + k) = length body" using assms(2,3) by simp
  moreover have "put_at (length P) (be_bytes k (of_nat (length body) :: u32)) b =
      b\<lparr>buf := P @ be_bytes k (of_nat (length body) :: u32) @ (body @ R)\<rparr>"
    by (rule put_at_middle) (use assms(1,3) in simp_all)
  ultimately show ?thesis
    using be_loop_eq [OF assms(4), of k] assms(5) by (simp add: write_pending_def)
qed

lemma asn1_len_len_eq:
  assumes "n < 2 ^ 32"
  shows "asn1_len_len n = (if n < 128 then (1, of_nat n) else (len_octets n + 1, of_nat (128 + len_octets n)))"
  by (simp add: asn1_len_len_def len_octets_def)

lemma write_pending_asn1:
  assumes "grants_all mem" "can_resize b" "\<not> berror b"
    and "buf b = (P @ [z] @ body) @ R" "blen b = length (P @ [z] @ body)"
    and "length body \<le> 0xFFFFFFFE" "length P + length (der_len (length body)) + length body < 2 ^ 64"
  shows "\<exists>b' R'. write_pending mem \<lparr>offset = length P, pending_len_len = 1, pending_is_asn1 = True\<rparr> b = Ok () b' \<and>
    can_resize b' \<and> \<not> berror b' \<and> buf b' = (P @ der_len (length body) @ body) @ R' \<and>
    blen b' = length (P @ der_len (length body) @ body)"
proof -
  let ?n = "length body" and ?k = "len_octets (length body)"
  have n: "?n < 2 ^ 32" "\<not> 0xFFFFFFFE < ?n" using assms(6) by simp_all
  have len: "blen b - (length P + 1) = ?n" using assms(5) by simp
  show ?thesis
  proof (cases "?n < 128")
    case True
    have "put_at (length P + 1) [] (put_at (length P) [of_nat ?n] b) = b\<lparr>buf := (P @ der_len ?n @ body) @ R\<rparr>"
      using put_at_middle [of b P "[z]" "body @ R" "length P" "[of_nat ?n]"] assms(4) True
      by (simp add: put_at_def der_len_def)
    then show ?thesis
      using True n len assms(2,3,5) by (simp add: write_pending_def asn1_len_len_eq der_len_def)
  next
    case False
    have k: "1 \<le> ?k" "?n < 2 ^ (8 * ?k)" using len_octets_bounds [of ?n] n(1) by simp_all
    have nz: "?k + 1 \<noteq> 1" using k(1) by simp
    have "(length (P @ [z] @ body)) + ?k < 2 ^ 64" using assms(7) False by (simp add: der_len_def)
    from buffer_add [OF assms(1-5) this] obtain b1 J R1 where b1: "cbb_buffer_add mem ?k b = Ok (length (P @ [z] @ body)) b1"
      "can_resize b1" "\<not> berror b1" "buf b1 = (P @ [z] @ body) @ J @ R1" "length J = ?k"
      "blen b1 = length (P @ [z] @ body) + ?k" by blast
    define K where "K = take ?k (body @ J)"
    have K: "length K = ?k" using b1(5) by (simp add: K_def)
    have "take (length P + 1 + ?k) (buf b1) = P @ [z] @ K"
      using b1(4,5) by (simp add: K_def)
    moreover have "drop (length P + 1 + ?k + ?n) (buf b1) = R1" using b1(4,5) by simp
    ultimately have "put_at (length P + 1 + ?k) body b1 = b1\<lparr>buf := P @ [z] @ K @ body @ R1\<rparr>"
      by (simp add: put_at_def)
    moreover have "take ?n (drop (length P + 1) (buf b1)) = body" using b1(4) by simp
    ultimately have b2: "shift_contents mem (length P + 1) ?k ?n b = Ok () (b1\<lparr>buf := P @ [z] @ K @ body @ R1\<rparr>)"
      using b1(1) by (simp only: shift_contents_def rbind.simps)
    have loop: "be_loop ?k ?n = (be_bytes ?k (of_nat ?n :: u32), 0)"
      using be_loop_eq [OF n(1), of ?k] k(2) by (simp add: power_mult)
    have b3: "put_at (Suc (length P)) (be_bytes ?k (of_nat ?n :: u32)) (put_at (length P) [x] (b1\<lparr>buf := P @ z # K @ body @ R1\<rparr>)) =
        b1\<lparr>buf := P @ x # be_bytes ?k (of_nat ?n :: u32) @ body @ R1\<rparr>" for x
      using K by (simp add: put_at_def)
    have "write_pending mem \<lparr>offset = length P, pending_len_len = 1, pending_is_asn1 = True\<rparr> b =
        Ok () (b1\<lparr>buf := (P @ der_len ?n @ body) @ R1\<rparr>)"
      unfolding write_pending_def Let_def cbb.simps len asn1_len_len_eq [OF n(1)]
      using False n(2) nz b2 loop by (simp add: der_len_def b3)
    then show ?thesis using b1 False by (simp add: der_len_def)
  qed
qed

lemma length_prefixed_opens:
  assumes "grants_all mem" and "length ch = Suc i" and "holds mem ch out s" and "length out + k < 2 ^ 64"
  obtains s' where "cbb_add_length_prefixed mem i k s = Ok () s'"
    and "settled (ch @ [\<lparr>offset = length out, pending_len_len = k, pending_is_asn1 = False\<rparr>]) (out @ replicate k 0) s'"
proof -
  let ?d = "\<lparr>offset = length out, pending_len_len = k, pending_is_asn1 = False\<rparr>"
  from holdsE [OF assms(3,2)] obtain s' where fl: "CBB_flush mem i s = Ok () s'" and st: "settled ch out s'" .
  from st obtain b R where b: "s' = \<lparr>base = Some b, chain = ch\<rparr>" "can_resize b" "\<not> berror b"
    "buf b = out @ R" "blen b = length out" unfolding settled_def by auto
  from buffer_add [OF assms(1) b(2-5) assms(4)] obtain b1 J R1 where
    b1: "cbb_buffer_add mem k b = Ok (length out) b1" "can_resize b1" "\<not> berror b1" "buf b1 = out @ J @ R1"
      "length J = k" "blen b1 = length out + k" by auto
  let ?b2 = "b1\<lparr>buf := (out @ replicate k 0) @ R1\<rparr>"
  have "put_at (length out) (replicate k 0) b1 = ?b2" using put_at_middle [OF b1(4) refl, of "replicate k 0"] b1(5) by simp
  then have "cbb_add_length_prefixed mem i k s = Ok () \<lparr>base = Some ?b2, chain = ch @ [?d]\<rparr>"
    using fl b(1) b1(1) assms(2) by (simp add: cbb_add_length_prefixed_def flushed_def on_base_def open_child_def)
  moreover have "settled (ch @ [?d]) (out @ replicate k 0) \<lparr>base = Some ?b2, chain = ch @ [?d]\<rparr>"
    unfolding settled_def using b1 by auto
  ultimately show thesis by (rule that)
qed

lemma appends_length_prefixed:
  assumes "grants_all mem" and "appends mem (Suc i) p body" and "0 < k" "k \<le> 4" and "length body < 256 ^ k"
  shows "appends mem i (\<lambda>s. rbind (cbb_add_length_prefixed mem i k s) (\<lambda>_. p))
    (be_bytes k (of_nat (length body) :: u32) @ body)"
  unfolding appends_def
proof (intro allI impI)
  fix s ch out
  assume ch: "length ch = Suc i" and h: "holds mem ch out s"
    and n: "length out + length (be_bytes k (of_nat (length body) :: u32) @ body) < 2 ^ 64"
  let ?d = "\<lparr>offset = length out, pending_len_len = k, pending_is_asn1 = False\<rparr>"
  from n have "length out + k < 2 ^ 64" by simp
  from length_prefixed_opens [OF assms(1) ch h this] obtain s1 where
    add: "cbb_add_length_prefixed mem i k s = Ok () s1" and "settled (ch @ [?d]) (out @ replicate k 0) s1" .
  then have "holds mem (ch @ [?d]) (out @ replicate k 0) s1" by (simp add: settled_holds)
  from appendsD [OF assms(2) _ this] n ch obtain x t where
    p: "p s1 = Ok x t" and t: "holds mem (ch @ [?d]) ((out @ replicate k 0) @ body) t" by auto
  have small: "length body < 2 ^ 32"
    using assms(4,5) power_increasing [of k 4 "256 :: nat"] by simp
  have "holds mem ch (out @ be_bytes k (of_nat (length body) :: u32) @ body) t"
  proof (rule holds_child [OF t])
    show "ch \<noteq> []" using ch by auto
    fix b :: cbb_buffer and R
    assume "can_resize b" "\<not> berror b" "buf b = ((out @ replicate k 0) @ body) @ R"
      "blen b = length ((out @ replicate k 0) @ body)"
    then show "\<exists>b' R'. write_pending mem ?d b = Ok () b' \<and> can_resize b' \<and> \<not> berror b' \<and>
        buf b' = (out @ be_bytes k (of_nat (length body) :: u32) @ body) @ R' \<and>
        blen b' = length (out @ be_bytes k (of_nat (length body) :: u32) @ body)"
      using write_pending_prefix [of b out "replicate k 0" body R k mem] small assms(5) by simp
  qed (use assms(3) n in simp_all)
  then show "\<exists>x t. rbind (cbb_add_length_prefixed mem i k s) (\<lambda>_. p) = Ok x t \<and>
      holds mem ch (out @ be_bytes k (of_nat (length body) :: u32) @ body) t"
    using add p by simp
qed

lemma rbind_Ok_right [simp]: "rbind m Ok = m"
  by (cases m) simp_all

section \<open>ASN.1\<close>

lemma base128_len_eq: "base128_len v = length (base128_groups (unat v))"
proof (induction v rule: base128_len.induct)
  case (1 v)
  then show ?case
    using base128_groups_step [of "unat v"]
    by (cases "v = 0")
      (simp add: base128_len.simps [of 0], simp add: base128_len.simps [of v] drop_bit_eq_div unat_div unat_gt_0)
qed

text \<open>The bytes \<open>base128_write\<close> writes, the last \<open>k\<close> groups of \<open>v\<close>.\<close>

fun last_groups :: "u64 \<Rightarrow> nat \<Rightarrow> byte list" where
  "last_groups v 0 = []"
| "last_groups v (Suc i) =
     (let b = ucast (drop_bit (7 * i) v) AND 0x7F in (if i \<noteq> 0 then b OR 0x80 else b) # last_groups v i)"

lemma writes_base128_write:
  assumes "grants_all mem" and "0 < k"
  shows "writes mem c (base128_write mem c v k) (last_groups v k)"
  using assms(2)
proof (induction k)
  case (Suc i)
  let ?b = "let b = ucast (drop_bit (7 * i) v) AND 0x7F in if i \<noteq> 0 then b OR 0x80 else b :: byte"
  note IH = Suc.IH
  have step: "base128_write mem c v (Suc i) = (\<lambda>s. rbind (CBB_add_u8 mem c ?b s) (\<lambda>_. base128_write mem c v i))"
    "last_groups v (Suc i) = [?b] @ last_groups v i"
    by (rule ext) (simp_all add: Let_def)
  show ?case
  proof (cases i)
    case 0
    have "base128_write mem c v 0 = Ok ()" by (rule ext) simp
    then show ?thesis unfolding step using 0 writes_add_u8 [OF assms(1)] by simp
  next
    case (Suc j)
    then have "0 < i" by simp
    then show ?thesis unfolding step by (intro writes_bind writes_add_u8 assms(1) IH)
  qed
qed simp

fun high_groups :: "u64 \<Rightarrow> nat \<Rightarrow> byte list" where
  "high_groups v 0 = []"
| "high_groups v (Suc i) = ((ucast (drop_bit (7 * i) v) AND 0x7F) OR 0x80) # high_groups v i"

lemma drop_bit_7_Suc: "drop_bit (7 * Suc i) v = drop_bit (7 * i) (drop_bit 7 v)" for v :: u64
  by (simp add: drop_bit_drop_bit add.commute)

lemma high_groups_snoc:
  "high_groups v (Suc i) = high_groups (drop_bit 7 v) i @ [(ucast v AND 0x7F) OR 0x80]"
  by (induction i) (simp_all only: high_groups.simps drop_bit_7_Suc append_Cons append_Nil mult_0_right drop_bit_0 id_apply)

lemma last_groups_snoc: "last_groups v (Suc i) = high_groups (drop_bit 7 v) i @ [ucast v AND 0x7F]"
proof (induction i)
  case (Suc i)
  have "last_groups v (Suc (Suc i)) = ((ucast (drop_bit (7 * Suc i) v) AND 0x7F) OR 0x80) # last_groups v (Suc i)"
    by (simp add: Let_def)
  then show ?case unfolding Suc drop_bit_7_Suc by simp
qed simp

lemma ucast_and_7F: "ucast v AND 0x7F = (of_nat (unat v mod 128) :: byte)" for v :: u64
proof (rule word_unat_eq_iff [THEN iffD2])
  have "unat (ucast v :: byte) = unat v mod 256" by (simp add: unsigned_ucast_eq take_bit_eq_mod)
  then have "unat (ucast v AND 0x7F :: byte) = unat v mod 256 mod 128" by (simp only: unat_and_7F)
  also have "\<dots> = unat v mod 128" by (simp add: mod_mod_cancel)
  finally show "unat (ucast v AND 0x7F :: byte) = unat (of_nat (unat v mod 128) :: byte)" by (simp add: unat_of_nat)
qed

lemma unat_drop_bit_7: "unat (drop_bit 7 v) = unat v div 128" for v :: u64
  by (simp add: drop_bit_eq_div unat_div)

lemma high_groups_eq: "high_groups v (length (base128_groups (unat v))) = base128_groups (unat v)"
proof (induction v rule: base128_len.induct)
  case (1 v)
  show ?case
  proof (cases "v = 0")
    case False
    then have "base128_groups (unat v) =
        base128_groups (unat (drop_bit 7 v)) @ [(ucast v AND 0x7F) OR 0x80]"
      unfolding ucast_and_7F unat_drop_bit_7 by (simp add: base128_groups_step unat_gt_0)
    then show ?thesis using 1 [OF False] by (simp only: length_append_singleton high_groups_snoc)
  qed simp
qed

lemma last_groups_eq:
  "last_groups v (if base128_groups (unat v) = [] then 1 else length (base128_groups (unat v))) = base128_bytes (unat v)"
proof -
  have "(if base128_groups (unat v) = [] then 1 else length (base128_groups (unat v))) =
      Suc (length (base128_groups (unat (drop_bit 7 v))))"
    unfolding unat_drop_bit_7 using base128_groups_step [of "unat v"] by (cases "unat v = 0") simp_all
  then show ?thesis
    by (simp only: last_groups_snoc high_groups_eq) (simp add: base128_bytes_def ucast_and_7F unat_drop_bit_7)
qed

lemma writes_base128:
  assumes "grants_all mem"
  shows "writes mem c (add_base128_integer mem c v) (base128_bytes (unat v))"
  unfolding add_base128_integer_def Let_def base128_len_eq length_0_conv last_groups_eq [symmetric]
  by (rule writes_base128_write [OF assms]) simp

lemma writes_tag:
  assumes "grants_all mem"
  shows "writes mem i (\<lambda>s. if 0x1F \<le> tag_number t
      then rbind (CBB_add_u8 mem i (tag_bits t OR 0x1F) s) (\<lambda>_. add_base128_integer mem i (ucast (tag_number t)))
      else CBB_add_u8 mem i (tag_bits t OR ucast (tag_number t)) s) (der_tag t)"
proof (cases "0x1F \<le> tag_number t")
  case True
  have "writes mem i (\<lambda>s. rbind (CBB_add_u8 mem i (tag_bits t OR 0x1F) s)
      (\<lambda>_. add_base128_integer mem i (ucast (tag_number t)))) ([tag_bits t OR 0x1F] @ base128_bytes (unat (tag_number t)))"
    using writes_base128 [OF assms, of i "ucast (tag_number t)"] tag_number_wide(1) [of t]
    by (intro writes_bind writes_add_u8 assms) simp
  then show ?thesis using True by (simp add: der_tag_def)
next
  case False
  then show ?thesis using writes_add_u8 [OF assms] by (simp add: der_tag_def)
qed

text \<open>A program for the contents of a child: it starts from a child that is still empty.\<close>

definition fills :: "cbb_mem \<Rightarrow> nat \<Rightarrow> (cbb_state \<Rightarrow> ('a, cbb_state) res) \<Rightarrow> byte list \<Rightarrow> bool" where
  "fills mem i p bs \<longleftrightarrow> (\<forall>s ch d P. length ch = i \<longrightarrow> holds mem (ch @ [d]) P s \<longrightarrow>
     length P = offset d + pending_len_len d \<longrightarrow> length P + length bs < 2 ^ 64 \<longrightarrow>
     (\<exists>x s'. p s = Ok x s' \<and> holds mem (ch @ [d]) (P @ bs) s'))"

lemma appends_fills: "appends mem i p bs \<Longrightarrow> fills mem i p bs"
  unfolding appends_def fills_def by simp

lemma fills_asn1:
  assumes "grants_all mem" and "fills mem (Suc i) p body" and "length body \<le> 0xFFFFFFFE"
  shows "appends mem i (\<lambda>s. rbind (CBB_add_asn1 mem i t s) (\<lambda>_. p)) (der_element t body)"
proof (rule appendsI)
  fix s s' ch out
  assume ch: "length ch = Suc i" and fl: "CBB_flush mem i s = Ok () s'" and st: "settled ch out s'"
    and n: "length out + length (der_element t body) < 2 ^ 64"
  have ne: "ch \<noteq> []" using ch by auto
  let ?P = "out @ der_tag t"
  let ?d = "\<lparr>offset = length ?P, pending_len_len = 1, pending_is_asn1 = True\<rparr>"
  have len: "length out + length (der_tag t) + 1 + length body < 2 ^ 64" and
    len': "length ?P + length (der_len (length body)) + length body < 2 ^ 64"
    using n len_octets_bounds(1) [of "length body"]
    by (auto simp: der_element_def der_header_def der_len_def split: if_splits)
  from writesD [OF writes_tag [OF assms(1)] ch settled_holds [OF st ne], of t] len obtain x1 s1 where
    s1: "(if 0x1F \<le> tag_number t
      then rbind (CBB_add_u8 mem i (tag_bits t OR 0x1F) s') (\<lambda>_. add_base128_integer mem i (ucast (tag_number t)))
      else CBB_add_u8 mem i (tag_bits t OR ucast (tag_number t)) s') = Ok x1 s1" "settled ch ?P s1" by auto
  from writesD [OF writes_add_u8 [OF assms(1)] ch settled_holds [OF s1(2) ne], of 0] len obtain s2 where
    s2: "CBB_add_u8 mem i 0 s1 = Ok () s2" "settled ch (?P @ [0]) s2" by auto
  have add: "CBB_add_asn1 mem i t s = Ok () (open_child i ?d s2)"
    using fl s1 s2(1) unfolding CBB_add_asn1_def tag_bits_def [symmetric] tag_number_def [symmetric]
    by (auto simp: on_base_def settled_def)
  have "settled (ch @ [?d]) (?P @ [0]) (open_child i ?d s2)"
    using s2(2) ch unfolding settled_def open_child_def by auto
  then have h: "holds mem (ch @ [?d]) (?P @ [0]) (open_child i ?d s2)" by (rule settled_holds) simp
  have "length (?P @ [0]) + length body < 2 ^ 64" using len by simp
  with assms(2) ch h obtain x u where
    p: "p (open_child i ?d s2) = Ok x u" and u: "holds mem (ch @ [?d]) ((?P @ [0]) @ body) u"
    unfolding fills_def by force
  have "holds mem ch (?P @ der_len (length body) @ body) u"
  proof (rule holds_child [OF u ne])
    fix b :: cbb_buffer and R
    assume "can_resize b" "\<not> berror b" "buf b = ((?P @ [0]) @ body) @ R" "blen b = length ((?P @ [0]) @ body)"
    then show "\<exists>b' R'. write_pending mem ?d b = Ok () b' \<and> can_resize b' \<and> \<not> berror b' \<and>
        buf b' = (?P @ der_len (length body) @ body) @ R' \<and> blen b' = length (?P @ der_len (length body) @ body)"
      by (intro write_pending_asn1 [OF assms(1)]) (use assms(3) len' in simp_all)
  qed (use len in simp_all)
  then show "\<exists>x t'. rbind (CBB_add_asn1 mem i t s) (\<lambda>_. p) = Ok x t' \<and> holds mem ch (out @ der_element t body) t'"
    using add p by (simp add: der_element_def der_header_def)
qed

lemmas appends_asn1 = fills_asn1 [OF _ appends_fills]

section \<open>ASN.1 values\<close>

fun emit_all :: "cbb_mem \<Rightarrow> nat \<Rightarrow> byte list \<Rightarrow> cbb_state \<Rightarrow> (unit, cbb_state) res" where
  "emit_all mem c [] s = Ok () s"
| "emit_all mem c (b # bs) s = rbind (CBB_add_u8 mem c b s) (\<lambda>_. emit_all mem c bs)"

lemma emit_all_simps [simp]:
  "emit_all mem c [] = Ok ()"
  "emit_all mem c (b # bs) = (\<lambda>s. rbind (CBB_add_u8 mem c b s) (\<lambda>_. emit_all mem c bs))"
  by (simp_all add: fun_eq_iff)

declare emit_all.simps [simp del]

lemma emit_all_append:
  "emit_all mem c (xs @ ys) = (\<lambda>s. rbind (emit_all mem c xs s) (\<lambda>_. emit_all mem c ys))"
  by (induction xs) (simp_all add: rbind_assoc)

lemma appends_emit_all:
  assumes "grants_all mem"
  shows "appends mem c (emit_all mem c bs) bs"
proof (induction bs)
  case Nil
  show ?case using appends_Ok by simp
next
  case (Cons b bs)
  show ?case
    using appends_bind [OF writes_appends [OF writes_add_u8 [OF assms, of c b]] Cons.IH] by simp
qed

text \<open>What \<open>uint64_write\<close> writes, and the flag it ends with.\<close>

fun uint64_bytes :: "u64 \<Rightarrow> nat \<Rightarrow> bool \<Rightarrow> byte list \<times> bool" where
  "uint64_bytes v 0 started = ([], started)"
| "uint64_bytes v (Suc k) started =
     (let b = ucast (drop_bit (8 * k) v AND 0xFF) :: byte in
      if \<not> started \<and> b = 0 then uint64_bytes v k started
      else ((if \<not> started \<and> b AND 0x80 \<noteq> 0 then [0] else []) @ b # fst (uint64_bytes v k True),
            snd (uint64_bytes v k True)))"

lemma uint64_write_eq:
  "uint64_write mem c v k started =
     (\<lambda>s. rbind (emit_all mem c (fst (uint64_bytes v k started)) s) (\<lambda>_. Ok (snd (uint64_bytes v k started))))"
proof (induction k arbitrary: started)
  case (Suc k)
  show ?case by (rule ext) (simp add: Let_def rbind_assoc Suc)
qed (simp add: fun_eq_iff)

lemma be_bytes_Cons: "be_bytes (Suc k) v = ucast (drop_bit (8 * k) v) # be_bytes k v"
  by (simp add: be_bytes_def le_bytes_def)

lemma be_bytes_snoc: "be_bytes (Suc k) v = be_bytes k (drop_bit 8 v) @ [ucast v]"
  by (simp add: be_bytes_def le_bytes_Suc)

lemma ucast_byte_and_FF: "ucast (v AND 0xFF) = (ucast v :: byte)" for v :: u64
proof -
  have "v AND 0xFF = take_bit 8 v" by (simp add: take_bit_eq_mask mask_eq_exp_minus_1)
  then show ?thesis by (simp only:) (rule bit_eqI, simp add: bit_simps)
qed

lemma uint64_bytes_started: "uint64_bytes v k True = (be_bytes k v, True)"
  by (induction k) (simp_all add: Let_def be_bytes_Cons ucast_byte_and_FF, simp add: be_bytes_def)

lemma be_min_be_bytes:
  fixes v :: u64
  assumes "256 ^ k \<le> unat v" "unat v < 256 ^ Suc k"
  shows "be_min (unat v) = be_bytes (Suc k) v"
  using assms
proof (induction k arbitrary: v)
  case 0
  then show ?case
    by (simp add: be_min.simps [of "unat v"] be_bytes_def le_bytes_Suc of_nat_unat)
next
  case (Suc k)
  have d: "unat (drop_bit 8 v) = unat v div 256" by (simp add: drop_bit_eq_div unat_div)
  have "be_min (unat (drop_bit 8 v)) = be_bytes (Suc k) (drop_bit 8 v)"
    by (rule Suc.IH) (use Suc.prems in \<open>simp_all add: d less_mult_imp_div_less mult.commute less_eq_div_iff_mult_less_eq\<close>)
  moreover have "\<not> unat v < 256" using Suc.prems(1) by (simp add: not_less) (metis le_trans mult_le_mono2 mult_1_right one_le_power one_le_numeral)
  moreover have "of_nat (unat v mod 256) = (ucast v :: byte)"
    by (rule word_unat_eq_iff [THEN iffD2]) (simp add: unat_of_nat unsigned_ucast_eq take_bit_eq_mod)
  ultimately show ?case by (simp add: be_min.simps [of "unat v"] d be_bytes_snoc [of "Suc k"])
qed

lemma uint64_bytes_fresh:
  assumes "unat v < 256 ^ k"
  shows "uint64_bytes v k False = (if v = 0 then ([], False) else (der_uint v, True))"
  using assms
proof (induction k)
  case 0
  then show ?case by (simp add: unat_eq_0)
next
  case (Suc k)
  let ?b = "ucast (drop_bit (8 * k) v) :: byte"
  have b: "unat ?b = unat v div 256 ^ k"
  proof -
    have "unat (drop_bit (8 * k) v) = unat v div 256 ^ k"
      unfolding unsigned_drop_bit_eq
      using take_bit_nat_eq_self [of "unat v" 64] unsigned_less [of v, where 'a = nat]
      by (simp add: drop_bit_eq_div power_mult)
    moreover have "unat v div 256 ^ k < 256" using Suc.prems by (simp add: less_mult_imp_div_less)
    ultimately show ?thesis by (simp add: unsigned_ucast_eq take_bit_nat_eq_self)
  qed
  show ?case
  proof (cases "?b = 0")
    case True
    then have "unat v < 256 ^ k" using b by (simp add: div_eq_0_iff)
    then show ?thesis using Suc.IH True by (simp add: Let_def ucast_byte_and_FF)
  next
    case False
    then have "0 < unat v div 256 ^ k" using b by (metis unat_gt_0)
    then have "256 ^ k \<le> unat v" by (metis div_less not_less less_irrefl)
    from be_min_be_bytes [OF this Suc.prems] have min: "be_min (unat v) = ?b # be_bytes k v"
      by (simp add: be_bytes_Cons)
    have "v \<noteq> 0" using False by auto
    then show ?thesis
      using False min by (simp add: Let_def ucast_byte_and_FF uint64_bytes_started der_uint_def)
  qed
qed

lemma appends_asn1_uint64:
  assumes "grants_all mem"
  shows "appends mem i (CBB_add_asn1_uint64 mem i v) (der_element CBS_ASN1_INTEGER (der_uint v))"
proof -
  have bytes: "(let (bs, st) = uint64_bytes v 8 False in bs @ (if \<not> st then [0] else [])) = der_uint v"
    using uint64_bytes_fresh [of v 8] unsigned_less [of v, where 'a = nat] by (simp add: der_uint_def be_min.simps [of 0])
  have child: "rbind (uint64_write mem (Suc i) v 8 False s) (\<lambda>started s.
      if \<not> started then CBB_add_u8 mem (Suc i) 0 s else Ok () s) = emit_all mem (Suc i) (der_uint v) s" for s
    unfolding bytes [symmetric] Let_def
    by (cases "uint64_bytes v 8 False") (simp add: uint64_write_eq rbind_assoc emit_all_append)
  have "CBB_add_asn1_uint64 mem i v =
      (\<lambda>s. rbind (rbind (CBB_add_asn1 mem i CBS_ASN1_INTEGER s) (\<lambda>_. emit_all mem (Suc i) (der_uint v))) (\<lambda>_. CBB_flush mem i))"
    unfolding child [symmetric, abs_def] by (rule ext) (simp add: CBB_add_asn1_uint64_def rbind_assoc)
  moreover have "appends mem i \<dots> (der_element CBS_ASN1_INTEGER (der_uint v) @ [])"
    by (intro appends_bind writes_appends [OF writes_flush] appends_asn1 appends_emit_all assms)
      (use der_uint_complete(3) [of v] in simp)
  ultimately show ?thesis by simp
qed

lemma appends_asn1_bool:
  assumes "grants_all mem"
  shows "appends mem i (CBB_add_asn1_bool mem i v) (der_element CBS_ASN1_BOOLEAN [if v \<noteq> 0 then 0xFF else 0])"
proof -
  have "appends mem i (\<lambda>s. rbind (rbind (CBB_add_asn1 mem i CBS_ASN1_BOOLEAN s)
      (\<lambda>_. CBB_add_u8 mem (Suc i) (if v \<noteq> 0 then 0xFF else 0))) (\<lambda>_. CBB_flush mem i))
    (der_element CBS_ASN1_BOOLEAN [if v \<noteq> 0 then 0xFF else 0] @ [])"
    by (intro appends_bind writes_appends [OF writes_flush] appends_asn1 writes_appends [OF writes_add_u8] assms) simp
  then show ?thesis unfolding CBB_add_asn1_bool_def [abs_def] by (simp add: rbind_assoc)
qed

lemma appends_asn1_octet_string:
  assumes "grants_all mem" and "length data \<le> 0xFFFFFFFE"
  shows "appends mem i (CBB_add_asn1_octet_string mem i data) (der_element CBS_ASN1_OCTETSTRING data)"
proof -
  have "appends mem i (\<lambda>s. rbind (rbind (CBB_add_asn1 mem i CBS_ASN1_OCTETSTRING s)
      (\<lambda>_. CBB_add_bytes mem (Suc i) data)) (\<lambda>_. CBB_flush mem i)) (der_element CBS_ASN1_OCTETSTRING data @ [])"
    by (intro appends_bind writes_appends [OF writes_flush] appends_asn1 writes_appends [OF writes_add_bytes] assms)
  then show ?thesis unfolding CBB_add_asn1_octet_string_def [abs_def] by (simp add: rbind_assoc)
qed

section \<open>From initialisation to the finished bytes\<close>

lemma CBB_init_settled:
  assumes "grants_all mem"
  shows "\<exists>s. CBB_init mem n = Some s \<and> settled [top_level] [] s"
  using assms by (simp add: grants_all_def CBB_init_def cbb_init_def settled_def)

lemma CBB_finish_holds:
  assumes "holds mem [top_level] out s"
  shows "\<exists>s'. CBB_finish mem 0 s = Ok out s'"
  using assms by (auto simp: holds_def settled_def CBB_finish_def on_base_def)

text \<open>A complete use of the builder.\<close>

definition build :: "cbb_mem \<Rightarrow> nat \<Rightarrow> (cbb_state \<Rightarrow> ('a, cbb_state) res) \<Rightarrow> byte list option" where
  "build mem capacity p = (case CBB_init mem capacity of
     None \<Rightarrow> None
   | Some s \<Rightarrow> (case rbind (p s) (\<lambda>_. CBB_finish mem 0) of Ok out _ \<Rightarrow> Some out | _ \<Rightarrow> None))"

lemma build_appends:
  assumes "grants_all mem" and "appends mem 0 p bs" and "length bs < 2 ^ 64"
  shows "build mem n p = Some bs"
proof -
  from CBB_init_settled [OF assms(1)] obtain s where s: "CBB_init mem n = Some s" "settled [top_level] [] s" by blast
  from appendsD [OF assms(2) _ settled_holds [OF s(2)]] assms(3) obtain x t where
    "p s = Ok x t" "holds mem [top_level] ([] @ bs) t" by auto
  with CBB_finish_holds [of mem bs t] s(1) show ?thesis by (auto simp: build_def)
qed

section \<open>Codecs\<close>

text \<open>A parser and a builder operation for the same encoding: what is built parses back.\<close>

locale codec = exact_parser parse enc valid
  for parse :: "'a parser" and enc :: "'a \<Rightarrow> byte list" and valid :: "'a \<Rightarrow> bool" +
  fixes add :: "cbb_mem \<Rightarrow> nat \<Rightarrow> 'a \<Rightarrow> cbb_state \<Rightarrow> (unit, cbb_state) res" and addable :: "'a \<Rightarrow> bool"
  assumes add_appends: "grants_all mem \<Longrightarrow> addable x \<Longrightarrow> appends mem i (add mem i x) (enc x)"
    and addable_valid: "addable x \<Longrightarrow> valid x"
begin

fun add_list :: "cbb_mem \<Rightarrow> nat \<Rightarrow> 'a list \<Rightarrow> cbb_state \<Rightarrow> (unit, cbb_state) res" where
  "add_list mem i [] = Ok ()"
| "add_list mem i (x # xs) = (\<lambda>s. rbind (add mem i x s) (\<lambda>_. add_list mem i xs))"

lemma add_list_appends:
  assumes "grants_all mem" and "list_all addable xs"
  shows "appends mem i (add_list mem i xs) (concat (map enc xs))"
  using assms(2)
proof (induction xs)
  case (Cons x xs)
  then show ?case using appends_bind [OF add_appends [OF assms(1), of x i]] by simp
qed (simp add: appends_Ok)

lemma build_parse:
  assumes "grants_all mem" and "addable x" and "length (enc x) < 2 ^ 64"
  shows "\<exists>out. build mem n (add mem 0 x) = Some out \<and> parse (out @ rest) = Ok x rest"
  using build_appends [OF assms(1) add_appends [OF assms(1,2)] assms(3)] parse_enc [OF addable_valid [OF assms(2)]]
  by simp

end

interpretation uint64_codec: codec CBS_get_asn1_uint64 "\<lambda>w. der_element CBS_ASN1_INTEGER (der_uint w)" "\<lambda>_. True"
    CBB_add_asn1_uint64 "\<lambda>_. True"
  by unfold_locales (simp_all add: appends_asn1_uint64)

interpretation bool_codec: codec CBS_get_asn1_bool "\<lambda>v. der_element CBS_ASN1_BOOLEAN [if v then 0xFF else 0]" "\<lambda>_. True"
    "\<lambda>mem i v. CBB_add_asn1_bool mem i (if v then 1 else 0)" "\<lambda>_. True"
  by unfold_locales (use appends_asn1_bool [of _ _ 1] appends_asn1_bool [of _ _ 0] in simp_all)

interpretation octet_string_codec: codec "CBS_get_asn1 CBS_ASN1_OCTETSTRING" "der_element CBS_ASN1_OCTETSTRING"
    "\<lambda>body. length body < 2 ^ 32" CBB_add_asn1_octet_string "\<lambda>data. length data \<le> 0xFFFFFFFE"
  by unfold_locales (simp_all add: appends_asn1_octet_string)

interpretation u24_codec: codec CBS_get_u24 "be_bytes 3" "\<lambda>v. unat v < 2 ^ 24" CBB_add_u24 "\<lambda>v. unat v < 2 ^ 24"
  by unfold_locales (simp_all add: writes_appends [OF writes_add_u24])

interpretation u32_codec: codec CBS_get_u32 "be_bytes 4" "\<lambda>_. True" CBB_add_u32 "\<lambda>_. True"
  by unfold_locales (simp_all add: writes_appends [OF writes_add_u32])

text \<open>A length that does not fit its prefix is an error of the buffer.\<close>

lemma write_pending_overflow:
  assumes "blen b = offset d + pending_len_len d + n" and "\<not> pending_is_asn1 d" and "n < 2 ^ 32"
    and "256 ^ pending_len_len d \<le> n"
  shows "\<exists>b'. write_pending mem d b = Fail b'"
proof -
  have "0 < n div 256 ^ pending_len_len d" using assms(4) by (simp add: div_greater_zero_iff)
  then show ?thesis
    using assms(1,2) be_loop_eq [OF assms(3), of "pending_len_len d"]
    by (simp add: write_pending_def cbb_set_error_def Let_def)
qed

lemma flush_overflow:
  assumes "settled (ch @ [d]) out s" and "length ch = Suc i" and "pending_len_len d \<noteq> 0"
    and "length out = offset d + pending_len_len d + n" and "\<not> pending_is_asn1 d" and "n < 2 ^ 32"
    and "256 ^ pending_len_len d \<le> n" and "length out < 2 ^ 64"
  shows "\<exists>t. CBB_flush mem i s = Fail t"
proof -
  from assms(1) obtain b R where s: "s = \<lparr>base = Some b, chain = ch @ [d]\<rparr>" and b: "\<not> berror b" "blen b = length out"
    by (auto simp: settled_def)
  have bl: "blen b = offset d + pending_len_len d + n" using assms(4) b(2) by simp
  from write_pending_overflow [OF bl assms(5-7)] obtain b' where w: "write_pending mem d b = Fail b'" by blast
  have wrap: "(offset d + pending_len_len d) mod 2 ^ 64 = offset d + pending_len_len d" using assms(4,8) by simp
  have "flush_children mem [d] b = Fail b'"
    using assms(3) b(1) bl w wrap by (simp add: Let_def)
  then show ?thesis
    using CBB_flush_eq [of s b i mem] s assms(2) by simp
qed

lemma length_prefixed_overflow:
  assumes "grants_all mem" and "writes mem (Suc i) p body" and "0 < k" and "256 ^ k \<le> length body"
    and "length body < 2 ^ 32" and "holds mem ch out s" and "length ch = Suc i"
    and "length out + k + length body < 2 ^ 64"
  shows "\<exists>x t. rbind (cbb_add_length_prefixed mem i k s) (\<lambda>_. p) = Ok x t \<and> (\<exists>u. CBB_flush mem i t = Fail u)"
proof -
  let ?d = "\<lparr>offset = length out, pending_len_len = k, pending_is_asn1 = False\<rparr>"
  from assms(8) have "length out + k < 2 ^ 64" by simp
  from length_prefixed_opens [OF assms(1,7,6) this] obtain s1 where
    add: "cbb_add_length_prefixed mem i k s = Ok () s1" and s1: "settled (ch @ [?d]) (out @ replicate k 0) s1" .
  have "holds mem (ch @ [?d]) (out @ replicate k 0) s1" using s1 by (simp add: settled_holds)
  from writesD [OF assms(2) _ this] assms(7,8) obtain x t where p: "p s1 = Ok x t"
    and t: "settled (ch @ [?d]) ((out @ replicate k 0) @ body) t" by auto
  from flush_overflow [OF t assms(7), of "length body" mem] assms(3-5,8)
  have "\<exists>u. CBB_flush mem i t = Fail u" by simp
  then show ?thesis using add p by simp
qed

section \<open>Properties\<close>

text \<open>C12: building an ASN.1 element refines its encoding: whatever the program for the contents
  appends, opening a child with a tag, running it and finishing gives the DER header, with the
  length form chosen and the contents moved as needed, and the contents; the parser reads it back.\<close>

theorem asn1_element_built:
  assumes "grants_all mem" and "appends mem 1 p body" and "length body \<le> 0xFFFFFFFE"
  shows "build mem n (\<lambda>s. rbind (CBB_add_asn1 mem 0 t s) (\<lambda>_. p)) = Some (der_element t body) \<and>
    CBS_get_any_asn1 (der_element t body @ rest) = Ok (body, t) rest"
proof
  have "length (der_element t body) < 2 ^ 64"
    using length_der_tag [of t] len_octets_bounds(2) [of "length body"] assms(3)
    by (simp add: der_element_def der_header_def der_len_def)
  then show "build mem n (\<lambda>s. rbind (CBB_add_asn1 mem 0 t s) (\<lambda>_. p)) = Some (der_element t body)"
    using build_appends [OF assms(1) appends_asn1 [OF assms(1) _ assms(3)]] assms(2) by simp
  show "CBS_get_any_asn1 (der_element t body @ rest) = Ok (body, t) rest"
    using assms(3) by (simp add: CBS_get_any_asn1_Ok)
qed

definition all_memory :: cbb_mem where
  "all_memory = \<lparr>grant = (\<lambda>_. True), junk = (\<lambda>_. 0xAA)\<rparr>"

lemma grants_all_memory: "grants_all all_memory"
  by (simp add: grants_all_def all_memory_def)

lemma der_tag_eval: "der_tag CBS_ASN1_BOOLEAN = [1]" "der_tag 0x20000010 = [0x30]"
  by code_simp+

theorem asn1_element_built_witness:
  "build all_memory 1 (\<lambda>s. rbind (CBB_add_asn1 all_memory 0 0x20000010 s)
      (\<lambda>_. CBB_add_asn1_bool all_memory 1 1)) = Some [0x30, 3, 1, 1, 0xFF]"
proof -
  have app: "appends all_memory 1 (CBB_add_asn1_bool all_memory 1 1) [1, 1, 0xFF]"
    using appends_asn1_bool [OF grants_all_memory, of 1 1]
    by (simp add: der_element_def der_header_def der_tag_eval der_len_def)
  show ?thesis
    using asn1_element_built [OF grants_all_memory app, of 1 "0x20000010"]
    by (simp add: der_element_def der_header_def der_tag_eval der_len_def)
qed

text \<open>C13: an ASN.1 INTEGER, BOOLEAN or OCTET STRING that the builder has written is read back by the
  parser, whatever follows it.\<close>

theorem asn1_values_roundtrip:
  assumes "grants_all mem" and "length data \<le> 0xFFFFFFFE"
  shows "(\<exists>out. build mem n (CBB_add_asn1_uint64 mem 0 v) = Some out \<and> CBS_get_asn1_uint64 (out @ rest) = Ok v rest) \<and>
    (\<exists>out. build mem n (CBB_add_asn1_bool mem 0 (if b then 1 else 0)) = Some out \<and>
      CBS_get_asn1_bool (out @ rest) = Ok b rest) \<and>
    (\<exists>out. build mem n (CBB_add_asn1_octet_string mem 0 data) = Some out \<and>
      CBS_get_asn1 CBS_ASN1_OCTETSTRING (out @ rest) = Ok data rest)"
proof (intro conjI)
  have header: "length (der_header t k) < 2 ^ 33" for t k
    using length_der_tag [of t] len_octets_bounds(2) [of k] by (simp add: der_header_def der_len_def)
  show "\<exists>out. build mem n (CBB_add_asn1_uint64 mem 0 v) = Some out \<and> CBS_get_asn1_uint64 (out @ rest) = Ok v rest"
    by (rule uint64_codec.build_parse [OF assms(1) TrueI])
      (use header [of CBS_ASN1_INTEGER "length (der_uint v)"] der_uint_complete(3) [of v] in \<open>simp add: der_element_def\<close>)
  show "\<exists>out. build mem n (CBB_add_asn1_bool mem 0 (if b then 1 else 0)) = Some out \<and>
      CBS_get_asn1_bool (out @ rest) = Ok b rest"
    by (rule bool_codec.build_parse [OF assms(1) TrueI])
      (use header [of CBS_ASN1_BOOLEAN 1] in \<open>simp add: der_element_def\<close>)
  show "\<exists>out. build mem n (CBB_add_asn1_octet_string mem 0 data) = Some out \<and>
      CBS_get_asn1 CBS_ASN1_OCTETSTRING (out @ rest) = Ok data rest"
    by (rule octet_string_codec.build_parse [OF assms(1,2)])
      (use header [of CBS_ASN1_OCTETSTRING "length data"] assms(2) in \<open>simp add: der_element_def\<close>)
qed

theorem asn1_values_roundtrip_witness:
  "\<exists>out. build all_memory 0 (CBB_add_asn1_uint64 all_memory 0 (2 ^ 63)) = Some out \<and>
     CBS_get_asn1_uint64 (out @ [7]) = Ok (2 ^ 63) [7]"
  using asn1_values_roundtrip [OF grants_all_memory, of "[]" 0 "2 ^ 63" "[7]" True] by simp

text \<open>C14: vectors of TLS: a child with a length prefix of \<open>k\<close> bytes (one, two or three) becomes the
  big-endian length and the contents, and the parser of such vectors gives the contents back.\<close>

theorem length_prefixed_roundtrip:
  assumes "grants_all mem" and "appends mem 1 p body" and "k \<in> {1, 2, 3}" and "length body < 256 ^ k"
  shows "\<exists>out. build mem n (\<lambda>s. rbind (cbb_add_length_prefixed mem 0 k s) (\<lambda>_. p)) = Some out \<and>
    cbs_get_length_prefixed k (out @ rest) = Ok body rest"
proof -
  have k: "0 < k" "k \<le> 4" using assms(3) by auto
  let ?n = "of_nat (length body) :: u32"
  have small: "length body < 2 ^ 32"
    using k(2) assms(4) power_increasing [of k 4 "256 :: nat"] by simp
  have "build mem n (\<lambda>s. rbind (cbb_add_length_prefixed mem 0 k s) (\<lambda>_. p)) = Some (be_bytes k ?n @ body)"
    by (rule build_appends [OF assms(1) appends_length_prefixed [OF assms(1) _ k assms(4)]])
      (use assms(2) small k in simp_all)
  moreover have "unat ?n = length body" using small by (simp add: unat_of_nat)
  then have "cbs_get_u k (be_bytes k ?n @ body @ rest) = Ok ?n (body @ rest)"
    using assms(4) k(2) by (simp add: cbs_get_u_Ok power_mult)
  then have "cbs_get_length_prefixed k ((be_bytes k ?n @ body) @ rest) = Ok body rest"
    using \<open>unat ?n = length body\<close> by (simp add: cbs_get_length_prefixed_def CBS_get_bytes_Ok)
  ultimately show ?thesis by blast
qed

theorem length_prefixed_roundtrip_witness:
  "\<exists>out. build all_memory 0 (\<lambda>s. rbind (cbb_add_length_prefixed all_memory 0 2 s)
      (\<lambda>_. CBB_add_bytes all_memory 1 [5, 6])) = Some out \<and>
    cbs_get_length_prefixed 2 (out @ [9]) = Ok [5, 6] [9]"
  using length_prefixed_roundtrip [OF grants_all_memory
      writes_appends [OF writes_add_bytes [OF grants_all_memory, of 1 "[5, 6]"]], of 2 0 "[9]"] by simp

text \<open>C15: contents that do not fit the length prefix are refused when the parent is flushed or
  finished; nothing is truncated.\<close>

theorem length_prefixed_too_long:
  assumes "grants_all mem" and "k \<in> {1, 2, 3}" and "256 ^ k \<le> length data" and "length data < 2 ^ 32"
  shows "build mem n (\<lambda>s. rbind (cbb_add_length_prefixed mem 0 k s) (\<lambda>_. CBB_add_bytes mem 1 data)) = None"
proof -
  from CBB_init_settled [OF assms(1)] obtain s where s: "CBB_init mem n = Some s" "settled [top_level] [] s" by blast
  have "writes mem (Suc 0) (CBB_add_bytes mem 1 data) data" using writes_add_bytes [OF assms(1)] by simp
  from length_prefixed_overflow [OF assms(1) this _ assms(3,4) settled_holds [OF s(2)]] assms(2,4)
  obtain x t u where "rbind (cbb_add_length_prefixed mem 0 k s) (\<lambda>_. CBB_add_bytes mem 1 data) = Ok x t"
    and "CBB_flush mem 0 t = Fail u" by auto
  then show ?thesis using s(1) by (simp add: build_def CBB_finish_def)
qed

theorem length_prefixed_too_long_witness:
  "build all_memory 0 (\<lambda>s. rbind (cbb_add_length_prefixed all_memory 0 1 s)
     (\<lambda>_. CBB_add_bytes all_memory 1 (replicate 256 7))) = None"
  using length_prefixed_too_long [OF grants_all_memory, of 1 "replicate 256 7" 0] by simp

end
