(* ===== verification/Cbb_Oid.thy ===== *)
theory Cbb_Oid
  imports Cbb_Spec
begin

text \<open>
  Object identifiers as text: \<open>CBB_add_asn1_oid_from_text\<close> of \<open>cbb.c\<close> and \<open>CBS_asn1_oid_to_text\<close>
  of \<open>cbs.c\<close>.
\<close>

section \<open>From text to DER\<close>

abbreviation (input) dot :: byte where "dot \<equiv> 0x2E"

text \<open>\<open>UINT64_MAX\<close>.\<close>

abbreviation (input) uint64_max :: u64 where "uint64_max \<equiv> 0xFFFFFFFFFFFFFFFF"

fun dotted_loop :: "u64 \<Rightarrow> bool \<Rightarrow> u64 parser" where
  "dotted_loop out seen_digit [] = (if seen_digit then Ok out [] else Fail [])"
| "dotted_loop out seen_digit (u # cbs) =
     (if u = dot \<and> 0 < CBS_len cbs then (if seen_digit then Ok out cbs else Fail cbs)
      else if u < 0x30 \<or> 0x39 < u \<or> (seen_digit \<and> out = 0) \<or> uint64_max div 10 < out \<or>
        uint64_max - ucast (u - 0x30) < out * 10 then Fail cbs
      else dotted_loop (out * 10 + ucast (u - 0x30)) True cbs)"

definition parse_dotted_decimal :: "u64 parser" where
  "parse_dotted_decimal cbs = dotted_loop 0 False cbs"

text \<open>The remaining components; the fuel is the length of the text.\<close>

fun oid_rest :: "cbb_mem \<Rightarrow> nat \<Rightarrow> nat \<Rightarrow> cbs \<Rightarrow> cbb_state \<Rightarrow> (unit, cbb_state) res" where
  "oid_rest mem i n [] s = Ok () s"
| "oid_rest mem i 0 (u # cbs) s = NoFuel"
| "oid_rest mem i (Suc n) (u # cbs) s = (case parse_dotted_decimal (u # cbs) of
     Ok a rest \<Rightarrow> rbind (add_base128_integer mem i a s) (\<lambda>_. oid_rest mem i n rest)
   | _ \<Rightarrow> Fail s)"

definition CBB_add_asn1_oid_from_text :: "cbb_mem \<Rightarrow> nat \<Rightarrow> byte list \<Rightarrow> cbb_state \<Rightarrow> (unit, cbb_state) res" where
  "CBB_add_asn1_oid_from_text mem i text s = rbind (CBB_flush mem i s) (\<lambda>_ s.
     case parse_dotted_decimal text of
       Ok a cbs \<Rightarrow> (case parse_dotted_decimal cbs of
         Ok b cbs \<Rightarrow>
           if 2 < a \<or> (a < 2 \<and> 39 < b) \<or> uint64_max - 80 < b then Fail s
           else rbind (add_base128_integer mem i (40 * a + b) s) (\<lambda>_. oid_rest mem i (length cbs) cbs)
       | _ \<Rightarrow> Fail s)
     | _ \<Rightarrow> Fail s)"

section \<open>From DER to text\<close>

text \<open>\<open>BIO_snprintf\<close> of the C library with \<open>PRIu64\<close>: the decimal digits.\<close>

fun decimal :: "nat \<Rightarrow> byte list" where
  "decimal n = (if n < 10 then [0x30 + of_nat n] else decimal (n div 10) @ [0x30 + of_nat (n mod 10)])"

declare decimal.simps [simp del]

definition add_decimal :: "cbb_mem \<Rightarrow> u64 \<Rightarrow> cbb_state \<Rightarrow> (unit, cbb_state) res" where
  "add_decimal mem v = CBB_add_bytes mem 0 (decimal (unat v))"

fun oid_components :: "cbb_mem \<Rightarrow> nat \<Rightarrow> cbs \<Rightarrow> cbb_state \<Rightarrow> (unit, cbb_state) res" where
  "oid_components mem n [] s = Ok () s"
| "oid_components mem 0 (b # copy) s = NoFuel"
| "oid_components mem (Suc n) (b # copy) s = (case parse_base128_integer (b # copy) of
     Ok v rest \<Rightarrow> rbind (CBB_add_u8 mem 0 dot s) (\<lambda>_ s.
       rbind (add_decimal mem v s) (\<lambda>_. oid_components mem n rest))
   | _ \<Rightarrow> Fail s)"

text \<open>The text without its terminating zero byte is what the caller sees as a string; \<open>None\<close> is
  \<open>NULL\<close>.\<close>

definition CBS_asn1_oid_to_text :: "cbb_mem \<Rightarrow> cbs \<Rightarrow> byte list option" where
  "CBS_asn1_oid_to_text mem cbs = (case CBB_init mem 32 of None \<Rightarrow> None
   | Some s \<Rightarrow> (case parse_base128_integer cbs of
       Ok v copy \<Rightarrow>
         (case rbind
             (if 80 \<le> v
              then rbind (CBB_add_bytes mem 0 [0x32, dot] s) (\<lambda>_. add_decimal mem (v - 80))
              else rbind (add_decimal mem (v div 40) s) (\<lambda>_ s.
                rbind (CBB_add_u8 mem 0 dot s) (\<lambda>_. add_decimal mem (v mod 40)))) (\<lambda>_ s.
             rbind (oid_components mem (length copy) copy s) (\<lambda>_ s.
             rbind (CBB_add_u8 mem 0 0 s) (\<lambda>_. CBB_finish mem 0))) of
           Ok txt _ \<Rightarrow> Some txt | _ \<Rightarrow> None)
     | _ \<Rightarrow> None))"

section \<open>Decimal components\<close>

text \<open>The text of a component and what follows it.\<close>

definition component :: "nat \<Rightarrow> byte list \<Rightarrow> byte list" where
  "component n rest = decimal n @ (if rest = [] then [] else dot # rest)"

definition digit :: "byte \<Rightarrow> bool" where
  "digit u \<longleftrightarrow> \<not> u < 0x30 \<and> \<not> 0x39 < u"

lemma digit_value:
  assumes "digit u"
  shows "unat (u - 0x30) = unat u - 48" "unat u - 48 < 10" "0x30 + of_nat (unat (u - 0x30)) = u" "u \<noteq> dot"
    "unat (ucast (u - 0x30) :: u64) = unat u - 48"
proof -
  have u: "48 \<le> unat u" "unat u \<le> 57" using assms by (simp_all add: digit_def word_less_nat_alt not_less)
  then show d: "unat (u - 0x30) = unat u - 48" by (subst unat_sub) (simp_all add: word_le_nat_alt)
  show "unat u - 48 < 10" "u \<noteq> dot" using u by auto
  show "0x30 + of_nat (unat (u - 0x30)) = u" by (simp add: of_nat_unat)
  show "unat (ucast (u - 0x30) :: u64) = unat u - 48"
    unfolding unsigned_ucast_eq d using u by (intro take_bit_nat_eq_self) simp
qed

lemma digit_byte:
  assumes "d < 10"
  shows "digit (0x30 + of_nat d)" "unat (0x30 + of_nat d :: byte) = 48 + d"
proof -
  show u: "unat (0x30 + of_nat d :: byte) = 48 + d"
    using assms by (simp add: unat_word_ariths(1) unat_of_nat)
  show "digit (0x30 + of_nat d)" unfolding digit_def word_less_nat_alt u using assms by simp
qed

lemma decimal_byte: "digit u \<Longrightarrow> decimal (unat u - 48) = [u]"
  using digit_value [of u] by (simp add: decimal.simps [of "unat u - 48"])

lemma decimal_snoc:
  assumes "digit u" and "0 < n"
  shows "decimal (n * 10 + (unat u - 48)) = decimal n @ [u]"
  using digit_value [OF assms(1)] assms(2) by (simp add: decimal.simps [of "n * 10 + (unat u - 48)"])

lemma dotted_no_overflow:
  fixes out x :: u64
  assumes "unat x < 10"
  shows "\<not> (uint64_max div 10 < out \<or> uint64_max - x < out * 10) \<longleftrightarrow> unat out * 10 + unat x < 2 ^ 64"
    and "unat out * 10 + unat x < 2 ^ 64 \<Longrightarrow> unat (out * 10 + x) = unat out * 10 + unat x"
proof -
  have ten: "uint64_max div 10 < out \<longleftrightarrow> 1844674407370955161 < unat out"
    by (simp add: word_less_nat_alt unat_div)
  have sub: "unat (uint64_max - x) = 18446744073709551615 - unat x"
    using assms by (subst unat_sub) (simp_all add: word_le_nat_alt)
  have mult: "unat (out * 10) = unat out * 10" if "unat out \<le> 1844674407370955161"
    using that by (simp add: unat_word_ariths(2))
  show "\<not> (uint64_max div 10 < out \<or> uint64_max - x < out * 10) \<longleftrightarrow> unat out * 10 + unat x < 2 ^ 64"
    unfolding ten word_less_nat_alt [of "uint64_max - x"] sub
    using assms mult by (cases "1844674407370955161 < unat out") (simp_all add: not_less, linarith)
  show "unat (out * 10 + x) = unat out * 10 + unat x" if "unat out * 10 + unat x < 2 ^ 64"
    using that by (simp add: unat_word_ariths)
qed

lemma dotted_loop_digit:
  assumes "digit u"
  shows "dotted_loop out seen (u # cs) =
    (if seen \<and> out = 0 \<or> 2 ^ 64 \<le> unat out * 10 + (unat u - 48) then Fail cs
     else dotted_loop (out * 10 + ucast (u - 0x30)) True cs)"
proof -
  note d = digit_value [OF assms]
  have "\<not> (uint64_max div 10 < out \<or> uint64_max - ucast (u - 0x30) < out * 10) \<longleftrightarrow>
      unat out * 10 + (unat u - 48) < 2 ^ 64"
    using dotted_no_overflow(1) [of "ucast (u - 0x30)" out] d(2) unfolding d(5) .
  then have "uint64_max div 10 < out \<or> uint64_max - ucast (u - 0x30) < out * 10 \<longleftrightarrow>
      2 ^ 64 \<le> unat out * 10 + (unat u - 48)"
    unfolding not_less [symmetric] by blast
  moreover have "\<not> u < 0x30" "\<not> 0x39 < u" using assms by (simp_all add: digit_def)
  ultimately show ?thesis using d(4) by (simp del: One_nat_def)
qed

lemma dotted_loop_sound:
  assumes "dotted_loop out seen cs = Ok w rest" and "\<not> seen \<longrightarrow> out = 0"
  shows "(if seen then decimal (unat out) else []) @ cs = component (unat w) rest"
  using assms
proof (induction cs arbitrary: out seen)
  case (Cons u cs)
  show ?case
  proof (cases "u = dot \<and> 0 < CBS_len cs")
    case True
    then show ?thesis using Cons.prems(1) by (auto simp: component_def CBS_len_def split: if_splits)
  next
    case False
    then have digit: "digit u" using Cons.prems(1) by (auto simp: digit_def split: if_splits)
    from Cons.prems(1) have ok: "\<not> (seen \<and> out = 0)" "unat out * 10 + (unat u - 48) < 2 ^ 64"
      and rest: "dotted_loop (out * 10 + ucast (u - 0x30)) True cs = Ok w rest"
      unfolding dotted_loop_digit [OF digit] by (auto split: if_splits)
    have v: "unat (out * 10 + ucast (u - 0x30)) = unat out * 10 + (unat u - 48)"
      using dotted_no_overflow(2) [of "ucast (u - 0x30)" out] digit_value [OF digit] ok(2) by simp
    have "decimal (unat out * 10 + (unat u - 48)) @ cs = component (unat w) rest"
      using Cons.IH [OF rest] v by simp
    moreover have "decimal (unat out * 10 + (unat u - 48)) = (if seen then decimal (unat out) else []) @ [u]"
      using decimal_snoc [OF digit, of "unat out"] decimal_byte [OF digit] ok(1) Cons.prems(2)
      by (cases "out = 0") (auto simp: unat_gt_0)
    ultimately show ?thesis by simp
  qed
qed (auto simp: component_def split: if_splits)

lemma dotted_loop_decimal:
  assumes "n < 2 ^ 64"
  shows "dotted_loop 0 False (decimal n @ cs) = dotted_loop (of_nat n) True cs"
  using assms
proof (induction n arbitrary: cs rule: decimal.induct)
  case (1 n)
  let ?u = "0x30 + of_nat (n mod 10) :: byte" and ?out = "of_nat (n div 10) :: u64"
  have digit: "digit ?u" and u: "unat ?u - 48 = n mod 10" using digit_byte [of "n mod 10"] by simp_all
  have x: "unat (ucast (?u - 0x30) :: u64) = n mod 10" using digit_value(5) [OF digit] u by simp
  have out: "unat ?out = n div 10" using 1(2) by (simp add: unat_of_nat)
  have small: "unat ?out * 10 + (unat ?u - 48) < 2 ^ 64" unfolding out u using 1(2) by simp
  have "unat (?out * 10 + ucast (?u - 0x30)) = n"
    using dotted_no_overflow(2) [of "ucast (?u - 0x30)" ?out] small unfolding x out u by simp
  then have "?out * 10 + ucast (?u - 0x30) = of_nat n" by (metis of_nat_unat ucast_id)
  then have step: "dotted_loop ?out seen (?u # cs) = dotted_loop (of_nat n) True cs"
    if "\<not> (seen \<and> ?out = 0)" for seen
    unfolding dotted_loop_digit [OF digit] using small that by auto
  show ?case
  proof (cases "n < 10")
    case True
    then show ?thesis using step [of False] by (simp add: decimal.simps [of n])
  next
    case False
    then have "?out \<noteq> 0" using out by (metis div_greater_zero_iff not_less unat_eq_0 less_irrefl zero_less_numeral)
    with step [of True] show ?thesis using 1 False by (simp add: decimal.simps [of n])
  qed
qed

lemma decimal_nonempty [simp]: "decimal n \<noteq> []"
  by (simp add: decimal.simps [of n])

lemma parse_dotted_decimal_Ok:
  "parse_dotted_decimal cs = Ok v rest \<longleftrightarrow> cs = component (unat v) rest"
proof
  show "parse_dotted_decimal cs = Ok v rest \<Longrightarrow> cs = component (unat v) rest"
    using dotted_loop_sound [of 0 False cs v rest] by (simp add: parse_dotted_decimal_def)
  assume cs: "cs = component (unat v) rest"
  have "dotted_loop v True (if rest = [] then [] else dot # rest) = Ok v rest"
    by (simp add: CBS_len_def)
  then show "parse_dotted_decimal cs = Ok v rest"
    using dotted_loop_decimal [of "unat v"] unsigned_less [of v, where 'a = nat]
    by (simp add: cs parse_dotted_decimal_def component_def of_nat_unat)
qed

section \<open>Identifiers\<close>

text \<open>An identifier is its first two components and the others.\<close>

definition oid_ok :: "u64 \<Rightarrow> u64 \<Rightarrow> bool" where
  "oid_ok a b \<longleftrightarrow> \<not> (2 < a \<or> (a < 2 \<and> 39 < b) \<or> uint64_max - 80 < b)"

lemma oid_ok_guard:
  "(2 < a \<or> (a < 2 \<and> 39 < b) \<or> uint64_max - 80 < b) = (\<not> oid_ok a b)"
  by (simp add: oid_ok_def)

fun oid_tail :: "u64 list \<Rightarrow> byte list" where
  "oid_tail [] = []"
| "oid_tail (c # cs) = component (unat c) (oid_tail cs)"

definition oid_text :: "u64 \<Rightarrow> u64 \<Rightarrow> u64 list \<Rightarrow> byte list" where
  "oid_text a b cs = component (unat a) (component (unat b) (oid_tail cs))"

definition oid_der :: "u64 \<Rightarrow> u64 \<Rightarrow> u64 list \<Rightarrow> byte list" where
  "oid_der a b cs = concat (map (\<lambda>v. base128_bytes (unat v)) ((40 * a + b) # cs))"

lemma component_nonempty [simp]: "component n rest \<noteq> []"
  by (simp add: component_def)

lemma length_oid_tail: "length (oid_tail cs) \<ge> length cs"
proof (induction cs)
  case (Cons c cs)
  then show ?case by (cases "decimal (unat c)") (auto simp: component_def)
qed simp

lemma oid_rest_component:
  "oid_rest mem i (Suc n) (component (unat c) r) =
     (\<lambda>s. rbind (add_base128_integer mem i c s) (\<lambda>_. oid_rest mem i n r))"
proof
  fix s
  have parse: "parse_dotted_decimal (component (unat c) r) = Ok c r" by (simp add: parse_dotted_decimal_Ok)
  obtain u us where "component (unat c) r = u # us" by (cases "component (unat c) r") auto
  with parse show "oid_rest mem i (Suc n) (component (unat c) r) s =
      rbind (add_base128_integer mem i c s) (\<lambda>_. oid_rest mem i n r)" by simp
qed

lemma appends_oid_rest:
  assumes "grants_all mem" and "length cs \<le> n"
  shows "appends mem i (oid_rest mem i n (oid_tail cs)) (concat (map (\<lambda>v. base128_bytes (unat v)) cs))"
  using assms(2)
proof (induction cs arbitrary: n)
  case Nil
  have "oid_rest mem i n [] = Ok ()" by (rule ext) simp
  then show ?case by (simp add: appends_Ok)
next
  case (Cons c cs)
  then obtain m where "n = Suc m" "length cs \<le> m" by (cases n) auto
  then show ?case
    using appends_bind [OF writes_appends [OF writes_base128 [OF assms(1), of i c]] Cons.IH [of m]]
    by (simp add: oid_rest_component)
qed

lemma appends_oid_from_text:
  assumes "grants_all mem" and "oid_ok a b"
  shows "appends mem i (CBB_add_asn1_oid_from_text mem i (oid_text a b cs)) (oid_der a b cs)"
proof -
  have parse: "parse_dotted_decimal (oid_text a b cs) = Ok a (component (unat b) (oid_tail cs))"
    "parse_dotted_decimal (component (unat b) (oid_tail cs)) = Ok b (oid_tail cs)"
    by (simp_all add: parse_dotted_decimal_Ok oid_text_def)
  have "CBB_add_asn1_oid_from_text mem i (oid_text a b cs) =
      (\<lambda>s. rbind (CBB_flush mem i s) (\<lambda>_ s. rbind (add_base128_integer mem i (40 * a + b) s)
        (\<lambda>_. oid_rest mem i (length (oid_tail cs)) (oid_tail cs))))"
    unfolding CBB_add_asn1_oid_from_text_def parse res.case oid_ok_guard using assms(2) by simp
  moreover have "appends mem i \<dots> ([] @ base128_bytes (unat (40 * a + b)) @ concat (map (\<lambda>v. base128_bytes (unat v)) cs))"
    by (intro appends_bind writes_appends [OF writes_flush] writes_appends [OF writes_base128] appends_oid_rest
        assms(1) length_oid_tail)
  ultimately show ?thesis by (simp add: oid_der_def)
qed

text \<open>The other way: only such a text is accepted.\<close>

lemma oid_rest_sound:
  assumes "oid_rest mem i n str s = Ok x t" and "length str \<le> n"
  shows "\<exists>cs. str = oid_tail cs"
  using assms
proof (induction n arbitrary: str s)
  case 0
  then show ?case by (auto intro: exI [of _ "[]"])
next
  case (Suc n)
  show ?case
  proof (cases str)
    case Nil
    then show ?thesis by (auto intro: exI [of _ "[]"])
  next
    case (Cons u us)
    with Suc.prems(1) obtain a r where parse: "parse_dotted_decimal str = Ok a r"
      by (auto split: res.splits)
    with Suc.prems(1) Cons obtain s' where tail: "oid_rest mem i n r s' = Ok x t"
      by (auto simp: rbind_Ok_iff)
    have str: "str = component (unat a) r" using parse parse_dotted_decimal_Ok by blast
    then have "length r < length str"
      by (cases "decimal (unat a)") (simp_all add: component_def)
    then obtain cs where "r = oid_tail cs" using Suc.IH [OF tail] Suc.prems(2) by auto
    then have "str = oid_tail (a # cs)" using str by simp
    then show ?thesis by blast
  qed
qed

lemma oid_from_text_sound:
  assumes "CBB_add_asn1_oid_from_text mem i str s = Ok x t"
  shows "\<exists>a b cs. oid_ok a b \<and> str = oid_text a b cs"
proof -
  obtain s1 where "(case parse_dotted_decimal str of
       Ok a cbs \<Rightarrow> (case parse_dotted_decimal cbs of
         Ok b cbs \<Rightarrow>
           if \<not> oid_ok a b then Fail s1
           else rbind (add_base128_integer mem i (40 * a + b) s1) (\<lambda>_. oid_rest mem i (length cbs) cbs)
       | _ \<Rightarrow> Fail s1)
     | _ \<Rightarrow> Fail s1) = Ok x t"
    using assms unfolding CBB_add_asn1_oid_from_text_def oid_ok_guard rbind_Ok_iff by blast
  then obtain a r1 b r2 where p: "parse_dotted_decimal str = Ok a r1" "parse_dotted_decimal r1 = Ok b r2"
      "oid_ok a b"
    and q: "rbind (add_base128_integer mem i (40 * a + b) s1) (\<lambda>_. oid_rest mem i (length r2) r2) = Ok x t"
    by (auto split: res.splits if_splits)
  from q obtain s2 where "oid_rest mem i (length r2) r2 s2 = Ok x t"
    unfolding rbind_Ok_iff by blast
  then obtain cs where "r2 = oid_tail cs" using oid_rest_sound by blast
  then show ?thesis using p unfolding parse_dotted_decimal_Ok oid_text_def by blast
qed

section \<open>Printing\<close>

definition dotted :: "u64 list \<Rightarrow> byte list" where
  "dotted cs = concat (map (\<lambda>c. dot # decimal (unat c)) cs)"

lemma component_dotted: "component n (oid_tail cs) = decimal n @ dotted cs"
  by (induction cs arbitrary: n) (simp_all add: component_def [of _ "[]"] dotted_def, simp add: component_def)

lemma base128_bytes_nonempty [simp]: "base128_bytes n \<noteq> []"
  by (simp add: base128_bytes_def)

lemma appends_oid_components:
  assumes "grants_all mem" and "length cs \<le> n"
  shows "appends mem 0 (oid_components mem n (concat (map (\<lambda>v. base128_bytes (unat v)) cs))) (dotted cs)"
  using assms(2)
proof (induction cs arbitrary: n)
  case Nil
  have "oid_components mem n [] = Ok ()" by (rule ext) simp
  then show ?case by (simp add: appends_Ok dotted_def)
next
  case (Cons c cs)
  let ?rest = "concat (map (\<lambda>v. base128_bytes (unat v)) cs)"
  obtain m where m: "n = Suc m" "length cs \<le> m" using Cons.prems by (cases n) auto
  obtain b bs where bytes: "base128_bytes (unat c) @ ?rest = b # bs"
    by (cases "base128_bytes (unat c) @ ?rest") auto
  have "parse_base128_integer (b # bs) = Ok c ?rest" unfolding bytes [symmetric] by (rule base128.parse_enc) simp
  then have "oid_components mem n (base128_bytes (unat c) @ ?rest) =
      (\<lambda>s. rbind (CBB_add_u8 mem 0 dot s) (\<lambda>_ s. rbind (add_decimal mem c s) (\<lambda>_. oid_components mem m ?rest)))"
    unfolding bytes m by (rule_tac ext) simp
  moreover have "appends mem 0 \<dots> ([dot] @ decimal (unat c) @ dotted cs)"
    unfolding add_decimal_def
    by (intro appends_bind writes_appends [OF writes_add_u8] writes_appends [OF writes_add_bytes] Cons.IH assms(1) m(2))
  ultimately show ?case by (simp add: dotted_def)
qed

lemma length_concat_base128: "length cs \<le> length (concat (map (\<lambda>v. base128_bytes (unat v)) cs))"
  for cs :: "u64 list"
proof (induction cs)
  case (Cons c cs)
  then show ?case by (cases "base128_bytes (unat c)") auto
qed simp

text \<open>The first component again.\<close>

lemma first_component:
  assumes "oid_ok a b"
  shows "if 80 \<le> 40 * a + b then a = 2 \<and> 40 * a + b - 80 = b
    else (40 * a + b) div 40 = a \<and> (40 * a + b) mod 40 = b"
proof -
  have a: "unat a \<le> 2" and ab: "unat a < 2 \<Longrightarrow> unat b \<le> 39" and b: "unat b \<le> 18446744073709551535"
    using assms by (simp_all add: oid_ok_def word_less_nat_alt not_less)
  have v: "unat (40 * a + b) = 40 * unat a + unat b" using a b by (simp add: unat_word_ariths)
  show ?thesis
  proof (cases "unat a = 2")
    case True
    then have "a = 2" by (simp add: word_unat_eq_iff)
    have "80 \<le> 40 * a + b" unfolding word_le_nat_alt v using True by simp
    with \<open>a = 2\<close> show ?thesis by simp
  next
    case False
    then have "unat b \<le> 39" using a ab by simp
    then have "\<not> 80 \<le> 40 * a + b" using False a by (simp add: word_le_nat_alt v)
    moreover have "unat ((40 * a + b) div 40) = unat a" "unat ((40 * a + b) mod 40) = unat b"
      using \<open>unat b \<le> 39\<close> by (simp_all add: unat_div unat_mod v)
    ultimately show ?thesis by (simp add: word_unat_eq_iff)
  qed
qed

lemma oid_to_text_der:
  assumes "grants_all mem" and "oid_ok a b" and "length (oid_text a b cs) < 2 ^ 64 - 1"
  shows "CBS_asn1_oid_to_text mem (oid_der a b cs) = Some (oid_text a b cs @ [0])"
proof -
  let ?v = "40 * a + b" and ?rest = "concat (map (\<lambda>v. base128_bytes (unat v)) cs)"
  let ?first = "\<lambda>s. if 80 \<le> ?v then rbind (CBB_add_bytes mem 0 [0x32, dot] s) (\<lambda>_. add_decimal mem (?v - 80))
    else rbind (add_decimal mem (?v div 40) s) (\<lambda>_ s. rbind (CBB_add_u8 mem 0 dot s) (\<lambda>_. add_decimal mem (?v mod 40)))"
  have parse: "parse_base128_integer (oid_der a b cs) = Ok ?v ?rest"
    unfolding oid_der_def using base128.parse_enc [of ?v ?rest] by simp
  have first: "appends mem 0 ?first (decimal (unat a) @ [dot] @ decimal (unat b))"
  proof (cases "80 \<le> ?v")
    case True
    then have "a = 2" "?v - 80 = b" using first_component [OF assms(2)] by simp_all
    moreover have "appends mem 0 (\<lambda>s. rbind (CBB_add_bytes mem 0 [0x32, dot] s) (\<lambda>_. add_decimal mem b))
        ([0x32, dot] @ decimal (unat b))"
      unfolding add_decimal_def by (intro appends_bind writes_appends [OF writes_add_bytes] assms(1))
    moreover have "decimal 2 = [0x32]" by (simp add: decimal.simps)
    ultimately show ?thesis using True by simp
  next
    case False
    then have "?v div 40 = a" "?v mod 40 = b" using first_component [OF assms(2)] by simp_all
    moreover have "appends mem 0 (\<lambda>s. rbind (add_decimal mem a s) (\<lambda>_ s. rbind (CBB_add_u8 mem 0 dot s)
        (\<lambda>_. add_decimal mem b))) (decimal (unat a) @ [dot] @ decimal (unat b))"
      unfolding add_decimal_def
      by (intro appends_bind writes_appends [OF writes_add_bytes] writes_appends [OF writes_add_u8] assms(1))
    ultimately show ?thesis using False by simp
  qed
  have "appends mem 0 (\<lambda>s. rbind (?first s) (\<lambda>_ s. rbind (oid_components mem (length ?rest) ?rest s)
      (\<lambda>_. CBB_add_u8 mem 0 0))) ((decimal (unat a) @ [dot] @ decimal (unat b)) @ dotted cs @ [0])"
    by (intro appends_bind first appends_oid_components writes_appends [OF writes_add_u8] assms(1) length_concat_base128)
  moreover have "oid_text a b cs @ [0] = (decimal (unat a) @ [dot] @ decimal (unat b)) @ dotted cs @ [0]"
    unfolding oid_text_def component_dotted component_def [of "unat a"] by simp
  ultimately have built: "build mem 32 (\<lambda>s. rbind (?first s) (\<lambda>_ s. rbind (oid_components mem (length ?rest) ?rest s)
      (\<lambda>_. CBB_add_u8 mem 0 0))) = Some (oid_text a b cs @ [0])"
    using build_appends [OF assms(1), of _ "oid_text a b cs @ [0]" 32] assms(3) by simp
  show ?thesis
    unfolding CBS_asn1_oid_to_text_def parse res.case
    using built unfolding build_def rbind_assoc .
qed

text \<open>The DER contents are no longer than the text.\<close>

lemma length_base128_le:
  "m \<le> n \<Longrightarrow> length (base128_bytes m) \<le> length (decimal n)"
proof (induction n arbitrary: m rule: less_induct)
  case (less n)
  show ?case
  proof (cases "m < 128")
    case True
    then show ?thesis by (cases "decimal n") (simp_all add: base128_bytes_def)
  next
    case False
    then have "length (base128_bytes m) = Suc (length (base128_bytes (m div 128)))"
      by (simp add: base128_bytes_def base128_groups.simps [of "m div 128"])
    moreover have "length (base128_bytes (m div 128)) \<le> length (decimal (n div 10))"
      using False less.prems by (intro less.IH) auto
    moreover have "length (decimal n) = Suc (length (decimal (n div 10)))"
      using False less.prems by (simp add: decimal.simps [of n])
    ultimately show ?thesis by simp
  qed
qed

lemma length_oid_der:
  assumes "oid_ok a b"
  shows "length (oid_der a b cs) \<le> length (oid_text a b cs)"
proof -
  have a: "unat a \<le> 2" and b: "unat b \<le> 18446744073709551535"
    using assms by (simp_all add: oid_ok_def word_less_nat_alt not_less)
  have v: "unat (40 * a + b) = 40 * unat a + unat b" using a b by (simp add: unat_word_ariths)
  have "length (base128_bytes (unat (40 * a + b))) \<le> Suc (length (decimal (unat b)))"
  proof (cases "unat (40 * a + b) < 128")
    case False
    then have "length (base128_bytes (unat (40 * a + b))) = Suc (length (base128_bytes (unat (40 * a + b) div 128)))"
      by (simp add: base128_bytes_def base128_groups.simps [of "unat (40 * a + b) div 128"])
    then show ?thesis using length_base128_le [of "unat (40 * a + b) div 128" "unat b"] a v by simp
  qed (simp add: base128_bytes_def)
  moreover have "length (concat (map (\<lambda>v. base128_bytes (unat v)) cs)) \<le> length (dotted cs)"
    by (induction cs) (auto simp: dotted_def add_mono length_base128_le intro!: add_le_mono le_SucI)
  ultimately show ?thesis
    unfolding oid_text_def component_dotted component_def [of "unat a"] by (simp add: oid_der_def)
qed

section \<open>The round trip\<close>

text \<open>C16: an OID text that \<open>CBB_add_asn1_oid_from_text\<close> accepts is what \<open>CBS_asn1_oid_to_text\<close> prints
  for the DER contents that it builds, so the accepted texts are in canonical form (no superfluous
  zero, no missing component).\<close>

theorem oid_text_roundtrip:
  assumes "grants_all mem" and "build mem n (CBB_add_asn1_oid_from_text mem 0 str) = Some der"
    and "length str < 2 ^ 64 - 1"
  shows "CBS_asn1_oid_to_text mem der = Some (str @ [0])"
proof -
  from assms(2) obtain s x t where "CBB_add_asn1_oid_from_text mem 0 str s = Ok x t"
    unfolding build_def by (auto simp: rbind_Ok_iff split: option.splits res.splits)
  from oid_from_text_sound [OF this] obtain a b cs where ok: "oid_ok a b" and str: "str = oid_text a b cs" by blast
  have "length (oid_der a b cs) < 2 ^ 64" using length_oid_der [OF ok, of cs] assms(3) str by simp
  then have "der = oid_der a b cs"
    using build_appends [OF assms(1) appends_oid_from_text [OF assms(1) ok]] assms(2) str by simp
  then show ?thesis using oid_to_text_der [OF assms(1) ok] assms(3) str by simp
qed


text \<open>RSA encryption, 1.2.840.113549.\<close>

lemma rsadsi_der:
  "build all_memory 0 (CBB_add_asn1_oid_from_text all_memory 0
     [0x31, 0x2E, 0x32, 0x2E, 0x38, 0x34, 0x30, 0x2E, 0x31, 0x31, 0x33, 0x35, 0x34, 0x39]) =
   Some [0x2A, 0x86, 0x48, 0x86, 0xF7, 0x0D]"
proof -
  have str: "oid_text 1 2 [840, 113549] =
      [0x31, 0x2E, 0x32, 0x2E, 0x38, 0x34, 0x30, 0x2E, 0x31, 0x31, 0x33, 0x35, 0x34, 0x39]"
    by (simp add: oid_text_def component_def decimal.simps)
  have der: "oid_der 1 2 [840, 113549] = [0x2A, 0x86, 0x48, 0x86, 0xF7, 0x0D]"
    by (simp add: oid_der_def base128_bytes_def base128_groups.simps)
  have "oid_ok 1 2" by (simp add: oid_ok_def)
  from build_appends [OF grants_all_memory appends_oid_from_text [OF grants_all_memory this, of 0 "[840, 113549]"]]
  show ?thesis unfolding str der by simp
qed

theorem oid_text_roundtrip_witness:
  "CBS_asn1_oid_to_text all_memory [0x2A, 0x86, 0x48, 0x86, 0xF7, 0x0D] =
   Some [0x31, 0x2E, 0x32, 0x2E, 0x38, 0x34, 0x30, 0x2E, 0x31, 0x31, 0x33, 0x35, 0x34, 0x39, 0]"
  using oid_text_roundtrip [OF grants_all_memory rsadsi_der] by simp

end
