(* ===== verification/Cbb_Set.thy ===== *)
theory Cbb_Set
  imports Cbb_Spec "HOL-Library.List_Lexorder"
begin

text \<open>
  \<open>CBB_flush_asn1_set_of\<close> of \<open>cbb.c\<close>: the elements of a SET OF in DER order, which is the
  lexicographic order of their encodings.
\<close>

section \<open>The order\<close>

lemma compare_set_of_Cons:
  "compare_set_of_element (a # as) (b # bs) = (if a = b then compare_set_of_element as bs else uint a - uint b)"
  by (cases "a = b") (auto simp: compare_set_of_element_def Let_def CBS_len_def word_uint_eq_iff)

lemma compare_set_of_Nil:
  "compare_set_of_element [] [] = 0" "compare_set_of_element [] (b # bs) = - 1"
  "compare_set_of_element (a # as) [] = 1"
  by (simp_all add: compare_set_of_element_def CBS_len_def)

lemma compare_set_of_le: "compare_set_of_element a b \<le> 0 \<longleftrightarrow> a \<le> b"
  by (induction a b rule: list_induct2')
    (auto simp: compare_set_of_Cons compare_set_of_Nil word_less_def word_uint_eq_iff)

lemma compare_set_of_swap: "compare_set_of_element a b < 0 \<longleftrightarrow> 0 < compare_set_of_element b a"
  by (induction a b rule: list_induct2') (auto simp: compare_set_of_Cons compare_set_of_Nil)

interpretation set_of: comparator compare_set_of_element
  by unfold_locales (auto simp: compare_set_of_le compare_set_of_swap)

lemma qsort_set_of: "qsort compare_set_of_element xs = sort xs"
  using set_of.ordered_qsort [of xs]
  by (intro properties_for_sort [symmetric]) (simp_all add: compare_set_of_le sorted_wrt_mono_rel)

section \<open>Splitting and writing back\<close>

lemma length_le_concat: "\<forall>x \<in> set xs. x \<noteq> [] \<Longrightarrow> length xs \<le> length (concat xs)"
proof (induction xs)
  case (Cons x xs)
  then show ?case by (cases x) auto
qed simp

lemma der_tag_nonempty: "der_tag t \<noteq> []"
  by (simp add: der_tag_def)

lemma split_elements_concat:
  assumes "\<forall>e \<in> set es. \<exists>t body. length body < 2 ^ 32 \<and> e = der_element t body" and "length es \<le> n"
  shows "split_elements n (concat es) = Some es"
  using assms
proof (induction es arbitrary: n)
  case (Cons e es)
  then obtain m where n: "n = Suc m" "length es \<le> m" by (cases n) auto
  from Cons.prems(1) obtain t body where e: "length body < 2 ^ 32" "e = der_element t body" by auto
  then have parse: "CBS_get_any_asn1_element (e @ concat es) =
      Ok (e, t, length (der_header t (length body))) (concat es)"
    unfolding CBS_get_any_asn1_element_iff by blast
  obtain b bs where "e @ concat es = b # bs"
    using e(2) der_tag_nonempty [of t] by (cases "e @ concat es") (auto simp: der_element_def der_header_def)
  then show ?case using parse Cons.IH [OF _ n(2)] Cons.prems(1) n(1) by simp
qed simp

lemma writes_add_children:
  assumes "grants_all mem"
  shows "cs \<noteq> [] \<Longrightarrow> writes mem i (add_children mem i cs) (concat cs)"
proof (induction cs)
  case (Cons c cs)
  show ?case
  proof (cases "cs = []")
    case True
    have "add_children mem i [] = Ok ()" by (rule ext) simp
    then have "add_children mem i [c] = CBB_add_bytes mem i c" by (rule_tac ext) simp
    then show ?thesis using writes_add_bytes [OF assms, of i c] True by simp
  next
    case False
    have "add_children mem i (c # cs) = (\<lambda>s. rbind (CBB_add_bytes mem i c s) (\<lambda>_. add_children mem i cs))"
      by (rule ext) simp
    then show ?thesis using writes_bind [OF writes_add_bytes [OF assms, of i c] Cons.IH [OF False]] by simp
  qed
qed simp

text \<open>The child with its elements in order.\<close>

lemma length_concat_sort: "length (concat (sort es)) = length (concat es)" for es :: "byte list list"
  by (simp add: length_concat flip: sum_mset_sum_list)

lemma fills_set_of:
  assumes "grants_all mem" and "fills mem i p (concat es)"
    and "\<forall>e \<in> set es. \<exists>t body. length body < 2 ^ 32 \<and> e = der_element t body" and "length (concat es) < 2 ^ 60"
  shows "fills mem i (\<lambda>s. rbind (p s) (\<lambda>_. CBB_flush_asn1_set_of mem i)) (concat (sort es))"
  unfolding fills_def
proof (intro allI impI)
  fix s ch d P
  assume ch: "length ch = i" and h: "holds mem (ch @ [d]) P s" and P: "length P = offset d + pending_len_len d"
    and n: "length P + length (concat (sort es)) < 2 ^ 64"
  then have n': "length P + length (concat es) < 2 ^ 64" by (simp add: length_concat_sort)
  with assms(2) ch h P obtain x s1 where p: "p s = Ok x s1" and h1: "holds mem (ch @ [d]) (P @ concat es) s1"
    unfolding fills_def by blast
  have ci: "length (ch @ [d]) = Suc i" using ch by simp
  from holdsE [OF h1 ci] obtain s2 where fl: "CBB_flush mem i s1 = Ok () s2"
    and st: "settled (ch @ [d]) (P @ concat es) s2" .
  then obtain b R where b: "s2 = \<lparr>base = Some b, chain = ch @ [d]\<rparr>" "can_resize b" "\<not> berror b"
    "buf b = (P @ concat es) @ R" "blen b = length (P @ concat es)" unfolding settled_def by auto
  have nth: "(ch @ [d]) ! i = d" using ch by (simp add: nth_append)
  have data: "CBB_data i s2 = Some (concat es)"
    using b ch nth by (simp add: CBB_data_def flip: P)
  have "\<forall>e \<in> set es. e \<noteq> []" using assms(3) der_tag_nonempty by (auto simp: der_element_def der_header_def)
  then have fuel: "length es \<le> length (concat es)" by (rule length_le_concat)
  have split: "split_elements (length (concat es)) (concat es) = Some es"
    by (rule split_elements_concat [OF assms(3) fuel])
  show "\<exists>x s'. rbind (p s) (\<lambda>_. CBB_flush_asn1_set_of mem i) = Ok x s' \<and> holds mem (ch @ [d]) (P @ concat (sort es)) s'"
  proof (cases "length es < 2")
    case True
    then have "sort es = es" by (cases es) (auto simp: length_Suc_conv)
    then show ?thesis
      using p fl data split True settled_holds [OF st] by (simp add: CBB_flush_asn1_set_of_def)
  next
    case False
    let ?s3 = "\<lparr>base = Some (b\<lparr>blen := offset d + pending_len_len d\<rparr>), chain = ch @ [d]\<rparr>"
    have "settled (ch @ [d]) P ?s3" unfolding settled_def using b P by auto
    then have h3: "holds mem (ch @ [d]) P ?s3" by (simp add: settled_holds)
    have ne: "sort es \<noteq> []" using False by (metis length_sort list.size(3) zero_less_numeral)
    from writesD [OF writes_add_children [OF assms(1) ne, of i] ci h3] n obtain y s4 where
      s4: "add_children mem i (sort es) ?s3 = Ok y s4" "settled (ch @ [d]) (P @ concat (sort es)) s4" by metis
    have "concat es \<noteq> []" using fuel False by (cases "concat es") auto
    then have "BUF_memdup (grant mem) (concat es) = Some (concat es)"
      using assms(1) by (simp add: BUF_memdup_def grants_all_def del: concat_eq_Nil_conv)
    then have "CBB_flush_asn1_set_of mem i s1 = rbind (add_children mem i (sort es) ?s3)
        (\<lambda>_ s. if CBB_len i s = Some (length (concat es)) then Ok () s else UB)"
      using fl data split False assms(1,4) fuel b(1) ch
      by (simp add: CBB_flush_asn1_set_of_def grants_all_def on_base_def qsort_set_of nth)
    moreover have "CBB_len i s4 = Some (length (concat es))"
      using s4(2) P ch nth by (auto simp: settled_def CBB_len_def length_concat_sort)
    ultimately show ?thesis using p s4 settled_holds [OF s4(2)] by simp
  qed
qed

text \<open>C22: \<open>CBB_flush_asn1_set_of\<close> makes a SET OF canonical: whatever order its elements were written in,
  the finished element contains exactly these elements in the lexicographic order of their
  encodings, so its encoding depends only on the multiset of the elements.\<close>

theorem set_of_canonical:
  assumes "grants_all mem" and "appends mem 1 p (concat es)"
    and "\<forall>e \<in> set es. \<exists>t body. length body < 2 ^ 32 \<and> e = der_element t body"
    and "length (concat es) \<le> 0xFFFFFFFE"
  shows "build mem n (\<lambda>s. rbind (CBB_add_asn1 mem 0 t s) (\<lambda>_ s. rbind (p s) (\<lambda>_. CBB_flush_asn1_set_of mem 1))) =
    Some (der_element t (concat (sort es)))"
proof -
  have "fills mem 1 (\<lambda>s. rbind (p s) (\<lambda>_. CBB_flush_asn1_set_of mem 1)) (concat (sort es))"
    using assms by (intro fills_set_of appends_fills) simp_all
  moreover have "length (concat (sort es)) \<le> 0xFFFFFFFE" using assms(4) by (simp add: length_concat_sort)
  ultimately have "appends mem 0 (\<lambda>s. rbind (CBB_add_asn1 mem 0 t s) (\<lambda>_ s. rbind (p s) (\<lambda>_. CBB_flush_asn1_set_of mem 1)))
      (der_element t (concat (sort es)))"
    using fills_asn1 [OF assms(1), of 0] by simp
  moreover have "length (der_element t (concat (sort es))) < 2 ^ 64"
    using length_der_tag [of t] len_octets_bounds(2) [of "length (concat es)"] assms(4)
    by (simp add: der_element_def der_header_def der_len_def length_concat_sort)
  ultimately show ?thesis by (rule build_appends [OF assms(1)])
qed

theorem set_of_canonical_witness:
  "build all_memory 0 (\<lambda>s. rbind (CBB_add_asn1 all_memory 0 0x20000011 s)
      (\<lambda>_ s. rbind (rbind (CBB_add_asn1_bool all_memory 1 1 s) (\<lambda>_. CBB_add_asn1_bool all_memory 1 0))
      (\<lambda>_. CBB_flush_asn1_set_of all_memory 1))) = Some [0x31, 6, 1, 1, 0, 1, 1, 0xFF]"
proof -
  let ?es = "[der_element CBS_ASN1_BOOLEAN [0xFF], der_element CBS_ASN1_BOOLEAN [0]]"
  have eval: "der_element CBS_ASN1_BOOLEAN [0xFF] = [1, 1, 0xFF]" "der_element CBS_ASN1_BOOLEAN [0] = [1, 1, 0]"
    by (simp_all add: der_element_def der_header_def der_tag_eval der_len_def)
  have app: "appends all_memory 1 (\<lambda>s. rbind (CBB_add_asn1_bool all_memory 1 1 s) (\<lambda>_. CBB_add_asn1_bool all_memory 1 0))
      (concat ?es)"
    using appends_bind [OF appends_asn1_bool [OF grants_all_memory, of 1 1] appends_asn1_bool [OF grants_all_memory, of 1 0]]
    by simp
  have "\<exists>t body. length body < 2 ^ 32 \<and> der_element 1 [b] = der_element t body" for b :: byte
    by (intro exI [of _ 1] exI [of _ "[b]"]) simp
  then have "\<forall>e \<in> set ?es. \<exists>t body. length body < 2 ^ 32 \<and> e = der_element t body" by simp
  note build = set_of_canonical [OF grants_all_memory app this, of 0 "0x20000011"]
  have "length (concat ?es) \<le> 0xFFFFFFFE" by (simp add: eval)
  moreover have "concat (sort ?es) = [1, 1, 0, 1, 1, 0xFF]" by (simp add: eval)
  moreover have "der_element 0x20000011 [1, 1, 0, 1, 1, 0xFF] = [0x31, 6, 1, 1, 0, 1, 1, 0xFF]"
  proof -
    have "der_tag 0x20000011 = [0x31]" by code_simp
    then show ?thesis by (simp add: der_element_def der_header_def der_len_def)
  qed
  ultimately show ?thesis using build by simp
qed

end
