(* ===== verification/Lhash.thy ===== *)
theory Lhash
  imports Prelude
begin

text \<open>
  The chained hash table of BoringSSL, \<open>crypto/lhash/lhash.c\<close>. A pointer is a natural number and 0 is
  \<open>NULL\<close>. The buckets are the list of their chains; an item of a chain carries its address, so that
  the iteration, which keeps a pointer to the following item while it calls back, can tell whether
  that item is still there.
\<close>

type_synonym pointer = nat

record lh_item =
  idata :: pointer
  ihash :: u32
  iaddr :: pointer

record lhash =
  num_items :: nat
  buckets :: "lh_item list list"
  callback_depth :: u32

text \<open>The two functions of the table. They are set once, by \<open>lh_new\<close>, and read the objects behind the
  pointers, hence they are an argument of the operations that call them.\<close>

record lh_funcs =
  comp :: "pointer \<Rightarrow> pointer \<Rightarrow> int"
  hash :: "pointer \<Rightarrow> u32"

text \<open>What \<open>OPENSSL_malloc\<close> returns for an item (0 if it fails) and which arrays it grants.\<close>

record lh_mem =
  item_block :: pointer
  grants :: "nat \<Rightarrow> bool"

abbreviation (input) num_buckets :: "lhash \<Rightarrow> nat" where "num_buckets lh \<equiv> length (buckets lh)"

abbreviation (input) kMinNumBuckets :: nat where "kMinNumBuckets \<equiv> 16"
abbreviation (input) kMaxAverageChainLength :: nat where "kMaxAverageChainLength \<equiv> 2"
abbreviation (input) kMinAverageChainLength :: nat where "kMinAverageChainLength \<equiv> 1"

section \<open>Creation and lookup\<close>

definition lh_new :: "(nat \<Rightarrow> bool) \<Rightarrow> lhash option" where
  "lh_new grant =
     (if \<not> grant 40 then None
      else if \<not> grant (8 * kMinNumBuckets) then None
      else Some \<lparr>num_items = 0, buckets = replicate kMinNumBuckets [], callback_depth = 0\<rparr>)"

definition lh_num_items :: "lhash \<Rightarrow> nat" where
  "lh_num_items lh = num_items lh"

text \<open>How far the loop over a chain goes: the position of the first equal item, or the end.\<close>

fun chain_pos :: "(pointer \<Rightarrow> pointer \<Rightarrow> int) \<Rightarrow> pointer \<Rightarrow> lh_item list \<Rightarrow> nat" where
  "chain_pos cmp data [] = 0"
| "chain_pos cmp data (cur # chain) =
     (if cmp (idata cur) data = 0 then 0 else Suc (chain_pos cmp data chain))"

text \<open>The pointer to the pointer to an item is its bucket and its position in the chain.\<close>

definition get_next_ptr_and_hash :: "lh_funcs \<Rightarrow> lhash \<Rightarrow> pointer \<Rightarrow> (nat \<times> nat) \<times> u32" where
  "get_next_ptr_and_hash f lh data = (let h = hash f data; b = unat h mod num_buckets lh in
     ((b, chain_pos (comp f) data (buckets lh ! b)), h))"

definition item_at :: "lhash \<Rightarrow> nat \<times> nat \<Rightarrow> lh_item option" where
  "item_at lh p = (let chain = buckets lh ! fst p in
     if snd p < length chain then Some (chain ! snd p) else None)"

definition lh_retrieve :: "lh_funcs \<Rightarrow> lhash \<Rightarrow> pointer \<Rightarrow> pointer" where
  "lh_retrieve f lh data = (case item_at lh (fst (get_next_ptr_and_hash f lh data)) of
     None \<Rightarrow> 0 | Some i \<Rightarrow> idata i)"

section \<open>Resizing\<close>

text \<open>Every item goes to the front of its new chain.\<close>

definition rehash_item :: "nat \<Rightarrow> lh_item \<Rightarrow> lh_item list list \<Rightarrow> lh_item list list" where
  "rehash_item n cur new_buckets = (let b = unat (ihash cur) mod n in
     new_buckets[b := cur # new_buckets ! b])"

definition lh_rebucket :: "lh_mem \<Rightarrow> nat \<Rightarrow> lhash \<Rightarrow> lhash" where
  "lh_rebucket mem new_num_buckets lh =
     (let alloc_size = 8 * new_num_buckets mod 2 ^ 64 in
      if alloc_size div 8 \<noteq> new_num_buckets then lh
      else if \<not> grants mem alloc_size then lh
      else lh\<lparr>buckets := fold (fold (rehash_item new_num_buckets)) (buckets lh)
        (replicate new_num_buckets [])\<rparr>)"

definition lh_maybe_resize :: "lh_mem \<Rightarrow> lhash \<Rightarrow> lhash" where
  "lh_maybe_resize mem lh =
     (if 0 < callback_depth lh then lh
      else let avg_chain_length = num_items lh div num_buckets lh in
        if kMaxAverageChainLength < avg_chain_length then
          let new_num_buckets = num_buckets lh * 2 mod 2 ^ 64 in
          if num_buckets lh < new_num_buckets then lh_rebucket mem new_num_buckets lh else lh
        else if avg_chain_length < kMinAverageChainLength \<and> kMinNumBuckets < num_buckets lh then
          let new_num_buckets = num_buckets lh div 2 in
          lh_rebucket mem (if new_num_buckets < kMinNumBuckets then kMinNumBuckets else new_num_buckets) lh
        else lh)"

section \<open>Insertion and deletion\<close>

definition set_chain :: "nat \<Rightarrow> lh_item list \<Rightarrow> lhash \<Rightarrow> lhash" where
  "set_chain b chain lh = lh\<lparr>buckets := (buckets lh)[b := chain]\<rparr>"

text \<open>The result is \<open>*old_data\<close>, the flag and the table.\<close>

definition lh_insert :: "lh_funcs \<Rightarrow> lh_mem \<Rightarrow> pointer \<Rightarrow> lhash \<Rightarrow> pointer \<times> bool \<times> lhash" where
  "lh_insert f mem data lh = (let (p, h) = get_next_ptr_and_hash f lh data; chain = buckets lh ! fst p in
     case item_at lh p of
       Some i \<Rightarrow> (idata i, True, set_chain (fst p) (chain[snd p := i\<lparr>idata := data\<rparr>]) lh)
     | None \<Rightarrow>
         if item_block mem = 0 then (0, False, lh)
         else (0, True, lh_maybe_resize mem
           (set_chain (fst p) (chain @ [\<lparr>idata = data, ihash = h, iaddr = item_block mem\<rparr>])
             (lh\<lparr>num_items := num_items lh + 1\<rparr>))))"

definition lh_delete :: "lh_funcs \<Rightarrow> lh_mem \<Rightarrow> pointer \<Rightarrow> lhash \<Rightarrow> pointer \<times> lhash" where
  "lh_delete f mem data lh = (let p = fst (get_next_ptr_and_hash f lh data); chain = buckets lh ! fst p in
     case item_at lh p of
       None \<Rightarrow> (0, lh)
     | Some i \<Rightarrow> (idata i, lh_maybe_resize mem
         (set_chain (fst p) (take (snd p) chain @ drop (Suc (snd p)) chain)
           (lh\<lparr>num_items := num_items lh - 1\<rparr>))))"

section \<open>Iteration\<close>

text \<open>The chain from the item at an address on; \<open>None\<close> if the item has been freed.\<close>

definition chain_from :: "pointer \<Rightarrow> lhash \<Rightarrow> lh_item list option" where
  "chain_from a lh = (case dropWhile (\<lambda>c. \<forall>i \<in> set c. iaddr i \<noteq> a) (buckets lh) of
     [] \<Rightarrow> None | c # _ \<Rightarrow> Some (dropWhile (\<lambda>i. iaddr i \<noteq> a) c))"

definition head_addr :: "lh_item list \<Rightarrow> pointer" where
  "head_addr chain = (case chain of [] \<Rightarrow> 0 | i # _ \<Rightarrow> iaddr i)"

text \<open>The loop over one chain. The callback may change the table; reading an item that it has freed is
  undefined behaviour. A callback that keeps inserting may prolong the loop, hence the fuel.\<close>

type_synonym 'u callback = "pointer \<Rightarrow> lhash \<times> 'u \<Rightarrow> lhash \<times> 'u"

fun doall_chain :: "nat \<Rightarrow> 'u callback \<Rightarrow> pointer \<Rightarrow> lhash \<times> 'u \<Rightarrow> (unit, lhash \<times> 'u) res" where
  "doall_chain n func cur (lh, u) =
     (if cur = 0 then Ok () (lh, u)
      else case n of 0 \<Rightarrow> NoFuel
        | Suc m \<Rightarrow> (case chain_from cur lh of
            Some (i # chain) \<Rightarrow> doall_chain m func (head_addr chain) (func (idata i) (lh, u))
          | _ \<Rightarrow> UB))"

fun doall_buckets :: "nat \<Rightarrow> nat \<Rightarrow> 'u callback \<Rightarrow> nat \<Rightarrow> lhash \<times> 'u \<Rightarrow> (unit, lhash \<times> 'u) res" where
  "doall_buckets n k func i (lh, u) =
     (if num_buckets lh \<le> i then Ok () (lh, u)
      else case k of 0 \<Rightarrow> NoFuel
        | Suc k' \<Rightarrow> rbind (doall_chain n func (head_addr (buckets lh ! i)) (lh, u))
            (\<lambda>_. doall_buckets n k' func (Suc i)))"

declare doall_chain.simps [simp del] and doall_buckets.simps [simp del]

definition enter_callback :: "lhash \<Rightarrow> lhash" where
  "enter_callback lh = (if callback_depth lh < - 1 then lh\<lparr>callback_depth := callback_depth lh + 1\<rparr> else lh)"

definition leave_callback :: "lhash \<Rightarrow> lhash" where
  "leave_callback lh = (if callback_depth lh < - 1 then lh\<lparr>callback_depth := callback_depth lh - 1\<rparr> else lh)"

definition lh_doall_internal :: "lh_mem \<Rightarrow> nat \<Rightarrow> 'u callback \<Rightarrow> lhash \<times> 'u \<Rightarrow> (unit, lhash \<times> 'u) res" where
  "lh_doall_internal mem n func s =
     rmap (map_prod (\<lambda>lh. lh_maybe_resize mem (leave_callback lh)) id)
       (doall_buckets n n func 0 (map_prod enter_callback id s))"

text \<open>\<open>lh_doall\<close> passes nothing to its callback, \<open>lh_doall_arg\<close> the argument \<open>arg\<close>.\<close>

definition lh_doall :: "lh_mem \<Rightarrow> nat \<Rightarrow> 'u callback \<Rightarrow> lhash \<times> 'u \<Rightarrow> (unit, lhash \<times> 'u) res" where
  "lh_doall mem n func = lh_doall_internal mem n func"

definition lh_doall_arg :: "lh_mem \<Rightarrow> nat \<Rightarrow> ('a \<Rightarrow> 'u callback) \<Rightarrow> 'a \<Rightarrow> lhash \<times> 'u \<Rightarrow> (unit, lhash \<times> 'u) res" where
  "lh_doall_arg mem n func arg = lh_doall_internal mem n (func arg)"

text \<open>The blocks that \<open>lh_free\<close> gives back: the items, in order (the arrays follow).\<close>

definition lh_free :: "lhash \<Rightarrow> pointer list" where
  "lh_free lh = concat (map (map iaddr) (buckets lh))"

section \<open>Hashing\<close>

text \<open>FNV-1a.\<close>

definition OPENSSL_hash32 :: "byte list \<Rightarrow> u32" where
  "OPENSSL_hash32 data = foldl (\<lambda>h b. (h XOR ucast b) * 16777619) 2166136261 data"

text \<open>The argument is the bytes before the terminating zero; \<open>None\<close> is \<open>NULL\<close>.\<close>

definition lh_strhash :: "byte list option \<Rightarrow> u32" where
  "lh_strhash c = (case c of None \<Rightarrow> 0 | Some bs \<Rightarrow> OPENSSL_hash32 bs)"

end
