(* ===== verification/Lhash_Spec.thy ===== *)
theory Lhash_Spec
  imports Lhash "HOL-Library.Multiset"
begin

text \<open>
  The hash table as a map from keys to elements: its invariant, which every operation keeps at every
  table size, and the refinement of lookup, insertion and deletion.
\<close>

section \<open>Invariant and abstraction\<close>

text \<open>What the two functions promise: equality by \<open>comp\<close> is an equivalence, and equal objects have
  equal hashes.\<close>

definition key_funcs :: "lh_funcs \<Rightarrow> bool" where
  "key_funcs f \<longleftrightarrow> (\<forall>a. comp f a a = 0) \<and>
     (\<forall>a b. comp f a b = 0 \<longrightarrow> comp f b a = 0 \<and> hash f a = hash f b) \<and>
     (\<forall>a b c. comp f a b = 0 \<longrightarrow> comp f b c = 0 \<longrightarrow> comp f a c = 0)"

lemma key_funcsD:
  assumes "key_funcs f"
  shows comp_refl: "comp f a a = 0"
    and comp_sym: "comp f a b = 0 \<Longrightarrow> comp f b a = 0"
    and comp_hash: "comp f a b = 0 \<Longrightarrow> hash f a = hash f b"
    and comp_trans: "comp f a b = 0 \<Longrightarrow> comp f b c = 0 \<Longrightarrow> comp f a c = 0"
  using assms unfolding key_funcs_def by blast+

definition items :: "lhash \<Rightarrow> lh_item list" where
  "items lh = concat (buckets lh)"

text \<open>Every item is in the bucket of its hash.\<close>

definition bucketed :: "lh_item list list \<Rightarrow> bool" where
  "bucketed bs \<longleftrightarrow> (\<forall>b < length bs. \<forall>i \<in> set (bs ! b). unat (ihash i) mod length bs = b)"

text \<open>The items have the hashes of their objects, addresses of their own and different keys.\<close>

definition keyed :: "lh_funcs \<Rightarrow> lh_item multiset \<Rightarrow> bool" where
  "keyed f M \<longleftrightarrow> (\<forall>i \<in># M. ihash i = hash f (idata i) \<and> idata i \<noteq> 0 \<and> iaddr i \<noteq> 0) \<and>
     (\<forall>i \<in># M. \<forall>j \<in># M. iaddr i = iaddr j \<or> comp f (idata i) (idata j) = 0 \<longrightarrow> i = j) \<and>
     (\<forall>i \<in># M. count M i = 1)"

definition lh_wf :: "lh_funcs \<Rightarrow> lhash \<Rightarrow> bool" where
  "lh_wf f lh \<longleftrightarrow> kMinNumBuckets \<le> num_buckets lh \<and> num_items lh = length (items lh) \<and>
     bucketed (buckets lh) \<and> keyed f (mset (items lh))"

definition lh_map :: "lh_funcs \<Rightarrow> lhash \<Rightarrow> pointer \<Rightarrow> pointer option" where
  "lh_map f lh k = map_option idata (find (\<lambda>i. comp f (idata i) k = 0) (items lh))"

text \<open>A pointer that may be \<open>NULL\<close>.\<close>

definition or_null :: "pointer option \<Rightarrow> pointer" where
  "or_null p = (case p of None \<Rightarrow> 0 | Some a \<Rightarrow> a)"

lemma or_null_simps [simp]: "or_null None = 0" "or_null (Some a) = a"
  by (simp_all add: or_null_def)

lemma keyed_same:
  "keyed f M \<Longrightarrow> i \<in># M \<Longrightarrow> j \<in># M \<Longrightarrow> comp f (idata i) (idata j) = 0 \<Longrightarrow> i = j"
  unfolding keyed_def by blast

lemma keyed_key:
  assumes "key_funcs f" and "keyed f M" and "i \<in># M" "j \<in># M"
    and "comp f (idata i) k = 0" "comp f (idata j) k = 0"
  shows "i = j"
  using keyed_same [OF assms(2-4)] assms key_funcsD [OF assms(1)] by blast

lemma lh_map_Some:
  assumes "key_funcs f" and "keyed f (mset (items lh))"
  shows "lh_map f lh k = Some d \<longleftrightarrow> (\<exists>i \<in> set (items lh). idata i = d \<and> comp f (idata i) k = 0)"
    and "lh_map f lh k = None \<longleftrightarrow> (\<forall>i \<in> set (items lh). comp f (idata i) k \<noteq> 0)"
proof -
  show "lh_map f lh k = None \<longleftrightarrow> (\<forall>i \<in> set (items lh). comp f (idata i) k \<noteq> 0)"
    by (auto simp: lh_map_def find_None_iff)
  show "lh_map f lh k = Some d \<longleftrightarrow> (\<exists>i \<in> set (items lh). idata i = d \<and> comp f (idata i) k = 0)"
  proof
    assume "lh_map f lh k = Some d"
    then show "\<exists>i \<in> set (items lh). idata i = d \<and> comp f (idata i) k = 0"
      using nth_mem [of _ "items lh"] by (force simp: lh_map_def find_Some_iff)
  next
    assume "\<exists>i \<in> set (items lh). idata i = d \<and> comp f (idata i) k = 0"
    then obtain i where i: "i \<in> set (items lh)" "idata i = d" "comp f (idata i) k = 0" by blast
    then obtain j where j: "find (\<lambda>i. comp f (idata i) k = 0) (items lh) = Some j"
      by (cases "find (\<lambda>i. comp f (idata i) k = 0) (items lh)") (auto simp: find_None_iff)
    then have "j \<in> set (items lh)" "comp f (idata j) k = 0" by (auto simp: find_Some_iff)
    then have "j = i" using keyed_key [OF assms, of j i k] i by simp
    then show "lh_map f lh k = Some d" using i j by (simp add: lh_map_def)
  qed
qed

text \<open>Only the set of the items matters.\<close>

lemma lh_map_cong:
  assumes "key_funcs f" and "keyed f (mset (items lh))" and "mset (items lh') = mset (items lh)"
  shows "lh_map f lh' = lh_map f lh"
proof
  fix k
  have "set (items lh') = set (items lh)" using assms(3) by (metis set_mset_mset)
  then show "lh_map f lh' k = lh_map f lh k"
    using lh_map_Some [OF assms(1,2), of k] lh_map_Some [OF assms(1), of lh' k] assms(2,3)
    by (cases "lh_map f lh k") auto
qed

section \<open>Lookup\<close>

lemma chain_pos_le: "chain_pos cmp d c \<le> length c"
  by (induction c) auto

lemma chain_pos_found: "chain_pos cmp d c < length c \<Longrightarrow> cmp (idata (c ! chain_pos cmp d c)) d = 0"
  by (induction c) (auto split: if_splits)

lemma chain_pos_none: "chain_pos cmp d c = length c \<longleftrightarrow> (\<forall>i \<in> set c. cmp (idata i) d \<noteq> 0)"
  by (induction c) auto

definition bucket_of :: "lh_funcs \<Rightarrow> lhash \<Rightarrow> pointer \<Rightarrow> nat" where
  "bucket_of f lh k = unat (hash f k) mod num_buckets lh"

abbreviation (input) chain_of :: "lh_funcs \<Rightarrow> lhash \<Rightarrow> pointer \<Rightarrow> lh_item list" where
  "chain_of f lh k \<equiv> buckets lh ! bucket_of f lh k"

lemma get_next_eq:
  "get_next_ptr_and_hash f lh k = ((bucket_of f lh k, chain_pos (comp f) k (chain_of f lh k)), hash f k)"
  by (simp add: get_next_ptr_and_hash_def bucket_of_def Let_def)

lemma in_items: "i \<in> set (items lh) \<longleftrightarrow> (\<exists>b < num_buckets lh. i \<in> set (buckets lh ! b))"
  unfolding items_def set_concat set_conv_nth [of "buckets lh"] by auto

lemma bucket_of_less: "lh_wf f lh \<Longrightarrow> bucket_of f lh k < num_buckets lh"
  unfolding lh_wf_def bucket_of_def by (intro mod_less_divisor) linarith

text \<open>All items with the key are in the chain of the key.\<close>

lemma in_chain:
  assumes "key_funcs f" and "lh_wf f lh" and "i \<in> set (items lh)" and "comp f (idata i) k = 0"
  shows "i \<in> set (chain_of f lh k)"
proof -
  obtain b where b: "b < num_buckets lh" "i \<in> set (buckets lh ! b)"
    using assms(3) unfolding in_items by blast
  then have "unat (ihash i) mod num_buckets lh = b" using assms(2) by (simp add: lh_wf_def bucketed_def)
  moreover have "ihash i = hash f k"
    using assms comp_hash [OF assms(1) assms(4)] by (simp add: lh_wf_def keyed_def)
  ultimately show ?thesis using b by (simp add: bucket_of_def)
qed

lemma chain_items: "b < num_buckets lh \<Longrightarrow> i \<in> set (buckets lh ! b) \<Longrightarrow> i \<in> set (items lh)"
  unfolding in_items by blast

text \<open>The position that the search returns.\<close>

lemma found_or_not:
  assumes "key_funcs f" and "lh_wf f lh"
  obtains
    (absent) "chain_pos (comp f) k (chain_of f lh k) = length (chain_of f lh k)"
      "lh_map f lh k = None" "\<forall>i \<in> set (items lh). comp f (idata i) k \<noteq> 0"
  | (present) n i where "chain_pos (comp f) k (chain_of f lh k) = n" "n < length (chain_of f lh k)"
      "chain_of f lh k ! n = i" "i \<in> set (items lh)" "comp f (idata i) k = 0" "lh_map f lh k = Some (idata i)"
proof -
  let ?n = "chain_pos (comp f) k (chain_of f lh k)" and ?c = "chain_of f lh k"
  have keyed: "keyed f (mset (items lh))" using assms(2) by (simp add: lh_wf_def)
  show thesis
  proof (cases "?n < length ?c")
    case True
    then have "comp f (idata (?c ! ?n)) k = 0" by (rule chain_pos_found)
    moreover have "?c ! ?n \<in> set (items lh)"
      using nth_mem [OF True] by (rule chain_items [OF bucket_of_less [OF assms(2)]])
    ultimately show thesis using present [of ?n "?c ! ?n"] True lh_map_Some(1) [OF assms(1) keyed] by blast
  next
    case False
    then have len: "?n = length ?c" using chain_pos_le [of "comp f" k ?c] by simp
    then have "\<forall>i \<in> set (items lh). comp f (idata i) k \<noteq> 0"
      using in_chain [OF assms] chain_pos_none [of "comp f" k ?c] by blast
    then show thesis using lh_map_Some(2) [OF assms(1) keyed, of k] by (intro absent len) simp_all
  qed
qed

lemma lh_retrieve_map:
  assumes "key_funcs f" and "lh_wf f lh"
  shows "lh_retrieve f lh k = or_null (lh_map f lh k)"
  by (rule found_or_not [OF assms, of k]) (simp_all add: lh_retrieve_def get_next_eq item_at_def)

section \<open>Resizing\<close>

lemma mset_concat_update:
  "b < length bs \<Longrightarrow> mset (concat (bs[b := c])) + mset (bs ! b) = mset (concat bs) + mset c"
  by (induction bs arbitrary: b) (auto simp: nth_Cons add_ac split: nat.split)

lemma bucketed_update:
  assumes "bucketed bs" and "b < length bs" and "\<forall>i \<in> set c. unat (ihash i) mod length bs = b"
  shows "bucketed (bs[b := c])"
  using assms by (auto simp: bucketed_def nth_list_update)

lemma rehash_item_simps:
  assumes "length nb = n" and "0 < n"
  shows "mset (concat (rehash_item n i nb)) = add_mset i (mset (concat nb))"
    and "length (rehash_item n i nb) = n"
    and "bucketed nb \<Longrightarrow> bucketed (rehash_item n i nb)"
proof -
  let ?b = "unat (ihash i) mod n"
  have b: "?b < length nb" using assms by simp
  show "mset (concat (rehash_item n i nb)) = add_mset i (mset (concat nb))"
    using mset_concat_update [OF b, of "i # nb ! ?b"] by (simp add: rehash_item_def Let_def)
  show "length (rehash_item n i nb) = n" using assms by (simp add: rehash_item_def Let_def)
  show "bucketed nb \<Longrightarrow> bucketed (rehash_item n i nb)"
    using b assms unfolding rehash_item_def Let_def by (intro bucketed_update) (auto simp: bucketed_def)
qed

lemma rehash_chain:
  assumes "0 < n"
  shows "length nb = n \<Longrightarrow> bucketed nb \<Longrightarrow> length (fold (rehash_item n) c nb) = n \<and>
    bucketed (fold (rehash_item n) c nb) \<and>
    mset (concat (fold (rehash_item n) c nb)) = mset c + mset (concat nb)"
  using assms by (induction c arbitrary: nb) (simp_all add: rehash_item_simps)

lemma rehash_all:
  assumes "0 < n"
  shows "length nb = n \<Longrightarrow> bucketed nb \<Longrightarrow> length (fold (fold (rehash_item n)) cs nb) = n \<and>
    bucketed (fold (fold (rehash_item n)) cs nb) \<and>
    mset (concat (fold (fold (rehash_item n)) cs nb)) = mset (concat cs) + mset (concat nb)"
  using assms by (induction cs arbitrary: nb) (simp_all add: rehash_chain)

text \<open>The tables with the same items and the same counts, but perhaps other buckets.\<close>

definition same_items :: "lhash \<Rightarrow> lhash \<Rightarrow> bool" where
  "same_items lh lh' \<longleftrightarrow> mset (items lh') = mset (items lh) \<and> num_items lh' = num_items lh \<and>
     callback_depth lh' = callback_depth lh \<and> kMinNumBuckets \<le> num_buckets lh' \<and> bucketed (buckets lh')"

lemma same_items_wf: "lh_wf f lh \<Longrightarrow> same_items lh lh' \<Longrightarrow> lh_wf f lh'"
  unfolding lh_wf_def same_items_def by (metis size_mset)

lemma same_items_map:
  "key_funcs f \<Longrightarrow> lh_wf f lh \<Longrightarrow> same_items lh lh' \<Longrightarrow> lh_map f lh' = lh_map f lh"
  unfolding lh_wf_def same_items_def by (blast intro: lh_map_cong)

lemma rebucket_same:
  assumes "kMinNumBuckets \<le> num_buckets lh" "bucketed (buckets lh)" and "kMinNumBuckets \<le> n"
  shows "same_items lh (lh_rebucket mem n lh)"
proof -
  have "mset (concat (replicate n [])) = ({#} :: lh_item multiset)" by (induction n) simp_all
  moreover have "bucketed (replicate n [])" by (simp add: bucketed_def)
  ultimately show ?thesis
    using assms rehash_all [of n "replicate n []" "buckets lh"]
    by (simp add: lh_rebucket_def same_items_def items_def Let_def)
qed

lemma maybe_resize_same:
  assumes "kMinNumBuckets \<le> num_buckets lh" "bucketed (buckets lh)"
  shows "same_items lh (lh_maybe_resize mem lh)"
proof -
  have "same_items lh lh" using assms by (simp add: same_items_def)
  then show ?thesis
    using rebucket_same [OF assms] assms(1) unfolding lh_maybe_resize_def Let_def by simp
qed

lemma maybe_resize_wf:
  assumes "lh_wf f lh"
  shows "lh_wf f (lh_maybe_resize mem lh)"
    and "key_funcs f \<Longrightarrow> lh_map f (lh_maybe_resize mem lh) = lh_map f lh"
    and "mset (items (lh_maybe_resize mem lh)) = mset (items lh)"
    and "callback_depth (lh_maybe_resize mem lh) = callback_depth lh"
proof -
  have "same_items lh (lh_maybe_resize mem lh)"
    using assms by (intro maybe_resize_same) (simp_all add: lh_wf_def)
  then show "lh_wf f (lh_maybe_resize mem lh)" "key_funcs f \<Longrightarrow> lh_map f (lh_maybe_resize mem lh) = lh_map f lh"
    "mset (items (lh_maybe_resize mem lh)) = mset (items lh)"
    "callback_depth (lh_maybe_resize mem lh) = callback_depth lh"
    using same_items_wf [OF assms] same_items_map [OF _ assms] by (simp_all add: same_items_def)
qed

section \<open>Changing one chain\<close>

lemma set_chain_simps [simp]:
  "buckets (set_chain b c lh) = (buckets lh)[b := c]"
  "num_items (set_chain b c lh) = num_items lh"
  "callback_depth (set_chain b c lh) = callback_depth lh"
  by (simp_all add: set_chain_def)

lemma items_set_chain:
  "b < num_buckets lh \<Longrightarrow> mset (items (set_chain b c lh)) + mset (buckets lh ! b) = mset (items lh) + mset c"
  using mset_concat_update [of b "buckets lh" c] by (simp add: items_def)

lemma set_chain_wf:
  assumes "lh_wf f lh" and "b < num_buckets lh" and "\<forall>i \<in> set c. unat (ihash i) mod num_buckets lh = b"
    and "mset (items (set_chain b c lh)) = M" "keyed f M" "n = size M"
  shows "lh_wf f (set_chain b c (lh\<lparr>num_items := n\<rparr>))"
proof -
  have "items (set_chain b c (lh\<lparr>num_items := n\<rparr>)) = items (set_chain b c lh)" by (simp add: items_def)
  moreover have "length (items (set_chain b c lh)) = size M" using assms(4) by (metis size_mset)
  ultimately show ?thesis
    using assms by (simp add: lh_wf_def bucketed_update)
qed

lemma keyed_add:
  assumes "key_funcs f" and "keyed f M" and "ihash i = hash f (idata i)" "idata i \<noteq> 0" "iaddr i \<noteq> 0"
    and "\<forall>j \<in># M. iaddr j \<noteq> iaddr i \<and> comp f (idata j) (idata i) \<noteq> 0"
  shows "keyed f (add_mset i M)"
proof -
  have "\<forall>j \<in># M. comp f (idata i) (idata j) \<noteq> 0" using assms(1,6) comp_sym by blast
  moreover have "count M i = 0" using assms(6) by (metis count_eq_zero_iff)
  ultimately show ?thesis using assms(2-) unfolding keyed_def by (auto simp: comp_refl [OF assms(1)])
qed

lemma keyed_remove:
  assumes "keyed f M"
  shows "keyed f (M - {#i#})" and "i \<in># M \<Longrightarrow> i \<notin># M - {#i#}"
proof -
  have "\<forall>j \<in># M. count M j = 1" using assms by (simp add: keyed_def)
  then show "i \<in># M \<Longrightarrow> i \<notin># M - {#i#}" by (simp add: in_diff_count)
  have sub: "j \<in># M" if "j \<in># M - {#i#}" for j using that by (rule in_diffD)
  have one: "count (M - {#i#}) j = 1" if "j \<in># M - {#i#}" for j
  proof -
    have "count M j = 1" using in_diffD [OF that] \<open>\<forall>j \<in># M. count M j = 1\<close> by blast
    with that show ?thesis by (auto simp: in_diff_count split: if_splits)
  qed
  then show "keyed f (M - {#i#})" using assms sub one unfolding keyed_def by blast
qed

section \<open>The operations\<close>

text \<open>The block that \<open>OPENSSL_malloc\<close> returns is not one of the live items.\<close>

definition fresh_item :: "lh_mem \<Rightarrow> lhash \<Rightarrow> bool" where
  "fresh_item mem lh \<longleftrightarrow> item_block mem \<notin> iaddr ` set (items lh)"

lemma lh_map_eqI:
  assumes "key_funcs f" and "keyed f (mset (items lh))"
    and "\<And>d. g k = Some d \<longleftrightarrow> (\<exists>i \<in> set (items lh). idata i = d \<and> comp f (idata i) k = 0)"
  shows "lh_map f lh k = g k"
proof (cases "g k")
  case None
  then have "lh_map f lh k \<noteq> Some d" for d using lh_map_Some(1) [OF assms(1,2), of k d] assms(3) [of d] by simp
  then show ?thesis using None by (cases "lh_map f lh k") auto
next
  case (Some d)
  then show ?thesis using lh_map_Some(1) [OF assms(1,2), of k d] assms(3) [of d] by simp
qed

text \<open>The table after an insertion or a deletion, before it is resized.\<close>

lemma insert_absent:
  assumes "key_funcs f" "lh_wf f lh" "fresh_item mem lh" "item_block mem \<noteq> 0" "d \<noteq> 0"
    and "\<forall>i \<in> set (items lh). comp f (idata i) d \<noteq> 0"
    and "c = chain_of f lh d @ [\<lparr>idata = d, ihash = hash f d, iaddr = item_block mem\<rparr>]"
    and "lh' = set_chain (bucket_of f lh d) c (lh\<lparr>num_items := num_items lh + 1\<rparr>)"
  shows "lh_wf f lh'" and "lh_map f lh' k = (if comp f d k = 0 then Some d else lh_map f lh k)"
    and "mset (items lh') = add_mset \<lparr>idata = d, ihash = hash f d, iaddr = item_block mem\<rparr> (mset (items lh))"
proof -
  let ?i = "\<lparr>idata = d, ihash = hash f d, iaddr = item_block mem\<rparr>" and ?b = "bucket_of f lh d"
  have b: "?b < num_buckets lh" by (rule bucket_of_less [OF assms(2)])
  have old: "keyed f (mset (items lh))" using assms(2) by (simp add: lh_wf_def)
  have items: "mset (items (set_chain ?b c lh)) = add_mset ?i (mset (items lh))"
    using items_set_chain [OF b, of c] by (simp add: assms(7))
  have keyed: "keyed f (add_mset ?i (mset (items lh)))"
    using assms(3-6) by (intro keyed_add [OF assms(1) old]) (force simp: fresh_item_def)+
  show "lh_wf f lh'"
    unfolding assms(8)
  proof (rule set_chain_wf [OF assms(2) b _ items keyed])
    show "\<forall>i \<in> set c. unat (ihash i) mod num_buckets lh = ?b"
      using assms(2) b by (auto simp: assms(7) lh_wf_def bucketed_def bucket_of_def)
    show "num_items lh + 1 = size (add_mset ?i (mset (items lh)))" using assms(2) by (simp add: lh_wf_def)
  qed
  have same: "items lh' = items (set_chain ?b c lh)" by (simp add: assms(8) items_def)
  then show mset: "mset (items lh') = add_mset ?i (mset (items lh))" using items by simp
  then have set: "set (items lh') = insert ?i (set (items lh))" by (metis set_mset_add_mset_insert set_mset_mset)
  show "lh_map f lh' k = (if comp f d k = 0 then Some d else lh_map f lh k)"
  proof (rule lh_map_eqI [OF assms(1)])
    show "keyed f (mset (items lh'))" using keyed mset by simp
    show "(if comp f d k = 0 then Some d else lh_map f lh k) = Some e \<longleftrightarrow>
        (\<exists>i \<in> set (items lh'). idata i = e \<and> comp f (idata i) k = 0)" for e
    proof (cases "comp f d k = 0")
      case True
      then have "comp f (idata j) k \<noteq> 0" if "j \<in> set (items lh)" for j
        using assms(6) that comp_trans [OF assms(1)] comp_sym [OF assms(1)] by blast
      then show ?thesis using True by (auto simp: set)
    next
      case False
      then show ?thesis using lh_map_Some(1) [OF assms(1) old, of k e] by (simp add: set)
    qed
  qed
qed

lemma insert_present:
  assumes "key_funcs f" "lh_wf f lh" "d \<noteq> 0"
    and "chain_of f lh d ! n = i" "n < length (chain_of f lh d)" "comp f (idata i) d = 0"
    and "lh' = set_chain (bucket_of f lh d) ((chain_of f lh d)[n := i\<lparr>idata := d\<rparr>]) lh"
  shows "lh_wf f lh'" and "lh_map f lh' k = (if comp f d k = 0 then Some d else lh_map f lh k)"
    and "mset (items lh') = add_mset (i\<lparr>idata := d\<rparr>) (mset (items lh) - {#i#})"
proof -
  let ?i = "i\<lparr>idata := d\<rparr>" and ?b = "bucket_of f lh d" and ?M = "mset (items lh)"
  have b: "?b < num_buckets lh" by (rule bucket_of_less [OF assms(2)])
  have old: "keyed f ?M" using assms(2) by (simp add: lh_wf_def)
  have i: "i \<in># ?M" using assms(4,5) chain_items [OF b, of i] by auto
  have "mset ((chain_of f lh d)[n := ?i]) = add_mset ?i (mset (chain_of f lh d) - {#i#})"
    using assms(4,5) by (simp add: mset_update)
  moreover obtain C where C: "mset (chain_of f lh d) = add_mset i C"
    using assms(4,5) by (metis multi_member_split nth_mem set_mset_mset)
  moreover obtain M' where M': "?M = add_mset i M'" using i by (metis multi_member_split)
  ultimately show mset: "mset (items lh') = add_mset ?i (?M - {#i#})"
    using items_set_chain [OF b, of "(chain_of f lh d)[n := ?i]"] unfolding assms(7) by simp
  have addr: "iaddr j \<noteq> iaddr i \<and> comp f (idata j) d \<noteq> 0" if "j \<in># ?M - {#i#}" for j
  proof -
    have "j \<in># ?M" "j \<noteq> i" using that keyed_remove(2) [OF old i] in_diffD [OF that] by auto
    then show ?thesis using old i keyed_key [OF assms(1) old _ i _ assms(6), of j] unfolding keyed_def by blast
  qed
  have "ihash i = hash f d" "iaddr i \<noteq> 0"
    using old i comp_hash [OF assms(1,6)] by (simp_all add: keyed_def)
  then have keyed: "keyed f (add_mset ?i (?M - {#i#}))"
    using addr assms(3) by (intro keyed_add [OF assms(1) keyed_remove(1) [OF old]]) auto
  have "lh_wf f (set_chain ?b ((chain_of f lh d)[n := ?i]) (lh\<lparr>num_items := num_items lh\<rparr>))"
  proof (rule set_chain_wf [OF assms(2) b _ _ keyed])
    have "\<forall>j \<in> set (chain_of f lh d). unat (ihash j) mod num_buckets lh = ?b"
      using assms(2) b by (simp add: lh_wf_def bucketed_def)
    moreover have "unat (ihash ?i) mod num_buckets lh = ?b"
      using \<open>ihash i = hash f d\<close> by (simp add: bucket_of_def)
    ultimately show "\<forall>j \<in> set ((chain_of f lh d)[n := ?i]). unat (ihash j) mod num_buckets lh = ?b"
      using set_update_subset_insert [of "chain_of f lh d" n ?i] by blast
    show "mset (items (set_chain ?b ((chain_of f lh d)[n := ?i]) lh)) = add_mset ?i (?M - {#i#})"
      using mset by (simp add: assms(7))
    show "num_items lh = size (add_mset ?i (?M - {#i#}))"
      using assms(2) i by (simp add: lh_wf_def size_Suc_Diff1)
  qed
  then show "lh_wf f lh'" by (simp add: assms(7))
  have set: "set (items lh') = insert ?i (set_mset (?M - {#i#}))"
    using mset by (metis set_mset_add_mset_insert set_mset_mset)
  have M: "\<exists>j \<in> set (items lh). P j" if "\<exists>j \<in># ?M - {#i#}. P j" for P using that by (metis in_diffD set_mset_mset)
  show "lh_map f lh' k = (if comp f d k = 0 then Some d else lh_map f lh k)"
  proof (rule lh_map_eqI [OF assms(1)])
    show "keyed f (mset (items lh'))" using keyed mset by simp
    have other: "j \<in># ?M - {#i#}" if "j \<in> set (items lh)" "comp f d k \<noteq> 0" "comp f (idata j) k = 0" for j
    proof -
      have "j \<noteq> i" using that assms(6) comp_trans [OF assms(1)] comp_sym [OF assms(1)] by blast
      then show ?thesis using that(1) by (simp add: in_diff_count)
    qed
    show "(if comp f d k = 0 then Some d else lh_map f lh k) = Some e \<longleftrightarrow>
        (\<exists>i \<in> set (items lh'). idata i = e \<and> comp f (idata i) k = 0)" for e
    proof (cases "comp f d k = 0")
      case True
      then have "comp f (idata j) k \<noteq> 0" if "j \<in># ?M - {#i#}" for j
        using addr [OF that] comp_trans [OF assms(1)] comp_sym [OF assms(1)] by blast
      then show ?thesis using True by (auto simp: set)
    next
      case False
      then show ?thesis
        using lh_map_Some(1) [OF assms(1) old, of k e] other M [of "\<lambda>j. idata j = e \<and> comp f (idata j) k = 0"]
        by (auto simp: set)
    qed
  qed
qed

lemma delete_present:
  assumes "key_funcs f" "lh_wf f lh"
    and "chain_of f lh d ! n = i" "n < length (chain_of f lh d)" "comp f (idata i) d = 0"
    and "c = take n (chain_of f lh d) @ drop (Suc n) (chain_of f lh d)"
    and "lh' = set_chain (bucket_of f lh d) c (lh\<lparr>num_items := num_items lh - 1\<rparr>)"
  shows "lh_wf f lh'" and "lh_map f lh' k = (if comp f d k = 0 then None else lh_map f lh k)"
    and "mset (items lh') = mset (items lh) - {#i#}"
proof -
  let ?b = "bucket_of f lh d" and ?M = "mset (items lh)"
  have b: "?b < num_buckets lh" by (rule bucket_of_less [OF assms(2)])
  have old: "keyed f ?M" using assms(2) by (simp add: lh_wf_def)
  have i: "i \<in># ?M" using assms(3,4) chain_items [OF b, of i] by auto
  have "mset (chain_of f lh d) = add_mset i (mset c)"
    using arg_cong [OF id_take_nth_drop [OF assms(4)], of mset] by (simp add: assms(3,6))
  moreover obtain M' where M': "?M = add_mset i M'" using i by (metis multi_member_split)
  ultimately have mset: "mset (items (set_chain ?b c lh)) = ?M - {#i#}"
    using items_set_chain [OF b, of c] by simp
  have keyed: "keyed f (?M - {#i#})" by (rule keyed_remove(1) [OF old])
  show "lh_wf f lh'"
    unfolding assms(7)
  proof (rule set_chain_wf [OF assms(2) b _ mset keyed])
    have "set c \<subseteq> set (chain_of f lh d)" unfolding assms(6) using set_take_subset set_drop_subset by fastforce
    then show "\<forall>j \<in> set c. unat (ihash j) mod num_buckets lh = ?b"
      using assms(2) b unfolding lh_wf_def bucketed_def by blast
    show "num_items lh - 1 = size (?M - {#i#})" using assms(2) i by (simp add: lh_wf_def size_Diff_singleton)
  qed
  have "items lh' = items (set_chain ?b c lh)" by (simp add: assms(7) items_def)
  then show mset': "mset (items lh') = ?M - {#i#}" using mset by simp
  then have set: "set (items lh') = set_mset (?M - {#i#})" by (metis set_mset_mset)
  have rest: "j \<in># ?M - {#i#} \<longleftrightarrow> j \<in> set (items lh) \<and> comp f (idata j) d \<noteq> 0" for j
  proof
    assume j: "j \<in># ?M - {#i#}"
    then have "j \<in># ?M" by (rule in_diffD)
    moreover have "j \<noteq> i" using keyed_remove(2) [OF old i] j by blast
    ultimately show "j \<in> set (items lh) \<and> comp f (idata j) d \<noteq> 0"
      using keyed_key [OF assms(1) old _ i _ assms(5), of j] by auto
  next
    assume j: "j \<in> set (items lh) \<and> comp f (idata j) d \<noteq> 0"
    then have "j \<noteq> i" using assms(5) by blast
    then show "j \<in># ?M - {#i#}" using j by (simp add: in_diff_count)
  qed
  show "lh_map f lh' k = (if comp f d k = 0 then None else lh_map f lh k)"
  proof (rule lh_map_eqI [OF assms(1)])
    show "keyed f (mset (items lh'))" using keyed mset' by simp
    show "(if comp f d k = 0 then None else lh_map f lh k) = Some e \<longleftrightarrow>
        (\<exists>i \<in> set (items lh'). idata i = e \<and> comp f (idata i) k = 0)" for e
    proof (cases "comp f d k = 0")
      case True
      then have "comp f (idata j) k \<noteq> 0" if "comp f (idata j) d \<noteq> 0" for j
        using that comp_trans [OF assms(1)] comp_sym [OF assms(1)] by blast
      then show ?thesis unfolding set using rest True by auto
    next
      case False
      then have "comp f (idata j) d \<noteq> 0" if "comp f (idata j) k = 0" for j
        using that comp_trans [OF assms(1)] comp_sym [OF assms(1)] by blast
      then show ?thesis unfolding set using rest False lh_map_Some(1) [OF assms(1) old, of k e] by auto
    qed
  qed
qed

text \<open>The three operations, whatever the table looks like.\<close>

lemma lh_insert_map:
  assumes "key_funcs f" "lh_wf f lh" "fresh_item mem lh" "d \<noteq> 0"
    and "lh_insert f mem d lh = (old, ok, lh')"
  shows "ok \<Longrightarrow> lh_wf f lh' \<and> old = or_null (lh_map f lh d) \<and>
      lh_map f lh' = (\<lambda>k. if comp f d k = 0 then Some d else lh_map f lh k)"
    and "\<not> ok \<Longrightarrow> item_block mem = 0 \<and> lh_map f lh d = None \<and> old = 0 \<and> lh' = lh"
proof -
  have "(ok \<longrightarrow> lh_wf f lh' \<and> old = or_null (lh_map f lh d) \<and>
      lh_map f lh' = (\<lambda>k. if comp f d k = 0 then Some d else lh_map f lh k)) \<and>
      (\<not> ok \<longrightarrow> item_block mem = 0 \<and> lh_map f lh d = None \<and> old = 0 \<and> lh' = lh)"
  proof (cases rule: found_or_not [OF assms(1,2), where k = d, case_names absent present])
    case absent
    let ?c = "chain_of f lh d @ [\<lparr>idata = d, ihash = hash f d, iaddr = item_block mem\<rparr>]"
    let ?t = "set_chain (bucket_of f lh d) ?c (lh\<lparr>num_items := num_items lh + 1\<rparr>)"
    have ins: "lh_insert f mem d lh =
        (if item_block mem = 0 then (0, False, lh) else (0, True, lh_maybe_resize mem ?t))"
      using absent(1) by (simp add: lh_insert_def get_next_eq item_at_def Let_def)
    show ?thesis
    proof (cases "item_block mem = 0")
      case False
      note new = insert_absent [OF assms(1-3) False assms(4) absent(3) refl refl]
      show ?thesis
        using assms(5) False maybe_resize_wf [OF new(1), of mem] new(2) assms(1) absent(2)
        unfolding ins by auto
    qed (use assms(5) absent in \<open>auto simp: ins\<close>)
  next
    case (present n i)
    have ins: "lh_insert f mem d lh =
        (idata i, True, set_chain (bucket_of f lh d) ((chain_of f lh d)[n := i\<lparr>idata := d\<rparr>]) lh)"
      using present(1-3) by (simp add: lh_insert_def get_next_eq item_at_def Let_def)
    show ?thesis
      using assms(5) insert_present [OF assms(1,2,4) present(3,2,5) refl] present(6) unfolding ins by auto
  qed
  then show "ok \<Longrightarrow> lh_wf f lh' \<and> old = or_null (lh_map f lh d) \<and>
      lh_map f lh' = (\<lambda>k. if comp f d k = 0 then Some d else lh_map f lh k)"
    "\<not> ok \<Longrightarrow> item_block mem = 0 \<and> lh_map f lh d = None \<and> old = 0 \<and> lh' = lh" by blast+
qed

lemma lh_delete_map:
  assumes "key_funcs f" "lh_wf f lh" and "lh_delete f mem d lh = (old, lh')"
  shows "lh_wf f lh'" and "old = or_null (lh_map f lh d)"
    and "lh_map f lh' = (\<lambda>k. if comp f d k = 0 then None else lh_map f lh k)"
proof -
  have "lh_wf f lh' \<and> old = or_null (lh_map f lh d) \<and>
      lh_map f lh' = (\<lambda>k. if comp f d k = 0 then None else lh_map f lh k)"
  proof (cases rule: found_or_not [OF assms(1,2), where k = d, case_names absent present])
    case absent
    have del: "lh_delete f mem d lh = (0, lh)"
      using absent(1) by (simp add: lh_delete_def get_next_eq item_at_def Let_def)
    have "lh_map f lh k = None" if "comp f d k = 0" for k
    proof -
      have "comp f (idata i) k \<noteq> 0" if "i \<in> set (items lh)" for i
        using absent(3) that \<open>comp f d k = 0\<close> comp_trans [OF assms(1)] comp_sym [OF assms(1)] by blast
      then show ?thesis using assms(2) lh_map_Some(2) [OF assms(1), of lh k] by (simp add: lh_wf_def)
    qed
    then show ?thesis using assms(2,3) absent(2) unfolding del by auto
  next
    case (present n i)
    let ?c = "take n (chain_of f lh d) @ drop (Suc n) (chain_of f lh d)"
    let ?t = "set_chain (bucket_of f lh d) ?c (lh\<lparr>num_items := num_items lh - 1\<rparr>)"
    have del: "lh_delete f mem d lh = (idata i, lh_maybe_resize mem ?t)"
      using present(1-3) by (simp add: lh_delete_def get_next_eq item_at_def Let_def)
    note new = delete_present [OF assms(1,2) present(3,2,5) refl refl]
    show ?thesis
      using assms(3) maybe_resize_wf [OF new(1), of mem] new(2) assms(1) present(6) unfolding del by auto
  qed
  then show "lh_wf f lh'" "old = or_null (lh_map f lh d)"
    "lh_map f lh' = (\<lambda>k. if comp f d k = 0 then None else lh_map f lh k)" by blast+
qed

lemma lh_new_map: "lh_new grant = Some lh \<Longrightarrow> lh_wf f lh \<and> lh_map f lh = Map.empty"
  by (auto simp: lh_new_def lh_wf_def items_def bucketed_def keyed_def lh_map_def concat_eq_Nil_conv split: if_splits)

section \<open>The interface of a dictionary\<close>

text \<open>A dictionary holds at most one element per key; \<open>put\<close> says whether it has stored the element,
  \<open>usable\<close> that the resources \<open>m\<close> that it is offered are all right.\<close>

datatype ('m, 'k) dict_op = Put 'm 'k | Remove 'm 'k

locale dictionary =
  fixes valid :: "'s \<Rightarrow> bool" and same :: "'s \<Rightarrow> 'k \<Rightarrow> 'k \<Rightarrow> bool" and look :: "'s \<Rightarrow> 'k \<Rightarrow> 'k option"
    and put :: "'m \<Rightarrow> 'k \<Rightarrow> 's \<Rightarrow> bool \<times> 's" and remove :: "'m \<Rightarrow> 'k \<Rightarrow> 's \<Rightarrow> 's"
    and usable :: "'m \<Rightarrow> 'k \<Rightarrow> 's \<Rightarrow> bool"
  assumes same_refl: "valid s \<Longrightarrow> same s k k"
    and put_ok: "valid s \<Longrightarrow> usable m d s \<Longrightarrow> put m d s = (True, t) \<Longrightarrow>
      valid t \<and> same t = same s \<and> look t = (\<lambda>k. if same s d k then Some d else look s k)"
    and put_refused: "valid s \<Longrightarrow> usable m d s \<Longrightarrow> put m d s = (False, t) \<Longrightarrow> t = s"
    and remove_ok: "valid s \<Longrightarrow> valid (remove m d s) \<and> same (remove m d s) = same s \<and>
      look (remove m d s) = (\<lambda>k. if same s d k then None else look s k)"
begin

text \<open>Runs of operations: the states, whether they were offered usable resources, and what a map
  does with those that were carried out.\<close>

fun run :: "('m, 'k) dict_op list \<Rightarrow> 's \<Rightarrow> 's" where
  "run [] s = s"
| "run (Put m d # ops) s = run ops (snd (put m d s))"
| "run (Remove m d # ops) s = run ops (remove m d s)"

fun all_usable :: "('m, 'k) dict_op list \<Rightarrow> 's \<Rightarrow> bool" where
  "all_usable [] s \<longleftrightarrow> True"
| "all_usable (Put m d # ops) s \<longleftrightarrow> usable m d s \<and> all_usable ops (snd (put m d s))"
| "all_usable (Remove m d # ops) s \<longleftrightarrow> all_usable ops (remove m d s)"

fun run_map :: "('m, 'k) dict_op list \<Rightarrow> 's \<Rightarrow> ('k \<Rightarrow> 'k option) \<Rightarrow> ('k \<Rightarrow> 'k option)" where
  "run_map [] s M = M"
| "run_map (Put m d # ops) s M = (if fst (put m d s)
     then run_map ops (snd (put m d s)) (\<lambda>k. if same s d k then Some d else M k)
     else run_map ops s M)"
| "run_map (Remove m d # ops) s M = run_map ops (remove m d s) (\<lambda>k. if same s d k then None else M k)"

lemma run_refines:
  "valid s \<Longrightarrow> all_usable ops s \<Longrightarrow>
    valid (run ops s) \<and> same (run ops s) = same s \<and> look (run ops s) = run_map ops s (look s)"
proof (induction ops arbitrary: s)
  case (Cons op ops)
  show ?case
  proof (cases op)
    case (Put m d)
    obtain ok t where put: "put m d s = (ok, t)" by fastforce
    show ?thesis
    proof (cases ok)
      case True
      then show ?thesis using put_ok [of s m d t] Cons put Put by simp
    next
      case False
      then show ?thesis using put_refused [of s m d t] Cons put Put by simp
    qed
  next
    case (Remove m d)
    then show ?thesis using remove_ok [of s m d] Cons by simp
  qed
qed simp

lemma put_look: "valid s \<Longrightarrow> usable m d s \<Longrightarrow> put m d s = (True, t) \<Longrightarrow> look t d = Some d"
  using put_ok [of s m d t] same_refl [of s d] by simp

lemma remove_look: "valid s \<Longrightarrow> look (remove m d s) d = None"
  using remove_ok [of s m d] same_refl [of s d] by simp

end

text \<open>The hash table, together with its two functions, is a dictionary.\<close>

definition table_valid :: "lh_funcs \<times> lhash \<Rightarrow> bool" where
  "table_valid t \<longleftrightarrow> key_funcs (fst t) \<and> lh_wf (fst t) (snd t)"

definition table_same :: "lh_funcs \<times> lhash \<Rightarrow> pointer \<Rightarrow> pointer \<Rightarrow> bool" where
  "table_same t a b \<longleftrightarrow> comp (fst t) a b = 0"

definition table_look :: "lh_funcs \<times> lhash \<Rightarrow> pointer \<Rightarrow> pointer option" where
  "table_look t k = (if lh_retrieve (fst t) (snd t) k = 0 then None else Some (lh_retrieve (fst t) (snd t) k))"

definition table_put :: "lh_mem \<Rightarrow> pointer \<Rightarrow> lh_funcs \<times> lhash \<Rightarrow> bool \<times> (lh_funcs \<times> lhash)" where
  "table_put mem d t = (case lh_insert (fst t) mem d (snd t) of (_, ok, lh) \<Rightarrow> (ok, (fst t, lh)))"

definition table_remove :: "lh_mem \<Rightarrow> pointer \<Rightarrow> lh_funcs \<times> lhash \<Rightarrow> lh_funcs \<times> lhash" where
  "table_remove mem d t = (fst t, snd (lh_delete (fst t) mem d (snd t)))"

definition table_usable :: "lh_mem \<Rightarrow> pointer \<Rightarrow> lh_funcs \<times> lhash \<Rightarrow> bool" where
  "table_usable mem d t \<longleftrightarrow> d \<noteq> 0 \<and> fresh_item mem (snd t)"

lemma lh_map_not_null: "key_funcs f \<Longrightarrow> lh_wf f lh \<Longrightarrow> lh_map f lh k \<noteq> Some 0"
  using lh_map_Some(1) [of f lh k 0] by (auto simp: lh_wf_def keyed_def)

lemma table_look_map: "table_valid t \<Longrightarrow> table_look t = lh_map (fst t) (snd t)"
proof
  fix k
  assume "table_valid t"
  then show "table_look t k = lh_map (fst t) (snd t) k"
    using lh_map_not_null [of "fst t" "snd t" k]
    by (cases "lh_map (fst t) (snd t) k") (auto simp: table_valid_def table_look_def lh_retrieve_map)
qed

interpretation table: dictionary table_valid table_same table_look table_put table_remove table_usable
proof
  fix s m d t
  assume s: "table_valid s"
  then have wf: "key_funcs (fst s)" "lh_wf (fst s) (snd s)" by (simp_all add: table_valid_def)
  show "table_same s k k" for k using comp_refl [OF wf(1)] by (simp add: table_same_def)
  obtain old lh' where del: "lh_delete (fst s) m d (snd s) = (old, lh')" by fastforce
  have "table_valid (table_remove m d s)"
    using lh_delete_map(1) [OF wf del] wf(1) by (simp add: table_valid_def table_remove_def del)
  then show "table_valid (table_remove m d s) \<and> table_same (table_remove m d s) = table_same s \<and>
      table_look (table_remove m d s) = (\<lambda>k. if table_same s d k then None else table_look s k)"
    using lh_delete_map(3) [OF wf del]
    by (simp add: table_look_map s table_same_def fun_eq_iff) (simp add: table_remove_def del)
next
  fix s m d t
  assume s: "table_valid s" and use: "table_usable m d s"
  then have wf: "key_funcs (fst s)" "lh_wf (fst s) (snd s)" by (simp_all add: table_valid_def)
  obtain old ok lh' where ins: "lh_insert (fst s) m d (snd s) = (old, ok, lh')" by (metis prod_cases3)
  have nz: "fresh_item m (snd s)" "d \<noteq> 0" using use by (simp_all add: table_usable_def)
  note map = lh_insert_map [OF wf nz ins]
  show "table_put m d s = (False, t) \<Longrightarrow> t = s" using map(2) by (auto simp: table_put_def ins)
  assume put: "table_put m d s = (True, t)"
  then have t: "ok" "t = (fst s, lh')" by (simp_all add: table_put_def ins)
  then have "table_valid t" using map(1) wf(1) by (simp add: table_valid_def)
  then show "table_valid t \<and> table_same t = table_same s \<and>
      table_look t = (\<lambda>k. if table_same s d k then Some d else table_look s k)"
    using map(1) t by (simp add: table_look_map s table_same_def fun_eq_iff)
qed

section \<open>Runs of operations on the table\<close>

type_synonym lh_op = "(lh_mem, pointer) dict_op"

fun lh_run :: "lh_funcs \<Rightarrow> lh_op list \<Rightarrow> lhash \<Rightarrow> lhash" where
  "lh_run f [] lh = lh"
| "lh_run f (Put mem d # ops) lh = lh_run f ops (snd (snd (lh_insert f mem d lh)))"
| "lh_run f (Remove mem d # ops) lh = lh_run f ops (snd (lh_delete f mem d lh))"

text \<open>The blocks of memory that the insertions of a run get are not in use.\<close>

fun lh_run_fresh :: "lh_funcs \<Rightarrow> lh_op list \<Rightarrow> lhash \<Rightarrow> bool" where
  "lh_run_fresh f [] lh \<longleftrightarrow> True"
| "lh_run_fresh f (Put mem d # ops) lh \<longleftrightarrow>
     d \<noteq> 0 \<and> fresh_item mem lh \<and> lh_run_fresh f ops (snd (snd (lh_insert f mem d lh)))"
| "lh_run_fresh f (Remove mem d # ops) lh \<longleftrightarrow> lh_run_fresh f ops (snd (lh_delete f mem d lh))"

text \<open>The same run on a map. An insertion fails only when it needs a new item and there is no memory.\<close>

fun map_run :: "lh_funcs \<Rightarrow> lh_op list \<Rightarrow> (pointer \<Rightarrow> pointer option) \<Rightarrow> (pointer \<Rightarrow> pointer option)" where
  "map_run f [] M = M"
| "map_run f (Put mem d # ops) M = map_run f ops
     (if M d = None \<and> item_block mem = 0 then M else (\<lambda>k. if comp f d k = 0 then Some d else M k))"
| "map_run f (Remove mem d # ops) M = map_run f ops (\<lambda>k. if comp f d k = 0 then None else M k)"

lemma table_ops:
  "snd (table_put mem d (f, lh)) = (f, snd (snd (lh_insert f mem d lh)))"
  "fst (table_put mem d (f, lh)) = fst (snd (lh_insert f mem d lh))"
  "table_same (f, lh) a b \<longleftrightarrow> comp f a b = 0"
  "table_remove mem d (f, lh) = (f, snd (lh_delete f mem d lh))"
  "table_usable mem d (f, lh) \<longleftrightarrow> d \<noteq> 0 \<and> fresh_item mem lh"
  by (simp_all add: table_put_def table_remove_def table_usable_def table_same_def split: prod.split)

lemma table_run: "table.run ops (f, lh) = (f, lh_run f ops lh)"
  by (induction f ops lh rule: lh_run.induct) (simp_all add: table_ops)

lemma table_all_usable: "table.all_usable ops (f, lh) \<longleftrightarrow> lh_run_fresh f ops lh"
  by (induction f ops lh rule: lh_run_fresh.induct) (simp_all add: table_ops)

lemma table_run_map:
  "key_funcs f \<Longrightarrow> lh_wf f lh \<Longrightarrow> lh_run_fresh f ops lh \<Longrightarrow>
    table.run_map ops (f, lh) (lh_map f lh) = map_run f ops (lh_map f lh)"
proof (induction f ops lh rule: lh_run_fresh.induct)
  case (2 f mem d ops lh)
  obtain old ok lh' where ins: "lh_insert f mem d lh = (old, ok, lh')" by (metis prod_cases3)
  have fresh: "fresh_item mem lh" "d \<noteq> 0" using 2 by simp_all
  note map = lh_insert_map [OF 2(2,3) fresh ins]
  have "ok \<longleftrightarrow> \<not> (lh_map f lh d = None \<and> item_block mem = 0)"
    using ins by (cases rule: found_or_not [OF 2(2,3), of d])
      (auto simp: lh_insert_def get_next_eq item_at_def Let_def split: if_splits)
  then show ?case
    using 2 map ins by (cases ok) (auto simp: table_ops)
next
  case (3 f mem d ops lh)
  obtain old lh' where del: "lh_delete f mem d lh = (old, lh')" by fastforce
  then show ?case
    using 3 lh_delete_map [OF 3(2,3) del] by (simp add: table_ops)
qed simp

text \<open>C17: after any sequence of insertions and deletions, whatever memory they were given and however
  often the buckets were resized, the table is well formed and \<open>lh_retrieve\<close> returns what a map from
  keys to elements would.\<close>

theorem lh_run_refines_map:
  assumes "key_funcs f" and "lh_new grant = Some lh" and "lh_run_fresh f ops lh"
  shows "lh_wf f (lh_run f ops lh) \<and>
    lh_retrieve f (lh_run f ops lh) k = or_null (map_run f ops Map.empty k)"
proof -
  have lh: "lh_wf f lh" "lh_map f lh = Map.empty" using lh_new_map [OF assms(2)] by simp_all
  then have valid: "table_valid (f, lh)" using assms(1) by (simp add: table_valid_def)
  note run = table.run_refines [OF valid, of ops, unfolded table_run table_all_usable, OF assms(3)]
  then have wf: "lh_wf f (lh_run f ops lh)" by (simp add: table_valid_def)
  have "lh_map f (lh_run f ops lh) = map_run f ops Map.empty"
    using run table_run_map [OF assms(1) lh(1) assms(3)] lh(2) table_look_map [OF valid]
      table_look_map [of "(f, lh_run f ops lh)"] by simp
  then show ?thesis using lh_retrieve_map [OF assms(1) wf] wf by simp
qed

text \<open>An instance: numbers that are equal modulo 7.\<close>

definition mod7 :: lh_funcs where
  "mod7 = \<lparr>comp = (\<lambda>a b. if a mod 7 = b mod 7 then 0 else 1), hash = (\<lambda>a. of_nat (a mod 7))\<rparr>"

lemma key_funcs_mod7: "key_funcs mod7"
  by (simp add: key_funcs_def mod7_def)

abbreviation (input) block :: "pointer \<Rightarrow> lh_mem" where
  "block a \<equiv> \<lparr>item_block = a, grants = (\<lambda>_. True)\<rparr>"

definition empty_table :: lhash where
  "empty_table = \<lparr>num_items = 0, buckets = replicate 16 [], callback_depth = 0\<rparr>"

lemma empty_table: "lh_new (\<lambda>_. True) = Some empty_table"
  by (simp add: lh_new_def empty_table_def)

theorem lh_run_refines_map_witness:
  "lh_retrieve mod7 (lh_run mod7 [Put (block 100) 8, Put (block 0) 3, Put (block 0) 15, Put (block 104) 10,
     Remove (block 0) 3] empty_table) 1 = 15"
proof -
  have "lh_run_fresh mod7 [Put (block 100) 8, Put (block 0) 3, Put (block 0) 15, Put (block 104) 10,
     Remove (block 0) 3] empty_table"
    by code_simp
  from lh_run_refines_map [OF key_funcs_mod7 empty_table this, of 1]
  show ?thesis by (simp add: mod7_def)
qed

section \<open>Load\<close>

text \<open>At most three items per bucket on average, and at least one unless the array has its minimal size.\<close>

definition load_ok :: "lhash \<Rightarrow> bool" where
  "load_ok lh \<longleftrightarrow> num_items lh < 3 * num_buckets lh \<and> (kMinNumBuckets < num_buckets lh \<longrightarrow> num_buckets lh \<le> num_items lh)"

lemma length_rebucket:
  assumes "0 < n" "n < 2 ^ 60" "\<forall>k. grants mem k"
  shows "num_buckets (lh_rebucket mem n lh) = n" "num_items (lh_rebucket mem n lh) = num_items lh"
  using assms rehash_all [of n "replicate n []" "buckets lh"]
  by (simp_all add: lh_rebucket_def Let_def bucketed_def)

lemma resize_load:
  assumes "callback_depth lh = 0" "\<forall>k. grants mem k" "kMinNumBuckets \<le> num_buckets lh" "num_buckets lh < 2 ^ 58"
    and "num_items lh \<le> 3 * num_buckets lh"
    and "kMinNumBuckets < num_buckets lh \<longrightarrow> num_buckets lh \<le> Suc (num_items lh)"
  shows "load_ok (lh_maybe_resize mem lh)"
proof -
  let ?n = "num_items lh" and ?b = "num_buckets lh"
  have b: "0 < ?b" using assms(3) by linarith
  consider (grow) "3 * ?b \<le> ?n" "2 < ?n div ?b" | (shrink) "?n < ?b" "\<not> 2 < ?n div ?b" "?n div ?b < 1" "16 < ?b"
    | (keep) "?n < 3 * ?b" "16 < ?b \<longrightarrow> ?b \<le> ?n" "\<not> 2 < ?n div ?b" "\<not> (?n div ?b < 1 \<and> 16 < ?b)"
    using less_eq_div_iff_mult_less_eq [OF b, of 3 ?n] div_less_iff_less_mult [OF b, of ?n 1] by fastforce
  then show ?thesis
  proof cases
    case grow
    then have "lh_maybe_resize mem lh = lh_rebucket mem (2 * ?b) lh"
      using assms(1,3,4) b by (simp add: lh_maybe_resize_def Let_def mult.commute)
    then show ?thesis using length_rebucket [of "2 * ?b" mem lh] grow assms b by (simp add: load_ok_def)
  next
    case shrink
    let ?m = "if ?b div 2 < 16 then 16 else ?b div 2"
    have "lh_maybe_resize mem lh = lh_rebucket mem ?m lh"
      using shrink assms(1) by (simp add: lh_maybe_resize_def Let_def)
    then show ?thesis
      using length_rebucket [of ?m mem lh] shrink assms(2,4,6) by (auto simp: load_ok_def)
  next
    case keep
    then have "lh_maybe_resize mem lh = lh" unfolding lh_maybe_resize_def Let_def by argo
    then show ?thesis using keep by (simp add: load_ok_def)
  qed
qed

text \<open>C18: outside of an iteration, if every allocation is granted and the array has fewer than \<open>2 ^ 58\<close> buckets,
  an insertion or a deletion keeps the average chain length below three and, for an array above the minimal size, the
  number of buckets at most that of the items, by at most one resize. (During an iteration the table is not resized, and
  a resize for which there is no memory is skipped, so that neither bound holds then.)\<close>

theorem lh_load_bounded:
  assumes "key_funcs f" and "lh_wf f lh" and "callback_depth lh = 0" and "\<forall>k. grants mem k" and "load_ok lh"
    and "num_buckets lh < 2 ^ 58"
  shows "load_ok (snd (snd (lh_insert f mem d lh))) \<and> load_ok (snd (lh_delete f mem d lh))"
proof -
  have sixteen: "16 \<le> num_buckets lh" using assms(2) by (simp add: lh_wf_def)
  have resize: "load_ok (lh_maybe_resize mem (set_chain b c (lh\<lparr>num_items := n\<rparr>)))"
    if "n \<le> Suc (num_items lh)" "num_items lh \<le> Suc n" for b c n
    using that assms(3-6) sixteen by (intro resize_load) (auto simp: load_ok_def)
  have keep: "load_ok (set_chain b c lh)" for b c using assms(5) by (simp add: load_ok_def)
  have "load_ok (snd (snd (lh_insert f mem d lh)))"
    using found_or_not [OF assms(1,2), of d] resize keep assms(5)
    by (simp add: lh_insert_def get_next_eq item_at_def Let_def split: option.split)
  moreover have "load_ok (snd (lh_delete f mem d lh))"
    using resize assms(5)
    by (simp add: lh_delete_def Let_def split: option.split)
  ultimately show ?thesis by blast
qed

theorem lh_load_bounded_witness:
  "load_ok (snd (snd (lh_insert mod7 (block 100) 8 empty_table))) \<and> load_ok (snd (lh_delete mod7 (block 0) 8 empty_table))"
proof -
  have "load_ok empty_table" by (simp add: load_ok_def empty_table_def)
  moreover have "num_buckets empty_table < 2 ^ 58" "callback_depth empty_table = 0" by (simp_all add: empty_table_def)
  ultimately have "load_ok (snd (snd (lh_insert mod7 (block 100) 8 empty_table)))"
    "load_ok (snd (lh_delete mod7 (block 0) 8 empty_table))"
    using lh_load_bounded [OF key_funcs_mod7 conjunct1 [OF lh_new_map [OF empty_table]]] by simp_all
  then show ?thesis ..
qed

section \<open>Iteration\<close>

lemma keyed_split:
  assumes "keyed f (mset (xs @ i # ys))" and "j \<in> set xs \<union> set ys"
  shows "iaddr j \<noteq> iaddr i" and "comp f (idata j) (idata i) \<noteq> 0"
proof -
  have "count (mset (xs @ i # ys)) i = 1" using assms(1) by (simp add: keyed_def)
  then have "count (mset xs) i + count (mset ys) i = 0" by simp
  then have "j \<noteq> i" using assms(2) by auto
  moreover have "iaddr j = iaddr i \<or> comp f (idata j) (idata i) = 0 \<longrightarrow> j = i"
    using assms unfolding keyed_def by auto
  ultimately show "iaddr j \<noteq> iaddr i" "comp f (idata j) (idata i) \<noteq> 0" by blast+
qed

lemma items_split:
  assumes "b < num_buckets lh" and "buckets lh ! b = pre @ i # post"
  shows "items lh = (concat (take b (buckets lh)) @ pre) @ i # (post @ concat (drop (Suc b) (buckets lh)))"
proof -
  have "buckets lh = take b (buckets lh) @ (pre @ i # post) # drop (Suc b) (buckets lh)"
    using id_take_nth_drop [OF assms(1)] assms(2) by simp
  then show ?thesis unfolding items_def by (metis append.assoc append_Cons concat.simps(2) concat_append)
qed

lemma chain_from_eq:
  assumes "lh_wf f lh" and "b < num_buckets lh" and "buckets lh ! b = pre @ i # post"
  shows "chain_from (iaddr i) lh = Some (i # post)"
proof -
  have "keyed f (mset (items lh))" using assms(1) by (simp add: lh_wf_def)
  note other = keyed_split(1) [OF this [unfolded items_split [OF assms(2,3)]]]
  have "\<forall>c \<in> set (take b (buckets lh)). \<forall>j \<in> set c. iaddr j \<noteq> iaddr i" using other by auto
  then have "dropWhile (\<lambda>c. \<forall>j \<in> set c. iaddr j \<noteq> iaddr i)
      (take b (buckets lh) @ (pre @ i # post) # drop (Suc b) (buckets lh)) = (pre @ i # post) # drop (Suc b) (buckets lh)"
    by (subst dropWhile_append2) auto
  moreover have "take b (buckets lh) @ (pre @ i # post) # drop (Suc b) (buckets lh) = buckets lh"
    using id_take_nth_drop [OF assms(2)] assms(3) by simp
  moreover have "dropWhile (\<lambda>j. iaddr j \<noteq> iaddr i) (pre @ i # post) = i # post"
    using other by (subst dropWhile_append2) auto
  ultimately show ?thesis by (simp add: chain_from_def)
qed

text \<open>Deleting an item during an iteration takes just that item out of its chain.\<close>

lemma delete_item:
  assumes "key_funcs f" and "lh_wf f lh" and "callback_depth lh \<noteq> 0"
    and "b < num_buckets lh" and "buckets lh ! b = pre @ i # post"
  shows "lh_delete f mem (idata i) lh =
    (idata i, set_chain b (pre @ post) (lh\<lparr>num_items := num_items lh - 1\<rparr>))"
proof -
  have i: "i \<in> set (items lh)" by (simp add: items_split [OF assms(4,5)])
  have keyed: "keyed f (mset (items lh))" using assms(2) by (simp add: lh_wf_def)
  note other = keyed_split(2) [OF this [unfolded items_split [OF assms(4,5)]]]
  have "unat (ihash i) mod num_buckets lh = b"
    using assms(2,4,5) by (simp add: lh_wf_def bucketed_def)
  moreover have "ihash i = hash f (idata i)" using keyed i by (simp add: keyed_def)
  ultimately have bucket: "bucket_of f lh (idata i) = b" by (simp add: bucket_of_def)
  have "chain_pos (comp f) (idata i) (xs @ i # post) = length xs" if "set xs \<subseteq> set pre" for xs
    using that other comp_refl [OF assms(1)] by (induction xs) auto
  then have "chain_pos (comp f) (idata i) (buckets lh ! b) = length pre" unfolding assms(5) by simp
  then show ?thesis
    using assms(3,5)
    by (simp add: lh_delete_def get_next_eq item_at_def Let_def bucket lh_maybe_resize_def word_neq_0_conv)
qed

text \<open>The callback that looks at every element and deletes those that satisfy \<open>P\<close>, the use that
  \<open>lh_doall\<close> allows for.\<close>

definition visit_and_delete :: "lh_funcs \<Rightarrow> lh_mem \<Rightarrow> (pointer \<Rightarrow> bool) \<Rightarrow> pointer list callback" where
  "visit_and_delete f mem P d s = (if P d then snd (lh_delete f mem d (fst s)) else fst s, snd s @ [d])"

definition survivors :: "(pointer \<Rightarrow> bool) \<Rightarrow> lh_item list \<Rightarrow> lh_item list" where
  "survivors P c = filter (\<lambda>i. \<not> P (idata i)) c"

definition deleted :: "(pointer \<Rightarrow> bool) \<Rightarrow> lh_item list \<Rightarrow> nat" where
  "deleted P c = length (filter (\<lambda>i. P (idata i)) c)"

lemma doall_chain_visits:
  assumes "key_funcs f"
  shows "lh_wf f lh \<Longrightarrow> callback_depth lh \<noteq> 0 \<Longrightarrow> b < num_buckets lh \<Longrightarrow> buckets lh ! b = pre @ post \<Longrightarrow>
    length post \<le> n \<Longrightarrow>
    \<exists>lh'. doall_chain n (visit_and_delete f mem P) (head_addr post) (lh, log) =
        Ok () (lh', log @ map idata post) \<and> lh_wf f lh' \<and>
      lh' = set_chain b (pre @ survivors P post) (lh\<lparr>num_items := num_items lh - deleted P post\<rparr>)"
proof (induction post arbitrary: pre lh n log)
  case Nil
  have "set_chain b pre (lh\<lparr>num_items := num_items lh\<rparr>) = lh"
  proof -
    have "pre = buckets lh ! b" using Nil(4) by simp
    then show ?thesis by (simp add: set_chain_def)
  qed
  then show ?case using Nil by (simp add: doall_chain.simps head_addr_def survivors_def deleted_def)
next
  case (Cons i post)
  then obtain m where n: "n = Suc m" "length post \<le> m" by (cases n) auto
  have i: "i \<in> set (items lh)" by (simp add: items_split [OF Cons.prems(3,4)])
  then have "iaddr i \<noteq> 0" using Cons.prems(1) by (simp add: lh_wf_def keyed_def)
  then have step: "doall_chain n g (head_addr (i # post)) (lh, log) =
      doall_chain m g (head_addr post) (g (idata i) (lh, log))" for g :: "pointer list callback"
    using chain_from_eq [OF Cons.prems(1,3,4)] n(1)
    by (simp add: doall_chain.simps [of "Suc m"] head_addr_def [of "i # post"])
  show ?case
  proof (cases "P (idata i)")
    case False
    then have "visit_and_delete f mem P (idata i) (lh, log) = (lh, log @ [idata i])"
      by (simp add: visit_and_delete_def)
    moreover have "buckets lh ! b = (pre @ [i]) @ post" using Cons.prems(4) by simp
    ultimately show ?thesis
      using Cons.IH [OF Cons.prems(1-3), of "pre @ [i]" m "log @ [idata i]"] n(2) False
      by (simp add: step survivors_def deleted_def)
  next
    case True
    let ?t = "set_chain b (pre @ post) (lh\<lparr>num_items := num_items lh - 1\<rparr>)"
    note del = delete_item [OF assms Cons.prems(1-4)]
    have wf: "lh_wf f ?t" using lh_delete_map(1) [OF assms Cons.prems(1) del] .
    have "visit_and_delete f mem P (idata i) (lh, log) = (?t, log @ [idata i])"
      using True by (simp add: visit_and_delete_def del)
    moreover have "callback_depth ?t \<noteq> 0" "b < num_buckets ?t" "buckets ?t ! b = pre @ post"
      using Cons.prems(2,3) by simp_all
    moreover have "set_chain b c (?t\<lparr>num_items := num_items ?t - deleted P post\<rparr>) =
        set_chain b c (lh\<lparr>num_items := num_items lh - Suc (deleted P post)\<rparr>)" for c
      by (simp add: set_chain_def)
    ultimately show ?thesis
      using Cons.IH [OF wf, of pre m "log @ [idata i]"] n(2) True
      by (simp add: step survivors_def deleted_def)
  qed
qed

lemma doall_buckets_visits:
  assumes "key_funcs f"
  shows "lh_wf f lh \<Longrightarrow> callback_depth lh \<noteq> 0 \<Longrightarrow> \<forall>c \<in> set (buckets lh). length c \<le> n \<Longrightarrow>
    num_buckets lh - i \<le> k \<Longrightarrow> i \<le> num_buckets lh \<Longrightarrow>
    \<exists>lh'. doall_buckets n k (visit_and_delete f mem P) i (lh, log) =
        Ok () (lh', log @ map idata (concat (drop i (buckets lh)))) \<and> lh_wf f lh' \<and>
      buckets lh' = take i (buckets lh) @ map (survivors P) (drop i (buckets lh)) \<and>
      callback_depth lh' = callback_depth lh"
proof (induction k arbitrary: i lh log)
  case 0
  then show ?case by (simp add: doall_buckets.simps [of _ 0])
next
  case (Suc k)
  show ?case
  proof (cases "i < num_buckets lh")
    case False
    then show ?thesis using Suc.prems by (simp add: doall_buckets.simps)
  next
    case True
    let ?c = "buckets lh ! i"
    have "length ?c \<le> n" using Suc.prems(3) True by simp
    then obtain lh1 where lh1: "doall_chain n (visit_and_delete f mem P) (head_addr ?c) (lh, log) =
        Ok () (lh1, log @ map idata ?c)" "lh_wf f lh1"
      "lh1 = set_chain i (survivors P ?c) (lh\<lparr>num_items := num_items lh - deleted P ?c\<rparr>)"
      using doall_chain_visits [OF assms Suc.prems(1,2) True, of "[]" ?c n mem P log] by auto
    have bs: "buckets lh1 = (buckets lh)[i := survivors P ?c]" "callback_depth lh1 = callback_depth lh"
      by (simp_all add: lh1(3))
    have "length (survivors P ?c) \<le> n"
      using \<open>length ?c \<le> n\<close> by (simp add: survivors_def le_trans [OF length_filter_le])
    then have "\<forall>c \<in> set (buckets lh1). length c \<le> n"
      using Suc.prems(3) set_update_subset_insert [of "buckets lh" i "survivors P ?c"] unfolding bs by blast
    then obtain lh' where lh': "doall_buckets n k (visit_and_delete f mem P) (Suc i) (lh1, log @ map idata ?c) =
        Ok () (lh', (log @ map idata ?c) @ map idata (concat (drop (Suc i) (buckets lh1))))" "lh_wf f lh'"
      "buckets lh' = take (Suc i) (buckets lh1) @ map (survivors P) (drop (Suc i) (buckets lh1))"
      "callback_depth lh' = callback_depth lh1"
      using Suc.IH [OF lh1(2), of "Suc i" "log @ map idata ?c"] Suc.prems(2,4) True bs by force
    have drop: "drop i (buckets lh) = ?c # drop (Suc i) (buckets lh)" using True by (simp add: Cons_nth_drop_Suc)
    have "take (Suc i) (buckets lh1) = take i (buckets lh) @ [survivors P ?c]"
      using True unfolding bs by (simp add: take_Suc_conv_app_nth)
    then show ?thesis
      using lh' True bs lh1(1) by (simp add: doall_buckets.simps [of n "Suc k"] drop)
  qed
qed

lemma length_chain_le: "c \<in> set bs \<Longrightarrow> length c \<le> length (concat bs)"
  by (induction bs) auto



end
