(* ===== verification/Pool.thy ===== *)
theory Pool
  imports Cbb Lhash_Spec
begin

text \<open>
  The pool of shared, reference-counted buffers, \<open>crypto/pool/pool.c\<close>, with the counters of
  \<open>crypto/refcount_lock.c\<close>. Threads run concurrently: a section that holds the lock of the pool and an
  update of a counter are one step each, everything else interleaves. A step without a successor
  state (\<open>None\<close>) is a crash: an access to freed memory, a failed assertion or an abort.
\<close>

section \<open>Reference counts\<close>

abbreviation (input) CRYPTO_REFCOUNT_MAX :: u32 where "CRYPTO_REFCOUNT_MAX \<equiv> 0xFFFFFFFF"

definition CRYPTO_refcount_inc :: "u32 \<Rightarrow> u32" where
  "CRYPTO_refcount_inc n = (if n < CRYPTO_REFCOUNT_MAX then n + 1 else n)"

text \<open>\<open>None\<close> is \<open>abort\<close>.\<close>

definition CRYPTO_refcount_dec_and_test_zero :: "u32 \<Rightarrow> (bool \<times> u32) option" where
  "CRYPTO_refcount_dec_and_test_zero n =
     (if n = 0 then None
      else let n = (if n < CRYPTO_REFCOUNT_MAX then n - 1 else n) in Some (n = 0, n))"

section \<open>Buffers\<close>

text \<open>The length is that of the data; the only thing that matters of the \<open>pool\<close> pointer is whether it
  is \<open>NULL\<close>.\<close>

record crypto_buffer =
  has_pool :: bool
  bdata :: "byte list"
  references :: u32

type_synonym buffers = "pointer \<Rightarrow> crypto_buffer option"

definition CRYPTO_BUFFER_hash :: "byte list \<Rightarrow> u32" where
  "CRYPTO_BUFFER_hash data = OPENSSL_hash32 data"

definition CRYPTO_BUFFER_cmp :: "byte list \<Rightarrow> byte list \<Rightarrow> int" where
  "CRYPTO_BUFFER_cmp a b = (if length a \<noteq> length b then 1 else memcmp a b)"

definition contents :: "buffers \<Rightarrow> pointer \<Rightarrow> byte list" where
  "contents h a = (case h a of None \<Rightarrow> [] | Some b \<Rightarrow> bdata b)"

text \<open>The functions of the table read the buffers.\<close>

definition pool_funcs :: "buffers \<Rightarrow> lh_funcs" where
  "pool_funcs h = \<lparr>comp = (\<lambda>a b. CRYPTO_BUFFER_cmp (contents h a) (contents h b)),
     hash = (\<lambda>a. CRYPTO_BUFFER_hash (contents h a))\<rparr>"

text \<open>A search reads the buffers of a chain.\<close>

definition chain_live :: "buffers \<Rightarrow> lhash \<Rightarrow> pointer \<Rightarrow> bool" where
  "chain_live h lh k \<longleftrightarrow> h k \<noteq> None \<and>
     (\<forall>i \<in> set (buckets lh ! fst (fst (get_next_ptr_and_hash (pool_funcs h) lh k))). h (idata i) \<noteq> None)"

section \<open>The operations\<close>

text \<open>Where a thread is: outside of the functions, in \<open>CRYPTO_BUFFER_new\<close> after the first search, after
  it has made its buffer, or after the second search when it has to discard it, in
  \<open>CRYPTO_BUFFER_free\<close> when it has to release the buffer.\<close>

datatype pool_pc =
    Outside
  | Allocating "byte list"
  | Inserting pointer
  | Discarding pointer
  | Releasing pointer

text \<open>\<open>handles\<close> are the references that the callers own.\<close>

record pool_state =
  pool_bufs :: lhash
  pool_heap :: buffers
  pool_threads :: "nat \<Rightarrow> pool_pc"
  handles :: "pointer multiset"

definition CRYPTO_BUFFER_POOL_new :: "bool \<Rightarrow> (nat \<Rightarrow> bool) \<Rightarrow> pool_state option" where
  "CRYPTO_BUFFER_POOL_new pool_granted granted =
     (if \<not> pool_granted then None
      else case lh_new granted of None \<Rightarrow> None
      | Some lh \<Rightarrow> Some \<lparr>pool_bufs = lh, pool_heap = (\<lambda>_. None), pool_threads = (\<lambda>_. Outside), handles = {#}\<rparr>)"

definition add_reference :: "pointer \<Rightarrow> pool_state \<Rightarrow> pool_state option" where
  "add_reference p s = (case pool_heap s p of None \<Rightarrow> None
     | Some b \<Rightarrow> Some (s\<lparr>pool_heap := (pool_heap s)(p \<mapsto> b\<lparr>references := CRYPTO_refcount_inc (references b)\<rparr>),
         handles := add_mset p (handles s)\<rparr>))"

definition goto :: "nat \<Rightarrow> pool_pc \<Rightarrow> pool_state \<Rightarrow> pool_state" where
  "goto t pc s = s\<lparr>pool_threads := (pool_threads s)(t := pc)\<rparr>"

text \<open>The first section of \<open>CRYPTO_BUFFER_new\<close>, under the read lock; \<open>tmp\<close> is on the stack.\<close>

definition new_search :: "nat \<Rightarrow> pointer \<Rightarrow> byte list \<Rightarrow> pool_state \<Rightarrow> pool_state option" where
  "new_search t tmp data s =
     (let h = (pool_heap s)(tmp \<mapsto> \<lparr>has_pool = False, bdata = data, references = 0\<rparr>) in
      if \<not> chain_live h (pool_bufs s) tmp then None
      else let duplicate = lh_retrieve (pool_funcs h) (pool_bufs s) tmp in
        if duplicate \<noteq> 0 then add_reference duplicate s else Some (goto t (Allocating data) s))"

text \<open>The new buffer, at a block that \<open>OPENSSL_malloc\<close> returned.\<close>

definition new_buffer :: "pointer \<Rightarrow> bool \<Rightarrow> byte list \<Rightarrow> pool_state \<Rightarrow> pool_state" where
  "new_buffer a pooled data s =
     s\<lparr>pool_heap := (pool_heap s)(a \<mapsto> \<lparr>has_pool = pooled, bdata = data, references = 1\<rparr>)\<rparr>"

text \<open>The second section, under the write lock.\<close>

definition new_insert :: "nat \<Rightarrow> lh_mem \<Rightarrow> pointer \<Rightarrow> pool_state \<Rightarrow> pool_state option" where
  "new_insert t mem buffer s = (let f = pool_funcs (pool_heap s) in
     if \<not> chain_live (pool_heap s) (pool_bufs s) buffer then None
     else let duplicate = lh_retrieve f (pool_bufs s) buffer in
       if duplicate = 0 then
         (case lh_insert f mem buffer (pool_bufs s) of
           (old, inserted, lh) \<Rightarrow>
             if old \<noteq> 0 then None
             else if inserted then Some (goto t Outside (s\<lparr>pool_bufs := lh, handles := add_mset buffer (handles s)\<rparr>))
             else Some (goto t (Discarding buffer) (s\<lparr>pool_bufs := lh\<rparr>)))
       else map_option (goto t (Discarding buffer)) (add_reference duplicate s))"

definition release_buffer :: "nat \<Rightarrow> pointer \<Rightarrow> pool_state \<Rightarrow> pool_state option" where
  "release_buffer t p s = (case pool_heap s p of None \<Rightarrow> None
     | Some _ \<Rightarrow> Some (goto t Outside (s\<lparr>pool_heap := (pool_heap s)(p := None)\<rparr>)))"

text \<open>\<open>CRYPTO_BUFFER_free\<close> up to the release: the caller gives up its reference.\<close>

definition CRYPTO_BUFFER_free :: "nat \<Rightarrow> lh_mem \<Rightarrow> pointer \<Rightarrow> pool_state \<Rightarrow> pool_state option" where
  "CRYPTO_BUFFER_free t mem p s = (case pool_heap s p of None \<Rightarrow> None
     | Some b \<Rightarrow> (case CRYPTO_refcount_dec_and_test_zero (references b) of None \<Rightarrow> None
       | Some (zero, n) \<Rightarrow>
           let s = s\<lparr>pool_heap := (pool_heap s)(p \<mapsto> b\<lparr>references := n\<rparr>), handles := handles s - {#p#}\<rparr> in
           if \<not> zero then Some s
           else if \<not> has_pool b then Some (goto t (Releasing p) s)
           else if \<not> chain_live (pool_heap s) (pool_bufs s) p then None
           else (case lh_delete (pool_funcs (pool_heap s)) mem p (pool_bufs s) of
             (found, lh) \<Rightarrow> if found \<noteq> p then None else Some (goto t (Releasing p) (s\<lparr>pool_bufs := lh\<rparr>)))))"

definition CRYPTO_BUFFER_up_ref :: "pointer \<Rightarrow> pool_state \<Rightarrow> pool_state option" where
  "CRYPTO_BUFFER_up_ref p s = add_reference p s"

definition CRYPTO_BUFFER_data :: "pointer \<Rightarrow> pool_state \<Rightarrow> byte list option" where
  "CRYPTO_BUFFER_data p s = map_option bdata (pool_heap s p)"

definition CRYPTO_BUFFER_len :: "pointer \<Rightarrow> pool_state \<Rightarrow> nat option" where
  "CRYPTO_BUFFER_len p s = map_option length (CRYPTO_BUFFER_data p s)"

definition CRYPTO_BUFFER_init_CBS :: "pointer \<Rightarrow> pool_state \<Rightarrow> cbs option" where
  "CRYPTO_BUFFER_init_CBS p s = map_option (\<lambda>d. CBS_init d (length d)) (CRYPTO_BUFFER_data p s)"

section \<open>Interleaving\<close>

text \<open>One step of some thread. The blocks of memory that it gets are new ones.\<close>

inductive pool_step :: "pool_state \<Rightarrow> pool_state option \<Rightarrow> bool" where
  search: "pool_threads s t = Outside \<Longrightarrow> pool_heap s tmp = None \<Longrightarrow> tmp \<noteq> 0 \<Longrightarrow>
    pool_step s (new_search t tmp data s)"
| alloc_fails: "pool_threads s t = Allocating data \<Longrightarrow> pool_step s (Some (goto t Outside s))"
| alloc: "pool_threads s t = Allocating data \<Longrightarrow> pool_heap s a = None \<Longrightarrow> a \<noteq> 0 \<Longrightarrow>
    pool_step s (Some (goto t (Inserting a) (new_buffer a True data s)))"
| insert: "pool_threads s t = Inserting a \<Longrightarrow> fresh_item mem (pool_bufs s) \<Longrightarrow> pool_step s (new_insert t mem a s)"
| discard: "pool_threads s t = Discarding a \<Longrightarrow> pool_step s (release_buffer t a s)"
| without_pool: "pool_heap s a = None \<Longrightarrow> a \<noteq> 0 \<Longrightarrow>
    pool_step s (Some (new_buffer a False data (s\<lparr>handles := add_mset a (handles s)\<rparr>)))"
| up_ref: "p \<in># handles s \<Longrightarrow> pool_step s (CRYPTO_BUFFER_up_ref p s)"
| free: "pool_threads s t = Outside \<Longrightarrow> p \<in># handles s \<Longrightarrow> pool_step s (CRYPTO_BUFFER_free t mem p s)"
| release: "pool_threads s t = Releasing p \<Longrightarrow> pool_step s (release_buffer t p s)"
| get_data: "p \<in># handles s \<Longrightarrow> pool_step s (map_option (\<lambda>_. s) (CRYPTO_BUFFER_data p s))"

inductive pool_reachable :: "pool_state option \<Rightarrow> bool" where
  start: "CRYPTO_BUFFER_POOL_new pool_granted granted = Some s \<Longrightarrow> pool_reachable (Some s)"
| next_state: "pool_reachable (Some s) \<Longrightarrow> pool_step s r \<Longrightarrow> pool_reachable r"

end
