(* ===== verification/Pool_Safe.thy ===== *)
theory Pool_Safe
  imports Pool
begin

text \<open>
  Safety of the buffer pool under every interleaving: no access to freed memory, no failed
  assertion, counters that count the references, at most one pooled buffer per contents, and no leak.
\<close>

section \<open>The functions of the table\<close>

lemma CRYPTO_BUFFER_cmp_eq_0: "CRYPTO_BUFFER_cmp a b = 0 \<longleftrightarrow> a = b"
  by (auto simp: CRYPTO_BUFFER_cmp_def memcmp_eq_0)

lemma pool_funcs_simps [simp]:
  "comp (pool_funcs h) a b = 0 \<longleftrightarrow> contents h a = contents h b"
  "hash (pool_funcs h) a = CRYPTO_BUFFER_hash (contents h a)"
  by (simp_all add: pool_funcs_def CRYPTO_BUFFER_cmp_eq_0)

lemma key_funcs_pool: "key_funcs (pool_funcs h)"
  by (simp add: key_funcs_def)

definition stored :: "lhash \<Rightarrow> pointer set" where
  "stored lh = idata ` set (items lh)"

lemma stored_iff:
  assumes "key_funcs f" "lh_wf f lh"
  shows "d \<in> stored lh \<longleftrightarrow> lh_map f lh d = Some d"
proof -
  have "keyed f (mset (items lh))" using assms(2) by (simp add: lh_wf_def)
  from lh_map_Some(1) [OF assms(1) this] show ?thesis
    unfolding stored_def using comp_refl [OF assms(1)] by auto
qed

lemma lh_map_stored:
  assumes "key_funcs f" "lh_wf f lh" "lh_map f lh k = Some d"
  shows "d \<in> stored lh" "d \<noteq> 0" "comp f d k = 0"
  using lh_map_Some(1) [OF assms(1), of lh k d] assms by (auto simp: stored_def lh_wf_def keyed_def)

text \<open>Changes of the heap that keep the contents of the stored buffers do not matter.\<close>

lemma wf_contents:
  assumes "lh_wf (pool_funcs h) lh" and "\<forall>a \<in> stored lh. contents h' a = contents h a"
  shows "lh_wf (pool_funcs h') lh"
proof -
  have "contents h' (idata i) = contents h (idata i)" if "i \<in># mset (items lh)" for i
    using assms(2) that by (simp add: stored_def)
  then have "keyed (pool_funcs h') (mset (items lh)) = keyed (pool_funcs h) (mset (items lh))"
    unfolding keyed_def by simp
  then show ?thesis using assms(1) by (simp add: lh_wf_def)
qed

lemma lh_map_contents:
  assumes "lh_wf (pool_funcs h) lh" and "\<forall>a \<in> stored lh. contents h' a = contents h a" and "contents h' k' = contents h k"
  shows "lh_map (pool_funcs h') lh k' = lh_map (pool_funcs h) lh k"
  unfolding lh_map_def using assms(2,3)
  by (intro arg_cong [of _ _ "map_option idata"] find_cong) (simp_all add: stored_def)

section \<open>Invariant\<close>

text \<open>A buffer that only one thread knows of: not yet inserted, to be discarded or to be released.\<close>

primrec held :: "pool_pc \<Rightarrow> pointer option" where
  "held Outside = None"
| "held (Allocating data) = None"
| "held (Inserting a) = Some a"
| "held (Discarding a) = Some a"
| "held (Releasing a) = Some a"

definition owned :: "pool_state \<Rightarrow> pointer \<Rightarrow> bool" where
  "owned s a \<longleftrightarrow> (\<exists>t. held (pool_threads s t) = Some a)"

text \<open>The counter of a buffer with \<open>n\<close> references: it counts them, or it is saturated.\<close>

definition counts :: "u32 \<Rightarrow> nat \<Rightarrow> bool" where
  "counts c n \<longleftrightarrow> c = CRYPTO_REFCOUNT_MAX \<or> unat c = n \<and> 0 < n"

definition pool_inv :: "pool_state \<Rightarrow> bool" where
  "pool_inv s \<longleftrightarrow> lh_wf (pool_funcs (pool_heap s)) (pool_bufs s) \<and>
     (\<forall>a. a \<in> stored (pool_bufs s) \<longleftrightarrow> (\<exists>b. pool_heap s a = Some b \<and> has_pool b) \<and> \<not> owned s a) \<and>
     (\<forall>p \<in># handles s. pool_heap s p \<noteq> None \<and> \<not> owned s p) \<and>
     (\<forall>a b. pool_heap s a = Some b \<longrightarrow> \<not> owned s a \<longrightarrow> counts (references b) (count (handles s) a)) \<and>
     (\<forall>a. owned s a \<longrightarrow> pool_heap s a \<noteq> None) \<and>
     (\<forall>t t' a. held (pool_threads s t) = Some a \<and> held (pool_threads s t') = Some a \<longrightarrow> t = t') \<and>
     pool_heap s 0 = None \<and>
     (\<forall>t a b. pool_threads s t = Inserting a \<longrightarrow> pool_heap s a = Some b \<longrightarrow> has_pool b \<and> references b = 1)"

lemma pool_invD:
  assumes "pool_inv s"
  shows inv_wf: "lh_wf (pool_funcs (pool_heap s)) (pool_bufs s)"
    and inv_stored: "a \<in> stored (pool_bufs s) \<longleftrightarrow> (\<exists>b. pool_heap s a = Some b \<and> has_pool b) \<and> \<not> owned s a"
    and inv_handle: "p \<in># handles s \<Longrightarrow> pool_heap s p \<noteq> None \<and> \<not> owned s p"
    and inv_counts: "pool_heap s a = Some b \<Longrightarrow> \<not> owned s a \<Longrightarrow> counts (references b) (count (handles s) a)"
    and inv_owned: "owned s a \<Longrightarrow> pool_heap s a \<noteq> None"
    and inv_unique: "held (pool_threads s t) = Some a \<Longrightarrow> held (pool_threads s t') = Some a \<Longrightarrow> t = t'"
    and inv_null: "pool_heap s 0 = None"
    and inv_inserting: "pool_threads s t = Inserting a \<Longrightarrow> pool_heap s a = Some b \<Longrightarrow> has_pool b \<and> references b = 1"
  using assms unfolding pool_inv_def by blast+

lemma pool_invI:
  assumes "lh_wf (pool_funcs (pool_heap s)) (pool_bufs s)"
    and "\<And>a. a \<in> stored (pool_bufs s) \<longleftrightarrow> (\<exists>b. pool_heap s a = Some b \<and> has_pool b) \<and> \<not> owned s a"
    and "\<And>p. p \<in># handles s \<Longrightarrow> pool_heap s p \<noteq> None \<and> \<not> owned s p"
    and "\<And>a b. pool_heap s a = Some b \<Longrightarrow> \<not> owned s a \<Longrightarrow> counts (references b) (count (handles s) a)"
    and "\<And>a. owned s a \<Longrightarrow> pool_heap s a \<noteq> None"
    and "\<And>t t' a. held (pool_threads s t) = Some a \<Longrightarrow> held (pool_threads s t') = Some a \<Longrightarrow> t = t'"
    and "pool_heap s 0 = None"
    and "\<And>t a b. pool_threads s t = Inserting a \<Longrightarrow> pool_heap s a = Some b \<Longrightarrow> has_pool b \<and> references b = 1"
  shows "pool_inv s"
  using assms unfolding pool_inv_def by blast

lemma ownedI: "pool_threads s t = Inserting a \<Longrightarrow> owned s a"
  unfolding owned_def by (rule exI [of _ t]) simp

lemma goto_simps [simp]:
  "pool_bufs (goto t pc s) = pool_bufs s" "pool_heap (goto t pc s) = pool_heap s" "handles (goto t pc s) = handles s"
  "pool_threads (goto t pc s) = (pool_threads s)(t := pc)"
  by (simp_all add: goto_def)

lemma owned_cong: "pool_threads s' = pool_threads s \<Longrightarrow> owned s' = owned s"
  by (simp add: owned_def fun_eq_iff)

text \<open>A thread that gives up nothing owned and gets nothing owned.\<close>

lemma owned_goto_same:
  "held pc = held (pool_threads s t) \<Longrightarrow> owned (goto t pc s) = owned s"
  unfolding owned_def fun_eq_iff by (auto split: if_splits)

lemma inv_goto_same:
  assumes "pool_inv s" and "held pc = held (pool_threads s t)" and "\<forall>a. pc \<noteq> Inserting a"
  shows "pool_inv (goto t pc s)"
proof -
  have "held (pool_threads (goto t pc s) x) = held (pool_threads s x)" for x using assms(2) by simp
  then show ?thesis using assms(1,3) owned_goto_same [OF assms(2)] unfolding pool_inv_def by simp
qed

text \<open>The thread is done with its buffer.\<close>

lemma owned_goto_outside:
  assumes "pool_inv s" and "held (pool_threads s t) = Some a"
  shows "owned (goto t Outside s) x \<longleftrightarrow> owned s x \<and> x \<noteq> a"
proof -
  have "owned (goto t Outside s) x \<longleftrightarrow> (\<exists>t'. t' \<noteq> t \<and> held (pool_threads s t') = Some x)"
    by (auto simp: owned_def)
  then show ?thesis
    using inv_unique [OF assms(1)] assms(2) unfolding owned_def by (metis option.inject)
qed

section \<open>References\<close>

lemma less_REFCOUNT_MAX: "c < CRYPTO_REFCOUNT_MAX \<longleftrightarrow> c \<noteq> CRYPTO_REFCOUNT_MAX"
proof -
  have "unat c < 4294967296" using unsigned_less [of c, where 'a = nat] by simp
  then show ?thesis by (auto simp: word_less_nat_alt word_unat_eq_iff)
qed

lemma counts_inc: "counts c n \<Longrightarrow> counts (CRYPTO_refcount_inc c) (Suc n)"
  unfolding counts_def CRYPTO_refcount_inc_def less_REFCOUNT_MAX
  by (auto simp: word_unat_eq_iff [of c] unat_word_ariths(1)) (use unsigned_less [of c, where 'a = nat] in simp)

lemma counts_positive: "counts c n \<Longrightarrow> c \<noteq> 0"
  by (auto simp: counts_def)

lemma counts_dec:
  assumes "counts c n"
  obtains c' where "CRYPTO_refcount_dec_and_test_zero c = Some (c' = 0, c')"
    "c' = 0 \<longleftrightarrow> c \<noteq> CRYPTO_REFCOUNT_MAX \<and> n = 1" "c' \<noteq> 0 \<Longrightarrow> counts c' (n - 1)"
proof (cases "c = CRYPTO_REFCOUNT_MAX")
  case True
  then show thesis by (intro that [of c]) (simp_all add: CRYPTO_refcount_dec_and_test_zero_def counts_def)
next
  case False
  then have n: "unat c = n" "0 < n" using assms by (simp_all add: counts_def)
  then have dec: "unat (c - 1) = n - 1" by (subst unat_sub) (simp_all add: word_le_nat_alt)
  have less: "c < CRYPTO_REFCOUNT_MAX"
    using False less_REFCOUNT_MAX by blast
  show thesis
  proof (rule that [of "c - 1"])
    show "CRYPTO_refcount_dec_and_test_zero c = Some (c - 1 = 0, c - 1)"
      using n less by (auto simp: CRYPTO_refcount_dec_and_test_zero_def Let_def)
    show "c - 1 = 0 \<longleftrightarrow> c \<noteq> CRYPTO_REFCOUNT_MAX \<and> n = 1"
      using dec False n by (auto simp: word_unat_eq_iff)
    show "counts (c - 1) (n - 1)" if "c - 1 \<noteq> 0"
      using that dec by (auto simp: counts_def word_unat_eq_iff)
  qed
qed

section \<open>Every step keeps the invariant\<close>

lemma contents_same:
  "h a = Some b \<Longrightarrow> bdata b' = bdata b \<Longrightarrow> contents (h(a \<mapsto> b')) = contents h"
  by (auto simp: contents_def fun_eq_iff)

lemma pool_funcs_same: "contents h' = contents h \<Longrightarrow> pool_funcs h' = pool_funcs h"
  by (simp add: pool_funcs_def)

lemma inv_add_reference:
  assumes "pool_inv s" and "pool_heap s p \<noteq> None" and "\<not> owned s p"
  obtains s' where "add_reference p s = Some s'" "pool_inv s'" "pool_threads s' = pool_threads s"
proof -
  obtain b where b: "pool_heap s p = Some b" using assms(2) by blast
  then have "p \<noteq> 0" using inv_null [OF assms(1)] by (metis option.distinct(1))
  let ?b = "b\<lparr>references := CRYPTO_refcount_inc (references b)\<rparr>"
  let ?s = "s\<lparr>pool_heap := (pool_heap s)(p \<mapsto> ?b), handles := add_mset p (handles s)\<rparr>"
  have owned: "owned ?s = owned s" by (rule owned_cong) simp
  have funcs: "pool_funcs (pool_heap ?s) = pool_funcs (pool_heap s)"
    using contents_same [where h = "pool_heap s", OF b, of ?b] by (simp add: pool_funcs_def)
  have "pool_inv ?s"
  proof (rule pool_invI, unfold owned funcs)
    show "a \<in> stored (pool_bufs ?s) \<longleftrightarrow> (\<exists>b. pool_heap ?s a = Some b \<and> has_pool b) \<and> \<not> owned s a" for a
      using inv_stored [OF assms(1), of a] b by simp
    show "counts (references b') (count (handles ?s) a)" if "pool_heap ?s a = Some b'" "\<not> owned s a" for a b'
      using that inv_counts [OF assms(1), of a] b counts_inc by (auto split: if_splits)
    show "has_pool c \<and> references c = 1" if "pool_threads ?s t = Inserting a" "pool_heap ?s a = Some c" for t a c
    proof -
      have "owned s a" using that(1) by (simp add: ownedI)
      then have "a \<noteq> p" using assms(3) by blast
      then show ?thesis using that inv_inserting [OF assms(1), of t a] by simp
    qed
  qed (use assms b \<open>p \<noteq> 0\<close> inv_wf [OF assms(1)] inv_handle [OF assms(1)] inv_owned [OF assms(1)] inv_unique [OF assms(1)]
      inv_null [OF assms(1)] in \<open>auto split: if_splits\<close>)
  then show thesis using that [of ?s] b by (simp add: add_reference_def)
qed

text \<open>A chain of the table consists of stored buffers.\<close>

lemma chain_is_live:
  assumes "pool_inv s" and "h k \<noteq> None" and "\<forall>a. pool_heap s a \<noteq> None \<longrightarrow> h a \<noteq> None"
  shows "chain_live h (pool_bufs s) k"
proof -
  have wf: "lh_wf (pool_funcs (pool_heap s)) (pool_bufs s)" by (rule inv_wf [OF assms(1)])
  let ?b = "fst (fst (get_next_ptr_and_hash (pool_funcs h) (pool_bufs s) k))"
  have "?b < num_buckets (pool_bufs s)"
    using wf by (auto simp: get_next_ptr_and_hash_def Let_def lh_wf_def intro!: mod_less_divisor)
  then have "idata i \<in> stored (pool_bufs s)" if "i \<in> set (buckets (pool_bufs s) ! ?b)" for i
    using chain_items that by (auto simp: stored_def)
  then show ?thesis using inv_stored [OF assms(1)] assms(2,3) unfolding chain_live_def by blast
qed

lemma inv_search:
  assumes "pool_inv s" and "pool_threads s t = Outside" and "pool_heap s tmp = None" "tmp \<noteq> 0"
  shows "\<exists>s'. new_search t tmp data s = Some s' \<and> pool_inv s'"
proof -
  let ?h = "(pool_heap s)(tmp \<mapsto> \<lparr>has_pool = False, bdata = data, references = 0\<rparr>)"
  have live: "chain_live ?h (pool_bufs s) tmp" by (rule chain_is_live [OF assms(1)]) simp_all
  have "tmp \<notin> stored (pool_bufs s)" using inv_stored [OF assms(1), of tmp] assms(3) by simp
  then have wf: "lh_wf (pool_funcs ?h) (pool_bufs s)"
    by (intro wf_contents [OF inv_wf [OF assms(1)]]) (auto simp: contents_def)
  note look = lh_retrieve_map [OF key_funcs_pool wf, of tmp]
  show ?thesis
  proof (cases "lh_map (pool_funcs ?h) (pool_bufs s) tmp")
    case None
    then show ?thesis
      using inv_goto_same [OF assms(1), of "Allocating data" t] assms(2) live look
      by (simp add: new_search_def Let_def)
  next
    case (Some d)
    then have "d \<in> stored (pool_bufs s)" "d \<noteq> 0" using lh_map_stored [OF key_funcs_pool wf] by simp_all
    then obtain s' where "add_reference d s = Some s'" "pool_inv s'"
      using inv_add_reference [OF assms(1), of d] inv_stored [OF assms(1), of d] by auto
    then show ?thesis using live look Some \<open>d \<noteq> 0\<close> by (simp add: new_search_def Let_def)
  qed
qed

lemma inv_release:
  assumes "pool_inv s" and "pool_threads s t = Discarding a \<or> pool_threads s t = Releasing a"
  shows "\<exists>s'. release_buffer t a s = Some s' \<and> pool_inv s'"
proof -
  have held: "held (pool_threads s t) = Some a" using assms(2) by auto
  then have own: "owned s a" unfolding owned_def by blast
  then obtain b where b: "pool_heap s a = Some b" using inv_owned [OF assms(1)] by blast
  let ?s = "goto t Outside (s\<lparr>pool_heap := (pool_heap s)(a := None)\<rparr>)"
  have owned: "owned ?s x \<longleftrightarrow> owned s x \<and> x \<noteq> a" for x
    using owned_goto_outside [OF assms(1) held, of x] unfolding owned_def by simp
  have "a \<notin> stored (pool_bufs s)" using inv_stored [OF assms(1), of a] own by simp
  then have wf: "lh_wf (pool_funcs (pool_heap ?s)) (pool_bufs s)"
    by (intro wf_contents [OF inv_wf [OF assms(1)]]) (auto simp: contents_def)
  have "pool_inv ?s"
  proof (rule pool_invI, unfold owned)
    show "x \<in> stored (pool_bufs ?s) \<longleftrightarrow> (\<exists>b. pool_heap ?s x = Some b \<and> has_pool b) \<and> \<not> (owned s x \<and> x \<noteq> a)" for x
      using inv_stored [OF assms(1), of x] \<open>a \<notin> stored (pool_bufs s)\<close> by auto
    show "pool_heap ?s p \<noteq> None \<and> \<not> (owned s p \<and> p \<noteq> a)" if "p \<in># handles ?s" for p
      using that inv_handle [OF assms(1), of p] own by auto
    show "t1 = t2" if "held (pool_threads ?s t1) = Some x" "held (pool_threads ?s t2) = Some x" for t1 t2 x
      using that inv_unique [OF assms(1), of t1 x t2] by (auto split: if_splits)
    show "has_pool c \<and> references c = 1" if "pool_threads ?s t' = Inserting x" "pool_heap ?s x = Some c" for t' x c
      using that inv_inserting [OF assms(1), of t' x c] by (auto split: if_splits)
  qed (use wf inv_counts [OF assms(1)] inv_owned [OF assms(1)] inv_null [OF assms(1)] in \<open>auto split: if_splits\<close>)
  then show ?thesis using b by (simp add: release_buffer_def)
qed

text \<open>A new buffer, that a thread keeps for itself or that a caller gets without a pool.\<close>

lemma stored_live: "pool_inv s \<Longrightarrow> a \<in> stored (pool_bufs s) \<Longrightarrow> pool_heap s a \<noteq> None"
  using inv_stored by blast

lemma new_buffer_wf:
  assumes "pool_inv s" and "pool_heap s a = None" and "pool_heap s' = (pool_heap s)(a \<mapsto> b)" "pool_bufs s' = pool_bufs s"
  shows "lh_wf (pool_funcs (pool_heap s')) (pool_bufs s')" and "a \<notin> stored (pool_bufs s)"
proof -
  show new: "a \<notin> stored (pool_bufs s)" using inv_stored [OF assms(1), of a] assms(2) by simp
  then show "lh_wf (pool_funcs (pool_heap s')) (pool_bufs s')"
    unfolding assms(3,4) by (intro wf_contents [OF inv_wf [OF assms(1)]]) (auto simp: contents_def)
qed

lemma inv_alloc:
  assumes "pool_inv s" and "pool_threads s t = Allocating data" and "pool_heap s a = None" "a \<noteq> 0"
  shows "pool_inv (goto t (Inserting a) (new_buffer a True data s))"
proof -
  let ?s = "goto t (Inserting a) (new_buffer a True data s)"
  have "\<not> owned s a" using inv_owned [OF assms(1), of a] assms(3) by blast
  have owned: "owned ?s x \<longleftrightarrow> owned s x \<or> x = a" for x
    using assms(2) unfolding owned_def new_buffer_def by (auto split: if_splits) (metis held.simps(2) option.distinct(1))
  note new = new_buffer_wf [OF assms(1,3), of ?s]
  show ?thesis
  proof (rule pool_invI, unfold owned)
    show "lh_wf (pool_funcs (pool_heap ?s)) (pool_bufs ?s)" by (rule new(1)) (simp_all add: new_buffer_def)
    show "x \<in> stored (pool_bufs ?s) \<longleftrightarrow> (\<exists>b. pool_heap ?s x = Some b \<and> has_pool b) \<and> \<not> (owned s x \<or> x = a)" for x
      using inv_stored [OF assms(1), of x] assms(3) by (auto simp: new_buffer_def)
    show "pool_heap ?s p \<noteq> None \<and> \<not> (owned s p \<or> p = a)" if "p \<in># handles ?s" for p
      using that inv_handle [OF assms(1), of p] assms(3) by (auto simp: new_buffer_def)
    show "t1 = t2" if "held (pool_threads ?s t1) = Some x" "held (pool_threads ?s t2) = Some x" for t1 t2 x
      using that inv_unique [OF assms(1), of t1 x t2] \<open>\<not> owned s a\<close>
      by (auto simp: new_buffer_def owned_def split: if_splits)
    show "has_pool c \<and> references c = 1" if "pool_threads ?s t' = Inserting x" "pool_heap ?s x = Some c" for t' x c
      using that inv_inserting [OF assms(1), of t' x c] ownedI [of s t' x] \<open>\<not> owned s a\<close>
      by (auto simp: new_buffer_def split: if_splits)
  qed (use inv_counts [OF assms(1)] inv_owned [OF assms(1)] inv_null [OF assms(1)] assms(4)
      in \<open>auto simp: new_buffer_def split: if_splits\<close>)
qed

lemma inv_without_pool:
  assumes "pool_inv s" and "pool_heap s a = None" "a \<noteq> 0"
  shows "pool_inv (new_buffer a False data (s\<lparr>handles := add_mset a (handles s)\<rparr>))"
proof -
  let ?s = "new_buffer a False data (s\<lparr>handles := add_mset a (handles s)\<rparr>)"
  have owned: "owned ?s = owned s" by (rule owned_cong) (simp add: new_buffer_def)
  have fresh: "\<not> owned s a" "a \<notin># handles s"
    using inv_owned [OF assms(1), of a] inv_handle [OF assms(1), of a] assms(2) by blast+
  note new = new_buffer_wf [OF assms(1,2), of ?s]
  show ?thesis
  proof (rule pool_invI, unfold owned)
    show "lh_wf (pool_funcs (pool_heap ?s)) (pool_bufs ?s)" by (rule new(1)) (simp_all add: new_buffer_def)
    show "x \<in> stored (pool_bufs ?s) \<longleftrightarrow> (\<exists>b. pool_heap ?s x = Some b \<and> has_pool b) \<and> \<not> owned s x" for x
      using inv_stored [OF assms(1), of x] assms(2) by (auto simp: new_buffer_def)
    show "counts (references b) (count (handles ?s) x)" if "pool_heap ?s x = Some b" "\<not> owned s x" for x b
      using that inv_counts [OF assms(1), of x b] fresh
      by (auto simp: new_buffer_def counts_def not_in_iff split: if_splits)
    show "has_pool c \<and> references c = 1" if "pool_threads ?s t' = Inserting x" "pool_heap ?s x = Some c" for t' x c
      using that inv_inserting [OF assms(1), of t' x c] ownedI [of s t' x] fresh(1)
      by (auto simp: new_buffer_def split: if_splits)
  qed (use inv_handle [OF assms(1)] inv_owned [OF assms(1)] inv_unique [OF assms(1)] inv_null [OF assms(1)] assms(2,3) fresh
      in \<open>auto simp: new_buffer_def split: if_splits\<close>)
qed

text \<open>What an insertion and a deletion do to the set of the stored buffers.\<close>

lemma stored_insert:
  assumes "lh_wf (pool_funcs h) lh" "lh_wf (pool_funcs h) lh'" and "lh_map (pool_funcs h) lh a = None"
    and "lh_map (pool_funcs h) lh' = (\<lambda>k. if comp (pool_funcs h) a k = 0 then Some a else lh_map (pool_funcs h) lh k)"
  shows "x \<in> stored lh' \<longleftrightarrow> x \<in> stored lh \<or> x = a"
proof -
  have "lh_map (pool_funcs h) lh x = None" if "contents h a = contents h x"
    using lh_map_contents [OF assms(1), of h x a] assms(3) that by simp
  then show ?thesis
    using stored_iff [OF key_funcs_pool assms(1), of x] stored_iff [OF key_funcs_pool assms(2), of x]
    by (auto simp: assms(4) split: if_splits)
qed

lemma stored_delete:
  assumes "lh_wf (pool_funcs h) lh" "lh_wf (pool_funcs h) lh'" and "p \<in> stored lh"
    and "lh_map (pool_funcs h) lh' = (\<lambda>k. if comp (pool_funcs h) p k = 0 then None else lh_map (pool_funcs h) lh k)"
  shows "x \<in> stored lh' \<longleftrightarrow> x \<in> stored lh \<and> x \<noteq> p"
proof -
  have p: "lh_map (pool_funcs h) lh p = Some p" using stored_iff [OF key_funcs_pool assms(1)] assms(3) by blast
  have "lh_map (pool_funcs h) lh x = Some p" if "contents h p = contents h x"
    using lh_map_contents [OF assms(1), of h x p] p that by simp
  then show ?thesis
    using stored_iff [OF key_funcs_pool assms(1), of x] stored_iff [OF key_funcs_pool assms(2), of x]
    by (auto simp: assms(4) split: if_splits)
qed

lemma inv_insert:
  assumes "pool_inv s" and "pool_threads s t = Inserting a" and "fresh_item mem (pool_bufs s)"
  shows "\<exists>s'. new_insert t mem a s = Some s' \<and> pool_inv s'"
proof -
  let ?f = "pool_funcs (pool_heap s)" and ?lh = "pool_bufs s"
  note wf = inv_wf [OF assms(1)]
  have own: "owned s a" by (rule ownedI [OF assms(2)])
  then obtain b where b: "pool_heap s a = Some b" using inv_owned [OF assms(1)] by blast
  then have nz: "a \<noteq> 0" using inv_null [OF assms(1)] by (metis option.distinct(1))
  have pooled: "has_pool b" "references b = 1" using inv_inserting [OF assms(1,2) b] by simp_all
  have live: "chain_live (pool_heap s) ?lh a" by (rule chain_is_live [OF assms(1)]) (simp_all add: b)
  note look = lh_retrieve_map [OF key_funcs_pool wf, of a]
  show ?thesis
  proof (cases "lh_map ?f ?lh a")
    case (Some d)
    then have d: "d \<in> stored ?lh" "d \<noteq> 0" using lh_map_stored [OF key_funcs_pool wf] by simp_all
    then obtain s' where s': "add_reference d s = Some s'" "pool_inv s'" "pool_threads s' = pool_threads s"
      using inv_add_reference [OF assms(1), of d] inv_stored [OF assms(1), of d] by auto
    then have "pool_inv (goto t (Discarding a) s')"
      using assms(2) by (intro inv_goto_same) simp_all
    then show ?thesis using live look Some d(2) s'(1) by (simp add: new_insert_def Let_def)
  next
    case None
    obtain old ok lh where ins: "lh_insert ?f mem a ?lh = (old, ok, lh)" by (metis prod_cases3)
    note map = lh_insert_map [OF key_funcs_pool wf assms(3) nz ins]
    show ?thesis
    proof (cases ok)
      case False
      then have "old = 0" "lh = ?lh" using map(2) by simp_all
      then have "new_insert t mem a s = Some (goto t (Discarding a) s)"
        using live look None ins False by (simp add: new_insert_def Let_def)
      then show ?thesis using inv_goto_same [OF assms(1), of "Discarding a" t] assms(2) by simp
    next
      case True
      let ?s = "goto t Outside (s\<lparr>pool_bufs := lh, handles := add_mset a (handles s)\<rparr>)"
      have new: "new_insert t mem a s = Some ?s"
        using live look None ins True map(1) by (simp add: new_insert_def Let_def)
      have owned: "owned ?s x \<longleftrightarrow> owned s x \<and> x \<noteq> a" for x
        using owned_goto_outside [OF assms(1), of t a x] assms(2) unfolding owned_def by simp
      have stored: "x \<in> stored lh \<longleftrightarrow> x \<in> stored ?lh \<or> x = a" for x
        using map(1) True None by (intro stored_insert [OF wf]) simp_all
      have "a \<notin># handles s" using inv_handle [OF assms(1), of a] own by blast
      have "pool_inv ?s"
      proof (rule pool_invI, unfold owned)
        show "lh_wf (pool_funcs (pool_heap ?s)) (pool_bufs ?s)" using map(1) True by simp
        show "x \<in> stored (pool_bufs ?s) \<longleftrightarrow> (\<exists>b. pool_heap ?s x = Some b \<and> has_pool b) \<and> \<not> (owned s x \<and> x \<noteq> a)" for x
          using inv_stored [OF assms(1), of x] stored b pooled(1) by auto
        show "counts (references c) (count (handles ?s) x)" if "pool_heap ?s x = Some c" "\<not> (owned s x \<and> x \<noteq> a)" for x c
          using that inv_counts [OF assms(1), of x c] b pooled(2) \<open>a \<notin># handles s\<close>
          by (cases "x = a") (simp_all add: counts_def not_in_iff)
        show "pool_heap ?s p \<noteq> None \<and> \<not> (owned s p \<and> p \<noteq> a)" if "p \<in># handles ?s" for p
          using that inv_handle [OF assms(1), of p] b by auto
        show "t1 = t2" if "held (pool_threads ?s t1) = Some x" "held (pool_threads ?s t2) = Some x" for t1 t2 x
          using that inv_unique [OF assms(1), of t1 x t2] by (auto split: if_splits)
        show "has_pool c \<and> references c = 1" if "pool_threads ?s t' = Inserting x" "pool_heap ?s x = Some c" for t' x c
          using that inv_inserting [OF assms(1), of t' x c] by (auto split: if_splits)
      qed (use inv_owned [OF assms(1)] inv_null [OF assms(1)] in auto)
      then show ?thesis using new by blast
    qed
  qed
qed

text \<open>Giving up a reference.\<close>

lemma inv_free:
  assumes "pool_inv s" and "pool_threads s t = Outside" and "p \<in># handles s"
  shows "\<exists>s'. CRYPTO_BUFFER_free t mem p s = Some s' \<and> pool_inv s'"
proof -
  obtain b where b: "pool_heap s p = Some b" and mine: "\<not> owned s p" using inv_handle [OF assms(1,3)] by blast
  note wf = inv_wf [OF assms(1)]
  have nz: "p \<noteq> 0" using b inv_null [OF assms(1)] by (metis option.distinct(1))
  obtain c where c: "CRYPTO_refcount_dec_and_test_zero (references b) = Some (c = 0, c)"
    "c = 0 \<longleftrightarrow> references b \<noteq> CRYPTO_REFCOUNT_MAX \<and> count (handles s) p = 1"
    "c \<noteq> 0 \<Longrightarrow> counts c (count (handles s) p - 1)"
    using counts_dec [OF inv_counts [OF assms(1) b mine]] by blast
  let ?s = "s\<lparr>pool_heap := (pool_heap s)(p \<mapsto> b\<lparr>references := c\<rparr>), handles := handles s - {#p#}\<rparr>"
  have funcs: "pool_funcs (pool_heap ?s) = pool_funcs (pool_heap s)"
    using contents_same [where h = "pool_heap s", OF b, of "b\<lparr>references := c\<rparr>"] by (simp add: pool_funcs_def)
  have live: "chain_live (pool_heap ?s) (pool_bufs s) p"
    by (rule chain_is_live [OF assms(1)]) simp_all
  have still: "p' \<in># handles s" if "p' \<in># handles s - {#p#}" for p' using that by (rule in_diffD)
  have unowned: "owned ?s = owned s" by (rule owned_cong) simp
  show ?thesis
  proof (cases "c = 0")
    case False
    have "pool_inv ?s"
    proof (rule pool_invI, unfold unowned funcs)
      show "x \<in> stored (pool_bufs ?s) \<longleftrightarrow> (\<exists>b. pool_heap ?s x = Some b \<and> has_pool b) \<and> \<not> owned s x" for x
        using inv_stored [OF assms(1), of x] b by auto
      show "counts (references d) (count (handles ?s) x)" if "pool_heap ?s x = Some d" "\<not> owned s x" for x d
        using that inv_counts [OF assms(1), of x d] c(3) [OF False] by (auto split: if_splits)
      show "has_pool d \<and> references d = 1" if "pool_threads ?s t' = Inserting x" "pool_heap ?s x = Some d" for t' x d
        using that inv_inserting [OF assms(1), of t' x d] ownedI [of s t' x] mine by (auto split: if_splits)
    qed (use wf still inv_handle [OF assms(1)] inv_owned [OF assms(1)] inv_unique [OF assms(1)] inv_null [OF assms(1)] nz
        in \<open>auto split: if_splits\<close>)
    then show ?thesis using b c(1) False by (simp add: CRYPTO_BUFFER_free_def Let_def)
  next
    case True
    then have one: "count (handles s) p = 1" using c(2) by blast
    have last: "p \<notin># handles s - {#p#}" using one by (simp add: not_in_iff)
    have inv: "pool_inv (goto t (Releasing p) (?s\<lparr>pool_bufs := lh\<rparr>))"
      if "lh_wf (pool_funcs (pool_heap s)) lh" "\<And>x. x \<in> stored lh \<longleftrightarrow> x \<in> stored (pool_bufs s) \<and> x \<noteq> p" for lh
    proof -
      let ?t = "goto t (Releasing p) (?s\<lparr>pool_bufs := lh\<rparr>)"
      have owned: "owned ?t x \<longleftrightarrow> owned s x \<or> x = p" for x
        using assms(2) unfolding owned_def by (auto split: if_splits) (metis held.simps(1) option.distinct(1))
      have funcs': "pool_funcs (pool_heap ?t) = pool_funcs (pool_heap s)" using funcs by simp
      show ?thesis
      proof (rule pool_invI, unfold owned funcs')
        show "x \<in> stored (pool_bufs ?t) \<longleftrightarrow> (\<exists>b. pool_heap ?t x = Some b \<and> has_pool b) \<and> \<not> (owned s x \<or> x = p)" for x
          using inv_stored [OF assms(1), of x] that(2) by auto
        show "pool_heap ?t q \<noteq> None \<and> \<not> (owned s q \<or> q = p)" if "q \<in># handles ?t" for q
          using that still inv_handle [OF assms(1), of q] last by auto
        show "counts (references d) (count (handles ?t) x)" if "pool_heap ?t x = Some d" "\<not> (owned s x \<or> x = p)" for x d
          using that inv_counts [OF assms(1), of x d] by (auto split: if_splits)
        show "t1 = t2" if "held (pool_threads ?t t1) = Some x" "held (pool_threads ?t t2) = Some x" for t1 t2 x
          using that inv_unique [OF assms(1), of t1 x t2] mine by (auto simp: owned_def split: if_splits)
        show "has_pool d \<and> references d = 1" if "pool_threads ?t t' = Inserting x" "pool_heap ?t x = Some d" for t' x d
          using that inv_inserting [OF assms(1), of t' x d] ownedI [of s t' x] mine by (auto split: if_splits)
      qed (use that(1) inv_owned [OF assms(1)] inv_null [OF assms(1)] nz in \<open>auto split: if_splits\<close>)
    qed
    show ?thesis
    proof (cases "has_pool b")
      case False
      then have "p \<notin> stored (pool_bufs s)" using inv_stored [OF assms(1), of p] b by simp
      then have "pool_inv (goto t (Releasing p) (?s\<lparr>pool_bufs := pool_bufs s\<rparr>))" by (intro inv wf) auto
      then show ?thesis using b c(1) True False by (simp add: CRYPTO_BUFFER_free_def Let_def)
    next
      case pooled: True
      then have p: "p \<in> stored (pool_bufs s)" using inv_stored [OF assms(1), of p] b mine by simp
      obtain found lh where del: "lh_delete (pool_funcs (pool_heap s)) mem p (pool_bufs s) = (found, lh)" by fastforce
      note map = lh_delete_map [OF key_funcs_pool wf del]
      have "found = p" using map(2) stored_iff [OF key_funcs_pool wf, of p] p by simp
      moreover have "pool_inv (goto t (Releasing p) (?s\<lparr>pool_bufs := lh\<rparr>))"
        using stored_delete [OF wf map(1) p map(3)] by (intro inv map(1))
      ultimately show ?thesis
        using b c(1) True pooled live funcs del by (simp add: CRYPTO_BUFFER_free_def Let_def)
    qed
  qed
qed

section \<open>Reachable states\<close>

lemma inv_start:
  assumes "CRYPTO_BUFFER_POOL_new pool_granted granted = Some s"
  shows "pool_inv s"
proof -
  obtain lh where lh: "lh_new granted = Some lh"
    and s: "s = \<lparr>pool_bufs = lh, pool_heap = (\<lambda>_. None), pool_threads = (\<lambda>_. Outside), handles = {#}\<rparr>"
    using assms by (auto simp: CRYPTO_BUFFER_POOL_new_def split: if_splits option.splits)
  have "stored lh = {}" using lh by (auto simp: lh_new_def stored_def items_def split: if_splits)
  then show ?thesis using lh_new_map [OF lh] by (simp add: s pool_inv_def owned_def)
qed

lemma inv_step:
  assumes "pool_step s r" and "pool_inv s"
  shows "\<exists>s'. r = Some s' \<and> pool_inv s'"
  using assms
proof cases
  case (up_ref p)
  then show ?thesis
    using inv_add_reference [OF assms(2), of p] inv_handle [OF assms(2), of p]
    by (auto simp: CRYPTO_BUFFER_up_ref_def)
next
  case (get_data p)
  then show ?thesis using inv_handle [OF assms(2), of p] assms(2) by (auto simp: CRYPTO_BUFFER_data_def)
qed (use assms(2) in \<open>auto simp: inv_goto_same inv_alloc inv_without_pool inv_search inv_insert inv_release inv_free\<close>)

lemma pool_reachable_inv:
  "pool_reachable r \<Longrightarrow> \<exists>s. r = Some s \<and> pool_inv s"
proof (induction rule: pool_reachable.induct)
  case (next_state s r)
  then show ?case using inv_step by blast
qed (use inv_start in blast)

section \<open>Draining\<close>

lemma live_referenced:
  assumes "pool_inv s" and "pool_heap s a = Some b"
  shows "references b = CRYPTO_REFCOUNT_MAX \<or> a \<in># handles s \<or> (\<exists>t. pool_threads s t \<in> {Inserting a, Discarding a, Releasing a})"
proof (cases "owned s a")
  case True
  then obtain t where "held (pool_threads s t) = Some a" unfolding owned_def by blast
  then show ?thesis by (cases "pool_threads s t") auto
next
  case False
  then show ?thesis using inv_counts [OF assms] by (auto simp: counts_def)
qed

definition pool_runs :: "pool_state \<Rightarrow> pool_state \<Rightarrow> bool" where
  "pool_runs = (\<lambda>s s'. pool_step s (Some s'))\<^sup>*\<^sup>*"

definition busy :: "(nat \<Rightarrow> pool_pc) \<Rightarrow> nat set" where "busy f = {t. f t \<noteq> Outside}"

lemma finite_busy_update: "finite (busy f) \<Longrightarrow> finite (busy (f(t := pc)))"
  by (rule finite_subset [of _ "insert t (busy f)"]) (auto simp: busy_def)

lemma step_threads:
  assumes "pool_step s (Some s')"
  shows "pool_threads s' = pool_threads s \<or> (\<exists>t pc. pool_threads s' = (pool_threads s)(t := pc))"
  using assms
proof cases
  case (search t tmp data)
  then show ?thesis by (auto simp: new_search_def add_reference_def Let_def split: if_splits option.splits)
next
  case (insert t a mem)
  then show ?thesis
    by (auto simp: new_insert_def add_reference_def Let_def split: if_splits option.splits prod.splits)
next
  case (free t p mem)
  then show ?thesis by (auto simp: CRYPTO_BUFFER_free_def Let_def split: if_splits option.splits prod.splits)
next
  case (discard t a)
  then show ?thesis by (auto simp: release_buffer_def split: option.splits)
next
  case (release t a)
  then show ?thesis by (auto simp: release_buffer_def split: option.splits)
next
  case (get_data p)
  then show ?thesis by (cases "CRYPTO_BUFFER_data p s") simp_all
qed (auto simp: new_buffer_def CRYPTO_BUFFER_up_ref_def add_reference_def split: option.splits)

lemma reachable_finite: "pool_reachable (Some s) \<Longrightarrow> finite (busy (pool_threads s))"
proof (induction "Some s" arbitrary: s rule: pool_reachable.induct)
  case (start pool_granted granted)
  then show ?case by (auto simp: CRYPTO_BUFFER_POOL_new_def busy_def split: if_splits option.splits)
next
  case (next_state s0)
  then show ?case using step_threads finite_busy_update by metis
qed

text \<open>How many steps are needed at most to leave a function and to give up the references.\<close>

primrec pc_weight :: "pool_pc \<Rightarrow> nat" where
  "pc_weight Outside = 0"
| "pc_weight (Allocating data) = 1"
| "pc_weight (Inserting a) = 4"
| "pc_weight (Discarding a) = 1"
| "pc_weight (Releasing a) = 1"

definition pool_weight :: "pool_state \<Rightarrow> nat" where
  "pool_weight s = 2 * size (handles s) + (\<Sum>t \<in> busy (pool_threads s). pc_weight (pool_threads s t))"

lemma weight_threads:
  assumes "finite (busy f)"
  shows "(\<Sum>t \<in> busy (f(u := pc)). pc_weight ((f(u := pc)) t)) + pc_weight (f u) = (\<Sum>t \<in> busy f. pc_weight (f t)) + pc_weight pc"
proof -
  have all: "(\<Sum>t \<in> busy g. pc_weight (g t)) = pc_weight (g u) + (\<Sum>t \<in> busy f - {u}. pc_weight (g t))"
    if "busy g \<subseteq> insert u (busy f)" for g
  proof -
    have "(\<Sum>t \<in> busy g. pc_weight (g t)) = (\<Sum>t \<in> insert u (busy f). pc_weight (g t))"
      using that assms by (intro sum.mono_neutral_left) (auto simp: busy_def)
    then show ?thesis using assms by (simp add: sum.insert_remove)
  qed
  have "(\<Sum>t \<in> busy f - {u}. pc_weight ((f(u := pc)) t)) = (\<Sum>t \<in> busy f - {u}. pc_weight (f t))"
    by (rule sum.cong) simp_all
  moreover have "busy (f(u := pc)) \<subseteq> insert u (busy f)" "busy f \<subseteq> insert u (busy f)" by (auto simp: busy_def)
  ultimately show ?thesis using all [of "f(u := pc)"] all [of f] unfolding fun_upd_same by linarith
qed

lemma weight_less:
  assumes "finite (busy (pool_threads s))" and "pool_threads s' = (pool_threads s)(t := pc)"
    and "2 * size (handles s') + pc_weight pc < 2 * size (handles s) + pc_weight (pool_threads s t)"
  shows "pool_weight s' < pool_weight s"
  using weight_threads [OF assms(1), of t pc] assms(2,3) unfolding pool_weight_def by simp

lemma insert_moves:
  "new_insert t mem a s = Some s' \<Longrightarrow> \<exists>pc. pool_threads s' = (pool_threads s)(t := pc) \<and>
    2 * size (handles s') + pc_weight pc < 2 * size (handles s) + 4"
  by (auto simp: new_insert_def add_reference_def Let_def split: if_splits option.splits prod.splits)

lemma free_moves:
  "CRYPTO_BUFFER_free t mem p s = Some s' \<Longrightarrow> p \<in># handles s \<Longrightarrow> pool_threads s t = Outside \<Longrightarrow>
    \<exists>pc. pool_threads s' = (pool_threads s)(t := pc) \<and> 2 * size (handles s') + pc_weight pc < 2 * size (handles s)"
proof -
  assume r: "CRYPTO_BUFFER_free t mem p s = Some s'" "p \<in># handles s" "pool_threads s t = Outside"
  then have "pool_threads s' = (pool_threads s)(t := Outside) \<or> pool_threads s' = (pool_threads s)(t := Releasing p)"
    by (auto simp: CRYPTO_BUFFER_free_def Let_def fun_upd_idem split: if_splits option.splits prod.splits)
  moreover have "handles s' = handles s - {#p#}"
    using r(1) by (auto simp: CRYPTO_BUFFER_free_def Let_def split: if_splits option.splits prod.splits)
  then have "Suc (size (handles s')) = size (handles s)" using size_Suc_Diff1 [OF r(2)] by simp
  ultimately show ?thesis by (elim disjE) (intro exI conjI, assumption, simp)+
qed

lemma fresh_item_exists: "\<exists>n. fresh_item (block n) lh"
  using ex_new_if_finite [OF infinite_UNIV_nat, of "iaddr ` set (items lh)"] by (auto simp: fresh_item_def)

lemma progress:
  assumes "pool_inv s" and "finite (busy (pool_threads s))" and "handles s \<noteq> {#} \<or> pool_threads s t \<noteq> Outside"
  shows "\<exists>s'. pool_step s (Some s') \<and> pool_weight s' < pool_weight s"
proof (cases "pool_threads s t")
  case Outside
  then obtain p where p: "p \<in># handles s" using assms(3) by (meson multiset_nonemptyE)
  obtain s' where s': "CRYPTO_BUFFER_free t (block 0) p s = Some s'" using inv_free [OF assms(1) Outside p] by blast
  then have "pool_step s (Some s')" using pool_step.free [OF Outside p] by metis
  then show ?thesis using free_moves [OF s' p Outside] weight_less [OF assms(2), of s' t] Outside by auto
next
  case (Allocating data)
  then have "pool_step s (Some (goto t Outside s))" by (rule pool_step.alloc_fails)
  then show ?thesis using weight_less [OF assms(2), of "goto t Outside s" t Outside] Allocating by auto
next
  case (Inserting a)
  obtain n where n: "fresh_item (block n) (pool_bufs s)" using fresh_item_exists by blast
  then obtain s' where s': "new_insert t (block n) a s = Some s'" using inv_insert [OF assms(1) Inserting] by blast
  then have "pool_step s (Some s')" using pool_step.insert [OF Inserting n] by metis
  then show ?thesis using insert_moves [OF s'] weight_less [OF assms(2), of s' t] Inserting by auto
next
  case (Discarding a)
  then obtain s' where s': "release_buffer t a s = Some s'" using inv_release [OF assms(1)] by blast
  then have "pool_step s (Some s')" using pool_step.discard [OF Discarding] by metis
  then show ?thesis
    using s' weight_less [OF assms(2), of s' t Outside] Discarding by (auto simp: release_buffer_def split: option.splits)
next
  case (Releasing a)
  then obtain s' where s': "release_buffer t a s = Some s'" using inv_release [OF assms(1)] by blast
  then have "pool_step s (Some s')" using pool_step.release [OF Releasing] by metis
  then show ?thesis
    using s' weight_less [OF assms(2), of s' t Outside] Releasing by (auto simp: release_buffer_def split: option.splits)
qed

lemma drain:
  assumes "pool_inv s" and "finite (busy (pool_threads s))"
  shows "\<exists>s'. pool_runs s s' \<and> pool_inv s' \<and> handles s' = {#} \<and> (\<forall>t. pool_threads s' t = Outside)"
  using assms
proof (induction "pool_weight s" arbitrary: s rule: less_induct)
  case less
  show ?case
  proof (cases "handles s = {#} \<and> (\<forall>t. pool_threads s t = Outside)")
    case True
    then show ?thesis using less(2) by (auto simp: pool_runs_def)
  next
    case False
    then obtain t where "handles s \<noteq> {#} \<or> pool_threads s t \<noteq> Outside" by blast
    from progress [OF less(2,3) this] obtain s1 where s1: "pool_step s (Some s1)" "pool_weight s1 < pool_weight s" by blast
    have inv: "pool_inv s1" using inv_step [OF s1(1) less(2)] by simp
    have fin: "finite (busy (pool_threads s1))" using step_threads [OF s1(1)] finite_busy_update [OF less(3)] less(3) by metis
    from less(1) [OF s1(2) inv fin] obtain s' where s': "pool_runs s1 s'" "pool_inv s'" "handles s' = {#}" "\<forall>t. pool_threads s' t = Outside"
      by blast
    have "pool_runs s s'" using s1(1) s'(1) unfolding pool_runs_def by (rule converse_rtranclp_into_rtranclp)
    then show ?thesis using s' by blast
  qed
qed

text \<open>C20: however the threads interleave, no operation of the pool crashes (touches a freed buffer,
  fails an assertion, aborts on a zero counter); every reference that a caller holds is to a live
  buffer whose counter is the number of the references, unless it is saturated; and two pooled
  buffers with the same contents are the same buffer.\<close>

theorem pool_safe:
  assumes "pool_reachable r"
  shows "\<exists>s. r = Some s \<and>
    (\<forall>p. p \<in># handles s \<longrightarrow> (\<exists>b. pool_heap s p = Some b \<and>
      (references b = CRYPTO_REFCOUNT_MAX \<or> unat (references b) = count (handles s) p))) \<and>
    (\<forall>p q b c. p \<in># handles s \<and> q \<in># handles s \<and> pool_heap s p = Some b \<and> pool_heap s q = Some c \<and>
      has_pool b \<and> has_pool c \<and> bdata b = bdata c \<longrightarrow> p = q)"
proof -
  obtain s where r: "r = Some s" and inv: "pool_inv s" using pool_reachable_inv [OF assms] by blast
  have "\<exists>b. pool_heap s p = Some b \<and> (references b = CRYPTO_REFCOUNT_MAX \<or> unat (references b) = count (handles s) p)"
    if "p \<in># handles s" for p
    using inv_handle [OF inv that] inv_counts [OF inv, of p] unfolding counts_def by blast
  moreover have "p = q" if "p \<in># handles s" "q \<in># handles s" "pool_heap s p = Some b" "pool_heap s q = Some c"
    "has_pool b" "has_pool c" "bdata b = bdata c" for p q b c
  proof -
    have "contents (pool_heap s) p = contents (pool_heap s) q" using that by (simp add: contents_def)
    then have "lh_map (pool_funcs (pool_heap s)) (pool_bufs s) p = lh_map (pool_funcs (pool_heap s)) (pool_bufs s) q"
      by (intro lh_map_contents [OF inv_wf [OF inv]]) simp_all
    moreover have "p \<in> stored (pool_bufs s)" "q \<in> stored (pool_bufs s)"
      using inv_stored [OF inv] inv_handle [OF inv] that by blast+
    then have "lh_map (pool_funcs (pool_heap s)) (pool_bufs s) p = Some p"
      "lh_map (pool_funcs (pool_heap s)) (pool_bufs s) q = Some q"
      using stored_iff [OF key_funcs_pool inv_wf [OF inv]] by blast+
    ultimately show ?thesis by simp
  qed
  ultimately show ?thesis using r by blast
qed

text \<open>C21: nothing is leaked. In every reachable state a live buffer is saturated, or a caller holds a reference to it, or a
  thread is about to insert, discard or release it; so when the callers have given up all their references and no
  thread is inside of a function, every buffer whose counter has not saturated has been released. From every reachable
  state some steps lead to such a state: no thread and no reference is ever stuck. The table then has only saturated
  buffers, and when none of the pool is left it is empty, which is what \<open>CRYPTO_BUFFER_POOL_free\<close> asserts.\<close>

theorem pool_no_leak:
  assumes "pool_reachable (Some s)"
  shows "(\<forall>a b. pool_heap s a = Some b \<longrightarrow> references b = CRYPTO_REFCOUNT_MAX \<or> a \<in># handles s \<or>
      (\<exists>t. pool_threads s t \<in> {Inserting a, Discarding a, Releasing a})) \<and>
    (\<exists>s'. pool_runs s s' \<and> handles s' = {#} \<and> (\<forall>t. pool_threads s' t = Outside) \<and>
      (\<forall>a b. pool_heap s' a = Some b \<longrightarrow> references b = CRYPTO_REFCOUNT_MAX) \<and>
      ((\<forall>a b. pool_heap s' a = Some b \<longrightarrow> \<not> has_pool b) \<longrightarrow> lh_num_items (pool_bufs s') = 0))"
proof -
  have inv: "pool_inv s" using pool_reachable_inv [OF assms] by blast
  obtain s' where s': "pool_runs s s'" "pool_inv s'" "handles s' = {#}" "\<forall>t. pool_threads s' t = Outside"
    using drain [OF inv reachable_finite [OF assms]] by blast
  have "references b = CRYPTO_REFCOUNT_MAX" if "pool_heap s' a = Some b" for a b
    using live_referenced [OF s'(2) that] s'(3,4) by simp
  moreover have "lh_num_items (pool_bufs s') = 0" if "\<forall>a b. pool_heap s' a = Some b \<longrightarrow> \<not> has_pool b"
  proof -
    have "stored (pool_bufs s') = {}" using inv_stored [OF s'(2)] that by blast
    then have "items (pool_bufs s') = []" by (simp add: stored_def)
    then show ?thesis using inv_wf [OF s'(2)] by (simp add: lh_num_items_def lh_wf_def)
  qed
  ultimately have "\<exists>s'. pool_runs s s' \<and> handles s' = {#} \<and> (\<forall>t. pool_threads s' t = Outside) \<and>
      (\<forall>a b. pool_heap s' a = Some b \<longrightarrow> references b = CRYPTO_REFCOUNT_MAX) \<and>
      ((\<forall>a b. pool_heap s' a = Some b \<longrightarrow> \<not> has_pool b) \<longrightarrow> lh_num_items (pool_bufs s') = 0)"
    using s'(1,3,4) by blast
  then show ?thesis using live_referenced [OF inv] by blast
qed

text \<open>Two threads that ask for the same (empty) data.\<close>

definition pool0 :: pool_state where
  "pool0 = \<lparr>pool_bufs = empty_table, pool_heap = (\<lambda>_. None), pool_threads = (\<lambda>_. Outside), handles = {#}\<rparr>"

lemma pool0: "pool_reachable (Some pool0)"
  by (rule pool_reachable.start [of True "\<lambda>_. True"]) (simp add: CRYPTO_BUFFER_POOL_new_def empty_table pool0_def)

lemma hash_empty: "unat (CRYPTO_BUFFER_hash []) mod 16 = 5"
  by (simp add: CRYPTO_BUFFER_hash_def OPENSSL_hash32_def)

lemma shared_buffer:
  "\<exists>s. pool_reachable (Some s) \<and> handles s = {#5, 5#}"
proof -
  let ?s1 = "goto 0 (Allocating []) pool0"
  let ?s2 = "goto 0 (Inserting 5) (new_buffer 5 True [] ?s1)"
  let ?lh = "set_chain 5 [\<lparr>idata = 5, ihash = CRYPTO_BUFFER_hash [], iaddr = 100\<rparr>] (empty_table\<lparr>num_items := 1\<rparr>)"
  let ?s3 = "goto 0 Outside (?s2\<lparr>pool_bufs := ?lh, handles := {#5#}\<rparr>)"
  note defs = Let_def chain_live_def get_next_ptr_and_hash_def lh_retrieve_def item_at_def contents_def
  have "new_search 0 9 [] pool0 = Some ?s1"
    by (simp add: new_search_def defs pool0_def empty_table_def hash_empty)
  then have s1: "pool_reachable (Some ?s1)"
    using pool_step.search [of pool0 0 9 "[]"] pool_reachable.next_state [OF pool0] by (simp add: pool0_def)
  have "pool_step ?s1 (Some ?s2)" by (rule pool_step.alloc) (simp_all add: pool0_def)
  then have s2: "pool_reachable (Some ?s2)" by (rule pool_reachable.next_state [OF s1])
  have "new_insert 0 (block 100) 5 ?s2 = Some ?s3"
    by (simp add: new_insert_def defs pool0_def empty_table_def hash_empty new_buffer_def lh_insert_def
        lh_maybe_resize_def set_chain_def)
  moreover have "pool_step ?s2 (new_insert 0 (block 100) 5 ?s2)"
    by (rule pool_step.insert) (simp_all add: fresh_item_def new_buffer_def pool0_def empty_table_def items_def)
  ultimately have s3: "pool_reachable (Some ?s3)" using pool_reachable.next_state [OF s2] by simp
  have "new_search 1 9 [] ?s3 = add_reference 5 ?s3"
    by (simp add: new_search_def defs pool0_def empty_table_def hash_empty new_buffer_def)
  moreover have "pool_step ?s3 (new_search 1 9 [] ?s3)"
    by (rule pool_step.search) (simp_all add: new_buffer_def pool0_def)
  moreover obtain s4 where "add_reference 5 ?s3 = Some s4" "handles s4 = {#5, 5#}"
    by (simp add: add_reference_def new_buffer_def pool0_def)
  ultimately show ?thesis using pool_reachable.next_state [OF s3] by auto
qed

theorem pool_safe_witness:
  "\<exists>(s :: pool_state) b. handles s = {#5, 5#} \<and> pool_heap s 5 = Some b \<and> (references b = CRYPTO_REFCOUNT_MAX \<or> references b = 2)"
proof -
  obtain s where s: "pool_reachable (Some s)" "handles s = {#5, 5#}" using shared_buffer by blast
  obtain b where "pool_heap s 5 = Some b" "references b = CRYPTO_REFCOUNT_MAX \<or> unat (references b) = 2"
    using pool_safe [OF s(1)] s(2) by auto
  then have "references b = CRYPTO_REFCOUNT_MAX \<or> references b = 2" by (auto simp: word_unat_eq_iff)
  then show ?thesis using s(2) \<open>pool_heap s 5 = Some b\<close> by blast
qed

theorem pool_no_leak_witness:
  "\<exists>s s'. pool_reachable (Some s) \<and> handles s = {#5, 5#} \<and> pool_runs s s' \<and> handles s' = {#} \<and> (\<forall>t. pool_threads s' t = Outside) \<and>
     (\<forall>a b. pool_heap s' a = Some b \<longrightarrow> references b = CRYPTO_REFCOUNT_MAX)"
proof -
  obtain s where "pool_reachable (Some s)" "handles s = {#5, 5#}" using shared_buffer by blast
  then show ?thesis using pool_no_leak by blast
qed

end
