(* ===== verification/Stack.thy ===== *)
theory Stack
  imports C_Library
begin

text \<open>
  The growable array of pointers of BoringSSL, \<open>crypto/stack/stack.c\<close>. A pointer is a natural number, 0
  is \<open>NULL\<close>; a stack that may be \<open>NULL\<close> is an option. Function pointers are numbers, too: \<open>cmps\<close> says
  which comparison (of the objects behind two pointers) each of them is. The length of \<open>sdata\<close> is
  \<open>num_alloc\<close>; its entries from \<open>snum\<close> on mean nothing.
\<close>

record stack =
  snum :: nat
  sdata :: "nat list"
  ssorted :: bool
  scomp :: nat

text \<open>\<open>OPENSSL_malloc\<close> and \<open>OPENSSL_realloc\<close>: the sizes they grant and what new memory holds.\<close>

record sk_mem =
  sk_grant :: "nat \<Rightarrow> bool"
  sk_junk :: "nat \<Rightarrow> nat"

type_synonym cmp_funcs = "nat \<Rightarrow> nat \<Rightarrow> nat \<Rightarrow> int"

abbreviation (input) num_alloc :: "stack \<Rightarrow> nat" where "num_alloc s \<equiv> length (sdata s)"

abbreviation (input) kMinSize :: nat where "kMinSize \<equiv> 4"

section \<open>Memory\<close>

text \<open>\<open>memmove\<close> inside of an array; outside of it, undefined behaviour.\<close>

definition memmove :: "nat \<Rightarrow> nat \<Rightarrow> nat \<Rightarrow> 'a list \<Rightarrow> 'a list option" where
  "memmove dst src n xs =
     (if length xs < dst + n \<or> length xs < src + n then None
      else Some (take dst xs @ take n (drop src xs) @ drop (dst + n) xs))"

definition store_at :: "nat \<Rightarrow> 'a \<Rightarrow> 'a list \<Rightarrow> 'a list option" where
  "store_at i x xs = (if i < length xs then Some (xs[i := x]) else None)"

definition sk_realloc :: "sk_mem \<Rightarrow> nat \<Rightarrow> nat list \<Rightarrow> nat list" where
  "sk_realloc mem n xs = take n xs @ map (sk_junk mem) [length xs..<n]"

section \<open>Creation and access\<close>

definition sk_new :: "sk_mem \<Rightarrow> nat \<Rightarrow> stack option" where
  "sk_new mem cmp =
     (if \<not> sk_grant mem 40 then None
      else if \<not> sk_grant mem (8 * kMinSize) then None
      else Some \<lparr>snum = 0, sdata = replicate kMinSize 0, ssorted = False, scomp = cmp\<rparr>)"

definition sk_new_null :: "sk_mem \<Rightarrow> stack option" where
  "sk_new_null mem = sk_new mem 0"

definition sk_num :: "stack option \<Rightarrow> nat" where
  "sk_num sk = (case sk of None \<Rightarrow> 0 | Some s \<Rightarrow> snum s)"

definition sk_zero :: "stack option \<Rightarrow> (unit, stack option) res" where
  "sk_zero sk = (case sk of None \<Rightarrow> Ok () None
     | Some s \<Rightarrow>
         if snum s = 0 then Ok () (Some s)
         else if num_alloc s < snum s then UB
         else Ok () (Some (s\<lparr>sdata := replicate (snum s) 0 @ drop (snum s) (sdata s), snum := 0, ssorted := False\<rparr>)))"

text \<open>Reading an entry outside of the array is undefined behaviour.\<close>

definition sk_value :: "stack option \<Rightarrow> nat \<Rightarrow> (nat, stack option) res" where
  "sk_value sk i = (case sk of None \<Rightarrow> Ok 0 None
     | Some s \<Rightarrow>
         if snum s \<le> i then Ok 0 sk
         else if num_alloc s \<le> i then UB
         else Ok (sdata s ! i) sk)"

definition sk_set :: "nat \<Rightarrow> nat \<Rightarrow> stack option \<Rightarrow> (nat, stack option) res" where
  "sk_set i v sk = (case sk of None \<Rightarrow> Ok 0 None
     | Some s \<Rightarrow>
         if snum s \<le> i then Ok 0 sk
         else rbind (ropt (store_at i v (sdata s)) sk) (\<lambda>data _. Ok v (Some (s\<lparr>sdata := data\<rparr>))))"

text \<open>The elements that \<open>sk_pop_free\<close> calls its function with before it frees the stack.\<close>

definition sk_pop_free :: "stack option \<Rightarrow> nat list" where
  "sk_pop_free sk = (case sk of None \<Rightarrow> [] | Some s \<Rightarrow> filter (\<lambda>p. p \<noteq> 0) (take (snum s) (sdata s)))"

section \<open>Insertion and deletion\<close>

text \<open>Neither the new size \<open>a\<close> of an array of \<open>n\<close> pointers nor its size in bytes has overflowed.\<close>

definition alloc_fits :: "nat \<Rightarrow> nat \<Rightarrow> bool" where
  "alloc_fits n a \<longleftrightarrow> \<not> (a < n \<or> a * 8 mod 2 ^ 64 div 8 \<noteq> a)"

text \<open>Doubled or, failing that, incremented.\<close>

definition new_alloc :: "nat \<Rightarrow> nat option" where
  "new_alloc n =
     (let a = n * 2 mod 2 ^ 64; a = (if \<not> alloc_fits n a then (n + 1) mod 2 ^ 64 else a)
      in if \<not> alloc_fits n a then None else Some a)"

text \<open>The array with room for one more element; \<open>None\<close> if there is none.\<close>

definition sk_grow :: "sk_mem \<Rightarrow> stack \<Rightarrow> nat list option" where
  "sk_grow mem s =
     (if num_alloc s \<le> snum s + 1
      then (case new_alloc (num_alloc s) of None \<Rightarrow> None
        | Some a \<Rightarrow> if \<not> sk_grant mem (a * 8 mod 2 ^ 64) then None else Some (sk_realloc mem a (sdata s)))
      else Some (sdata s))"

definition sk_insert :: "sk_mem \<Rightarrow> nat \<Rightarrow> nat \<Rightarrow> stack option \<Rightarrow> (nat, stack option) res" where
  "sk_insert mem p w sk = (case sk of None \<Rightarrow> Ok 0 None
     | Some s \<Rightarrow> (case sk_grow mem s of None \<Rightarrow> Ok 0 sk
       | Some data \<Rightarrow>
           rbind (if snum s \<le> w then ropt (store_at (snum s) p data) sk
              else rbind (ropt (memmove (w + 1) w (snum s - w) data) sk) (\<lambda>data. ropt (store_at w p data))) (\<lambda>data _.
           Ok (snum s + 1) (Some (s\<lparr>sdata := data, snum := snum s + 1, ssorted := False\<rparr>)))))"

definition sk_delete :: "nat \<Rightarrow> stack option \<Rightarrow> (nat, stack option) res" where
  "sk_delete w sk = (case sk of None \<Rightarrow> Ok 0 None
     | Some s \<Rightarrow>
         if snum s \<le> w then Ok 0 sk
         else if num_alloc s \<le> w then UB
         else let ret = sdata s ! w in
           rbind (if w \<noteq> snum s - 1 then ropt (memmove w (w + 1) (snum s - w - 1) (sdata s)) sk
              else Ok (sdata s) sk) (\<lambda>data _.
           Ok ret (Some (s\<lparr>sdata := data, snum := snum s - 1\<rparr>))))"

text \<open>The first position of a pointer.\<close>

fun ptr_pos :: "nat \<Rightarrow> nat list \<Rightarrow> nat option" where
  "ptr_pos p [] = None"
| "ptr_pos p (q # qs) = (if q = p then Some 0 else map_option Suc (ptr_pos p qs))"

definition sk_delete_ptr :: "nat \<Rightarrow> stack option \<Rightarrow> (nat, stack option) res" where
  "sk_delete_ptr p sk = (case sk of None \<Rightarrow> Ok 0 None
     | Some s \<Rightarrow>
         if num_alloc s < snum s then UB
         else case ptr_pos p (take (snum s) (sdata s)) of None \<Rightarrow> Ok 0 sk | Some i \<Rightarrow> sk_delete i sk)"

definition sk_shift :: "stack option \<Rightarrow> (nat, stack option) res" where
  "sk_shift sk = (case sk of None \<Rightarrow> Ok 0 None
     | Some s \<Rightarrow> if snum s = 0 then Ok 0 sk else sk_delete 0 sk)"

definition sk_push :: "sk_mem \<Rightarrow> nat \<Rightarrow> stack option \<Rightarrow> (nat, stack option) res" where
  "sk_push mem p sk = (case sk of None \<Rightarrow> UB | Some s \<Rightarrow> sk_insert mem p (snum s) sk)"

definition sk_pop :: "stack option \<Rightarrow> (nat, stack option) res" where
  "sk_pop sk = (case sk of None \<Rightarrow> Ok 0 None
     | Some s \<Rightarrow> if snum s = 0 then Ok 0 sk else sk_delete (snum s - 1) sk)"

section \<open>Sorting and searching\<close>

definition sk_sort :: "cmp_funcs \<Rightarrow> stack option \<Rightarrow> (unit, stack option) res" where
  "sk_sort cmps sk = (case sk of None \<Rightarrow> Ok () None
     | Some s \<Rightarrow>
         if scomp s = 0 \<or> ssorted s then Ok () sk
         else if num_alloc s < snum s then UB
         else Ok () (Some (s\<lparr>sdata := qsort (cmps (scomp s)) (take (snum s) (sdata s)) @ drop (snum s) (sdata s),
           ssorted := True\<rparr>)))"

text \<open>The loop that steps back to the first equal element.\<close>

fun first_equal :: "('a \<Rightarrow> int) \<Rightarrow> 'a list \<Rightarrow> nat \<Rightarrow> nat" where
  "first_equal c data 0 = 0"
| "first_equal c data (Suc i) = (if c (data ! i) = 0 then first_equal c data i else Suc i)"

text \<open>The index found; \<open>None\<close> is the result 0.\<close>

definition sk_find :: "cmp_funcs \<Rightarrow> nat \<Rightarrow> stack option \<Rightarrow> (nat option, stack option) res" where
  "sk_find cmps p sk = (case sk of None \<Rightarrow> Ok None None
     | Some s \<Rightarrow>
         if scomp s = 0 then
           if num_alloc s < snum s then UB else Ok (ptr_pos p (take (snum s) (sdata s))) sk
         else if p = 0 then Ok None sk
         else rbind (sk_sort cmps sk) (\<lambda>_ sk. case sk of None \<Rightarrow> Ok None None
           | Some s \<Rightarrow>
               let c = cmps (scomp s) p; data = take (snum s) (sdata s) in
               Ok (map_option (first_equal c data) (bsearch c data 0 (snum s))) sk))"

definition sk_is_sorted :: "stack option \<Rightarrow> bool" where
  "sk_is_sorted sk = (case sk of None \<Rightarrow> True | Some s \<Rightarrow> ssorted s)"

text \<open>The result is the old function.\<close>

definition sk_set_cmp_func :: "nat \<Rightarrow> stack option \<Rightarrow> (nat, stack option) res" where
  "sk_set_cmp_func cmp sk = (case sk of None \<Rightarrow> UB
     | Some s \<Rightarrow> Ok (scomp s) (Some (s\<lparr>ssorted := (ssorted s \<and> scomp s = cmp), scomp := cmp\<rparr>)))"

section \<open>Copies\<close>

definition sk_dup :: "sk_mem \<Rightarrow> stack option \<Rightarrow> (stack option, unit) res" where
  "sk_dup mem sk = (case sk of None \<Rightarrow> Ok None ()
     | Some s \<Rightarrow> (case sk_new mem (scomp s) of None \<Rightarrow> Ok None ()
       | Some ret \<Rightarrow>
           if \<not> sk_grant mem (8 * num_alloc s mod 2 ^ 64) then Ok None ()
           else let data = sk_realloc mem (num_alloc s) (sdata ret) in
             if num_alloc s < snum s then UB
             else Ok (Some \<lparr>snum = snum s, sdata = take (snum s) (sdata s) @ drop (snum s) data,
               ssorted = ssorted s, scomp = scomp s\<rparr>) ()))"

text \<open>The loop of \<open>sk_deep_copy\<close> over the elements; \<open>copied\<close> are those before. If a copy fails, the
  copies made so far are freed.\<close>

fun deep_copy_loop :: "(nat \<Rightarrow> 'u \<Rightarrow> nat \<times> 'u) \<Rightarrow> (nat \<Rightarrow> 'u \<Rightarrow> 'u) \<Rightarrow> nat list \<Rightarrow> nat list \<Rightarrow> 'u \<Rightarrow> nat list option \<times> 'u" where
  "deep_copy_loop copy_func free_func copied [] u = (Some copied, u)"
| "deep_copy_loop copy_func free_func copied (p # ps) u =
     (if p = 0 then deep_copy_loop copy_func free_func (copied @ [0]) ps u
      else let (q, u) = copy_func p u in
        if q = 0 then (None, fold free_func (filter (\<lambda>c. c \<noteq> 0) copied) u)
        else deep_copy_loop copy_func free_func (copied @ [q]) ps u)"

definition sk_deep_copy :: "sk_mem \<Rightarrow> stack option \<Rightarrow> (nat \<Rightarrow> 'u \<Rightarrow> nat \<times> 'u) \<Rightarrow> (nat \<Rightarrow> 'u \<Rightarrow> 'u) \<Rightarrow> 'u
    \<Rightarrow> (stack option, 'u) res" where
  "sk_deep_copy mem sk copy_func free_func u = (case sk_dup mem sk of
     Ok (Some ret) _ \<Rightarrow>
       (case deep_copy_loop copy_func free_func [] (take (snum ret) (sdata ret)) u of
         (Some data, u) \<Rightarrow> Ok (Some (ret\<lparr>sdata := data @ drop (snum ret) (sdata ret)\<rparr>)) u
       | (None, u) \<Rightarrow> Ok None u)
   | Ok None _ \<Rightarrow> Ok None u
   | Fail _ \<Rightarrow> Fail u | UB \<Rightarrow> UB | NoFuel \<Rightarrow> NoFuel)"

end
