(* ===== verification/Stack_Spec.thy ===== *)
theory Stack_Spec
  imports Stack
begin

text \<open>
  A stack as a list: no operation leaves the array or breaks the \<open>sorted\<close> flag, except \<open>sk_set\<close>, and
  every one does to the elements what the list operation does.
\<close>

section \<open>Invariant\<close>

definition elements :: "stack \<Rightarrow> nat list" where
  "elements s = take (snum s) (sdata s)"

abbreviation (input) in_order :: "cmp_funcs \<Rightarrow> stack \<Rightarrow> bool" where
  "in_order cmps s \<equiv> sorted_wrt (\<lambda>x y. cmps (scomp s) x y \<le> 0) (elements s)"

definition sk_wf :: "cmp_funcs \<Rightarrow> stack \<Rightarrow> bool" where
  "sk_wf cmps s \<longleftrightarrow> snum s < num_alloc s \<and> kMinSize \<le> num_alloc s \<and>
     (ssorted s \<and> scomp s \<noteq> 0 \<longrightarrow> in_order cmps s)"

lemma length_elements: "sk_wf cmps s \<Longrightarrow> length (elements s) = snum s"
  by (simp add: sk_wf_def elements_def)

lemma sk_new_wf: "sk_new mem c = Some s \<Longrightarrow> sk_wf cmps s \<and> elements s = [] \<and> scomp s = c"
  by (auto simp: sk_new_def sk_wf_def elements_def split: if_splits)

section \<open>Insertion\<close>

lemma new_alloc_greater:
  assumes "0 < n" and "new_alloc n = Some a"
  shows "n < a"
proof (rule ccontr)
  assume "\<not> n < a"
  have new: "alloc_fits n a \<and> (a = n * 2 mod 2 ^ 64 \<or> a = (n + 1) mod 2 ^ 64)"
    using assms(2) unfolding new_alloc_def Let_def by (simp only: option.inject option.distinct split: if_splits) blast+
  then have "a = n" using \<open>\<not> n < a\<close> unfolding alloc_fits_def by linarith
  have "a = n * 2 mod 2 ^ 64 \<or> a = (n + 1) mod 2 ^ 64" using new by blast
  then show False
  proof
    assume "a = n * 2 mod 2 ^ 64"
    then have 1: "n * 2 mod 2 ^ 64 = n" using \<open>a = n\<close> by (rule trans [OF sym])
    then have "n < 2 ^ 64" using mod_less_divisor [of "2 ^ 64" "n * 2"] by simp
    then show False using 1 assms(1) by (cases "n * 2 < 2 ^ 64") (simp_all add: le_mod_geq not_less)
  next
    assume "a = (n + 1) mod 2 ^ 64"
    then have 1: "(n + 1) mod 2 ^ 64 = n" using \<open>a = n\<close> by (rule trans [OF sym])
    then have "n < 2 ^ 64" using mod_less_divisor [of "2 ^ 64" "n + 1"] by simp
    then show False using 1 assms(1) by (cases "n + 1 < 2 ^ 64") (simp_all add: le_mod_geq not_less)
  qed
qed

lemma sk_grow_Some:
  assumes "sk_wf cmps s" and "sk_grow mem s = Some data"
  shows "Suc (snum s) < length data" "kMinSize \<le> length data" "take (snum s) data = elements s"
proof -
  have n: "snum s < num_alloc s" "4 \<le> num_alloc s" using assms(1) by (simp_all add: sk_wf_def)
  have "Suc (snum s) < length data \<and> 4 \<le> length data \<and> take (snum s) data = elements s"
  proof (cases "num_alloc s \<le> snum s + 1")
    case False
    then show ?thesis using assms(2) n by (simp add: sk_grow_def elements_def)
  next
    case True
    then obtain a where a: "new_alloc (num_alloc s) = Some a" "data = sk_realloc mem a (sdata s)"
      using assms(2) by (auto simp: sk_grow_def split: option.splits if_splits)
    have "0 < num_alloc s" using n by linarith
    then have "num_alloc s < a" using new_alloc_greater [OF _ a(1)] by simp
    then show ?thesis using n by (simp add: a(2) sk_realloc_def elements_def min_def)
  qed
  then show "Suc (snum s) < length data" "kMinSize \<le> length data" "take (snum s) data = elements s" by auto
qed

lemma sk_insert_list:
  assumes "sk_wf cmps s"
  shows "\<exists>n s'. sk_insert mem p w (Some s) = Ok n (Some s') \<and> sk_wf cmps s' \<and> scomp s' = scomp s \<and>
    (n = 0 \<and> s' = s \<or> n = Suc (length (elements s)) \<and> elements s' = take w (elements s) @ p # drop w (elements s))"
proof (cases "sk_grow mem s")
  case None
  then show ?thesis using assms by (simp add: sk_insert_def)
next
  case (Some data)
  note g = sk_grow_Some [OF assms Some] and n = length_elements [OF assms]
  let ?n = "snum s"
  have new: ?thesis
    if "sk_insert mem p w (Some s) = Ok (?n + 1) (Some (s\<lparr>sdata := d, snum := ?n + 1, ssorted := False\<rparr>))"
      "length d = length data" "take (Suc ?n) d = take w (elements s) @ p # drop w (elements s)" for d
    using that g(1,2) n by (auto simp: sk_wf_def elements_def)
  show ?thesis
  proof (cases "?n \<le> w")
    case True
    then have "sk_insert mem p w (Some s) =
        Ok (?n + 1) (Some (s\<lparr>sdata := data[?n := p], snum := ?n + 1, ssorted := False\<rparr>))"
      using Some g(1) by (simp add: sk_insert_def store_at_def)
    then show ?thesis
      using g(1,3) True n by (intro new [of "data[?n := p]"]) (simp_all add: take_Suc_conv_app_nth)
  next
    case False
    let ?d = "take (w + 1) data @ take (?n - w) (drop w data) @ drop (w + 1 + (?n - w)) data"
    have len: "length ?d = length data" using g(1) False by simp
    have ins: "sk_insert mem p w (Some s) =
        Ok (?n + 1) (Some (s\<lparr>sdata := ?d[w := p], snum := ?n + 1, ssorted := False\<rparr>))"
      using Some g(1) False len by (simp add: sk_insert_def store_at_def memmove_def)
    have "take (w + 1) data = take w data @ [data ! w]" using False g(1) by (simp add: take_Suc_conv_app_nth)
    then have "?d[w := p] = take w data @ p # take (?n - w) (drop w data) @ drop (?n + 1) data"
      using False g(1) by (simp add: list_update_append)
    moreover have "take w data = take w (elements s)" "take (?n - w) (drop w data) = drop w (elements s)"
      using False g(3) by (simp_all add: take_drop min_def flip: g(3))
    ultimately have "take (Suc ?n) (?d[w := p]) = take w (elements s) @ p # drop w (elements s)"
      using False n by (simp add: Suc_diff_le)
    then show ?thesis using ins len by (intro new [of "?d[w := p]"]) simp_all
  qed
qed

section \<open>Deletion\<close>

lemma sorted_wrt_delete: "sorted_wrt R xs \<Longrightarrow> sorted_wrt R (take w xs @ drop (Suc w) xs)"
proof (cases "w < length xs")
  case True
  assume "sorted_wrt R xs"
  then have "sorted_wrt R (take w xs @ xs ! w # drop (Suc w) xs)" using id_take_nth_drop [OF True] by simp
  then show ?thesis by (simp add: sorted_wrt_append)
qed simp

lemma sk_delete_list:
  assumes "sk_wf cmps s"
  shows "\<exists>s'. sk_delete w (Some s) = Ok (if w < length (elements s) then elements s ! w else 0) (Some s') \<and>
    sk_wf cmps s' \<and> scomp s' = scomp s \<and> elements s' = take w (elements s) @ drop (Suc w) (elements s)"
proof -
  note n = length_elements [OF assms]
  have a: "snum s < num_alloc s" "4 \<le> num_alloc s" using assms by (simp_all add: sk_wf_def)
  show ?thesis
  proof (cases "w < snum s")
    case False
    then show ?thesis using assms n by (simp add: sk_delete_def)
  next
    case True
    have val: "sdata s ! w = elements s ! w" using True by (simp add: elements_def)
    have del: ?thesis if "sk_delete w (Some s) = Ok (sdata s ! w) (Some (s\<lparr>sdata := d, snum := snum s - 1\<rparr>))"
      "length d = num_alloc s" "take (snum s - 1) d = take w (elements s) @ drop (Suc w) (elements s)" for d
    proof -
      let ?s = "s\<lparr>sdata := d, snum := snum s - 1\<rparr>"
      have el: "elements ?s = take w (elements s) @ drop (Suc w) (elements s)" using that(3) by (simp add: elements_def)
      then have "sk_wf cmps ?s"
        using assms that(2) a sorted_wrt_delete [of _ "elements s" w] unfolding sk_wf_def by auto
      then show ?thesis using that(1) el True n val by auto
    qed
    show ?thesis
    proof (cases "w = snum s - 1")
      case eq: True
      then have "sk_delete w (Some s) = Ok (sdata s ! w) (Some (s\<lparr>sdata := sdata s, snum := snum s - 1\<rparr>))"
        using True a by (simp add: sk_delete_def)
      then show ?thesis using eq a n by (intro del [of "sdata s"]) (simp_all add: elements_def min_def)
    next
      case False
      let ?d = "take w (sdata s) @ take (snum s - w - 1) (drop (w + 1) (sdata s)) @ drop (w + (snum s - w - 1)) (sdata s)"
      have "sk_delete w (Some s) = Ok (sdata s ! w) (Some (s\<lparr>sdata := ?d, snum := snum s - 1\<rparr>))"
        using True False a by (simp add: sk_delete_def memmove_def)
      moreover have "length ?d = num_alloc s" using True a by simp
      moreover have "take (snum s - 1) ?d = take w (elements s) @ drop (Suc w) (elements s)"
      proof -
        have "length (take (snum s - w - 1) (drop (w + 1) (sdata s))) = snum s - w - 1" using True a by simp
        then have "take (snum s - 1) ?d = take w (sdata s) @ take (snum s - w - 1) (drop (w + 1) (sdata s))"
          using True a by simp
        then show ?thesis using True by (simp add: elements_def drop_take)
      qed
      ultimately show ?thesis by (rule del)
    qed
  qed
qed

section \<open>Sorting and searching\<close>

text \<open>What \<open>qsort\<close> and \<open>bsearch\<close> need of the comparison function that is set.\<close>

definition cmps_ok :: "cmp_funcs \<Rightarrow> bool" where
  "cmps_ok cmps \<longleftrightarrow> (\<forall>c. c \<noteq> 0 \<longrightarrow> comparator (cmps c))"

lemma sk_sort_list:
  assumes "cmps_ok cmps" and "sk_wf cmps s"
  obtains s' where "sk_sort cmps (Some s) = Ok () (Some s')" "sk_wf cmps s'" "scomp s' = scomp s"
    "mset (elements s') = mset (elements s)" "scomp s \<noteq> 0 \<Longrightarrow> in_order cmps s'"
proof (cases "scomp s = 0 \<or> ssorted s")
  case True
  then show thesis using that [of s] assms(2) by (auto simp: sk_sort_def sk_wf_def)
next
  case False
  let ?s = "s\<lparr>sdata := qsort (cmps (scomp s)) (take (snum s) (sdata s)) @ drop (snum s) (sdata s), ssorted := True\<rparr>"
  have n: "snum s < num_alloc s" "4 \<le> num_alloc s" using assms(2) by (simp_all add: sk_wf_def)
  then have el: "elements ?s = qsort (cmps (scomp s)) (elements s)" by (simp add: elements_def)
  have "comparator (cmps (scomp s))" using assms(1) False by (simp add: cmps_ok_def)
  then have "in_order cmps ?s" unfolding el by (simp add: comparator.ordered_qsort)
  moreover have "sk_sort cmps (Some s) = Ok () (Some ?s)" using False n by (simp add: sk_sort_def)
  moreover have "mset (elements ?s) = mset (elements s)" unfolding el by simp
  ultimately show thesis using that [of ?s] n by (simp add: sk_wf_def)
qed

lemma first_equal_zero: "c (xs ! i) = 0 \<Longrightarrow> c (xs ! first_equal c xs i) = 0 \<and> first_equal c xs i \<le> i"
  by (induction i) auto

lemma first_equal_before: "first_equal c xs i = Suc j \<Longrightarrow> c (xs ! j) \<noteq> 0"
  by (induction i) (auto split: if_splits)

text \<open>In an ordered list the equal elements are next to each other.\<close>

context comparator begin

lemma first_equal_least:
  assumes "ordered xs" and "cmp k (xs ! i) = 0" "i < length xs" and "j < first_equal (cmp k) xs i"
  shows "cmp k (xs ! j) \<noteq> 0"
proof
  assume j: "cmp k (xs ! j) = 0"
  obtain m where m: "first_equal (cmp k) xs i = Suc m" "j \<le> m"
    using assms(4) by (cases "first_equal (cmp k) xs i") auto
  have le: "first_equal (cmp k) xs i \<le> i" using first_equal_zero [of "cmp k" xs i] assms(2) by simp
  have "cmp (xs ! j) (xs ! m) \<le> 0"
    using sorted_wrt_nth_less [OF assms(1), of j m] m le assms(3) cmp_refl [of "xs ! j"] by (cases "j = m") auto
  then have "cmp k (xs ! m) \<le> 0" using j cmp_trans [of k "xs ! j"] by simp
  moreover have "cmp (xs ! m) (xs ! i) \<le> 0" using sorted_wrt_nth_less [OF assms(1), of m i] m le assms(3) by simp
  then have "cmp (xs ! m) k \<le> 0" using assms(2) eq_sym [of k "xs ! i"] cmp_trans [of "xs ! m" "xs ! i" k] by simp
  ultimately have "cmp k (xs ! m) = 0" using sign [of k "xs ! m"] by linarith
  then show False using first_equal_before [OF m(1)] by blast
qed

end

lemma ptr_pos_Some: "ptr_pos p xs = Some i \<longleftrightarrow> i < length xs \<and> xs ! i = p \<and> (\<forall>j < i. xs ! j \<noteq> p)"
proof (induction xs arbitrary: i)
  case (Cons x xs)
  then show ?case by (cases i) (auto simp: All_less_Suc2 split: if_splits)
qed simp

section \<open>Properties\<close>

text \<open>C23: no operation leaves the array of the stack, whatever the arguments and the memory; insertion,
  deletion and sorting do to the elements what the list operations do (a failed insertion nothing),
  and the \<open>sorted\<close> flag is only set when the elements are in order.\<close>

theorem sk_refines_list:
  assumes "cmps_ok cmps" and "sk_wf cmps s"
  shows "(\<exists>n s'. sk_insert mem p w (Some s) = Ok n (Some s') \<and> sk_wf cmps s' \<and>
      (n = 0 \<and> s' = s \<or> n = Suc (length (elements s)) \<and> elements s' = take w (elements s) @ p # drop w (elements s))) \<and>
    (\<exists>s'. sk_delete w (Some s) = Ok (if w < length (elements s) then elements s ! w else 0) (Some s') \<and>
      sk_wf cmps s' \<and> elements s' = take w (elements s) @ drop (Suc w) (elements s)) \<and>
    (\<exists>s'. sk_sort cmps (Some s) = Ok () (Some s') \<and> sk_wf cmps s' \<and> mset (elements s') = mset (elements s) \<and>
      (scomp s \<noteq> 0 \<longrightarrow> in_order cmps s')) \<and>
    sk_value (Some s) w = Ok (if w < length (elements s) then elements s ! w else 0) (Some s)"
proof (intro conjI)
  show "\<exists>s'. sk_sort cmps (Some s) = Ok () (Some s') \<and> sk_wf cmps s' \<and> mset (elements s') = mset (elements s) \<and>
      (scomp s \<noteq> 0 \<longrightarrow> in_order cmps s')"
    by (rule sk_sort_list [OF assms]) auto
  show "sk_value (Some s) w = Ok (if w < length (elements s) then elements s ! w else 0) (Some s)"
    using assms(2) length_elements [OF assms(2)] by (auto simp: sk_value_def sk_wf_def elements_def)
qed (use sk_insert_list [OF assms(2), of mem p w] sk_delete_list [OF assms(2), of w] in blast)+

text \<open>C24: \<open>sk_find\<close> on a stack with a comparison function sorts it and returns the first index whose
  element is equal to the argument, and nothing only if there is none.\<close>

theorem sk_find_first:
  assumes "cmps_ok cmps" and "sk_wf cmps s" and "scomp s \<noteq> 0" "p \<noteq> 0"
  shows "\<exists>r s'. sk_find cmps p (Some s) = Ok r (Some s') \<and> sk_wf cmps s' \<and> in_order cmps s' \<and>
    mset (elements s') = mset (elements s) \<and>
    (case r of None \<Rightarrow> (\<forall>q \<in> set (elements s'). cmps (scomp s) p q \<noteq> 0)
     | Some i \<Rightarrow> i < length (elements s') \<and> cmps (scomp s) p (elements s' ! i) = 0 \<and>
         (\<forall>j < i. cmps (scomp s) p (elements s' ! j) \<noteq> 0))"
proof -
  let ?cmp = "cmps (scomp s)"
  have cmp: "comparator ?cmp" using assms(1,3) by (simp add: cmps_ok_def)
  obtain s' where s': "sk_sort cmps (Some s) = Ok () (Some s')" "sk_wf cmps s'" "scomp s' = scomp s"
    "mset (elements s') = mset (elements s)" "in_order cmps s'"
    using sk_sort_list [OF assms(1,2)] assms(3) by metis
  let ?xs = "elements s'"
  have len: "length ?xs = snum s'" by (rule length_elements [OF s'(2)])
  have order: "sorted_wrt (\<lambda>x y. ?cmp x y \<le> 0) ?xs" using s'(3,5) by simp
  let ?r = "map_option (first_equal (?cmp p) ?xs) (bsearch (?cmp p) ?xs 0 (snum s'))"
  have find: "sk_find cmps p (Some s) = Ok ?r (Some s')"
    using assms(3,4) s'(1,3) by (simp add: sk_find_def Let_def elements_def)
  note search = comparator.bsearch_correct [OF cmp order, of "snum s'" p 0]
  have "case ?r of None \<Rightarrow> (\<forall>q \<in> set ?xs. ?cmp p q \<noteq> 0)
     | Some i \<Rightarrow> i < length ?xs \<and> ?cmp p (?xs ! i) = 0 \<and> (\<forall>j < i. ?cmp p (?xs ! j) \<noteq> 0)"
  proof (cases "bsearch (?cmp p) ?xs 0 (snum s')")
    case None
    then show ?thesis using search len by (auto simp: in_set_conv_nth)
  next
    case (Some i)
    then have i: "i < length ?xs" "?cmp p (?xs ! i) = 0" using search len by auto
    then show ?thesis
      using Some first_equal_zero [of "?cmp p" ?xs i] comparator.first_equal_least [OF cmp order i(2,1)] by auto
  qed
  then show ?thesis using find s' by blast
qed

text \<open>Numbers, compared as such, on a stack with plenty of memory.\<close>

definition by_number :: cmp_funcs where
  "by_number c a b = int a - int b"

lemma cmps_ok_by_number: "cmps_ok by_number"
  by (simp add: cmps_ok_def comparator_def by_number_def)

abbreviation (input) plenty :: sk_mem where
  "plenty \<equiv> \<lparr>sk_grant = (\<lambda>_. True), sk_junk = (\<lambda>_. 9)\<rparr>"

definition three_one :: stack where
  "three_one = \<lparr>snum = 2, sdata = [3, 1, 0, 0], ssorted = False, scomp = 1\<rparr>"

lemma three_one_wf: "sk_wf by_number three_one"
  by (simp add: sk_wf_def three_one_def)

theorem sk_refines_list_witness:
  "\<exists>n s'. sk_insert plenty 2 1 (Some three_one) = Ok n (Some s') \<and> sk_wf by_number s' \<and>
     (n = 0 \<and> s' = three_one \<or> n = 3 \<and> elements s' = [3, 2, 1])"
proof -
  have "elements three_one = [3, 1]" by (simp add: elements_def three_one_def)
  with sk_refines_list [OF cmps_ok_by_number three_one_wf, of plenty 2 1, THEN conjunct1] show ?thesis
    by (simp add: eval_nat_numeral)
qed

theorem sk_find_first_witness:
  "\<exists>r s'. sk_find by_number 3 (Some three_one) = Ok r (Some s') \<and> mset (elements s') = {#3, 1#} \<and>
     (case r of None \<Rightarrow> \<forall>q \<in> set (elements s'). q \<noteq> 3 | Some i \<Rightarrow> elements s' ! i = 3)"
proof -
  have "scomp three_one \<noteq> 0" "(3 :: nat) \<noteq> 0" "mset (elements three_one) = {#3, 1#}"
    by (simp_all add: three_one_def elements_def)
  with sk_find_first [OF cmps_ok_by_number three_one_wf, of 3] show ?thesis
    by (fastforce simp: by_number_def split: option.splits)
qed

text \<open>\<open>sk_set\<close> does not reset the \<open>sorted\<close> flag: after it has put 5 into the sorted stack 1, 3, the
  stack 5, 3 still counts as sorted, the invariant of the flag is gone and \<open>sk_find\<close> does not find
  the element that was just stored.\<close>

lemma sk_set_breaks_find:
  "\<exists>s. rbind (sk_sort by_number (Some three_one)) (\<lambda>_. sk_set 0 5) = Ok 5 (Some s) \<and>
     elements s = [5, 3] \<and> sk_is_sorted (Some s) \<and> \<not> sk_wf by_number s \<and>
     sk_find by_number 5 (Some s) = Ok None (Some s)"
proof -
  let ?s = "\<lparr>snum = 2, sdata = [5, 3, 0, 0], ssorted = True, scomp = 1\<rparr>"
  have "rbind (sk_sort by_number (Some three_one)) (\<lambda>_. sk_set 0 5) = Ok 5 (Some ?s)" by code_simp
  moreover have "elements ?s = [5, 3]" "sk_is_sorted (Some ?s)" "sk_find by_number 5 (Some ?s) = Ok None (Some ?s)"
    by code_simp+
  moreover have "\<not> sk_wf by_number ?s" by (simp add: sk_wf_def elements_def by_number_def)
  ultimately show ?thesis by blast
qed

end
