(* ===== verification/Constant_Time.thy ===== *)
theory Constant_Time
  imports Prelude
begin

text \<open>
  The branch-free comparisons and selections of BoringSSL, \<open>crypto/internal.h\<close>, on 64-bit words, and the
  comparisons they compute.
\<close>

type_synonym crypto_word = u64

abbreviation (input) CONSTTIME_TRUE_W :: crypto_word where "CONSTTIME_TRUE_W \<equiv> NOT 0"
abbreviation (input) CONSTTIME_FALSE_W :: crypto_word where "CONSTTIME_FALSE_W \<equiv> 0"

definition constant_time_msb_w :: "crypto_word \<Rightarrow> crypto_word" where
  "constant_time_msb_w a = 0 - drop_bit (64 - 1) a"

definition constant_time_lt_w :: "crypto_word \<Rightarrow> crypto_word \<Rightarrow> crypto_word" where
  "constant_time_lt_w a b = constant_time_msb_w (a XOR ((a XOR b) OR ((a - b) XOR a)))"

definition constant_time_lt_8 :: "crypto_word \<Rightarrow> crypto_word \<Rightarrow> byte" where
  "constant_time_lt_8 a b = ucast (constant_time_lt_w a b)"

definition constant_time_ge_w :: "crypto_word \<Rightarrow> crypto_word \<Rightarrow> crypto_word" where
  "constant_time_ge_w a b = NOT (constant_time_lt_w a b)"

definition constant_time_ge_8 :: "crypto_word \<Rightarrow> crypto_word \<Rightarrow> byte" where
  "constant_time_ge_8 a b = ucast (constant_time_ge_w a b)"

definition constant_time_is_zero_w :: "crypto_word \<Rightarrow> crypto_word" where
  "constant_time_is_zero_w a = constant_time_msb_w (NOT a AND (a - 1))"

definition constant_time_is_zero_8 :: "crypto_word \<Rightarrow> byte" where
  "constant_time_is_zero_8 a = ucast (constant_time_is_zero_w a)"

definition constant_time_eq_w :: "crypto_word \<Rightarrow> crypto_word \<Rightarrow> crypto_word" where
  "constant_time_eq_w a b = constant_time_is_zero_w (a XOR b)"

definition constant_time_eq_8 :: "crypto_word \<Rightarrow> crypto_word \<Rightarrow> byte" where
  "constant_time_eq_8 a b = ucast (constant_time_eq_w a b)"

text \<open>An \<open>int\<close> is a signed 32-bit word; the conversion to \<open>crypto_word_t\<close> extends the sign.\<close>

definition constant_time_eq_int :: "u32 \<Rightarrow> u32 \<Rightarrow> crypto_word" where
  "constant_time_eq_int a b = constant_time_eq_w (scast a) (scast b)"

definition constant_time_eq_int_8 :: "u32 \<Rightarrow> u32 \<Rightarrow> byte" where
  "constant_time_eq_int_8 a b = constant_time_eq_8 (scast a) (scast b)"

definition constant_time_select_w :: "crypto_word \<Rightarrow> crypto_word \<Rightarrow> crypto_word \<Rightarrow> crypto_word" where
  "constant_time_select_w m a b = ((m AND a) OR (NOT m AND b))"

definition constant_time_select_8 :: "byte \<Rightarrow> byte \<Rightarrow> byte \<Rightarrow> byte" where
  "constant_time_select_8 m a b = ucast (constant_time_select_w (ucast m) (ucast a) (ucast b))"

definition constant_time_select_int :: "crypto_word \<Rightarrow> u32 \<Rightarrow> u32 \<Rightarrow> u32" where
  "constant_time_select_int m a b = ucast (constant_time_select_w m (scast a) (scast b))"

section \<open>What they compute\<close>

text \<open>All bits of a mask are equal.\<close>

definition mask_of :: "bool \<Rightarrow> 'a::len word" where
  "mask_of b = (if b then NOT 0 else 0)"

lemma mask_of_simps [simp]: "mask_of True = (NOT 0 :: 'a::len word)" "mask_of False = (0 :: 'a::len word)"
  by (simp_all add: mask_of_def)

lemma mask_of_not: "NOT (mask_of b) = (mask_of (\<not> b) :: 'a::len word)"
  by (simp add: mask_of_def)

lemma mask_of_or: "(mask_of a OR mask_of b) = (mask_of (a \<or> b) :: 'a::len word)"
  by (cases a; cases b) simp_all

lemma ucast_mask_of_8: "ucast (mask_of b :: crypto_word) = (mask_of b :: byte)"
  by (cases b) (auto intro: bit_eqI simp: bit_simps simp del: bit.compl_zero)

lemma mask_of_eq_iff: "mask_of a = (mask_of b :: 'a::len word) \<longleftrightarrow> a = b"
  by (cases a; cases b) (simp_all)

lemma msb_iff: "bit (a :: crypto_word) 63 \<longleftrightarrow> 2 ^ 63 \<le> unat a"
proof -
  have "unat a < 2 ^ 64" using unsigned_less [of a] by simp
  moreover have "bit a 63 \<longleftrightarrow> odd (unat a div 2 ^ 63)" unfolding bit_iff_odd [symmetric] by (simp add: bit_unsigned_iff)
  moreover have "odd (unat a div 2 ^ 63) \<longleftrightarrow> 2 ^ 63 \<le> unat a" if "unat a < 2 ^ 64"
  proof (cases "2 ^ 63 \<le> unat a")
    case True
    then have "unat a div 2 ^ 63 = 1" using that by (intro div_nat_eqI) simp_all
    then show ?thesis using True by simp
  qed simp
  ultimately show ?thesis by blast
qed

lemma drop_63: "drop_bit 63 (a :: crypto_word) = (if bit a 63 then 1 else 0)"
proof (rule bit_eqI)
  fix n
  show "bit (drop_bit 63 a) n \<longleftrightarrow> bit (if bit a 63 then 1 else 0 :: crypto_word) n"
    using bit_imp_le_length [of a "63 + n"] by (cases n) (auto simp: bit_simps bit_1_iff)
qed

lemma constant_time_msb: "constant_time_msb_w a = mask_of (bit a 63)"
  by (simp add: constant_time_msb_w_def drop_63)

lemma unat_minus_wrap: "unat ((a :: crypto_word) - b) = (if b \<le> a then unat a - unat b else 2 ^ 64 + unat a - unat b)"
proof -
  have "unat b < 2 ^ 64" using unsigned_less [of b] by simp
  then show ?thesis by (auto simp: unat_sub_if' word_le_nat_alt)
qed

lemma constant_time_lt: "constant_time_lt_w a b = mask_of (a < b)"
proof -
  have l: "unat a < 2 ^ 64" "unat b < 2 ^ 64" using unsigned_less [of a] unsigned_less [of b] by simp_all
  have "bit (a XOR ((a XOR b) OR ((a - b) XOR a))) 63 \<longleftrightarrow>
      (if bit a 63 = bit b 63 then bit (a - b) 63 else bit b 63)"
    by (auto simp: bit_simps)
  also have "\<dots> \<longleftrightarrow> a < b"
    using l unfolding msb_iff unat_minus_wrap by (auto simp: word_le_nat_alt word_less_nat_alt)
  finally show ?thesis by (simp add: constant_time_lt_w_def constant_time_msb)
qed

lemma constant_time_is_zero: "constant_time_is_zero_w a = mask_of (a = 0)"
proof -
  have "bit (NOT a AND (a - 1)) 63 \<longleftrightarrow> \<not> bit a 63 \<and> bit (a - 1) 63" by (auto simp: bit_simps)
  also have "\<dots> \<longleftrightarrow> a = 0"
    using unsigned_less [of a] unfolding msb_iff unat_minus_wrap
    by (auto simp: word_le_nat_alt unat_eq_0 [symmetric] simp del: unat_eq_0)
  finally show ?thesis by (simp add: constant_time_is_zero_w_def constant_time_msb)
qed

lemma xor_word_eq_0: "a XOR b = 0 \<longleftrightarrow> a = (b :: 'a::len word)"
proof
  assume "a XOR b = 0"
  then have "(a XOR b) XOR b = 0 XOR b" by simp
  then show "a = b" by (simp add: xor.assoc)
qed simp

lemma constant_time_eq: "constant_time_eq_w a b = mask_of (a = b)"
  by (simp add: constant_time_eq_w_def constant_time_is_zero xor_word_eq_0)

lemma constant_time_select: "constant_time_select_w (mask_of c) a b = (if c then a else b)"
  by (simp add: constant_time_select_w_def)

lemma constant_time_select_byte: "constant_time_select_8 (mask_of c) a b = (if c then a else b)"
  by (cases c) (auto simp: constant_time_select_8_def constant_time_select_w_def bit_simps simp del: bit.compl_zero intro!: bit_eqI)

lemma constant_time_select_int_mask: "constant_time_select_int (mask_of c) a b = (if c then a else b)"
  by (cases c) (auto simp: constant_time_select_int_def constant_time_select_w_def bit_simps simp del: bit.compl_zero intro!: bit_eqI)

lemma constant_time_8:
  "constant_time_lt_8 a b = mask_of (a < b)" "constant_time_ge_8 a b = mask_of (b \<le> a)"
  "constant_time_is_zero_8 a = mask_of (a = 0)" "constant_time_eq_8 a b = mask_of (a = b)"
  by (simp_all add: constant_time_lt_8_def constant_time_ge_8_def constant_time_ge_w_def constant_time_is_zero_8_def
    constant_time_eq_8_def constant_time_lt constant_time_is_zero constant_time_eq mask_of_not ucast_mask_of_8 not_less)

lemma constant_time_ge: "constant_time_ge_w a b = mask_of (b \<le> a)"
  by (simp add: constant_time_ge_w_def constant_time_lt mask_of_not not_less)

lemma scast_32_eq_iff: "(scast (a :: u32) :: crypto_word) = scast b \<longleftrightarrow> a = b"
proof
  assume "(scast a :: crypto_word) = scast b"
  then have "sint (scast a :: crypto_word) = sint (scast b :: crypto_word)" by simp
  then have "word_of_int (sint a) = (word_of_int (sint b) :: u32)" by (simp add: sint_up_scast is_up)
  then show "a = b" by simp
qed simp

text \<open>C25: each of the branch-free functions equals the branch it stands for: the comparisons give the
  mask of all ones exactly if the condition holds, and a selection by such a mask is an if.\<close>

theorem constant_time_branches:
  "constant_time_lt_w a b = mask_of (a < b) \<and> constant_time_ge_w a b = mask_of (b \<le> a) \<and>
   constant_time_is_zero_w a = mask_of (a = 0) \<and> constant_time_eq_w a b = mask_of (a = b) \<and>
   constant_time_lt_8 a b = mask_of (a < b) \<and> constant_time_ge_8 a b = mask_of (b \<le> a) \<and>
   constant_time_is_zero_8 a = mask_of (a = 0) \<and> constant_time_eq_8 a b = mask_of (a = b) \<and>
   constant_time_eq_int i j = mask_of (i = j) \<and> constant_time_eq_int_8 i j = mask_of (i = j) \<and>
   constant_time_select_w (mask_of c) a b = (if c then a else b) \<and>
   constant_time_select_8 (mask_of c) x y = (if c then x else y) \<and>
   constant_time_select_int (mask_of c) i j = (if c then i else j)"
  by (simp add: constant_time_lt constant_time_ge constant_time_is_zero constant_time_eq constant_time_8
    constant_time_select constant_time_select_byte constant_time_select_int_mask
    constant_time_eq_int_def constant_time_eq_int_8_def scast_32_eq_iff)

end
