(* ===== verification/Base64.thy ===== *)
theory Base64
  imports Constant_Time
begin

text \<open>
  Base64 as BoringSSL codes it, \<open>crypto/base64/base64.c\<close>, with the context of its streaming interface. An
  output pointer is an offset in the array that the caller has provided; a write outside of this array
  is undefined behaviour. An input is the list of its bytes.
\<close>

section \<open>Arrays\<close>

definition write_at :: "nat \<Rightarrow> 'a list \<Rightarrow> 'a list \<Rightarrow> 'a list option" where
  "write_at i bs buf =
     (if i + length bs \<le> length buf then Some (take i buf @ bs @ drop (i + length bs) buf) else None)"

definition store_out :: "nat \<Rightarrow> byte list \<Rightarrow> byte list \<Rightarrow> (unit, byte list) res" where
  "store_out i bs buf = (case write_at i bs buf of None \<Rightarrow> UB | Some buf \<Rightarrow> Ok () buf)"

abbreviation (input) INT_MAX :: nat where "INT_MAX \<equiv> 2147483647"

section \<open>Context\<close>

record evp_encode_ctx =
  data_used :: nat
  ctx_data :: "byte list"
  eof_seen :: bool
  error_encountered :: bool

abbreviation (input) sizeof_data :: nat where "sizeof_data \<equiv> 48"

definition EVP_EncodeInit :: evp_encode_ctx where
  "EVP_EncodeInit = \<lparr>data_used = 0, ctx_data = replicate sizeof_data 0, eof_seen = False, error_encountered = False\<rparr>"

definition EVP_DecodeInit :: evp_encode_ctx where
  "EVP_DecodeInit = \<lparr>data_used = 0, ctx_data = replicate sizeof_data 0, eof_seen = False, error_encountered = False\<rparr>"

section \<open>Characters\<close>

definition constant_time_lt_args_8 :: "byte \<Rightarrow> byte \<Rightarrow> byte" where
  "constant_time_lt_args_8 a b = ucast (constant_time_msb_w (ucast a - ucast b))"

definition constant_time_in_range_8 :: "byte \<Rightarrow> byte \<Rightarrow> byte \<Rightarrow> byte" where
  "constant_time_in_range_8 a mn mx = constant_time_lt_args_8 (a - mn) (mx - mn + 1)"

definition conv_bin2ascii :: "byte \<Rightarrow> byte" where
  "conv_bin2ascii a =
     (let a = a AND 0x3F;
        ret = constant_time_select_8 (constant_time_eq_8 (ucast a) 62) 0x2B 0x2F;
        ret = constant_time_select_8 (constant_time_lt_args_8 a 62) (a - 52 + 0x30) ret;
        ret = constant_time_select_8 (constant_time_lt_args_8 a 52) (a - 26 + 0x61) ret
      in constant_time_select_8 (constant_time_lt_args_8 a 26) (a + 0x41) ret)"

definition base64_ascii_to_bin :: "byte \<Rightarrow> byte" where
  "base64_ascii_to_bin a =
     (let is_upper = constant_time_in_range_8 a 0x41 0x5A; is_lower = constant_time_in_range_8 a 0x61 0x7A;
        is_digit = constant_time_in_range_8 a 0x30 0x39; is_plus = constant_time_eq_8 (ucast a) 0x2B;
        is_slash = constant_time_eq_8 (ucast a) 0x2F; is_equals = constant_time_eq_8 (ucast a) 0x3D;
        ret = 0xFF;
        ret = constant_time_select_8 is_upper (a - 0x41) ret;
        ret = constant_time_select_8 is_lower (a - 0x61 + 26) ret;
        ret = constant_time_select_8 is_digit (a - 0x30 + 52) ret;
        ret = constant_time_select_8 is_plus 62 ret;
        ret = constant_time_select_8 is_slash 63 ret
      in constant_time_select_8 is_equals 0 ret)"

section \<open>Encoding\<close>

definition EVP_EncodedLength :: "nat \<Rightarrow> nat option" where
  "EVP_EncodedLength n =
     (if (n + 2) mod 2 ^ 64 < n then None
      else let n = (n + 2) mod 2 ^ 64 div 3 in
        if n * 4 mod 2 ^ 64 div 4 \<noteq> n then None
        else let n = n * 4 mod 2 ^ 64 in
          if (n + 1) mod 2 ^ 64 < n then None else Some ((n + 1) mod 2 ^ 64))"

text \<open>The characters that the loop of \<open>EVP_EncodeBlock\<close> stores.\<close>

fun encode_chars :: "byte list \<Rightarrow> byte list" where
  "encode_chars [] = []"
| "encode_chars (a # b # c # src) =
     (let l = push_bit 16 (ucast a) OR push_bit 8 (ucast b) OR ucast c :: u32 in
      [conv_bin2ascii (ucast (drop_bit 18 l)), conv_bin2ascii (ucast (drop_bit 12 l)),
       conv_bin2ascii (ucast (drop_bit 6 l)), conv_bin2ascii (ucast l)] @ encode_chars src)"
| "encode_chars [a, b] =
     (let l = push_bit 16 (ucast a) OR push_bit 8 (ucast b) :: u32 in
      [conv_bin2ascii (ucast (drop_bit 18 l)), conv_bin2ascii (ucast (drop_bit 12 l)),
       conv_bin2ascii (ucast (drop_bit 6 l)), 0x3D])"
| "encode_chars [a] =
     (let l = push_bit 16 (ucast a) :: u32 in
      [conv_bin2ascii (ucast (drop_bit 18 l)), conv_bin2ascii (ucast (drop_bit 12 l)), 0x3D, 0x3D])"

definition EVP_EncodeBlock :: "nat \<Rightarrow> byte list \<Rightarrow> byte list \<Rightarrow> (nat, byte list) res" where
  "EVP_EncodeBlock dst src buf =
     (let cs = encode_chars src in rbind (store_out dst (cs @ [0]) buf) (\<lambda>_ buf. Ok (length cs) buf))"

text \<open>The loop over whole lines; \<open>tot\<close> characters have been stored before. \<open>None\<close> is its early return.\<close>

function encode_lines :: "nat \<Rightarrow> nat \<Rightarrow> byte list \<Rightarrow> byte list \<Rightarrow> ((nat \<times> byte list) option, byte list) res" where
  "encode_lines out tot src buf =
     (if length src < sizeof_data then Ok (Some (tot, src)) buf
      else rbind (EVP_EncodeBlock out (take sizeof_data src) buf) (\<lambda>encoded buf.
        rbind (store_out (out + encoded) [0x0A, 0] buf) (\<lambda>_ buf.
          if (tot + encoded + 1) mod 2 ^ 64 < tot then Ok None buf
          else encode_lines (out + encoded + 1) ((tot + encoded + 1) mod 2 ^ 64) (drop sizeof_data src) buf)))"
  by pat_completeness auto

termination by (relation "measure (\<lambda>(out, tot, src, buf). length src)") auto

declare encode_lines.simps [simp del]

text \<open>The line that the context has begun is filled and stored.\<close>

definition encode_begun :: "evp_encode_ctx \<Rightarrow> byte list \<Rightarrow> byte list \<Rightarrow> (nat \<times> byte list \<times> evp_encode_ctx, byte list) res" where
  "encode_begun ctx src buf =
     (if data_used ctx \<noteq> 0 then
        let todo = sizeof_data - data_used ctx in
        (case write_at (data_used ctx) (take todo src) (ctx_data ctx) of None \<Rightarrow> UB
         | Some data \<Rightarrow> rbind (EVP_EncodeBlock 0 data buf) (\<lambda>encoded buf.
             rbind (store_out encoded [0x0A, 0] buf) (\<lambda>_ buf.
             Ok (encoded + 1, drop todo src, ctx\<lparr>ctx_data := data, data_used := 0\<rparr>) buf)))
      else Ok (0, src, ctx) buf)"

definition EVP_EncodeUpdate :: "evp_encode_ctx \<Rightarrow> byte list \<Rightarrow> byte list \<Rightarrow> (nat \<times> evp_encode_ctx, byte list) res" where
  "EVP_EncodeUpdate ctx src buf =
     (if src = [] then Ok (0, ctx) buf
      else if \<not> data_used ctx < sizeof_data then UB
      else if length src < sizeof_data - data_used ctx then
        (case write_at (data_used ctx) src (ctx_data ctx) of None \<Rightarrow> UB
         | Some data \<Rightarrow> Ok (0, ctx\<lparr>ctx_data := data, data_used := data_used ctx + length src\<rparr>) buf)
      else rbind (encode_begun ctx src buf) (\<lambda>(tot, src, ctx) buf.
        rbind (encode_lines tot tot src buf) (\<lambda>r buf.
          case r of None \<Rightarrow> Ok (0, ctx) buf
          | Some (tot, src) \<Rightarrow> (case write_at 0 src (ctx_data ctx) of None \<Rightarrow> UB
             | Some data \<Rightarrow> Ok (if INT_MAX < tot then 0 else tot,
                 ctx\<lparr>ctx_data := data, data_used := length src\<rparr>) buf))))"

definition EVP_EncodeFinal :: "evp_encode_ctx \<Rightarrow> byte list \<Rightarrow> (nat \<times> evp_encode_ctx, byte list) res" where
  "EVP_EncodeFinal ctx buf =
     (if data_used ctx = 0 then Ok (0, ctx) buf
      else if length (ctx_data ctx) < data_used ctx then UB
      else rbind (EVP_EncodeBlock 0 (take (data_used ctx) (ctx_data ctx)) buf) (\<lambda>encoded buf.
        rbind (store_out encoded [0x0A, 0] buf) (\<lambda>_ buf.
        if INT_MAX < encoded + 1 then UB else Ok (encoded + 1, ctx\<lparr>data_used := 0\<rparr>) buf)))"

section \<open>Decoding\<close>

definition EVP_DecodedLength :: "nat \<Rightarrow> nat option" where
  "EVP_DecodedLength n = (if n mod 4 \<noteq> 0 then None else Some (n div 4 * 3))"

text \<open>One to three bytes from four characters, or nothing.\<close>

definition base64_decode_quad :: "byte \<Rightarrow> byte \<Rightarrow> byte \<Rightarrow> byte \<Rightarrow> byte list option" where
  "base64_decode_quad i0 i1 i2 i3 =
     (let a = base64_ascii_to_bin i0; b = base64_ascii_to_bin i1;
        c = base64_ascii_to_bin i2; d = base64_ascii_to_bin i3 in
      if a = 0xFF \<or> b = 0xFF \<or> c = 0xFF \<or> d = 0xFF then None
      else let v = push_bit 18 (ucast a) OR push_bit 12 (ucast b) OR push_bit 6 (ucast c) OR ucast d :: u32;
        padding_pattern = (of_bool (i0 = 0x3D) * 8 + of_bool (i1 = 0x3D) * 4 + of_bool (i2 = 0x3D) * 2 +
          of_bool (i3 = 0x3D) :: nat) in
        if padding_pattern = 0 then Some [ucast (drop_bit 16 v), ucast (drop_bit 8 v), ucast v]
        else if padding_pattern = 1 then Some [ucast (drop_bit 16 v), ucast (drop_bit 8 v)]
        else if padding_pattern = 3 then Some [ucast (drop_bit 16 v)]
        else None)"

definition decode_quad_at :: "byte list \<Rightarrow> byte list option option" where
  "decode_quad_at bs = (case bs of i0 # i1 # i2 # i3 # _ \<Rightarrow> Some (base64_decode_quad i0 i1 i2 i3) | _ \<Rightarrow> None)"

definition is_space :: "byte \<Rightarrow> bool" where
  "is_space c \<longleftrightarrow> c = 0x20 \<or> c = 0x09 \<or> c = 0x0D \<or> c = 0x0A"

text \<open>The loop of \<open>EVP_DecodeUpdate\<close> with the bytes stored so far; \<open>None\<close> is its early return.\<close>

fun decode_chars :: "evp_encode_ctx \<Rightarrow> nat \<Rightarrow> byte list \<Rightarrow> byte list \<Rightarrow> (nat option \<times> evp_encode_ctx, byte list) res" where
  "decode_chars ctx out [] buf = Ok (Some out, ctx) buf"
| "decode_chars ctx out (c # cs) buf =
     (if is_space c then decode_chars ctx out cs buf
      else if eof_seen ctx then Ok (None, ctx\<lparr>error_encountered := True\<rparr>) buf
      else case write_at (data_used ctx) [c] (ctx_data ctx) of None \<Rightarrow> UB
      | Some data \<Rightarrow>
          let ctx = ctx\<lparr>ctx_data := data, data_used := data_used ctx + 1\<rparr> in
          if data_used ctx = 4 then
            (case decode_quad_at (ctx_data ctx) of None \<Rightarrow> UB
             | Some None \<Rightarrow> Ok (None, ctx\<lparr>error_encountered := True\<rparr>) buf
             | Some (Some bs) \<Rightarrow> rbind (store_out out bs buf) (\<lambda>_ buf.
                 decode_chars (ctx\<lparr>data_used := 0, eof_seen := (eof_seen ctx \<or> length bs < 3)\<rparr>)
                   (out + length bs) cs buf))
          else decode_chars ctx out cs buf)"

text \<open>The result is the return value, the value of \<open>out_len\<close> and the context.\<close>

definition EVP_DecodeUpdate :: "evp_encode_ctx \<Rightarrow> byte list \<Rightarrow> byte list \<Rightarrow> (int \<times> nat \<times> evp_encode_ctx, byte list) res" where
  "EVP_DecodeUpdate ctx src buf =
     (if error_encountered ctx then Ok (-1, 0, ctx) buf
      else rbind (decode_chars ctx 0 src buf) (\<lambda>(r, ctx) buf.
        case r of None \<Rightarrow> Ok (-1, 0, ctx) buf
        | Some bytes_out \<Rightarrow>
            if INT_MAX < bytes_out then Ok (-1, 0, ctx\<lparr>error_encountered := True\<rparr>) buf
            else Ok (if eof_seen ctx then 0 else 1, bytes_out, ctx) buf))"

definition EVP_DecodeFinal :: "evp_encode_ctx \<Rightarrow> int" where
  "EVP_DecodeFinal ctx = (if error_encountered ctx \<or> data_used ctx \<noteq> 0 then -1 else 1)"

text \<open>The loop of \<open>EVP_DecodeBase64\<close>.\<close>

fun decode_quads :: "nat \<Rightarrow> byte list \<Rightarrow> byte list \<Rightarrow> (nat, byte list) res" where
  "decode_quads out (i0 # i1 # i2 # i3 # src) buf =
     (case base64_decode_quad i0 i1 i2 i3 of None \<Rightarrow> Fail buf
      | Some bs \<Rightarrow> rbind (store_out out bs buf) (\<lambda>_ buf.
          if length bs \<noteq> 3 \<and> src \<noteq> [] then Fail buf else decode_quads (out + length bs) src buf))"
| "decode_quads out _ buf = Ok out buf"

definition EVP_DecodeBase64 :: "nat \<Rightarrow> byte list \<Rightarrow> byte list \<Rightarrow> (nat, byte list) res" where
  "EVP_DecodeBase64 max_out src buf =
     (if length src mod 4 \<noteq> 0 then Fail buf
      else case EVP_DecodedLength (length src) of None \<Rightarrow> Fail buf
      | Some max_len \<Rightarrow> if max_out < max_len then Fail buf else decode_quads 0 src buf)"

definition trim_start :: "byte list \<Rightarrow> byte list" where
  "trim_start src = dropWhile (\<lambda>c. c = 0x20 \<or> c = 0x09) src"

definition trim_end :: "byte list \<Rightarrow> byte list" where
  "trim_end src = rev (dropWhile is_space (rev src))"

definition EVP_DecodeBlock :: "byte list \<Rightarrow> byte list \<Rightarrow> (nat, byte list) res" where
  "EVP_DecodeBlock src buf =
     (let src = trim_end (trim_start src) in
      case EVP_DecodedLength (length src) of None \<Rightarrow> Fail buf
      | Some dst_len \<Rightarrow>
          if INT_MAX < dst_len then Fail buf
          else rbind (EVP_DecodeBase64 dst_len src buf) (\<lambda>dst_len buf.
            let padded = (dst_len + 2) div 3 * 3 in
            rbind (store_out dst_len (replicate (padded - dst_len) 0) buf) (\<lambda>_ buf.
            if INT_MAX < padded then UB else Ok padded buf)))"

end
