(* ===== verification/Base64_Spec.thy ===== *)
theory Base64_Spec
  imports Base64
begin

text \<open>
  The streaming interface of Base64 and its one-shot functions against a reference: the alphabet as a
  list, lines of 64 characters, and decoding by quads of a text without white space.
\<close>

section \<open>Characters\<close>

definition chars :: "string \<Rightarrow> byte list" where
  "chars = map (\<lambda>c. of_nat (of_char c))"

definition alphabet :: "byte list" where
  "alphabet = chars ''ABCDEFGHIJKLMNOPQRSTUVWXYZabcdefghijklmnopqrstuvwxyz0123456789+/''"

lemma lt_args_8: "constant_time_lt_args_8 a b = mask_of (a < b)"
proof -
  have "unat a < 2 ^ 8" "unat b < 2 ^ 8" using unsigned_less [of a] unsigned_less [of b] by simp_all
  moreover have "unat (ucast a :: crypto_word) = unat a" "unat (ucast b :: crypto_word) = unat b"
    using calculation by (simp_all add: unsigned_ucast_eq take_bit_nat_eq_self)
  ultimately have "bit (ucast a - ucast b :: crypto_word) 63 \<longleftrightarrow> a < b"
    unfolding msb_iff unat_minus_wrap word_le_nat_alt word_less_nat_alt by auto
  then show ?thesis by (simp add: constant_time_lt_args_8_def constant_time_msb ucast_mask_of_8)
qed

lemma ucast_ucast_byte: "ucast (ucast a :: crypto_word) = (a :: byte)"
  by (rule bit_eqI) (simp add: bit_simps)

lemma eq_8: "constant_time_eq_8 (ucast a) (ucast b) = (mask_of (a = b) :: byte)" for a b :: byte
  by (simp add: constant_time_8 mask_of_eq_iff) (metis ucast_ucast_byte)

lemma conv_branches:
  "conv_bin2ascii a = (let a = a AND 0x3F in
     if a < 26 then a + 0x41 else if a < 52 then a - 26 + 0x61 else if a < 62 then a - 52 + 0x30
     else if a = 62 then 0x2B else 0x2F)"
  using eq_8 [of "a AND 0x3F" 62]
  by (simp add: conv_bin2ascii_def Let_def lt_args_8 constant_time_select_byte)

lemma bin_branches:
  "base64_ascii_to_bin a =
     (if a = 0x3D then 0 else if a = 0x2F then 63 else if a = 0x2B then 62
      else if a - 0x30 < 10 then a - 0x30 + 52 else if a - 0x61 < 26 then a - 0x61 + 26
      else if a - 0x41 < 26 then a - 0x41 else 0xFF)"
  using eq_8 [of a "0x3D"] eq_8 [of a "0x2F"] eq_8 [of a "0x2B"]
  by (simp add: base64_ascii_to_bin_def Let_def lt_args_8 constant_time_in_range_8_def constant_time_select_byte)

text \<open>The encoding of a character is the entry of the alphabet, and the decoding its inverse.\<close>

lemma alphabet_codes:
  "alphabet =
     [65, 66, 67, 68, 69, 70, 71, 72, 73, 74, 75, 76, 77, 78, 79, 80, 81, 82, 83, 84, 85, 86, 87, 88, 89,
     90, 97, 98, 99, 100, 101, 102, 103, 104, 105, 106, 107, 108, 109, 110, 111, 112, 113, 114, 115, 116,
     117, 118, 119, 120, 121, 122, 48, 49, 50, 51, 52, 53, 54, 55, 56, 57, 43, 47]"
  unfolding alphabet_def chars_def by code_simp

lemma alphabet_encodes: "map (\<lambda>n. conv_bin2ascii (of_nat n)) [0..<64] = alphabet"
  unfolding conv_branches alphabet_codes by code_simp

lemma alphabet_decodes: "map base64_ascii_to_bin alphabet = map of_nat [0..<64]"
  unfolding bin_branches alphabet_codes by code_simp

lemma alphabet_plain: "list_all (\<lambda>c. c \<noteq> 0x3D \<and> \<not> is_space c) alphabet"
  unfolding alphabet_codes by code_simp

lemma length_alphabet [simp]: "length alphabet = 64"
  unfolding alphabet_codes by simp

lemma alphabet_nth:
  assumes "n < 64"
  shows "conv_bin2ascii (of_nat n) = alphabet ! n" "base64_ascii_to_bin (alphabet ! n) = of_nat n"
    "alphabet ! n \<noteq> 0x3D" "\<not> is_space (alphabet ! n)"
proof -
  have "map (\<lambda>n. conv_bin2ascii (of_nat n)) [0..<64] ! n = alphabet ! n" by (simp only: alphabet_encodes)
  then show "conv_bin2ascii (of_nat n) = alphabet ! n" using assms by simp
  have "map base64_ascii_to_bin alphabet ! n = map of_nat [0..<64] ! n" by (simp only: alphabet_decodes)
  then show "base64_ascii_to_bin (alphabet ! n) = of_nat n" using assms by simp
  show "alphabet ! n \<noteq> 0x3D" "\<not> is_space (alphabet ! n)" using alphabet_plain assms by (auto simp: list_all_length)
qed

lemma and_3F: "unat (a AND 0x3F :: byte) < 64"
proof -
  have "a AND 0x3F = take_bit 6 a" by (simp add: take_bit_eq_mask mask_eq_exp_minus_1)
  then show ?thesis using take_bit_nat_less_exp [of 6 "unat a"] by (simp add: unsigned_take_bit_eq)
qed

lemma conv_mod: "conv_bin2ascii (a AND 0x3F) = conv_bin2ascii a"
  by (simp add: conv_branches and.assoc)

lemma conv_alphabet: "conv_bin2ascii a = alphabet ! unat (a AND 0x3F)"
  using alphabet_nth(1) [OF and_3F [of a]] conv_mod [of a] by simp

lemma conv_inverse:
  "base64_ascii_to_bin (conv_bin2ascii a) = a AND 0x3F" "conv_bin2ascii a \<noteq> 0x3D" "\<not> is_space (conv_bin2ascii a)"
  using alphabet_nth [OF and_3F [of a]] unfolding conv_alphabet by simp_all

lemma and_3F_not_FF: "(a :: byte) AND 0x3F \<noteq> 0xFF"
  using and_3F [of a] by (auto simp: word_unat_eq_iff)

lemma and_3F_take: "(a :: byte) AND 0x3F = take_bit 6 a"
  by (simp add: take_bit_eq_mask mask_eq_exp_minus_1)

lemma take_6_not_FF: "take_bit 6 (a :: byte) \<noteq> 0xFF"
  using and_3F_not_FF unfolding and_3F_take .

lemma pad_bin: "base64_ascii_to_bin 0x3D = 0"
  by (simp add: bin_branches)

lemma sextet: "ucast (take_bit 6 (ucast x :: byte)) = (take_bit 6 x :: u32)"
  by (rule bit_eqI) (auto simp: bit_simps)

lemma take_bit_or_push6: "push_bit n (take_bit 6 (drop_bit n l)) OR take_bit n l = take_bit (n + 6) l" for l :: u32
  by (rule bit_eqI) (auto simp: bit_simps)

lemma sextets:
  "push_bit 18 (take_bit 6 (drop_bit 18 l)) OR push_bit 12 (take_bit 6 (drop_bit 12 l)) OR
   push_bit 6 (take_bit 6 (drop_bit 6 l)) OR take_bit 6 l = take_bit 24 (l :: u32)"
  using take_bit_or_push6 [of 6 l] take_bit_or_push6 [of 12 l] take_bit_or_push6 [of 18 l] by (simp add: or.assoc)

text \<open>The value of four characters; those of the padding count as zero.\<close>

lemma quad_value:
  assumes "\<forall>i \<in> {i0, i1, i2, i3}. base64_ascii_to_bin i \<noteq> 0xFF" and "i0 \<noteq> 0x3D" "i1 \<noteq> 0x3D"
    and "push_bit 18 (ucast (base64_ascii_to_bin i0)) OR push_bit 12 (ucast (base64_ascii_to_bin i1)) OR
      push_bit 6 (ucast (base64_ascii_to_bin i2)) OR ucast (base64_ascii_to_bin i3) = (v :: u32)"
  shows "base64_decode_quad i0 i1 i2 i3 =
    (if i2 = 0x3D then if i3 = 0x3D then Some [ucast (drop_bit 16 v)] else None
     else if i3 = 0x3D then Some [ucast (drop_bit 16 v), ucast (drop_bit 8 v)]
     else Some [ucast (drop_bit 16 v), ucast (drop_bit 8 v), ucast v])"
  using assms by (simp add: base64_decode_quad_def)

lemma triple_bytes:
  fixes a b c :: byte
  defines "l \<equiv> push_bit 16 (ucast a) OR push_bit 8 (ucast b) OR ucast c :: u32"
  shows "take_bit 24 l = l" "ucast (drop_bit 16 l) = a" "ucast (drop_bit 8 l) = b" "ucast l = c"
  unfolding l_def by (rule bit_eqI, auto simp: bit_simps dest: bit_imp_le_length)+

text \<open>A quad gives back the bytes that it encodes.\<close>

lemma quad_3:
  fixes a b c :: byte
  defines "l \<equiv> push_bit 16 (ucast a) OR push_bit 8 (ucast b) OR ucast c :: u32"
  shows "base64_decode_quad (conv_bin2ascii (ucast (drop_bit 18 l))) (conv_bin2ascii (ucast (drop_bit 12 l)))
    (conv_bin2ascii (ucast (drop_bit 6 l))) (conv_bin2ascii (ucast l)) = Some [a, b, c]"
  using sextets [of l] triple_bytes [of a b c] sextet [of l] unfolding l_def [symmetric]
  by (subst quad_value) (simp_all add: conv_inverse take_6_not_FF and_3F_take sextet)

lemma quad_2:
  fixes a b :: byte
  defines "l \<equiv> push_bit 16 (ucast a) OR push_bit 8 (ucast b) :: u32"
  shows "base64_decode_quad (conv_bin2ascii (ucast (drop_bit 18 l))) (conv_bin2ascii (ucast (drop_bit 12 l)))
    (conv_bin2ascii (ucast (drop_bit 6 l))) 0x3D = Some [a, b]"
proof -
  have "take_bit 6 l = 0" unfolding l_def by (rule bit_eqI) (auto simp: bit_simps)
  then show ?thesis
    using sextets [of l] triple_bytes [of a b 0] unfolding l_def [symmetric]
    by (subst quad_value) (simp_all add: conv_inverse take_6_not_FF and_3F_take sextet pad_bin l_def [symmetric])
qed

lemma quad_1:
  fixes a :: byte
  defines "l \<equiv> push_bit 16 (ucast a) :: u32"
  shows "base64_decode_quad (conv_bin2ascii (ucast (drop_bit 18 l))) (conv_bin2ascii (ucast (drop_bit 12 l))) 0x3D 0x3D
    = Some [a]"
proof -
  have "take_bit 6 l = 0" "take_bit 6 (drop_bit 6 l) = 0"
    unfolding l_def by (rule bit_eqI, auto simp: bit_simps)+
  then show ?thesis
    using sextets [of l] triple_bytes [of a 0 0] unfolding l_def [symmetric]
    by (subst quad_value) (simp_all add: conv_inverse take_6_not_FF and_3F_take sextet pad_bin l_def [symmetric])
qed

section \<open>Decoding by quads\<close>

text \<open>The bytes of a text, the up to three characters that remain and whether the end has been seen.\<close>

definition after :: "byte list \<Rightarrow> (byte list \<times> byte list \<times> bool) option \<Rightarrow> (byte list \<times> byte list \<times> bool) option" where
  "after bs r = (case r of None \<Rightarrow> None | Some (rest, p, e) \<Rightarrow> Some (bs @ rest, p, e))"

lemma after_simps [simp]: "after bs None = None" "after bs (Some (rest, p, e)) = Some (bs @ rest, p, e)"
  "after [] r = r" "after bs (after cs r) = after (bs @ cs) r"
  by (auto simp: after_def split: option.splits)

lemma after_Some_iff: "after bs r = Some (x, p, e) \<longleftrightarrow> (\<exists>rest. r = Some (rest, p, e) \<and> x = bs @ rest)"
  by (auto simp: after_def split: option.splits)

fun decode_text :: "byte list \<Rightarrow> (byte list \<times> byte list \<times> bool) option" where
  "decode_text (i0 # i1 # i2 # i3 # cs) =
     (case base64_decode_quad i0 i1 i2 i3 of None \<Rightarrow> None
      | Some bs \<Rightarrow>
          if length bs < 3 then if cs = [] then Some (bs, [], True) else None
          else after bs (decode_text cs))"
| "decode_text cs = Some ([], cs, False)"

lemma decode_text_short: "length cs < 4 \<Longrightarrow> decode_text cs = Some ([], cs, False)"
  by (cases cs rule: decode_text.cases) auto

lemma length_quad: "base64_decode_quad i0 i1 i2 i3 = Some bs \<Longrightarrow> 0 < length bs \<and> length bs \<le> 3"
  by (auto simp: base64_decode_quad_def Let_def split: if_splits)

lemma decode_text_pending:
  "decode_text cs = Some (bs, p, e) \<Longrightarrow> length p < 4 \<and> (e \<longrightarrow> p = []) \<and> length bs \<le> 3 * (length cs div 4)"
proof (induction cs arbitrary: bs p e rule: decode_text.induct)
  case (1 i0 i1 i2 i3 cs)
  obtain x where x: "base64_decode_quad i0 i1 i2 i3 = Some x" "0 < length x" "length x \<le> 3"
    using 1(2) length_quad by (cases "base64_decode_quad i0 i1 i2 i3") auto
  show ?case
  proof (cases "length x < 3")
    case True
    then show ?thesis using 1(2) x by (auto split: if_splits)
  next
    case False
    then obtain rest where "decode_text cs = Some (rest, p, e)" "bs = x @ rest"
      using 1(2) x by (auto simp: after_Some_iff)
    then show ?thesis using 1(1) [OF x(1) False] x div_add_self1 [of 4 "length cs"] by simp
  qed
qed auto

text \<open>A text may be decoded in two parts.\<close>

lemma decode_text_append:
  "decode_text (xs @ ys) = (case decode_text xs of None \<Rightarrow> None
     | Some (bs, p, e) \<Rightarrow>
         if e then if ys = [] then Some (bs, p, e) else None
         else after bs (decode_text (p @ ys)))"
proof (induction xs rule: decode_text.induct)
  case (1 i0 i1 i2 i3 xs)
  show ?case
  proof (cases "base64_decode_quad i0 i1 i2 i3")
    case (Some bs)
    show ?thesis
    proof (cases "length bs < 3")
      case False
      then show ?thesis using Some 1 [OF Some]
        by (cases "decode_text xs") auto
    qed (use Some in auto)
  qed simp
qed simp_all

text \<open>An encoded text has no white space and decodes to the bytes encoded.\<close>

lemma encode_chars_plain: "\<forall>c \<in> set (encode_chars bs). \<not> is_space c"
  by (induction bs rule: encode_chars.induct) (auto simp: Let_def conv_inverse is_space_def [of "0x3D"])

lemma length_encode_chars: "length (encode_chars bs) = (length bs + 2) div 3 * 4"
proof (induction bs rule: encode_chars.induct)
  case (2 a b c src)
  have "(length (a # b # c # src) + 2) div 3 = Suc ((length src + 2) div 3)"
    using div_add_self2 [of 3 "length src + 2"] by simp
  then show ?case using 2 by (simp add: Let_def)
qed (simp_all add: Let_def)

lemma mod_3_Suc: "Suc (Suc (Suc n)) mod 3 = n mod 3"
  using mod_add_self2 [of n 3] by simp

lemma decode_encode: "decode_text (encode_chars bs) = Some (bs, [], length bs mod 3 \<noteq> 0)"
  by (induction bs rule: encode_chars.induct)
    (simp_all add: Let_def quad_3 quad_2 quad_1 mod_3_Suc del: drop_bit_or)

lemma encode_chars_append: "length xs mod 3 = 0 \<Longrightarrow> encode_chars (xs @ ys) = encode_chars xs @ encode_chars ys"
  by (induction xs rule: encode_chars.induct) (simp_all add: Let_def mod_3_Suc)

section \<open>Arrays\<close>

lemma store_out_Ok: "i + length bs \<le> length buf \<Longrightarrow> store_out i bs buf = Ok () (take i buf @ bs @ drop (i + length bs) buf)"
  by (simp add: store_out_def write_at_def)

text \<open>A buffer that holds \<open>out\<close> at its beginning and is otherwise as long as, and behind the \<open>m\<close>th byte the same as, before.\<close>

definition holds :: "byte list \<Rightarrow> nat \<Rightarrow> byte list \<Rightarrow> byte list \<Rightarrow> bool" where
  "holds out m buf buf' \<longleftrightarrow> take (length out) buf' = out \<and> length buf' = length buf \<and> drop m buf' = drop m buf"

lemma holds_append:
  assumes "holds out m buf buf'" and "length out + length bs \<le> m" "m \<le> length buf"
  shows "store_out (length out) bs buf' = Ok () (out @ bs @ drop (length out + length bs) buf') \<and>
    holds (out @ bs) m buf (out @ bs @ drop (length out + length bs) buf')"
  using assms by (auto simp: holds_def store_out_Ok)

lemma holds_prefix: "holds (xs @ ys) m buf buf' \<Longrightarrow> holds xs m buf buf'"
  unfolding holds_def by (metis append_eq_conv_conj append_take_drop_id append.assoc)

section \<open>Encoding a stream\<close>

definition pending :: "evp_encode_ctx \<Rightarrow> byte list" where
  "pending ctx = take (data_used ctx) (ctx_data ctx)"

definition ctx_ok :: "nat \<Rightarrow> evp_encode_ctx \<Rightarrow> bool" where
  "ctx_ok n ctx \<longleftrightarrow> length (ctx_data ctx) = sizeof_data \<and> data_used ctx < n"

lemma length_pending: "ctx_ok n ctx \<Longrightarrow> n \<le> sizeof_data \<Longrightarrow> length (pending ctx) = data_used ctx"
  by (simp add: ctx_ok_def pending_def)

text \<open>The full lines of a text and the bytes behind them; the whole text.\<close>

function lines :: "byte list \<Rightarrow> byte list" where
  "lines bs = (if length bs < sizeof_data then []
     else encode_chars (take sizeof_data bs) @ [0x0A] @ lines (drop sizeof_data bs))"
  by pat_completeness auto

termination by (relation "measure length") auto

declare lines.simps [simp del]

definition behind :: "byte list \<Rightarrow> byte list" where
  "behind bs = drop (length bs div sizeof_data * sizeof_data) bs"

definition armor :: "byte list \<Rightarrow> byte list" where
  "armor bs = lines bs @ (if behind bs = [] then [] else encode_chars (behind bs) @ [0x0A])"

lemma lines_short: "length bs < sizeof_data \<Longrightarrow> lines bs = []"
  by (simp add: lines.simps)

lemma lines_line: "length xs = sizeof_data \<Longrightarrow> lines (xs @ ys) = encode_chars xs @ [0x0A] @ lines ys"
  by (simp add: lines.simps [of "xs @ ys"])

lemma behind_short: "length bs < sizeof_data \<Longrightarrow> behind bs = bs"
  by (simp add: behind_def)

lemma behind_line: "length xs = sizeof_data \<Longrightarrow> behind (xs @ ys) = behind ys"
  using div_add_self1 [of 48 "length ys"] by (simp add: behind_def)

lemma first_line:
  assumes "\<not> length bs < sizeof_data"
  obtains x r where "bs = x @ r" "length x = sizeof_data"
  using assms that [of "take 48 bs" "drop 48 bs"] by simp

lemma length_lines: "length (lines bs) = length bs div sizeof_data * 65"
proof (induction bs rule: lines.induct)
  case (1 bs)
  show ?case
  proof (cases "length bs < sizeof_data")
    case False
    then have "length bs div 48 = Suc ((length bs - 48) div 48)" by (simp add: le_div_geq)
    then show ?thesis using 1 False by (simp add: lines.simps [of bs] length_encode_chars)
  qed (simp add: lines_short)
qed

lemma length_behind: "length (behind bs) = length bs mod sizeof_data"
  by (simp add: behind_def minus_div_mult_eq_mod)

lemma lines_behind:
  "lines (xs @ ys) = lines xs @ lines (behind xs @ ys) \<and> behind (xs @ ys) = behind (behind xs @ ys)"
proof (induction xs rule: lines.induct)
  case (1 xs)
  show ?case
  proof (cases "length xs < sizeof_data")
    case False
    then obtain x r where x: "xs = x @ r" "length x = 48" by (rule first_line)
    then show ?thesis using 1 [OF False] by (simp add: lines_line behind_line)
  qed (simp add: lines_short behind_short)
qed

lemma encode_lines_correct:
  assumes "holds out m buf0 buf" and "length (out @ lines src) < m" "m \<le> length buf0" "m < 2 ^ 63"
  shows "\<exists>buf'. encode_lines (length out) (length out) src buf = Ok (Some (length (out @ lines src), behind src)) buf' \<and>
    holds (out @ lines src) m buf0 buf'"
  using assms
proof (induction src arbitrary: out buf rule: lines.induct)
  case (1 src)
  show ?case
  proof (cases "length src < sizeof_data")
    case True
    then show ?thesis using 1(2) by (auto simp: encode_lines.simps [of "length out"] lines_short behind_short)
  next
    case False
    then obtain x r where x: "src = x @ r" "length x = 48" by (rule first_line)
    let ?cs = "encode_chars x" let ?out = "out @ ?cs @ [0x0A]"
    have lines: "lines src = ?cs @ [0x0A] @ lines r" "behind src = behind r"
      using x by (simp_all add: lines_line behind_line)
    have len: "length ?cs = 64" using x(2) by (simp add: length_encode_chars)
    have m: "length out + 66 \<le> m" "m \<le> length buf0" using 1(3,4) len unfolding lines(1) by simp_all
    obtain buf1 where 2: "store_out (length out) (?cs @ [0]) buf = Ok () buf1" "holds ((out @ ?cs) @ [0]) m buf0 buf1"
      using holds_append [OF 1(2), of "?cs @ [0]"] m len by auto
    obtain buf2 where 3: "store_out (length (out @ ?cs)) [0x0A, 0] buf1 = Ok () buf2" "holds (?out @ [0]) m buf0 buf2"
      using holds_append [OF holds_prefix [OF 2(2)], of "[0x0A, 0]"] m len by auto
    have "encode_lines (length out) (length out) src buf = encode_lines (length ?out) (length ?out) r buf2"
      using 2(1) 3(1) x len m(1) 1(5) False
      by (simp add: encode_lines.simps [of "length out"] EVP_EncodeBlock_def add.commute [of 65])
    moreover have "drop 48 src = r" using x by simp
    then have "\<exists>buf'. encode_lines (length ?out) (length ?out) r buf2 = Ok (Some (length (?out @ lines r), behind r)) buf' \<and>
        holds (?out @ lines r) m buf0 buf'"
      using 1(1) [OF False, of ?out buf2] holds_prefix [OF 3(2)] 1(3-5) unfolding lines(1) by simp
    ultimately show ?thesis unfolding lines by simp
  qed
qed

lemma encode_begun_correct:
  assumes "ctx_ok sizeof_data ctx" and "sizeof_data - data_used ctx \<le> length src"
    and "length (lines (pending ctx @ src)) < m" "m \<le> length buf"
  obtains out src' ctx' buf' where "encode_begun ctx src buf = Ok (length out, src', ctx') buf'"
    "lines (pending ctx @ src) = out @ lines src'" "behind (pending ctx @ src) = behind src'"
    "holds out m buf buf'" "length (ctx_data ctx') = sizeof_data"
proof (cases "data_used ctx = 0")
  case True
  then show thesis using that [of "[]" src ctx buf] assms(1)
    by (simp add: encode_begun_def pending_def holds_def ctx_ok_def)
next
  case False
  let ?p = "pending ctx" and ?todo = "48 - data_used ctx"
  have ctx: "length (ctx_data ctx) = 48" "data_used ctx < 48" using assms(1) by (simp_all add: ctx_ok_def)
  let ?x = "?p @ take ?todo src"
  have x: "length ?x = 48" using ctx assms(2) by (simp add: pending_def)
  have line: "lines (?p @ src) = encode_chars ?x @ [0x0A] @ lines (drop ?todo src)" "behind (?p @ src) = behind (drop ?todo src)"
    using lines_line [OF x, of "drop ?todo src"] behind_line [OF x, of "drop ?todo src"] by simp_all
  have data: "write_at (data_used ctx) (take ?todo src) (ctx_data ctx) = Some ?x"
    using ctx assms(2) by (simp add: write_at_def pending_def)
  have len: "length (encode_chars ?x) = 64" using x by (simp only: length_encode_chars) simp
  then have m: "66 \<le> m" using assms(3) unfolding line by simp
  obtain buf1 where 1: "store_out 0 (encode_chars ?x @ [0]) buf = Ok () buf1" "holds (encode_chars ?x @ [0]) m buf buf1"
    using holds_append [of "[]" m buf buf "encode_chars ?x @ [0]"] m len assms(4) by (auto simp: holds_def)
  obtain buf2 where 2: "store_out 64 [0x0A, 0] buf1 = Ok () buf2" "holds ((encode_chars ?x @ [0x0A]) @ [0]) m buf buf2"
    using holds_append [OF holds_prefix [OF 1(2)], of "[0x0A, 0]"] m len assms(4) by auto
  have "encode_begun ctx src buf = Ok (65, drop ?todo src, ctx\<lparr>ctx_data := ?x, data_used := 0\<rparr>) buf2"
    using False data 1(1) 2(1) len by (simp add: encode_begun_def EVP_EncodeBlock_def Let_def)
  then show thesis
    using that [of "encode_chars ?x @ [0x0A]"] holds_prefix [OF 2(2)] line x len by simp
qed

text \<open>One update: full lines are stored, the other bytes wait in the context.\<close>

lemma encode_update:
  assumes "ctx_ok sizeof_data ctx" and "length (lines (pending ctx @ src)) < m" "m \<le> length buf" "m \<le> INT_MAX"
  shows "\<exists>ctx' buf'. EVP_EncodeUpdate ctx src buf = Ok (length (lines (pending ctx @ src)), ctx') buf' \<and>
    ctx_ok sizeof_data ctx' \<and> pending ctx' = behind (pending ctx @ src) \<and>
    holds (lines (pending ctx @ src)) m buf buf'"
proof -
  let ?p = "pending ctx" and ?n = "data_used ctx"
  have ctx: "length (ctx_data ctx) = 48" "?n < 48" using assms(1) by (simp_all add: ctx_ok_def)
  have p: "length ?p = ?n" using ctx by (simp add: pending_def)
  consider (empty) "src = []" | (short) "src \<noteq> []" "length src < 48 - ?n" | (long) "src \<noteq> []" "48 - ?n \<le> length src"
    by linarith
  then show ?thesis
  proof cases
    case empty
    then show ?thesis using assms(1) p ctx
      by (simp add: EVP_EncodeUpdate_def lines_short behind_short holds_def)
  next
    case short
    then have "length (?p @ src) < 48" using p by simp
    moreover have "write_at ?n src (ctx_data ctx) = Some (take ?n (ctx_data ctx) @ src @ drop (?n + length src) (ctx_data ctx))"
      using short ctx by (simp add: write_at_def)
    ultimately show ?thesis using short ctx
      by (simp add: EVP_EncodeUpdate_def lines_short behind_short holds_def ctx_ok_def pending_def)
  next
    case long
    obtain out src' ctx1 buf1 where 1: "encode_begun ctx src buf = Ok (length out, src', ctx1) buf1"
      "lines (?p @ src) = out @ lines src'" "behind (?p @ src) = behind src'" "holds out m buf buf1"
      "length (ctx_data ctx1) = 48"
      using encode_begun_correct [OF assms(1) long(2) assms(2,3)] by blast
    obtain buf2 where 2: "encode_lines (length out) (length out) src' buf1 = Ok (Some (length (out @ lines src'), behind src')) buf2"
      "holds (out @ lines src') m buf buf2"
      using encode_lines_correct [OF 1(4), of src'] assms(2-4) 1(2) by auto
    have behind: "length (behind src') < 48" by (simp add: length_behind)
    let ?ctx = "ctx1\<lparr>ctx_data := behind src' @ drop (length (behind src')) (ctx_data ctx1), data_used := length (behind src')\<rparr>"
    have "EVP_EncodeUpdate ctx src buf = Ok (length (out @ lines src'), ?ctx) buf2"
      using long ctx 1(1,2,5) 2(1) assms(2,4) behind by (simp add: EVP_EncodeUpdate_def write_at_def)
    moreover have "ctx_ok 48 ?ctx" "pending ?ctx = behind src'"
      using behind 1(5) by (simp_all add: ctx_ok_def pending_def)
    ultimately show ?thesis using 1(2,3) 2(2) by auto
  qed
qed

lemma encode_final:
  assumes "ctx_ok sizeof_data ctx" and "66 \<le> length buf"
  shows "\<exists>ctx' buf' n. EVP_EncodeFinal ctx buf = Ok (n, ctx') buf' \<and> take n buf' = armor (pending ctx)"
proof (cases "data_used ctx = 0")
  case True
  then show ?thesis by (simp add: EVP_EncodeFinal_def armor_def pending_def lines_short behind_short)
next
  case False
  let ?p = "pending ctx" let ?cs = "encode_chars ?p"
  have ctx: "length (ctx_data ctx) = 48" "data_used ctx < 48" using assms(1) by (simp_all add: ctx_ok_def)
  have p: "length ?p = data_used ctx" using ctx by (simp add: pending_def)
  have len: "length ?cs \<le> 64" using p ctx(2) by (simp add: length_encode_chars)
  have "armor ?p = ?cs @ [0x0A]" using p ctx False by (auto simp: armor_def lines_short behind_short)
  moreover obtain buf1 where 1: "store_out 0 (?cs @ [0]) buf = Ok () buf1" "holds (?cs @ [0]) 66 buf buf1"
    using holds_append [of "[]" 66 buf buf "?cs @ [0]"] len assms(2) by (auto simp: holds_def)
  obtain buf2 where 2: "store_out (length ?cs) [0x0A, 0] buf1 = Ok () buf2" "holds ((?cs @ [0x0A]) @ [0]) 66 buf buf2"
    using holds_append [OF holds_prefix [OF 1(2)], of "[0x0A, 0]"] len assms(2) by auto
  have "EVP_EncodeFinal ctx buf = Ok (length ?cs + 1, ctx\<lparr>data_used := 0\<rparr>) buf2"
    using False ctx 1(1) 2(1) len by (simp add: EVP_EncodeFinal_def EVP_EncodeBlock_def flip: pending_def)
  ultimately show ?thesis using holds_prefix [OF 2(2)] by (auto simp: holds_def)
qed

section \<open>Decoding a stream\<close>

definition dec_ok :: "evp_encode_ctx \<Rightarrow> bool" where
  "dec_ok ctx \<longleftrightarrow> ctx_ok 4 ctx \<and> (eof_seen ctx \<longrightarrow> data_used ctx = 0)"

definition decode_from :: "evp_encode_ctx \<Rightarrow> byte list \<Rightarrow> (byte list \<times> byte list \<times> bool) option" where
  "decode_from ctx cs =
     (if eof_seen ctx then if cs = [] then Some ([], [], True) else None else decode_text (pending ctx @ cs))"

abbreviation plain :: "byte list \<Rightarrow> byte list" where
  "plain cs \<equiv> filter (\<lambda>c. \<not> is_space c) cs"

lemma decode_from_append:
  "decode_from ctx (xs @ ys) = (case decode_from ctx xs of None \<Rightarrow> None
     | Some (bs, p, e) \<Rightarrow> after bs (if e then if ys = [] then Some ([], [], True) else None else decode_text (p @ ys)))"
  using decode_text_append [of "pending ctx @ xs" ys] decode_text_pending [of "pending ctx @ xs"]
  by (auto simp: decode_from_def split: option.splits)

lemma decode_chars_correct:
  assumes "dec_ok ctx" and "holds out m buf0 buf" and "m \<le> length buf0"
    and "length out + 3 * (length (pending ctx @ plain src) div 4) \<le> m"
  shows "case decode_from ctx (plain src) of
     None \<Rightarrow> \<exists>ctx' buf'. decode_chars ctx (length out) src buf = Ok (None, ctx') buf' \<and> error_encountered ctx'
   | Some (bs, p, e) \<Rightarrow> \<exists>ctx' buf'. decode_chars ctx (length out) src buf = Ok (Some (length (out @ bs)), ctx') buf' \<and>
       holds (out @ bs) m buf0 buf' \<and> dec_ok ctx' \<and> pending ctx' = p \<and> eof_seen ctx' = e \<and>
       error_encountered ctx' = error_encountered ctx"
  using assms
proof (induction src arbitrary: ctx out buf)
  case Nil
  have "decode_from ctx [] = Some ([], pending ctx, eof_seen ctx)"
    using Nil(1) by (auto simp: decode_from_def dec_ok_def ctx_ok_def pending_def decode_text_short)
  then show ?case using Nil by simp
next
  case (Cons c src)
  have ctx: "length (ctx_data ctx) = 48" "data_used ctx < 4" using Cons(2) by (simp_all add: dec_ok_def ctx_ok_def)
  have p: "length (pending ctx) = data_used ctx" using ctx by (simp add: pending_def)
  show ?case
  proof (cases "is_space c \<or> eof_seen ctx")
    case True
    then show ?thesis
    proof (cases "is_space c")
      case space: True
      then have "decode_chars ctx (length out) (c # src) buf = decode_chars ctx (length out) src buf"
        "plain (c # src) = plain src" by simp_all
      then show ?thesis using Cons(1) [OF Cons(2-4)] Cons(5) by (simp only:)
    qed (simp add: decode_from_def)
  next
    case False
    let ?data = "pending ctx @ [c] @ drop (Suc (data_used ctx)) (ctx_data ctx)"
    let ?ctx = "ctx\<lparr>ctx_data := ?data, data_used := data_used ctx + 1\<rparr>"
    have data: "write_at (data_used ctx) [c] (ctx_data ctx) = Some ?data"
      using ctx by (simp add: write_at_def pending_def)
    have len: "length ?data = 48" using ctx p by simp
    have pend: "pending ?ctx = pending ctx @ [c]" using p by (simp add: pending_def)
    show ?thesis
    proof (cases "data_used ctx = 3")
      case no: False
      then have loop: "decode_chars ctx (length out) (c # src) buf = decode_chars ?ctx (length out) src buf"
        using False data by simp
      have whole: "decode_from ctx (plain (c # src)) = decode_from ?ctx (plain src)"
        using False pend by (simp add: decode_from_def)
      have "dec_ok ?ctx" using ctx len no False by (simp add: dec_ok_def ctx_ok_def)
      moreover have "length (pending ?ctx @ plain src) = length (pending ctx @ plain (c # src))"
        using False pend by simp
      moreover have "error_encountered ?ctx = error_encountered ctx" by simp
      ultimately show ?thesis using Cons(1) [of ?ctx out buf] Cons(3-5) unfolding loop whole by (simp only:)
    next
      case full: True
      then obtain i0 i1 i2 where i: "pending ctx = [i0, i1, i2]"
        using p by (auto simp: length_Suc_conv numeral_3_eq_3)
      have quad: "decode_quad_at ?data = Some (base64_decode_quad i0 i1 i2 c)" using i by (simp add: decode_quad_at_def)
      show ?thesis
      proof (cases "base64_decode_quad i0 i1 i2 c")
        case None
        then show ?thesis using False data full quad i by (simp add: decode_from_def)
      next
        case (Some bs)
        let ?ctx2 = "?ctx\<lparr>data_used := 0, eof_seen := (eof_seen ctx \<or> length bs < 3)\<rparr>"
        have bs: "length bs \<le> 3" using length_quad [OF Some] by simp
        have room: "length out + length bs + 3 * (length (plain src) div 4) \<le> m"
          using Cons(5) False bs i div_add_self1 [of 4 "length (plain src)"] by simp
        obtain buf' where buf': "store_out (length out) bs buf = Ok () buf'" "holds (out @ bs) m buf0 buf'"
          using holds_append [OF Cons(3), of bs] room Cons(4) by auto
        have loop: "decode_chars ctx (length out) (c # src) buf = decode_chars ?ctx2 (length (out @ bs)) src buf'"
          using False data full quad Some buf'(1) by simp
        have whole: "decode_from ctx (plain (c # src)) = after bs (decode_from ?ctx2 (plain src))"
          using False i Some by (simp add: decode_from_def pending_def)
        have "dec_ok ?ctx2" using len by (simp add: dec_ok_def ctx_ok_def)
        then show ?thesis
          using Cons(1) [of ?ctx2 "out @ bs" buf'] buf'(2) Cons(4) room unfolding loop whole
          by (cases "decode_from ?ctx2 (plain src)") (auto simp: pending_def)
      qed
    qed
  qed
qed

text \<open>One update of a context that has not failed.\<close>

lemma decode_update:
  assumes "dec_ok ctx" and "\<not> error_encountered ctx" and "3 * (length (pending ctx @ plain src) div 4) \<le> m"
    and "m \<le> length buf" "m \<le> INT_MAX"
  shows "case decode_from ctx (plain src) of
     None \<Rightarrow> \<exists>ctx' buf'. EVP_DecodeUpdate ctx src buf = Ok (-1, 0, ctx') buf' \<and> error_encountered ctx'
   | Some (bs, p, e) \<Rightarrow> \<exists>ctx' buf'. EVP_DecodeUpdate ctx src buf = Ok (if e then 0 else 1, length bs, ctx') buf' \<and>
       holds bs m buf buf' \<and> dec_ok ctx' \<and> pending ctx' = p \<and> eof_seen ctx' = e \<and> \<not> error_encountered ctx'"
proof (cases "decode_from ctx (plain src)")
  case None
  then show ?thesis using decode_chars_correct [of ctx "[]" m buf buf src] assms
    by (auto simp: holds_def EVP_DecodeUpdate_def)
next
  case (Some r)
  obtain bs p e where r: "r = (bs, p, e)" by (cases r)
  have "length bs \<le> INT_MAX"
  proof -
    have "length bs \<le> 3 * (length (pending ctx @ plain src) div 4)"
      using Some decode_text_pending [of "pending ctx @ plain src" bs p e] unfolding r
      by (auto simp: decode_from_def split: if_splits)
    then show ?thesis using assms(3,5) by linarith
  qed
  then show ?thesis using decode_chars_correct [of ctx "[]" m buf buf src] assms Some r
    by (auto simp: holds_def EVP_DecodeUpdate_def)
qed

section \<open>Whole streams\<close>

text \<open>The pieces of a stream with the buffers for the results, and the results put together.\<close>

fun encode_stream :: "evp_encode_ctx \<Rightarrow> (byte list \<times> byte list) list \<Rightarrow> byte list \<Rightarrow> byte list option" where
  "encode_stream ctx [] buf = (case EVP_EncodeFinal ctx buf of Ok (n, _) buf \<Rightarrow> Some (take n buf) | _ \<Rightarrow> None)"
| "encode_stream ctx ((src, out) # ps) buf = (case EVP_EncodeUpdate ctx src out of
     Ok (n, ctx) out \<Rightarrow> map_option ((@) (take n out)) (encode_stream ctx ps buf) | _ \<Rightarrow> None)"

text \<open>The result is \<open>None\<close> for undefined behaviour and \<open>Some None\<close> for a stream that is refused.\<close>

fun decode_stream :: "evp_encode_ctx \<Rightarrow> (byte list \<times> byte list) list \<Rightarrow> byte list option option" where
  "decode_stream ctx [] = Some (if EVP_DecodeFinal ctx = 1 then Some [] else None)"
| "decode_stream ctx ((src, out) # ps) = (case EVP_DecodeUpdate ctx src out of
     Ok (r, n, ctx) out \<Rightarrow>
       map_option (map_option ((@) (take n out))) (decode_stream ctx ps)
   | _ \<Rightarrow> None)"

abbreviation (input) encode_room :: "byte list \<times> byte list \<Rightarrow> bool" where
  "encode_room \<equiv> \<lambda>(src, out). (length src + 47) div 48 * 65 < length out \<and> length src \<le> 2 ^ 30"

lemma encode_stream_correct:
  assumes "ctx_ok sizeof_data ctx" and "\<forall>p \<in> set ps. encode_room p" and "66 \<le> length buf"
  shows "encode_stream ctx ps buf = Some (armor (pending ctx @ concat (map fst ps)))"
  using assms(1,2)
proof (induction ps arbitrary: ctx)
  case Nil
  then show ?case using encode_final [OF Nil(1) assms(3)] by auto
next
  case (Cons a ps)
  obtain src out where a: "a = (src, out)" by (cases a)
  let ?L = "lines (pending ctx @ src)"
  have "length (pending ctx) \<le> 47" using Cons(2) by (auto simp: ctx_ok_def pending_def)
  then have "length (pending ctx @ src) div 48 \<le> (length src + 47) div 48" by (intro div_le_mono) simp
  then have "length ?L \<le> (length src + 47) div 48 * 65" unfolding length_lines by simp
  moreover have "(length src + 47) div 48 * 65 < length out" "(length src + 47) div 48 \<le> (2 ^ 30 + 47) div 48"
    using Cons(3) a by (auto intro: div_le_mono)
  ultimately have "length ?L < Suc (length ?L)" "Suc (length ?L) \<le> length out" "Suc (length ?L) \<le> 2147483647" by auto
  from encode_update [OF Cons(2) this] obtain ctx' out' where 1:
    "EVP_EncodeUpdate ctx src out = Ok (length ?L, ctx') out'" "ctx_ok 48 ctx'"
    "pending ctx' = behind (pending ctx @ src)" "take (length ?L) out' = ?L"
    unfolding holds_def by blast
  have "encode_stream ctx' ps buf = Some (armor (pending ctx' @ concat (map fst ps)))"
    using Cons(1) [OF 1(2)] Cons(3) by simp
  moreover have "armor (pending ctx @ src @ ys) = ?L @ armor (behind (pending ctx @ src) @ ys)" for ys
    using lines_behind [of "pending ctx @ src" ys] by (simp add: armor_def)
  ultimately show ?case using 1 a by simp
qed

lemma plain_armor: "plain (armor bs) = encode_chars bs"
proof -
  have plain: "plain (encode_chars xs) = encode_chars xs" for xs
    using encode_chars_plain by (simp add: filter_id_conv)
  have "plain (lines bs @ encode_chars (behind bs)) = encode_chars bs"
  proof (induction bs rule: lines.induct)
    case (1 bs)
    show ?case
    proof (cases "length bs < sizeof_data")
      case False
      then obtain x r where x: "bs = x @ r" "length x = 48" by (rule first_line)
      then show ?thesis using 1 [OF False]
        by (simp add: lines_line behind_line plain encode_chars_append is_space_def [of "0x0A"])
    qed (simp add: lines_short behind_short plain)
  qed
  then show ?thesis by (cases "behind bs = []") (simp_all add: armor_def plain is_space_def [of "0x0A"])
qed

abbreviation (input) decode_room :: "byte list \<times> byte list \<Rightarrow> bool" where
  "decode_room \<equiv> \<lambda>(src, out). 3 * ((length src + 3) div 4) \<le> length out \<and> length src \<le> 2 ^ 30"

text \<open>However a text is cut into pieces, the result is that of the whole text.\<close>

definition decode_result :: "(byte list \<times> byte list \<times> bool) option \<Rightarrow> byte list option" where
  "decode_result r = (case r of Some (bs, [], _) \<Rightarrow> Some bs | _ \<Rightarrow> None)"

lemma decode_stream_failed:
  "error_encountered ctx \<Longrightarrow> decode_stream ctx ps = Some None"
  by (induction ps) (auto simp: EVP_DecodeFinal_def EVP_DecodeUpdate_def)

lemma decode_stream_correct:
  assumes "dec_ok ctx" and "\<not> error_encountered ctx" and "\<forall>p \<in> set ps. decode_room p"
  shows "decode_stream ctx ps = Some (decode_result (decode_from ctx (plain (concat (map fst ps)))))"
  using assms
proof (induction ps arbitrary: ctx)
  case Nil
  have "decode_from ctx [] = Some ([], pending ctx, eof_seen ctx)" "length (pending ctx) = data_used ctx"
    using Nil(1) by (auto simp: decode_from_def dec_ok_def ctx_ok_def pending_def decode_text_short)
  then show ?case using Nil(2) by (auto simp: EVP_DecodeFinal_def decode_result_def split: list.splits)
next
  case (Cons a ps)
  obtain src out where a: "a = (src, out)" by (cases a)
  let ?m = "3 * (length (pending ctx @ plain src) div 4)"
  have "length (pending ctx) \<le> 3" using Cons(2) by (auto simp: dec_ok_def ctx_ok_def pending_def)
  then have "length (pending ctx @ plain src) \<le> length src + 3"
    using length_filter_le [of "\<lambda>c. \<not> is_space c" src] unfolding length_append by linarith
  then have "length (pending ctx @ plain src) div 4 \<le> (length src + 3) div 4" by (rule div_le_mono)
  moreover have "3 * ((length src + 3) div 4) \<le> length out" "(length src + 3) div 4 \<le> (2 ^ 30 + 3) div 4"
    using Cons(4) a by (auto intro: div_le_mono)
  ultimately have "?m \<le> length out" "?m \<le> 2147483647" by auto
  note upd = decode_update [OF Cons(2,3) le_refl this]
  show ?case
  proof (cases "decode_from ctx (plain src)")
    case None
    then show ?thesis using upd a by (auto simp: decode_from_append decode_stream_failed decode_result_def)
  next
    case (Some r)
    obtain bs p e where r: "r = (bs, p, e)" by (cases r)
    obtain ctx' out' where 1: "EVP_DecodeUpdate ctx src out = Ok (if e then 0 else 1, length bs, ctx') out'"
      "take (length bs) out' = bs" "dec_ok ctx'" "pending ctx' = p" "eof_seen ctx' = e" "\<not> error_encountered ctx'"
      using upd Some r by (auto simp: holds_def)
    let ?rest = "plain (concat (map fst ps))"
    have "decode_from ctx (plain src @ ?rest) = after bs (decode_from ctx' ?rest)"
      using Some r 1(4,5) by (simp add: decode_from_append) (simp add: decode_from_def)
    moreover have "decode_stream ctx' ps = Some (decode_result (decode_from ctx' ?rest))"
      using Cons(1) [OF 1(3,6)] Cons(4) by simp
    moreover have "decode_result (after bs x) = map_option ((@) bs) (decode_result x)" for x
      by (auto simp: decode_result_def after_def split: option.splits list.splits)
    ultimately show ?thesis using a 1(1,2) by simp
  qed
qed

section \<open>The one-shot functions\<close>

lemma encode_nonempty: "bs \<noteq> [] \<Longrightarrow> 4 \<le> length (encode_chars bs)"
  by (cases bs) (simp_all add: length_encode_chars)

lemma decode_quads_correct:
  assumes "length src mod 4 = 0" and "holds out m buf0 buf" "m \<le> length buf0"
    and "length out + 3 * (length src div 4) \<le> m"
  shows "case decode_text src of
     None \<Rightarrow> \<exists>buf'. decode_quads (length out) src buf = Fail buf'
   | Some (bs, p, e) \<Rightarrow> p = [] \<and>
       (\<exists>buf'. decode_quads (length out) src buf = Ok (length (out @ bs)) buf' \<and> holds (out @ bs) m buf0 buf')"
  using assms
proof (induction src arbitrary: out buf rule: decode_text.induct)
  case (1 i0 i1 i2 i3 src)
  show ?case
  proof (cases "base64_decode_quad i0 i1 i2 i3")
    case (Some bs)
    have bs: "length bs \<le> 3" using length_quad [OF Some] by simp
    have src: "length src mod 4 = 0" using 1(2) mod_add_self2 [of "length src" 4] by simp
    have room: "length out + length bs + 3 * (length src div 4) \<le> m"
      using 1(5) bs div_add_self1 [of 4 "length src"] by simp
    obtain buf1 where buf1: "store_out (length out) bs buf = Ok () buf1" "holds (out @ bs) m buf0 buf1"
      using holds_append [OF 1(3), of bs] room 1(4) by auto
    show ?thesis
    proof (cases "length bs < 3")
      case True
      then show ?thesis using Some buf1 by auto
    next
      case False
      then have step: "decode_quads (length out) (i0 # i1 # i2 # i3 # src) buf = decode_quads (length (out @ bs)) src buf1"
        using Some bs buf1(1) by simp
      show ?thesis
        using 1(1) [OF Some False src buf1(2) 1(4)] room False Some unfolding step
        by (cases "decode_text src") auto
    qed
  qed simp
qed (use assms in auto)

lemma decode_base64:
  assumes "length src mod 4 = 0" and "length src div 4 * 3 \<le> n" "length src div 4 * 3 \<le> length buf"
  shows "case decode_text src of
     None \<Rightarrow> \<exists>buf'. EVP_DecodeBase64 n src buf = Fail buf'
   | Some (bs, p, e) \<Rightarrow> p = [] \<and> (\<exists>buf'. EVP_DecodeBase64 n src buf = Ok (length bs) buf' \<and>
       holds bs (length src div 4 * 3) buf buf')"
proof -
  have "EVP_DecodeBase64 n src buf = decode_quads (length []) src buf"
    using assms by (simp add: EVP_DecodeBase64_def EVP_DecodedLength_def)
  then show ?thesis
    using decode_quads_correct [OF assms(1), of "[]" "length src div 4 * 3" buf buf] assms(3)
    by (cases "decode_text src") (auto simp: holds_def)
qed

lemma encoded_length:
  assumes "length src \<le> 2 ^ 62"
  shows "EVP_EncodedLength (length src) = Some (length (encode_chars src) + 1)"
proof -
  have "(length src + 2) div 3 \<le> (2 ^ 62 + 2) div 3" using assms by (intro div_le_mono) simp
  then show ?thesis using assms by (simp add: EVP_EncodedLength_def length_encode_chars)
qed

lemma dropWhile_prefix: "list_all P xs \<Longrightarrow> (ys \<noteq> [] \<Longrightarrow> \<not> P (hd ys)) \<Longrightarrow> dropWhile P (xs @ ys) = ys"
  by (induction xs) (cases ys; simp)+

text \<open>White space around an encoded text is trimmed.\<close>

lemma trim:
  assumes "list_all (\<lambda>c. c = 0x20 \<or> c = 0x09) xs" and "list_all is_space zs"
  shows "trim_end (trim_start (xs @ encode_chars bs @ zs)) = encode_chars bs"
proof (cases "bs = []")
  case True
  have "list_all is_space (dropWhile (\<lambda>c. c = 0x20 \<or> c = 0x09) zs)"
    using assms(2) by (meson list_all_iff set_dropWhileD)
  then have "list_all is_space (rev (dropWhile (\<lambda>c. c = 0x20 \<or> c = 0x09) zs))" by (simp add: list_all_iff)
  moreover have "dropWhile (\<lambda>c. c = 0x20 \<or> c = 0x09) (xs @ zs) = dropWhile (\<lambda>c. c = 0x20 \<or> c = 0x09) zs"
    using assms(1) by (induction xs) simp_all
  ultimately show ?thesis
    using True dropWhile_prefix [of is_space _ "[]"] by (simp add: trim_start_def trim_end_def)
next
  case False
  let ?cs = "encode_chars bs"
  have ne: "?cs \<noteq> []" using encode_nonempty [OF False] by auto
  then have "\<not> is_space (hd ?cs)" "\<not> is_space (hd (rev ?cs))"
    using encode_chars_plain [of bs] by (simp_all add: hd_rev)
  then have "trim_start (xs @ ?cs @ zs) = ?cs @ zs"
    unfolding trim_start_def using assms(1) ne by (intro dropWhile_prefix) (auto simp: is_space_def)
  moreover have "dropWhile is_space (rev zs @ rev ?cs) = rev ?cs"
    using assms(2) \<open>\<not> is_space (hd (rev ?cs))\<close> by (intro dropWhile_prefix) (simp_all add: list_all_iff)
  ultimately show ?thesis by (simp add: trim_end_def)
qed

section \<open>Properties\<close>

text \<open>C26: the text of \<open>EVP_EncodeUpdate\<close> and \<open>EVP_EncodeFinal\<close> does not depend on the pieces that the data
  comes in; \<open>EVP_DecodeUpdate\<close> and \<open>EVP_DecodeFinal\<close> return the data from it, whatever the pieces it
  is read in and the white space added or removed.\<close>

theorem base64_stream_roundtrip:
  assumes "\<forall>p \<in> set ps. encode_room p" and "66 \<le> length buf"
  shows "\<exists>t. encode_stream EVP_EncodeInit ps buf = Some t \<and> t = armor (concat (map fst ps)) \<and>
    (\<forall>qs. plain (concat (map fst qs)) = plain t \<and> (\<forall>q \<in> set qs. decode_room q) \<longrightarrow>
      decode_stream EVP_DecodeInit qs = Some (Some (concat (map fst ps))))"
proof -
  have init: "ctx_ok 48 EVP_EncodeInit" "pending EVP_EncodeInit = []" "dec_ok EVP_DecodeInit"
    "\<not> error_encountered EVP_DecodeInit" "decode_from EVP_DecodeInit = decode_text"
    by (simp_all add: EVP_EncodeInit_def EVP_DecodeInit_def ctx_ok_def pending_def dec_ok_def decode_from_def fun_eq_iff)
  show ?thesis
    using encode_stream_correct [OF init(1) assms] decode_stream_correct [OF init(3,4)]
    by (auto simp: init plain_armor decode_encode decode_result_def)
qed

text \<open>C27: streaming decoding of any text, valid or not, in any pieces, is the one-shot decoding of the
  text without its white space.\<close>

theorem base64_stream_is_one_shot:
  assumes "\<forall>q \<in> set qs. decode_room q" and "plain (concat (map fst qs)) = t"
    and "length t div 4 * 3 \<le> n" "length t div 4 * 3 \<le> length buf"
  shows "decode_stream EVP_DecodeInit qs = Some (case EVP_DecodeBase64 n t buf of
    Ok n buf \<Rightarrow> Some (take n buf) | _ \<Rightarrow> None)"
proof -
  have init: "dec_ok EVP_DecodeInit" "\<not> error_encountered EVP_DecodeInit" "decode_from EVP_DecodeInit t = decode_text t"
    by (simp_all add: EVP_DecodeInit_def ctx_ok_def pending_def dec_ok_def decode_from_def)
  have stream: "decode_stream EVP_DecodeInit qs = Some (decode_result (decode_text t))"
    using decode_stream_correct [OF init(1,2) assms(1)] assms(2) init(3) by simp
  show ?thesis
  proof (cases "length t mod 4 = 0")
    case True
    then show ?thesis
      using decode_base64 [OF True assms(3,4)] unfolding stream
      by (auto simp: decode_result_def holds_def split: option.splits)
  next
    case False
    have "decode_text t = Some (bs, p, e) \<Longrightarrow> p \<noteq> []" for bs p e
      using False
    proof (induction t arbitrary: bs p e rule: decode_text.induct)
      case (1 i0 i1 i2 i3 cs)
      then show ?case using mod_add_self2 [of "length cs" 4]
        by (auto simp: after_Some_iff split: option.splits if_splits)
    qed auto
    then have "decode_result (decode_text t) = None"
      by (auto simp: decode_result_def split: option.splits list.splits)
    then show ?thesis using False stream by (simp add: EVP_DecodeBase64_def)
  qed
qed

text \<open>\<open>EVP_EncodeBlock\<close> writes exactly the bytes that \<open>EVP_EncodedLength\<close> announces, the last of them
  zero; \<open>EVP_DecodeBase64\<close> gives the data back, and \<open>EVP_DecodeBlock\<close> too, with zeros added up to a
  multiple of three and white space around the text ignored.\<close>

theorem base64_block_exact:
  assumes "length src \<le> 2 ^ 30" and "EVP_EncodedLength (length src) = Some n" and "n \<le> length buf" "n \<le> length out"
    and "list_all (\<lambda>c. c = 0x20 \<or> c = 0x09) xs" and "list_all is_space zs"
  shows "\<exists>buf'. EVP_EncodeBlock 0 src buf = Ok (n - 1) buf' \<and> buf' ! (n - 1) = 0 \<and> drop n buf' = drop n buf \<and>
    (\<exists>out'. EVP_DecodeBase64 n (take (n - 1) buf') out = Ok (length src) out' \<and> take (length src) out' = src) \<and>
    (\<exists>m out'. EVP_DecodeBlock (xs @ take (n - 1) buf' @ zs) out = Ok m out' \<and> m = (length src + 2) div 3 * 3 \<and>
      take m out' = src @ replicate (m - length src) 0)"
proof -
  let ?cs = "encode_chars src" and ?k = "(length src + 2) div 3"
  have n: "n = length ?cs + 1" using encoded_length [of src] assms(1,2) by simp
  have len: "length ?cs = ?k * 4" "length ?cs mod 4 = 0" "length ?cs div 4 * 3 = ?k * 3"
    by (simp_all add: length_encode_chars)
  have k: "?k * 3 < n" "length src \<le> ?k * 3" "?k * 3 \<le> 2147483647"
  proof -
    have "length src \<le> 1073741824" using assms(1) by simp
    then show "?k * 3 < n" "length src \<le> ?k * 3" "?k * 3 \<le> 2147483647" using n len by linarith+
  qed
  let ?buf = "?cs @ [0] @ drop n buf"
  have enc: "EVP_EncodeBlock 0 src buf = Ok (n - 1) ?buf"
    using assms(3) n by (simp add: EVP_EncodeBlock_def store_out_Ok Let_def)
  have take: "take (n - 1) ?buf = ?cs" using n by simp
  have dec: "\<exists>out'. EVP_DecodeBase64 m ?cs out = Ok (length src) out' \<and> holds src (?k * 3) out out'"
    if "?k * 3 \<le> m" for m
    using decode_base64 [OF len(2), of m out] that len(3) k(1) assms(4) by (simp add: decode_encode)
  obtain out1 where 1: "EVP_DecodeBase64 n ?cs out = Ok (length src) out1" "take (length src) out1 = src"
    using dec [of n] k(1) by (auto simp: holds_def)
  obtain out2 where 2: "EVP_DecodeBase64 (?k * 3) ?cs out = Ok (length src) out2" "holds src (?k * 3) out out2"
    using dec [of "?k * 3"] by auto
  obtain out3 where 3: "store_out (length src) (replicate (?k * 3 - length src) 0) out2 = Ok () out3"
    "holds (src @ replicate (?k * 3 - length src) 0) (?k * 3) out out3"
    using holds_append [OF 2(2), of "replicate (?k * 3 - length src) 0"] k assms(4) by auto
  have "EVP_DecodeBlock (xs @ ?cs @ zs) out = Ok (?k * 3) out3"
    using 2(1) 3(1) len k(3) trim [OF assms(5,6), of src]
    by (simp add: EVP_DecodeBlock_def EVP_DecodedLength_def Let_def)
  moreover have "take (?k * 3) out3 = src @ replicate (?k * 3 - length src) 0"
    using 3(2) k(2) by (simp add: holds_def)
  moreover have "?buf ! (n - 1) = 0" "drop n ?buf = drop n buf" using n by (simp_all add: nth_append)
  ultimately show ?thesis using enc take 1 by auto
qed

text \<open>The text of the bytes 72, 105, 33 read with a line break inside.\<close>

theorem base64_stream_roundtrip_witness:
  "\<exists>t. encode_stream EVP_EncodeInit [([72], replicate 70 0), ([105, 33], replicate 70 0)] (replicate 66 0) = Some t \<and>
     decode_stream EVP_DecodeInit [(take 3 t @ [0x0A], replicate 9 0), (drop 3 t, replicate 9 0)] = Some (Some [72, 105, 33])"
proof -
  let ?ps = "[([72], replicate 70 0), ([105, 33], replicate 70 0)] :: (byte list \<times> byte list) list"
  have armor: "armor (concat (map fst ?ps)) = [83, 71, 107, 104, 0x0A]" by code_simp
  have "\<forall>p \<in> set ?ps. encode_room p" "66 \<le> length (replicate 66 (0 :: byte))" by simp_all
  from base64_stream_roundtrip [OF this] obtain t where
    t: "encode_stream EVP_EncodeInit ?ps (replicate 66 0) = Some t" "t = armor (concat (map fst ?ps))"
    "\<forall>qs. plain (concat (map fst qs)) = plain t \<and> (\<forall>q \<in> set qs. decode_room q) \<longrightarrow>
      decode_stream EVP_DecodeInit qs = Some (Some (concat (map fst ?ps)))" by blast
  let ?qs = "[(take 3 t @ [0x0A], replicate 9 0), (drop 3 t, replicate 9 0)] :: (byte list \<times> byte list) list"
  have "plain (concat (map fst ?qs)) = plain t" "\<forall>q \<in> set ?qs. decode_room q"
    unfolding t(2) armor by (simp_all add: is_space_def)
  with t(3) have "decode_stream EVP_DecodeInit ?qs = Some (Some (concat (map fst ?ps)))" by blast
  then show ?thesis using t(1) by auto
qed

theorem base64_stream_is_one_shot_witness:
  "decode_stream EVP_DecodeInit [([81], replicate 3 0), ([81, 0x3D, 0x20, 0x3D], replicate 3 0)] =
     Some (case EVP_DecodeBase64 3 [81, 81, 0x3D, 0x3D] [0, 0, 0] of Ok n buf \<Rightarrow> Some (take n buf) | _ \<Rightarrow> None) \<and>
   (case EVP_DecodeBase64 3 [81, 81, 0x3D, 0x3D] [0, 0, 0] of Ok n buf \<Rightarrow> Some (take n buf) | _ \<Rightarrow> None) = Some [65]"
proof
  show "decode_stream EVP_DecodeInit [([81], replicate 3 0), ([81, 0x3D, 0x20, 0x3D], replicate 3 0)] =
     Some (case EVP_DecodeBase64 3 [81, 81, 0x3D, 0x3D] [0, 0, 0] of Ok n buf \<Rightarrow> Some (take n buf) | _ \<Rightarrow> None)"
    by (rule base64_stream_is_one_shot) (simp_all add: is_space_def)
next
  have "base64_decode_quad 81 81 0x3D 0x3D = Some [65]" by (simp add: base64_decode_quad_def bin_branches)
  then show "(case EVP_DecodeBase64 3 [81, 81, 0x3D, 0x3D] [0, 0, 0] of Ok n buf \<Rightarrow> Some (take n buf) | _ \<Rightarrow> None) = Some [65]"
    by (simp add: EVP_DecodeBase64_def EVP_DecodedLength_def store_out_Ok)
qed

theorem base64_block_exact_witness:
  "\<exists>buf'. EVP_EncodeBlock 0 [1, 2] (replicate 7 9) = Ok 4 buf' \<and> drop 5 buf' = [9, 9] \<and>
     (\<exists>out'. EVP_DecodeBlock ([0x20] @ take 4 buf' @ [0x0A]) [7, 7, 7, 7, 7] = Ok 3 out' \<and> take 3 out' = [1, 2, 0])"
proof -
  let ?src = "[1, 2] :: byte list" and ?buf = "replicate 7 9 :: byte list" and ?out = "[7, 7, 7, 7, 7] :: byte list"
  have h: "length ?src \<le> 2 ^ 30" "EVP_EncodedLength (length ?src) = Some 5" "5 \<le> length ?buf" "5 \<le> length ?out"
    "list_all (\<lambda>c. c = 0x20 \<or> c = 0x09) [0x20 :: byte]" "list_all is_space [0x0A]"
    by (simp_all add: EVP_EncodedLength_def is_space_def)
  obtain buf' m out' where 1: "EVP_EncodeBlock 0 ?src ?buf = Ok (5 - 1) buf'" "drop 5 buf' = drop 5 ?buf"
    "EVP_DecodeBlock ([0x20] @ take (5 - 1) buf' @ [0x0A]) ?out = Ok m out'" "m = (length ?src + 2) div 3 * 3"
    "take m out' = ?src @ replicate (m - length ?src) 0"
    using base64_block_exact [OF h] by blast
  have "drop 5 ?buf = [9, 9]" "(5 :: nat) - 1 = 4" "(length ?src + 2) div 3 * 3 = 3"
    "?src @ replicate (3 - length ?src) 0 = [1, 2, 0]" by code_simp+
  then show ?thesis using 1 by metis
qed

end
