(* ===== verification/Tls_Cbc.thy ===== *)
theory Tls_Cbc
  imports Constant_Time
begin

text \<open>
  Removal of the padding and of the MAC of a TLS record in CBC mode in constant time,
  \<open>crypto/cipher_extra/tls_cbc.c\<close>. An input is the list of its bytes, a \<open>size_t\<close> a 64-bit word where the
  code computes masks with it and a natural number where it is a public length or an index.
\<close>

section \<open>Padding\<close>

text \<open>The loop over the last \<open>n\<close> bytes from the \<open>i\<close>th on, counted from the end.\<close>

fun padding_loop :: "byte list \<Rightarrow> crypto_word \<Rightarrow> nat \<Rightarrow> nat \<Rightarrow> crypto_word \<Rightarrow> crypto_word" where
  "padding_loop ins padding_length i 0 good = good"
| "padding_loop ins padding_length i (Suc n) good =
     (let m = constant_time_ge_8 padding_length (of_nat i); b = ins ! (length ins - 1 - i)
      in padding_loop ins padding_length (i + 1) n (good AND NOT (ucast m AND (padding_length XOR ucast b))))"

text \<open>\<open>Fail\<close> is the return value 0; otherwise the values of \<open>out_padding_ok\<close> and \<open>out_len\<close>.\<close>

definition EVP_tls_cbc_remove_padding :: "byte list \<Rightarrow> nat \<Rightarrow> (crypto_word \<times> crypto_word, unit) res" where
  "EVP_tls_cbc_remove_padding ins mac_size =
     (let overhead = (1 + mac_size) mod 2 ^ 64; in_len = of_nat (length ins) in
      if length ins < overhead then Fail ()
      else if ins = [] then UB
      else let
        padding_length = ucast (ins ! (length ins - 1));
        good = constant_time_ge_w in_len (of_nat overhead + padding_length);
        to_check = (if length ins < 256 then length ins else 256);
        good = padding_loop ins padding_length 0 to_check good;
        good = constant_time_eq_w 0xFF (good AND 0xFF);
        padding_length = good AND (padding_length + 1)
      in Ok (good, in_len - padding_length) ())"

section \<open>MAC\<close>

abbreviation (input) EVP_MAX_MD_SIZE :: nat where "EVP_MAX_MD_SIZE \<equiv> 64"

text \<open>The loop that collects the MAC, rotated: \<open>n\<close> bytes from the \<open>i\<close>th on.\<close>

fun mac_loop :: "byte list \<Rightarrow> nat \<Rightarrow> nat \<Rightarrow> nat \<Rightarrow> nat \<Rightarrow> nat \<Rightarrow> byte list \<Rightarrow> crypto_word \<Rightarrow> byte \<Rightarrow> byte list \<times> crypto_word" where
  "mac_loop ins mac_start mac_end i j 0 rotated_mac rotate_offset mac_started = (rotated_mac, rotate_offset)"
| "mac_loop ins mac_start mac_end i j (Suc n) rotated_mac rotate_offset mac_started =
     (let j = (if length rotated_mac \<le> j then j - length rotated_mac else j);
        is_mac_start = constant_time_eq_w (of_nat i) (of_nat mac_start);
        mac_started = (mac_started OR ucast is_mac_start);
        mac_ended = constant_time_ge_8 (of_nat i) (of_nat mac_end)
      in mac_loop ins mac_start mac_end (i + 1) (j + 1) n
        (rotated_mac[j := (rotated_mac ! j OR (ins ! i AND mac_started AND NOT mac_ended))])
        (rotate_offset OR (of_nat j AND is_mac_start)) mac_started)"

text \<open>A rotation by \<open>offset\<close>, or a copy.\<close>

definition rotate_step :: "nat \<Rightarrow> byte \<Rightarrow> byte list \<Rightarrow> byte list" where
  "rotate_step offset skip_rotate mac =
     map (\<lambda>i. let j = i + offset; j = (if length mac \<le> j then j - length mac else j)
        in constant_time_select_8 skip_rotate (mac ! i) (mac ! j)) [0..<length mac]"

lemma length_rotate_step [simp]: "length (rotate_step offset skip mac) = length mac"
  by (simp add: rotate_step_def)

text \<open>The rotation in steps, with \<open>offset = 1 << k\<close>.\<close>

function rotate_steps :: "nat \<Rightarrow> crypto_word \<Rightarrow> byte list \<Rightarrow> byte list" where
  "rotate_steps k rotate_offset mac =
     (if 2 ^ k < length mac
      then let skip_rotate = ucast ((rotate_offset AND 1) - 1) in
        rotate_steps (k + 1) (drop_bit 1 rotate_offset) (rotate_step (2 ^ k) skip_rotate mac)
      else mac)"
  by pat_completeness auto
termination
proof (relation "measure (\<lambda>(k, ro, mac). length mac - k)")
  fix k :: nat and mac :: "byte list"
  show "((k + 1, drop_bit 1 ro, rotate_step (2 ^ k) skip mac), k, ro, mac) \<in> measure (\<lambda>(k, ro, mac). length mac - k)"
    if "2 ^ k < length mac" for ro skip
    using less_trans [OF less_exp that] by simp
qed simp

declare rotate_steps.simps [simp del]

text \<open>A violated assertion counts as undefined behaviour. \<open>ins\<close> is the whole record, of length \<open>orig_len\<close>.\<close>

definition EVP_tls_cbc_copy_mac :: "nat \<Rightarrow> byte list \<Rightarrow> nat \<Rightarrow> (byte list, unit) res" where
  "EVP_tls_cbc_copy_mac md_size ins in_len =
     (if length ins < in_len \<or> in_len < md_size \<or> EVP_MAX_MD_SIZE < md_size \<or> md_size = 0 then UB
      else let mac_end = in_len; mac_start = mac_end - md_size; orig_len = length ins;
        scan_start = (if md_size + 255 + 1 < orig_len then orig_len - (md_size + 255 + 1) else 0);
        (rotated_mac, rotate_offset) =
          mac_loop ins mac_start mac_end scan_start 0 (orig_len - scan_start) (replicate md_size 0) 0 0
      in Ok (rotate_steps 0 rotate_offset rotated_mac) ())"

end
