(* ===== verification/Tls_Cbc_Spec.thy ===== *)
theory Tls_Cbc_Spec
  imports Tls_Cbc
begin

text \<open>
  The constant-time code of the CBC record layer against what a decoder with branches computes.
\<close>

section \<open>Padding\<close>

text \<open>TLS padding: the last byte says how many bytes of the same value stand before it.\<close>

definition padding_valid :: "byte list \<Rightarrow> nat \<Rightarrow> bool" where
  "padding_valid ins mac_size \<longleftrightarrow>
     (let p = unat (last ins) in 1 + mac_size + p \<le> length ins \<and>
        drop (length ins - (p + 1)) ins = replicate (p + 1) (last ins))"

definition unpadded_length :: "byte list \<Rightarrow> nat \<Rightarrow> nat" where
  "unpadded_length ins mac_size =
     (if padding_valid ins mac_size then length ins - (unat (last ins) + 1) else length ins)"

abbreviation low_ones :: "crypto_word \<Rightarrow> bool" where
  "low_ones w \<equiv> w AND 0xFF = 0xFF"

lemma low_ones_iff: "low_ones w \<longleftrightarrow> (\<forall>n < 8. bit w n)"
proof -
  have "bit w n" if "w AND mask 8 = mask 8" "n < 8" for n
    using arg_cong [OF that(1), of "\<lambda>x. bit x n"] that(2) by (simp add: bit_simps)
  moreover have "w AND mask 8 = mask 8" if "\<forall>n < 8. bit w n"
    using that by (auto simp: bit_simps intro: bit_eqI)
  ultimately have "(w AND mask 8 = mask 8) \<longleftrightarrow> (\<forall>n < 8. bit w n)" by blast
  then show ?thesis by (simp add: mask_eq_exp_minus_1)
qed

lemma low_ones_and: "low_ones (v AND w) \<longleftrightarrow> low_ones v \<and> low_ones w"
  unfolding low_ones_iff by (auto simp: bit_simps)

lemma low_ones_byte:
  "low_ones (NOT (ucast (mask_of c :: byte) AND (ucast p XOR ucast b))) \<longleftrightarrow> (c \<longrightarrow> p = b)" for p b :: byte
  unfolding low_ones_iff by (cases c) (auto simp: bit_simps bit_eq_iff simp del: bit.compl_zero)

lemma low_ones_mask: "low_ones (mask_of c) \<longleftrightarrow> c"
  by (cases c) (simp_all)

lemma le_of_nat:
  assumes "i < 2 ^ 64"
  shows "(of_nat i :: crypto_word) \<le> ucast (p :: byte) \<longleftrightarrow> i \<le> unat p"
proof -
  have "unat (of_nat i :: crypto_word) = i" using assms by (simp add: unsigned_of_nat take_bit_nat_eq_self)
  moreover have "unat (ucast p :: crypto_word) = unat p"
  proof -
    have "unat p < 2 ^ 8" using unsigned_less [of p] by simp
    then show ?thesis by (simp add: unsigned_ucast_eq take_bit_nat_eq_self)
  qed
  ultimately show ?thesis by (simp add: word_le_nat_alt)
qed

lemma all_from: "(\<forall>k. i \<le> k \<and> k < i + Suc n \<and> P k \<longrightarrow> Q k) \<longleftrightarrow>
    (P i \<longrightarrow> Q i) \<and> (\<forall>k. Suc i \<le> k \<and> k < Suc i + n \<and> P k \<longrightarrow> Q k)"
proof -
  have "Q k" if "P i \<longrightarrow> Q i" "\<forall>k. Suc i \<le> k \<and> k < Suc i + n \<and> P k \<longrightarrow> Q k" "i \<le> k" "k < i + Suc n" "P k" for k
    using that by (cases "k = i") auto
  then show ?thesis by (intro iffI) auto
qed

lemma padding_loop_low:
  assumes "i + n < 2 ^ 64"
  shows "low_ones (padding_loop ins (ucast p) i n good) \<longleftrightarrow>
    low_ones good \<and> (\<forall>k. i \<le> k \<and> k < i + n \<and> k \<le> unat p \<longrightarrow> ins ! (length ins - 1 - k) = p)"
  using assms
proof (induction n arbitrary: i good)
  case (Suc n)
  have ge: "constant_time_ge_8 (ucast p) (of_nat i) = mask_of (i \<le> unat p)"
    using le_of_nat [of i p] Suc(2) by (simp add: constant_time_8)
  have "low_ones (padding_loop ins (ucast p) i (Suc n) good) \<longleftrightarrow>
      low_ones good \<and> (i \<le> unat p \<longrightarrow> p = ins ! (length ins - 1 - i)) \<and>
      (\<forall>k. Suc i \<le> k \<and> k < Suc i + n \<and> k \<le> unat p \<longrightarrow> ins ! (length ins - 1 - k) = p)"
    using Suc(1) [of "Suc i"] Suc(2) by (simp add: Let_def ge low_ones_and low_ones_byte del: bit.de_Morgan_conj)
  also have "\<dots> \<longleftrightarrow> low_ones good \<and> (\<forall>k. i \<le> k \<and> k < i + Suc n \<and> k \<le> unat p \<longrightarrow> ins ! (length ins - 1 - k) = p)"
    unfolding all_from [of i n] by auto
  finally show ?case .
qed auto

lemma last_bytes:
  assumes "p + 1 \<le> length ins"
  shows "drop (length ins - (p + 1)) ins = replicate (p + 1) b \<longleftrightarrow> (\<forall>k \<le> p. ins ! (length ins - 1 - k) = b)"
proof -
  have "drop (length ins - (p + 1)) ins = replicate (p + 1) b \<longleftrightarrow>
      (\<forall>i < p + 1. ins ! (length ins - (p + 1) + i) = b)"
    using assms by (simp add: list_eq_iff_nth_eq del: replicate_Suc)
  also have "\<dots> \<longleftrightarrow> (\<forall>k \<le> p. ins ! (length ins - 1 - k) = b)"
  proof safe
    fix k assume "\<forall>i < p + 1. ins ! (length ins - (p + 1) + i) = b" "k \<le> p"
    then show "ins ! (length ins - 1 - k) = b" using assms by (elim allE [of _ "p - k"]) simp
  next
    fix i assume "\<forall>k \<le> p. ins ! (length ins - 1 - k) = b" "i < p + 1"
    then show "ins ! (length ins - (p + 1) + i) = b" using assms by (elim allE [of _ "p - i"]) simp
  qed
  finally show ?thesis .
qed

text \<open>C28: the removal of the padding in constant time: it fails only if not even the MAC and the length byte
  fit; otherwise the mask says whether the padding is valid, all of its bytes included, and the new
  length is without the padding exactly if it is.\<close>

theorem tls_padding_removed:
  assumes "length ins < 2 ^ 32" and "mac_size < 2 ^ 32"
  shows "EVP_tls_cbc_remove_padding ins mac_size =
    (if length ins < 1 + mac_size then Fail ()
     else Ok (mask_of (padding_valid ins mac_size), of_nat (unpadded_length ins mac_size)) ())"
proof (cases "length ins < 1 + mac_size")
  case True
  then show ?thesis using assms by (simp add: EVP_tls_cbc_remove_padding_def)
next
  case False
  let ?p = "last ins" and ?in_len = "of_nat (length ins) :: crypto_word"
  have ne: "ins \<noteq> []" using False by auto
  have last: "ins ! (length ins - 1) = ?p" using ne by (simp add: last_conv_nth)
  have p: "unat ?p < 256" using unsigned_less [of ?p] by simp
  have unat: "unat (of_nat n :: crypto_word) = n" if "n < 2 ^ 64" for n
    using that by (simp add: unsigned_of_nat take_bit_nat_eq_self)
  have sum: "(of_nat (1 + mac_size) :: crypto_word) + ucast ?p = of_nat (1 + mac_size + unat ?p)"
    by simp
  have ge: "constant_time_ge_w ?in_len (of_nat (1 + mac_size) + ucast ?p) = mask_of (1 + mac_size + unat ?p \<le> length ins)"
  proof -
    have "1 + mac_size + unat ?p < 2 ^ 64" "length ins < 2 ^ 64" using assms p by simp_all
    then show ?thesis unfolding sum constant_time_ge word_le_nat_alt by (simp only: unat)
  qed
  let ?n = "if length ins < 256 then length ins else 256"
  let ?good = "padding_loop ins (ucast ?p) 0 ?n (mask_of (1 + mac_size + unat ?p \<le> length ins))"
  have "low_ones ?good \<longleftrightarrow> padding_valid ins mac_size"
  proof (cases "1 + mac_size + unat ?p \<le> length ins")
    case fits: True
    then have "(\<forall>k. 0 \<le> k \<and> k < 0 + ?n \<and> k \<le> unat ?p \<longrightarrow> ins ! (length ins - 1 - k) = ?p) \<longleftrightarrow>
        (\<forall>k \<le> unat ?p. ins ! (length ins - 1 - k) = ?p)"
      using p by auto
    moreover have "0 + ?n < 2 ^ 64" by simp
    ultimately show ?thesis
      using padding_loop_low [of 0 ?n ins ?p] last_bytes [of "unat ?p" ins ?p] fits
      by (simp only: padding_valid_def Let_def low_ones_mask)
  next
    case False
    then show ?thesis using padding_loop_low [of 0 ?n ins ?p]
      by (simp add: padding_valid_def Let_def low_ones_mask)
  qed
  then have good: "constant_time_eq_w 0xFF (?good AND 0xFF) = mask_of (padding_valid ins mac_size)"
    by (simp add: constant_time_eq eq_commute [of "0xFF"])
  have len: "?in_len - (mask_of (padding_valid ins mac_size) AND (ucast ?p + 1)) = of_nat (unpadded_length ins mac_size)"
    by (auto simp: unpadded_length_def padding_valid_def Let_def of_nat_diff)
  have "(1 + mac_size) mod 2 ^ 64 = 1 + mac_size" using assms by simp
  then show ?thesis
    using False ne ge good len by (simp add: EVP_tls_cbc_remove_padding_def Let_def last [simplified])
qed

section \<open>MAC\<close>

lemma mod_add_inj:
  assumes "(a + k) mod d = (a + k') mod d" and "k < d" "k' < d"
  shows "k = (k' :: nat)"
proof (rule ccontr)
  assume "k \<noteq> k'"
  have "False" if "(a + k) mod d = (a + k') mod d" "k < k'" "k' < d" for k k'
  proof -
    have "d dvd (a + k') - (a + k)" using that(1,2) mod_eq_dvd_iff_nat [of "a + k" "a + k'" d] by simp
    then have "d dvd k' - k" by simp
    then show False using that(2,3) by (auto dest: dvd_imp_le)
  qed
  from this [of k k'] this [of k' k] show False using assms \<open>k \<noteq> k'\<close> by (metis linorder_neqE_nat)
qed

text \<open>The state of the loop before the \<open>i\<close>th byte: the MAC starts at \<open>ms\<close>, the scan at \<open>s\<close>.\<close>

definition mac_inv :: "byte list \<Rightarrow> nat \<Rightarrow> nat \<Rightarrow> nat \<Rightarrow> nat \<Rightarrow> nat \<Rightarrow> byte list \<Rightarrow> crypto_word \<Rightarrow> byte \<Rightarrow> bool" where
  "mac_inv ins d s ms i j rot off started \<longleftrightarrow>
     length rot = d \<and> j \<le> d \<and> j mod d = (i - s) mod d \<and> started = mask_of (ms < i) \<and>
     off = (if ms < i then of_nat ((ms - s) mod d) else 0) \<and>
     (\<forall>k < d. rot ! ((ms - s + k) mod d) = (if ms + k < i then ins ! (ms + k) else 0))"

lemma mac_step:
  assumes inv: "mac_inv ins d s ms i j rot off started" and "0 < d" "s \<le> i" "s \<le> ms" "i < 2 ^ 63" "ms + d < 2 ^ 63"
    and "j' = (if length rot \<le> j then j - length rot else j)"
    and "is_start = constant_time_eq_w (of_nat i) (of_nat ms)" "started' = (started OR ucast is_start)"
    and "ended = constant_time_ge_8 (of_nat i) (of_nat (ms + d))"
  shows "mac_inv ins d s ms (i + 1) (j' + 1) (rot[j' := (rot ! j' OR (ins ! i AND started' AND NOT ended))])
    (off OR (of_nat j' AND is_start)) started'"
proof -
  have unat: "unat (of_nat n :: crypto_word) = n" if "n < 2 ^ 63" for n
    using that by (simp add: unsigned_of_nat take_bit_nat_eq_self)
  have start: "is_start = mask_of (i = ms)"
    using assms(5,6,8) by (simp add: constant_time_eq word_unat_eq_iff unat)
  have ended: "ended = mask_of (ms + d \<le> i)"
    using assms(5,6,10) by (simp add: constant_time_8 word_le_nat_alt unat del: of_nat_add)
  have started: "started' = mask_of (ms < i + 1)"
    using assms(9) inv start by (auto simp: mac_inv_def ucast_mask_of_8 mask_of_or mask_of_eq_iff)
  have len: "length rot = d" and j: "j' = (i - s) mod d" "j' < d"
    using inv assms(2,7) by (auto simp: mac_inv_def le_mod_geq)
  have masked: "ins ! i AND started' AND NOT ended = (if ms \<le> i \<and> i < ms + d then ins ! i else 0)"
    using started ended by (auto simp: mask_of_not)
  have rot: "rot[j' := (rot ! j' OR (ins ! i AND started' AND NOT ended))] ! ((ms - s + k) mod d) =
      (if ms + k < i + 1 then ins ! (ms + k) else 0)" if "k < d" for k
  proof (cases "ms \<le> i \<and> i < ms + d")
    case True
    then have at: "j' = (ms - s + (i - ms)) mod d" "i - ms < d" using j(1) assms(4) by (simp, arith)
    show ?thesis
    proof (cases "k = i - ms")
      case eq: True
      then have "rot ! j' = 0" using inv at True by (auto simp: mac_inv_def)
      then show ?thesis using eq at(1) len j(2) masked True by simp
    next
      case False
      then have "(ms - s + k) mod d \<noteq> j'" using mod_add_inj [OF _ that at(2)] at(1) by metis
      then show ?thesis using inv that False by (auto simp: mac_inv_def)
    qed
  next
    case False
    then have "rot[j' := (rot ! j' OR (ins ! i AND started' AND NOT ended))] = rot" by (auto simp: masked)
    then show ?thesis using inv that False by (auto simp: mac_inv_def)
  qed
  have "(j' + 1) mod d = (i + 1 - s) mod d" using j(1) assms(3) by (simp add: mod_Suc_eq Suc_diff_le)
  moreover have "off OR (of_nat j' AND is_start) = (if ms < i + 1 then of_nat ((ms - s) mod d) else 0)"
    using inv start j(1) by (cases "ms = i") (auto simp: mac_inv_def)
  ultimately show ?thesis using started len j(2) rot by (simp add: mac_inv_def)
qed

lemma mac_loop_correct:
  assumes "mac_inv ins d s ms i j rot off started" and "0 < d" "s \<le> i" "s \<le> ms" "i + n < 2 ^ 63" "ms + d < 2 ^ 63"
  shows "\<exists>j' rot' off' started'. mac_loop ins ms (ms + d) i j n rot off started = (rot', off') \<and>
    mac_inv ins d s ms (i + n) j' rot' off' started'"
  using assms
proof (induction n arbitrary: i j rot off started)
  case (Suc n)
  have "i < 2 ^ 63" using Suc(6) by simp
  note step = mac_step [OF Suc(2,3,4,5) this Suc(7) refl refl refl refl]
  have "s \<le> i + 1" "i + 1 + n < 2 ^ 63" "i + Suc n = i + 1 + n" using Suc(4,6) by simp_all
  then show ?case
    using Suc(1) [OF step Suc(3) _ Suc(5) _ Suc(7)] unfolding mac_loop.simps(2) Let_def by (simp only:)
qed auto

lemma rotate_step_rotate:
  assumes "offset < length mac"
  shows "rotate_step offset (mask_of (\<not> c)) mac = (if c then rotate offset mac else mac)"
proof (rule nth_equalityI)
  fix i assume "i < length (rotate_step offset (mask_of (\<not> c)) mac)"
  then have i: "i < length mac" by simp
  then show "rotate_step offset (mask_of (\<not> c)) mac ! i = (if c then rotate offset mac else mac) ! i"
    using assms unfolding rotate_step_def Let_def constant_time_select_byte
    by (cases c; cases "length mac \<le> i + offset") (simp_all add: nth_rotate le_mod_geq add.commute)
qed simp

lemma skip_rotate: "ucast ((ro AND 1) - 1 :: crypto_word) = (mask_of (\<not> odd (unat ro)) :: byte)"
proof -
  have "odd (unat ro) = bit ro 0" by (simp add: bit_unsigned_iff flip: bit_0)
  then have "ro AND 1 = of_bool (odd (unat ro))" by (simp add: and_one_eq mod_2_eq_odd bit_0)
  then show ?thesis by (auto simp: mask_of_def intro: bit_eqI simp: bit_simps)
qed

lemma rotate_steps_rotate:
  "2 ^ k * unat ro < length mac \<Longrightarrow> rotate_steps k ro mac = rotate (2 ^ k * unat ro) mac"
proof (induction k ro mac rule: rotate_steps.induct)
  case (1 k ro mac)
  show ?case
  proof (cases "2 ^ k < length mac")
    case False
    then have "unat ro = 0" using 1(2) by (cases "unat ro") auto
    then show ?thesis using False by (simp add: rotate_steps.simps [of k])
  next
    case True
    let ?mac = "rotate_step (2 ^ k) (mask_of (\<not> odd (unat ro))) mac"
    have half: "unat (drop_bit 1 ro) = unat ro div 2" by (simp add: drop_bit_eq_div unat_div)
    have sum: "2 ^ k * unat ro = 2 ^ (k + 1) * (unat ro div 2) + (if odd (unat ro) then 2 ^ k else 0)"
      by (cases "odd (unat ro)") (auto elim!: oddE evenE simp: algebra_simps)
    have "rotate_steps k ro mac = rotate_steps (k + 1) (drop_bit 1 ro) ?mac"
      using True by (simp add: rotate_steps.simps [of k] skip_rotate)
    also have "\<dots> = rotate (2 ^ (k + 1) * (unat ro div 2)) ?mac"
      using 1(1) [OF True refl] 1(2) half sum by (simp add: skip_rotate)
    also have "\<dots> = rotate (2 ^ k * unat ro) mac"
      unfolding rotate_step_rotate [OF True] sum by (simp add: rotate_rotate)
    finally show ?thesis .
  qed
qed

text \<open>C29: copying the MAC out of a record without a data-dependent access returns the bytes in front of
  the given end, wherever in the last 256 bytes the padding starts.\<close>

theorem tls_mac_copied:
  assumes "0 < md_size" "md_size \<le> in_len" "md_size \<le> 64" and "in_len \<le> length ins" "length ins \<le> in_len + 256"
    and "length ins < 2 ^ 32"
  shows "EVP_tls_cbc_copy_mac md_size ins in_len = Ok (take md_size (drop (in_len - md_size) ins)) ()"
proof -
  let ?ms = "in_len - md_size" and ?d = md_size
  define s where "s = (if ?d + 255 + 1 < length ins then length ins - (?d + 255 + 1) else 0)"
  have s: "s \<le> ?ms" "s \<le> length ins" using assms by (auto simp: s_def)
  have "mac_inv ins ?d s ?ms s 0 (replicate ?d 0) 0 0"
    using s assms(1) by (auto simp: mac_inv_def)
  moreover have "s + (length ins - s) < 2 ^ 63" "?ms + ?d < 2 ^ 63" using assms s by simp_all
  ultimately obtain j rot off started where
    loop: "mac_loop ins ?ms (?ms + ?d) s 0 (length ins - s) (replicate ?d 0) 0 0 = (rot, off)"
    and inv: "mac_inv ins ?d s ?ms (s + (length ins - s)) j rot off started"
    using mac_loop_correct assms(1) s(1) by blast
  have end_: "s + (length ins - s) = length ins" "?ms + ?d = in_len" "?ms < length ins" using assms s by simp_all
  have rot: "length rot = ?d" "\<forall>k < ?d. rot ! ((?ms - s + k) mod ?d) = ins ! (?ms + k)"
    and off: "off = of_nat ((?ms - s) mod ?d)"
    using inv end_ assms(4) unfolding end_(1) by (auto simp: mac_inv_def)
  have "(?ms - s) mod ?d < ?d" using assms(1) by (rule mod_less_divisor)
  then have "(?ms - s) mod ?d < 2 ^ 64" by (rule less_le_trans) (use assms(3) in simp)
  then have "unat off = (?ms - s) mod ?d" by (simp add: off unsigned_of_nat take_bit_nat_eq_self)
  then have "rotate_steps 0 off rot = rotate ((?ms - s) mod ?d) rot"
    using rotate_steps_rotate [of 0 off rot] rot(1) assms(1) by simp
  also have "\<dots> = take ?d (drop ?ms ins)"
    using rot end_ assms(4) by (intro nth_equalityI) (simp_all add: nth_rotate mod_add_left_eq)
  finally have "rotate_steps 0 off rot = take ?d (drop ?ms ins)" .
  then show ?thesis using loop assms end_(2) by (simp add: EVP_tls_cbc_copy_mac_def s_def Let_def)
qed

theorem tls_padding_removed_witness:
  "EVP_tls_cbc_remove_padding [7, 8, 9, 6, 1, 1] 2 = Ok (mask_of True, 4) () \<and>
   EVP_tls_cbc_remove_padding [7, 8, 9, 6, 5, 1] 2 = Ok (mask_of False, 6) () \<and>
   EVP_tls_cbc_remove_padding [7, 8] 2 = Fail ()"
proof -
  have "padding_valid [7, 8, 9, 6, 1, 1] 2" "\<not> padding_valid [7, 8, 9, 6, 5, 1] 2"
    "unpadded_length [7, 8, 9, 6, 1, 1] 2 = 4" "unpadded_length [7, 8, 9, 6, 5, 1] 2 = 6"
    by code_simp+
  then show ?thesis
    using tls_padding_removed [of "[7, 8, 9, 6, 1, 1]" 2] tls_padding_removed [of "[7, 8, 9, 6, 5, 1]" 2]
      tls_padding_removed [of "[7, 8]" 2] by simp
qed

theorem tls_mac_copied_witness: "EVP_tls_cbc_copy_mac 2 [7, 8, 9, 6, 1, 1] 4 = Ok [9, 6] ()"
  using tls_mac_copied [of 2 4 "[7, 8, 9, 6, 1, 1]"] by simp

end
