(* ===== verification/Md32.thy ===== *)
theory Md32
  imports Prelude
begin

text \<open>
  The collector of the hash functions with 64-byte blocks of 32-bit words,
  \<open>crypto/fipsmodule/digest/md32_common.h\<close>. The macros that the including file defines are the fields of
  \<open>md32\<close>; all files that include it define \<open>HASH_CBLOCK\<close> as 64.
\<close>

record hash_ctx =
  hash_h :: "u32 list"
  Nl :: u32
  Nh :: u32
  hash_data :: "byte list"
  num :: nat
  md_len :: nat

record md32 =
  block_data_order :: "u32 list \<Rightarrow> byte list \<Rightarrow> u32 list"
  make_string :: "hash_ctx \<Rightarrow> byte list option"
  big_endian :: bool

abbreviation (input) HASH_CBLOCK :: nat where "HASH_CBLOCK \<equiv> 64"

text \<open>\<open>HASH_BLOCK_DATA_ORDER\<close> for several blocks, from its definition for one.\<close>

fun HASH_BLOCK_DATA_ORDER :: "md32 \<Rightarrow> u32 list \<Rightarrow> byte list \<Rightarrow> nat \<Rightarrow> u32 list" where
  "HASH_BLOCK_DATA_ORDER alg state data 0 = state"
| "HASH_BLOCK_DATA_ORDER alg state data (Suc n) =
     HASH_BLOCK_DATA_ORDER alg (block_data_order alg state (take HASH_CBLOCK data)) (drop HASH_CBLOCK data) n"

definition HASH_TRANSFORM :: "md32 \<Rightarrow> hash_ctx \<Rightarrow> byte list \<Rightarrow> hash_ctx" where
  "HASH_TRANSFORM alg c data = c\<lparr>hash_h := HASH_BLOCK_DATA_ORDER alg (hash_h c) data 1\<rparr>"

text \<open>The counter of the bits.\<close>

definition count_bits :: "nat \<Rightarrow> hash_ctx \<Rightarrow> hash_ctx" where
  "count_bits len c =
     (let l = Nl c + push_bit 3 (of_nat len); hi = (if l < Nl c then Nh c + 1 else Nh c)
      in c\<lparr>Nh := hi + of_nat (drop_bit 29 len), Nl := l\<rparr>)"

text \<open>\<open>memcpy\<close> into the buffer of the context; outside of it, undefined behaviour.\<close>

definition copy_data :: "nat \<Rightarrow> byte list \<Rightarrow> hash_ctx \<Rightarrow> hash_ctx option" where
  "copy_data n bs c =
     (if n + length bs \<le> length (hash_data c)
      then Some (c\<lparr>hash_data := take n (hash_data c) @ bs @ drop (n + length bs) (hash_data c)\<rparr>) else None)"

text \<open>The whole blocks and what is left behind them.\<close>

definition update_blocks :: "md32 \<Rightarrow> hash_ctx \<Rightarrow> byte list \<Rightarrow> hash_ctx option" where
  "update_blocks alg c data =
     (let n = length data div HASH_CBLOCK;
        c = (if n > 0 then c\<lparr>hash_h := HASH_BLOCK_DATA_ORDER alg (hash_h c) data n\<rparr> else c);
        data = drop (n * HASH_CBLOCK) data
      in if data \<noteq> [] then copy_data 0 data (c\<lparr>num := length data\<rparr>) else Some c)"

definition HASH_UPDATE :: "md32 \<Rightarrow> hash_ctx \<Rightarrow> byte list \<Rightarrow> hash_ctx option" where
  "HASH_UPDATE alg c data =
     (if data = [] then Some c
      else let c = count_bits (length data) c; n = num c in
        if n \<noteq> 0 then
          if HASH_CBLOCK \<le> length data \<or> HASH_CBLOCK \<le> length data + n then
            (case copy_data n (take (HASH_CBLOCK - n) data) c of None \<Rightarrow> None
             | Some c \<Rightarrow> update_blocks alg (c\<lparr>hash_h := HASH_BLOCK_DATA_ORDER alg (hash_h c) (hash_data c) 1,
                 num := 0, hash_data := replicate HASH_CBLOCK 0\<rparr>) (drop (HASH_CBLOCK - n) data))
          else map_option (\<lambda>c. c\<lparr>num := n + length data\<rparr>) (copy_data n data c)
        else update_blocks alg c data)"

text \<open>The digest and the context; \<open>None\<close> if an assertion is violated or \<open>HASH_MAKE_STRING\<close> returns 0.\<close>

definition HASH_FINAL :: "md32 \<Rightarrow> hash_ctx \<Rightarrow> (byte list \<times> hash_ctx) option" where
  "HASH_FINAL alg c =
     (let n = num c in
      if \<not> n < HASH_CBLOCK \<or> length (hash_data c) \<noteq> HASH_CBLOCK then None
      else let data = take n (hash_data c) @ [0x80]; n = n + 1;
        (st, data, n) = (if HASH_CBLOCK - 8 < n
          then (HASH_BLOCK_DATA_ORDER alg (hash_h c) (data @ replicate (HASH_CBLOCK - n) 0) 1, [], 0)
          else (hash_h c, data, n));
        len = (if big_endian alg then be_bytes 4 (Nh c) @ be_bytes 4 (Nl c) else le_bytes 4 (Nl c) @ le_bytes 4 (Nh c));
        data = data @ replicate (HASH_CBLOCK - 8 - n) 0 @ len;
        c = c\<lparr>hash_h := HASH_BLOCK_DATA_ORDER alg st data 1, num := 0, hash_data := replicate HASH_CBLOCK 0\<rparr>
      in map_option (\<lambda>md. (md, c)) (make_string alg c))"

section \<open>Hashing a message\<close>

text \<open>The message with a bit 1, zero bits and its length in bits, as FIPS 180-4 pads it for SHA-1 and SHA-256
  (with the length in little-endian order, RFC 1320 and 1321 for MD4 and MD5).\<close>

definition length_bytes :: "bool \<Rightarrow> nat \<Rightarrow> byte list" where
  "length_bytes big n = (if big then be_bytes 8 (of_nat (8 * n) :: u64) else le_bytes 8 (of_nat (8 * n) :: u64))"

definition pad_message :: "bool \<Rightarrow> byte list \<Rightarrow> byte list" where
  "pad_message big bs = bs @ [0x80] @ replicate ((119 - length bs mod 64) mod 64) 0 @ length_bytes big (length bs)"

definition chain :: "md32 \<Rightarrow> u32 list \<Rightarrow> byte list \<Rightarrow> u32 list" where
  "chain alg st bs = HASH_BLOCK_DATA_ORDER alg st bs (length bs div HASH_CBLOCK)"

text \<open>The context after a prefix of the message.\<close>

definition absorbed :: "md32 \<Rightarrow> u32 list \<Rightarrow> byte list \<Rightarrow> hash_ctx \<Rightarrow> bool" where
  "absorbed alg st bs c \<longleftrightarrow>
     hash_h c = chain alg st bs \<and> length (hash_data c) = HASH_CBLOCK \<and> num c = length bs mod HASH_CBLOCK \<and>
     take (num c) (hash_data c) = drop (length bs div HASH_CBLOCK * HASH_CBLOCK) bs \<and>
     unat (Nh c) * 2 ^ 32 + unat (Nl c) = 8 * length bs mod 2 ^ 64"

lemma blocks_append:
  "length xs = n * HASH_CBLOCK \<Longrightarrow>
   HASH_BLOCK_DATA_ORDER alg st (xs @ ys) (n + m) = HASH_BLOCK_DATA_ORDER alg (HASH_BLOCK_DATA_ORDER alg st xs n) ys m"
proof (induction n arbitrary: st xs)
  case (Suc n)
  then show ?case using Suc(1) [of "drop 64 xs"] by simp
qed simp

lemma blocks_prefix: "n * HASH_CBLOCK \<le> length xs \<Longrightarrow>
    HASH_BLOCK_DATA_ORDER alg st (xs @ ys) n = HASH_BLOCK_DATA_ORDER alg st xs n"
  using blocks_append [of "take (n * 64) xs" n alg st "drop (n * 64) xs @ ys" 0]
    blocks_append [of "take (n * 64) xs" n alg st "drop (n * 64) xs" 0] by (simp del: append_assoc add: append_assoc [symmetric])

lemma chain_append: "HASH_CBLOCK dvd length xs \<Longrightarrow> chain alg st (xs @ ys) = chain alg (chain alg st xs) ys"
  unfolding chain_def by (elim dvdE) (simp add: blocks_append div_add1_eq)

lemma count_carry:
  fixes hi lo :: "'a::len word"
  assumes "lo' = lo + of_nat m" and "hi' = (if lo' < lo then hi + 1 else hi) + of_nat (m div 2 ^ LENGTH('a))"
  shows "unat hi' * 2 ^ LENGTH('a) + unat lo' = (unat hi * 2 ^ LENGTH('a) + unat lo + m) mod 2 ^ (2 * LENGTH('a))"
proof -
  let ?B = "2 ^ LENGTH('a) :: nat"
  have word: "unat (of_nat k :: 'a word) = k mod ?B" for k by (simp add: unsigned_of_nat take_bit_eq_mod)
  have lo': "unat lo' = (unat lo + m mod ?B) mod ?B" "unat lo < ?B" "m mod ?B < ?B" "unat lo' < ?B"
    unfolding assms(1) by (simp_all add: unat_word_ariths word)
  define k where "k = (if lo' < lo then 1 else 0 :: nat)"
  have carry: "unat lo + m mod ?B = k * ?B + unat lo'"
  proof (cases "unat lo + m mod ?B < ?B")
    case True
    then show ?thesis using lo' by (simp add: k_def word_less_nat_alt)
  next
    case False
    then have "unat lo' = unat lo + m mod ?B - ?B" using lo' by (simp add: le_mod_geq)
    moreover from this have "unat lo' < unat lo" using lo'(3) False by linarith
    ultimately show ?thesis using False by (simp add: k_def word_less_nat_alt)
  qed
  have "hi' = of_nat (unat hi + k + m div ?B)" by (simp add: assms(2) k_def)
  then have "unat hi' = (unat hi + k + m div ?B) mod ?B" by (simp only: word)
  moreover have "X mod ?B * ?B + unat lo' = (X * ?B + unat lo') mod 2 ^ (2 * LENGTH('a))" for X
  proof -
    have "(X * ?B + unat lo') mod (?B * ?B) = ?B * ((X * ?B + unat lo') div ?B mod ?B) + (X * ?B + unat lo') mod ?B"
      by (rule mod_mult2_eq)
    then show ?thesis using lo'(4) by (simp add: mult_2 power_add)
  qed
  moreover have "(unat hi + k + m div ?B) * ?B + unat lo' = unat hi * ?B + unat lo + m"
  proof -
    have "(unat hi + k + m div ?B) * ?B + unat lo' = unat hi * ?B + (k * ?B + unat lo') + m div ?B * ?B"
      by (simp add: algebra_simps)
    then show ?thesis unfolding carry [symmetric] using div_mult_mod_eq [of m ?B] by simp
  qed
  ultimately show ?thesis by simp
qed

lemma byte_of_nat:
  "i + 8 \<le> LENGTH('a) \<Longrightarrow> ucast (drop_bit i (of_nat k :: 'a::len word)) = (of_nat (k div 2 ^ i) :: byte)"
  by (intro bit_eqI) (auto simp: bit_simps possible_bit_word simp flip: drop_bit_eq_div)

lemma length_bytes_halves:
  fixes hi lo :: "'a::len word"
  assumes "unat hi * 2 ^ LENGTH('a) + unat lo = k mod 2 ^ (2 * LENGTH('a))"
    and "8 * n = LENGTH('a)" "LENGTH('b::len) = 2 * LENGTH('a)"
  shows "le_bytes n lo @ le_bytes n hi = le_bytes (2 * n) (of_nat k :: 'b word)"
proof -
  let ?B = "2 ^ LENGTH('a) :: nat"
  have sq: "2 ^ (2 * LENGTH('a)) = ?B * ?B" by (simp add: mult_2 power_add)
  have "unat lo < ?B" by simp
  then have "unat lo = k mod ?B" "unat hi = k div ?B mod ?B"
  proof -
    assume lo: "unat lo < ?B"
    have "k mod (?B * ?B) = ?B * (k div ?B mod ?B) + k mod ?B" by (rule mod_mult2_eq)
    then have eq: "unat hi * ?B + unat lo = (k div ?B mod ?B) * ?B + k mod ?B" using assms(1) unfolding sq by simp
    have "(unat hi * ?B + unat lo) mod ?B = unat lo" "(unat hi * ?B + unat lo) div ?B = unat hi" using lo by simp_all
    moreover have "((k div ?B mod ?B) * ?B + k mod ?B) mod ?B = k mod ?B"
      "((k div ?B mod ?B) * ?B + k mod ?B) div ?B = k div ?B mod ?B" by simp_all
    ultimately show "unat lo = k mod ?B" "unat hi = k div ?B mod ?B" unfolding eq by simp_all
  qed
  then have w: "lo = of_nat k" "hi = of_nat (k div ?B)"
    by (simp_all add: word_unat_eq_iff unsigned_of_nat take_bit_eq_mod)
  have "le_bytes n (of_nat j :: 'a word) = map (\<lambda>i. of_nat (j div 2 ^ (8 * i))) [0..<n]" for j
    unfolding le_bytes_def using assms(2) by (intro map_cong refl byte_of_nat) auto
  moreover have "le_bytes (2 * n) (of_nat k :: 'b word) = map (\<lambda>i. of_nat (k div 2 ^ (8 * i))) [0..<2 * n]"
    unfolding le_bytes_def using assms(2,3) by (intro map_cong refl byte_of_nat) auto
  moreover have "[0..<2 * n] = [0..<n] @ map (\<lambda>i. n + i) [0..<n]"
    using upt_add_eq_append [of 0 n n] map_add_upt [of n n] by (simp add: mult_2 add.commute)
  moreover have "k div 2 ^ (8 * (n + i)) = k div ?B div 2 ^ (8 * i)" for i
    by (simp add: div_mult2_eq [symmetric] power_add [symmetric] assms(2) [symmetric] algebra_simps)
  ultimately show ?thesis unfolding w by (simp add: o_def)
qed

lemma count_bits:
  assumes "unat (Nh c) * 2 ^ 32 + unat (Nl c) = 8 * n mod 2 ^ 64" and "c' = count_bits len c"
  shows "unat (Nh c') * 2 ^ 32 + unat (Nl c') = 8 * (n + len) mod 2 ^ 64"
    "hash_h c' = hash_h c" "hash_data c' = hash_data c" "num c' = num c" "md_len c' = md_len c"
proof -
  show "hash_h c' = hash_h c" "hash_data c' = hash_data c" "num c' = num c" "md_len c' = md_len c"
    by (simp_all add: assms(2) count_bits_def Let_def)
  have "Nl c' = Nl c + of_nat (8 * len)"
    by (simp add: assms(2) count_bits_def Let_def push_bit_eq_mult mult.commute)
  moreover have "8 * len div 2 ^ 32 = len div 2 ^ 29" using div_mult_mult1 [of 8 len "2 ^ 29"] by simp
  then have "Nh c' = (if Nl c' < Nl c then Nh c + 1 else Nh c) + of_nat (8 * len div 2 ^ LENGTH(32))"
    by (simp add: assms(2) count_bits_def Let_def drop_bit_eq_div)
  ultimately have "unat (Nh c') * 2 ^ 32 + unat (Nl c') = (unat (Nh c) * 2 ^ 32 + unat (Nl c) + 8 * len) mod 2 ^ 64"
    using count_carry [of "Nl c'" "Nl c" "8 * len" "Nh c'" "Nh c"] by simp
  then show "unat (Nh c') * 2 ^ 32 + unat (Nl c') = 8 * (n + len) mod 2 ^ 64"
    unfolding assms(1) mod_add_left_eq by (simp add: algebra_simps)
qed

lemma chain_short: "length xs < HASH_CBLOCK \<Longrightarrow> chain alg st xs = st"
  by (simp add: chain_def)

lemma chain_block: "length xs = HASH_CBLOCK \<Longrightarrow> chain alg st xs = HASH_BLOCK_DATA_ORDER alg st xs 1"
  by (simp add: chain_def)

text \<open>The whole blocks of a message and the bytes behind them.\<close>

definition whole :: "byte list \<Rightarrow> byte list" where
  "whole bs = take (length bs div HASH_CBLOCK * HASH_CBLOCK) bs"

definition tail :: "byte list \<Rightarrow> byte list" where
  "tail bs = drop (length bs div HASH_CBLOCK * HASH_CBLOCK) bs"

lemma length_whole: "length (whole bs) = length bs div HASH_CBLOCK * HASH_CBLOCK"
  using div_times_less_eq_dividend [of "length bs" 64] by (simp add: whole_def)

lemma whole_tail: "bs = whole bs @ tail bs" "HASH_CBLOCK dvd length (whole bs)" "length (tail bs) = length bs mod HASH_CBLOCK"
  by (simp_all add: length_whole) (simp_all add: whole_def tail_def minus_div_mult_eq_mod)

lemma split_whole:
  assumes "bs = xs @ ys" and "HASH_CBLOCK dvd length xs" "length ys < HASH_CBLOCK"
  shows "whole bs = xs" "tail bs = ys" "length bs mod HASH_CBLOCK = length ys" "chain alg st bs = chain alg st xs"
proof -
  obtain n where n: "length xs = 64 * n" using assms(2) by (rule dvdE)
  then have "length bs div 64 = n" "length bs mod 64 = length ys" using assms(1,3) by simp_all
  then show "whole bs = xs" "tail bs = ys" "length bs mod 64 = length ys"
    using assms(1) n by (simp_all add: whole_def tail_def)
  show "chain alg st bs = chain alg st xs" using assms by (simp add: chain_append chain_short)
qed

lemma chain_whole: "chain alg st (whole bs) = chain alg st bs"
  using split_whole(4) [OF whole_tail(1,2)] whole_tail(3) [of bs] by simp

lemma absorbed_iff:
  "absorbed alg st bs c \<longleftrightarrow> hash_h c = chain alg st bs \<and> length (hash_data c) = HASH_CBLOCK \<and>
     num c = length (tail bs) \<and> take (num c) (hash_data c) = tail bs \<and>
     unat (Nh c) * 2 ^ 32 + unat (Nl c) = 8 * length bs mod 2 ^ 64"
  by (simp add: absorbed_def tail_def minus_div_mult_eq_mod)

lemma update_blocks_correct:
  assumes "length (hash_data c) = HASH_CBLOCK" and "num c = 0"
  shows "\<exists>c'. update_blocks alg c data = Some c' \<and> hash_h c' = chain alg (hash_h c) data \<and>
    length (hash_data c') = HASH_CBLOCK \<and> num c' = length (tail data) \<and> take (num c') (hash_data c') = tail data \<and>
    Nh c' = Nh c \<and> Nl c' = Nl c \<and> md_len c' = md_len c"
proof -
  let ?c = "c\<lparr>hash_h := chain alg (hash_h c) data\<rparr>"
  have "update_blocks alg c data =
      (if tail data \<noteq> [] then copy_data 0 (tail data) (?c\<lparr>num := length (tail data)\<rparr>) else Some ?c)"
    by (cases c) (simp add: update_blocks_def Let_def chain_def tail_def)
  moreover have "length (tail data) < 64" by (simp add: whole_tail(3))
  ultimately show ?thesis using assms by (auto simp: copy_data_def)
qed

text \<open>An update absorbs its data, however the message is cut into pieces.\<close>

lemma update_absorbs:
  assumes "absorbed alg st bs c"
  shows "\<exists>c'. HASH_UPDATE alg c data = Some c' \<and> absorbed alg st (bs @ data) c' \<and> md_len c' = md_len c"
proof (cases "data = []")
  case True
  then show ?thesis using assms by (simp add: HASH_UPDATE_def)
next
  case False
  let ?c = "count_bits (length data) c" and ?t = "tail bs"
  note bits = count_bits [OF _ refl, of c "length bs" "length data"]
  have c: "hash_h ?c = chain alg st bs" "length (hash_data ?c) = 64" "num ?c = length ?t" "take (num ?c) (hash_data ?c) = ?t"
    "unat (Nh ?c) * 2 ^ 32 + unat (Nl ?c) = 8 * length (bs @ data) mod 2 ^ 64" "md_len ?c = md_len c"
    using assms bits unfolding absorbed_iff by auto
  have t: "length ?t < 64" by (simp add: whole_tail(3))
  have bs: "bs @ data = whole bs @ (?t @ data)" using whole_tail(1) [of bs] by simp
  have all: "chain alg st (bs @ data) = chain alg (chain alg st bs) (?t @ data)"
    unfolding bs by (simp add: chain_append whole_tail(2) chain_whole)
  have tail_all: "tail (bs @ data) = tail (?t @ data)"
  proof -
    have "bs @ data = (whole bs @ whole (?t @ data)) @ tail (?t @ data)" using bs whole_tail(1) [of "?t @ data"] by simp
    then show ?thesis
      by (rule split_whole(2)) (use whole_tail(2) [of bs] whole_tail(2) [of "?t @ data"] whole_tail(3) [of "?t @ data"] in simp_all)
  qed
  consider (short) "?t \<noteq> []" "length ?t + length data < 64" | (fill) "?t \<noteq> []" "64 \<le> length ?t + length data" | (empty) "?t = []"
    by linarith
  then show ?thesis
  proof cases
    case short
    then have "tail (bs @ data) = ?t @ data" "chain alg st (bs @ data) = chain alg st bs"
      unfolding tail_all all using split_whole(2) [of "?t @ data" "[]" "?t @ data"] by (simp_all add: chain_short)
    then show ?thesis
      using False short c t unfolding absorbed_iff by (simp add: HASH_UPDATE_def Let_def copy_data_def)
  next
    case fill
    let ?x = "take (64 - length ?t) data" and ?r = "drop (64 - length ?t) data"
    have x: "length (?t @ ?x) = 64" "?t @ data = (?t @ ?x) @ ?r" using fill(2) t by simp_all
    let ?c1 = "?c\<lparr>hash_h := HASH_BLOCK_DATA_ORDER alg (hash_h ?c) (?t @ ?x) 1, num := 0, hash_data := replicate 64 0\<rparr>"
    have upd: "HASH_UPDATE alg c data = update_blocks alg ?c1 ?r"
      using False fill c t x(1) by (simp add: HASH_UPDATE_def Let_def copy_data_def)
    have h: "hash_h ?c1 = chain alg (chain alg st bs) (?t @ ?x)" using chain_block [OF x(1)] c(1) by simp
    have "chain alg st (bs @ data) = chain alg (hash_h ?c1) ?r"
      unfolding all h x(2) using x(1) by (intro chain_append) simp
    moreover have "tail (bs @ data) = tail ?r"
    proof -
      have "?t @ data = ((?t @ ?x) @ whole ?r) @ tail ?r" using x(2) whole_tail(1) [of ?r] by simp
      moreover have "64 dvd length ((?t @ ?x) @ whole ?r)"
        unfolding length_append [of "?t @ ?x"] x(1) using whole_tail(2) [of ?r] by simp
      moreover have "length (tail ?r) < 64" by (simp add: whole_tail(3))
      ultimately show ?thesis unfolding tail_all by (rule split_whole(2))
    qed
    moreover obtain c' where "update_blocks alg ?c1 ?r = Some c'" "hash_h c' = chain alg (hash_h ?c1) ?r"
      "length (hash_data c') = 64" "num c' = length (tail ?r)" "take (num c') (hash_data c') = tail ?r"
      "Nh c' = Nh ?c" "Nl c' = Nl ?c" "md_len c' = md_len c"
      using update_blocks_correct [of ?c1 alg ?r] c(6) by auto
    ultimately show ?thesis using c(5) unfolding upd absorbed_iff by (intro exI [of _ c']) simp
  next
    case empty
    then show ?thesis
      using update_blocks_correct [of ?c alg data] c all tail_all False unfolding absorbed_iff
      by (auto simp: HASH_UPDATE_def Let_def)
  qed
qed

lemma length_pad_message: "HASH_CBLOCK dvd length (pad_message big bs)"
proof -
  let ?n = "length bs" and ?r = "length bs mod 64"
  have "(119 - r) mod 64 = (if r \<le> 55 then 55 - r else 119 - r)" if "r < 64" for r :: nat
  proof (cases "r \<le> 55")
    case True
    then have "119 - r = 55 - r + 64" by simp
    then have "(119 - r) mod 64 = (55 - r) mod 64" by (simp only: mod_add_self2)
    then show ?thesis using True by simp
  qed (use that in simp)
  then have "?n + 1 + (119 - ?r) mod 64 + 8 = ?n + 1 + (if ?r \<le> 55 then 55 - ?r else 119 - ?r) + 8" by simp
  also have "\<dots> = 64 * (?n div 64 + (if ?r \<le> 55 then 1 else 2))"
  proof -
    have step: "n + 1 + (if r \<le> 55 then 55 - r else 119 - r) + 8 = 64 * (q + (if r \<le> 55 then 1 else 2))"
      if "n = 64 * q + r" "r < 64" for n q r :: nat using that by auto
    show ?thesis by (rule step) simp_all
  qed
  finally have "?n + 1 + (119 - ?r) mod 64 + 8 = 64 * (?n div 64 + (if ?r \<le> 55 then 1 else 2))" .
  moreover have "length (pad_message big bs) = ?n + 1 + (119 - ?r) mod 64 + 8"
    by (simp add: pad_message_def length_bytes_def)
  ultimately show ?thesis by simp
qed

lemma bit_count_bytes:
  assumes "unat hi * 2 ^ 32 + unat lo = 8 * n mod 2 ^ 64"
  shows "be_bytes 4 hi @ be_bytes 4 lo = length_bytes True n" "le_bytes 4 (lo :: u32) @ le_bytes 4 (hi :: u32) = length_bytes False n"
proof -
  have "le_bytes 8 (of_nat (8 * n) :: u64) = le_bytes 4 lo @ le_bytes 4 hi"
    using length_bytes_halves [of hi lo "8 * n" 4, where 'b = 64] assms by simp
  then show "le_bytes 4 (lo :: u32) @ le_bytes 4 (hi :: u32) = length_bytes False n"
    "be_bytes 4 hi @ be_bytes 4 lo = length_bytes True n"
    unfolding length_bytes_def be_bytes_def by simp_all
qed

text \<open>What the end of a hash computes.\<close>

lemma final_absorbed:
  assumes "absorbed alg st bs c"
  shows "\<exists>c'. HASH_FINAL alg c = map_option (\<lambda>md. (md, c')) (make_string alg c') \<and>
    hash_h c' = chain alg st (pad_message (big_endian alg) bs) \<and> md_len c' = md_len c"
proof -
  let ?t = "tail bs" and ?len = "length_bytes (big_endian alg) (length bs)"
  have c: "hash_h c = chain alg st bs" "length (hash_data c) = 64" "num c = length ?t" "take (num c) (hash_data c) = ?t"
    "unat (Nh c) * 2 ^ 32 + unat (Nl c) = 8 * length bs mod 2 ^ 64"
    using assms unfolding absorbed_iff by auto
  have t: "length ?t = length bs mod 64" "length ?t < 64" by (simp_all add: whole_tail(3))
  have len: "(if big_endian alg then be_bytes 4 (Nh c) @ be_bytes 4 (Nl c) else le_bytes 4 (Nl c) @ le_bytes 4 (Nh c)) = ?len"
    using bit_count_bytes [OF c(5)] by simp
  have pad: "pad_message (big_endian alg) bs =
      whole bs @ (?t @ [0x80] @ replicate ((119 - length ?t) mod 64) 0 @ ?len)"
    unfolding pad_message_def t(1) using whole_tail(1) [of bs] by simp
  have all: "chain alg st (pad_message (big_endian alg) bs) =
      chain alg (chain alg st bs) (?t @ [0x80] @ replicate ((119 - length ?t) mod 64) 0 @ ?len)"
    unfolding pad by (simp add: chain_append whole_tail(2) chain_whole)
  have size: "length ?len = 8" by (simp add: length_bytes_def)
  show ?thesis
  proof (cases "56 < length ?t + 1")
    case True
    let ?x = "?t @ [0x80] @ replicate (63 - length ?t) 0" and ?y = "replicate 56 0 @ ?len"
    have x: "length ?x = 64" "length ?y = 64" using t size by simp_all
    have "(119 - length ?t) mod 64 = (63 - length ?t) + 56" using True t by simp
    then have "?t @ [0x80] @ replicate ((119 - length ?t) mod 64) 0 @ ?len = ?x @ ?y"
      by (simp only: replicate_add) simp
    then have chain: "chain alg st (pad_message (big_endian alg) bs) =
        HASH_BLOCK_DATA_ORDER alg (HASH_BLOCK_DATA_ORDER alg (hash_h c) ?x 1) ?y 1"
      unfolding all using chain_append [of ?x alg "chain alg st bs" ?y] x chain_block [OF x(1)] chain_block [OF x(2)] c(1) by simp
    let ?c = "c\<lparr>hash_h := HASH_BLOCK_DATA_ORDER alg (HASH_BLOCK_DATA_ORDER alg (hash_h c) ?x 1) ?y 1, num := 0,
        hash_data := replicate 64 0\<rparr>"
    have "HASH_FINAL alg c = map_option (\<lambda>md. (md, ?c)) (make_string alg ?c)"
      using True c(2-4) t(2) len by (simp add: HASH_FINAL_def Let_def del: HASH_BLOCK_DATA_ORDER.simps)
    then show ?thesis using chain by (intro exI [of _ ?c]) simp
  next
    case False
    let ?x = "?t @ [0x80] @ replicate (55 - length ?t) 0 @ ?len"
    have x: "length ?x = 64" using False size by simp
    have "119 - length ?t = 55 - length ?t + 64" using False by simp
    then have "(119 - length ?t) mod 64 = (55 - length ?t) mod 64" by (simp only: mod_add_self2)
    then have chain: "chain alg st (pad_message (big_endian alg) bs) = HASH_BLOCK_DATA_ORDER alg (hash_h c) ?x 1"
      unfolding all using chain_block [OF x] c(1) by simp
    let ?c = "c\<lparr>hash_h := HASH_BLOCK_DATA_ORDER alg (hash_h c) ?x 1, num := 0, hash_data := replicate 64 0\<rparr>"
    have "HASH_FINAL alg c = map_option (\<lambda>md. (md, ?c)) (make_string alg ?c)"
      using False c(2-4) len by (simp add: HASH_FINAL_def Let_def del: HASH_BLOCK_DATA_ORDER.simps)
    then show ?thesis using chain by (intro exI [of _ ?c]) simp
  qed
qed

end
