(* ===== verification/Sha.thy ===== *)
theory Sha
  imports Md32
begin

text \<open>
  SHA-1, SHA-224 and SHA-256 as BoringSSL computes them without assembly,
  \<open>crypto/fipsmodule/sha/sha1.c\<close> and \<open>sha256.c\<close>: the working variables stay where they are and the macros
  rename them from round to round, and the message schedule is a ring of 16 words.
\<close>

definition ROTATE :: "u32 \<Rightarrow> nat \<Rightarrow> u32" where
  "ROTATE a n = (push_bit n a OR drop_bit (32 - n) a)"

text \<open>\<open>HOST_c2l\<close> for the 16 words of a block.\<close>

definition block_words :: "byte list \<Rightarrow> u32 list" where
  "block_words data = map (\<lambda>i. of_be (take 4 (drop (4 * i) data))) [0..<16]"

definition words_string :: "u32 list \<Rightarrow> byte list" where
  "words_string ws = concat (map (be_bytes 4) ws)"

section \<open>SHA-256\<close>

definition K256 :: "u32 list" where
  "K256 =
    [0x428a2f98, 0x71374491, 0xb5c0fbcf, 0xe9b5dba5, 0x3956c25b, 0x59f111f1, 0x923f82a4, 0xab1c5ed5, 0xd807aa98, 0x12835b01,
     0x243185be, 0x550c7dc3, 0x72be5d74, 0x80deb1fe, 0x9bdc06a7, 0xc19bf174, 0xe49b69c1, 0xefbe4786, 0x0fc19dc6, 0x240ca1cc,
     0x2de92c6f, 0x4a7484aa, 0x5cb0a9dc, 0x76f988da, 0x983e5152, 0xa831c66d, 0xb00327c8, 0xbf597fc7, 0xc6e00bf3, 0xd5a79147,
     0x06ca6351, 0x14292967, 0x27b70a85, 0x2e1b2138, 0x4d2c6dfc, 0x53380d13, 0x650a7354, 0x766a0abb, 0x81c2c92e, 0x92722c85,
     0xa2bfe8a1, 0xa81a664b, 0xc24b8b70, 0xc76c51a3, 0xd192e819, 0xd6990624, 0xf40e3585, 0x106aa070, 0x19a4c116, 0x1e376c08,
     0x2748774c, 0x34b0bcb5, 0x391c0cb3, 0x4ed8aa4a, 0x5b9cca4f, 0x682e6ff3, 0x748f82ee, 0x78a5636f, 0x84c87814, 0x8cc70208,
     0x90befffa, 0xa4506ceb, 0xbef9a3f7, 0xc67178f2]"

definition Sigma0 :: "u32 \<Rightarrow> u32" where "Sigma0 x = (ROTATE x 30 XOR ROTATE x 19 XOR ROTATE x 10)"
definition Sigma1 :: "u32 \<Rightarrow> u32" where "Sigma1 x = (ROTATE x 26 XOR ROTATE x 21 XOR ROTATE x 7)"
definition sigma0 :: "u32 \<Rightarrow> u32" where "sigma0 x = (ROTATE x 25 XOR ROTATE x 14 XOR drop_bit 3 x)"
definition sigma1 :: "u32 \<Rightarrow> u32" where "sigma1 x = (ROTATE x 15 XOR ROTATE x 13 XOR drop_bit 10 x)"
definition Ch :: "u32 \<Rightarrow> u32 \<Rightarrow> u32 \<Rightarrow> u32" where "Ch x y z = ((x AND y) XOR (NOT x AND z))"
definition Maj :: "u32 \<Rightarrow> u32 \<Rightarrow> u32 \<Rightarrow> u32" where "Maj x y z = ((x AND y) XOR (x AND z) XOR (y AND z))"

text \<open>The variable that is passed as the \<open>k\<close>th argument of the \<open>i\<close>th round: \<open>a\<close> to \<open>h\<close> move up one place a round.\<close>

definition reg8 :: "nat \<Rightarrow> nat \<Rightarrow> nat" where
  "reg8 i k = (k + 7 * i) mod 8"

definition ROUND_00_15 :: "nat \<Rightarrow> u32 \<Rightarrow> u32 list \<Rightarrow> u32 list" where
  "ROUND_00_15 i T1 v =
     (let a = v ! reg8 i 0; b = v ! reg8 i 1; c = v ! reg8 i 2; e = v ! reg8 i 4; f = v ! reg8 i 5; g = v ! reg8 i 6;
        T1 = T1 + (v ! reg8 i 7 + Sigma1 e + Ch e f g + K256 ! i);
        v = v[reg8 i 7 := Sigma0 a + Maj a b c];
        v = v[reg8 i 3 := v ! reg8 i 3 + T1]
      in v[reg8 i 7 := v ! reg8 i 7 + T1])"

definition ROUND_16_63 :: "nat \<Rightarrow> u32 list \<times> u32 list \<Rightarrow> u32 list \<times> u32 list" where
  "ROUND_16_63 i = (\<lambda>(X, v).
     let s0 = sigma0 (X ! ((i + 1) mod 16)); s1 = sigma1 (X ! ((i + 14) mod 16));
       T1 = X ! (i mod 16) + (s0 + s1 + X ! ((i + 9) mod 16))
     in (X[i mod 16 := T1], ROUND_00_15 i T1 v))"

definition sha256_block_data_order :: "u32 list \<Rightarrow> byte list \<Rightarrow> u32 list" where
  "sha256_block_data_order state data =
     (let X = block_words data;
        v = fold (\<lambda>i. ROUND_00_15 i (X ! i)) [0..<16] state;
        (X, v) = fold ROUND_16_63 [16..<64] (X, v)
      in map2 (+) state v)"

definition SHA256_MAKE_STRING :: "hash_ctx \<Rightarrow> byte list option" where
  "SHA256_MAKE_STRING c =
     (if md_len c = 28 then Some (words_string (take 7 (hash_h c)))
      else if md_len c = 32 then Some (words_string (take 8 (hash_h c)))
      else if 32 < md_len c then None
      else Some (words_string (take (md_len c div 4) (hash_h c))))"

definition sha256_md32 :: md32 where
  "sha256_md32 = \<lparr>block_data_order = sha256_block_data_order, make_string = SHA256_MAKE_STRING, big_endian = True\<rparr>"

definition SHA224_Init :: hash_ctx where
  "SHA224_Init = \<lparr>hash_h = [0xc1059ed8, 0x367cd507, 0x3070dd17, 0xf70e5939, 0xffc00b31, 0x68581511, 0x64f98fa7, 0xbefa4fa4],
     Nl = 0, Nh = 0, hash_data = replicate 64 0, num = 0, md_len = 28\<rparr>"

definition SHA256_Init :: hash_ctx where
  "SHA256_Init = \<lparr>hash_h = [0x6a09e667, 0xbb67ae85, 0x3c6ef372, 0xa54ff53a, 0x510e527f, 0x9b05688c, 0x1f83d9ab, 0x5be0cd19],
     Nl = 0, Nh = 0, hash_data = replicate 64 0, num = 0, md_len = 32\<rparr>"

definition SHA256_Update :: "hash_ctx \<Rightarrow> byte list \<Rightarrow> hash_ctx option" where
  "SHA256_Update ctx data = HASH_UPDATE sha256_md32 ctx data"

definition SHA256_Transform :: "hash_ctx \<Rightarrow> byte list \<Rightarrow> hash_ctx" where
  "SHA256_Transform ctx data = HASH_TRANSFORM sha256_md32 ctx data"

definition SHA256_Final :: "hash_ctx \<Rightarrow> (byte list \<times> hash_ctx) option" where
  "SHA256_Final ctx = HASH_FINAL sha256_md32 ctx"

definition SHA224_Update :: "hash_ctx \<Rightarrow> byte list \<Rightarrow> hash_ctx option" where
  "SHA224_Update ctx data = SHA256_Update ctx data"

definition SHA224_Final :: "hash_ctx \<Rightarrow> (byte list \<times> hash_ctx) option" where
  "SHA224_Final ctx = SHA256_Final ctx"

definition SHA224 :: "byte list \<Rightarrow> byte list option" where
  "SHA224 data = map_option fst (Option.bind (SHA224_Update SHA224_Init data) SHA224_Final)"

definition SHA256 :: "byte list \<Rightarrow> byte list option" where
  "SHA256 data = map_option fst (Option.bind (SHA256_Update SHA256_Init data) SHA256_Final)"

section \<open>SHA-1\<close>

definition K_00_19 :: u32 where "K_00_19 = 0x5a827999"
definition K_20_39 :: u32 where "K_20_39 = 0x6ed9eba1"
definition K_40_59 :: u32 where "K_40_59 = 0x8f1bbcdc"
definition K_60_79 :: u32 where "K_60_79 = 0xca62c1d6"

definition F_00_19 :: "u32 \<Rightarrow> u32 \<Rightarrow> u32 \<Rightarrow> u32" where "F_00_19 b c d = (((c XOR d) AND b) XOR d)"
definition F_20_39 :: "u32 \<Rightarrow> u32 \<Rightarrow> u32 \<Rightarrow> u32" where "F_20_39 b c d = (b XOR c XOR d)"
definition F_40_59 :: "u32 \<Rightarrow> u32 \<Rightarrow> u32 \<Rightarrow> u32" where "F_40_59 b c d = ((b AND c) OR ((b OR c) AND d))"
definition F_60_79 :: "u32 \<Rightarrow> u32 \<Rightarrow> u32 \<Rightarrow> u32" where "F_60_79 b c d = F_20_39 b c d"

text \<open>The variables \<open>A\<close> to \<open>E\<close> and \<open>T\<close>, of which each round leaves one out: the \<open>k\<close>th argument of the \<open>i\<close>th.\<close>

definition reg6 :: "nat \<Rightarrow> nat \<Rightarrow> nat" where
  "reg6 i k = (k + 5 * i) mod 6"

text \<open>\<open>BODY_00_15\<close> with the word \<open>x\<close>, and the same with the constant and the function of the later rounds.\<close>

definition sha1_body :: "u32 \<Rightarrow> (u32 \<Rightarrow> u32 \<Rightarrow> u32 \<Rightarrow> u32) \<Rightarrow> nat \<Rightarrow> u32 \<Rightarrow> u32 list \<Rightarrow> u32 list" where
  "sha1_body K F i x v =
     (let a = v ! reg6 i 0; b = v ! reg6 i 1; c = v ! reg6 i 2; d = v ! reg6 i 3; e = v ! reg6 i 4;
        v = v[reg6 i 5 := x + e + K + ROTATE a 5 + F b c d]
      in v[reg6 i 1 := ROTATE b 30])"

definition BODY_00_15 :: "nat \<Rightarrow> u32 \<Rightarrow> u32 list \<Rightarrow> u32 list" where
  "BODY_00_15 i x v = sha1_body K_00_19 F_00_19 i x v"

text \<open>\<open>Xupdate\<close>: the next word of the schedule, stored in place of the oldest.\<close>

definition Xupdate :: "nat \<Rightarrow> u32 list \<Rightarrow> u32" where
  "Xupdate i X = ROTATE (X ! (i mod 16) XOR X ! ((i + 2) mod 16) XOR X ! ((i + 8) mod 16) XOR X ! ((i + 13) mod 16)) 1"

definition BODY_16_79 :: "u32 \<Rightarrow> (u32 \<Rightarrow> u32 \<Rightarrow> u32 \<Rightarrow> u32) \<Rightarrow> nat \<Rightarrow> u32 list \<times> u32 list \<Rightarrow> u32 list \<times> u32 list" where
  "BODY_16_79 K F i = (\<lambda>(X, v). let f = Xupdate i X in (X[i mod 16 := f], sha1_body K F i f v))"

definition sha1_block_data_order :: "u32 list \<Rightarrow> byte list \<Rightarrow> u32 list" where
  "sha1_block_data_order state data =
     (let X = block_words data;
        v = fold (\<lambda>i. BODY_00_15 i (X ! i)) [0..<16] (state @ [0]);
        s = fold (BODY_16_79 K_00_19 F_00_19) [16..<20] (X, v);
        s = fold (BODY_16_79 K_20_39 F_20_39) [20..<40] s;
        s = fold (BODY_16_79 K_40_59 F_40_59) [40..<60] s;
        (X, v) = fold (BODY_16_79 K_60_79 F_60_79) [60..<80] s
      in map (\<lambda>k. state ! k + v ! reg6 80 k) [0..<5])"

definition SHA1_MAKE_STRING :: "hash_ctx \<Rightarrow> byte list option" where
  "SHA1_MAKE_STRING c = Some (words_string (take 5 (hash_h c)))"

definition sha1_md32 :: md32 where
  "sha1_md32 = \<lparr>block_data_order = sha1_block_data_order, make_string = SHA1_MAKE_STRING, big_endian = True\<rparr>"

text \<open>\<open>SHA_CTX\<close> has no \<open>md_len\<close>.\<close>

definition SHA1_Init :: hash_ctx where
  "SHA1_Init = \<lparr>hash_h = [0x67452301, 0xefcdab89, 0x98badcfe, 0x10325476, 0xc3d2e1f0],
     Nl = 0, Nh = 0, hash_data = replicate 64 0, num = 0, md_len = 0\<rparr>"

definition SHA1_Update :: "hash_ctx \<Rightarrow> byte list \<Rightarrow> hash_ctx option" where
  "SHA1_Update ctx data = HASH_UPDATE sha1_md32 ctx data"

definition SHA1_Transform :: "hash_ctx \<Rightarrow> byte list \<Rightarrow> hash_ctx" where
  "SHA1_Transform ctx data = HASH_TRANSFORM sha1_md32 ctx data"

definition SHA1_Final :: "hash_ctx \<Rightarrow> (byte list \<times> hash_ctx) option" where
  "SHA1_Final ctx = HASH_FINAL sha1_md32 ctx"

definition SHA1 :: "byte list \<Rightarrow> byte list option" where
  "SHA1 data = map_option fst (Option.bind (SHA1_Update SHA1_Init data) SHA1_Final)"

end
