(* ===== verification/Md5.thy ===== *)
theory Md5
  imports Sha
begin

text \<open>
  MD5 and MD4, \<open>crypto/fipsmodule/md5/md5.c\<close> and \<open>md4/md4.c\<close>, over the collector of \<open>md32_common.h\<close> with
  little-endian words. A line \<open>R(a, b, c, d, X(k), s, t)\<close> of the block functions is the triple of \<open>k\<close>, \<open>s\<close> and \<open>t\<close>.
\<close>

definition block_words_le :: "byte list \<Rightarrow> u32 list" where
  "block_words_le data = map (\<lambda>i. of_le (take 4 (drop (4 * i) data))) [0..<16]"

definition words_string_le :: "u32 list \<Rightarrow> byte list" where
  "words_string_le ws = concat (map (le_bytes 4) ws)"

text \<open>The variable that is passed as the \<open>k\<close>th argument of the \<open>i\<close>th line: \<open>A, B, C, D\<close>, then \<open>D, A, B, C\<close>, and so on.\<close>

definition reg4 :: "nat \<Rightarrow> nat \<Rightarrow> nat" where
  "reg4 i k = (k + 3 * i) mod 4"

section \<open>MD5\<close>

definition F5 :: "u32 \<Rightarrow> u32 \<Rightarrow> u32 \<Rightarrow> u32" where "F5 b c d = (((c XOR d) AND b) XOR d)"
definition G5 :: "u32 \<Rightarrow> u32 \<Rightarrow> u32 \<Rightarrow> u32" where "G5 b c d = (((b XOR c) AND d) XOR c)"
definition H5 :: "u32 \<Rightarrow> u32 \<Rightarrow> u32 \<Rightarrow> u32" where "H5 b c d = (b XOR c XOR d)"
definition I5 :: "u32 \<Rightarrow> u32 \<Rightarrow> u32 \<Rightarrow> u32" where "I5 b c d = ((NOT d OR b) XOR c)"

text \<open>\<open>R0\<close> to \<open>R3\<close> with the function \<open>F\<close> of the round.\<close>

definition md5_R :: "(u32 \<Rightarrow> u32 \<Rightarrow> u32 \<Rightarrow> u32) \<Rightarrow> u32 list \<Rightarrow> nat \<Rightarrow> nat \<times> nat \<times> u32 \<Rightarrow> u32 list \<Rightarrow> u32 list" where
  "md5_R F X i = (\<lambda>(k, s, t) v.
     let a = v ! reg4 i 0; b = v ! reg4 i 1; c = v ! reg4 i 2; d = v ! reg4 i 3;
       a = a + (X ! k + t + F b c d);
       a = ROTATE a s
     in v[reg4 i 0 := a + b])"

definition md5_lines :: "(nat \<times> nat \<times> u32) list" where
  "md5_lines =
    [(0, 7, 0xd76aa478), (1, 12, 0xe8c7b756), (2, 17, 0x242070db), (3, 22, 0xc1bdceee),
     (4, 7, 0xf57c0faf), (5, 12, 0x4787c62a), (6, 17, 0xa8304613), (7, 22, 0xfd469501),
     (8, 7, 0x698098d8), (9, 12, 0x8b44f7af), (10, 17, 0xffff5bb1), (11, 22, 0x895cd7be),
     (12, 7, 0x6b901122), (13, 12, 0xfd987193), (14, 17, 0xa679438e), (15, 22, 0x49b40821),
     (1, 5, 0xf61e2562), (6, 9, 0xc040b340), (11, 14, 0x265e5a51), (0, 20, 0xe9b6c7aa),
     (5, 5, 0xd62f105d), (10, 9, 0x02441453), (15, 14, 0xd8a1e681), (4, 20, 0xe7d3fbc8),
     (9, 5, 0x21e1cde6), (14, 9, 0xc33707d6), (3, 14, 0xf4d50d87), (8, 20, 0x455a14ed),
     (13, 5, 0xa9e3e905), (2, 9, 0xfcefa3f8), (7, 14, 0x676f02d9), (12, 20, 0x8d2a4c8a),
     (5, 4, 0xfffa3942), (8, 11, 0x8771f681), (11, 16, 0x6d9d6122), (14, 23, 0xfde5380c),
     (1, 4, 0xa4beea44), (4, 11, 0x4bdecfa9), (7, 16, 0xf6bb4b60), (10, 23, 0xbebfbc70),
     (13, 4, 0x289b7ec6), (0, 11, 0xeaa127fa), (3, 16, 0xd4ef3085), (6, 23, 0x04881d05),
     (9, 4, 0xd9d4d039), (12, 11, 0xe6db99e5), (15, 16, 0x1fa27cf8), (2, 23, 0xc4ac5665),
     (0, 6, 0xf4292244), (7, 10, 0x432aff97), (14, 15, 0xab9423a7), (5, 21, 0xfc93a039),
     (12, 6, 0x655b59c3), (3, 10, 0x8f0ccc92), (10, 15, 0xffeff47d), (1, 21, 0x85845dd1),
     (8, 6, 0x6fa87e4f), (15, 10, 0xfe2ce6e0), (6, 15, 0xa3014314), (13, 21, 0x4e0811a1),
     (4, 6, 0xf7537e82), (11, 10, 0xbd3af235), (2, 15, 0x2ad7d2bb), (9, 21, 0xeb86d391)]"

definition md5_round :: "nat \<Rightarrow> u32 \<Rightarrow> u32 \<Rightarrow> u32 \<Rightarrow> u32" where
  "md5_round i = (if i < 16 then F5 else if i < 32 then G5 else if i < 48 then H5 else I5)"

definition md5_block_data_order :: "u32 list \<Rightarrow> byte list \<Rightarrow> u32 list" where
  "md5_block_data_order state data =
     (let X = block_words_le data
      in map2 (+) state (fold (\<lambda>i. md5_R (md5_round i) X i (md5_lines ! i)) [0..<64] state))"

definition MD5_MAKE_STRING :: "hash_ctx \<Rightarrow> byte list option" where
  "MD5_MAKE_STRING c = Some (words_string_le (take 4 (hash_h c)))"

definition md5_md32 :: md32 where
  "md5_md32 = \<lparr>block_data_order = md5_block_data_order, make_string = MD5_MAKE_STRING, big_endian = False\<rparr>"

definition MD5_Init :: hash_ctx where
  "MD5_Init = \<lparr>hash_h = [0x67452301, 0xefcdab89, 0x98badcfe, 0x10325476],
     Nl = 0, Nh = 0, hash_data = replicate 64 0, num = 0, md_len = 0\<rparr>"

definition MD5_Update :: "hash_ctx \<Rightarrow> byte list \<Rightarrow> hash_ctx option" where
  "MD5_Update ctx data = HASH_UPDATE md5_md32 ctx data"

definition MD5_Transform :: "hash_ctx \<Rightarrow> byte list \<Rightarrow> hash_ctx" where
  "MD5_Transform ctx data = HASH_TRANSFORM md5_md32 ctx data"

definition MD5_Final :: "hash_ctx \<Rightarrow> (byte list \<times> hash_ctx) option" where
  "MD5_Final ctx = HASH_FINAL md5_md32 ctx"

definition MD5 :: "byte list \<Rightarrow> byte list option" where
  "MD5 data = map_option fst (Option.bind (MD5_Update MD5_Init data) MD5_Final)"

section \<open>MD4\<close>

definition F4 :: "u32 \<Rightarrow> u32 \<Rightarrow> u32 \<Rightarrow> u32" where "F4 b c d = (((c XOR d) AND b) XOR d)"
definition G4 :: "u32 \<Rightarrow> u32 \<Rightarrow> u32 \<Rightarrow> u32" where "G4 b c d = ((b AND c) OR (b AND d) OR (c AND d))"
definition H4 :: "u32 \<Rightarrow> u32 \<Rightarrow> u32 \<Rightarrow> u32" where "H4 b c d = (b XOR c XOR d)"

definition md4_R :: "(u32 \<Rightarrow> u32 \<Rightarrow> u32 \<Rightarrow> u32) \<Rightarrow> u32 list \<Rightarrow> nat \<Rightarrow> nat \<times> nat \<times> u32 \<Rightarrow> u32 list \<Rightarrow> u32 list" where
  "md4_R F X i = (\<lambda>(k, s, t) v.
     let a = v ! reg4 i 0; b = v ! reg4 i 1; c = v ! reg4 i 2; d = v ! reg4 i 3;
       a = a + (X ! k + t + F b c d)
     in v[reg4 i 0 := ROTATE a s])"

definition md4_lines :: "(nat \<times> nat \<times> u32) list" where
  "md4_lines =
    [(0, 3, 0), (1, 7, 0), (2, 11, 0), (3, 19, 0),
     (4, 3, 0), (5, 7, 0), (6, 11, 0), (7, 19, 0),
     (8, 3, 0), (9, 7, 0), (10, 11, 0), (11, 19, 0),
     (12, 3, 0), (13, 7, 0), (14, 11, 0), (15, 19, 0),
     (0, 3, 0x5A827999), (4, 5, 0x5A827999), (8, 9, 0x5A827999), (12, 13, 0x5A827999),
     (1, 3, 0x5A827999), (5, 5, 0x5A827999), (9, 9, 0x5A827999), (13, 13, 0x5A827999),
     (2, 3, 0x5A827999), (6, 5, 0x5A827999), (10, 9, 0x5A827999), (14, 13, 0x5A827999),
     (3, 3, 0x5A827999), (7, 5, 0x5A827999), (11, 9, 0x5A827999), (15, 13, 0x5A827999),
     (0, 3, 0x6ED9EBA1), (8, 9, 0x6ED9EBA1), (4, 11, 0x6ED9EBA1), (12, 15, 0x6ED9EBA1),
     (2, 3, 0x6ED9EBA1), (10, 9, 0x6ED9EBA1), (6, 11, 0x6ED9EBA1), (14, 15, 0x6ED9EBA1),
     (1, 3, 0x6ED9EBA1), (9, 9, 0x6ED9EBA1), (5, 11, 0x6ED9EBA1), (13, 15, 0x6ED9EBA1),
     (3, 3, 0x6ED9EBA1), (11, 9, 0x6ED9EBA1), (7, 11, 0x6ED9EBA1), (15, 15, 0x6ED9EBA1)]"

definition md4_round :: "nat \<Rightarrow> u32 \<Rightarrow> u32 \<Rightarrow> u32 \<Rightarrow> u32" where
  "md4_round i = (if i < 16 then F4 else if i < 32 then G4 else H4)"

definition md4_block_data_order :: "u32 list \<Rightarrow> byte list \<Rightarrow> u32 list" where
  "md4_block_data_order state data =
     (let X = block_words_le data
      in map2 (+) state (fold (\<lambda>i. md4_R (md4_round i) X i (md4_lines ! i)) [0..<48] state))"

definition MD4_MAKE_STRING :: "hash_ctx \<Rightarrow> byte list option" where
  "MD4_MAKE_STRING c = Some (words_string_le (take 4 (hash_h c)))"

definition md4_md32 :: md32 where
  "md4_md32 = \<lparr>block_data_order = md4_block_data_order, make_string = MD4_MAKE_STRING, big_endian = False\<rparr>"

definition MD4_Init :: hash_ctx where
  "MD4_Init = \<lparr>hash_h = [0x67452301, 0xefcdab89, 0x98badcfe, 0x10325476],
     Nl = 0, Nh = 0, hash_data = replicate 64 0, num = 0, md_len = 0\<rparr>"

definition MD4_Update :: "hash_ctx \<Rightarrow> byte list \<Rightarrow> hash_ctx option" where
  "MD4_Update ctx data = HASH_UPDATE md4_md32 ctx data"

definition MD4_Transform :: "hash_ctx \<Rightarrow> byte list \<Rightarrow> hash_ctx" where
  "MD4_Transform ctx data = HASH_TRANSFORM md4_md32 ctx data"

definition MD4_Final :: "hash_ctx \<Rightarrow> (byte list \<times> hash_ctx) option" where
  "MD4_Final ctx = HASH_FINAL md4_md32 ctx"

definition MD4 :: "byte list \<Rightarrow> byte list option" where
  "MD4 data = map_option fst (Option.bind (MD4_Update MD4_Init data) MD4_Final)"

end
