(* ===== verification/Sha512.thy ===== *)
theory Sha512
  imports Sha
begin

text \<open>
  SHA-384 and SHA-512, \<open>crypto/fipsmodule/sha/sha512.c\<close>, with the collector of its own for 128-byte blocks.
  \<open>SHA512_BLOCK_CAN_MANAGE_UNALIGNED_DATA\<close> is defined, as on x86-64 and 64-bit ARM.
\<close>

record sha512_ctx =
  sha_h :: "u64 list"
  sha_Nl :: u64
  sha_Nh :: u64
  sha_u :: "byte list"
  sha_num :: nat
  sha_md_len :: nat

section \<open>Compression\<close>

definition ROTR :: "u64 \<Rightarrow> nat \<Rightarrow> u64" where
  "ROTR x s = (drop_bit s x OR push_bit (64 - s) x)"

text \<open>\<open>PULL64\<close> of the 16 words of a block.\<close>

definition PULL64 :: "byte list \<Rightarrow> nat \<Rightarrow> u64" where
  "PULL64 W i = of_be (take 8 (drop (8 * i) W))"

definition K512 :: "u64 list" where
  "K512 =
    [0x428a2f98d728ae22, 0x7137449123ef65cd, 0xb5c0fbcfec4d3b2f, 0xe9b5dba58189dbbc, 0x3956c25bf348b538,
     0x59f111f1b605d019, 0x923f82a4af194f9b, 0xab1c5ed5da6d8118, 0xd807aa98a3030242, 0x12835b0145706fbe,
     0x243185be4ee4b28c, 0x550c7dc3d5ffb4e2, 0x72be5d74f27b896f, 0x80deb1fe3b1696b1, 0x9bdc06a725c71235,
     0xc19bf174cf692694, 0xe49b69c19ef14ad2, 0xefbe4786384f25e3, 0x0fc19dc68b8cd5b5, 0x240ca1cc77ac9c65,
     0x2de92c6f592b0275, 0x4a7484aa6ea6e483, 0x5cb0a9dcbd41fbd4, 0x76f988da831153b5, 0x983e5152ee66dfab,
     0xa831c66d2db43210, 0xb00327c898fb213f, 0xbf597fc7beef0ee4, 0xc6e00bf33da88fc2, 0xd5a79147930aa725,
     0x06ca6351e003826f, 0x142929670a0e6e70, 0x27b70a8546d22ffc, 0x2e1b21385c26c926, 0x4d2c6dfc5ac42aed,
     0x53380d139d95b3df, 0x650a73548baf63de, 0x766a0abb3c77b2a8, 0x81c2c92e47edaee6, 0x92722c851482353b,
     0xa2bfe8a14cf10364, 0xa81a664bbc423001, 0xc24b8b70d0f89791, 0xc76c51a30654be30, 0xd192e819d6ef5218,
     0xd69906245565a910, 0xf40e35855771202a, 0x106aa07032bbd1b8, 0x19a4c116b8d2d0c8, 0x1e376c085141ab53,
     0x2748774cdf8eeb99, 0x34b0bcb5e19b48a8, 0x391c0cb3c5c95a63, 0x4ed8aa4ae3418acb, 0x5b9cca4f7763e373,
     0x682e6ff3d6b2b8a3, 0x748f82ee5defb2fc, 0x78a5636f43172f60, 0x84c87814a1f0ab72, 0x8cc702081a6439ec,
     0x90befffa23631e28, 0xa4506cebde82bde9, 0xbef9a3f7b2c67915, 0xc67178f2e372532b, 0xca273eceea26619c,
     0xd186b8c721c0c207, 0xeada7dd6cde0eb1e, 0xf57d4f7fee6ed178, 0x06f067aa72176fba, 0x0a637dc5a2c898a6,
     0x113f9804bef90dae, 0x1b710b35131c471b, 0x28db77f523047d84, 0x32caab7b40c72493, 0x3c9ebe0a15c9bebc,
     0x431d67c49c100d4c, 0x4cc5d4becb3e42b6, 0x597f299cfc657e2a, 0x5fcb6fab3ad6faec, 0x6c44198c4a475817]"

definition Sigma0_512 :: "u64 \<Rightarrow> u64" where "Sigma0_512 x = (ROTR x 28 XOR ROTR x 34 XOR ROTR x 39)"
definition Sigma1_512 :: "u64 \<Rightarrow> u64" where "Sigma1_512 x = (ROTR x 14 XOR ROTR x 18 XOR ROTR x 41)"
definition sigma0_512 :: "u64 \<Rightarrow> u64" where "sigma0_512 x = (ROTR x 1 XOR ROTR x 8 XOR drop_bit 7 x)"
definition sigma1_512 :: "u64 \<Rightarrow> u64" where "sigma1_512 x = (ROTR x 19 XOR ROTR x 61 XOR drop_bit 6 x)"
definition Ch_512 :: "u64 \<Rightarrow> u64 \<Rightarrow> u64 \<Rightarrow> u64" where "Ch_512 x y z = ((x AND y) XOR (NOT x AND z))"
definition Maj_512 :: "u64 \<Rightarrow> u64 \<Rightarrow> u64 \<Rightarrow> u64" where "Maj_512 x y z = ((x AND y) XOR (x AND z) XOR (y AND z))"

text \<open>The round \<open>i\<close>, with the variables that the code passes as \<open>a\<close> to \<open>h\<close> in it (\<open>reg8\<close>).\<close>

definition ROUND_00_15_512 :: "nat \<Rightarrow> u64 \<Rightarrow> u64 list \<Rightarrow> u64 list" where
  "ROUND_00_15_512 i T1 v =
     (let a = v ! reg8 i 0; b = v ! reg8 i 1; c = v ! reg8 i 2; e = v ! reg8 i 4; f = v ! reg8 i 5; g = v ! reg8 i 6;
        T1 = T1 + (v ! reg8 i 7 + Sigma1_512 e + Ch_512 e f g + K512 ! i);
        v = v[reg8 i 7 := Sigma0_512 a + Maj_512 a b c];
        v = v[reg8 i 3 := v ! reg8 i 3 + T1]
      in v[reg8 i 7 := v ! reg8 i 7 + T1])"

definition ROUND_16_80 :: "nat \<Rightarrow> nat \<Rightarrow> u64 list \<times> u64 list \<Rightarrow> u64 list \<times> u64 list" where
  "ROUND_16_80 i j = (\<lambda>(X, v).
     let s0 = sigma0_512 (X ! ((j + 1) mod 16)); s1 = sigma1_512 (X ! ((j + 14) mod 16));
       T1 = X ! (j mod 16) + (s0 + s1 + X ! ((j + 9) mod 16))
     in (X[j mod 16 := T1], ROUND_00_15_512 (i + j) T1 v))"

definition sha512_block :: "u64 list \<Rightarrow> byte list \<Rightarrow> u64 list" where
  "sha512_block state W =
     (let X = map (PULL64 W) [0..<16];
        v = fold (\<lambda>i. ROUND_00_15_512 i (X ! i)) [0..<16] state;
        (X, v) = fold (\<lambda>i. fold (ROUND_16_80 i) [0..<16]) [16, 32, 48, 64] (X, v)
      in map2 (+) state v)"

fun sha512_block_data_order :: "u64 list \<Rightarrow> byte list \<Rightarrow> nat \<Rightarrow> u64 list" where
  "sha512_block_data_order state W 0 = state"
| "sha512_block_data_order state W (Suc n) = sha512_block_data_order (sha512_block state (take 128 W)) (drop 128 W) n"

section \<open>Collector\<close>

text \<open>The initialisation leaves the buffer as it is.\<close>

definition SHA384_Init :: "sha512_ctx \<Rightarrow> sha512_ctx" where
  "SHA384_Init sha = sha\<lparr>sha_h :=
      [0xcbbb9d5dc1059ed8, 0x629a292a367cd507, 0x9159015a3070dd17, 0x152fecd8f70e5939,
       0x67332667ffc00b31, 0x8eb44a8768581511, 0xdb0c2e0d64f98fa7, 0x47b5481dbefa4fa4],
     sha_Nl := 0, sha_Nh := 0, sha_num := 0, sha_md_len := 48\<rparr>"

definition SHA512_Init :: "sha512_ctx \<Rightarrow> sha512_ctx" where
  "SHA512_Init sha = sha\<lparr>sha_h :=
      [0x6a09e667f3bcc908, 0xbb67ae8584caa73b, 0x3c6ef372fe94f82b, 0xa54ff53a5f1d36f1,
       0x510e527fade682d1, 0x9b05688c2b3e6c1f, 0x1f83d9abfb41bd6b, 0x5be0cd19137e2179],
     sha_Nl := 0, sha_Nh := 0, sha_num := 0, sha_md_len := 64\<rparr>"

definition SHA512_Transform :: "sha512_ctx \<Rightarrow> byte list \<Rightarrow> sha512_ctx" where
  "SHA512_Transform c block = c\<lparr>sha_h := sha512_block_data_order (sha_h c) block 1\<rparr>"

definition sha512_count :: "nat \<Rightarrow> sha512_ctx \<Rightarrow> sha512_ctx" where
  "sha512_count len c =
     (let l = sha_Nl c + push_bit 3 (of_nat len); hi = (if l < sha_Nl c then sha_Nh c + 1 else sha_Nh c)
      in c\<lparr>sha_Nh := hi + of_nat (drop_bit 61 len), sha_Nl := l\<rparr>)"

text \<open>\<open>memcpy\<close> into the buffer of the context; outside of it, undefined behaviour.\<close>

definition sha512_copy :: "nat \<Rightarrow> byte list \<Rightarrow> sha512_ctx \<Rightarrow> sha512_ctx option" where
  "sha512_copy n bs c =
     (if n + length bs \<le> length (sha_u c)
      then Some (c\<lparr>sha_u := take n (sha_u c) @ bs @ drop (n + length bs) (sha_u c)\<rparr>) else None)"

definition sha512_blocks :: "sha512_ctx \<Rightarrow> byte list \<Rightarrow> sha512_ctx option" where
  "sha512_blocks c data =
     (let n = length data div 128;
        (c, data) = (if 128 \<le> length data
          then (c\<lparr>sha_h := sha512_block_data_order (sha_h c) data n\<rparr>, drop (length data - length data mod 128) data) else (c, data))
      in if data \<noteq> [] then map_option (\<lambda>c. c\<lparr>sha_num := length data\<rparr>) (sha512_copy 0 data c) else Some c)"

definition SHA512_Update :: "sha512_ctx \<Rightarrow> byte list \<Rightarrow> sha512_ctx option" where
  "SHA512_Update c data =
     (if data = [] then Some c
      else let c = sha512_count (length data) c in
        if sha_num c \<noteq> 0 then
          let n = 128 - sha_num c in
          if length data < n
          then map_option (\<lambda>c. c\<lparr>sha_num := sha_num c + length data\<rparr>) (sha512_copy (sha_num c) data c)
          else (case sha512_copy (sha_num c) (take n data) c of None \<Rightarrow> None
             | Some c \<Rightarrow> sha512_blocks (c\<lparr>sha_num := 0, sha_h := sha512_block_data_order (sha_h c) (sha_u c) 1\<rparr>) (drop n data))
        else sha512_blocks c data)"

text \<open>The digest and the context; \<open>md\<close> is false for a null pointer. \<open>None\<close> is the return value 0 or a write
  outside of the buffer.\<close>

definition SHA512_Final :: "bool \<Rightarrow> sha512_ctx \<Rightarrow> (byte list \<times> sha512_ctx) option" where
  "SHA512_Final md sha =
     (let n = sha_num sha in
      if \<not> n < 128 \<or> length (sha_u sha) \<noteq> 128 then None
      else let p = take n (sha_u sha) @ [0x80]; n = n + 1;
        (st, p, n) = (if 128 - 16 < n
          then (sha512_block_data_order (sha_h sha) (p @ replicate (128 - n) 0) 1, [], 0) else (sha_h sha, p, n));
        p = p @ replicate (128 - 16 - n) 0 @ be_bytes 8 (sha_Nh sha) @ be_bytes 8 (sha_Nl sha);
        sha = sha\<lparr>sha_h := sha512_block_data_order st p 1, sha_u := p\<rparr>
      in if \<not> md then None
         else if sha_md_len sha = 48 then Some (concat (map (be_bytes 8) (take 6 (sha_h sha))), sha)
         else if sha_md_len sha = 64 then Some (concat (map (be_bytes 8) (take 8 (sha_h sha))), sha)
         else None)"

definition SHA384_Update :: "sha512_ctx \<Rightarrow> byte list \<Rightarrow> sha512_ctx option" where
  "SHA384_Update sha data = SHA512_Update sha data"

definition SHA384_Final :: "bool \<Rightarrow> sha512_ctx \<Rightarrow> (byte list \<times> sha512_ctx) option" where
  "SHA384_Final md sha = SHA512_Final md sha"

text \<open>The one-shot functions, from a context on the stack with any contents.\<close>

definition SHA384 :: "sha512_ctx \<Rightarrow> byte list \<Rightarrow> byte list option" where
  "SHA384 ctx data = map_option fst (Option.bind (SHA384_Update (SHA384_Init ctx) data) (SHA384_Final True))"

definition SHA512 :: "sha512_ctx \<Rightarrow> byte list \<Rightarrow> byte list option" where
  "SHA512 ctx data = map_option fst (Option.bind (SHA512_Update (SHA512_Init ctx) data) (SHA512_Final True))"

end
