(* ===== verification/Digest.thy ===== *)
theory Digest
  imports Md5 Sha512
begin

text \<open>
  The interface to the hash functions, \<open>crypto/fipsmodule/digest/digests.c\<close> (the table of each function) and
  \<open>digest.c\<close> (contexts that own the memory for the state of one function). The memory behind \<open>md_data\<close> is a
  typed object or, before the initialisation and after \<open>OPENSSL_cleanse\<close>, bytes.
\<close>

section \<open>The tables\<close>

text \<open>The pointers that \<open>EVP_md4()\<close> to \<open>EVP_md5_sha1()\<close> return.\<close>

datatype evp_md = EVP_md4 | EVP_md5 | EVP_sha1 | EVP_sha224 | EVP_sha256 | EVP_sha384 | EVP_sha512 | EVP_md5_sha1

datatype md_data = Raw "byte list" | Md4_ctx hash_ctx | Md5_ctx hash_ctx | Sha_ctx hash_ctx | Sha256_ctx hash_ctx
  | Sha512_ctx sha512_ctx | Md5_sha1_ctx hash_ctx hash_ctx

record env_md =
  md_type :: nat
  md_size :: nat
  md_flags :: u32
  md_init :: "md_data \<Rightarrow> md_data option"
  md_update :: "md_data \<Rightarrow> byte list \<Rightarrow> md_data option"
  md_final :: "md_data \<Rightarrow> (byte list \<times> md_data) option"
  md_block_size :: nat
  md_ctx_size :: nat

text \<open>The functions of the tables; \<open>None\<close> is a failed \<open>CHECK\<close> or an object of another type. All initialisations
  overwrite the whole object, except those of SHA-384 and SHA-512, which leave its buffer.\<close>

definition raw_sha512 :: "byte list \<Rightarrow> sha512_ctx" where
  "raw_sha512 bs = \<lparr>sha_h = [], sha_Nl = 0, sha_Nh = 0, sha_u = take 128 (drop 80 bs), sha_num = 0, sha_md_len = 0\<rparr>"

definition md4_init :: "md_data \<Rightarrow> md_data option" where "md4_init d = Some (Md4_ctx MD4_Init)"
definition md5_init :: "md_data \<Rightarrow> md_data option" where "md5_init d = Some (Md5_ctx MD5_Init)"
definition sha1_init :: "md_data \<Rightarrow> md_data option" where "sha1_init d = Some (Sha_ctx SHA1_Init)"
definition sha224_init :: "md_data \<Rightarrow> md_data option" where "sha224_init d = Some (Sha256_ctx SHA224_Init)"
definition sha256_init :: "md_data \<Rightarrow> md_data option" where "sha256_init d = Some (Sha256_ctx SHA256_Init)"

fun sha384_init :: "md_data \<Rightarrow> md_data option" where
  "sha384_init (Sha512_ctx c) = Some (Sha512_ctx (SHA384_Init c))"
| "sha384_init (Raw bs) = (if length bs = 216 then Some (Sha512_ctx (SHA384_Init (raw_sha512 bs))) else None)"
| "sha384_init _ = None"

fun sha512_init :: "md_data \<Rightarrow> md_data option" where
  "sha512_init (Sha512_ctx c) = Some (Sha512_ctx (SHA512_Init c))"
| "sha512_init (Raw bs) = (if length bs = 216 then Some (Sha512_ctx (SHA512_Init (raw_sha512 bs))) else None)"
| "sha512_init _ = None"

definition md5_sha1_init :: "md_data \<Rightarrow> md_data option" where "md5_sha1_init d = Some (Md5_sha1_ctx MD5_Init SHA1_Init)"

fun md4_update :: "md_data \<Rightarrow> byte list \<Rightarrow> md_data option" where
  "md4_update (Md4_ctx c) data = map_option Md4_ctx (MD4_Update c data)"
| "md4_update _ data = None"

fun md5_update :: "md_data \<Rightarrow> byte list \<Rightarrow> md_data option" where
  "md5_update (Md5_ctx c) data = map_option Md5_ctx (MD5_Update c data)"
| "md5_update _ data = None"

fun sha1_update :: "md_data \<Rightarrow> byte list \<Rightarrow> md_data option" where
  "sha1_update (Sha_ctx c) data = map_option Sha_ctx (SHA1_Update c data)"
| "sha1_update _ data = None"

fun sha224_update :: "md_data \<Rightarrow> byte list \<Rightarrow> md_data option" where
  "sha224_update (Sha256_ctx c) data = map_option Sha256_ctx (SHA224_Update c data)"
| "sha224_update _ data = None"

fun sha256_update :: "md_data \<Rightarrow> byte list \<Rightarrow> md_data option" where
  "sha256_update (Sha256_ctx c) data = map_option Sha256_ctx (SHA256_Update c data)"
| "sha256_update _ data = None"

fun sha384_update :: "md_data \<Rightarrow> byte list \<Rightarrow> md_data option" where
  "sha384_update (Sha512_ctx c) data = map_option Sha512_ctx (SHA384_Update c data)"
| "sha384_update _ data = None"

fun sha512_update :: "md_data \<Rightarrow> byte list \<Rightarrow> md_data option" where
  "sha512_update (Sha512_ctx c) data = map_option Sha512_ctx (SHA512_Update c data)"
| "sha512_update _ data = None"

fun md5_sha1_update :: "md_data \<Rightarrow> byte list \<Rightarrow> md_data option" where
  "md5_sha1_update (Md5_sha1_ctx c5 c1) data =
     Option.bind (MD5_Update c5 data) (\<lambda>c5. map_option (Md5_sha1_ctx c5) (SHA1_Update c1 data))"
| "md5_sha1_update _ data = None"

fun md4_final :: "md_data \<Rightarrow> (byte list \<times> md_data) option" where
  "md4_final (Md4_ctx c) = map_option (map_prod id Md4_ctx) (MD4_Final c)"
| "md4_final _ = None"

fun md5_final :: "md_data \<Rightarrow> (byte list \<times> md_data) option" where
  "md5_final (Md5_ctx c) = map_option (map_prod id Md5_ctx) (MD5_Final c)"
| "md5_final _ = None"

fun sha1_final :: "md_data \<Rightarrow> (byte list \<times> md_data) option" where
  "sha1_final (Sha_ctx c) = map_option (map_prod id Sha_ctx) (SHA1_Final c)"
| "sha1_final _ = None"

fun sha224_final :: "md_data \<Rightarrow> (byte list \<times> md_data) option" where
  "sha224_final (Sha256_ctx c) = map_option (map_prod id Sha256_ctx) (SHA224_Final c)"
| "sha224_final _ = None"

fun sha256_final :: "md_data \<Rightarrow> (byte list \<times> md_data) option" where
  "sha256_final (Sha256_ctx c) = map_option (map_prod id Sha256_ctx) (SHA256_Final c)"
| "sha256_final _ = None"

fun sha384_final :: "md_data \<Rightarrow> (byte list \<times> md_data) option" where
  "sha384_final (Sha512_ctx c) = map_option (map_prod id Sha512_ctx) (SHA384_Final True c)"
| "sha384_final _ = None"

fun sha512_final :: "md_data \<Rightarrow> (byte list \<times> md_data) option" where
  "sha512_final (Sha512_ctx c) = map_option (map_prod id Sha512_ctx) (SHA512_Final True c)"
| "sha512_final _ = None"

fun md5_sha1_final :: "md_data \<Rightarrow> (byte list \<times> md_data) option" where
  "md5_sha1_final (Md5_sha1_ctx c5 c1) =
     Option.bind (MD5_Final c5) (\<lambda>(md5, c5). map_option (\<lambda>(sha1, c1). (md5 @ sha1, Md5_sha1_ctx c5 c1)) (SHA1_Final c1))"
| "md5_sha1_final _ = None"

definition EVP_md4_table :: env_md where
  "EVP_md4_table = \<lparr>md_type = 257, md_size = 16, md_flags = 0, md_init = md4_init, md_update = md4_update,
     md_final = md4_final, md_block_size = 64, md_ctx_size = 92\<rparr>"

definition EVP_md5_table :: env_md where
  "EVP_md5_table = \<lparr>md_type = 4, md_size = 16, md_flags = 0, md_init = md5_init, md_update = md5_update,
     md_final = md5_final, md_block_size = 64, md_ctx_size = 92\<rparr>"

definition EVP_sha1_table :: env_md where
  "EVP_sha1_table = \<lparr>md_type = 64, md_size = 20, md_flags = 0, md_init = sha1_init, md_update = sha1_update,
     md_final = sha1_final, md_block_size = 64, md_ctx_size = 96\<rparr>"

definition EVP_sha224_table :: env_md where
  "EVP_sha224_table = \<lparr>md_type = 675, md_size = 28, md_flags = 0, md_init = sha224_init, md_update = sha224_update,
     md_final = sha224_final, md_block_size = 64, md_ctx_size = 112\<rparr>"

definition EVP_sha256_table :: env_md where
  "EVP_sha256_table = \<lparr>md_type = 672, md_size = 32, md_flags = 0, md_init = sha256_init, md_update = sha256_update,
     md_final = sha256_final, md_block_size = 64, md_ctx_size = 112\<rparr>"

definition EVP_sha384_table :: env_md where
  "EVP_sha384_table = \<lparr>md_type = 673, md_size = 48, md_flags = 0, md_init = sha384_init, md_update = sha384_update,
     md_final = sha384_final, md_block_size = 128, md_ctx_size = 216\<rparr>"

definition EVP_sha512_table :: env_md where
  "EVP_sha512_table = \<lparr>md_type = 674, md_size = 64, md_flags = 0, md_init = sha512_init, md_update = sha512_update,
     md_final = sha512_final, md_block_size = 128, md_ctx_size = 216\<rparr>"

definition EVP_md5_sha1_table :: env_md where
  "EVP_md5_sha1_table = \<lparr>md_type = 114, md_size = 16 + 20, md_flags = 0, md_init = md5_sha1_init,
     md_update = md5_sha1_update, md_final = md5_sha1_final, md_block_size = 64, md_ctx_size = 188\<rparr>"

fun evp_method :: "evp_md \<Rightarrow> env_md" where
  "evp_method EVP_md4 = EVP_md4_table"
| "evp_method EVP_md5 = EVP_md5_table"
| "evp_method EVP_sha1 = EVP_sha1_table"
| "evp_method EVP_sha224 = EVP_sha224_table"
| "evp_method EVP_sha256 = EVP_sha256_table"
| "evp_method EVP_sha384 = EVP_sha384_table"
| "evp_method EVP_sha512 = EVP_sha512_table"
| "evp_method EVP_md5_sha1 = EVP_md5_sha1_table"

lemmas evp_tables [simp] =
  EVP_md4_table_def EVP_md5_table_def EVP_sha1_table_def EVP_sha224_table_def
  EVP_sha256_table_def EVP_sha384_table_def EVP_sha512_table_def EVP_md5_sha1_table_def

definition EVP_MD_type :: "evp_md \<Rightarrow> nat" where "EVP_MD_type md = md_type (evp_method md)"
definition EVP_MD_flags :: "evp_md \<Rightarrow> u32" where "EVP_MD_flags md = md_flags (evp_method md)"
definition EVP_MD_size :: "evp_md \<Rightarrow> nat" where "EVP_MD_size md = md_size (evp_method md)"
definition EVP_MD_block_size :: "evp_md \<Rightarrow> nat" where "EVP_MD_block_size md = md_block_size (evp_method md)"

section \<open>Contexts\<close>

text \<open>\<open>pctx\<close> is opaque; of its two operations \<open>dup\<close> is the one with a result.\<close>

record 'p evp_md_ctx =
  md_digest :: "evp_md option"
  md_mem :: "md_data option"
  md_pctx :: "'p option"
  md_pctx_ops :: "('p \<Rightarrow> 'p option) option"

definition EVP_MD_CTX_init :: "'p evp_md_ctx" where
  "EVP_MD_CTX_init = \<lparr>md_digest = None, md_mem = None, md_pctx = None, md_pctx_ops = None\<rparr>"

definition EVP_MD_CTX_new :: "bool \<Rightarrow> 'p evp_md_ctx option" where
  "EVP_MD_CTX_new malloc_ok = (if malloc_ok then Some EVP_MD_CTX_init else None)"

definition EVP_MD_CTX_cleanup :: "'p evp_md_ctx \<Rightarrow> (unit, 'p evp_md_ctx) res" where
  "EVP_MD_CTX_cleanup ctx =
     (if md_pctx ctx \<noteq> None \<and> md_pctx_ops ctx = None then UB else Ok () EVP_MD_CTX_init)"

definition EVP_MD_CTX_reset :: "'p evp_md_ctx \<Rightarrow> (unit, 'p evp_md_ctx) res" where
  "EVP_MD_CTX_reset ctx = rbind (EVP_MD_CTX_cleanup ctx) (\<lambda>_ _. Ok () EVP_MD_CTX_init)"

text \<open>\<open>mem\<close> is what \<open>OPENSSL_malloc\<close> returns, if it is called: nothing, or memory with any contents. A failed
  assertion and the use of a null pointer are undefined behaviour. The two contexts are different objects; the
  result is \<open>out\<close>.\<close>

definition EVP_MD_CTX_copy_ex ::
  "byte list option \<Rightarrow> 'p evp_md_ctx \<Rightarrow> 'p evp_md_ctx option \<Rightarrow> (unit, 'p evp_md_ctx) res" where
  "EVP_MD_CTX_copy_ex mem out inp =
     (case inp of None \<Rightarrow> Fail out | Some inp \<Rightarrow>
     (case md_digest inp of None \<Rightarrow> Fail out | Some md \<Rightarrow>
      if md_pctx inp \<noteq> None \<and> md_pctx_ops inp = None then UB
      else let pctx = Option.bind (md_pctx inp) (\<lambda>p. Option.bind (md_pctx_ops inp) (\<lambda>dup. dup p)) in
        if md_pctx inp \<noteq> None \<and> pctx = None then Fail out
        else rbind (if md_digest out \<noteq> md_digest inp
            then if md_ctx_size (evp_method md) = 0 then UB
              else (case mem of None \<Rightarrow> Fail out | Some bs \<Rightarrow> Ok (Raw bs) out)
            else (case md_mem out of None \<Rightarrow> UB | Some tmp_buf \<Rightarrow> Ok tmp_buf (out\<lparr>md_mem := None\<rparr>)))
          (\<lambda>_ out. rbind (EVP_MD_CTX_cleanup out) (\<lambda>_ out.
            case md_mem inp of None \<Rightarrow> UB | Some d \<Rightarrow>
              Ok () (out\<lparr>md_digest := md_digest inp, md_mem := Some d, md_pctx := pctx, md_pctx_ops := md_pctx_ops inp\<rparr>)))))"

definition EVP_MD_CTX_copy :: "byte list option \<Rightarrow> 'p evp_md_ctx option \<Rightarrow> (unit, 'p evp_md_ctx) res" where
  "EVP_MD_CTX_copy mem inp = EVP_MD_CTX_copy_ex mem EVP_MD_CTX_init inp"

definition EVP_DigestInit_ex :: "byte list option \<Rightarrow> evp_md option \<Rightarrow> 'p evp_md_ctx \<Rightarrow> (unit, 'p evp_md_ctx) res" where
  "EVP_DigestInit_ex mem ty ctx =
     rbind (if md_digest ctx \<noteq> ty
       then (case ty of None \<Rightarrow> UB | Some md \<Rightarrow>
         if md_ctx_size (evp_method md) = 0 then UB
         else (case mem of None \<Rightarrow> Fail ctx | Some bs \<Rightarrow> Ok () (ctx\<lparr>md_mem := Some (Raw bs), md_digest := ty\<rparr>)))
       else Ok () ctx)
     (\<lambda>_ ctx. if md_pctx ctx \<noteq> None \<and> md_pctx_ops ctx = None then UB
       else (case md_digest ctx of None \<Rightarrow> UB | Some md \<Rightarrow>
         (case Option.bind (md_mem ctx) (md_init (evp_method md)) of None \<Rightarrow> UB
          | Some d \<Rightarrow> Ok () (ctx\<lparr>md_mem := Some d\<rparr>))))"

definition EVP_DigestInit :: "byte list option \<Rightarrow> evp_md option \<Rightarrow> (unit, 'p evp_md_ctx) res" where
  "EVP_DigestInit mem ty = EVP_DigestInit_ex mem ty EVP_MD_CTX_init"

definition EVP_DigestUpdate :: "byte list \<Rightarrow> 'p evp_md_ctx \<Rightarrow> (unit, 'p evp_md_ctx) res" where
  "EVP_DigestUpdate data ctx =
     (case md_digest ctx of None \<Rightarrow> UB | Some md \<Rightarrow>
       (case Option.bind (md_mem ctx) (\<lambda>d. md_update (evp_method md) d data) of None \<Rightarrow> UB
        | Some d \<Rightarrow> Ok () (ctx\<lparr>md_mem := Some d\<rparr>)))"

text \<open>The result is the digest, of which \<open>*size\<close> is the length.\<close>

definition EVP_DigestFinal_ex :: "'p evp_md_ctx \<Rightarrow> (byte list, 'p evp_md_ctx) res" where
  "EVP_DigestFinal_ex ctx =
     (case md_digest ctx of None \<Rightarrow> UB | Some md \<Rightarrow>
       if 64 < md_size (evp_method md) then UB
       else (case Option.bind (md_mem ctx) (md_final (evp_method md)) of None \<Rightarrow> UB
        | Some (md_out, d) \<Rightarrow> Ok md_out (ctx\<lparr>md_mem := Some (Raw (replicate (md_ctx_size (evp_method md)) 0))\<rparr>)))"

definition EVP_DigestFinal :: "'p evp_md_ctx \<Rightarrow> (byte list, 'p evp_md_ctx) res" where
  "EVP_DigestFinal ctx =
     rbind (EVP_DigestFinal_ex ctx) (\<lambda>md ctx. rbind (EVP_MD_CTX_cleanup ctx) (\<lambda>_ ctx. Ok md ctx))"

definition EVP_Digest :: "byte list option \<Rightarrow> byte list \<Rightarrow> evp_md option \<Rightarrow> (byte list, 'p evp_md_ctx) res" where
  "EVP_Digest mem data ty =
     (case rbind (EVP_DigestInit_ex mem ty EVP_MD_CTX_init) (\<lambda>_ ctx.
        rbind (EVP_DigestUpdate data ctx) (\<lambda>_ ctx. EVP_DigestFinal_ex ctx))
      of Ok out_md ctx \<Rightarrow> rbind (EVP_MD_CTX_cleanup ctx) (\<lambda>_ ctx. Ok out_md ctx)
       | Fail ctx \<Rightarrow> rbind (EVP_MD_CTX_cleanup ctx) (\<lambda>_ ctx. Fail ctx) | UB \<Rightarrow> UB | NoFuel \<Rightarrow> NoFuel)"

definition EVP_MD_CTX_md :: "'p evp_md_ctx option \<Rightarrow> evp_md option" where
  "EVP_MD_CTX_md ctx = Option.bind ctx md_digest"

text \<open>\<open>None\<close>: a null pointer is read.\<close>

definition EVP_MD_CTX_size :: "'p evp_md_ctx option \<Rightarrow> nat option" where
  "EVP_MD_CTX_size ctx = map_option EVP_MD_size (EVP_MD_CTX_md ctx)"

definition EVP_MD_CTX_block_size :: "'p evp_md_ctx option \<Rightarrow> nat option" where
  "EVP_MD_CTX_block_size ctx = map_option EVP_MD_block_size (EVP_MD_CTX_md ctx)"

definition EVP_MD_CTX_type :: "'p evp_md_ctx option \<Rightarrow> nat option" where
  "EVP_MD_CTX_type ctx = map_option EVP_MD_type (EVP_MD_CTX_md ctx)"

end
