(* ===== verification/Tls_Digest.thy ===== *)
theory Tls_Digest
  imports Tls_Cbc Digest
begin

text \<open>
  The MAC of a TLS record whose length is secret, \<open>EVP_tls_cbc_digest_record\<close> of
  \<open>crypto/cipher_extra/tls_cbc.c\<close>: the last blocks are hashed for every possible end of the data, and the digest
  of the right one is selected with masks. Sizes are natural numbers, reduced where a \<open>size_t\<close> may wrap.
\<close>

section \<open>The hash functions\<close>

text \<open>The union \<open>HASH_CTX\<close>.\<close>

datatype tls_hash_ctx = Tls_sha1 hash_ctx | Tls_sha256 hash_ctx | Tls_sha512 sha512_ctx

fun tls1_sha1_transform :: "tls_hash_ctx \<Rightarrow> byte list \<Rightarrow> tls_hash_ctx" where
  "tls1_sha1_transform (Tls_sha1 c) block = Tls_sha1 (SHA1_Transform c block)"
| "tls1_sha1_transform c block = c"

fun tls1_sha256_transform :: "tls_hash_ctx \<Rightarrow> byte list \<Rightarrow> tls_hash_ctx" where
  "tls1_sha256_transform (Tls_sha256 c) block = Tls_sha256 (SHA256_Transform c block)"
| "tls1_sha256_transform c block = c"

fun tls1_sha512_transform :: "tls_hash_ctx \<Rightarrow> byte list \<Rightarrow> tls_hash_ctx" where
  "tls1_sha512_transform (Tls_sha512 c) block = Tls_sha512 (SHA512_Transform c block)"
| "tls1_sha512_transform c block = c"

text \<open>\<open>u32toBE\<close> and \<open>u64toBE\<close> of the words of the state.\<close>

fun tls1_sha1_final_raw :: "tls_hash_ctx \<Rightarrow> byte list" where
  "tls1_sha1_final_raw (Tls_sha1 c) = concat (map (be_bytes 4) (take 5 (hash_h c)))"
| "tls1_sha1_final_raw c = []"

fun tls1_sha256_final_raw :: "tls_hash_ctx \<Rightarrow> byte list" where
  "tls1_sha256_final_raw (Tls_sha256 c) = concat (map (be_bytes 4) (take 8 (hash_h c)))"
| "tls1_sha256_final_raw c = []"

fun tls1_sha512_final_raw :: "tls_hash_ctx \<Rightarrow> byte list" where
  "tls1_sha512_final_raw (Tls_sha512 c) = concat (map (be_bytes 8) (take 8 (sha_h c)))"
| "tls1_sha512_final_raw c = []"

definition EVP_tls_cbc_record_digest_supported :: "evp_md \<Rightarrow> bool" where
  "EVP_tls_cbc_record_digest_supported md \<longleftrightarrow> EVP_MD_type md \<in> {64, 672, 673}"

text \<open>The variables that the \<open>switch\<close> of \<open>EVP_tls_cbc_digest_record\<close> sets.\<close>

record tls_md =
  tls_state :: tls_hash_ctx
  tls_final_raw :: "tls_hash_ctx \<Rightarrow> byte list"
  tls_transform :: "tls_hash_ctx \<Rightarrow> byte list \<Rightarrow> tls_hash_ctx"
  tls_size :: nat
  tls_block_size :: nat
  tls_length_size :: nat

fun tls_select :: "evp_md \<Rightarrow> tls_md option" where
  "tls_select EVP_sha1 = Some \<lparr>tls_state = Tls_sha1 SHA1_Init, tls_final_raw = tls1_sha1_final_raw,
     tls_transform = tls1_sha1_transform, tls_size = 20, tls_block_size = 64, tls_length_size = 8\<rparr>"
| "tls_select EVP_sha256 = Some \<lparr>tls_state = Tls_sha256 SHA256_Init, tls_final_raw = tls1_sha256_final_raw,
     tls_transform = tls1_sha256_transform, tls_size = 32, tls_block_size = 64, tls_length_size = 8\<rparr>"
| "tls_select EVP_sha384 = Some \<lparr>tls_state = Tls_sha512 (SHA384_Init (raw_sha512 [])), tls_final_raw = tls1_sha512_final_raw,
     tls_transform = tls1_sha512_transform, tls_size = 48, tls_block_size = 128, tls_length_size = 16\<rparr>"
| "tls_select _ = None"

section \<open>The digest of a record\<close>

definition size_sub :: "nat \<Rightarrow> nat \<Rightarrow> nat" where
  "size_sub a b = (a mod 2 ^ 64 + (2 ^ 64 - b mod 2 ^ 64)) mod 2 ^ 64"

text \<open>The blocks of \<open>header || data\<close> that end before any possible padding; \<open>None\<close> if one is not within \<open>data\<close>.\<close>

fun tls_start_blocks :: "tls_md \<Rightarrow> byte list \<Rightarrow> nat \<Rightarrow> nat \<Rightarrow> tls_hash_ctx \<Rightarrow> tls_hash_ctx option" where
  "tls_start_blocks h data i 0 st = Some st"
| "tls_start_blocks h data i (Suc n) st =
     (let at = tls_block_size h * i - 13 in
      if length data < at + tls_block_size h then None
      else tls_start_blocks h data (i + 1) n (tls_transform h st (take (tls_block_size h) (drop at data))))"

definition tls_start :: "tls_md \<Rightarrow> byte list \<Rightarrow> byte list \<Rightarrow> nat \<Rightarrow> tls_hash_ctx \<Rightarrow> tls_hash_ctx option" where
  "tls_start h header data k st =
     (if k = 0 then Some st
      else if length data < tls_block_size h - 13 then None
      else let first_block = header @ take (tls_block_size h - 13) data
        in tls_start_blocks h data 1 (k div tls_block_size h - 1) (tls_transform h st first_block))"

text \<open>The byte \<open>j\<close> of the block \<open>i\<close>, which is at \<open>k\<close> of \<open>header || data\<close>.\<close>

definition tls_final_byte ::
  "tls_md \<Rightarrow> byte list \<Rightarrow> byte list \<Rightarrow> nat \<Rightarrow> nat \<Rightarrow> nat \<Rightarrow> byte list \<Rightarrow> nat \<Rightarrow> nat \<Rightarrow> nat \<Rightarrow> byte" where
  "tls_final_byte h header data c index_a index_b len_bytes i k j =
     (let is_block_a = constant_time_eq_8 (of_nat i) (of_nat index_a);
        is_block_b = constant_time_eq_8 (of_nat i) (of_nat index_b);
        b = (if k < 13 then header ! k else if k < length data + 13 then data ! (k - 13) else 0);
        is_past_c = is_block_a AND constant_time_ge_8 (of_nat j) (of_nat c);
        is_past_cp1 = is_block_a AND constant_time_ge_8 (of_nat j) (of_nat (c + 1));
        b = constant_time_select_8 is_past_c 0x80 b;
        b = b AND NOT is_past_cp1;
        b = b AND (NOT is_block_b OR is_block_a)
      in if tls_block_size h - tls_length_size h \<le> j
         then constant_time_select_8 is_block_b (len_bytes ! (j - (tls_block_size h - tls_length_size h))) b
         else b)"

definition tls_final_block ::
  "tls_md \<Rightarrow> byte list \<Rightarrow> byte list \<Rightarrow> nat \<Rightarrow> nat \<Rightarrow> nat \<Rightarrow> byte list \<Rightarrow> nat \<Rightarrow> nat \<Rightarrow> byte list" where
  "tls_final_block h header data c index_a index_b len_bytes i k =
     map (\<lambda>j. tls_final_byte h header data c index_a index_b len_bytes i (k + j) j) [0..<tls_block_size h]"

text \<open>The loop over the last \<open>n\<close> blocks, from the block \<open>i\<close> on.\<close>

fun tls_final_blocks ::
  "tls_md \<Rightarrow> byte list \<Rightarrow> byte list \<Rightarrow> nat \<Rightarrow> nat \<Rightarrow> nat \<Rightarrow> byte list \<Rightarrow> nat \<Rightarrow> nat \<Rightarrow> nat \<Rightarrow> tls_hash_ctx \<Rightarrow> byte list \<Rightarrow> byte list" where
  "tls_final_blocks h header data c index_a index_b len_bytes i k 0 st mac_out = mac_out"
| "tls_final_blocks h header data c index_a index_b len_bytes i k (Suc n) st mac_out =
     (let is_block_b = constant_time_eq_8 (of_nat i) (of_nat index_b);
        st = tls_transform h st (tls_final_block h header data c index_a index_b len_bytes i k);
        raw = tls_final_raw h st;
        mac_out = map (\<lambda>j. mac_out ! j OR (raw ! j AND is_block_b)) [0..<tls_size h]
      in tls_final_blocks h header data c index_a index_b len_bytes (i + 1) (k + tls_block_size h) n st mac_out)"

text \<open>The inner hash; \<open>None\<close> is a read outside of \<open>data\<close>.\<close>

definition tls_inner :: "tls_md \<Rightarrow> byte list \<Rightarrow> byte list \<Rightarrow> nat \<Rightarrow> byte list \<Rightarrow> byte list option" where
  "tls_inner h header data data_plus_mac_size hmac_pad =
     (let md_size = tls_size h; md_block_size = tls_block_size h; md_length_size = tls_length_size h;
        len = length data + 13;
        max_mac_bytes = size_sub (size_sub len md_size) 1;
        num_blocks = (max_mac_bytes + 1 + md_length_size + md_block_size - 1) mod 2 ^ 64 div md_block_size;
        mac_end_offset = size_sub (data_plus_mac_size + 13) md_size;
        c = mac_end_offset mod md_block_size;
        index_a = mac_end_offset div md_block_size;
        index_b = (mac_end_offset + md_length_size) mod 2 ^ 64 div md_block_size;
        num_starting_blocks = (if 6 < num_blocks then num_blocks - 6 else 0);
        k = md_block_size * num_starting_blocks;
        bits = (8 * mac_end_offset + 8 * md_block_size) mod 2 ^ 64;
        st = tls_transform h (tls_state h) hmac_pad;
        len_bytes = replicate (md_length_size - 4) 0 @ be_bytes 4 (of_nat bits :: u32)
      in map_option
        (\<lambda>st. tls_final_blocks h header data c index_a index_b len_bytes num_starting_blocks k 7 st (replicate md_size 0))
        (tls_start h header data k st))"

text \<open>\<open>data\<close> is the record with its MAC and padding. A violated assertion counts as undefined behaviour; \<open>Fail\<close> is
  the return value 0; \<open>mem\<close> is the memory for the outer hash.\<close>

definition EVP_tls_cbc_digest_record ::
  "byte list option \<Rightarrow> evp_md \<Rightarrow> byte list \<Rightarrow> byte list \<Rightarrow> nat \<Rightarrow> byte list \<Rightarrow> (byte list, unit evp_md_ctx) res" where
  "EVP_tls_cbc_digest_record mem md header data data_plus_mac_size mac_secret =
     (if 1024 * 1024 \<le> length data then UB
      else (case tls_select md of None \<Rightarrow> UB | Some h \<Rightarrow>
        if 16 < tls_length_size h \<or> 128 < tls_block_size h \<or> 64 < tls_size h \<or> 128 < length mac_secret \<or> length header \<noteq> 13 then UB
        else let
          hmac_pad = take (tls_block_size h) (mac_secret @ replicate (tls_block_size h - length mac_secret) 0);
          hmac_pad = map (\<lambda>b. b XOR 0x36) hmac_pad
        in (case tls_inner h header data data_plus_mac_size hmac_pad of None \<Rightarrow> UB | Some mac_out \<Rightarrow>
          (case EVP_DigestInit_ex mem (Some md) EVP_MD_CTX_init of
             Fail ctx \<Rightarrow> rbind (EVP_MD_CTX_cleanup ctx) (\<lambda>_ ctx. Fail ctx)
           | Ok _ ctx \<Rightarrow>
               rbind (EVP_DigestUpdate (map (\<lambda>b. b XOR 0x6A) hmac_pad) ctx) (\<lambda>_ ctx.
               rbind (EVP_DigestUpdate mac_out ctx) (\<lambda>_ ctx. EVP_DigestFinal ctx))
           | UB \<Rightarrow> UB | NoFuel \<Rightarrow> NoFuel))))"

end
