(* ===== verification/Hmac.thy ===== *)
theory Hmac
  imports Digest
begin

text \<open>
  HMAC, \<open>crypto/fipsmodule/hmac/hmac.c\<close>: three digest contexts, of which two keep the state after the padded key.
  \<open>mems\<close> is what the calls of \<open>OPENSSL_malloc\<close> below \<open>HMAC_Init_ex\<close> return, in the order in which they stand.
\<close>

record 'p hmac_ctx =
  hmac_md :: "evp_md option"
  hmac_md_ctx :: "'p evp_md_ctx"
  hmac_i_ctx :: "'p evp_md_ctx"
  hmac_o_ctx :: "'p evp_md_ctx"

text \<open>A function of a context applied to one of the three.\<close>

definition at_ctx :: "('c \<Rightarrow> ('a, 'c) res) \<Rightarrow> ('h \<Rightarrow> 'c) \<Rightarrow> ('c \<Rightarrow> 'h \<Rightarrow> 'h) \<Rightarrow> 'h \<Rightarrow> ('a, 'h) res" where
  "at_ctx f get put h =
     (case f (get h) of Ok x c \<Rightarrow> Ok x (put c h) | Fail c \<Rightarrow> Fail (put c h) | UB \<Rightarrow> UB | NoFuel \<Rightarrow> NoFuel)"

definition on_md :: "('p evp_md_ctx \<Rightarrow> ('a, 'p evp_md_ctx) res) \<Rightarrow> 'p hmac_ctx \<Rightarrow> ('a, 'p hmac_ctx) res" where
  "on_md f = at_ctx f hmac_md_ctx (\<lambda>c. hmac_md_ctx_update (\<lambda>_. c))"

definition on_i :: "('p evp_md_ctx \<Rightarrow> ('a, 'p evp_md_ctx) res) \<Rightarrow> 'p hmac_ctx \<Rightarrow> ('a, 'p hmac_ctx) res" where
  "on_i f = at_ctx f hmac_i_ctx (\<lambda>c. hmac_i_ctx_update (\<lambda>_. c))"

definition on_o :: "('p evp_md_ctx \<Rightarrow> ('a, 'p evp_md_ctx) res) \<Rightarrow> 'p hmac_ctx \<Rightarrow> ('a, 'p hmac_ctx) res" where
  "on_o f = at_ctx f hmac_o_ctx (\<lambda>c. hmac_o_ctx_update (\<lambda>_. c))"

definition HMAC_CTX_init :: "'p hmac_ctx" where
  "HMAC_CTX_init = \<lparr>hmac_md = None, hmac_md_ctx = EVP_MD_CTX_init, hmac_i_ctx = EVP_MD_CTX_init, hmac_o_ctx = EVP_MD_CTX_init\<rparr>"

definition HMAC_CTX_new :: "bool \<Rightarrow> 'p hmac_ctx option" where
  "HMAC_CTX_new malloc_ok = (if malloc_ok then Some HMAC_CTX_init else None)"

text \<open>\<open>OPENSSL_cleanse\<close> leaves zero bytes: null pointers.\<close>

definition HMAC_CTX_cleanup :: "'p hmac_ctx \<Rightarrow> (unit, 'p hmac_ctx) res" where
  "HMAC_CTX_cleanup ctx =
     rbind (on_i EVP_MD_CTX_cleanup ctx) (\<lambda>_ ctx. rbind (on_o EVP_MD_CTX_cleanup ctx) (\<lambda>_ ctx.
     rbind (on_md EVP_MD_CTX_cleanup ctx) (\<lambda>_ _. Ok () HMAC_CTX_init)))"

definition HMAC_CTX_reset :: "'p hmac_ctx \<Rightarrow> (unit, 'p hmac_ctx) res" where
  "HMAC_CTX_reset ctx = rbind (HMAC_CTX_cleanup ctx) (\<lambda>_ _. Ok () HMAC_CTX_init)"

text \<open>The block of the key: hashed if it is long, padded with zeros to the largest block size.\<close>

definition hmac_key_block :: "byte list option \<Rightarrow> byte list \<Rightarrow> evp_md \<Rightarrow> 'p hmac_ctx \<Rightarrow> (byte list, 'p hmac_ctx) res" where
  "hmac_key_block mem key md ctx =
     rbind (if EVP_MD_block_size md < length key
       then rbind (on_md (EVP_DigestInit_ex mem (Some md)) ctx) (\<lambda>_ ctx.
         rbind (on_md (EVP_DigestUpdate key) ctx) (\<lambda>_ ctx. on_md EVP_DigestFinal_ex ctx))
       else Ok key ctx)
     (\<lambda>k ctx. Ok (k @ replicate (128 - length k) 0) ctx)"

text \<open>A new key for the two inner contexts; a null \<open>key\<close> is an empty one where it is read.\<close>

definition hmac_set_key :: "(nat \<Rightarrow> byte list option) \<Rightarrow> byte list option \<Rightarrow> evp_md \<Rightarrow> 'p hmac_ctx \<Rightarrow> (unit, 'p hmac_ctx) res" where
  "hmac_set_key mems key md ctx =
     (let block_size = EVP_MD_block_size md in
      if 128 < block_size then UB
      else rbind (hmac_key_block (mems 0) (case key of None \<Rightarrow> [] | Some k \<Rightarrow> k) md ctx) (\<lambda>key_block ctx.
        rbind (on_i (EVP_DigestInit_ex (mems 1) (Some md)) ctx) (\<lambda>_ ctx.
        rbind (on_i (EVP_DigestUpdate (take block_size (map (\<lambda>b. 0x36 XOR b) key_block))) ctx) (\<lambda>_ ctx.
        rbind (on_o (EVP_DigestInit_ex (mems 2) (Some md)) ctx) (\<lambda>_ ctx.
        rbind (on_o (EVP_DigestUpdate (take block_size (map (\<lambda>b. 0x5C XOR b) key_block))) ctx) (\<lambda>_ ctx.
        Ok () (ctx\<lparr>hmac_md := Some md\<rparr>)))))))"

definition HMAC_Init_ex :: "(nat \<Rightarrow> byte list option) \<Rightarrow> byte list option \<Rightarrow> evp_md option \<Rightarrow> 'p hmac_ctx \<Rightarrow> (unit, 'p hmac_ctx) res" where
  "HMAC_Init_ex mems key md ctx =
     (let md = (if md = None then hmac_md ctx else md) in
      rbind (if md \<noteq> hmac_md ctx \<or> key \<noteq> None
        then (case md of None \<Rightarrow> UB | Some m \<Rightarrow> hmac_set_key mems key m ctx)
        else Ok () ctx)
      (\<lambda>_ ctx. on_md (\<lambda>c. EVP_MD_CTX_copy_ex (mems 3) c (Some (hmac_i_ctx ctx))) ctx))"

definition HMAC_Init :: "(nat \<Rightarrow> byte list option) \<Rightarrow> byte list option \<Rightarrow> evp_md option \<Rightarrow> 'p hmac_ctx \<Rightarrow> (unit, 'p hmac_ctx) res" where
  "HMAC_Init mems key md ctx =
     HMAC_Init_ex mems key md (if key \<noteq> None \<and> md \<noteq> None then HMAC_CTX_init else ctx)"

definition HMAC_Update :: "byte list \<Rightarrow> 'p hmac_ctx \<Rightarrow> (unit, 'p hmac_ctx) res" where
  "HMAC_Update data ctx = on_md (EVP_DigestUpdate data) ctx"

definition HMAC_Final :: "byte list option \<Rightarrow> 'p hmac_ctx \<Rightarrow> (byte list, 'p hmac_ctx) res" where
  "HMAC_Final mem ctx =
     rbind (on_md EVP_DigestFinal_ex ctx) (\<lambda>buf ctx.
     rbind (on_md (\<lambda>c. EVP_MD_CTX_copy_ex mem c (Some (hmac_o_ctx ctx))) ctx) (\<lambda>_ ctx.
     rbind (on_md (EVP_DigestUpdate buf) ctx) (\<lambda>_ ctx. on_md EVP_DigestFinal_ex ctx)))"

text \<open>\<open>None\<close>: a null context or digest is read.\<close>

definition HMAC_size :: "'p hmac_ctx \<Rightarrow> nat option" where
  "HMAC_size ctx = map_option EVP_MD_size (hmac_md ctx)"

definition HMAC_CTX_copy_ex :: "(nat \<Rightarrow> byte list option) \<Rightarrow> 'p hmac_ctx \<Rightarrow> 'p hmac_ctx \<Rightarrow> (unit, 'p hmac_ctx) res" where
  "HMAC_CTX_copy_ex mems dest src =
     rbind (on_i (\<lambda>c. EVP_MD_CTX_copy_ex (mems 0) c (Some (hmac_i_ctx src))) dest) (\<lambda>_ dest.
     rbind (on_o (\<lambda>c. EVP_MD_CTX_copy_ex (mems 1) c (Some (hmac_o_ctx src))) dest) (\<lambda>_ dest.
     rbind (on_md (\<lambda>c. EVP_MD_CTX_copy_ex (mems 2) c (Some (hmac_md_ctx src))) dest) (\<lambda>_ dest.
     Ok () (dest\<lparr>hmac_md := hmac_md src\<rparr>))))"

definition HMAC_CTX_copy :: "(nat \<Rightarrow> byte list option) \<Rightarrow> 'p hmac_ctx \<Rightarrow> (unit, 'p hmac_ctx) res" where
  "HMAC_CTX_copy mems src = HMAC_CTX_copy_ex mems HMAC_CTX_init src"

text \<open>The one-shot function returns null if a step fails; \<open>mems\<close> 4 is for \<open>HMAC_Final\<close>.\<close>

definition HMAC :: "(nat \<Rightarrow> byte list option) \<Rightarrow> evp_md option \<Rightarrow> byte list option \<Rightarrow> byte list \<Rightarrow> (byte list option, 'p hmac_ctx) res" where
  "HMAC mems md key data =
     (case rbind (HMAC_Init_ex mems key md HMAC_CTX_init) (\<lambda>_ ctx.
        rbind (HMAC_Update data ctx) (\<lambda>_ ctx. HMAC_Final (mems 4) ctx))
      of Ok out ctx \<Rightarrow> rbind (HMAC_CTX_cleanup ctx) (\<lambda>_ ctx. Ok (Some out) ctx)
       | Fail ctx \<Rightarrow> rbind (HMAC_CTX_cleanup ctx) (\<lambda>_ ctx. Ok None ctx) | UB \<Rightarrow> UB | NoFuel \<Rightarrow> NoFuel)"

end
