(* ===== verification/Sha_Spec.thy ===== *)
theory Sha_Spec
  imports Sha
begin

text \<open>
  FIPS 180-4 as the standard writes it (right rotations, a message schedule of 64 or 80 words, working
  variables that move), and the proof that the code computes it for every message in any pieces.
\<close>

section \<open>The standard\<close>

definition fips_blocks :: "nat \<Rightarrow> byte list \<Rightarrow> byte list list" where
  "fips_blocks n bs = map (\<lambda>i. take n (drop (n * i) bs)) [0..<length bs div n]"

definition fips_hash :: "(u32 list \<Rightarrow> byte list \<Rightarrow> u32 list) \<Rightarrow> u32 list \<Rightarrow> byte list \<Rightarrow> u32 list" where
  "fips_hash compress H bs = foldl compress H (fips_blocks 64 (pad_message True bs))"

text \<open>Sections 6.2.2 and 6.4.2 for any width of the words: the schedule, a step and the rounds of a block.\<close>

fun fips2_W :: "('a::len word \<Rightarrow> 'a word) \<Rightarrow> ('a word \<Rightarrow> 'a word) \<Rightarrow> 'a word list \<Rightarrow> nat \<Rightarrow> 'a word" where
  "fips2_W s0 s1 M t =
     (if t < 16 then M ! t
      else s1 (fips2_W s0 s1 M (t - 2)) + fips2_W s0 s1 M (t - 7) + s0 (fips2_W s0 s1 M (t - 15)) + fips2_W s0 s1 M (t - 16))"

fun fips2_step ::
  "('a::len word \<Rightarrow> 'a word) \<Rightarrow> ('a word \<Rightarrow> 'a word) \<Rightarrow> 'a word \<Rightarrow> 'a word \<Rightarrow> 'a word list \<Rightarrow> 'a word list" where
  "fips2_step S0 S1 K W [a, b, c, d, e, f, g, h] =
     (let T1 = h + S1 e + ((e AND f) XOR (NOT e AND g)) + K + W;
        T2 = S0 a + ((a AND b) XOR (a AND c) XOR (b AND c))
      in [T1 + T2, a, b, c, d + T1, e, f, g])"
| "fips2_step _ _ _ _ v = v"

text \<open>Section 4.1.2: the functions of SHA-256.\<close>

definition fips_Sigma0 :: "u32 \<Rightarrow> u32" where "fips_Sigma0 x = (word_rotr 2 x XOR word_rotr 13 x XOR word_rotr 22 x)"
definition fips_Sigma1 :: "u32 \<Rightarrow> u32" where "fips_Sigma1 x = (word_rotr 6 x XOR word_rotr 11 x XOR word_rotr 25 x)"
definition fips_sigma0 :: "u32 \<Rightarrow> u32" where "fips_sigma0 x = (word_rotr 7 x XOR word_rotr 18 x XOR drop_bit 3 x)"
definition fips_sigma1 :: "u32 \<Rightarrow> u32" where "fips_sigma1 x = (word_rotr 17 x XOR word_rotr 19 x XOR drop_bit 10 x)"

definition fips256_step :: "nat \<Rightarrow> u32 \<Rightarrow> u32 list \<Rightarrow> u32 list" where
  "fips256_step t = fips2_step fips_Sigma0 fips_Sigma1 (K256 ! t)"

definition fips256_compress :: "u32 list \<Rightarrow> byte list \<Rightarrow> u32 list" where
  "fips256_compress H block =
     (let M = map (\<lambda>i. of_be (take 4 (drop (4 * i) block))) [0..<16]
      in map2 (+) H (fold (\<lambda>t. fips256_step t (fips2_W fips_sigma0 fips_sigma1 M t)) [0..<64] H))"

text \<open>Section 4.1.1 and 6.1.2.\<close>

fun fips1_W :: "u32 list \<Rightarrow> nat \<Rightarrow> u32" where
  "fips1_W M t =
     (if t < 16 then M ! t
      else word_rotl 1 (fips1_W M (t - 3) XOR fips1_W M (t - 8) XOR fips1_W M (t - 14) XOR fips1_W M (t - 16)))"

definition fips1_f :: "nat \<Rightarrow> u32 \<Rightarrow> u32 \<Rightarrow> u32 \<Rightarrow> u32" where
  "fips1_f t x y z =
     (if t < 20 then (x AND y) XOR (NOT x AND z) else if t < 40 then x XOR y XOR z
      else if t < 60 then (x AND y) XOR (x AND z) XOR (y AND z) else x XOR y XOR z)"

definition fips1_K :: "nat \<Rightarrow> u32" where
  "fips1_K t = (if t < 20 then 0x5a827999 else if t < 40 then 0x6ed9eba1 else if t < 60 then 0x8f1bbcdc else 0xca62c1d6)"

fun fips1_step :: "nat \<Rightarrow> u32 \<Rightarrow> u32 list \<Rightarrow> u32 list" where
  "fips1_step t W [a, b, c, d, e] = [word_rotl 5 a + fips1_f t b c d + e + fips1_K t + W, a, word_rotl 30 b, c, d]"
| "fips1_step _ _ v = v"

definition fips1_compress :: "u32 list \<Rightarrow> byte list \<Rightarrow> u32 list" where
  "fips1_compress H block =
     (let M = map (\<lambda>i. of_be (take 4 (drop (4 * i) block))) [0..<16]
      in map2 (+) H (fold (\<lambda>t. fips1_step t (fips1_W M t)) [0..<80] H))"

declare fips2_W.simps [simp del] fips1_W.simps [simp del]

section \<open>Words\<close>

lemma ROTATE_rotr: "0 < n \<Longrightarrow> n < 32 \<Longrightarrow> ROTATE x n = word_rotr (32 - n) x"
  using shifts_rotr [of n x] by (simp add: ROTATE_def)

lemma ROTATE_rotl: "0 < n \<Longrightarrow> n < 32 \<Longrightarrow> ROTATE x n = word_rotl n x"
  by (simp add: ROTATE_rotr word_rotl_eq_word_rotr)

lemma sigmas: "Sigma0 x = fips_Sigma0 x" "Sigma1 x = fips_Sigma1 x" "sigma0 x = fips_sigma0 x" "sigma1 x = fips_sigma1 x"
  by (simp_all add: Sigma0_def Sigma1_def sigma0_def sigma1_def fips_Sigma0_def fips_Sigma1_def fips_sigma0_def
    fips_sigma1_def ROTATE_rotr)

section \<open>The ring of the message schedule\<close>

definition ring :: "(nat \<Rightarrow> 'a) \<Rightarrow> nat \<Rightarrow> 'a list \<Rightarrow> bool" where
  "ring W i X \<longleftrightarrow> length X = 16 \<and> (\<forall>t < i. i \<le> t + 16 \<longrightarrow> X ! (t mod 16) = W t)"

lemma ring_nth:
  assumes "ring W i X" and "16 \<le> i" "k < 16"
  shows "X ! ((i + k) mod 16) = W (i + k - 16)"
proof -
  have "i + k = i + k - 16 + 16" using assms(2) by simp
  then have "(i + k) mod 16 = (i + k - 16) mod 16" by (metis mod_add_self2)
  then show ?thesis using assms by (auto simp: ring_def)
qed

lemma ring_update:
  assumes "ring W i X" "w = W i"
  shows "ring W (i + 1) (X[i mod 16 := w])"
proof -
  have "X[i mod 16 := w] ! (t mod 16) = W t" if "t < i + 1" "i + 1 \<le> t + 16" for t
  proof (cases "t = i")
    case False
    have "t mod 16 \<noteq> i mod 16"
    proof
      assume "t mod 16 = i mod 16"
      then have "16 dvd i - t" using that(1) mod_eq_dvd_iff_nat [of t i 16] by simp
      then show False using that False by (auto dest: dvd_imp_le)
    qed
    then show ?thesis using assms that False by (simp add: ring_def)
  qed (use assms in \<open>simp add: ring_def\<close>)
  then show ?thesis using assms by (simp add: ring_def)
qed

lemma ring_start: "length X = 16 \<Longrightarrow> (\<And>t. t < 16 \<Longrightarrow> W t = X ! t) \<Longrightarrow> ring W 16 X"
  by (simp add: ring_def)

section \<open>The rounds of SHA-2\<close>

text \<open>The registers in the order in which the round \<open>i\<close> gets them.\<close>

definition regs8 :: "nat \<Rightarrow> 'a list \<Rightarrow> 'a list" where
  "regs8 i v = map (\<lambda>k. v ! reg8 i k) [0..<8]"

lemma list_8: "length v = 8 \<Longrightarrow> \<exists>a b c d e f g h. v = [a, b, c, d, e, f, g, h]"
  by (simp add: numeral_eq_Suc length_Suc_conv) blast

lemma upt_8: "[0..<8] = [0, 1, 2, 3, 4, 5, 6, 7]"
  by (simp add: upt_rec)

lemma reg8_mod: "reg8 i k = (k + 7 * (i mod 8)) mod 8" "reg8 (Suc i) k = (k + 7 + 7 * (i mod 8)) mod 8"
proof -
  show reg: "reg8 i k = (k + 7 * (i mod 8)) mod 8" for k
    unfolding reg8_def by (intro mod_add_cong mod_mult_cong refl) simp
  show "reg8 (Suc i) k = (k + 7 + 7 * (i mod 8)) mod 8" using reg [of "k + 7"] by (simp add: reg8_def add.assoc)
qed

lemma regs8_whole:
  assumes "length v = 8" "8 dvd i"
  shows "regs8 i v = v"
proof -
  have "reg8 i k = k mod 8" for k using assms(2) by (simp add: reg8_mod(1) dvd_imp_mod_0)
  then show ?thesis using list_8 [OF assms(1)] by (auto simp: regs8_def upt_8)
qed

lemma reg8_cases:
  fixes i :: nat
  obtains "i mod 8 = 0" | "i mod 8 = 1" | "i mod 8 = 2" | "i mod 8 = 3" | "i mod 8 = 4" | "i mod 8 = 5" | "i mod 8 = 6" | "i mod 8 = 7"
proof -
  have "i mod 8 < (8 :: nat)" by simp
  then show thesis using that by linarith
qed

text \<open>What a round with renamed registers and one that updates the ring of the schedule have to do.\<close>

locale sha2 =
  fixes rnd :: "nat \<Rightarrow> 'a::len word \<Rightarrow> 'a word list \<Rightarrow> 'a word list"
    and later :: "nat \<Rightarrow> 'a word list \<times> 'a word list \<Rightarrow> 'a word list \<times> 'a word list"
    and step :: "nat \<Rightarrow> 'a word \<Rightarrow> 'a word list \<Rightarrow> 'a word list"
    and s0 s1 :: "'a word \<Rightarrow> 'a word"
  assumes rnd: "length v = 8 \<Longrightarrow> regs8 (i + 1) (rnd i w v) = step i w (regs8 i v) \<and> length (rnd i w v) = 8"
    and later: "w = X ! (i mod 16) + (s0 (X ! ((i + 1) mod 16)) + s1 (X ! ((i + 14) mod 16)) + X ! ((i + 9) mod 16)) \<Longrightarrow>
      later i (X, v) = (X[i mod 16 := w], rnd i w v)"
begin

lemma first_rounds:
  assumes "length v = 8" and "n \<le> 16"
  shows "let v' = fold (\<lambda>i. rnd i (X ! i)) [0..<n] v in length v' = 8 \<and>
    regs8 n v' = fold (\<lambda>t. step t (fips2_W s0 s1 X t)) [0..<n] (regs8 0 v)"
  using assms(2)
proof (induction n)
  case (Suc n)
  then show ?case
    using rnd [of "fold (\<lambda>i. rnd i (X ! i)) [0..<n] v" n] by (simp add: Let_def fips2_W.simps)
qed (use assms in simp)

lemma later_rounds:
  assumes "length v = 8" and "ring W 16 X" and "16 \<le> n"
    and W: "\<And>t. 16 \<le> t \<Longrightarrow> W t = s1 (W (t - 2)) + W (t - 7) + s0 (W (t - 15)) + W (t - 16)"
  shows "let (X', v') = fold later [16..<n] (X, v) in length v' = 8 \<and> ring W n X' \<and>
    regs8 n v' = fold (\<lambda>t. step t (W t)) [16..<n] (regs8 16 v)"
  using assms(3)
proof (induction n rule: nat_induct_at_least)
  case base
  then show ?case using assms(1,2) by simp
next
  case (Suc n)
  obtain X' v' where s: "fold later [16..<n] (X, v) = (X', v')" by fastforce
  have v': "length v' = 8" "ring W n X'" "regs8 n v' = fold (\<lambda>t. step t (W t)) [16..<n] (regs8 16 v)"
    using Suc(2) by (simp_all add: s)
  have X': "X' ! ((n + 1) mod 16) = W (n - 15)" "X' ! ((n + 14) mod 16) = W (n - 2)" "X' ! ((n + 9) mod 16) = W (n - 7)"
    "X' ! (n mod 16) = W (n - 16)"
    using ring_nth [OF v'(2) Suc(1), of 1] ring_nth [OF v'(2) Suc(1), of 14] ring_nth [OF v'(2) Suc(1), of 9]
      ring_nth [OF v'(2) Suc(1), of 0] by simp_all
  have "W n = X' ! (n mod 16) + (s0 (X' ! ((n + 1) mod 16)) + s1 (X' ! ((n + 14) mod 16)) + X' ! ((n + 9) mod 16))"
    unfolding X' using W [OF Suc(1)] by (simp add: add_ac)
  then have "later n (X', v') = (X'[n mod 16 := W n], rnd n (W n) v')" by (rule later)
  then show ?case using v' rnd [OF v'(1), of n "W n"] ring_update [OF v'(2) refl] Suc(1) by (simp add: s)
qed

lemma rounds:
  assumes "length H = 8" "length M = 16" and "16 \<le> n" "8 dvd n"
    and v: "v = fold (\<lambda>i. rnd i (M ! i)) [0..<16] H" and s: "fold later [16..<n] (M, v) = (X', v')"
  shows "v' = fold (\<lambda>t. step t (fips2_W s0 s1 M t)) [0..<n] H" "length v' = 8"
proof -
  let ?W = "fips2_W s0 s1 M" let ?step = "\<lambda>t. step t (?W t)"
  have first: "length v = 8" "regs8 16 v = fold ?step [0..<16] H"
    using first_rounds [OF assms(1), of 16 M] regs8_whole [OF assms(1), of 0] by (simp_all add: v Let_def)
  have ring: "ring ?W 16 M" by (rule ring_start) (simp_all add: assms(2) fips2_W.simps)
  have W: "?W t = s1 (?W (t - 2)) + ?W (t - 7) + s0 (?W (t - 15)) + ?W (t - 16)" if "16 \<le> t" for t
    using that by (simp add: fips2_W.simps [of _ _ _ t])
  have "length v' = 8 \<and> ring ?W n X' \<and> regs8 n v' = fold ?step [16..<n] (regs8 16 v)"
    using later_rounds [OF first(1) ring assms(3), unfolded s Let_def prod.case] W by blast
  moreover have "[0..<n] = [0..<16] @ [16..<n]" using upt_add_eq_append [of 0 16 "n - 16"] assms(3) by simp
  ultimately show "v' = fold ?step [0..<n] H" "length v' = 8"
    using first(2) regs8_whole [OF _ assms(4), of v'] by simp_all
qed

end

section \<open>SHA-256\<close>

lemma round_step:
  assumes "length v = 8"
  shows "regs8 (i + 1) (ROUND_00_15 i w v) = fips256_step i w (regs8 i v) \<and> length (ROUND_00_15 i w v) = 8"
proof
  obtain v0 v1 v2 v3 v4 v5 v6 v7 where v: "v = [v0, v1, v2, v3, v4, v5, v6, v7]" using list_8 [OF assms] by blast
  show "regs8 (i + 1) (ROUND_00_15 i w v) = fips256_step i w (regs8 i v)"
    by (rule reg8_cases [of i])
      (simp_all add: regs8_def upt_8 ROUND_00_15_def fips256_step_def Let_def reg8_mod [of i] v sigmas Ch_def Maj_def add_ac)
  show "length (ROUND_00_15 i w v) = 8" using assms by (simp add: ROUND_00_15_def Let_def)
qed

interpretation sha256: sha2 ROUND_00_15 ROUND_16_63 fips256_step fips_sigma0 fips_sigma1
  by unfold_locales (simp_all add: round_step [simplified] ROUND_16_63_def Let_def sigmas)

lemma block_words: "block_words data = map (\<lambda>i. of_be (take 4 (drop (4 * i) data))) [0..<16]" "length (block_words data) = 16"
  by (simp_all add: block_words_def)

text \<open>The compression function of the code is that of the standard.\<close>

lemma sha256_block:
  assumes "length H = 8"
  shows "sha256_block_data_order H data = fips256_compress H data" "length (sha256_block_data_order H data) = 8"
proof -
  let ?M = "block_words data"
  define v where "v = fold (\<lambda>i. ROUND_00_15 i (?M ! i)) [0..<16] H"
  obtain X' v' where s: "fold ROUND_16_63 [16..<64] (?M, v) = (X', v')" by (rule prod.exhaust)
  have le: "16 \<le> (64 :: nat)" "8 dvd (64 :: nat)" by simp_all
  note v' = sha256.rounds [OF assms block_words(2) le v_def s]
  have code: "sha256_block_data_order H data = map2 (+) H v'"
    by (simp only: sha256_block_data_order_def Let_def v_def [symmetric] s prod.case)
  then show "sha256_block_data_order H data = fips256_compress H data"
    unfolding v'(1) fips256_compress_def Let_def block_words(1) .
  show "length (sha256_block_data_order H data) = 8" using v'(2) assms by (simp add: code)
qed

section \<open>SHA-1\<close>

definition regs6 :: "nat \<Rightarrow> u32 list \<Rightarrow> u32 list" where
  "regs6 i v = map (\<lambda>k. v ! reg6 i k) [0..<5]"

lemma list_6: "length v = 6 \<Longrightarrow> \<exists>a b c d e f. v = [a, b, c, d, e, f]"
  by (simp add: numeral_eq_Suc length_Suc_conv) blast

lemma list_5: "length v = 5 \<Longrightarrow> \<exists>a b c d e. v = [a, b, c, d, e]"
  by (simp add: numeral_eq_Suc length_Suc_conv) blast

lemma upt_5: "[0..<5] = [0, 1, 2, 3, 4]"
  by (simp add: upt_rec)

lemma F_fips:
  "t < 20 \<Longrightarrow> F_00_19 = fips1_f t" "20 \<le> t \<Longrightarrow> t < 40 \<Longrightarrow> F_20_39 = fips1_f t"
  "40 \<le> t \<Longrightarrow> t < 60 \<Longrightarrow> F_40_59 = fips1_f t" "60 \<le> t \<Longrightarrow> F_60_79 = fips1_f t"
  by (auto simp: fun_eq_iff F_00_19_def F_20_39_def F_40_59_def F_60_79_def fips1_f_def bit_simps intro!: bit_eqI)

lemma K_fips:
  "t < 20 \<Longrightarrow> K_00_19 = fips1_K t" "20 \<le> t \<Longrightarrow> t < 40 \<Longrightarrow> K_20_39 = fips1_K t"
  "40 \<le> t \<Longrightarrow> t < 60 \<Longrightarrow> K_40_59 = fips1_K t" "60 \<le> t \<Longrightarrow> K_60_79 = fips1_K t"
  by (simp_all add: K_00_19_def K_20_39_def K_40_59_def K_60_79_def fips1_K_def)

lemma body_step:
  assumes "length v = 6" and "K = fips1_K i" "F = fips1_f i"
  shows "regs6 (i + 1) (sha1_body K F i w v) = fips1_step i w (regs6 i v)" "length (sha1_body K F i w v) = 6"
proof -
  obtain v0 v1 v2 v3 v4 v5 where v: "v = [v0, v1, v2, v3, v4, v5]" using list_6 [OF assms(1)] by blast
  have reg: "reg6 i k = (k + 5 * (i mod 6)) mod 6" for k
    unfolding reg6_def by (intro mod_add_cong mod_mult_cong refl) simp
  have reg': "reg6 (Suc i) k = (k + 5 + 5 * (i mod 6)) mod 6" for k
    using reg [of "k + 5"] by (simp add: reg6_def add.assoc)
  have "i mod 6 < 6" by simp
  then consider "i mod 6 = 0" | "i mod 6 = 1" | "i mod 6 = 2" | "i mod 6 = 3" | "i mod 6 = 4" | "i mod 6 = 5"
    by linarith
  then show "regs6 (i + 1) (sha1_body K F i w v) = fips1_step i w (regs6 i v)"
    by cases (simp_all add: regs6_def upt_5 sha1_body_def Let_def reg reg' v assms ROTATE_rotl add_ac)
  show "length (sha1_body K F i w v) = 6" using assms by (simp add: sha1_body_def Let_def)
qed

lemma body_15:
  assumes "length v = 6" and "i < 16"
  shows "regs6 (i + 1) (BODY_00_15 i w v) = fips1_step i w (regs6 i v)" "length (BODY_00_15 i w v) = 6"
  unfolding BODY_00_15_def using assms(2) by (intro body_step [OF assms(1)] K_fips(1) F_fips(1); simp)+

lemma sha1_first_rounds:
  assumes "length v = 6" and "n \<le> 16"
  shows "let v' = fold (\<lambda>i. BODY_00_15 i (X ! i)) [0..<n] v in length v' = 6 \<and>
    regs6 n v' = fold (\<lambda>t. fips1_step t (fips1_W X t)) [0..<n] (regs6 0 v)"
  using assms(2)
proof (induction n)
  case (Suc n)
  moreover have "fips1_W X n = X ! n" using Suc(2) by (simp add: fips1_W.simps)
  ultimately show ?case
    using body_15 [of "fold (\<lambda>i. BODY_00_15 i (X ! i)) [0..<n] v" n] by (simp add: Let_def)
qed (use assms in simp)

lemma sha1_later_rounds:
  assumes "length v = 6" and "ring W m X" and "m \<le> n" "16 \<le> m"
    and W: "\<And>t. 16 \<le> t \<Longrightarrow> W t = word_rotl 1 (W (t - 3) XOR W (t - 8) XOR W (t - 14) XOR W (t - 16))"
    and K: "\<And>t. m \<le> t \<Longrightarrow> t < n \<Longrightarrow> K = fips1_K t" and F: "\<And>t. m \<le> t \<Longrightarrow> t < n \<Longrightarrow> F = fips1_f t"
  shows "let (X', v') = fold (BODY_16_79 K F) [m..<n] (X, v) in length v' = 6 \<and> ring W n X' \<and>
    regs6 n v' = fold (\<lambda>t. fips1_step t (W t)) [m..<n] (regs6 m v)"
  using assms(3) K F
proof (induction n rule: nat_induct_at_least)
  case base
  then show ?case using assms(1,2) by simp
next
  case (Suc n)
  obtain X' v' where s: "fold (BODY_16_79 K F) [m..<n] (X, v) = (X', v')" by (rule prod.exhaust)
  have v': "length v' = 6" "ring W n X'" "regs6 n v' = fold (\<lambda>t. fips1_step t (W t)) [m..<n] (regs6 m v)"
    using Suc(2-4) by (simp_all add: s)
  have n: "16 \<le> n" using Suc(1) assms(4) by simp
  have X': "X' ! ((n + 2) mod 16) = W (n - 14)" "X' ! ((n + 8) mod 16) = W (n - 8)" "X' ! ((n + 13) mod 16) = W (n - 3)"
    "X' ! (n mod 16) = W (n - 16)"
    using ring_nth [OF v'(2) n, of 2] ring_nth [OF v'(2) n, of 8] ring_nth [OF v'(2) n, of 13] ring_nth [OF v'(2) n, of 0]
    by simp_all
  have "Xupdate n X' = W n"
    unfolding Xupdate_def X' using W [OF n] by (simp add: ROTATE_rotl xor.commute xor.left_commute)
  then have "BODY_16_79 K F n (X', v') = (X'[n mod 16 := W n], sha1_body K F n (W n) v')"
    by (simp only: BODY_16_79_def Let_def prod.case)
  then show ?case
    using v' body_step [OF v'(1) Suc(3) [of n] Suc(4) [of n]] ring_update [OF v'(2) refl] Suc(1) by (simp add: s)
qed

lemma sha1_block:
  assumes "length H = 5"
  shows "sha1_block_data_order H data = fips1_compress H data" "length (sha1_block_data_order H data) = 5"
proof -
  let ?M = "block_words data" let ?W = "fips1_W ?M"
  let ?step = "\<lambda>t. fips1_step t (?W t)"
  define v where "v = fold (\<lambda>i. BODY_00_15 i (?M ! i)) [0..<16] (H @ [0])"
  have regs: "regs6 0 (H @ [0]) = H" using list_5 [OF assms] by (auto simp: regs6_def upt_5 reg6_def)
  have "length (H @ [0]) = 6" using assms by simp
  then have v: "length v = 6" "regs6 16 v = fold ?step [0..<16] H"
    using sha1_first_rounds [of "H @ [0]" 16 ?M] unfolding regs v_def Let_def by blast+
  have ring: "ring ?W 16 ?M" by (rule ring_start) (simp_all add: block_words(2) fips1_W.simps)
  have W: "?W t = word_rotl 1 (?W (t - 3) XOR ?W (t - 8) XOR ?W (t - 14) XOR ?W (t - 16))" if "16 \<le> t" for t
    using that by (simp add: fips1_W.simps [of _ t])
  have range: "\<exists>X' v'. fold (BODY_16_79 K F) [m..<n] (X, u) = (X', v') \<and> length v' = 6 \<and> ring ?W n X' \<and>
      regs6 n v' = fold ?step [0..<n] H"
    if "length u = 6" "ring ?W m X" "regs6 m u = fold ?step [0..<m] H" "16 \<le> m" "m \<le> n"
      "\<And>t. m \<le> t \<Longrightarrow> t < n \<Longrightarrow> K = fips1_K t" "\<And>t. m \<le> t \<Longrightarrow> t < n \<Longrightarrow> F = fips1_f t" for K F m n X u
  proof -
    have "[0..<n] = [0..<m] @ [m..<n]" using upt_add_eq_append [of 0 m "n - m"] that(5) by simp
    then have "fold ?step [0..<n] H = fold ?step [m..<n] (regs6 m u)" using that(3) by (simp only: fold_append o_apply)
    moreover obtain X' v' where s: "fold (BODY_16_79 K F) [m..<n] (X, u) = (X', v')" by (rule prod.exhaust)
    ultimately show ?thesis
      using sha1_later_rounds [OF that(1,2,5,4) W that(6,7), unfolded s Let_def prod.case] by simp
  qed
  obtain X1 v1 where 1: "fold (BODY_16_79 K_00_19 F_00_19) [16..<20] (?M, v) = (X1, v1)" "length v1 = 6" "ring ?W 20 X1"
    "regs6 20 v1 = fold ?step [0..<20] H"
    using range [OF v(1) ring v(2) _ _ K_fips(1) F_fips(1), of 20] by auto
  obtain X2 v2 where 2: "fold (BODY_16_79 K_20_39 F_20_39) [20..<40] (X1, v1) = (X2, v2)" "length v2 = 6" "ring ?W 40 X2"
    "regs6 40 v2 = fold ?step [0..<40] H"
    using range [OF 1(2-4) _ _ K_fips(2) F_fips(2), of 40] by auto
  obtain X3 v3 where 3: "fold (BODY_16_79 K_40_59 F_40_59) [40..<60] (X2, v2) = (X3, v3)" "length v3 = 6" "ring ?W 60 X3"
    "regs6 60 v3 = fold ?step [0..<60] H"
    using range [OF 2(2-4) _ _ K_fips(3) F_fips(3), of 60] by auto
  obtain X4 v4 where 4: "fold (BODY_16_79 K_60_79 F_60_79) [60..<80] (X3, v3) = (X4, v4)" "length v4 = 6"
    "regs6 80 v4 = fold ?step [0..<80] H"
    using range [OF 3(2-4) _ _ K_fips(4) F_fips(4), of 80] by auto
  have "sha1_block_data_order H data = map (\<lambda>k. H ! k + v4 ! reg6 80 k) [0..<5]"
    by (simp only: sha1_block_data_order_def Let_def v_def [symmetric] 1(1) 2(1) 3(1) 4(1) prod.case)
  also have "\<dots> = map2 (+) H (regs6 80 v4)" using assms by (intro nth_equalityI) (simp_all add: regs6_def)
  finally show "sha1_block_data_order H data = fips1_compress H data"
    unfolding 4(3) fips1_compress_def Let_def block_words(1) .
  show "length (sha1_block_data_order H data) = 5" by (simp add: sha1_block_data_order_def Let_def split_beta)
qed

section \<open>The constants\<close>

text \<open>The words of \<open>K256\<close> are the first 32 bits of the fractional parts of the cube roots of the first 64
  primes, those of the initial states of SHA-256 of the square roots of the first eight.\<close>

definition primes_80 :: "int list" where
  "primes_80 =
    [2, 3, 5, 7, 11, 13, 17, 19, 23, 29, 31, 37, 41, 43, 47, 53, 59, 61, 67, 71, 73, 79, 83, 89, 97, 101, 103, 107, 109, 113,
     127, 131, 137, 139, 149, 151, 157, 163, 167, 173, 179, 181, 191, 193, 197, 199, 211, 223, 227, 229, 233, 239, 241, 251,
     257, 263, 269, 271, 277, 281, 283, 293, 307, 311, 313, 317, 331, 337, 347, 349, 353, 359, 367, 373, 379, 383, 389, 397,
     401, 409]"

definition root_fraction :: "nat \<Rightarrow> int \<Rightarrow> 'a::len word \<Rightarrow> bool" where
  "root_fraction n p k \<longleftrightarrow>
     (let B = 2 ^ LENGTH('a) in
      list_ex (\<lambda>c. (c * B + uint k) ^ n \<le> p * B ^ n \<and> p * B ^ n < (c * B + uint k + 1) ^ n) [1, 2, 3, 4, 5, 6, 7])"

lemma K256_cube_roots: "list_all2 (root_fraction 3) (take 64 primes_80) K256"
  by code_simp

lemma SHA256_square_roots: "list_all2 (root_fraction 2) (take 8 primes_80) (hash_h SHA256_Init)"
  by code_simp

section \<open>Messages in pieces\<close>

text \<open>The updates of a context by the pieces of a message.\<close>

fun update_all :: "('c \<Rightarrow> byte list \<Rightarrow> 'c option) \<Rightarrow> 'c \<Rightarrow> byte list list \<Rightarrow> 'c option" where
  "update_all update c [] = Some c"
| "update_all update c (d # ds) = Option.bind (update c d) (\<lambda>c. update_all update c ds)"

lemma update_all_absorbs:
  assumes "absorbed alg st bs c"
  shows "\<exists>c'. update_all (HASH_UPDATE alg) c ds = Some c' \<and> absorbed alg st (bs @ concat ds) c' \<and> md_len c' = md_len c"
  using assms
proof (induction ds arbitrary: bs c)
  case (Cons d ds)
  obtain c' where "HASH_UPDATE alg c d = Some c'" "absorbed alg st (bs @ d) c'" "md_len c' = md_len c"
    using update_absorbs [OF Cons(2)] by blast
  then show ?case using Cons(1) [of "bs @ d" c'] by auto
qed simp

lemma chain_foldl:
  assumes "length st = n"
    and block: "\<And>st data. length st = n \<Longrightarrow> block_data_order alg st data = compress st data \<and> length (compress st data) = n"
  shows "chain alg st bs = foldl compress st (fips_blocks 64 bs) \<and> length (chain alg st bs) = n"
proof -
  have "HASH_BLOCK_DATA_ORDER alg st bs m = foldl compress st (map (\<lambda>i. take 64 (drop (64 * i) bs)) [0..<m]) \<and>
      length (HASH_BLOCK_DATA_ORDER alg st bs m) = n" for m
    using assms(1)
  proof (induction m arbitrary: st bs)
    case (Suc m)
    have "map (\<lambda>i. take 64 (drop (64 * i) bs)) [0..<Suc m] =
        take 64 bs # map (\<lambda>i. take 64 (drop (64 * i) (drop 64 bs))) [0..<m]"
      unfolding upt_conv_Cons [OF zero_less_Suc] map_Suc_upt [symmetric] by (simp add: add.commute)
    then show ?case using Suc(1) [of "block_data_order alg st (take 64 bs)" "drop 64 bs"] block [OF Suc(2)] by auto
  qed simp
  from this [of "length bs div 64"] show ?thesis unfolding chain_def fips_blocks_def by auto
qed

lemma final_fips:
  assumes "absorbed alg st bs c" and "length st = n" and "big_endian alg"
    and "\<And>st data. length st = n \<Longrightarrow> block_data_order alg st data = compress st data \<and> length (compress st data) = n"
  shows "\<exists>c'. HASH_FINAL alg c = map_option (\<lambda>md. (md, c')) (make_string alg c') \<and>
    hash_h c' = fips_hash compress st bs \<and> length (hash_h c') = n \<and> md_len c' = md_len c"
proof -
  obtain c' where c': "HASH_FINAL alg c = map_option (\<lambda>md. (md, c')) (make_string alg c')"
    "hash_h c' = chain alg st (pad_message True bs)" "md_len c' = md_len c"
    using final_absorbed [OF assms(1)] assms(3) by auto
  then show ?thesis
    using chain_foldl [OF assms(2,4), of "pad_message True bs"] by (intro exI [of _ c']) (auto simp: fips_hash_def)
qed

lemma init_absorbed:
  "absorbed sha256_md32 (hash_h SHA256_Init) [] SHA256_Init" "absorbed sha256_md32 (hash_h SHA224_Init) [] SHA224_Init"
  "absorbed sha1_md32 (hash_h SHA1_Init) [] SHA1_Init"
  by (simp_all add: absorbed_def chain_def SHA256_Init_def SHA224_Init_def SHA1_Init_def)

text \<open>SHA-256, SHA-224 and SHA-1 of a message in pieces.\<close>

lemma sha32_is_fips:
  "(\<exists>c c'. update_all SHA256_Update SHA256_Init ds = Some c \<and>
      SHA256_Final c = Some (words_string (fips_hash fips256_compress (hash_h SHA256_Init) (concat ds)), c')) \<and>
   (\<exists>c c'. update_all SHA224_Update SHA224_Init ds = Some c \<and>
      SHA224_Final c = Some (words_string (take 7 (fips_hash fips256_compress (hash_h SHA224_Init) (concat ds))), c')) \<and>
   (\<exists>c c'. update_all SHA1_Update SHA1_Init ds = Some c \<and>
      SHA1_Final c = Some (words_string (fips_hash fips1_compress (hash_h SHA1_Init) (concat ds)), c'))"
proof -
  have 256: "length st = 8 \<Longrightarrow> block_data_order sha256_md32 st data = fips256_compress st data \<and>
      length (fips256_compress st data) = 8" for st data
    using sha256_block [of st data] by (simp add: sha256_md32_def)
  have 1: "length st = 5 \<Longrightarrow> block_data_order sha1_md32 st data = fips1_compress st data \<and>
      length (fips1_compress st data) = 5" for st data
    using sha1_block [of st data] by (simp add: sha1_md32_def)
  have big: "big_endian sha256_md32" "big_endian sha1_md32" by (simp_all add: sha256_md32_def sha1_md32_def)
  have init: "length (hash_h SHA256_Init) = 8" "length (hash_h SHA224_Init) = 8" "length (hash_h SHA1_Init) = 5"
    "md_len SHA256_Init = 32" "md_len SHA224_Init = 28"
    by (simp_all add: SHA256_Init_def SHA224_Init_def SHA1_Init_def)
  have funs: "SHA256_Update = HASH_UPDATE sha256_md32" "SHA224_Update = HASH_UPDATE sha256_md32"
    "SHA1_Update = HASH_UPDATE sha1_md32" "SHA256_Final = HASH_FINAL sha256_md32" "SHA224_Final = HASH_FINAL sha256_md32"
    "SHA1_Final = HASH_FINAL sha1_md32" "make_string sha256_md32 = SHA256_MAKE_STRING" "make_string sha1_md32 = SHA1_MAKE_STRING"
    by (simp_all add: fun_eq_iff SHA256_Update_def SHA224_Update_def SHA1_Update_def SHA256_Final_def SHA224_Final_def
      SHA1_Final_def sha256_md32_def sha1_md32_def)
  show ?thesis
  proof (intro conjI)
    show "\<exists>c c'. update_all SHA256_Update SHA256_Init ds = Some c \<and>
        SHA256_Final c = Some (words_string (fips_hash fips256_compress (hash_h SHA256_Init) (concat ds)), c')"
    proof -
      obtain c where c: "update_all SHA256_Update SHA256_Init ds = Some c" "absorbed sha256_md32 (hash_h SHA256_Init) (concat ds) c"
        "md_len c = 32"
        using update_all_absorbs [OF init_absorbed(1), of ds] init funs by auto
      then show ?thesis using final_fips [OF c(2) init(1) big(1) 256] by (auto simp: funs SHA256_MAKE_STRING_def)
    qed
    show "\<exists>c c'. update_all SHA224_Update SHA224_Init ds = Some c \<and>
        SHA224_Final c = Some (words_string (take 7 (fips_hash fips256_compress (hash_h SHA224_Init) (concat ds))), c')"
    proof -
      obtain c where c: "update_all SHA224_Update SHA224_Init ds = Some c" "absorbed sha256_md32 (hash_h SHA224_Init) (concat ds) c"
        "md_len c = 28"
        using update_all_absorbs [OF init_absorbed(2), of ds] init funs by auto
      then show ?thesis using final_fips [OF c(2) init(2) big(1) 256] by (auto simp: funs SHA256_MAKE_STRING_def)
    qed
    show "\<exists>c c'. update_all SHA1_Update SHA1_Init ds = Some c \<and>
        SHA1_Final c = Some (words_string (fips_hash fips1_compress (hash_h SHA1_Init) (concat ds)), c')"
    proof -
      obtain c where c: "update_all SHA1_Update SHA1_Init ds = Some c" "absorbed sha1_md32 (hash_h SHA1_Init) (concat ds) c"
        using update_all_absorbs [OF init_absorbed(3), of ds] funs by auto
      then show ?thesis using final_fips [OF c(2) init(3) big(2) 1] by (auto simp: funs SHA1_MAKE_STRING_def)
    qed
  qed
qed

end
