(* ===== verification/Md5_Spec.thy ===== *)
theory Md5_Spec
  imports Md5 Sha_Spec
begin

text \<open>
  MD5 (RFC 1321) and MD4 (RFC 1320) with registers that move and the order of the words as a formula, and the
  proof that the code computes them.
\<close>

section \<open>The standards\<close>

definition rfc1321_f :: "nat \<Rightarrow> u32 \<Rightarrow> u32 \<Rightarrow> u32 \<Rightarrow> u32" where
  "rfc1321_f i x y z =
     (if i < 16 then (x AND y) OR (NOT x AND z) else if i < 32 then (x AND z) OR (y AND NOT z)
      else if i < 48 then x XOR y XOR z else y XOR (x OR NOT z))"

definition rfc1321_k :: "nat \<Rightarrow> nat" where
  "rfc1321_k i = (if i < 16 then i else if i < 32 then 5 * i + 1 else if i < 48 then 3 * i + 5 else 7 * i) mod 16"

definition rfc1321_s :: "nat \<Rightarrow> nat" where
  "rfc1321_s i = [[7, 12, 17, 22], [5, 9, 14, 20], [4, 11, 16, 23], [6, 10, 15, 21]] ! (i div 16) ! (i mod 4)"

definition rfc1321_T :: "nat \<Rightarrow> u32" where
  "rfc1321_T i = snd (snd (md5_lines ! i))"

fun rfc1321_step :: "u32 list \<Rightarrow> nat \<Rightarrow> u32 list \<Rightarrow> u32 list" where
  "rfc1321_step X i [a, b, c, d] =
     [d, b + word_rotl (rfc1321_s i) (a + rfc1321_f i b c d + X ! rfc1321_k i + rfc1321_T i), b, c]"
| "rfc1321_step X i v = v"

definition rfc1321_compress :: "u32 list \<Rightarrow> byte list \<Rightarrow> u32 list" where
  "rfc1321_compress H block = map2 (+) H (fold (rfc1321_step (block_words_le block)) [0..<64] H)"

definition rfc1320_f :: "nat \<Rightarrow> u32 \<Rightarrow> u32 \<Rightarrow> u32 \<Rightarrow> u32" where
  "rfc1320_f i x y z =
     (if i < 16 then (x AND y) OR (NOT x AND z) else if i < 32 then (x AND y) OR (x AND z) OR (y AND z) else x XOR y XOR z)"

definition rfc1320_k :: "nat \<Rightarrow> nat" where
  "rfc1320_k i =
     (if i < 16 then i else if i < 32 then 4 * (i mod 4) + i mod 16 div 4
      else [0, 8, 4, 12, 2, 10, 6, 14, 1, 9, 5, 13, 3, 11, 7, 15] ! (i mod 16))"

definition rfc1320_s :: "nat \<Rightarrow> nat" where
  "rfc1320_s i = [[3, 7, 11, 19], [3, 5, 9, 13], [3, 9, 11, 15]] ! (i div 16) ! (i mod 4)"

definition rfc1320_t :: "nat \<Rightarrow> u32" where
  "rfc1320_t i = (if i < 16 then 0 else if i < 32 then 0x5A827999 else 0x6ED9EBA1)"

fun rfc1320_step :: "u32 list \<Rightarrow> nat \<Rightarrow> u32 list \<Rightarrow> u32 list" where
  "rfc1320_step X i [a, b, c, d] =
     [d, word_rotl (rfc1320_s i) (a + rfc1320_f i b c d + X ! rfc1320_k i + rfc1320_t i), b, c]"
| "rfc1320_step X i v = v"

definition rfc1320_compress :: "u32 list \<Rightarrow> byte list \<Rightarrow> u32 list" where
  "rfc1320_compress H block = map2 (+) H (fold (rfc1320_step (block_words_le block)) [0..<48] H)"

definition md_hash :: "(u32 list \<Rightarrow> byte list \<Rightarrow> u32 list) \<Rightarrow> byte list \<Rightarrow> byte list" where
  "md_hash compress bs =
     words_string_le (foldl compress [0x67452301, 0xefcdab89, 0x98badcfe, 0x10325476] (fips_blocks 64 (pad_message False bs)))"

section \<open>The rounds\<close>

definition regs4 :: "nat \<Rightarrow> 'a list \<Rightarrow> 'a list" where
  "regs4 i v = map (\<lambda>k. v ! reg4 i k) [0..<4]"

lemma list_4: "length v = 4 \<Longrightarrow> \<exists>a b c d. v = [a, b, c, d]"
  by (simp add: numeral_eq_Suc length_Suc_conv) blast

lemma upt_4: "[0..<4] = [0, 1, 2, 3]"
  by (simp add: upt_rec)

lemma reg4_mod: "reg4 i k = (k + 3 * (i mod 4)) mod 4" "reg4 (Suc i) k = (k + 3 + 3 * (i mod 4)) mod 4"
proof -
  show reg: "reg4 i k = (k + 3 * (i mod 4)) mod 4" for k
    unfolding reg4_def by (intro mod_add_cong mod_mult_cong refl) simp
  show "reg4 (Suc i) k = (k + 3 + 3 * (i mod 4)) mod 4" using reg [of "k + 3"] by (simp add: reg4_def add.assoc)
qed

lemma regs4_whole:
  assumes "length v = 4" "4 dvd i"
  shows "regs4 i v = v"
proof -
  have "reg4 i k = k mod 4" for k using assms(2) by (simp add: reg4_mod(1) dvd_imp_mod_0)
  then show ?thesis using list_4 [OF assms(1)] by (auto simp: regs4_def upt_4)
qed

lemma reg4_cases:
  fixes i :: nat
  obtains "i mod 4 = 0" | "i mod 4 = 1" | "i mod 4 = 2" | "i mod 4 = 3"
proof -
  have "i mod 4 < (4 :: nat)" by simp
  then show thesis using that by linarith
qed

lemma md5_round_rfc: "md5_round i b c d = rfc1321_f i b c d" "md4_round i b c d = rfc1320_f i b c d"
proof -
  show "md5_round i b c d = rfc1321_f i b c d"
    by (intro bit_eqI) (auto simp: md5_round_def rfc1321_f_def F5_def G5_def H5_def I5_def bit_simps)
  show "md4_round i b c d = rfc1320_f i b c d"
    by (intro bit_eqI) (auto simp: md4_round_def rfc1320_f_def F4_def G4_def H4_def bit_simps)
qed

lemma md5_lines: "list_all (\<lambda>i. let (k, s, t) = md5_lines ! i in k = rfc1321_k i \<and> s = rfc1321_s i \<and> 0 < rfc1321_s i \<and> rfc1321_s i < 32) [0..<64]"
  by code_simp

lemma md4_lines: "list_all (\<lambda>i. let (k, s, t) = md4_lines ! i in k = rfc1320_k i \<and> s = rfc1320_s i \<and> t = rfc1320_t i \<and>
    0 < rfc1320_s i \<and> rfc1320_s i < 32) [0..<48]"
  by code_simp

lemma md5_step:
  assumes "length v = 4" and "i < 64"
  shows "regs4 (Suc i) (md5_R (md5_round i) X i (md5_lines ! i) v) = rfc1321_step X i (regs4 i v)"
    "length (md5_R (md5_round i) X i (md5_lines ! i) v) = 4"
proof -
  obtain a b c d where v: "v = [a, b, c, d]" using list_4 [OF assms(1)] by blast
  have line: "md5_lines ! i = (rfc1321_k i, rfc1321_s i, rfc1321_T i)" "0 < rfc1321_s i" "rfc1321_s i < 32"
    using md5_lines assms(2) by (auto simp: list_all_iff rfc1321_T_def prod_eq_iff split_beta Let_def)
  have line': "ROTATE x (rfc1321_s i) = word_rotl (rfc1321_s i) x" for x using line(2,3) by (rule ROTATE_rotl)
  show "regs4 (Suc i) (md5_R (md5_round i) X i (md5_lines ! i) v) = rfc1321_step X i (regs4 i v)"
    unfolding line(1)
    by (rule reg4_cases [of i])
      (simp_all add: regs4_def upt_4 md5_R_def Let_def reg4_mod [of i] v md5_round_rfc line' add_ac)
  show "length (md5_R (md5_round i) X i (md5_lines ! i) v) = 4" using assms by (simp add: md5_R_def Let_def split_beta)
qed

lemma md4_step:
  assumes "length v = 4" and "i < 48"
  shows "regs4 (Suc i) (md4_R (md4_round i) X i (md4_lines ! i) v) = rfc1320_step X i (regs4 i v)"
    "length (md4_R (md4_round i) X i (md4_lines ! i) v) = 4"
proof -
  obtain a b c d where v: "v = [a, b, c, d]" using list_4 [OF assms(1)] by blast
  have line: "md4_lines ! i = (rfc1320_k i, rfc1320_s i, rfc1320_t i)" "0 < rfc1320_s i" "rfc1320_s i < 32"
    using md4_lines assms(2) by (auto simp: list_all_iff prod_eq_iff split_beta Let_def)
  have line': "ROTATE x (rfc1320_s i) = word_rotl (rfc1320_s i) x" for x using line(2,3) by (rule ROTATE_rotl)
  show "regs4 (Suc i) (md4_R (md4_round i) X i (md4_lines ! i) v) = rfc1320_step X i (regs4 i v)"
    unfolding line(1)
    by (rule reg4_cases [of i])
      (simp_all add: regs4_def upt_4 md4_R_def Let_def reg4_mod [of i] v md5_round_rfc line' add_ac)
  show "length (md4_R (md4_round i) X i (md4_lines ! i) v) = 4" using assms by (simp add: md4_R_def Let_def split_beta)
qed

lemma moving_rounds:
  assumes "length v = 4" and "n \<le> m" and "4 dvd n"
    and step: "\<And>i v. length v = 4 \<Longrightarrow> i < m \<Longrightarrow> regs4 (Suc i) (r i v) = step i (regs4 i v) \<and> length (r i v) = 4"
  shows "fold r [0..<n] v = fold step [0..<n] v \<and> length (fold r [0..<n] v) = 4"
proof -
  have "regs4 n (fold r [0..<n] v) = fold step [0..<n] v \<and> length (fold r [0..<n] v) = 4" if "n \<le> m" for n
    using that
  proof (induction n)
    case 0
    then show ?case using assms(1) by (simp add: regs4_whole)
  next
    case (Suc n)
    then show ?case using step [of "fold r [0..<n] v" n] by simp
  qed
  from this [OF assms(2)] show ?thesis using regs4_whole [OF _ assms(3)] by metis
qed

lemma md5_block:
  assumes "length H = 4"
  shows "md5_block_data_order H data = rfc1321_compress H data" "length (md5_block_data_order H data) = 4"
proof -
  let ?X = "block_words_le data"
  have "4 dvd (64 :: nat)" by simp
  then have "fold (\<lambda>i. md5_R (md5_round i) ?X i (md5_lines ! i)) [0..<64] H = fold (rfc1321_step ?X) [0..<64] H \<and>
      length (fold (\<lambda>i. md5_R (md5_round i) ?X i (md5_lines ! i)) [0..<64] H) = 4"
    by (intro moving_rounds [OF assms order_refl] conjI md5_step)
  then show "md5_block_data_order H data = rfc1321_compress H data" "length (md5_block_data_order H data) = 4"
    using assms by (auto simp: md5_block_data_order_def rfc1321_compress_def Let_def)
qed

lemma md4_block:
  assumes "length H = 4"
  shows "md4_block_data_order H data = rfc1320_compress H data" "length (md4_block_data_order H data) = 4"
proof -
  let ?X = "block_words_le data"
  have "4 dvd (48 :: nat)" by simp
  then have "fold (\<lambda>i. md4_R (md4_round i) ?X i (md4_lines ! i)) [0..<48] H = fold (rfc1320_step ?X) [0..<48] H \<and>
      length (fold (\<lambda>i. md4_R (md4_round i) ?X i (md4_lines ! i)) [0..<48] H) = 4"
    by (intro moving_rounds [OF assms order_refl] conjI md4_step)
  then show "md4_block_data_order H data = rfc1320_compress H data" "length (md4_block_data_order H data) = 4"
    using assms by (auto simp: md4_block_data_order_def rfc1320_compress_def Let_def)
qed

section \<open>Messages in pieces\<close>

lemma md_is_rfc:
  assumes "hash_h c0 = [0x67452301, 0xefcdab89, 0x98badcfe, 0x10325476]" "absorbed alg (hash_h c0) bs c"
    and "\<not> big_endian alg" "make_string alg = (\<lambda>c. Some (words_string_le (take 4 (hash_h c))))"
    and "\<And>st data. length st = 4 \<Longrightarrow> block_data_order alg st data = compress st data \<and> length (compress st data) = 4"
  shows "\<exists>c'. HASH_FINAL alg c = Some (md_hash compress bs, c')"
proof -
  have len: "length (hash_h c0) = 4" using assms(1) by simp
  obtain c' where c': "HASH_FINAL alg c = map_option (\<lambda>md. (md, c')) (make_string alg c')"
    "hash_h c' = chain alg (hash_h c0) (pad_message False bs)"
    using final_absorbed [OF assms(2)] assms(3) by auto
  then show ?thesis
    using chain_foldl [OF len assms(5), of "pad_message False bs"] assms(1,4) by (auto simp: md_hash_def)
qed

lemma init_absorbed_md: "absorbed md5_md32 (hash_h MD5_Init) [] MD5_Init" "absorbed md4_md32 (hash_h MD4_Init) [] MD4_Init"
  by (simp_all add: absorbed_def chain_def MD5_Init_def MD4_Init_def)

lemma md5_is_rfc:
  assumes "absorbed md5_md32 (hash_h MD5_Init) bs c"
  shows "\<exists>c'. MD5_Final c = Some (md_hash rfc1321_compress bs, c')"
  unfolding MD5_Final_def
  by (rule md_is_rfc [OF _ assms]) (use md5_block in \<open>auto simp: MD5_Init_def md5_md32_def MD5_MAKE_STRING_def\<close>)

lemma md4_is_rfc:
  assumes "absorbed md4_md32 (hash_h MD4_Init) bs c"
  shows "\<exists>c'. MD4_Final c = Some (md_hash rfc1320_compress bs, c')"
  unfolding MD4_Final_def
  by (rule md_is_rfc [OF _ assms]) (use md4_block in \<open>auto simp: MD4_Init_def md4_md32_def MD4_MAKE_STRING_def\<close>)

end
