(* ===== verification/Sha512_Spec.thy ===== *)
theory Sha512_Spec
  imports Sha512 Sha_Spec
begin

text \<open>
  SHA-384 and SHA-512 of FIPS 180-4, and the proof that \<open>sha512.c\<close> computes them for a message in any pieces.
\<close>

section \<open>The standard\<close>

definition fips512_Sigma0 :: "u64 \<Rightarrow> u64" where "fips512_Sigma0 x = (word_rotr 28 x XOR word_rotr 34 x XOR word_rotr 39 x)"
definition fips512_Sigma1 :: "u64 \<Rightarrow> u64" where "fips512_Sigma1 x = (word_rotr 14 x XOR word_rotr 18 x XOR word_rotr 41 x)"
definition fips512_sigma0 :: "u64 \<Rightarrow> u64" where "fips512_sigma0 x = (word_rotr 1 x XOR word_rotr 8 x XOR drop_bit 7 x)"
definition fips512_sigma1 :: "u64 \<Rightarrow> u64" where "fips512_sigma1 x = (word_rotr 19 x XOR word_rotr 61 x XOR drop_bit 6 x)"

definition fips512_step :: "nat \<Rightarrow> u64 \<Rightarrow> u64 list \<Rightarrow> u64 list" where
  "fips512_step t = fips2_step fips512_Sigma0 fips512_Sigma1 (K512 ! t)"

definition fips512_compress :: "u64 list \<Rightarrow> byte list \<Rightarrow> u64 list" where
  "fips512_compress H block =
     (let M = map (\<lambda>i. of_be (take 8 (drop (8 * i) block))) [0..<16]
      in map2 (+) H (fold (\<lambda>t. fips512_step t (fips2_W fips512_sigma0 fips512_sigma1 M t)) [0..<80] H))"

text \<open>Section 5.1.2: the length takes 128 bits.\<close>

definition pad_message_128 :: "byte list \<Rightarrow> byte list" where
  "pad_message_128 bs =
     bs @ [0x80] @ replicate ((239 - length bs mod 128) mod 128) 0 @ be_bytes 16 (of_nat (8 * length bs) :: 128 word)"

definition fips512_hash :: "u64 list \<Rightarrow> byte list \<Rightarrow> u64 list" where
  "fips512_hash H bs = foldl fips512_compress H (fips_blocks 128 (pad_message_128 bs))"

definition words_string_64 :: "u64 list \<Rightarrow> byte list" where
  "words_string_64 ws = concat (map (be_bytes 8) ws)"

section \<open>The rounds\<close>

lemma ROTR_rotr:
  assumes "0 < n" "n < 64"
  shows "ROTR x n = word_rotr n x"
proof -
  have "64 - (64 - n) = n" using assms by simp
  then show ?thesis using shifts_rotr [of "64 - n" x] assms by (simp add: ROTR_def or.commute)
qed

lemma sigmas_512: "Sigma0_512 x = fips512_Sigma0 x" "Sigma1_512 x = fips512_Sigma1 x" "sigma0_512 x = fips512_sigma0 x"
  "sigma1_512 x = fips512_sigma1 x"
  by (simp_all add: Sigma0_512_def Sigma1_512_def sigma0_512_def sigma1_512_def fips512_Sigma0_def fips512_Sigma1_def
    fips512_sigma0_def fips512_sigma1_def ROTR_rotr)

lemma round_step_512:
  assumes "length v = 8"
  shows "regs8 (i + 1) (ROUND_00_15_512 i w v) = fips512_step i w (regs8 i v) \<and> length (ROUND_00_15_512 i w v) = 8"
proof
  obtain v0 v1 v2 v3 v4 v5 v6 v7 where v: "v = [v0, v1, v2, v3, v4, v5, v6, v7]" using list_8 [OF assms] by blast
  show "regs8 (i + 1) (ROUND_00_15_512 i w v) = fips512_step i w (regs8 i v)"
    by (rule reg8_cases [of i])
      (simp_all add: regs8_def upt_8 ROUND_00_15_512_def fips512_step_def Let_def reg8_mod [of i] v sigmas_512 Ch_512_def
        Maj_512_def add_ac)
  show "length (ROUND_00_15_512 i w v) = 8" using assms by (simp add: ROUND_00_15_512_def Let_def)
qed

lemma ROUND_16_80_later:
  "w = X ! (i mod 16) + (fips512_sigma0 (X ! ((i + 1) mod 16)) + fips512_sigma1 (X ! ((i + 14) mod 16)) + X ! ((i + 9) mod 16)) \<Longrightarrow>
   ROUND_16_80 (16 * (i div 16)) (i mod 16) (X, v) = (X[i mod 16 := w], ROUND_00_15_512 i w v)"
  using mod_add_left_eq [of i 16 1] mod_add_left_eq [of i 16 14] mod_add_left_eq [of i 16 9]
  by (simp add: ROUND_16_80_def Let_def sigmas_512 mod_mod_trivial)

interpretation sha512: sha2 ROUND_00_15_512 "\<lambda>i. ROUND_16_80 (16 * (i div 16)) (i mod 16)" fips512_step
  fips512_sigma0 fips512_sigma1
  by unfold_locales (use round_step_512 [simplified] ROUND_16_80_later in simp_all)

lemma fold_sixteens:
  assumes "a \<le> b"
  shows "fold (\<lambda>i. fold (f i) [0..<16]) (map ((*) 16) [a..<b]) s = fold (\<lambda>k. f (16 * (k div 16)) (k mod 16)) [16 * a..<16 * b] s"
  using assms
proof (induction b rule: nat_induct_at_least)
  case (Suc b)
  have "[16 * a..<16 * Suc b] = [16 * a..<16 * b] @ map (\<lambda>j. j + 16 * b) [0..<16]"
    using upt_add_eq_append [of "16 * a" "16 * b" 16] Suc(1) by (simp only: map_add_upt) (simp add: add.commute)
  moreover have "fold (f (16 * b)) [0..<16] t = fold (\<lambda>k. f (16 * (k div 16)) (k mod 16)) (map (\<lambda>j. j + 16 * b) [0..<16]) t" for t
    unfolding fold_map o_def by (rule fold_cong) simp_all
  moreover have "[a..<Suc b] = [a..<b] @ [b]" using Suc(1) by simp
  ultimately show ?case using Suc(2) by (simp del: upt.simps)
qed simp

lemma sha512_block:
  assumes "length H = 8"
  shows "sha512_block H data = fips512_compress H data" "length (sha512_block H data) = 8"
proof -
  define M where "M = map (PULL64 data) [0..<16]"
  have M: "length M = 16" "M = map (\<lambda>i. of_be (take 8 (drop (8 * i) data))) [0..<16]" by (simp_all add: M_def PULL64_def)
  define v where "v = fold (\<lambda>i. ROUND_00_15_512 i (M ! i)) [0..<16] H"
  obtain X' v' where s: "fold (\<lambda>i. ROUND_16_80 (16 * (i div 16)) (i mod 16)) [16..<80] (M, v) = (X', v')" by (rule prod.exhaust)
  have le: "16 \<le> (80 :: nat)" "8 dvd (80 :: nat)" by simp_all
  note v' = sha512.rounds [OF assms M(1) le v_def s]
  have "[16, 32, 48, 64] = map ((*) 16) [1..<5]" by (simp add: upt_rec)
  moreover have "[16 * 1..<16 * 5] = [16..<80]" by (simp only: mult_1_right) simp
  ultimately have loop: "fold (\<lambda>i. fold (ROUND_16_80 i) [0..<16]) [16, 32, 48, 64] (M, v) = (X', v')"
    using fold_sixteens [of 1 5 ROUND_16_80 "(M, v)"] s by simp
  have code: "sha512_block H data = map2 (+) H v'"
    by (simp only: sha512_block_def Let_def M_def [symmetric] v_def [symmetric] loop prod.case)
  then show "sha512_block H data = fips512_compress H data"
    unfolding v'(1) fips512_compress_def Let_def M(2) [symmetric] .
  show "length (sha512_block H data) = 8" using v'(2) assms by (simp add: code)
qed

text \<open>The initial state of SHA-512, as for SHA-256.\<close>

lemma SHA512_square_roots: "list_all2 (root_fraction 2) (take 8 primes_80) (sha_h (SHA512_Init c))"
  by (simp add: root_fraction_def primes_80_def SHA512_Init_def)

section \<open>The collector\<close>

lemma fips_blocks_append:
  assumes "n dvd length xs" and "0 < n"
  shows "fips_blocks n (xs @ ys) = fips_blocks n xs @ fips_blocks n ys"
proof -
  obtain k where k: "length xs = n * k" using assms(1) by (rule dvdE)
  have len: "length (xs @ ys) div n = k + length ys div n" using assms(2) k by simp
  have "take n (drop (n * i) (xs @ ys)) = take n (drop (n * i) xs)" if "i < k" for i
  proof -
    have "n * i + n \<le> length xs" using that mult_le_mono2 [of "Suc i" k n] by (simp add: k)
    then show ?thesis by simp
  qed
  moreover have "[0..<k + m] = [0..<k] @ map (\<lambda>i. i + k) [0..<m]" for m
    using upt_add_eq_append [of 0 k m] by (simp only: map_add_upt) (simp add: add.commute)
  moreover have "drop (n * (i + k)) (xs @ ys) = drop (n * i) ys" for i using k by (simp add: algebra_simps)
  ultimately show ?thesis
    unfolding fips_blocks_def len using assms(2) k by (simp add: o_def cong: map_cong)
qed

lemma fips_blocks_short: "length xs < n \<Longrightarrow> fips_blocks n xs = []"
  by (simp add: fips_blocks_def)

lemma fips_blocks_one: "length xs = n \<Longrightarrow> 0 < n \<Longrightarrow> fips_blocks n xs = [xs]"
  by (simp add: fips_blocks_def)

abbreviation (input) chain512 :: "u64 list \<Rightarrow> byte list \<Rightarrow> u64 list" where
  "chain512 st bs \<equiv> foldl sha512_block st (fips_blocks 128 bs)"

lemma sha512_block_data_order: "sha512_block_data_order st W (length W div 128) = chain512 st W"
proof -
  have "sha512_block_data_order st W n = foldl sha512_block st (map (\<lambda>i. take 128 (drop (128 * i) W)) [0..<n])" for n
  proof (induction n arbitrary: st W)
    case (Suc n)
    have "map (\<lambda>i. take 128 (drop (128 * i) W)) [0..<Suc n] =
        take 128 W # map (\<lambda>i. take 128 (drop (128 * i) (drop 128 W))) [0..<n]"
      unfolding upt_conv_Cons [OF zero_less_Suc] map_Suc_upt [symmetric] by (simp add: add.commute)
    then show ?case using Suc [of "sha512_block st (take 128 W)" "drop 128 W"] by simp
  qed simp
  then show ?thesis by (simp add: fips_blocks_def)
qed

lemma sha512_one_block: "length p = 128 \<Longrightarrow> sha512_block_data_order st p 1 = chain512 st p"
  using sha512_block_data_order [of st p] by simp

lemma chain512_append: "128 dvd length xs \<Longrightarrow> chain512 st (xs @ ys) = chain512 (chain512 st xs) ys"
  by (simp add: fips_blocks_append)

text \<open>The context holds the whole blocks \<open>xs\<close> in its state and the rest \<open>ys\<close> in its buffer.\<close>

definition holds512 :: "u64 list \<Rightarrow> byte list \<Rightarrow> byte list \<Rightarrow> sha512_ctx \<Rightarrow> bool" where
  "holds512 st xs ys c \<longleftrightarrow> 128 dvd length xs \<and> length ys < 128 \<and> sha_h c = chain512 st xs \<and> length (sha_u c) = 128 \<and>
     sha_num c = length ys \<and> take (length ys) (sha_u c) = ys"

definition absorbed512 :: "u64 list \<Rightarrow> byte list \<Rightarrow> sha512_ctx \<Rightarrow> bool" where
  "absorbed512 st bs c \<longleftrightarrow> (\<exists>xs ys. bs = xs @ ys \<and> holds512 st xs ys c) \<and>
     unat (sha_Nh c) * 2 ^ 64 + unat (sha_Nl c) = 8 * length bs mod 2 ^ 128"

lemma sha512_count:
  assumes "unat (sha_Nh c) * 2 ^ 64 + unat (sha_Nl c) = 8 * n mod 2 ^ 128" and "c' = sha512_count len c"
  shows "unat (sha_Nh c') * 2 ^ 64 + unat (sha_Nl c') = 8 * (n + len) mod 2 ^ 128"
    "sha_h c' = sha_h c" "sha_u c' = sha_u c" "sha_num c' = sha_num c" "sha_md_len c' = sha_md_len c"
proof -
  show "sha_h c' = sha_h c" "sha_u c' = sha_u c" "sha_num c' = sha_num c" "sha_md_len c' = sha_md_len c"
    by (simp_all add: assms(2) sha512_count_def Let_def)
  have "sha_Nl c' = sha_Nl c + of_nat (8 * len)"
    by (simp add: assms(2) sha512_count_def Let_def push_bit_eq_mult mult.commute)
  moreover have "8 * len div 2 ^ 64 = len div 2 ^ 61" using div_mult_mult1 [of 8 len "2 ^ 61"] by simp
  then have "sha_Nh c' = (if sha_Nl c' < sha_Nl c then sha_Nh c + 1 else sha_Nh c) + of_nat (8 * len div 2 ^ LENGTH(64))"
    by (simp add: assms(2) sha512_count_def Let_def drop_bit_eq_div)
  ultimately have "unat (sha_Nh c') * 2 ^ 64 + unat (sha_Nl c') = (unat (sha_Nh c) * 2 ^ 64 + unat (sha_Nl c) + 8 * len) mod 2 ^ 128"
    using count_carry [of "sha_Nl c'" "sha_Nl c" "8 * len" "sha_Nh c'" "sha_Nh c"] by simp
  then show "unat (sha_Nh c') * 2 ^ 64 + unat (sha_Nl c') = 8 * (n + len) mod 2 ^ 128"
    unfolding assms(1) mod_add_left_eq by (simp add: algebra_simps)
qed

lemma sha512_blocks:
  assumes "length (sha_u c) = 128" "sha_num c = 0" and "128 dvd length xs" "sha_h c = chain512 st xs"
  obtains c' ys zs where "sha512_blocks c data = Some c'" "data = ys @ zs" "holds512 st (xs @ ys) zs c'"
    "sha_Nh c' = sha_Nh c" "sha_Nl c' = sha_Nl c" "sha_md_len c' = sha_md_len c"
proof -
  let ?n = "length data div 128" let ?m = "length data - length data mod 128"
  define ys zs where "ys = take ?m data" and "zs = drop ?m data"
  have data: "data = ys @ zs" by (simp add: ys_def zs_def)
  have len: "length ys = 128 * ?n" "length zs = length data mod 128"
    by (simp_all add: ys_def minus_mod_eq_mult_div) (simp add: zs_def)
  have h: "sha512_block_data_order (sha_h c) data ?n = chain512 st (xs @ ys)"
  proof -
    have "chain512 (sha_h c) data = chain512 (chain512 (sha_h c) ys) zs" using len by (subst data) (simp add: chain512_append)
    then show ?thesis using len by (simp add: sha512_block_data_order assms(4) fips_blocks_short chain512_append assms(3))
  qed
  let ?c = "c\<lparr>sha_h := chain512 st (xs @ ys)\<rparr>"
  have c: "(if 128 \<le> length data then (c\<lparr>sha_h := sha512_block_data_order (sha_h c) data ?n\<rparr>, drop ?m data) else (c, data)) = (?c, zs)"
  proof (cases "128 \<le> length data")
    case False
    then have "?n = 0" "zs = data" by (simp_all add: zs_def)
    then show ?thesis using False h by simp
  qed (simp add: h zs_def)
  have eq: "sha512_blocks c data = (if zs \<noteq> [] then map_option (\<lambda>c. c\<lparr>sha_num := length zs\<rparr>) (sha512_copy 0 zs ?c) else Some ?c)"
    unfolding sha512_blocks_def Let_def c prod.case ..
  define c' where "c' = (if zs \<noteq> [] then ?c\<lparr>sha_u := zs @ drop (length zs) (sha_u c), sha_num := length zs\<rparr> else ?c)"
  have "length zs < 128" "128 dvd length (xs @ ys)" using len assms(3) by simp_all
  then have "sha512_blocks c data = Some c'" "holds512 st (xs @ ys) zs c'"
    using assms by (simp_all add: eq c'_def sha512_copy_def holds512_def)
  then show thesis using that [OF _ data] by (simp add: c'_def)
qed

lemma update_absorbs_512:
  assumes "absorbed512 st bs c"
  shows "\<exists>c'. SHA512_Update c data = Some c' \<and> absorbed512 st (bs @ data) c' \<and> sha_md_len c' = sha_md_len c"
proof (cases "data = []")
  case True
  then show ?thesis using assms by (simp add: SHA512_Update_def)
next
  case False
  let ?c = "sha512_count (length data) c"
  obtain xs ys where bs: "bs = xs @ ys" and h: "holds512 st xs ys c"
    and n: "unat (sha_Nh c) * 2 ^ 64 + unat (sha_Nl c) = 8 * length bs mod 2 ^ 128"
    using assms unfolding absorbed512_def by blast
  note count = sha512_count [OF n refl, of "length data"]
  have h: "holds512 st xs ys ?c" using h by (simp add: holds512_def count)
  have n: "unat (sha_Nh ?c) * 2 ^ 64 + unat (sha_Nl ?c) = 8 * length (bs @ data) mod 2 ^ 128"
    unfolding length_append by (rule count(1))
  have absorbed: "absorbed512 st (bs @ data) c'"
    if "bs @ data = xs' @ ys'" "holds512 st xs' ys' c'" "sha_Nh c' = sha_Nh ?c" "sha_Nl c' = sha_Nl ?c" for c' xs' ys'
    unfolding absorbed512_def using that n by auto
  consider (short) "ys \<noteq> []" "length data < 128 - length ys" | (fill) "ys \<noteq> []" "128 - length ys \<le> length data" | (empty) "ys = []"
    by linarith
  then show ?thesis
  proof cases
    case short
    let ?c' = "?c\<lparr>sha_u := ys @ data @ drop (length ys + length data) (sha_u ?c), sha_num := length ys + length data\<rparr>"
    have "SHA512_Update c data = Some ?c'"
      using False short h by (simp add: SHA512_Update_def Let_def holds512_def sha512_copy_def)
    moreover have "holds512 st xs (ys @ data) ?c'" using short h by (simp add: holds512_def)
    ultimately show ?thesis using absorbed [of xs "ys @ data" ?c'] bs count(5) by simp
  next
    case fill
    let ?n = "128 - length ys"
    let ?x = "ys @ take ?n data"
    let ?c1 = "?c\<lparr>sha_u := ?x, sha_num := 0, sha_h := sha512_block_data_order (sha_h ?c) ?x 1\<rparr>"
    have x: "length ?x = 128" using fill h by (simp add: holds512_def)
    have upd: "SHA512_Update c data = sha512_blocks ?c1 (drop ?n data)"
      using False fill h by (simp add: SHA512_Update_def Let_def holds512_def sha512_copy_def del: sha512_block_data_order.simps)
    have h1: "sha_h ?c1 = chain512 st (xs @ ?x)"
      using h sha512_one_block [OF x, of "chain512 st xs"] chain512_append [of xs st ?x] by (simp add: holds512_def)
    have c1: "length (sha_u ?c1) = 128" "sha_num ?c1 = 0" using x by simp_all
    have same: "sha_Nh ?c1 = sha_Nh ?c" "sha_Nl ?c1 = sha_Nl ?c" "sha_md_len ?c1 = sha_md_len ?c" by simp_all
    have "128 dvd length (xs @ ?x)" unfolding length_append [of xs] x using h by (simp add: holds512_def)
    then obtain c' vs zs where c': "sha512_blocks ?c1 (drop ?n data) = Some c'" "drop ?n data = vs @ zs"
      "holds512 st ((xs @ ?x) @ vs) zs c'" "sha_Nh c' = sha_Nh ?c" "sha_Nl c' = sha_Nl ?c" "sha_md_len c' = sha_md_len ?c"
      by (rule sha512_blocks [OF c1 _ h1, of "drop ?n data", unfolded same])
    have "bs @ data = ((xs @ ?x) @ vs) @ zs" using c'(2) append_take_drop_id [of ?n data] by (simp add: bs)
    then show ?thesis using absorbed [OF _ c'(3-5)] c'(1,6) upd count(5) by auto
  next
    case empty
    then have "SHA512_Update c data = sha512_blocks ?c data"
      using False h by (simp add: SHA512_Update_def Let_def holds512_def)
    moreover obtain c' vs zs where c': "sha512_blocks ?c data = Some c'" "data = vs @ zs"
      "holds512 st (xs @ vs) zs c'" "sha_Nh c' = sha_Nh ?c" "sha_Nl c' = sha_Nl ?c" "sha_md_len c' = sha_md_len ?c"
      using sha512_blocks [of ?c xs st data] h empty unfolding holds512_def by auto
    ultimately show ?thesis using absorbed [OF _ c'(3-5)] bs empty count(5) by auto
  qed
qed


lemma final_absorbed_512:
  assumes "absorbed512 st bs c"
  shows "\<exists>c'. sha_h c' = chain512 st (pad_message_128 bs) \<and>
    SHA512_Final True c =
      (if sha_md_len c = 48 then Some (words_string_64 (take 6 (sha_h c')), c')
       else if sha_md_len c = 64 then Some (words_string_64 (take 8 (sha_h c')), c') else None)"
proof -
  obtain xs ys where bs: "bs = xs @ ys" and h: "holds512 st xs ys c"
    and n: "unat (sha_Nh c) * 2 ^ 64 + unat (sha_Nl c) = 8 * length bs mod 2 ^ 128"
    using assms unfolding absorbed512_def by blast
  define len where "len = be_bytes 16 (of_nat (8 * length bs) :: 128 word)"
  have len: "be_bytes 8 (sha_Nh c) @ be_bytes 8 (sha_Nl c) = len" "length len = 16"
    using length_bytes_halves [of "sha_Nh c" "sha_Nl c" "8 * length bs" 8, where 'b = 128] n
    by (simp_all add: len_def be_bytes_def flip: rev_append)
  have h: "128 dvd length xs" "length ys < 128" "sha_h c = chain512 st xs" "length (sha_u c) = 128" "sha_num c = length ys"
    "take (length ys) (sha_u c) = ys"
    using h by (simp_all add: holds512_def)
  have mod: "length bs mod 128 = length ys" using h(1,2) by (auto simp: bs elim!: dvdE)
  have "pad_message_128 bs = xs @ (ys @ [0x80] @ replicate ((239 - length ys) mod 128) 0 @ len)"
    unfolding pad_message_128_def len_def [symmetric] mod by (simp add: bs)
  then have pad: "chain512 st (pad_message_128 bs) =
      chain512 (sha_h c) (ys @ [0x80] @ replicate ((239 - length ys) mod 128) 0 @ len)"
    using chain512_append [OF h(1), of st "ys @ [0x80] @ replicate ((239 - length ys) mod 128) 0 @ len"]
    by (simp only: h(3))
  show ?thesis
  proof (cases "112 < length ys + 1")
    case True
    let ?x = "ys @ [0x80] @ replicate (127 - length ys) 0" and ?y = "replicate 112 0 @ len"
    have x: "length ?x = 128" "length ?y = 128" using h(2) len by simp_all
    have "(239 - length ys) mod 128 = (127 - length ys) + 112" using True h(2) by simp
    then have split: "ys @ [0x80] @ replicate ((239 - length ys) mod 128) 0 @ len = ?x @ ?y"
      by (simp only: replicate_add) simp
    let ?st = "sha512_block_data_order (sha512_block_data_order (sha_h c) ?x 1) ?y 1"
    let ?c = "c\<lparr>sha_h := ?st, sha_u := ?y\<rparr>"
    have "chain512 st (pad_message_128 bs) = ?st"
      unfolding pad split using x chain512_append [of ?x "sha_h c" ?y]
      by (simp only: sha512_one_block dvd_refl)
    moreover have "SHA512_Final True c =
      (if sha_md_len c = 48 then Some (words_string_64 (take 6 ?st), ?c)
       else if sha_md_len c = 64 then Some (words_string_64 (take 8 ?st), ?c) else None)"
      using True h len
      by (simp add: SHA512_Final_def Let_def words_string_64_def del: sha512_block_data_order.simps)
    ultimately show ?thesis by (intro exI [of _ ?c]) simp
  next
    case False
    let ?x = "ys @ [0x80] @ replicate (111 - length ys) 0 @ len"
    have x: "length ?x = 128" using False len by simp
    have "239 - length ys = 111 - length ys + 128" using False by simp
    then have "(239 - length ys) mod 128 = (111 - length ys) mod 128" by (simp only: mod_add_self2)
    then have split: "ys @ [0x80] @ replicate ((239 - length ys) mod 128) 0 @ len = ?x" by simp
    let ?st = "sha512_block_data_order (sha_h c) ?x 1"
    let ?c = "c\<lparr>sha_h := ?st, sha_u := ?x\<rparr>"
    have "chain512 st (pad_message_128 bs) = ?st" unfolding pad split sha512_one_block [OF x] ..
    moreover have "SHA512_Final True c =
      (if sha_md_len c = 48 then Some (words_string_64 (take 6 ?st), ?c)
       else if sha_md_len c = 64 then Some (words_string_64 (take 8 ?st), ?c) else None)"
      using False h len by (simp add: SHA512_Final_def Let_def words_string_64_def del: sha512_block_data_order.simps)
    ultimately show ?thesis by (intro exI [of _ ?c]) simp
  qed
qed

text \<open>The state after a padded message is the hash of the standard.\<close>

lemma chain512_fips:
  assumes "length st = 8"
  shows "chain512 st bs = foldl fips512_compress st (fips_blocks 128 bs)" "length (chain512 st bs) = 8"
proof -
  have "foldl sha512_block st bss = foldl fips512_compress st bss \<and> length (foldl sha512_block st bss) = 8" for bss
    using assms
  proof (induction bss arbitrary: st)
    case (Cons b bss)
    then show ?case using sha512_block [OF Cons(2), of b] Cons(1) [of "sha512_block st b"] by simp
  qed simp
  from this [of "fips_blocks 128 bs"]
  show "chain512 st bs = foldl fips512_compress st (fips_blocks 128 bs)" "length (chain512 st bs) = 8" by blast+
qed

lemma final_fips_512:
  assumes "absorbed512 st bs c" and "length st = 8"
  shows "sha_md_len c = 48 \<Longrightarrow> \<exists>c'. SHA512_Final True c = Some (words_string_64 (take 6 (fips512_hash st bs)), c')"
    "sha_md_len c = 64 \<Longrightarrow> \<exists>c'. SHA512_Final True c = Some (words_string_64 (fips512_hash st bs), c')"
  using final_absorbed_512 [OF assms(1)] chain512_fips [OF assms(2), of "pad_message_128 bs"]
  by (auto simp: fips512_hash_def)

lemma init_absorbed_512:
  assumes "length (sha_u c) = 128"
  shows "absorbed512 (sha_h (SHA512_Init c)) [] (SHA512_Init c)" "absorbed512 (sha_h (SHA384_Init c)) [] (SHA384_Init c)"
    "length (sha_h (SHA512_Init c)) = 8" "length (sha_h (SHA384_Init c)) = 8"
  using assms
  by (simp_all add: absorbed512_def holds512_def SHA512_Init_def SHA384_Init_def fips_blocks_short)

lemma update_all_absorbs_512:
  assumes "absorbed512 st bs c"
  shows "\<exists>c'. update_all SHA512_Update c ds = Some c' \<and> absorbed512 st (bs @ concat ds) c' \<and> sha_md_len c' = sha_md_len c"
  using assms
proof (induction ds arbitrary: bs c)
  case (Cons d ds)
  obtain c' where "SHA512_Update c d = Some c'" "absorbed512 st (bs @ d) c'" "sha_md_len c' = sha_md_len c"
    using update_absorbs_512 [OF Cons(2)] by blast
  then show ?case using Cons(1) [of "bs @ d" c'] by auto
qed simp

lemma sha512_is_fips:
  assumes "length (sha_u ctx) = 128"
  shows "\<exists>c c'. update_all SHA512_Update (SHA512_Init ctx) ds = Some c \<and>
      SHA512_Final True c = Some (words_string_64 (fips512_hash (sha_h (SHA512_Init ctx)) (concat ds)), c')"
    "\<exists>c c'. update_all SHA384_Update (SHA384_Init ctx) ds = Some c \<and>
      SHA384_Final True c = Some (words_string_64 (take 6 (fips512_hash (sha_h (SHA384_Init ctx)) (concat ds))), c')"
proof -
  note init = init_absorbed_512 [OF assms]
  have len: "sha_md_len (SHA512_Init ctx) = 64" "sha_md_len (SHA384_Init ctx) = 48"
    by (simp_all add: SHA512_Init_def SHA384_Init_def)
  show "\<exists>c c'. update_all SHA512_Update (SHA512_Init ctx) ds = Some c \<and>
      SHA512_Final True c = Some (words_string_64 (fips512_hash (sha_h (SHA512_Init ctx)) (concat ds)), c')"
    using update_all_absorbs_512 [OF init(1), of ds] final_fips_512(2) [OF _ init(3)] len by fastforce
  have same: "SHA384_Update = SHA512_Update" "SHA384_Final = SHA512_Final"
    by (simp_all add: fun_eq_iff SHA384_Update_def SHA384_Final_def)
  show "\<exists>c c'. update_all SHA384_Update (SHA384_Init ctx) ds = Some c \<and>
      SHA384_Final True c = Some (words_string_64 (take 6 (fips512_hash (sha_h (SHA384_Init ctx)) (concat ds))), c')"
    unfolding same using update_all_absorbs_512 [OF init(2), of ds] final_fips_512(1) [OF _ init(4)] len by fastforce
qed

text \<open>C30: whatever the message and the pieces that it is passed in, the initialisation, the updates and the end of
  SHA-1, SHA-224, SHA-256, SHA-384 and SHA-512 compute the functions of FIPS 180-4; the last two from a context
  with anything in its buffer.\<close>

theorem sha_is_fips:
  assumes "length (sha_u ctx) = 128"
  shows "(\<exists>c c'. update_all SHA1_Update SHA1_Init ds = Some c \<and>
      SHA1_Final c = Some (words_string (fips_hash fips1_compress (hash_h SHA1_Init) (concat ds)), c')) \<and>
   (\<exists>c c'. update_all SHA224_Update SHA224_Init ds = Some c \<and>
      SHA224_Final c = Some (words_string (take 7 (fips_hash fips256_compress (hash_h SHA224_Init) (concat ds))), c')) \<and>
   (\<exists>c c'. update_all SHA256_Update SHA256_Init ds = Some c \<and>
      SHA256_Final c = Some (words_string (fips_hash fips256_compress (hash_h SHA256_Init) (concat ds)), c')) \<and>
   (\<exists>c c'. update_all SHA384_Update (SHA384_Init ctx) ds = Some c \<and>
      SHA384_Final True c = Some (words_string_64 (take 6 (fips512_hash (sha_h (SHA384_Init ctx)) (concat ds))), c')) \<and>
   (\<exists>c c'. update_all SHA512_Update (SHA512_Init ctx) ds = Some c \<and>
      SHA512_Final True c = Some (words_string_64 (fips512_hash (sha_h (SHA512_Init ctx)) (concat ds)), c'))"
  using sha32_is_fips [of ds] sha512_is_fips [OF assms, of ds] by blast

lemma sha_is_fips_witness:
  "length (sha_u \<lparr>sha_h = [], sha_Nl = 0, sha_Nh = 0, sha_u = replicate 128 1, sha_num = 0, sha_md_len = 0\<rparr>) = 128 \<and>
   (\<exists>c c'. update_all SHA256_Update SHA256_Init [[1], [2, 3]] = Some c \<and>
      SHA256_Final c = Some (words_string (fips_hash fips256_compress (hash_h SHA256_Init) [1, 2, 3]), c'))"
  using sha_is_fips [of "\<lparr>sha_h = [], sha_Nl = 0, sha_Nh = 0, sha_u = replicate 128 1, sha_num = 0, sha_md_len = 0\<rparr>" "[[1], [2, 3]]"]
  by simp

end
