(* ===== verification/Digest_Spec.thy ===== *)
theory Digest_Spec
  imports Digest Md5_Spec Sha512_Spec
begin

text \<open>
  What the interface promises: a context whose digest is \<open>md\<close> collects a message and returns the value of the
  standard's function at it. The contract of the tables is the locale \<open>digest_method\<close>, with one interpretation
  for each of them.
\<close>

section \<open>The contract of a table\<close>

locale digest_method =
  fixes md :: evp_md
    and held :: "byte list \<Rightarrow> md_data \<Rightarrow> bool" and fits :: "md_data \<Rightarrow> bool" and hash :: "byte list \<Rightarrow> byte list"
  assumes init: "fits d \<Longrightarrow> \<exists>d'. md_init (evp_method md) d = Some d' \<and> held [] d'"
    and update: "held bs d \<Longrightarrow> \<exists>d'. md_update (evp_method md) d data = Some d' \<and> held (bs @ data) d'"
    and final: "held bs d \<Longrightarrow> \<exists>d'. md_final (evp_method md) d = Some (hash bs, d')"
    and raw: "length bs = md_ctx_size (evp_method md) \<Longrightarrow> fits (Raw bs)"
    and held_fits: "held bs d \<Longrightarrow> fits d"
    and length_hash: "length (hash bs) = md_size (evp_method md)"
    and sizes: "md_size (evp_method md) \<le> 64" "md_size (evp_method md) \<le> md_block_size (evp_method md)"
      "md_block_size (evp_method md) \<le> 128" "0 < md_ctx_size (evp_method md)"
begin

text \<open>A message in pieces.\<close>

lemma pieces:
  "held bs d \<Longrightarrow> \<exists>d'. update_all (md_update (evp_method md)) d ds = Some d' \<and> held (bs @ concat ds) d'"
proof (induction ds arbitrary: bs d)
  case (Cons x ds)
  obtain d' where "md_update (evp_method md) d x = Some d'" "held (bs @ x) d'" using update [OF Cons(2)] by blast
  then show ?case using Cons(1) [of "bs @ x" d'] by auto
qed simp

end

section \<open>The hash functions\<close>

definition sha384_H :: "u64 list" where "sha384_H = sha_h (SHA384_Init (raw_sha512 []))"
definition sha512_H :: "u64 list" where "sha512_H = sha_h (SHA512_Init (raw_sha512 []))"

lemma sha512_H: "sha_h (SHA384_Init c) = sha384_H" "sha_h (SHA512_Init c) = sha512_H"
  by (simp_all add: sha384_H_def sha512_H_def SHA384_Init_def SHA512_Init_def)

text \<open>The functions of RFC 1320, RFC 1321 and FIPS 180-4.\<close>

fun digest_of :: "evp_md \<Rightarrow> byte list \<Rightarrow> byte list" where
  "digest_of EVP_md4 bs = md_hash rfc1320_compress bs"
| "digest_of EVP_md5 bs = md_hash rfc1321_compress bs"
| "digest_of EVP_sha1 bs = words_string (fips_hash fips1_compress (hash_h SHA1_Init) bs)"
| "digest_of EVP_sha224 bs = words_string (take 7 (fips_hash fips256_compress (hash_h SHA224_Init) bs))"
| "digest_of EVP_sha256 bs = words_string (fips_hash fips256_compress (hash_h SHA256_Init) bs)"
| "digest_of EVP_sha384 bs = words_string_64 (take 6 (fips512_hash sha384_H bs))"
| "digest_of EVP_sha512 bs = words_string_64 (fips512_hash sha512_H bs)"
| "digest_of EVP_md5_sha1 bs =
     md_hash rfc1321_compress bs @ words_string (fips_hash fips1_compress (hash_h SHA1_Init) bs)"

text \<open>The memory has the type of the state of \<open>md\<close>, or is untyped and large enough.\<close>

fun fits :: "evp_md \<Rightarrow> md_data \<Rightarrow> bool" where
  "fits md (Raw bs) \<longleftrightarrow> length bs = md_ctx_size (evp_method md)"
| "fits md (Md4_ctx c) \<longleftrightarrow> md = EVP_md4"
| "fits md (Md5_ctx c) \<longleftrightarrow> md = EVP_md5"
| "fits md (Sha_ctx c) \<longleftrightarrow> md = EVP_sha1"
| "fits md (Sha256_ctx c) \<longleftrightarrow> md = EVP_sha224 \<or> md = EVP_sha256"
| "fits md (Sha512_ctx c) \<longleftrightarrow> (md = EVP_sha384 \<or> md = EVP_sha512) \<and> length (sha_u c) = 128"
| "fits md (Md5_sha1_ctx c5 c1) \<longleftrightarrow> md = EVP_md5_sha1"

text \<open>The memory holds the state of \<open>md\<close> after a message.\<close>

fun held :: "evp_md \<Rightarrow> byte list \<Rightarrow> md_data \<Rightarrow> bool" where
  "held EVP_md4 bs (Md4_ctx c) \<longleftrightarrow> absorbed md4_md32 (hash_h MD4_Init) bs c"
| "held EVP_md5 bs (Md5_ctx c) \<longleftrightarrow> absorbed md5_md32 (hash_h MD5_Init) bs c"
| "held EVP_sha1 bs (Sha_ctx c) \<longleftrightarrow> absorbed sha1_md32 (hash_h SHA1_Init) bs c"
| "held EVP_sha224 bs (Sha256_ctx c) \<longleftrightarrow> absorbed sha256_md32 (hash_h SHA224_Init) bs c \<and> md_len c = 28"
| "held EVP_sha256 bs (Sha256_ctx c) \<longleftrightarrow> absorbed sha256_md32 (hash_h SHA256_Init) bs c \<and> md_len c = 32"
| "held EVP_sha384 bs (Sha512_ctx c) \<longleftrightarrow> absorbed512 sha384_H bs c \<and> sha_md_len c = 48"
| "held EVP_sha512 bs (Sha512_ctx c) \<longleftrightarrow> absorbed512 sha512_H bs c \<and> sha_md_len c = 64"
| "held EVP_md5_sha1 bs (Md5_sha1_ctx c5 c1) \<longleftrightarrow> 
     absorbed md5_md32 (hash_h MD5_Init) bs c5 \<and> absorbed sha1_md32 (hash_h SHA1_Init) bs c1"
| "held _ bs _ \<longleftrightarrow> False"

fun_cases heldE: "held EVP_md4 bs d" "held EVP_md5 bs d" "held EVP_sha1 bs d" "held EVP_sha224 bs d" "held EVP_sha256 bs d"
  "held EVP_sha384 bs d" "held EVP_sha512 bs d" "held EVP_md5_sha1 bs d"

text \<open>The five functions over \<open>md32_common.h\<close>.\<close>

lemma update_md32: "absorbed alg st bs c \<Longrightarrow> \<exists>c'. HASH_UPDATE alg c data = Some c' \<and> absorbed alg st (bs @ data) c' \<and> md_len c' = md_len c"
  by (rule update_absorbs)

lemma final_sha1:
  assumes "absorbed sha1_md32 (hash_h SHA1_Init) bs c"
  shows "\<exists>c'. SHA1_Final c = Some (digest_of EVP_sha1 bs, c')"
  using final_fips [OF assms, of 5 fips1_compress] sha1_block
  by (auto simp: SHA1_Final_def sha1_md32_def SHA1_MAKE_STRING_def SHA1_Init_def)

lemma final_sha256:
  assumes "absorbed sha256_md32 st bs c" and "length st = 8"
  shows "md_len c = 28 \<Longrightarrow> \<exists>c'. SHA224_Final c = Some (words_string (take 7 (fips_hash fips256_compress st bs)), c')"
    "md_len c = 32 \<Longrightarrow> \<exists>c'. SHA256_Final c = Some (words_string (fips_hash fips256_compress st bs), c')"
  using final_fips [OF assms, of fips256_compress] sha256_block
  by (auto simp: SHA224_Final_def SHA256_Final_def sha256_md32_def SHA256_MAKE_STRING_def)

lemma length_words: "length (words_string ws) = 4 * length ws" "length (words_string_le ws) = 4 * length ws"
  "length (words_string_64 vs) = 8 * length vs"
  by (induction ws; simp add: words_string_def words_string_le_def)+ (induction vs; simp add: words_string_64_def)

lemma length_foldl: "length st = n \<Longrightarrow> (\<And>st b. length st = n \<Longrightarrow> length (f st b) = n) \<Longrightarrow> length (foldl f st bs) = n"
  by (induction bs arbitrary: st) simp_all

lemma length_digest_of: "length (digest_of md bs) = md_size (evp_method md)"
proof -
  have md: "length (md_hash f bs) = 16" if "\<And>st b. length st = 4 \<Longrightarrow> length (f st b) = 4" for f
    using that by (simp add: md_hash_def length_words length_foldl)
  have 5: "length (md_hash rfc1321_compress bs) = 16" "length (md_hash rfc1320_compress bs) = 16"
    by (intro md; use md5_block md4_block in metis)+
  have 1: "length (fips_hash fips1_compress (hash_h SHA1_Init) bs) = 5"
    unfolding fips_hash_def by (rule length_foldl) (use sha1_block in \<open>auto simp: SHA1_Init_def\<close>)
  have 256: "length (fips_hash fips256_compress (hash_h c) bs) = 8" if "length (hash_h c) = 8" for c
    unfolding fips_hash_def by (rule length_foldl [OF that]) (use sha256_block in auto)
  have 512: "length (fips512_hash st bs) = 8" if "length st = 8" for st
    unfolding fips512_hash_def by (rule length_foldl [OF that]) (use sha512_block in auto)
  have H: "length (hash_h SHA224_Init) = 8" "length (hash_h SHA256_Init) = 8" "length sha384_H = 8" "length sha512_H = 8"
    by (simp_all add: SHA224_Init_def SHA256_Init_def sha384_H_def sha512_H_def SHA384_Init_def SHA512_Init_def)
  show ?thesis by (cases md) (simp_all add: 5 1 256 512 H length_words)
qed

lemma md_lens: "md_len SHA224_Init = 28" "md_len SHA256_Init = 32"
  by (simp_all add: SHA224_Init_def SHA256_Init_def)

lemma init_held: "fits md d \<Longrightarrow> \<exists>d'. md_init (evp_method md) d = Some d' \<and> held md [] d'"
proof (cases md)
  assume "fits md d" "md = EVP_sha384"
  then show ?thesis
    by (cases d) (auto simp: raw_sha512_def absorbed512_def holds512_def fips_blocks_short SHA384_Init_def sha384_H_def)
next
  assume "fits md d" "md = EVP_sha512"
  then show ?thesis
    by (cases d) (auto simp: raw_sha512_def absorbed512_def holds512_def fips_blocks_short SHA512_Init_def sha512_H_def)
qed (simp_all add: init_absorbed init_absorbed_md md4_init_def md5_init_def sha1_init_def sha224_init_def sha256_init_def
    md5_sha1_init_def md_lens)

lemmas update_defs = MD4_Update_def MD5_Update_def SHA1_Update_def SHA224_Update_def SHA256_Update_def SHA384_Update_def

lemma update_held:
  assumes "held md bs d"
  shows "\<exists>d'. md_update (evp_method md) d data = Some d' \<and> held md (bs @ data) d'"
  using assms
  by (cases md; cases d; simp add: update_defs)
    (fastforce dest: update_absorbs [of _ _ _ _ data] update_absorbs_512 [of _ _ _ data])+

lemma final_held:
  assumes "held md bs d"
  shows "\<exists>d'. md_final (evp_method md) d = Some (digest_of md bs, d')"
proof -
  have H: "length (hash_h SHA224_Init) = 8" "length (hash_h SHA256_Init) = 8" "length sha384_H = 8" "length sha512_H = 8"
    by (simp_all add: SHA224_Init_def SHA256_Init_def sha384_H_def sha512_H_def SHA384_Init_def SHA512_Init_def)
  note finals = md4_is_rfc md5_is_rfc final_sha1 final_sha256(1) [OF _ H(1)] final_sha256(2) [OF _ H(2)]
    final_fips_512(1) [OF _ H(3)] final_fips_512(2) [OF _ H(4)]
  show ?thesis
    using assms by (cases md; cases d; simp add: SHA384_Final_def) (fastforce dest: finals)+
qed

lemma held_fits: "held md bs d \<Longrightarrow> fits md d"
  by (cases md; cases d) (auto simp: absorbed512_def holds512_def)

lemma evp_contract: "digest_method md (held md) (fits md) (digest_of md)"
proof
  show "md_size (evp_method md) \<le> 64" "md_size (evp_method md) \<le> md_block_size (evp_method md)"
    "md_block_size (evp_method md) \<le> 128" "0 < md_ctx_size (evp_method md)"
    by (cases md; simp)+
qed (simp_all add: init_held update_held final_held held_fits length_digest_of)

interpretation evp: digest_method md "held md" "fits md" "digest_of md" for md
  by (rule evp_contract)

section \<open>Contexts\<close>

text \<open>A context has memory of the type of its digest; a live one has been initialised and has collected \<open>bs\<close>.\<close>

definition pctx_ok :: "'p evp_md_ctx \<Rightarrow> bool" where
  "pctx_ok ctx \<longleftrightarrow> md_pctx ctx = None \<or> md_pctx_ops ctx \<noteq> None"

definition typed :: "'p evp_md_ctx \<Rightarrow> bool" where
  "typed ctx \<longleftrightarrow> pctx_ok ctx \<and>
     (case md_digest ctx of None \<Rightarrow> md_mem ctx = None | Some md \<Rightarrow> (\<exists>d. md_mem ctx = Some d \<and> fits md d))"

definition live :: "evp_md \<Rightarrow> byte list \<Rightarrow> 'p evp_md_ctx \<Rightarrow> bool" where
  "live md bs ctx \<longleftrightarrow> pctx_ok ctx \<and> md_digest ctx = Some md \<and> (\<exists>d. md_mem ctx = Some d \<and> held md bs d)"

definition block_of :: "evp_md \<Rightarrow> byte list option \<Rightarrow> bool" where
  "block_of md mem \<longleftrightarrow> (case mem of None \<Rightarrow> True | Some bs \<Rightarrow> length bs = md_ctx_size (evp_method md))"

lemma live_typed: "live md bs ctx \<Longrightarrow> typed ctx"
  using evp.held_fits by (auto simp: live_def typed_def)

lemma typed_init [simp]: "typed EVP_MD_CTX_init" "md_digest EVP_MD_CTX_init = None" "md_pctx EVP_MD_CTX_init = None"
  by (simp_all add: typed_def pctx_ok_def EVP_MD_CTX_init_def)

lemma DigestInit_ex:
  assumes "typed ctx" and "block_of md mem"
  shows "(\<exists>ctx'. EVP_DigestInit_ex mem (Some md) ctx = Ok () ctx' \<and> live md [] ctx' \<and> md_pctx ctx' = md_pctx ctx) \<or>
    mem = None \<and> md_digest ctx \<noteq> Some md \<and> EVP_DigestInit_ex mem (Some md) ctx = Fail ctx"
proof -
  have ok: "pctx_ok ctx" using assms(1) by (simp add: typed_def)
  have start: "\<exists>ctx'. (case Option.bind (md_mem c) (md_init (evp_method md)) of None \<Rightarrow> UB | Some d \<Rightarrow> Ok () (c\<lparr>md_mem := Some d\<rparr>)) =
      Ok () ctx' \<and> live md [] ctx' \<and> md_pctx ctx' = md_pctx c"
    if "md_mem c = Some d" "fits md d" "md_digest c = Some md" "pctx_ok c" for c :: "'a evp_md_ctx" and d
    using evp.init [OF that(2)] that by (auto simp: live_def pctx_ok_def)
  show ?thesis
  proof (cases "md_digest ctx = Some md")
    case True
    then obtain d where "md_mem ctx = Some d" "fits md d" using assms(1) by (auto simp: typed_def)
    then show ?thesis using start True ok by (auto simp: EVP_DigestInit_ex_def pctx_ok_def)
  next
    case False
    show ?thesis
    proof (cases mem)
      case None
      then show ?thesis using False evp.sizes(4) [of md] by (simp add: EVP_DigestInit_ex_def)
    next
      case (Some bs)
      let ?c = "ctx\<lparr>md_mem := Some (Raw bs), md_digest := Some md\<rparr>"
      have "fits md (Raw bs)" using assms(2) Some by (simp add: block_of_def)
      then show ?thesis
        using start [of ?c "Raw bs"] ok False Some evp.sizes(4) [of md] by (auto simp: EVP_DigestInit_ex_def pctx_ok_def)
    qed
  qed
qed

lemma DigestUpdate:
  assumes "live md bs ctx"
  shows "\<exists>ctx'. EVP_DigestUpdate data ctx = Ok () ctx' \<and> live md (bs @ data) ctx' \<and> md_pctx ctx' = md_pctx ctx"
proof -
  obtain d where d: "md_digest ctx = Some md" "md_mem ctx = Some d" "held md bs d" "pctx_ok ctx" using assms by (auto simp: live_def)
  obtain d' where "md_update (evp_method md) d data = Some d'" "held md (bs @ data) d'" using evp.update [OF d(3)] by blast
  then show ?thesis using d by (auto simp: EVP_DigestUpdate_def live_def pctx_ok_def)
qed

lemma DigestFinal_ex:
  assumes "live md bs ctx"
  shows "\<exists>ctx'. EVP_DigestFinal_ex ctx = Ok (digest_of md bs) ctx' \<and> typed ctx' \<and> md_digest ctx' = Some md \<and>
    md_pctx ctx' = md_pctx ctx"
proof -
  obtain d where d: "md_digest ctx = Some md" "md_mem ctx = Some d" "held md bs d" "pctx_ok ctx" using assms by (auto simp: live_def)
  obtain d' where "md_final (evp_method md) d = Some (digest_of md bs, d')" using evp.final [OF d(3)] by blast
  then show ?thesis using d evp.sizes(1) [of md] by (auto simp: EVP_DigestFinal_ex_def typed_def pctx_ok_def)
qed

lemma DigestFinal:
  assumes "live md bs ctx"
  shows "EVP_DigestFinal ctx = Ok (digest_of md bs) EVP_MD_CTX_init"
  using DigestFinal_ex [OF assms] by (auto simp: EVP_DigestFinal_def EVP_MD_CTX_cleanup_def typed_def pctx_ok_def)

text \<open>Copies, as the code makes them of contexts without a \<open>pctx\<close>.\<close>

lemma MD_CTX_copy_ex:
  assumes "typed out" and "live md bs inp" "md_pctx inp = None"
  shows "(\<exists>out'. EVP_MD_CTX_copy_ex mem out (Some inp) = Ok () out' \<and> live md bs out' \<and> md_pctx out' = None) \<or>
    mem = None \<and> md_digest out \<noteq> Some md \<and> EVP_MD_CTX_copy_ex mem out (Some inp) = Fail out"
proof -
  obtain d where d: "md_digest inp = Some md" "md_mem inp = Some d" "held md bs d" using assms by (auto simp: live_def)
  have clean: "EVP_MD_CTX_cleanup c = Ok () EVP_MD_CTX_init" if "pctx_ok c" for c :: "'a evp_md_ctx"
    using that by (simp add: EVP_MD_CTX_cleanup_def pctx_ok_def)
  have ok: "pctx_ok out" "pctx_ok (out\<lparr>md_mem := None\<rparr>)" using assms(1) by (simp_all add: typed_def pctx_ok_def)
  show ?thesis
  proof (cases "md_digest out = Some md")
    case True
    then obtain e where "md_mem out = Some e" using assms(1) by (auto simp: typed_def)
    then show ?thesis
      using True d assms(3) clean [OF ok(2)] by (simp add: EVP_MD_CTX_copy_ex_def live_def pctx_ok_def)
  next
    case False
    then show ?thesis
      using d assms(3) clean [OF ok(1)] evp.sizes(4) [of md]
      by (cases mem) (simp_all add: EVP_MD_CTX_copy_ex_def live_def pctx_ok_def)
  qed
qed

lemma cleanup_ok: "pctx_ok ctx \<Longrightarrow> EVP_MD_CTX_cleanup ctx = Ok () EVP_MD_CTX_init"
  by (simp add: EVP_MD_CTX_cleanup_def pctx_ok_def)

lemma typed_pctx: "typed ctx \<Longrightarrow> pctx_ok ctx"
  by (simp add: typed_def)

text \<open>The digest of a buffer.\<close>

lemma EVP_Digest_ok:
  assumes "block_of md mem"
  shows "EVP_Digest mem data (Some md) =
    (if mem = None then Fail EVP_MD_CTX_init else Ok (digest_of md data) (EVP_MD_CTX_init :: 'p evp_md_ctx))"
proof -
  let ?c = "EVP_MD_CTX_init :: 'p evp_md_ctx"
  note clean = cleanup_ok [OF typed_pctx]
  consider (ok) c where "mem \<noteq> None" "EVP_DigestInit_ex mem (Some md) ?c = Ok () c" "live md [] c"
    | (fail) "mem = None" "EVP_DigestInit_ex mem (Some md) ?c = Fail ?c"
  proof (cases "mem = None")
    case True
    then show thesis using fail evp.sizes(4) [of md] by (simp add: EVP_DigestInit_ex_def)
  next
    case False
    then show thesis using ok DigestInit_ex [of ?c md mem] assms by auto
  qed
  then show ?thesis
  proof cases
    case ok
    obtain c1 where c1: "EVP_DigestUpdate data c = Ok () c1" "live md data c1" using DigestUpdate [OF ok(3), of data] by auto
    obtain c2 where c2: "EVP_DigestFinal_ex c1 = Ok (digest_of md data) c2" "typed c2" using DigestFinal_ex [OF c1(2)] by blast
    show ?thesis using ok(1) c1(1) c2(1) clean [OF c2(2)] unfolding EVP_Digest_def ok(2) by simp
  next
    case fail
    then show ?thesis using clean [of ?c] by (simp add: EVP_Digest_def)
  qed
qed

section \<open>Types\<close>

text \<open>An operation that comes to an end leaves a context whose memory has the type of its digest.\<close>

definition ends_typed :: "('a, 'p evp_md_ctx) res \<Rightarrow> bool" where
  "ends_typed r \<longleftrightarrow> (case r of Ok _ c \<Rightarrow> typed c | Fail c \<Rightarrow> typed c | _ \<Rightarrow> False)"

lemma copy_typed:
  assumes "typed out" "typed inp" and "\<And>md. md_digest inp = Some md \<Longrightarrow> block_of md mem"
  shows "ends_typed (EVP_MD_CTX_copy_ex mem out (Some inp))"
proof (cases "md_digest inp")
  case None
  then show ?thesis using assms(1) by (simp add: EVP_MD_CTX_copy_ex_def ends_typed_def)
next
  case (Some md)
  then obtain d where d: "md_mem inp = Some d" "fits md d" using assms(2) by (auto simp: typed_def)
  note clean = cleanup_ok
  have ok: "pctx_ok out" "pctx_ok (out\<lparr>md_mem := None\<rparr>)" "pctx_ok inp" using assms by (simp_all add: typed_def pctx_ok_def)
  let ?p = "Option.bind (md_pctx inp) (\<lambda>p. Option.bind (md_pctx_ops inp) (\<lambda>dup. dup p))"
  let ?c = "EVP_MD_CTX_init\<lparr>md_digest := Some md, md_mem := Some d, md_pctx := ?p, md_pctx_ops := md_pctx_ops inp\<rparr>"
  have c: "typed ?c" using d ok(3) by (cases "md_pctx inp") (auto simp: typed_def pctx_ok_def)
  have no_pctx: "\<not> (md_pctx inp \<noteq> None \<and> md_pctx_ops inp = None)" using ok(3) by (simp add: pctx_ok_def)
  show ?thesis
  proof (cases "md_pctx inp \<noteq> None \<and> ?p = None")
    case True
    then show ?thesis using Some no_pctx assms(1) by (simp add: EVP_MD_CTX_copy_ex_def ends_typed_def)
  next
    case dup: False
    show ?thesis
    proof (cases "md_digest out = Some md")
      case True
      then obtain e where "md_mem out = Some e" using assms(1) by (auto simp: typed_def)
      then show ?thesis
        using True Some no_pctx dup d(1) clean [OF ok(2)] c assms(1) by (simp add: EVP_MD_CTX_copy_ex_def ends_typed_def Let_def)
    next
      case False
      then show ?thesis
        using Some no_pctx dup d(1) clean [OF ok(1)] c assms(1) evp.sizes(4) [of md]
        by (cases mem) (simp_all add: EVP_MD_CTX_copy_ex_def ends_typed_def Let_def)
    qed
  qed
qed

text \<open>C31: the context of a message digest is well typed. Memory that \<open>OPENSSL_malloc\<close> has returned for another
  function, or with other contents, is never taken for the state of the current one: initialising, copying and
  cleaning a well-typed context, and updating and finishing a live one, neither run into undefined behaviour nor
  leave memory of another type, also if an allocation or the copy of the opaque \<open>pctx\<close> fails; and a digest has
  the size that \<open>EVP_MD_size\<close> announces.\<close>

theorem evp_context_typed:
  fixes ctx out lv :: "'p evp_md_ctx"
  assumes "typed ctx" "typed out" and "block_of md mem" and "live md bs lv"
  shows "ends_typed (EVP_DigestInit_ex mem (Some md) ctx) \<and> ends_typed (EVP_MD_CTX_copy_ex mem out (Some lv)) \<and>
    ends_typed (EVP_MD_CTX_copy_ex mem out None) \<and>
    ends_typed (EVP_MD_CTX_cleanup ctx) \<and> ends_typed (EVP_MD_CTX_reset ctx) \<and>
    ends_typed (EVP_DigestUpdate data lv) \<and> ends_typed (EVP_DigestFinal_ex lv) \<and> ends_typed (EVP_DigestFinal lv) \<and>
    ends_typed (EVP_Digest mem data (Some md) :: (byte list, 'p evp_md_ctx) res) \<and>
    (\<exists>d c. EVP_DigestFinal_ex lv = Ok d c \<and> length d = EVP_MD_size md \<and> EVP_MD_size md \<le> 64)"
proof (intro conjI)
  show "ends_typed (EVP_DigestInit_ex mem (Some md) ctx)"
    using DigestInit_ex [OF assms(1,3)] live_typed assms(1) by (auto simp: ends_typed_def)
  have "md_digest lv = Some md" using assms(4) by (simp add: live_def)
  then show "ends_typed (EVP_MD_CTX_copy_ex mem out (Some lv))"
    using copy_typed [OF assms(2) live_typed [OF assms(4)]] assms(3) by auto
  show "ends_typed (EVP_MD_CTX_copy_ex mem out None)" using assms(2) by (simp add: EVP_MD_CTX_copy_ex_def ends_typed_def)
  show "ends_typed (EVP_MD_CTX_cleanup ctx)" "ends_typed (EVP_MD_CTX_reset ctx)"
    using cleanup_ok [OF typed_pctx [OF assms(1)]] by (simp_all add: EVP_MD_CTX_reset_def ends_typed_def)
  show "ends_typed (EVP_DigestUpdate data lv)"
    using DigestUpdate [OF assms(4), of data] live_typed by (auto simp: ends_typed_def)
  show "ends_typed (EVP_DigestFinal_ex lv)" using DigestFinal_ex [OF assms(4)] by (auto simp: ends_typed_def)
  show "ends_typed (EVP_DigestFinal lv)" using DigestFinal [OF assms(4)] by (simp add: ends_typed_def)
  show "ends_typed (EVP_Digest mem data (Some md) :: (byte list, 'p evp_md_ctx) res)"
    unfolding EVP_Digest_ok [OF assms(3)] by (simp add: ends_typed_def)
  show "\<exists>d c. EVP_DigestFinal_ex lv = Ok d c \<and> length d = EVP_MD_size md \<and> EVP_MD_size md \<le> 64"
    using DigestFinal_ex [OF assms(4)] length_digest_of [of md] evp.sizes(1) [of md] by (auto simp: EVP_MD_size_def)
qed

definition sha1_context :: "unit evp_md_ctx" where
  "sha1_context = \<lparr>md_digest = Some EVP_sha1, md_mem = Some (Sha_ctx SHA1_Init), md_pctx = None, md_pctx_ops = None\<rparr>"

lemma evp_context_typed_witness:
  "typed sha1_context \<and> typed (EVP_MD_CTX_init :: unit evp_md_ctx) \<and> block_of EVP_sha1 (Some (replicate 96 7)) \<and>
   live EVP_sha1 [] sha1_context \<and>
   ends_typed (EVP_MD_CTX_copy_ex (Some (replicate 96 7)) (EVP_MD_CTX_init :: unit evp_md_ctx) (Some sha1_context))"
proof -
  have live: "live EVP_sha1 [] sha1_context"
    by (simp add: live_def sha1_context_def pctx_ok_def init_absorbed)
  have "block_of EVP_sha1 (Some (replicate 96 7))" by (simp add: block_of_def)
  with live evp_context_typed [OF live_typed [OF live] typed_init(1) this live]
  show ?thesis by (simp add: live_typed [OF live])
qed

end
