(* ===== verification/Hmac_Spec.thy ===== *)
theory Hmac_Spec
  imports Hmac Digest_Spec
begin

text \<open>
  HMAC of RFC 2104 over the functions of \<open>digest_of\<close>, and the proof that \<open>hmac.c\<close> computes it for a message in any
  pieces, for one key many times, and without undefined behaviour when allocations fail.
\<close>

section \<open>The standard\<close>

definition hmac_block :: "evp_md \<Rightarrow> byte list \<Rightarrow> byte list" where
  "hmac_block md key =
     (let k = (if EVP_MD_block_size md < length key then digest_of md key else key)
      in k @ replicate (EVP_MD_block_size md - length k) 0)"

definition ipad :: "evp_md \<Rightarrow> byte list \<Rightarrow> byte list" where "ipad md key = map (\<lambda>b. 0x36 XOR b) (hmac_block md key)"
definition opad :: "evp_md \<Rightarrow> byte list \<Rightarrow> byte list" where "opad md key = map (\<lambda>b. 0x5C XOR b) (hmac_block md key)"

definition hmac_of :: "evp_md \<Rightarrow> byte list \<Rightarrow> byte list \<Rightarrow> byte list" where
  "hmac_of md key m = digest_of md (opad md key @ digest_of md (ipad md key @ m))"

section \<open>Contexts\<close>

definition hmac_typed :: "'p hmac_ctx \<Rightarrow> bool" where
  "hmac_typed ctx \<longleftrightarrow> (\<forall>c \<in> {hmac_md_ctx ctx, hmac_i_ctx ctx, hmac_o_ctx ctx}. typed c \<and> md_pctx c = None)"

text \<open>The two inner contexts hold the padded key.\<close>

definition keyed :: "evp_md \<Rightarrow> byte list \<Rightarrow> 'p hmac_ctx \<Rightarrow> bool" where
  "keyed md key ctx \<longleftrightarrow> hmac_typed ctx \<and> hmac_md ctx = Some md \<and>
     live md (ipad md key) (hmac_i_ctx ctx) \<and> live md (opad md key) (hmac_o_ctx ctx)"

definition running :: "evp_md \<Rightarrow> byte list \<Rightarrow> byte list \<Rightarrow> 'p hmac_ctx \<Rightarrow> bool" where
  "running md key m ctx \<longleftrightarrow> keyed md key ctx \<and> live md (ipad md key @ m) (hmac_md_ctx ctx)"

lemma on_ctx:
  "EVP (hmac_md_ctx h) = Ok x c \<Longrightarrow> on_md EVP h = Ok x (h\<lparr>hmac_md_ctx := c\<rparr>)"
  "EVP (hmac_i_ctx h) = Ok x c \<Longrightarrow> on_i EVP h = Ok x (h\<lparr>hmac_i_ctx := c\<rparr>)"
  "EVP (hmac_o_ctx h) = Ok x c \<Longrightarrow> on_o EVP h = Ok x (h\<lparr>hmac_o_ctx := c\<rparr>)"
  "EVP (hmac_md_ctx h) = Fail c \<Longrightarrow> on_md EVP h = Fail (h\<lparr>hmac_md_ctx := c\<rparr>)"
  "EVP (hmac_i_ctx h) = Fail c \<Longrightarrow> on_i EVP h = Fail (h\<lparr>hmac_i_ctx := c\<rparr>)"
  "EVP (hmac_o_ctx h) = Fail c \<Longrightarrow> on_o EVP h = Fail (h\<lparr>hmac_o_ctx := c\<rparr>)"
  by (simp_all add: on_md_def on_i_def on_o_def at_ctx_def)

lemma hmac_typed_update:
  "hmac_typed h \<Longrightarrow> typed c \<Longrightarrow> md_pctx c = None \<Longrightarrow>
    hmac_typed (h\<lparr>hmac_md_ctx := c\<rparr>) \<and> hmac_typed (h\<lparr>hmac_i_ctx := c\<rparr>) \<and> hmac_typed (h\<lparr>hmac_o_ctx := c\<rparr>)"
  by (simp add: hmac_typed_def)

lemma hmac_typed_init [simp]: "hmac_typed HMAC_CTX_init"
  by (simp add: hmac_typed_def HMAC_CTX_init_def)

lemma HMAC_CTX_cleanup_ok: "hmac_typed ctx \<Longrightarrow> HMAC_CTX_cleanup ctx = Ok () HMAC_CTX_init"
  by (simp add: HMAC_CTX_cleanup_def hmac_typed_def on_ctx cleanup_ok typed_pctx)

text \<open>How a step can end: well, with \<open>P\<close> of the result, or with a return of 0 after a failed allocation.\<close>

definition ends :: "(nat \<Rightarrow> byte list option) \<Rightarrow> ('a \<Rightarrow> 'p hmac_ctx \<Rightarrow> bool) \<Rightarrow> ('a, 'p hmac_ctx) res \<Rightarrow> bool" where
  "ends mems P r \<longleftrightarrow>
     (case r of Ok x h \<Rightarrow> P x h \<and> hmac_typed h | Fail h \<Rightarrow> hmac_typed h \<and> (\<exists>i. mems i = None) | _ \<Rightarrow> False)"

lemma ends_bind:
  assumes "ends mems P r" and "\<And>x h. P x h \<Longrightarrow> hmac_typed h \<Longrightarrow> ends mems Q (f x h)"
  shows "ends mems Q (rbind r f)"
  using assms by (cases r) (auto simp: ends_def)

lemma ends_mono: "ends mems P r \<Longrightarrow> (\<And>x h. P x h \<Longrightarrow> hmac_typed h \<Longrightarrow> Q x h) \<Longrightarrow> ends mems Q r"
  by (cases r) (auto simp: ends_def)

lemma ends_Ok [simp]: "ends mems P (Ok x h) \<longleftrightarrow> P x h \<and> hmac_typed h"
  by (simp add: ends_def)

text \<open>The steps on one of the three contexts.\<close>

lemma typed_live: "live md bs c \<Longrightarrow> md_pctx c = None \<Longrightarrow> typed c \<and> md_pctx c = None"
  by (simp add: live_typed)

lemma init_ends:
  assumes "hmac_typed h" and "block_of md (mems k)"
  shows "ends mems (\<lambda>_ h'. live md [] (hmac_md_ctx h') \<and> (\<exists>c. h' = h\<lparr>hmac_md_ctx := c\<rparr>)) (on_md (EVP_DigestInit_ex (mems k) (Some md)) h)"
    "ends mems (\<lambda>_ h'. live md [] (hmac_i_ctx h') \<and> (\<exists>c. h' = h\<lparr>hmac_i_ctx := c\<rparr>)) (on_i (EVP_DigestInit_ex (mems k) (Some md)) h)"
    "ends mems (\<lambda>_ h'. live md [] (hmac_o_ctx h') \<and> (\<exists>c. h' = h\<lparr>hmac_o_ctx := c\<rparr>)) (on_o (EVP_DigestInit_ex (mems k) (Some md)) h)"
proof -
  have t: "typed (hmac_md_ctx h)" "typed (hmac_i_ctx h)" "typed (hmac_o_ctx h)"
    "md_pctx (hmac_md_ctx h) = None" "md_pctx (hmac_i_ctx h) = None" "md_pctx (hmac_o_ctx h) = None"
    using assms(1) by (simp_all add: hmac_typed_def)
  show "ends mems (\<lambda>_ h'. live md [] (hmac_md_ctx h') \<and> (\<exists>c. h' = h\<lparr>hmac_md_ctx := c\<rparr>)) (on_md (EVP_DigestInit_ex (mems k) (Some md)) h)"
    using DigestInit_ex [OF t(1) assms(2)] hmac_typed_update [OF assms(1)] t typed_live by (fastforce simp: ends_def on_ctx)
  show "ends mems (\<lambda>_ h'. live md [] (hmac_i_ctx h') \<and> (\<exists>c. h' = h\<lparr>hmac_i_ctx := c\<rparr>)) (on_i (EVP_DigestInit_ex (mems k) (Some md)) h)"
    using DigestInit_ex [OF t(2) assms(2)] hmac_typed_update [OF assms(1)] t typed_live by (fastforce simp: ends_def on_ctx)
  show "ends mems (\<lambda>_ h'. live md [] (hmac_o_ctx h') \<and> (\<exists>c. h' = h\<lparr>hmac_o_ctx := c\<rparr>)) (on_o (EVP_DigestInit_ex (mems k) (Some md)) h)"
    using DigestInit_ex [OF t(3) assms(2)] hmac_typed_update [OF assms(1)] t typed_live by (fastforce simp: ends_def on_ctx)
qed

lemma update_ends:
  assumes "hmac_typed h"
  shows "live md bs (hmac_md_ctx h) \<Longrightarrow>
      ends mems (\<lambda>_ h'. live md (bs @ data) (hmac_md_ctx h') \<and> (\<exists>c. h' = h\<lparr>hmac_md_ctx := c\<rparr>)) (on_md (EVP_DigestUpdate data) h)"
    "live md bs (hmac_i_ctx h) \<Longrightarrow>
      ends mems (\<lambda>_ h'. live md (bs @ data) (hmac_i_ctx h') \<and> (\<exists>c. h' = h\<lparr>hmac_i_ctx := c\<rparr>)) (on_i (EVP_DigestUpdate data) h)"
    "live md bs (hmac_o_ctx h) \<Longrightarrow>
      ends mems (\<lambda>_ h'. live md (bs @ data) (hmac_o_ctx h') \<and> (\<exists>c. h' = h\<lparr>hmac_o_ctx := c\<rparr>)) (on_o (EVP_DigestUpdate data) h)"
proof -
  have t: "md_pctx (hmac_md_ctx h) = None" "md_pctx (hmac_i_ctx h) = None" "md_pctx (hmac_o_ctx h) = None"
    using assms by (simp_all add: hmac_typed_def)
  show "live md bs (hmac_md_ctx h) \<Longrightarrow>
      ends mems (\<lambda>_ h'. live md (bs @ data) (hmac_md_ctx h') \<and> (\<exists>c. h' = h\<lparr>hmac_md_ctx := c\<rparr>)) (on_md (EVP_DigestUpdate data) h)"
    using DigestUpdate [of md bs "hmac_md_ctx h" data] hmac_typed_update [OF assms] t typed_live by (fastforce simp: on_ctx)
  show "live md bs (hmac_i_ctx h) \<Longrightarrow>
      ends mems (\<lambda>_ h'. live md (bs @ data) (hmac_i_ctx h') \<and> (\<exists>c. h' = h\<lparr>hmac_i_ctx := c\<rparr>)) (on_i (EVP_DigestUpdate data) h)"
    using DigestUpdate [of md bs "hmac_i_ctx h" data] hmac_typed_update [OF assms] t typed_live by (fastforce simp: on_ctx)
  show "live md bs (hmac_o_ctx h) \<Longrightarrow>
      ends mems (\<lambda>_ h'. live md (bs @ data) (hmac_o_ctx h') \<and> (\<exists>c. h' = h\<lparr>hmac_o_ctx := c\<rparr>)) (on_o (EVP_DigestUpdate data) h)"
    using DigestUpdate [of md bs "hmac_o_ctx h" data] hmac_typed_update [OF assms] t typed_live by (fastforce simp: on_ctx)
qed

lemma final_ends:
  assumes "hmac_typed h" and "live md bs (hmac_md_ctx h)"
  shows "ends mems (\<lambda>d h'. d = digest_of md bs \<and> (\<exists>c. h' = h\<lparr>hmac_md_ctx := c\<rparr>)) (on_md EVP_DigestFinal_ex h)"
proof -
  have "md_pctx (hmac_md_ctx h) = None" using assms by (simp add: hmac_typed_def)
  then show ?thesis using DigestFinal_ex [OF assms(2)] hmac_typed_update [OF assms(1)] by (fastforce simp: on_ctx)
qed

lemma copy_ends:
  assumes "hmac_typed h" and "live md bs inp" "md_pctx inp = None"
  shows "ends mems (\<lambda>_ h'. live md bs (hmac_md_ctx h') \<and> (\<exists>c. h' = h\<lparr>hmac_md_ctx := c\<rparr>))
    (on_md (\<lambda>c. EVP_MD_CTX_copy_ex (mems k) c (Some inp)) h)"
proof -
  have "typed (hmac_md_ctx h)" "md_pctx (hmac_md_ctx h) = None" using assms(1) by (simp_all add: hmac_typed_def)
  then show ?thesis
    using MD_CTX_copy_ex [OF _ assms(2,3), of "hmac_md_ctx h" "mems k"] hmac_typed_update [OF assms(1)] typed_live
    by (fastforce simp: ends_def on_ctx)
qed

section \<open>Keys, updates and results\<close>

lemma block_sizes: "EVP_MD_block_size md \<le> 128" "length (digest_of md m) \<le> EVP_MD_block_size md"
  using evp.sizes(2,3) [of md] by (simp_all add: EVP_MD_block_size_def length_digest_of)

lemma key_block_ends:
  assumes "hmac_typed h" and "block_of md (mems k)"
  shows "ends mems (\<lambda>kb h'. take (EVP_MD_block_size md) kb = hmac_block md key) (hmac_key_block (mems k) key md h)"
proof -
  let ?B = "EVP_MD_block_size md" and ?k = "if EVP_MD_block_size md < length key then digest_of md key else key"
  have k: "length ?k \<le> ?B" "?B \<le> 128" using block_sizes by auto
  then have "128 - length ?k = (?B - length ?k) + (128 - ?B)" by simp
  then have pad: "take ?B (?k @ replicate (128 - length ?k) 0) = hmac_block md key"
    using k(1) by (simp only: replicate_add) (simp add: hmac_block_def Let_def)
  have "ends mems (\<lambda>x h'. x = ?k)
      (if ?B < length key
       then rbind (on_md (EVP_DigestInit_ex (mems k) (Some md)) h) (\<lambda>_ ctx.
         rbind (on_md (EVP_DigestUpdate key) ctx) (\<lambda>_ ctx. on_md EVP_DigestFinal_ex ctx))
       else Ok key h)"
  proof (cases "?B < length key")
    case True
    have "ends mems (\<lambda>x h'. x = digest_of md key)
      (rbind (on_md (EVP_DigestInit_ex (mems k) (Some md)) h) (\<lambda>_ ctx.
         rbind (on_md (EVP_DigestUpdate key) ctx) (\<lambda>_ ctx. on_md EVP_DigestFinal_ex ctx)))"
      by (rule ends_bind [OF init_ends(1) [of h md mems k, OF assms]], elim conjE, rule ends_bind [OF update_ends(1)], assumption, assumption,
        elim conjE, rule ends_mono [OF final_ends], assumption, assumption, simp)
    then show ?thesis using True by simp
  qed (use assms(1) in simp)
  then show ?thesis unfolding hmac_key_block_def by (rule ends_bind) (use pad in simp)
qed

lemma set_key_ends:
  assumes h: "hmac_typed h" and mems: "\<And>i. block_of md (mems i)"
  shows "ends mems (\<lambda>_. keyed md (case key of None \<Rightarrow> [] | Some k \<Rightarrow> k)) (hmac_set_key mems key md h)"
proof -
  let ?key = "case key of None \<Rightarrow> [] | Some k \<Rightarrow> k" and ?B = "EVP_MD_block_size md"
  have B: "(128 < ?B) = False" using block_sizes(1) [of md] by auto
  have pads: "take ?B (map (\<lambda>b. a XOR b) kb) = map (\<lambda>b. a XOR b) (hmac_block md ?key)"
    if "take ?B kb = hmac_block md ?key" for a :: byte and kb
    using that by (simp add: take_map)
  show ?thesis
    unfolding hmac_set_key_def Let_def B if_False
  proof (rule ends_bind [OF key_block_ends [of h md mems 0, OF h mems]])
    fix kb h0
    assume kb: "take ?B kb = hmac_block md ?key" and h0: "hmac_typed h0"
    show "ends mems (\<lambda>_. keyed md ?key)
      (rbind (on_i (EVP_DigestInit_ex (mems 1) (Some md)) h0) (\<lambda>_ ctx.
      rbind (on_i (EVP_DigestUpdate (take ?B (map (\<lambda>b. 0x36 XOR b) kb))) ctx) (\<lambda>_ ctx.
      rbind (on_o (EVP_DigestInit_ex (mems 2) (Some md)) ctx) (\<lambda>_ ctx.
      rbind (on_o (EVP_DigestUpdate (take ?B (map (\<lambda>b. 0x5C XOR b) kb))) ctx) (\<lambda>_ ctx.
      Ok () (ctx\<lparr>hmac_md := Some md\<rparr>))))))"
      unfolding pads [OF kb] ipad_def [symmetric] opad_def [symmetric]
    proof (rule ends_bind [OF init_ends(2) [of h0 md mems 1, OF h0 mems]], elim conjE exE)
      fix h1
      assume h1: "live md [] (hmac_i_ctx h1)" "hmac_typed h1"
      show "ends mems (\<lambda>_. keyed md ?key) (rbind (on_i (EVP_DigestUpdate (ipad md ?key)) h1) (\<lambda>_ ctx.
        rbind (on_o (EVP_DigestInit_ex (mems 2) (Some md)) ctx) (\<lambda>_ ctx.
        rbind (on_o (EVP_DigestUpdate (opad md ?key)) ctx) (\<lambda>_ ctx. Ok () (ctx\<lparr>hmac_md := Some md\<rparr>)))))"
      proof (rule ends_bind [OF update_ends(2) [OF h1(2,1)]], elim conjE)
        fix h2
        assume h2: "live md ([] @ ipad md ?key) (hmac_i_ctx h2)" "hmac_typed h2"
        show "ends mems (\<lambda>_. keyed md ?key) (rbind (on_o (EVP_DigestInit_ex (mems 2) (Some md)) h2) (\<lambda>_ ctx.
          rbind (on_o (EVP_DigestUpdate (opad md ?key)) ctx) (\<lambda>_ ctx. Ok () (ctx\<lparr>hmac_md := Some md\<rparr>))))"
        proof (rule ends_bind [OF init_ends(3) [of h2 md mems 2, OF h2(2) mems]], elim conjE exE)
          fix h3 c3
          assume h3: "live md [] (hmac_o_ctx h3)" "hmac_typed h3" "h3 = h2\<lparr>hmac_o_ctx := c3\<rparr>"
          show "ends mems (\<lambda>_. keyed md ?key)
            (rbind (on_o (EVP_DigestUpdate (opad md ?key)) h3) (\<lambda>_ ctx. Ok () (ctx\<lparr>hmac_md := Some md\<rparr>)))"
            by (rule ends_bind [OF update_ends(3) [OF h3(2,1)]]) (use h2 h3(3) in \<open>auto simp: keyed_def hmac_typed_def\<close>)
        qed
      qed
    qed
  qed
qed

lemma HMAC_Init_ex_ends:
  assumes h: "hmac_typed h" and mems: "\<And>i. block_of md (mems i)"
    and key: "key \<noteq> None \<or> hmac_md h \<noteq> Some md"
  shows "ends mems (\<lambda>_. running md (case key of None \<Rightarrow> [] | Some k \<Rightarrow> k) []) (HMAC_Init_ex mems key (Some md) h)"
proof -
  let ?key = "case key of None \<Rightarrow> [] | Some k \<Rightarrow> k"
  have code: "HMAC_Init_ex mems key (Some md) h = rbind (hmac_set_key mems key md h)
      (\<lambda>_ ctx. on_md (\<lambda>c. EVP_MD_CTX_copy_ex (mems 3) c (Some (hmac_i_ctx ctx))) ctx)"
    using key by (auto simp: HMAC_Init_ex_def)
  show ?thesis
    unfolding code
  proof (rule ends_bind [OF set_key_ends [OF h mems]])
    fix h'
    assume h': "keyed md ?key h'" "hmac_typed h'"
    then have "live md (ipad md ?key) (hmac_i_ctx h')" "md_pctx (hmac_i_ctx h') = None" by (auto simp: keyed_def hmac_typed_def)
    from copy_ends [OF h'(2) this, of mems 3]
    show "ends mems (\<lambda>_. running md ?key []) (on_md (\<lambda>c. EVP_MD_CTX_copy_ex (mems 3) c (Some (hmac_i_ctx h'))) h')"
      by (rule ends_mono) (use h' in \<open>auto simp: running_def keyed_def\<close>)
  qed
qed

text \<open>Rewinding: neither a key nor a function.\<close>

lemma HMAC_Init_ex_rewind:
  assumes "keyed md key h" and "ty = None \<or> ty = Some md"
  shows "ends mems (\<lambda>_. running md key []) (HMAC_Init_ex mems None ty h)"
proof -
  have h: "hmac_typed h" "hmac_md h = Some md" "live md (ipad md key) (hmac_i_ctx h)" "md_pctx (hmac_i_ctx h) = None"
    using assms(1) by (auto simp: keyed_def hmac_typed_def)
  have "HMAC_Init_ex mems None ty h = on_md (\<lambda>c. EVP_MD_CTX_copy_ex (mems 3) c (Some (hmac_i_ctx h))) h"
    using assms(2) h(2) by (auto simp: HMAC_Init_ex_def)
  then show ?thesis
    by (simp only:) (rule ends_mono [OF copy_ends [OF h(1,3,4)]], use assms(1) in \<open>auto simp: running_def keyed_def\<close>)
qed

lemma HMAC_Update_ends:
  assumes "running md key m h"
  shows "ends mems (\<lambda>_. running md key (m @ data)) (HMAC_Update data h)"
proof -
  have h: "hmac_typed h" "live md (ipad md key @ m) (hmac_md_ctx h)" using assms by (auto simp: running_def keyed_def)
  show ?thesis
    unfolding HMAC_Update_def
    by (rule ends_mono [OF update_ends(1) [OF h]]) (use assms in \<open>auto simp: running_def keyed_def\<close>)
qed

lemma HMAC_Final_ends:
  assumes "running md key m h"
  shows "ends mems (\<lambda>d h'. d = hmac_of md key m \<and> keyed md key h') (HMAC_Final (mems k) h)"
proof -
  have h: "hmac_typed h" "live md (ipad md key @ m) (hmac_md_ctx h)" "keyed md key h" using assms by (auto simp: running_def keyed_def)
  show ?thesis
    unfolding HMAC_Final_def
  proof (rule ends_bind [OF final_ends [OF h(1,2)]], elim conjE exE)
    fix d h1 c1
    assume d: "d = digest_of md (ipad md key @ m)" and h1: "hmac_typed h1" "h1 = h\<lparr>hmac_md_ctx := c1\<rparr>"
    have o: "live md (opad md key) (hmac_o_ctx h1)" "md_pctx (hmac_o_ctx h1) = None" "keyed md key h1"
      using h(3) h1 by (auto simp: keyed_def hmac_typed_def)
    show "ends mems (\<lambda>d h'. d = hmac_of md key m \<and> keyed md key h')
      (rbind (on_md (\<lambda>c. EVP_MD_CTX_copy_ex (mems k) c (Some (hmac_o_ctx h1))) h1) (\<lambda>_ ctx.
       rbind (on_md (EVP_DigestUpdate d) ctx) (\<lambda>_ ctx. on_md EVP_DigestFinal_ex ctx)))"
    proof (rule ends_bind [OF copy_ends [OF h1(1) o(1,2)]], elim conjE exE)
      fix h2 c2
      assume h2: "hmac_typed h2" "live md (opad md key) (hmac_md_ctx h2)" "h2 = h1\<lparr>hmac_md_ctx := c2\<rparr>"
      show "ends mems (\<lambda>d h'. d = hmac_of md key m \<and> keyed md key h')
        (rbind (on_md (EVP_DigestUpdate d) h2) (\<lambda>_ ctx. on_md EVP_DigestFinal_ex ctx))"
      proof (rule ends_bind [OF update_ends(1) [OF h2(1,2)]], elim conjE exE)
        fix h3 c3
        assume h3: "hmac_typed h3" "live md (opad md key @ d) (hmac_md_ctx h3)" "h3 = h2\<lparr>hmac_md_ctx := c3\<rparr>"
        show "ends mems (\<lambda>d h'. d = hmac_of md key m \<and> keyed md key h') (on_md EVP_DigestFinal_ex h3)"
          by (rule ends_mono [OF final_ends [OF h3(1,2)]])
            (use d o(3) h2(3) h3(3) in \<open>auto simp: hmac_of_def keyed_def\<close>)
      qed
    qed
  qed
qed

text \<open>A message in pieces, and its code.\<close>

fun hmac_pieces :: "byte list option \<Rightarrow> byte list list \<Rightarrow> 'p hmac_ctx \<Rightarrow> (byte list, 'p hmac_ctx) res" where
  "hmac_pieces mem [] ctx = HMAC_Final mem ctx"
| "hmac_pieces mem (d # ds) ctx = rbind (HMAC_Update d ctx) (\<lambda>_ ctx. hmac_pieces mem ds ctx)"

lemma hmac_pieces_Nil: "hmac_pieces mem [] = HMAC_Final mem"
  by (simp add: fun_eq_iff)

lemma hmac_pieces_ends:
  "running md key m h \<Longrightarrow> ends mems (\<lambda>d h'. d = hmac_of md key (m @ concat ds) \<and> keyed md key h') (hmac_pieces (mems k) ds h)"
proof (induction ds arbitrary: m h)
  case Nil
  then show ?case using HMAC_Final_ends [OF Nil] by simp
next
  case (Cons d ds)
  show ?case
    unfolding hmac_pieces.simps
    by (rule ends_bind [OF HMAC_Update_ends [OF Cons(2), of mems d]]) (use Cons(1) [of "m @ d"] in simp)
qed

lemma HMAC_ends:
  assumes "\<And>i. block_of md (mems i)"
  shows "\<exists>r. HMAC mems (Some md) key data = Ok r (HMAC_CTX_init :: 'p hmac_ctx) \<and>
    (r = Some (hmac_of md (case key of None \<Rightarrow> [] | Some k \<Rightarrow> k) data) \<or> r = None \<and> (\<exists>i. mems i = None))"
proof -
  let ?key = "case key of None \<Rightarrow> [] | Some k \<Rightarrow> k" and ?h = "HMAC_CTX_init :: 'p hmac_ctx"
  have new: "key \<noteq> None \<or> hmac_md ?h \<noteq> Some md" by (simp add: HMAC_CTX_init_def)
  have "ends mems (\<lambda>d h'. d = hmac_of md ?key data) (rbind (HMAC_Init_ex mems key (Some md) ?h) (\<lambda>_ ctx.
      rbind (HMAC_Update data ctx) (\<lambda>_ ctx. HMAC_Final (mems 4) ctx)))"
  proof (rule ends_bind [OF HMAC_Init_ex_ends [OF hmac_typed_init assms new]])
    fix h
    assume "running md ?key [] h"
    from ends_mono [OF hmac_pieces_ends [OF this, of mems "[data]" 4], of "\<lambda>d h'. d = hmac_of md ?key data"]
    show "ends mems (\<lambda>d h'. d = hmac_of md ?key data) (rbind (HMAC_Update data h) (\<lambda>_ ctx. HMAC_Final (mems 4) ctx))"
      by (simp add: hmac_pieces_Nil)
  qed
  then show ?thesis by (auto simp: HMAC_def ends_def HMAC_CTX_cleanup_ok split: res.splits)
qed

text \<open>C32: the code that \<open>HMAC_Init_ex\<close>, any updates and \<open>HMAC_Final\<close> compute is that of RFC 2104 over the function
  of the standard: for any key (hashed if it is longer than a block), for a context that has been in use with any
  key or function before, and again for the next message when the context is rewound with neither. If an allocation
  fails, the functions return 0, and the context can still be cleaned up; \<open>HMAC\<close> returns a null pointer then and
  the code otherwise.\<close>

theorem hmac_is_rfc2104:
  fixes ctx :: "'p hmac_ctx"
  assumes "\<forall>i. block_of md (mems i)" and "hmac_typed ctx"
  shows "(\<exists>r. HMAC mems (Some md) key data = Ok r (HMAC_CTX_init :: 'p hmac_ctx) \<and>
      (r = Some (hmac_of md (case key of None \<Rightarrow> [] | Some k \<Rightarrow> k) data) \<or> r = None \<and> (\<exists>i. mems i = None))) \<and>
    ends mems (\<lambda>_ c. ends mems (\<lambda>d c. d = hmac_of md k (concat ds) \<and>
        ends mems (\<lambda>_ c. ends mems (\<lambda>d _. d = hmac_of md k (concat ds')) (hmac_pieces (mems 4) ds' c))
          (HMAC_Init_ex mems None None c))
      (hmac_pieces (mems 4) ds c)) (HMAC_Init_ex mems (Some k) (Some md) ctx)"
proof
  have mems: "block_of md (mems i)" for i using assms(1) by blast
  show "\<exists>r. HMAC mems (Some md) key data = Ok r (HMAC_CTX_init :: 'p hmac_ctx) \<and>
      (r = Some (hmac_of md (case key of None \<Rightarrow> [] | Some k \<Rightarrow> k) data) \<or> r = None \<and> (\<exists>i. mems i = None))"
    using mems by (rule HMAC_ends)
  have again: "ends mems (\<lambda>_ c. ends mems (\<lambda>d _. d = hmac_of md k (concat ds')) (hmac_pieces (mems 4) ds' c))
      (HMAC_Init_ex mems None None c)" if "keyed md k c" for c :: "'p hmac_ctx"
    by (rule ends_mono [OF HMAC_Init_ex_rewind [OF that]], simp)
      (rule ends_mono [OF hmac_pieces_ends], assumption, simp)
  have "ends mems (\<lambda>_. running md k []) (HMAC_Init_ex mems (Some k) (Some md) ctx)"
    using HMAC_Init_ex_ends [OF assms(2) mems, of "Some k"] by simp
  then show "ends mems (\<lambda>_ c. ends mems (\<lambda>d c. d = hmac_of md k (concat ds) \<and>
        ends mems (\<lambda>_ c. ends mems (\<lambda>d _. d = hmac_of md k (concat ds')) (hmac_pieces (mems 4) ds' c))
          (HMAC_Init_ex mems None None c))
      (hmac_pieces (mems 4) ds c)) (HMAC_Init_ex mems (Some k) (Some md) ctx)"
    by (rule ends_mono) (rule ends_mono [OF hmac_pieces_ends], assumption, use again in auto)
qed

lemma hmac_is_rfc2104_witness:
  "(\<forall>i. block_of EVP_sha384 (Some (replicate 216 (5 :: byte)))) \<and> hmac_typed (HMAC_CTX_init :: unit hmac_ctx) \<and>
   HMAC (\<lambda>_. Some (replicate 216 5)) (Some EVP_sha384) (Some [1, 2]) [3] =
     Ok (Some (hmac_of EVP_sha384 [1, 2] [3])) (HMAC_CTX_init :: unit hmac_ctx)"
proof -
  have mems: "\<forall>i :: nat. block_of EVP_sha384 (Some (replicate 216 (5 :: byte)))" by (simp add: block_of_def)
  show ?thesis
    using hmac_is_rfc2104 [OF mems hmac_typed_init, where 'p = unit, of "Some [1, 2]" "[3]"] mems by auto
qed

end
