(* ===== verification/Tls_Digest_Spec.thy ===== *)
theory Tls_Digest_Spec
  imports Tls_Digest Hmac_Spec
begin

text \<open>
  The constant-time MAC of a TLS record is HMAC. The hash functions enter through the locale \<open>tls_hash\<close>: they
  hash by compressing the blocks of a padded message; it is interpreted on SHA-1, SHA-256 and SHA-384.
\<close>

section \<open>Padding\<close>

definition tls_pad :: "nat \<Rightarrow> nat \<Rightarrow> byte list \<Rightarrow> byte list" where
  "tls_pad B L m =
     m @ [0x80] @ replicate ((2 * B - 1 - L - length m mod B) mod B) 0 @ replicate (L - 4) 0 @
       be_bytes 4 (of_nat (8 * length m) :: u32)"

text \<open>The block with the 0x80 byte and the block with the length.\<close>

lemma pad_blocks:
  fixes B L n :: nat
  assumes "0 < L" "L < B"
  shows "n + 1 + (2 * B - 1 - L - n mod B) mod B + L = B * ((n + L) div B + 1)"
    "n div B \<le> (n + L) div B" "(n + L) div B = n div B \<longleftrightarrow> n mod B + L < B" "(n + L) div B \<le> n div B + 1"
proof -
  define q c where "q = n div B" and "c = n mod B"
  have n: "n = B * q + c" "c < B" using assms by (simp_all add: q_def c_def)
  have q': "(n + L) div B = (if c + L < B then q else q + 1)"
  proof (cases "c + L < B")
    case False
    have "(n + L) div B = q + 1" by (rule div_nat_eqI) (use False n assms in \<open>simp_all add: algebra_simps\<close>)
    then show ?thesis using False by simp
  qed (use n assms in \<open>simp add: add.assoc\<close>)
  have z: "(2 * B - 1 - L - c) mod B = (if c + L < B then B - 1 - L - c else 2 * B - 1 - L - c)"
  proof (cases "c + L < B")
    case True
    then have "2 * B - 1 - L - c = (B - 1 - L - c) + B" by simp
    then have "(2 * B - 1 - L - c) mod B = (B - 1 - L - c) mod B" by (simp only: mod_add_self2)
    then show ?thesis using True by simp
  qed (use n assms in simp)
  show "n + 1 + (2 * B - 1 - L - n mod B) mod B + L = B * ((n + L) div B + 1)"
    unfolding c_def [symmetric] z q' using n assms by (simp add: algebra_simps)
  show "n div B \<le> (n + L) div B" "(n + L) div B = n div B \<longleftrightarrow> n mod B + L < B" "(n + L) div B \<le> n div B + 1"
    unfolding q' q_def [symmetric] c_def [symmetric] by simp_all
qed

lemma size_sub: "b \<le> a \<Longrightarrow> a < 2 ^ 64 \<Longrightarrow> size_sub a b = a - b"
proof -
  assume le: "b \<le> a" "a < 2 ^ 64"
  then have "a + (2 ^ 64 - b) = a - b + 2 ^ 64" by simp
  then have "(a + (2 ^ 64 - b)) mod 2 ^ 64 = (a - b) mod 2 ^ 64" by (simp only: mod_add_self2)
  then show ?thesis using le by (simp add: size_sub_def)
qed

lemma of_nat_64: "x < 2 ^ 64 \<Longrightarrow> y < 2 ^ 64 \<Longrightarrow> (of_nat x :: u64) = of_nat y \<longleftrightarrow> x = y"
  "x < 2 ^ 64 \<Longrightarrow> y < 2 ^ 64 \<Longrightarrow> (of_nat x :: u64) \<le> of_nat y \<longleftrightarrow> x \<le> y"
  by (simp_all add: word_unat_eq_iff word_le_nat_alt unsigned_of_nat take_bit_nat_eq_self)

section \<open>The masked bytes\<close>

text \<open>What the masks of a byte of the last blocks select.\<close>

lemma tls_final_byte_select:
  assumes "i < 2 ^ 32" "index_a < 2 ^ 32" "index_b < 2 ^ 32" "c < 2 ^ 32" "j < 2 ^ 32"
  shows "tls_final_byte h header data c index_a index_b lb i k j =
    (if tls_block_size h - tls_length_size h \<le> j \<and> i = index_b then lb ! (j - (tls_block_size h - tls_length_size h))
     else if i = index_a \<and> c < j then 0 else if i = index_a \<and> c = j then 0x80 else if i = index_b \<and> i \<noteq> index_a then 0
     else if k < 13 then header ! k else if k < length data + 13 then data ! (k - 13) else 0)"
proof -
  have eqs: "constant_time_eq_8 (of_nat i) (of_nat index_a) = mask_of (i = index_a)"
    "constant_time_eq_8 (of_nat i) (of_nat index_b) = mask_of (i = index_b)"
    "constant_time_ge_8 (of_nat j) (of_nat c) = mask_of (c \<le> j)"
    "constant_time_ge_8 (of_nat j) (of_nat (c + 1)) = mask_of (c < j)"
    using assms by (simp_all add: constant_time_8 of_nat_64 Suc_le_eq del: of_nat_Suc)
  have sel: "constant_time_select_8 (- 1) a b = a" "constant_time_select_8 0 a b = b" for a b
    using constant_time_select_byte [of True] constant_time_select_byte [of False] by simp_all
  show ?thesis
    unfolding tls_final_byte_def Let_def eqs
    by (cases "i = index_a"; cases "i = index_b"; cases "c < j"; cases "c = j") (simp_all add: sel)
qed

section \<open>The loops\<close>

lemma start_blocks:
  assumes "1 \<le> i" and "13 \<le> tls_block_size h" and "tls_block_size h * (i + n) \<le> length data + 13"
  shows "tls_start_blocks h data i n st =
    Some (foldl (tls_transform h) st (map (\<lambda>i. take (tls_block_size h) (drop (tls_block_size h * i - 13) data)) [i..<i + n]))"
  using assms(1,3)
proof (induction n arbitrary: i st)
  case (Suc n)
  let ?B = "tls_block_size h"
  have "?B \<le> ?B * i" "?B * i + ?B \<le> ?B * (i + Suc n)" using Suc(2) by (simp_all add: algebra_simps)
  then have "\<not> length data < ?B * i - 13 + ?B" using Suc(3) assms(2) by linarith
  moreover have "[i..<i + Suc n] = i # [i + 1..<i + 1 + n]" by (simp add: upt_conv_Cons)
  ultimately show ?case using Suc(1) [of "i + 1"] Suc(3) by (simp add: Let_def)
qed simp

lemma tls_start_text:
  assumes "length header = 13" "13 \<le> tls_block_size h" and "tls_block_size h * s \<le> length data + 13"
  shows "tls_start h header data (tls_block_size h * s) st =
    Some (foldl (tls_transform h) st (map (\<lambda>i. take (tls_block_size h) (drop (tls_block_size h * i) (header @ data))) [0..<s]))"
proof (cases s)
  case (Suc r)
  let ?B = "tls_block_size h"
  have "take ?B (drop (?B * i) (header @ data)) = take ?B (drop (?B * i - 13) data)" if "1 \<le> i" for i
  proof -
    have "?B \<le> ?B * i" using that by simp
    then have "13 \<le> ?B * i" using assms(2) by linarith
    then show ?thesis using assms(1) by simp
  qed
  then have "map (\<lambda>i. take ?B (drop (?B * i) (header @ data))) [1..<s] = map (\<lambda>i. take ?B (drop (?B * i - 13) data)) [1..<s]"
    by (intro map_cong refl) simp
  moreover have "take ?B (drop (?B * 0) (header @ data)) = header @ take (?B - 13) data" using assms by simp
  moreover have "[0..<s] = 0 # [1..<s]" using Suc by (simp add: upt_conv_Cons)
  ultimately have blocks: "map (\<lambda>i. take ?B (drop (?B * i) (header @ data))) [0..<s] =
      (header @ take (?B - 13) data) # map (\<lambda>i. take ?B (drop (?B * i - 13) data)) [1..<s]"
    by (simp only: list.map)
  have "\<not> length data < ?B - 13" "?B * s \<noteq> 0" "?B * s div ?B - 1 = r" using assms Suc by simp_all
  moreover have "tls_start_blocks h data 1 r st' = Some (foldl (tls_transform h) st' (map (\<lambda>i. take ?B (drop (?B * i - 13) data)) [1..<s]))"
    for st' using start_blocks [of 1 h r data st'] assms Suc by simp
  ultimately show ?thesis unfolding blocks tls_start_def Let_def by (simp only: if_False foldl.simps)
qed (simp add: tls_start_def)

lemma final_after:
  assumes "index_b < i" and "i + n < 2 ^ 32" and "length mac = tls_size h"
  shows "tls_final_blocks h header data c index_a index_b lb i k n st mac = mac"
  using assms(1,2)
proof (induction n arbitrary: i k st)
  case (Suc n)
  have "constant_time_eq_8 (of_nat i) (of_nat index_b) = (0 :: byte)"
    using Suc(2,3) by (simp add: constant_time_8 of_nat_64)
  moreover have "map (\<lambda>j. mac ! j OR (f j AND 0)) [0..<tls_size h] = mac" for f
    by (simp add: map_nth flip: assms(3))
  ultimately show ?case using Suc(1) [of "i + 1"] Suc(2,3) by (simp add: Let_def)
qed simp

lemma final_blocks:
  assumes "i \<le> index_b" "index_b < i + n" "i + n < 2 ^ 32" and "k = i * tls_block_size h"
    and "\<And>i'. i \<le> i' \<Longrightarrow> i' \<le> index_b \<Longrightarrow>
      tls_final_block h header data c index_a index_b lb i' (i' * tls_block_size h) = blk i'"
  shows "tls_final_blocks h header data c index_a index_b lb i k n st (replicate (tls_size h) 0) =
    map (\<lambda>j. tls_final_raw h (foldl (tls_transform h) st (map blk [i..<index_b + 1])) ! j) [0..<tls_size h]"
  using assms
proof (induction n arbitrary: i k st)
  case (Suc n)
  have blk: "tls_final_block h header data c index_a index_b lb i k = blk i" using Suc(2,5,6) by simp
  have eq: "constant_time_eq_8 (of_nat i) (of_nat index_b) = (mask_of (i = index_b) :: byte)"
    using Suc(2-4) by (simp add: constant_time_8 of_nat_64)
  show ?case
  proof (cases "i = index_b")
    case True
    have "map (\<lambda>j. replicate (tls_size h) 0 ! j OR (f j AND - 1)) [0..<tls_size h] = map f [0..<tls_size h]" for f :: "nat \<Rightarrow> byte"
      by simp
    then show ?thesis
      unfolding tls_final_blocks.simps(2) Let_def blk eq using True Suc(4) by (simp add: final_after)
  next
    case False
    have mac: "map (\<lambda>j. replicate (tls_size h) 0 ! j OR (f j AND 0)) [0..<tls_size h] = replicate (tls_size h) 0"
      for f :: "nat \<Rightarrow> byte"
      by (intro nth_equalityI) simp_all
    have upt: "[i..<index_b + 1] = i # [i + 1..<index_b + 1]" using Suc(2) by (simp add: upt_conv_Cons)
    have "mask_of (i = index_b) = (0 :: byte)" using False by simp
    moreover have "tls_final_blocks h header data c index_a index_b lb (i + 1) (k + tls_block_size h) n
        (tls_transform h st (blk i)) (replicate (tls_size h) 0) =
      map (\<lambda>j. tls_final_raw h (foldl (tls_transform h) (tls_transform h st (blk i)) (map blk [i + 1..<index_b + 1])) ! j)
        [0..<tls_size h]"
      by (rule Suc(1)) (use False Suc(2-6) in simp_all)
    ultimately show ?thesis
      unfolding tls_final_blocks.simps(2) Let_def blk eq upt by (simp only: mac list.map foldl.simps)
  qed
qed simp

section \<open>The blocks of the padded text\<close>

lemma padded_nth:
  assumes "length text = n"
  shows "(text @ [x] @ replicate z 0 @ lb) ! p =
    (if p < n then text ! p else if p = n then x else if p < n + 1 + z then 0 else lb ! (p - (n + 1 + z)))"
proof -
  consider "p < n" | "p = n" | "n < p" "p < n + 1 + z" | "n + 1 + z \<le> p" by linarith
  then show ?thesis
  proof cases
    case 3
    then have "p - n = Suc (p - n - 1)" "p - n - 1 < z" by simp_all
    then show ?thesis using 3 assms by (simp add: nth_append nth_Cons')
  next
    case 4
    then have "p - n = Suc (p - n - 1)" "\<not> p - n - 1 < z" "p - n - 1 - z = p - (n + 1 + z)" by simp_all
    then show ?thesis using 4 assms by (simp add: nth_append nth_Cons')
  qed (use assms in \<open>simp_all add: nth_append\<close>)
qed

lemma final_block_text:
  assumes B: "B = tls_block_size h" and L: "L = tls_length_size h" "0 < L" "L < B" "B \<le> 128"
    and header: "length header = 13" and n: "13 \<le> n" "n \<le> length data + 13" "n < 2 ^ 30" and lb: "length lb = L"
    and i: "i \<le> (n + L) div B"
  shows "tls_final_block h header data (n mod B) (n div B) ((n + L) div B) lb i (i * B) =
    take B (drop (B * i) (take n (header @ data) @ [0x80] @ replicate ((2 * B - 1 - L - n mod B) mod B) 0 @ lb))"
proof -
  define q c q' z where "q = n div B" and "c = n mod B" and "q' = (n + L) div B" and "z = (2 * B - 1 - L - n mod B) mod B"
  have pad: "n + 1 + z + L = B * (q' + 1)" "q \<le> q'" "q' = q \<longleftrightarrow> c + L < B" "q' \<le> q + 1"
    unfolding q_def c_def q'_def z_def by (rule pad_blocks [OF L(2,3)])+
  have nq: "n = B * q + c" "c < B" using L by (simp_all add: q_def c_def)
  have small: "q < 2 ^ 32" "q' < 2 ^ 32" "c < 2 ^ 32" "i < 2 ^ 32"
  proof -
    have le: "q \<le> n" "q' \<le> q + 1" "i \<le> q'" using div_le_dividend [of n B] pad(4) i by (simp_all add: q_def q'_def)
    have "n < 1073741824" using n(3) by simp
    then have "q < 4294967296" "q' < 4294967296" "c < 4294967296" "i < 4294967296" using le nq L(4) by linarith+
    then show "q < 2 ^ 32" "q' < 2 ^ 32" "c < 2 ^ 32" "i < 2 ^ 32" by simp_all
  qed
  let ?text = "take n (header @ data)"
  let ?pt = "?text @ [0x80] @ replicate z 0 @ lb"
  have len_text: "length ?text = n" using n header by simp
  have len: "length ?pt = B * (q' + 1)" using pad(1) lb by (simp only: length_append len_text) simp
  have byte: "tls_final_byte h header data c q q' lb i (i * B + j) j = ?pt ! (B * i + j)" if j: "j < B" for j
  proof -
    let ?p = "B * i + j"
    have sel: "tls_final_byte h header data c q q' lb i ?p j =
      (if B - L \<le> j \<and> i = q' then lb ! (j - (B - L)) else if i = q \<and> c < j then 0 else if i = q \<and> c = j then 0x80
       else if i = q' \<and> i \<noteq> q then 0 else if ?p < 13 then header ! ?p else if ?p < length data + 13 then data ! (?p - 13) else 0)"
      using tls_final_byte_select [OF small(4,1,2,3), of j h header data lb ?p] j L(4) unfolding B [symmetric] L(1) [symmetric]
      by simp
    have base: "?text ! ?p = (if ?p < 13 then header ! ?p else if ?p < length data + 13 then data ! (?p - 13) else 0)" if "?p < n"
      using that n header by (simp add: nth_append)
    note nth = padded_nth [OF len_text, of "0x80" z lb ?p]
    consider (before) "i < q" | (at) "i = q" "q' = q" "c + L < B" | (at_a) "i = q" "q' = q + 1" | (at_b) "i = q + 1" "q' = q + 1"
      using i pad(2-4) unfolding q'_def [symmetric] by linarith
    then have "tls_final_byte h header data c q q' lb i ?p j = ?pt ! ?p"
    proof cases
      case before
      then have "B * i + B \<le> B * q" using mult_le_mono2 [of "i + 1" q B] by simp
      then have "?p < n" using j nq by linarith
      then show ?thesis using before base pad(2) unfolding sel nth by auto
    next
      case at
      then have "n + 1 + z = B * i + (B - L)" using pad(1) L by (simp add: algebra_simps)
      then show ?thesis using at base nq j unfolding sel nth by auto
    next
      case at_a
      then have "n + 1 + z = B * i + B + (B - L)" using pad(1) L by (simp add: algebra_simps)
      then show ?thesis using at_a base nq j unfolding sel nth by auto
    next
      case at_b
      then have "n + 1 + z = B * i + (B - L)" "B * i = B * q + B" using pad(1) L by (simp_all add: algebra_simps)
      then show ?thesis using at_b nq j unfolding sel nth by auto
    qed
    then show ?thesis by (simp only: mult.commute [of i B])
  qed
  have room: "B * i + B \<le> length ?pt"
    unfolding len using mult_le_mono2 [of "i + 1" "q' + 1" B] i unfolding q'_def [symmetric] by simp
  have "map (\<lambda>j. tls_final_byte h header data c q q' lb i (i * B + j) j) [0..<B] = take B (drop (B * i) p)"
    if "B * i + B \<le> length p" "\<And>j. j < B \<Longrightarrow> tls_final_byte h header data c q q' lb i (i * B + j) j = p ! (B * i + j)" for p
    by (rule nth_equalityI) (use that in simp_all)
  from this [OF room byte] have "tls_final_block h header data c q q' lb i (i * B) = take B (drop (B * i) ?pt)"
    by (simp only: tls_final_block_def B)
  then show ?thesis unfolding q_def c_def q'_def z_def .
qed

section \<open>The inner hash\<close>

lemma take_drop_take: "k + b \<le> n \<Longrightarrow> take b (drop k (take n xs)) = take b (drop k xs)"
  by (simp add: drop_take min_absorb1)

text \<open>The hash function compresses the blocks of the padded message, and its sizes are those of the table.\<close>

locale tls_hash =
  fixes md :: evp_md and h :: tls_md
  assumes select: "tls_select md = Some h"
    and sizes: "tls_size h = md_size (evp_method md)" "tls_block_size h = md_block_size (evp_method md)"
      "64 \<le> tls_block_size h" "tls_block_size h \<le> 128" "4 \<le> tls_length_size h" "tls_length_size h \<le> 16" "tls_size h \<le> 48"
    and digest: "length m < 2 ^ 28 \<Longrightarrow> digest_of md m = take (tls_size h) (tls_final_raw h
      (foldl (tls_transform h) (tls_state h) (fips_blocks (tls_block_size h) (tls_pad (tls_block_size h) (tls_length_size h) m))))"
begin

text \<open>The variable blocks: their number is enough for every padding.\<close>

lemma variance:
  assumes "tls_size h \<le> p" "p \<le> dlen" "dlen \<le> p + 256" and n: "n = p + 13 - tls_size h"
    and nb: "nb = (dlen + 13 - tls_size h + tls_length_size h + tls_block_size h - 1) div tls_block_size h"
    and s: "s = (if 6 < nb then nb - 6 else 0)"
  shows "tls_block_size h * s \<le> n" "s \<le> n div tls_block_size h" "(n + tls_length_size h) div tls_block_size h < s + 7"
proof -
  let ?B = "tls_block_size h" and ?L = "tls_length_size h"
  show le: "?B * s \<le> n"
  proof (cases "6 < nb")
    case True
    then have "?B * s = ?B * nb - 6 * ?B" using s by (simp add: diff_mult_distrib2 mult.commute)
    moreover have "?B * nb \<le> dlen + 13 - tls_size h + ?L + ?B - 1" unfolding nb by (rule times_div_less_eq_dividend)
    ultimately show ?thesis using assms(1-3) n sizes(3-7) by linarith
  qed (simp add: s)
  then show "s \<le> n div ?B" using sizes(3) by (simp add: less_eq_div_iff_mult_less_eq mult.commute)
  have "n + ?L \<le> dlen + 13 - tls_size h + ?L + ?B - 1" using assms(1-3) n sizes(3) by linarith
  then have "(n + ?L) div ?B \<le> nb" unfolding nb by (rule div_le_mono)
  then show "(n + ?L) div ?B < s + 7" using s by auto
qed

lemma inner:
  assumes "length header = 13" and "tls_size h \<le> p" "p \<le> length data" "length data \<le> p + 256" "length data < 2 ^ 20"
    and pad: "length pad = tls_block_size h"
  shows "tls_inner h header data p pad = Some (digest_of md (pad @ header @ take (p - tls_size h) data))"
proof -
  let ?B = "tls_block_size h" and ?L = "tls_length_size h"
  define n nb where "n = p + 13 - tls_size h"
    and "nb = (length data + 13 - tls_size h + ?L + ?B - 1) div ?B"
  define s q q' where "s = (if 6 < nb then nb - 6 else 0)" and "q = n div ?B" and "q' = (n + ?L) div ?B"
  define z lb where "z = (2 * ?B - 1 - ?L - n mod ?B) mod ?B" and "lb = replicate (?L - 4) 0 @ be_bytes 4 (of_nat (8 * n + 8 * ?B) :: u32)"
  note var = variance [OF assms(2-4) n_def nb_def s_def, folded q_def q'_def]
  have B: "0 < ?B" "?B \<noteq> 0" "0 < ?L" "?L < ?B" using sizes by simp_all
  have dlen: "length data < 1048576" using assms(5) by simp
  have n: "13 \<le> n" "n \<le> length data + 13" "n < 2 ^ 30" using assms(2,3) dlen by (simp_all add: n_def)
  have lb: "length lb = ?L" using sizes(5) by (simp add: lb_def)
  define msg where "msg = header @ take (p - tls_size h) data"
  have msg: "take n (header @ data) = msg" "length msg = n"
    using assms(1-3) by (simp_all add: msg_def n_def)
  define pt where "pt = msg @ [0x80] @ replicate z 0 @ lb"
  have len_pt: "length pt = ?B * (q' + 1)"
    using pad_blocks(1) [OF B(3,4), of n] lb msg(2) by (simp add: pt_def q'_def z_def)
  have padded: "tls_pad ?B ?L (pad @ msg) = pad @ pt"
    using pad msg(2) by (simp add: tls_pad_def pt_def z_def lb_def add.commute)
  have blocks: "fips_blocks ?B (tls_pad ?B ?L (pad @ msg)) = pad # map (\<lambda>i. take ?B (drop (?B * i) pt)) [0..<q' + 1]"
  proof -
    have "fips_blocks ?B (pad @ pt) = fips_blocks ?B pad @ fips_blocks ?B pt"
      using pad B(1) by (intro fips_blocks_append) simp_all
    then show ?thesis
      unfolding padded fips_blocks_one [OF pad B(1)] using B(1) by (simp add: fips_blocks_def len_pt del: upt_Suc)
  qed
  have sub: "size_sub (size_sub (length data + 13) (tls_size h)) 1 = length data + 13 - tls_size h - 1"
    "size_sub (p + 13) (tls_size h) = n"
    using assms(2,3) dlen by (simp_all add: size_sub n_def)
  have nb: "(length data + 13 - tls_size h - 1 + 1 + ?L + ?B - 1) mod 2 ^ 64 div ?B = nb"
  proof -
    have "length data + 13 - tls_size h - 1 + 1 + ?L + ?B - 1 = length data + 13 - tls_size h + ?L + ?B - 1"
      using assms(2,3) by linarith
    moreover have "length data + 13 - tls_size h + ?L + ?B - 1 < 2 ^ 64" using dlen sizes(3-7) by simp
    ultimately show ?thesis by (simp only: nb_def mod_less)
  qed
  have wrap: "(n + ?L) mod 2 ^ 64 div ?B = q'" "(8 * n + 8 * ?B) mod 2 ^ 64 = 8 * n + 8 * ?B"
    using n sizes(4,6) by (simp_all add: q'_def)
  let ?tr = "foldl (tls_transform h)" and ?st = "tls_transform h (tls_state h) pad"
  have start: "tls_start h header data (?B * s) ?st = Some (?tr ?st (map (\<lambda>i. take ?B (drop (?B * i) pt)) [0..<s]))"
  proof -
    have "take ?B (drop (?B * i) (header @ data)) = take ?B (drop (?B * i) pt)" if "i < s" for i
    proof -
      have room: "?B * i + ?B \<le> n" using mult_le_mono2 [of "i + 1" s ?B] that var(1) by simp
      then have "take ?B (drop (?B * i) (take n (header @ data))) = take ?B (drop (?B * i) (header @ data))"
        "take ?B (drop (?B * i) pt) = take ?B (drop (?B * i) msg)"
        by (rule take_drop_take) (use room msg(2) in \<open>simp add: pt_def\<close>)
      then show ?thesis unfolding msg(1) by simp
    qed
    then have blk: "map (\<lambda>i. take ?B (drop (?B * i) (header @ data))) [0..<s] = map (\<lambda>i. take ?B (drop (?B * i) pt)) [0..<s]"
      by (intro map_cong refl) simp
    show ?thesis
      unfolding blk [symmetric] by (rule tls_start_text [OF assms(1)]) (use var(1) n sizes(3) in simp_all)
  qed
  have "q' \<le> n + ?L" unfolding q'_def by (rule div_le_dividend)
  then have small: "s + 7 < 2 ^ 32"
    using var(1) n B(1) sizes(6) mult_le_mono1 [of 1 ?B s] by (simp; linarith)
  have "s \<le> q'" using var(2) pad_blocks(2) [OF B(3,4), of n] unfolding q_def q'_def by linarith
  then have final: "tls_final_blocks h header data (n mod ?B) q q' lb s (?B * s) 7 st (replicate (tls_size h) 0) =
      map (\<lambda>j. tls_final_raw h (?tr st (map (\<lambda>i. take ?B (drop (?B * i) pt)) [s..<q' + 1])) ! j) [0..<tls_size h]" for st
    using final_block_text [OF refl refl B(3,4) sizes(4) assms(1) n lb] var(3) small
    unfolding q_def q'_def z_def [symmetric] msg(1) pt_def
    by (intro final_blocks) (simp_all add: mult.commute)
  have "[0..<q' + 1] = [0..<s] @ [s..<q' + 1]" using upt_add_eq_append [of 0 s "q' + 1 - s"] \<open>s \<le> q'\<close> by simp
  then have all: "?tr (?tr ?st (map (\<lambda>i. take ?B (drop (?B * i) pt)) [0..<s])) (map (\<lambda>i. take ?B (drop (?B * i) pt)) [s..<q' + 1]) =
      ?tr (tls_state h) (fips_blocks ?B (tls_pad ?B ?L (pad @ msg)))"
    unfolding blocks by (simp only: foldl.simps map_append foldl_append)
  have "length (pad @ msg) < 2 ^ 28" using pad msg(2) n(2) dlen sizes(4) by simp
  from digest [OF this]
  have d: "digest_of md (pad @ msg) = take (tls_size h) (tls_final_raw h (?tr (tls_state h) (fips_blocks ?B (tls_pad ?B ?L (pad @ msg)))))" .
  then have "tls_size h \<le> length (tls_final_raw h (?tr (tls_state h) (fips_blocks ?B (tls_pad ?B ?L (pad @ msg)))))"
    using length_digest_of [of md "pad @ msg"] sizes(1) by simp
  then have take_raw: "map (\<lambda>j. tls_final_raw h (?tr (tls_state h) (fips_blocks ?B (tls_pad ?B ?L (pad @ msg)))) ! j) [0..<tls_size h] =
      digest_of md (pad @ msg)"
    unfolding d by (intro nth_equalityI) simp_all
  have "tls_inner h header data p pad = Some (digest_of md (pad @ msg))"
    unfolding tls_inner_def Let_def sub nb s_def [symmetric] q_def [symmetric] wrap lb_def [symmetric] start option.map final all take_raw ..
  then show ?thesis unfolding msg_def .
qed

end

section \<open>SHA-1, SHA-256 and SHA-384\<close>

lemma le_bytes_of_nat: "8 * n \<le> LENGTH('a) \<Longrightarrow> le_bytes n (of_nat x :: 'a::len word) = map (\<lambda>i. of_nat (x div 2 ^ (8 * i))) [0..<n]"
  unfolding le_bytes_def by (intro map_cong refl byte_of_nat) auto

lemma be_bytes_small:
  assumes "x < 2 ^ 32" and "4 \<le> L" "8 * L \<le> LENGTH('b::len)"
  shows "be_bytes L (of_nat x :: 'b word) = replicate (L - 4) 0 @ be_bytes 4 (of_nat x :: u32)"
proof -
  have "[0..<L] = [0..<4] @ [4..<L]" using upt_add_eq_append [of 0 4 "L - 4"] assms(2) by simp
  moreover have "map (\<lambda>i. of_nat (x div 2 ^ (8 * i)) :: byte) [4..<L] = replicate (L - 4) 0"
  proof (rule nth_equalityI)
    fix k
    assume "k < length (map (\<lambda>i. of_nat (x div 2 ^ (8 * i)) :: byte) [4..<L])"
    then have "(2 :: nat) ^ 32 \<le> 2 ^ (8 * (4 + k))" "k < L - 4" by (simp_all only: power_increasing_iff) simp_all
    then have "x div 2 ^ (8 * (4 + k)) = 0" using assms(1) by (intro div_less) linarith
    then show "map (\<lambda>i. of_nat (x div 2 ^ (8 * i)) :: byte) [4..<L] ! k = replicate (L - 4) 0 ! k" using \<open>k < L - 4\<close> by simp
  qed simp
  ultimately show ?thesis unfolding be_bytes_def using le_bytes_of_nat [of L, where 'a = 'b] le_bytes_of_nat [of 4, where 'a = 32] assms(3) by simp
qed

lemma pads_tls: "length m < 2 ^ 28 \<Longrightarrow> pad_message True m = tls_pad 64 8 m" "length m < 2 ^ 28 \<Longrightarrow> pad_message_128 m = tls_pad 128 16 m"
proof -
  assume "length m < 2 ^ 28"
  then have "8 * length m < 2 ^ 32" by simp
  note small = be_bytes_small [OF this]
  show "pad_message True m = tls_pad 64 8 m"
    using small [of 8, where 'b = 64] by (simp add: pad_message_def length_bytes_def tls_pad_def)
  show "pad_message_128 m = tls_pad 128 16 m"
    using small [of 16, where 'b = 128] by (simp add: pad_message_128_def tls_pad_def)
qed

lemma sha1_chain:
  "length (hash_h c) = 5 \<Longrightarrow> \<exists>c'. foldl tls1_sha1_transform (Tls_sha1 c) bss = Tls_sha1 c' \<and>
     hash_h c' = foldl fips1_compress (hash_h c) (map (take 64) bss) \<and> length (hash_h c') = 5"
proof (induction bss arbitrary: c)
  case (Cons b bss)
  let ?c = "SHA1_Transform c b"
  have "hash_h ?c = fips1_compress (hash_h c) (take 64 b)" "length (hash_h ?c) = 5"
    using sha1_block [OF Cons(2), of "take 64 b"] by (simp_all add: SHA1_Transform_def HASH_TRANSFORM_def sha1_md32_def)
  then show ?case using Cons(1) [of ?c] by simp
qed simp

lemma sha256_chain:
  "length (hash_h c) = 8 \<Longrightarrow> \<exists>c'. foldl tls1_sha256_transform (Tls_sha256 c) bss = Tls_sha256 c' \<and>
     hash_h c' = foldl fips256_compress (hash_h c) (map (take 64) bss) \<and> length (hash_h c') = 8"
proof (induction bss arbitrary: c)
  case (Cons b bss)
  let ?c = "SHA256_Transform c b"
  have "hash_h ?c = fips256_compress (hash_h c) (take 64 b)" "length (hash_h ?c) = 8"
    using sha256_block [OF Cons(2), of "take 64 b"] by (simp_all add: SHA256_Transform_def HASH_TRANSFORM_def sha256_md32_def)
  then show ?case using Cons(1) [of ?c] by simp
qed simp

lemma sha512_chain:
  "length (sha_h c) = 8 \<Longrightarrow> \<exists>c'. foldl tls1_sha512_transform (Tls_sha512 c) bss = Tls_sha512 c' \<and>
     sha_h c' = foldl fips512_compress (sha_h c) (map (take 128) bss) \<and> length (sha_h c') = 8"
proof (induction bss arbitrary: c)
  case (Cons b bss)
  let ?c = "SHA512_Transform c b"
  have "sha_h ?c = fips512_compress (sha_h c) (take 128 b)" "length (sha_h ?c) = 8"
    using sha512_block [OF Cons(2), of "take 128 b"] by (simp_all add: SHA512_Transform_def)
  then show ?case using Cons(1) [of ?c] by simp
qed simp

lemma take_fips_blocks: "map (take n) (fips_blocks n bs) = fips_blocks n bs"
  by (simp add: fips_blocks_def)

definition tls_sha1 :: tls_md where "tls_sha1 = the (tls_select EVP_sha1)"
definition tls_sha256 :: tls_md where "tls_sha256 = the (tls_select EVP_sha256)"
definition tls_sha384 :: tls_md where "tls_sha384 = the (tls_select EVP_sha384)"

interpretation tls1: tls_hash EVP_sha1 tls_sha1
proof
  fix m :: "byte list"
  assume "length m < 2 ^ 28"
  then show "digest_of EVP_sha1 m = take (tls_size tls_sha1) (tls_final_raw tls_sha1 (foldl (tls_transform tls_sha1)
      (tls_state tls_sha1) (fips_blocks (tls_block_size tls_sha1) (tls_pad (tls_block_size tls_sha1) (tls_length_size tls_sha1) m))))"
    using sha1_chain [of SHA1_Init "fips_blocks 64 (tls_pad 64 8 m)"]
    by (auto simp: tls_sha1_def fips_hash_def pads_tls take_fips_blocks words_string_def length_words [unfolded words_string_def]
      SHA1_Init_def)
qed (simp_all add: tls_sha1_def)

interpretation tls256: tls_hash EVP_sha256 tls_sha256
proof
  fix m :: "byte list"
  assume "length m < 2 ^ 28"
  then show "digest_of EVP_sha256 m = take (tls_size tls_sha256) (tls_final_raw tls_sha256 (foldl (tls_transform tls_sha256)
      (tls_state tls_sha256) (fips_blocks (tls_block_size tls_sha256) (tls_pad (tls_block_size tls_sha256) (tls_length_size tls_sha256) m))))"
    using sha256_chain [of SHA256_Init "fips_blocks 64 (tls_pad 64 8 m)"]
    by (auto simp: tls_sha256_def fips_hash_def pads_tls take_fips_blocks words_string_def length_words [unfolded words_string_def]
      SHA256_Init_def)
qed (simp_all add: tls_sha256_def)

lemma take_words_64: "take (8 * n) (concat (map (be_bytes 8) ws)) = concat (map (be_bytes 8) (take n ws))"
proof (induction n arbitrary: ws)
  case (Suc n)
  then show ?case by (cases ws) simp_all
qed simp

interpretation tls384: tls_hash EVP_sha384 tls_sha384
proof
  fix m :: "byte list"
  assume "length m < 2 ^ 28"
  then show "digest_of EVP_sha384 m = take (tls_size tls_sha384) (tls_final_raw tls_sha384 (foldl (tls_transform tls_sha384)
      (tls_state tls_sha384) (fips_blocks (tls_block_size tls_sha384) (tls_pad (tls_block_size tls_sha384) (tls_length_size tls_sha384) m))))"
    using sha512_chain [of "SHA384_Init (raw_sha512 [])" "fips_blocks 128 (tls_pad 128 16 m)"]
      init_absorbed_512(4) [of "raw_sha512 (replicate 216 0)"]
    by (auto simp: tls_sha384_def fips512_hash_def pads_tls take_fips_blocks words_string_64_def sha512_H raw_sha512_def
      take_words_64 [of 6, simplified])
qed (simp_all add: tls_sha384_def)

section \<open>The code of a record\<close>

context tls_hash begin

lemma record_hmac:
  assumes "length header = 13" and "md_size (evp_method md) \<le> p" "p \<le> length data" "length data \<le> p + 256" "length data < 2 ^ 20"
    and key: "length key \<le> md_block_size (evp_method md)" and mem: "block_of md mem"
  shows "EVP_tls_cbc_digest_record mem md header data p key =
    (if mem = None then Fail EVP_MD_CTX_init
     else Ok (hmac_of md key (header @ take (p - md_size (evp_method md)) data)) EVP_MD_CTX_init)"
proof -
  let ?m = "header @ take (p - tls_size h) data" and ?c = "EVP_MD_CTX_init :: unit evp_md_ctx"
  have key: "length key \<le> tls_block_size h" using key sizes(2) by simp
  then have "take (tls_block_size h) (key @ replicate (tls_block_size h - length key) 0) = hmac_block md key"
    by (simp add: hmac_block_def EVP_MD_block_size_def sizes(2) [symmetric])
  then have pads: "map (\<lambda>b. b XOR 0x36) (take (tls_block_size h) (key @ replicate (tls_block_size h - length key) 0)) = ipad md key"
    "map (\<lambda>b. b XOR 0x6A) (ipad md key) = opad md key"
    by (simp_all add: ipad_def opad_def xor.commute xor.left_commute xor.assoc)
  have "length (ipad md key) = tls_block_size h"
    using key by (simp add: ipad_def hmac_block_def EVP_MD_block_size_def sizes(2) [symmetric])
  then have inner: "tls_inner h header data p (ipad md key) = Some (digest_of md (ipad md key @ ?m))"
    using assms sizes(1) by (intro inner) simp_all
  have guards: "(1024 * 1024 \<le> length data) = False"
    "(16 < tls_length_size h \<or> 128 < tls_block_size h \<or> 64 < tls_size h \<or> 128 < length key \<or> length header \<noteq> 13) = False"
    using assms(1,5) sizes(3-7) key by auto
  let ?outer = "case EVP_DigestInit_ex mem (Some md) ?c of
       Fail ctx \<Rightarrow> rbind (EVP_MD_CTX_cleanup ctx) (\<lambda>_ ctx. Fail ctx)
     | Ok _ ctx \<Rightarrow>
         rbind (EVP_DigestUpdate (opad md key) ctx) (\<lambda>_ ctx.
         rbind (EVP_DigestUpdate (digest_of md (ipad md key @ ?m)) ctx) (\<lambda>_ ctx. EVP_DigestFinal ctx))
     | UB \<Rightarrow> UB | NoFuel \<Rightarrow> NoFuel"
  have code: "EVP_tls_cbc_digest_record mem md header data p key = ?outer"
    unfolding EVP_tls_cbc_digest_record_def guards if_False select option.case Let_def pads inner ..
  show ?thesis
  proof (cases "mem = None")
    case True
    then have "EVP_DigestInit_ex mem (Some md) ?c = Fail ?c"
      using evp.sizes(4) [of md] by (simp add: EVP_DigestInit_ex_def)
    then show ?thesis unfolding code using True cleanup_ok [of ?c] by (simp add: typed_pctx)
  next
    case False
    then obtain c1 where c1: "EVP_DigestInit_ex mem (Some md) ?c = Ok () c1" "live md [] c1"
      using DigestInit_ex [OF typed_init(1) mem] by blast
    obtain c2 where c2: "EVP_DigestUpdate (opad md key) c1 = Ok () c2" "live md (opad md key) c2"
      using DigestUpdate [OF c1(2), of "opad md key"] by auto
    obtain c3 where c3: "EVP_DigestUpdate (digest_of md (ipad md key @ ?m)) c2 = Ok () c3"
      "live md (opad md key @ digest_of md (ipad md key @ ?m)) c3"
      using DigestUpdate [OF c2(2), of "digest_of md (ipad md key @ ?m)"] by auto
    show ?thesis using False c1(1) c2(1) c3(1) DigestFinal [OF c3(2)] sizes(1) by (simp add: code hmac_of_def)
  qed
qed

end

text \<open>C33: for a record whose data, MAC and padding lie in a buffer, with at most 256 bytes after the MAC, the digest
  that \<open>EVP_tls_cbc_digest_record\<close> computes is the HMAC of the header and the data in front of the MAC, whatever
  the secret length is; nothing outside of the buffer is read, and the only failure is that of an allocation.\<close>

theorem tls_record_hmac:
  assumes "EVP_tls_cbc_record_digest_supported md" and "length header = 13"
    and "EVP_MD_size md \<le> p" "p \<le> length data" "length data \<le> p + 256" "length data < 2 ^ 20"
    and "length key \<le> EVP_MD_block_size md" and "block_of md mem"
  shows "EVP_tls_cbc_digest_record mem md header data p key =
    (if mem = None then Fail EVP_MD_CTX_init
     else Ok (hmac_of md key (header @ take (p - EVP_MD_size md) data)) EVP_MD_CTX_init)"
proof -
  consider "md = EVP_sha1" | "md = EVP_sha256" | "md = EVP_sha384"
    using assms(1) by (cases md) (simp_all add: EVP_tls_cbc_record_digest_supported_def EVP_MD_type_def)
  then show ?thesis
    using assms(2-8) tls1.record_hmac [of header p data key mem] tls256.record_hmac [of header p data key mem]
      tls384.record_hmac [of header p data key mem]
    unfolding EVP_MD_size_def EVP_MD_block_size_def by cases blast+
qed

lemma tls_record_hmac_witness:
  "EVP_tls_cbc_record_digest_supported EVP_sha256 \<and> block_of EVP_sha256 (Some (replicate 112 0)) \<and>
   EVP_tls_cbc_digest_record (Some (replicate 112 0)) EVP_sha256 (replicate 13 1) (replicate 600 2) 400 [3] =
     Ok (hmac_of EVP_sha256 [3] (replicate 13 1 @ replicate 368 2)) EVP_MD_CTX_init"
proof -
  have ok: "EVP_tls_cbc_record_digest_supported EVP_sha256" "block_of EVP_sha256 (Some (replicate 112 0))"
    by (simp_all add: EVP_tls_cbc_record_digest_supported_def EVP_MD_type_def block_of_def)
  have "EVP_tls_cbc_digest_record (Some (replicate 112 0)) EVP_sha256 (replicate 13 1) (replicate 600 2) 400 [3] =
      (if Some (replicate 112 0 :: byte list) = None then Fail EVP_MD_CTX_init
       else Ok (hmac_of EVP_sha256 [3] (replicate 13 1 @ take (400 - EVP_MD_size EVP_sha256) (replicate 600 2))) EVP_MD_CTX_init)"
    by (rule tls_record_hmac [OF ok(1) _ _ _ _ _ _ ok(2)]) (simp_all add: EVP_MD_size_def EVP_MD_block_size_def)
  then show ?thesis using ok by (simp add: EVP_MD_size_def)
qed

end
