(* ===== verification/Aead.thy ===== *)
theory Aead
  imports Prelude
begin

text \<open>
  The interface to ciphers with authentication, \<open>crypto/fipsmodule/cipher/aead.c\<close>: contexts, which hold a pointer to a table
  of functions, and the functions that check the arguments, call the table and clear the output after an error.
  An algorithm is a name of type \<open>'m\<close>, and \<open>meth\<close> the table behind the name; the memory of its state has type \<open>'s\<close>.
  An output buffer is the list of its bytes, all \<open>max_out_len\<close> of them, and is returned with its new contents; the
  addresses of the buffers are arguments of their own, which only the checks for overlaps read. After \<open>Fail\<close> the output
  length is 0.
\<close>

section \<open>Contexts\<close>

record ('m, 's) evp_aead_ctx =
  ctx_aead :: "'m option"
  aead_state :: "'s option"
  ctx_tag_len :: nat

datatype evp_aead_direction_t = evp_aead_open | evp_aead_seal

text \<open>A table of functions; optional entries may be null pointers. The first argument of an initialisation is whether
  \<open>OPENSSL_malloc\<close> succeeds.\<close>

record ('m, 's) evp_aead =
  a_key_len :: nat
  a_nonce_len :: nat
  a_overhead :: nat
  a_max_tag_len :: nat
  seal_scatter_supports_extra_in :: bool
  a_init :: "(bool \<Rightarrow> ('m, 's) evp_aead_ctx \<Rightarrow> byte list \<Rightarrow> nat \<Rightarrow> (unit, ('m, 's) evp_aead_ctx) res) option"
  a_init_with_direction :: "(bool \<Rightarrow> ('m, 's) evp_aead_ctx \<Rightarrow> byte list \<Rightarrow> nat \<Rightarrow> evp_aead_direction_t \<Rightarrow> (unit, ('m, 's) evp_aead_ctx) res) option"
  a_cleanup :: "('m, 's) evp_aead_ctx \<Rightarrow> ('m, 's) evp_aead_ctx"
  a_open :: "(('m, 's) evp_aead_ctx \<Rightarrow> byte list \<Rightarrow> byte list \<Rightarrow> byte list \<Rightarrow> byte list \<Rightarrow> (nat, byte list) res) option"
  a_seal_scatter :: "('m, 's) evp_aead_ctx \<Rightarrow> byte list \<Rightarrow> byte list \<Rightarrow> byte list \<Rightarrow> byte list \<Rightarrow> byte list \<Rightarrow> byte list \<Rightarrow> (nat, byte list \<times> byte list) res"
  a_open_gather :: "(('m, 's) evp_aead_ctx \<Rightarrow> byte list \<Rightarrow> byte list \<Rightarrow> byte list \<Rightarrow> byte list \<Rightarrow> byte list \<Rightarrow> (unit, byte list) res) option"
  a_get_iv :: "(('m, 's) evp_aead_ctx \<Rightarrow> byte list option) option"
  a_tag_len :: "(('m, 's) evp_aead_ctx \<Rightarrow> nat \<Rightarrow> nat \<Rightarrow> nat) option"

definition EVP_AEAD_key_length :: "('m, 's) evp_aead \<Rightarrow> nat" where "EVP_AEAD_key_length aead = a_key_len aead"
definition EVP_AEAD_nonce_length :: "('m, 's) evp_aead \<Rightarrow> nat" where "EVP_AEAD_nonce_length aead = a_nonce_len aead"
definition EVP_AEAD_max_overhead :: "('m, 's) evp_aead \<Rightarrow> nat" where "EVP_AEAD_max_overhead aead = a_overhead aead"
definition EVP_AEAD_max_tag_len :: "('m, 's) evp_aead \<Rightarrow> nat" where "EVP_AEAD_max_tag_len aead = a_max_tag_len aead"

definition EVP_AEAD_CTX_zero :: "('m, 's) evp_aead_ctx" where
  "EVP_AEAD_CTX_zero = \<lparr>ctx_aead = None, aead_state = None, ctx_tag_len = 0\<rparr>"

definition EVP_AEAD_CTX_init_with_direction ::
  "('m \<Rightarrow> ('m, 's) evp_aead) \<Rightarrow> bool \<Rightarrow> ('m, 's) evp_aead_ctx \<Rightarrow> 'm \<Rightarrow> byte list \<Rightarrow> nat \<Rightarrow> evp_aead_direction_t \<Rightarrow> (unit, ('m, 's) evp_aead_ctx) res" where
  "EVP_AEAD_CTX_init_with_direction meth malloc_ok ctx aead key tag_len dir =
     (if length key \<noteq> a_key_len (meth aead) then Fail (ctx\<lparr>ctx_aead := None\<rparr>)
      else let ctx = ctx\<lparr>ctx_aead := Some aead\<rparr>;
        ok = (case a_init (meth aead) of Some f \<Rightarrow> f malloc_ok ctx key tag_len
          | None \<Rightarrow> (case a_init_with_direction (meth aead) of Some f \<Rightarrow> f malloc_ok ctx key tag_len dir | None \<Rightarrow> UB))
      in case ok of Fail ctx \<Rightarrow> Fail (ctx\<lparr>ctx_aead := None\<rparr>) | _ \<Rightarrow> ok)"

definition EVP_AEAD_CTX_init ::
  "('m \<Rightarrow> ('m, 's) evp_aead) \<Rightarrow> bool \<Rightarrow> ('m, 's) evp_aead_ctx \<Rightarrow> 'm \<Rightarrow> byte list \<Rightarrow> nat \<Rightarrow> (unit, ('m, 's) evp_aead_ctx) res" where
  "EVP_AEAD_CTX_init meth malloc_ok ctx aead key tag_len =
     (if a_init (meth aead) = None then Fail (ctx\<lparr>ctx_aead := None\<rparr>)
      else EVP_AEAD_CTX_init_with_direction meth malloc_ok ctx aead key tag_len evp_aead_open)"

definition EVP_AEAD_CTX_cleanup :: "('m \<Rightarrow> ('m, 's) evp_aead) \<Rightarrow> ('m, 's) evp_aead_ctx \<Rightarrow> ('m, 's) evp_aead_ctx" where
  "EVP_AEAD_CTX_cleanup meth ctx =
     (case ctx_aead ctx of None \<Rightarrow> ctx | Some m \<Rightarrow> (a_cleanup (meth m) ctx)\<lparr>ctx_aead := None\<rparr>)"

text \<open>A null result of the first \<open>OPENSSL_malloc\<close> is passed on to \<open>memset\<close>.\<close>

definition EVP_AEAD_CTX_new ::
  "('m \<Rightarrow> ('m, 's) evp_aead) \<Rightarrow> bool \<Rightarrow> bool \<Rightarrow> 'm \<Rightarrow> byte list \<Rightarrow> nat \<Rightarrow> (unit, ('m, 's) evp_aead_ctx) res" where
  "EVP_AEAD_CTX_new meth ctx_ok malloc_ok aead key tag_len =
     (if \<not> ctx_ok then UB
      else case EVP_AEAD_CTX_init meth malloc_ok EVP_AEAD_CTX_zero aead key tag_len of
        Ok _ ctx \<Rightarrow> Ok () ctx | Fail ctx \<Rightarrow> Fail (EVP_AEAD_CTX_cleanup meth ctx) | UB \<Rightarrow> UB | NoFuel \<Rightarrow> NoFuel)"

section \<open>Overlaps\<close>

definition buffers_alias :: "u64 \<Rightarrow> nat \<Rightarrow> u64 \<Rightarrow> nat \<Rightarrow> bool" where
  "buffers_alias a a_len b b_len \<longleftrightarrow> b < a + of_nat a_len \<and> a < b + of_nat b_len"

definition check_alias :: "u64 \<Rightarrow> nat \<Rightarrow> u64 \<Rightarrow> nat \<Rightarrow> bool" where
  "check_alias inp in_len outp out_len = (if \<not> buffers_alias inp in_len outp out_len then True else inp = outp)"

section \<open>Sealing and opening\<close>

definition EVP_AEAD_CTX_seal ::
  "('m \<Rightarrow> ('m, 's) evp_aead) \<Rightarrow> ('m, 's) evp_aead_ctx \<Rightarrow> u64 \<Rightarrow> u64 \<Rightarrow> byte list \<Rightarrow> byte list \<Rightarrow> byte list \<Rightarrow> byte list \<Rightarrow> (nat, byte list) res" where
  "EVP_AEAD_CTX_seal meth ctx inp outp out nonce ins ad =
     (case ctx_aead ctx of None \<Rightarrow> UB | Some m \<Rightarrow>
      let max_out_len = length out; in_len = length ins; error = Fail (replicate max_out_len 0) in
      if (of_nat in_len + of_nat (a_overhead (meth m)) :: u64) < of_nat in_len then error
      else if max_out_len < in_len then error
      else if \<not> check_alias inp in_len outp max_out_len then error
      else case a_seal_scatter (meth m) ctx (take in_len out) (drop in_len out) nonce ins [] ad of
        Ok out_tag_len (out, out_tag) \<Rightarrow> Ok (in_len + out_tag_len) (out @ out_tag)
      | Fail _ \<Rightarrow> error | UB \<Rightarrow> UB | NoFuel \<Rightarrow> NoFuel)"

definition EVP_AEAD_CTX_seal_scatter ::
  "('m \<Rightarrow> ('m, 's) evp_aead) \<Rightarrow> ('m, 's) evp_aead_ctx \<Rightarrow> u64 \<Rightarrow> u64 \<Rightarrow> u64 \<Rightarrow> byte list \<Rightarrow> byte list \<Rightarrow> byte list \<Rightarrow> byte list \<Rightarrow> byte list \<Rightarrow> byte list \<Rightarrow>
     (nat, byte list \<times> byte list) res" where
  "EVP_AEAD_CTX_seal_scatter meth ctx inp outp out_tagp out out_tag nonce ins extra_in ad =
     (let in_len = length ins; max_out_tag_len = length out_tag;
        error = Fail (replicate in_len 0 @ drop in_len out, replicate max_out_tag_len 0) in
      if length out < in_len then UB
      else if \<not> check_alias inp in_len outp in_len \<or> buffers_alias outp in_len out_tagp max_out_tag_len \<or>
        buffers_alias inp in_len out_tagp max_out_tag_len then error
      else case ctx_aead ctx of None \<Rightarrow> UB | Some m \<Rightarrow>
        if \<not> seal_scatter_supports_extra_in (meth m) \<and> length extra_in \<noteq> 0 then error
        else case a_seal_scatter (meth m) ctx out out_tag nonce ins extra_in ad of
          Ok out_tag_len bufs \<Rightarrow> Ok out_tag_len bufs | Fail _ \<Rightarrow> error | UB \<Rightarrow> UB | NoFuel \<Rightarrow> NoFuel)"

definition EVP_AEAD_CTX_open_gather ::
  "('m \<Rightarrow> ('m, 's) evp_aead) \<Rightarrow> ('m, 's) evp_aead_ctx \<Rightarrow> u64 \<Rightarrow> u64 \<Rightarrow> byte list \<Rightarrow> byte list \<Rightarrow> byte list \<Rightarrow> byte list \<Rightarrow> byte list \<Rightarrow> (unit, byte list) res" where
  "EVP_AEAD_CTX_open_gather meth ctx inp outp out nonce ins in_tag ad =
     (let in_len = length ins; error = (\<lambda>out. Fail (replicate in_len 0 @ drop in_len out)) in
      if length out < in_len then UB
      else if \<not> check_alias inp in_len outp in_len then error out
      else case ctx_aead ctx of None \<Rightarrow> UB | Some m \<Rightarrow>
        (case a_open_gather (meth m) of None \<Rightarrow> error out
         | Some f \<Rightarrow> (case f ctx out nonce ins in_tag ad of
             Ok _ out \<Rightarrow> Ok () out | Fail out \<Rightarrow> error out | UB \<Rightarrow> UB | NoFuel \<Rightarrow> NoFuel)))"

definition EVP_AEAD_CTX_open ::
  "('m \<Rightarrow> ('m, 's) evp_aead) \<Rightarrow> ('m, 's) evp_aead_ctx \<Rightarrow> u64 \<Rightarrow> u64 \<Rightarrow> byte list \<Rightarrow> byte list \<Rightarrow> byte list \<Rightarrow> byte list \<Rightarrow> (nat, byte list) res" where
  "EVP_AEAD_CTX_open meth ctx inp outp out nonce ins ad =
     (let max_out_len = length out; in_len = length ins; error = Fail (replicate max_out_len 0) in
      if \<not> check_alias inp in_len outp max_out_len then error
      else case ctx_aead ctx of None \<Rightarrow> UB | Some m \<Rightarrow>
        (case a_open (meth m) of
          Some f \<Rightarrow> (case f ctx out nonce ins ad of Ok out_len out \<Rightarrow> Ok out_len out | Fail _ \<Rightarrow> error | UB \<Rightarrow> UB | NoFuel \<Rightarrow> NoFuel)
        | None \<Rightarrow>
            if ctx_tag_len ctx = 0 then UB
            else if in_len < ctx_tag_len ctx then error
            else let plaintext_len = in_len - ctx_tag_len ctx in
              if max_out_len < plaintext_len then error
              else case EVP_AEAD_CTX_open_gather meth ctx inp outp out nonce (take plaintext_len ins) (drop plaintext_len ins) ad of
                Ok _ out \<Rightarrow> Ok plaintext_len out | Fail _ \<Rightarrow> error | UB \<Rightarrow> UB | NoFuel \<Rightarrow> NoFuel))"

definition EVP_AEAD_CTX_aead :: "('m, 's) evp_aead_ctx \<Rightarrow> 'm option" where "EVP_AEAD_CTX_aead ctx = ctx_aead ctx"

definition EVP_AEAD_CTX_get_iv :: "('m \<Rightarrow> ('m, 's) evp_aead) \<Rightarrow> ('m, 's) evp_aead_ctx \<Rightarrow> (byte list, unit) res" where
  "EVP_AEAD_CTX_get_iv meth ctx =
     (case ctx_aead ctx of None \<Rightarrow> UB | Some m \<Rightarrow>
        (case a_get_iv (meth m) of None \<Rightarrow> Fail () | Some f \<Rightarrow> (case f ctx of None \<Rightarrow> Fail () | Some iv \<Rightarrow> Ok iv ())))"

definition EVP_AEAD_CTX_tag_len :: "('m \<Rightarrow> ('m, 's) evp_aead) \<Rightarrow> ('m, 's) evp_aead_ctx \<Rightarrow> nat \<Rightarrow> nat \<Rightarrow> (nat, unit) res" where
  "EVP_AEAD_CTX_tag_len meth ctx in_len extra_in_len =
     (case ctx_aead ctx of None \<Rightarrow> UB | Some m \<Rightarrow>
        if \<not> seal_scatter_supports_extra_in (meth m) \<and> extra_in_len \<noteq> 0 then UB
        else (case a_tag_len (meth m) of Some f \<Rightarrow> Ok (f ctx in_len extra_in_len) ()
          | None \<Rightarrow> if (of_nat extra_in_len + of_nat (ctx_tag_len ctx) :: u64) < of_nat extra_in_len then Fail ()
              else Ok (extra_in_len + ctx_tag_len ctx) ()))"

end
