(* ===== verification/Chacha.thy ===== *)
theory Chacha
  imports Prelude
begin

text \<open>
  The stream cipher ChaCha20 without assembly, \<open>crypto/chacha/chacha.c\<close>. The state of sixteen words is a list
  that the quarter rounds update in place; the arrays for key and nonce are lists of 32 and 12 bytes. The
  function may work in place (\<open>in == out\<close>): it reads each byte before it writes it.
\<close>

definition U8TO32_LITTLE :: "byte list \<Rightarrow> nat \<Rightarrow> u32" where
  "U8TO32_LITTLE p i =
     ucast (p ! i) OR push_bit 8 (ucast (p ! (i + 1))) OR push_bit 16 (ucast (p ! (i + 2))) OR push_bit 24 (ucast (p ! (i + 3)))"

definition chacha_sigma :: "byte list" where
  "chacha_sigma = [0x65, 0x78, 0x70, 0x61, 0x6e, 0x64, 0x20, 0x33, 0x32, 0x2d, 0x62, 0x79, 0x74, 0x65, 0x20, 0x6b]"

definition chacha_ROTATE :: "u32 \<Rightarrow> nat \<Rightarrow> u32" where
  "chacha_ROTATE v n = push_bit n v OR drop_bit (32 - n) v"

definition U32TO8_LITTLE :: "u32 \<Rightarrow> byte list" where
  "U32TO8_LITTLE v = [ucast (v AND 0xff), ucast (drop_bit 8 v AND 0xff), ucast (drop_bit 16 v AND 0xff), ucast (drop_bit 24 v AND 0xff)]"

definition QUARTERROUND :: "nat \<Rightarrow> nat \<Rightarrow> nat \<Rightarrow> nat \<Rightarrow> u32 list \<Rightarrow> u32 list" where
  "QUARTERROUND a b c d x =
     (let x = x[a := x ! a + x ! b]; x = x[d := chacha_ROTATE (x ! d XOR x ! a) 16];
        x = x[c := x ! c + x ! d]; x = x[b := chacha_ROTATE (x ! b XOR x ! c) 12];
        x = x[a := x ! a + x ! b]; x = x[d := chacha_ROTATE (x ! d XOR x ! a) 8];
        x = x[c := x ! c + x ! d]; x = x[b := chacha_ROTATE (x ! b XOR x ! c) 7]
      in x)"

text \<open>The loop of \<open>n\<close> double rounds; \<open>i\<close> counts down from 20 in steps of 2.\<close>

fun chacha_rounds :: "nat \<Rightarrow> u32 list \<Rightarrow> u32 list" where
  "chacha_rounds 0 x = x"
| "chacha_rounds (Suc n) x =
     chacha_rounds n
       (QUARTERROUND 3 4 9 14 (QUARTERROUND 2 7 8 13 (QUARTERROUND 1 6 11 12 (QUARTERROUND 0 5 10 15
       (QUARTERROUND 3 7 11 15 (QUARTERROUND 2 6 10 14 (QUARTERROUND 1 5 9 13 (QUARTERROUND 0 4 8 12 x))))))))"

definition chacha_core :: "u32 list \<Rightarrow> byte list" where
  "chacha_core input =
     (let x = chacha_rounds 10 input; x = map (\<lambda>i. x ! i + input ! i) [0..<16]
      in concat (map (\<lambda>i. U32TO8_LITTLE (x ! i)) [0..<16]))"

definition chacha_input :: "byte list \<Rightarrow> byte list \<Rightarrow> u32 \<Rightarrow> u32 list" where
  "chacha_input key nonce counter =
     [U8TO32_LITTLE chacha_sigma 0, U8TO32_LITTLE chacha_sigma 4, U8TO32_LITTLE chacha_sigma 8, U8TO32_LITTLE chacha_sigma 12,
      U8TO32_LITTLE key 0, U8TO32_LITTLE key 4, U8TO32_LITTLE key 8, U8TO32_LITTLE key 12,
      U8TO32_LITTLE key 16, U8TO32_LITTLE key 20, U8TO32_LITTLE key 24, U8TO32_LITTLE key 28,
      counter, U8TO32_LITTLE nonce 0, U8TO32_LITTLE nonce 4, U8TO32_LITTLE nonce 8]"

text \<open>The loop over the input in pieces of at most 64 bytes.\<close>

fun chacha_loop :: "u32 list \<Rightarrow> byte list \<Rightarrow> byte list" where
  "chacha_loop input ins =
     (if length ins = 0 then []
      else let todo = (if length ins < 64 then length ins else 64); buf = chacha_core input
        in map (\<lambda>i. ins ! i XOR buf ! i) [0..<todo] @ chacha_loop (input[12 := input ! 12 + 1]) (drop todo ins))"

declare chacha_loop.simps [simp del]

definition CRYPTO_chacha_20 :: "byte list \<Rightarrow> byte list \<Rightarrow> byte list \<Rightarrow> u32 \<Rightarrow> byte list" where
  "CRYPTO_chacha_20 ins key nonce counter = chacha_loop (chacha_input key nonce counter) ins"

end
