(* ===== verification/Poly1305.thy ===== *)
theory Poly1305
  imports Prelude
begin

text \<open>
  The one-time authenticator Poly1305 with limbs of 26 bits, \<open>crypto/poly1305/poly1305.c\<close>. The registers keep
  their widths: the limbs are 32-bit words, whose products are 64-bit words. The alignment of the state inside of
  \<open>poly1305_state\<close> and the NEON variant are left out.
\<close>

record poly1305_state =
  poly_r0 :: u32
  poly_r1 :: u32
  poly_r2 :: u32
  poly_r3 :: u32
  poly_r4 :: u32
  poly_s1 :: u32
  poly_s2 :: u32
  poly_s3 :: u32
  poly_s4 :: u32
  poly_h0 :: u32
  poly_h1 :: u32
  poly_h2 :: u32
  poly_h3 :: u32
  poly_h4 :: u32
  poly_buf :: "byte list"
  poly_buf_used :: nat
  poly_key :: "byte list"

definition U8TO32_LE :: "byte list \<Rightarrow> nat \<Rightarrow> u32" where
  "U8TO32_LE m i = of_le (take 4 (drop i m))"

definition U32TO8_LE :: "u32 \<Rightarrow> byte list" where
  "U32TO8_LE v = le_bytes 4 v"

definition mul32x32_64 :: "u32 \<Rightarrow> u32 \<Rightarrow> u64" where
  "mul32x32_64 a b = ucast a * ucast b"

section \<open>Blocks\<close>

text \<open>The sixteen bytes of a block added to the limbs; \<open>hibit\<close> is \<open>1 << 24\<close> for a full block.\<close>

definition poly1305_add :: "u32 \<Rightarrow> poly1305_state \<Rightarrow> byte list \<Rightarrow> poly1305_state" where
  "poly1305_add hibit state m =
     (let t0 = U8TO32_LE m 0; t1 = U8TO32_LE m 4; t2 = U8TO32_LE m 8; t3 = U8TO32_LE m 12 in
      state\<lparr>poly_h0 := poly_h0 state + (t0 AND 0x3ffffff),
        poly_h1 := poly_h1 state + ucast (drop_bit 26 (push_bit 32 (ucast t1) OR ucast t0 :: u64) AND 0x3ffffff),
        poly_h2 := poly_h2 state + ucast (drop_bit 20 (push_bit 32 (ucast t2) OR ucast t1 :: u64) AND 0x3ffffff),
        poly_h3 := poly_h3 state + ucast (drop_bit 14 (push_bit 32 (ucast t3) OR ucast t2 :: u64) AND 0x3ffffff),
        poly_h4 := poly_h4 state + (drop_bit 8 t3 OR hibit)\<rparr>)"

text \<open>The label \<open>poly1305_donna_mul\<close>: multiplication by \<open>r\<close> and the carries.\<close>

definition poly1305_mul :: "poly1305_state \<Rightarrow> poly1305_state" where
  "poly1305_mul st =
     (let t0 = mul32x32_64 (poly_h0 st) (poly_r0 st) + mul32x32_64 (poly_h1 st) (poly_s4 st) + mul32x32_64 (poly_h2 st) (poly_s3 st) + mul32x32_64 (poly_h3 st) (poly_s2 st) + mul32x32_64 (poly_h4 st) (poly_s1 st);
        t1 = mul32x32_64 (poly_h0 st) (poly_r1 st) + mul32x32_64 (poly_h1 st) (poly_r0 st) + mul32x32_64 (poly_h2 st) (poly_s4 st) + mul32x32_64 (poly_h3 st) (poly_s3 st) + mul32x32_64 (poly_h4 st) (poly_s2 st);
        t2 = mul32x32_64 (poly_h0 st) (poly_r2 st) + mul32x32_64 (poly_h1 st) (poly_r1 st) + mul32x32_64 (poly_h2 st) (poly_r0 st) + mul32x32_64 (poly_h3 st) (poly_s4 st) + mul32x32_64 (poly_h4 st) (poly_s3 st);
        t3 = mul32x32_64 (poly_h0 st) (poly_r3 st) + mul32x32_64 (poly_h1 st) (poly_r2 st) + mul32x32_64 (poly_h2 st) (poly_r1 st) + mul32x32_64 (poly_h3 st) (poly_r0 st) + mul32x32_64 (poly_h4 st) (poly_s4 st);
        t4 = mul32x32_64 (poly_h0 st) (poly_r4 st) + mul32x32_64 (poly_h1 st) (poly_r3 st) + mul32x32_64 (poly_h2 st) (poly_r2 st) + mul32x32_64 (poly_h3 st) (poly_r1 st) + mul32x32_64 (poly_h4 st) (poly_r0 st);
        st = st\<lparr>poly_h0 := ucast t0 AND 0x3ffffff\<rparr>; c = drop_bit 26 t0; t1 = t1 + c;
        st = st\<lparr>poly_h1 := ucast t1 AND 0x3ffffff\<rparr>; b = ucast (drop_bit 26 t1) :: u32; t2 = t2 + ucast b;
        st = st\<lparr>poly_h2 := ucast t2 AND 0x3ffffff\<rparr>; b = ucast (drop_bit 26 t2) :: u32; t3 = t3 + ucast b;
        st = st\<lparr>poly_h3 := ucast t3 AND 0x3ffffff\<rparr>; b = ucast (drop_bit 26 t3) :: u32; t4 = t4 + ucast b;
        st = st\<lparr>poly_h4 := ucast t4 AND 0x3ffffff\<rparr>; b = ucast (drop_bit 26 t4) :: u32
      in st\<lparr>poly_h0 := poly_h0 st + b * 5\<rparr>)"

text \<open>Full blocks, then the at most fifteen bytes at the end, padded.\<close>

fun poly1305_update :: "poly1305_state \<Rightarrow> byte list \<Rightarrow> poly1305_state" where
  "poly1305_update state ins =
     (if 16 \<le> length ins then poly1305_update (poly1305_mul (poly1305_add (push_bit 24 1) state (take 16 ins))) (drop 16 ins)
      else if length ins = 0 then state
      else let mp = ins @ [1] @ replicate (16 - (length ins + 1)) 0 in poly1305_mul (poly1305_add 0 state mp))"

declare poly1305_update.simps [simp del]

section \<open>Interface\<close>

definition CRYPTO_poly1305_init :: "poly1305_state \<Rightarrow> byte list \<Rightarrow> poly1305_state" where
  "CRYPTO_poly1305_init state key =
     (let t0 = U8TO32_LE key 0; t1 = U8TO32_LE key 4; t2 = U8TO32_LE key 8; t3 = U8TO32_LE key 12;
        state = state\<lparr>poly_r0 := t0 AND 0x3ffffff\<rparr>; t0 = drop_bit 26 t0; t0 = t0 OR push_bit 6 t1;
        state = state\<lparr>poly_r1 := t0 AND 0x3ffff03\<rparr>; t1 = drop_bit 20 t1; t1 = t1 OR push_bit 12 t2;
        state = state\<lparr>poly_r2 := t1 AND 0x3ffc0ff\<rparr>; t2 = drop_bit 14 t2; t2 = t2 OR push_bit 18 t3;
        state = state\<lparr>poly_r3 := t2 AND 0x3f03fff\<rparr>; t3 = drop_bit 8 t3;
        state = state\<lparr>poly_r4 := t3 AND 0x00fffff\<rparr>;
        state = state\<lparr>poly_s1 := poly_r1 state * 5, poly_s2 := poly_r2 state * 5, poly_s3 := poly_r3 state * 5, poly_s4 := poly_r4 state * 5\<rparr>;
        state = state\<lparr>poly_h0 := 0, poly_h1 := 0, poly_h2 := 0, poly_h3 := 0, poly_h4 := 0\<rparr>
      in state\<lparr>poly_buf_used := 0, poly_key := take 16 (drop 16 key)\<rparr>)"

text \<open>Bytes of an array overwritten from an index on.\<close>

definition poly_store :: "byte list \<Rightarrow> nat \<Rightarrow> byte list \<Rightarrow> byte list" where
  "poly_store buf i bs = take i buf @ bs @ drop (i + length bs) buf"

text \<open>The buffered bytes are filled up, then whole blocks are absorbed, then the rest is kept.\<close>

definition poly1305_fill :: "poly1305_state \<Rightarrow> byte list \<Rightarrow> poly1305_state \<times> byte list" where
  "poly1305_fill state ins =
     (if poly_buf_used state \<noteq> 0
      then let todo = 16 - poly_buf_used state; todo = (if length ins < todo then length ins else todo);
          state = state\<lparr>poly_buf := poly_store (poly_buf state) (poly_buf_used state) (take todo ins),
            poly_buf_used := poly_buf_used state + todo\<rparr>;
          ins = drop todo ins
        in if poly_buf_used state = 16 then ((poly1305_update state (take 16 (poly_buf state)))\<lparr>poly_buf_used := 0\<rparr>, ins)
           else (state, ins)
      else (state, ins))"

definition poly1305_whole :: "poly1305_state \<Rightarrow> byte list \<Rightarrow> poly1305_state \<times> byte list" where
  "poly1305_whole state ins =
     (if 16 \<le> length ins
      then let todo = length ins - length ins mod 16 in (poly1305_update state (take todo ins), drop todo ins)
      else (state, ins))"

definition CRYPTO_poly1305_update :: "poly1305_state \<Rightarrow> byte list \<Rightarrow> poly1305_state" where
  "CRYPTO_poly1305_update state ins =
     (let (state, ins) = poly1305_fill state ins; (state, ins) = poly1305_whole state ins
      in if length ins \<noteq> 0
         then state\<lparr>poly_buf := poly_store (poly_buf state) 0 ins, poly_buf_used := length ins\<rparr>
         else state)"

text \<open>The end: a carry through the limbs, the subtraction of \<open>2 ^ 130 - 5\<close> if that is not negative, and the sum with
  the second half of the key.\<close>

definition poly1305_carry :: "poly1305_state \<Rightarrow> poly1305_state" where
  "poly1305_carry st =
     (let b = drop_bit 26 (poly_h0 st); st = st\<lparr>poly_h0 := poly_h0 st AND 0x3ffffff, poly_h1 := poly_h1 st + b\<rparr>;
        b = drop_bit 26 (poly_h1 st); st = st\<lparr>poly_h1 := poly_h1 st AND 0x3ffffff, poly_h2 := poly_h2 st + b\<rparr>;
        b = drop_bit 26 (poly_h2 st); st = st\<lparr>poly_h2 := poly_h2 st AND 0x3ffffff, poly_h3 := poly_h3 st + b\<rparr>;
        b = drop_bit 26 (poly_h3 st); st = st\<lparr>poly_h3 := poly_h3 st AND 0x3ffffff, poly_h4 := poly_h4 st + b\<rparr>;
        b = drop_bit 26 (poly_h4 st)
      in st\<lparr>poly_h4 := poly_h4 st AND 0x3ffffff, poly_h0 := poly_h0 st + b * 5\<rparr>)"

definition poly1305_select :: "poly1305_state \<Rightarrow> poly1305_state" where
  "poly1305_select st =
     (let g0 = poly_h0 st + 5; b = drop_bit 26 g0; g0 = g0 AND 0x3ffffff;
        g1 = poly_h1 st + b; b = drop_bit 26 g1; g1 = g1 AND 0x3ffffff;
        g2 = poly_h2 st + b; b = drop_bit 26 g2; g2 = g2 AND 0x3ffffff;
        g3 = poly_h3 st + b; b = drop_bit 26 g3; g3 = g3 AND 0x3ffffff;
        g4 = poly_h4 st + b - push_bit 26 1;
        b = drop_bit 31 g4 - 1; nb = NOT b
      in st\<lparr>poly_h0 := poly_h0 st AND nb OR g0 AND b, poly_h1 := poly_h1 st AND nb OR g1 AND b,
          poly_h2 := poly_h2 st AND nb OR g2 AND b, poly_h3 := poly_h3 st AND nb OR g3 AND b,
          poly_h4 := poly_h4 st AND nb OR g4 AND b\<rparr>)"

definition poly1305_output :: "poly1305_state \<Rightarrow> byte list" where
  "poly1305_output st =
     (let f0 = ucast (poly_h0 st OR push_bit 26 (poly_h1 st)) + ucast (U8TO32_LE (poly_key st) 0) :: u64;
        f1 = ucast (drop_bit 6 (poly_h1 st) OR push_bit 20 (poly_h2 st)) + ucast (U8TO32_LE (poly_key st) 4) :: u64;
        f2 = ucast (drop_bit 12 (poly_h2 st) OR push_bit 14 (poly_h3 st)) + ucast (U8TO32_LE (poly_key st) 8) :: u64;
        f3 = ucast (drop_bit 18 (poly_h3 st) OR push_bit 8 (poly_h4 st)) + ucast (U8TO32_LE (poly_key st) 12) :: u64;
        f1 = f1 + drop_bit 32 f0; f2 = f2 + drop_bit 32 f1; f3 = f3 + drop_bit 32 f2
      in U32TO8_LE (ucast f0) @ U32TO8_LE (ucast f1) @ U32TO8_LE (ucast f2) @ U32TO8_LE (ucast f3))"

definition CRYPTO_poly1305_finish :: "poly1305_state \<Rightarrow> byte list" where
  "CRYPTO_poly1305_finish state =
     (let state = (if poly_buf_used state \<noteq> 0 then poly1305_update state (take (poly_buf_used state) (poly_buf state)) else state)
      in poly1305_output (poly1305_select (poly1305_carry state)))"

text \<open>A state on the stack, of which the initialisation sets everything that is read.\<close>

definition poly_state0 :: poly1305_state where
  "poly_state0 = \<lparr>poly_r0 = 0, poly_r1 = 0, poly_r2 = 0, poly_r3 = 0, poly_r4 = 0, poly_s1 = 0, poly_s2 = 0, poly_s3 = 0, poly_s4 = 0,
     poly_h0 = 0, poly_h1 = 0, poly_h2 = 0, poly_h3 = 0, poly_h4 = 0, poly_buf = replicate 16 0, poly_buf_used = 0, poly_key = []\<rparr>"

end
