(* ===== verification/Chacha_Poly.thy ===== *)
theory Chacha_Poly
  imports Aead Chacha Poly1305
begin

text \<open>
  The cipher ChaCha20-Poly1305 behind the interface, \<open>crypto/cipher_extra/e_chacha20poly1305.c\<close>, as it is built without
  assembly (\<open>asm_capable\<close> is 0). The state of a context is the key.
\<close>

definition POLY1305_TAG_LEN :: nat where "POLY1305_TAG_LEN = 16"

definition aead_chacha20_poly1305_init ::
  "bool \<Rightarrow> ('m, byte list) evp_aead_ctx \<Rightarrow> byte list \<Rightarrow> nat \<Rightarrow> (unit, ('m, byte list) evp_aead_ctx) res" where
  "aead_chacha20_poly1305_init malloc_ok ctx key tag_len =
     (let tag_len = (if tag_len = 0 then POLY1305_TAG_LEN else tag_len) in
      if POLY1305_TAG_LEN < tag_len then Fail ctx
      else if length key \<noteq> 32 then Fail ctx
      else if \<not> malloc_ok then Fail ctx
      else Ok () (ctx\<lparr>aead_state := Some key, ctx_tag_len := tag_len\<rparr>))"

text \<open>The memory is released; any later use of it is undefined.\<close>

definition aead_chacha20_poly1305_cleanup :: "('m, byte list) evp_aead_ctx \<Rightarrow> ('m, byte list) evp_aead_ctx" where
  "aead_chacha20_poly1305_cleanup ctx = ctx\<lparr>aead_state := None\<rparr>"

definition poly1305_update_length :: "poly1305_state \<Rightarrow> nat \<Rightarrow> poly1305_state" where
  "poly1305_update_length poly1305 data_len = CRYPTO_poly1305_update poly1305 (map (\<lambda>i. ucast (drop_bit (8 * i) (of_nat data_len :: u64))) [0..<8])"

definition calc_tag :: "byte list \<Rightarrow> byte list \<Rightarrow> byte list \<Rightarrow> byte list \<Rightarrow> byte list \<Rightarrow> byte list" where
  "calc_tag key nonce ad ciphertext ciphertext_extra =
     (let poly1305_key = CRYPTO_chacha_20 (replicate 32 0) key nonce 0;
        ctx = CRYPTO_poly1305_init poly_state0 poly1305_key;
        ctx = CRYPTO_poly1305_update ctx ad;
        ctx = (if length ad mod 16 \<noteq> 0 then CRYPTO_poly1305_update ctx (replicate (16 - length ad mod 16) 0) else ctx);
        ctx = CRYPTO_poly1305_update ctx ciphertext;
        ctx = CRYPTO_poly1305_update ctx ciphertext_extra;
        ciphertext_total = length ciphertext + length ciphertext_extra;
        ctx = (if ciphertext_total mod 16 \<noteq> 0 then CRYPTO_poly1305_update ctx (replicate (16 - ciphertext_total mod 16) 0) else ctx);
        ctx = poly1305_update_length ctx (length ad);
        ctx = poly1305_update_length ctx ciphertext_total
      in CRYPTO_poly1305_finish ctx)"

text \<open>The extra input, encrypted with the key stream behind that of the input; the offset is within the block.\<close>

function chacha_extra :: "byte list \<Rightarrow> byte list \<Rightarrow> u32 \<Rightarrow> nat \<Rightarrow> byte list \<Rightarrow> byte list" where
  "chacha_extra key nonce block_counter offset extra_in =
     (if extra_in = [] \<or> 64 \<le> offset then []
      else let block = CRYPTO_chacha_20 (replicate 64 0) key nonce block_counter;
          n = min (64 - offset) (length extra_in)
        in map (\<lambda>i. extra_in ! i XOR block ! (offset + i)) [0..<n] @ chacha_extra key nonce (block_counter + 1) 0 (drop n extra_in))"
  by pat_completeness auto
termination by (relation "measure (\<lambda>(key, nonce, c, offset, extra_in). length extra_in)") auto

declare chacha_extra.simps [simp del]

definition aead_chacha20_poly1305_seal_scatter ::
  "('m, byte list) evp_aead_ctx \<Rightarrow> byte list \<Rightarrow> byte list \<Rightarrow> byte list \<Rightarrow> byte list \<Rightarrow> byte list \<Rightarrow> byte list \<Rightarrow> (nat, byte list \<times> byte list) res" where
  "aead_chacha20_poly1305_seal_scatter ctx out out_tag nonce ins extra_in ad =
     (let tag_len = ctx_tag_len ctx; in_len = length ins; extra_in_len = length extra_in; max_out_tag_len = length out_tag in
      if (of_nat extra_in_len + of_nat tag_len :: u64) < of_nat tag_len then Fail (out, out_tag)
      else if max_out_tag_len < tag_len + extra_in_len then Fail (out, out_tag)
      else if length nonce \<noteq> 12 then Fail (out, out_tag)
      else if 2 ^ 32 * 64 - 64 \<le> in_len then Fail (out, out_tag)
      else if max_out_tag_len < tag_len then Fail (out, out_tag)
      else case aead_state ctx of None \<Rightarrow> UB | Some key \<Rightarrow>
        if length out < in_len then UB
        else let extra = (if extra_in_len \<noteq> 0 then chacha_extra key nonce (1 + of_nat (in_len div 64)) (in_len mod 64) extra_in else []);
          out = CRYPTO_chacha_20 ins key nonce 1 @ drop in_len out;
          tag = calc_tag key nonce ad (take in_len out) extra;
          out_tag = extra @ take tag_len tag @ drop (extra_in_len + tag_len) out_tag
        in Ok (extra_in_len + tag_len) (out, out_tag))"

definition aead_chacha20_poly1305_open_gather ::
  "('m, byte list) evp_aead_ctx \<Rightarrow> byte list \<Rightarrow> byte list \<Rightarrow> byte list \<Rightarrow> byte list \<Rightarrow> byte list \<Rightarrow> (unit, byte list) res" where
  "aead_chacha20_poly1305_open_gather ctx out nonce ins in_tag ad =
     (let in_len = length ins in
      if length nonce \<noteq> 12 then Fail out
      else if length in_tag \<noteq> ctx_tag_len ctx then Fail out
      else if 2 ^ 32 * 64 - 64 \<le> in_len then Fail out
      else case aead_state ctx of None \<Rightarrow> UB | Some key \<Rightarrow>
        if length out < in_len then UB
        else let tag = calc_tag key nonce ad ins [];
          out = CRYPTO_chacha_20 ins key nonce 1 @ drop in_len out
        in if CRYPTO_memcmp tag in_tag (ctx_tag_len ctx) \<noteq> 0 then Fail out else Ok () out)"

text \<open>The algorithms whose tables are modelled.\<close>

datatype evp_aead_name = EVP_aead_chacha20_poly1305

fun evp_aead_table :: "evp_aead_name \<Rightarrow> (evp_aead_name, byte list) evp_aead" where
  "evp_aead_table EVP_aead_chacha20_poly1305 =
     \<lparr>a_key_len = 32, a_nonce_len = 12, a_overhead = POLY1305_TAG_LEN, a_max_tag_len = POLY1305_TAG_LEN,
      seal_scatter_supports_extra_in = True, a_init = Some aead_chacha20_poly1305_init, a_init_with_direction = None,
      a_cleanup = aead_chacha20_poly1305_cleanup, a_open = None, a_seal_scatter = aead_chacha20_poly1305_seal_scatter,
      a_open_gather = Some aead_chacha20_poly1305_open_gather, a_get_iv = None, a_tag_len = None\<rparr>"

end
