(* ===== verification/Chacha_Spec.thy ===== *)
theory Chacha_Spec
  imports Chacha
begin

text \<open>
  ChaCha20 of RFC 8439 in the row form: the state is four rows of four words, a round works on the four columns at
  once, and the diagonals are the columns of the state with its rows rotated. The key stream is a function
  of the position, and encryption is the exclusive or with it.
\<close>

section \<open>The standard\<close>

type_synonym row = "u32 \<times> u32 \<times> u32 \<times> u32"
type_synonym rows = "row \<times> row \<times> row \<times> row"

definition quarter_round :: "u32 \<times> u32 \<times> u32 \<times> u32 \<Rightarrow> u32 \<times> u32 \<times> u32 \<times> u32" where
  "quarter_round = (\<lambda>(a, b, c, d).
     let a = a + b; d = word_rotl 16 (d XOR a); c = c + d; b = word_rotl 12 (b XOR c);
       a = a + b; d = word_rotl 8 (d XOR a); c = c + d; b = word_rotl 7 (b XOR c)
     in (a, b, c, d))"

fun column_round :: "rows \<Rightarrow> rows" where
  "column_round ((a0, a1, a2, a3), (b0, b1, b2, b3), (c0, c1, c2, c3), (d0, d1, d2, d3)) =
     (let (a0, b0, c0, d0) = quarter_round (a0, b0, c0, d0); (a1, b1, c1, d1) = quarter_round (a1, b1, c1, d1);
        (a2, b2, c2, d2) = quarter_round (a2, b2, c2, d2); (a3, b3, c3, d3) = quarter_round (a3, b3, c3, d3)
      in ((a0, a1, a2, a3), (b0, b1, b2, b3), (c0, c1, c2, c3), (d0, d1, d2, d3)))"

fun row_left :: "row \<Rightarrow> row" where "row_left (x0, x1, x2, x3) = (x1, x2, x3, x0)"

fun shift_rows :: "rows \<Rightarrow> rows" where
  "shift_rows (a, b, c, d) = (a, row_left b, row_left (row_left c), row_left (row_left (row_left d)))"

definition diagonal_round :: "rows \<Rightarrow> rows" where
  "diagonal_round = shift_rows \<circ> shift_rows \<circ> shift_rows \<circ> column_round \<circ> shift_rows"

fun rows_list :: "rows \<Rightarrow> u32 list" where
  "rows_list ((a0, a1, a2, a3), (b0, b1, b2, b3), (c0, c1, c2, c3), (d0, d1, d2, d3)) =
     [a0, a1, a2, a3, b0, b1, b2, b3, c0, c1, c2, c3, d0, d1, d2, d3]"

definition key_words :: "byte list \<Rightarrow> nat \<Rightarrow> u32" where
  "key_words bs i = of_le (take 4 (drop (4 * i) bs))"

definition chacha_start :: "byte list \<Rightarrow> byte list \<Rightarrow> u32 \<Rightarrow> rows" where
  "chacha_start key nonce counter =
     (let k = key_words key; n = key_words nonce in
      ((0x61707865, 0x3320646e, 0x79622d32, 0x6b206574), (k 0, k 1, k 2, k 3), (k 4, k 5, k 6, k 7), (counter, n 0, n 1, n 2)))"

definition chacha_block :: "byte list \<Rightarrow> byte list \<Rightarrow> u32 \<Rightarrow> byte list" where
  "chacha_block key nonce counter =
     (let s = chacha_start key nonce counter
      in concat (map (le_bytes 4) (map2 (+) (rows_list (((diagonal_round \<circ> column_round) ^^ 10) s)) (rows_list s))))"

definition chacha_stream :: "byte list \<Rightarrow> byte list \<Rightarrow> u32 \<Rightarrow> nat \<Rightarrow> byte" where
  "chacha_stream key nonce counter j = chacha_block key nonce (counter + of_nat (j div 64)) ! (j mod 64)"

definition chacha_crypt :: "byte list \<Rightarrow> byte list \<Rightarrow> u32 \<Rightarrow> byte list \<Rightarrow> byte list" where
  "chacha_crypt key nonce counter m = map (\<lambda>j. m ! j XOR chacha_stream key nonce counter j) [0..<length m]"

section \<open>The code\<close>

lemma chacha_ROTATE_rotl: "0 < n \<Longrightarrow> n < 32 \<Longrightarrow> chacha_ROTATE v n = word_rotl n v"
  using shifts_rotr [of n v] by (simp add: chacha_ROTATE_def word_rotl_eq_word_rotr)

lemma U8TO32_LITTLE_of_le:
  assumes "i + 4 \<le> length p"
  shows "U8TO32_LITTLE p i = of_le (take 4 (drop i p))"
proof -
  have "take 4 (drop i p) = [p ! i, p ! (i + 1), p ! (i + 2), p ! (i + 3)]"
    using assms by (intro nth_equalityI) (auto simp: less_Suc_eq numeral_eq_Suc)
  then show ?thesis by (simp add: U8TO32_LITTLE_def push_bit_or)
qed

lemma U32TO8_LITTLE_le: "U32TO8_LITTLE v = le_bytes 4 v"
proof -
  have low: "ucast (x AND 0xff) = (ucast x :: byte)" for x :: u32
    by (rule bit_eqI) (auto simp: bit_simps mask_eq_exp_minus_1 simp flip: take_bit_eq_mask [of 8 x, unfolded mask_eq_exp_minus_1, simplified])
  have "[0..<4] = [0, 1, 2, 3 :: nat]" by (simp add: upt_rec)
  then show ?thesis by (simp add: U32TO8_LITTLE_def le_bytes_def low)
qed

text \<open>A quarter round as two halves that differ in the distances.\<close>

definition half_round :: "nat \<Rightarrow> nat \<Rightarrow> u32 \<times> u32 \<times> u32 \<times> u32 \<Rightarrow> u32 \<times> u32 \<times> u32 \<times> u32" where
  "half_round m n = (\<lambda>(a, b, c, d). let a = a + b; d = word_rotl m (d XOR a); c = c + d; b = word_rotl n (b XOR c) in (a, b, c, d))"

lemma quarter_halves: "quarter_round v = half_round 8 7 (half_round 16 12 v)"
  by (cases v) (simp add: quarter_round_def half_round_def Let_def)

lemma list_update4:
  assumes "distinct [a, b, c, d]"
  shows "x[a := p, d := s, c := r, b := q, a := p', d := s', c := r', b := q'] = x[a := p', d := s', c := r', b := q']"
proof -
  have "x[a := p, d := s, c := r, b := q, a := p', d := s', c := r', b := q'] ! i = x[a := p', d := s', c := r', b := q'] ! i"
    if "i < length x" for i
  proof -
    consider "i = a" | "i = b" | "i = c" | "i = d" | "a \<noteq> i" "b \<noteq> i" "c \<noteq> i" "d \<noteq> i" by metis
    then show ?thesis using assms that by cases simp_all
  qed
  then show ?thesis by (intro nth_equalityI) simp_all
qed

definition half_update :: "nat \<Rightarrow> nat \<Rightarrow> nat \<Rightarrow> nat \<Rightarrow> nat \<Rightarrow> nat \<Rightarrow> u32 list \<Rightarrow> u32 list" where
  "half_update a b c d m n x =
     (let x = x[a := x ! a + x ! b]; x = x[d := chacha_ROTATE (x ! d XOR x ! a) m];
        x = x[c := x ! c + x ! d] in x[b := chacha_ROTATE (x ! b XOR x ! c) n])"

lemma half_update_eq:
  assumes "a < length x" "b < length x" "c < length x" "d < length x" "distinct [a, b, c, d]" "0 < m" "m < 32" "0 < n" "n < 32"
    and "half_round m n (x ! a, x ! b, x ! c, x ! d) = (p, q, r, s)"
  shows "half_update a b c d m n x = x[a := p, d := s, c := r, b := q]"
proof -
  have "p = x ! a + x ! b" "s = word_rotl m (x ! d XOR p)" "r = x ! c + s" "q = word_rotl n (x ! b XOR r)"
    using assms(10) by (auto simp: half_round_def Let_def)
  then show ?thesis using assms(1-9) by (simp add: half_update_def chacha_ROTATE_rotl Let_def)
qed

lemma QUARTERROUND_halves: "QUARTERROUND a b c d x = half_update a b c d 8 7 (half_update a b c d 16 12 x)"
  unfolding QUARTERROUND_def half_update_def Let_def ..

lemma QUARTERROUND_eq:
  assumes "a < length x" "b < length x" "c < length x" "d < length x" "distinct [a, b, c, d]"
  shows "QUARTERROUND a b c d x =
    (let (p, q, r, s) = quarter_round (x ! a, x ! b, x ! c, x ! d) in x[a := p, d := s, c := r, b := q])"
proof -
  obtain p q r s where h: "half_round 16 12 (x ! a, x ! b, x ! c, x ! d) = (p, q, r, s)" by (metis prod_cases4)
  let ?y = "x[a := p, d := s, c := r, b := q]"
  obtain p' q' r' s' where h': "half_round 8 7 (p, q, r, s) = (p', q', r', s')" by (metis prod_cases4)
  have y: "?y ! a = p" "?y ! b = q" "?y ! c = r" "?y ! d = s" using assms by simp_all
  have "half_update a b c d 16 12 x = ?y" using assms h by (intro half_update_eq) simp_all
  moreover have "half_round 8 7 (?y ! a, ?y ! b, ?y ! c, ?y ! d) = (p', q', r', s')" by (simp only: y h')
  then have "half_update a b c d 8 7 ?y = ?y[a := p', d := s', c := r', b := q']"
    using assms(1-5) by (intro half_update_eq) simp_all
  moreover have "?y[a := p', d := s', c := r', b := q'] = x[a := p', d := s', c := r', b := q']" by (rule list_update4 [OF assms(5)])
  ultimately show ?thesis by (simp add: QUARTERROUND_halves quarter_halves h h')
qed

text \<open>The quarter rounds of a round work on the columns, then on the diagonals.\<close>

lemma columns:
  "QUARTERROUND 3 7 11 15 (QUARTERROUND 2 6 10 14 (QUARTERROUND 1 5 9 13 (QUARTERROUND 0 4 8 12 (rows_list s)))) =
   rows_list (column_round s)"
proof (cases s rule: rows_list.cases)
  case (1 a0 a1 a2 a3 b0 b1 b2 b3 c0 c1 c2 c3 d0 d1 d2 d3)
  obtain p0 q0 r0 s0 where "quarter_round (a0, b0, c0, d0) = (p0, q0, r0, s0)" by (metis prod_cases4)
  moreover obtain p1 q1 r1 s1 where "quarter_round (a1, b1, c1, d1) = (p1, q1, r1, s1)" by (metis prod_cases4)
  moreover obtain p2 q2 r2 s2 where "quarter_round (a2, b2, c2, d2) = (p2, q2, r2, s2)" by (metis prod_cases4)
  moreover obtain p3 q3 r3 s3 where "quarter_round (a3, b3, c3, d3) = (p3, q3, r3, s3)" by (metis prod_cases4)
  ultimately show ?thesis by (simp add: 1 QUARTERROUND_eq)
qed

lemma diagonals:
  "QUARTERROUND 3 4 9 14 (QUARTERROUND 2 7 8 13 (QUARTERROUND 1 6 11 12 (QUARTERROUND 0 5 10 15 (rows_list s)))) =
   rows_list (diagonal_round s)"
proof (cases s rule: rows_list.cases)
  case (1 a0 a1 a2 a3 b0 b1 b2 b3 c0 c1 c2 c3 d0 d1 d2 d3)
  obtain p0 q0 r0 s0 where "quarter_round (a0, b1, c2, d3) = (p0, q0, r0, s0)" by (metis prod_cases4)
  moreover obtain p1 q1 r1 s1 where "quarter_round (a1, b2, c3, d0) = (p1, q1, r1, s1)" by (metis prod_cases4)
  moreover obtain p2 q2 r2 s2 where "quarter_round (a2, b3, c0, d1) = (p2, q2, r2, s2)" by (metis prod_cases4)
  moreover obtain p3 q3 r3 s3 where "quarter_round (a3, b0, c1, d2) = (p3, q3, r3, s3)" by (metis prod_cases4)
  ultimately show ?thesis by (simp add: 1 QUARTERROUND_eq diagonal_round_def)
qed

lemma chacha_rounds_rows: "chacha_rounds n (rows_list s) = rows_list (((diagonal_round \<circ> column_round) ^^ n) s)"
proof (induction n arbitrary: s)
  case (Suc n)
  show ?case unfolding chacha_rounds.simps columns diagonals Suc funpow_Suc_right by simp
qed simp

lemma length_rows_list [simp]: "length (rows_list s) = 16"
  by (cases s rule: rows_list.cases) simp

lemma chacha_input_rows:
  assumes "length key = 32" "length nonce = 12"
  shows "chacha_input key nonce counter = rows_list (chacha_start key nonce counter)"
  using assms
  by (simp add: chacha_input_def chacha_start_def key_words_def Let_def U8TO32_LITTLE_of_le chacha_sigma_def)

lemma chacha_core_block:
  assumes "length key = 32" "length nonce = 12"
  shows "chacha_core (chacha_input key nonce counter) = chacha_block key nonce counter"
proof -
  let ?s = "rows_list (chacha_start key nonce counter)"
  let ?t = "rows_list (((diagonal_round \<circ> column_round) ^^ 10) (chacha_start key nonce counter))"
  have "map (\<lambda>i. ?t ! i + ?s ! i) [0..<16] = map2 (+) ?t ?s"
    by (rule nth_equalityI) simp_all
  moreover have "map (\<lambda>i. U32TO8_LITTLE (xs ! i)) [0..<16] = map (le_bytes 4) xs" if "length xs = 16" for xs
    using that by (intro nth_equalityI) (simp_all add: U32TO8_LITTLE_le)
  ultimately show ?thesis
    unfolding chacha_core_def chacha_block_def Let_def chacha_input_rows [OF assms] chacha_rounds_rows by simp
qed

section \<open>Streams\<close>

lemma chacha_input_next:
  "(chacha_input key nonce counter)[12 := chacha_input key nonce counter ! 12 + 1] = chacha_input key nonce (counter + 1)"
  by (simp add: chacha_input_def)

lemma chacha_stream_next: "64 \<le> j \<Longrightarrow> chacha_stream key nonce counter j = chacha_stream key nonce (counter + 1) (j - 64)"
proof -
  assume j: "64 \<le> j"
  then have "(of_nat (j div 64) :: u32) = 1 + of_nat ((j - 64) div 64)" "(j - 64) mod 64 = j mod 64"
    by (simp_all add: le_div_geq le_mod_geq)
  then show ?thesis by (simp add: chacha_stream_def add.assoc)
qed

lemma nth_chacha_crypt [simp]: "j < length m \<Longrightarrow> chacha_crypt key nonce counter m ! j = m ! j XOR chacha_stream key nonce counter j"
  by (simp add: chacha_crypt_def)

lemma length_chacha_crypt [simp]: "length (chacha_crypt key nonce counter m) = length m"
  by (simp add: chacha_crypt_def)

lemma chacha_crypt_pieces:
  assumes "m \<noteq> []"
  shows "chacha_crypt key nonce counter m =
    map (\<lambda>i. m ! i XOR chacha_block key nonce counter ! i) [0..<min 64 (length m)] @ chacha_crypt key nonce (counter + 1) (drop 64 m)"
proof (rule nth_equalityI)
  fix j
  assume "j < length (chacha_crypt key nonce counter m)"
  then have j: "j < length m" by simp
  show "chacha_crypt key nonce counter m ! j =
    (map (\<lambda>i. m ! i XOR chacha_block key nonce counter ! i) [0..<min 64 (length m)] @ chacha_crypt key nonce (counter + 1) (drop 64 m)) ! j"
  proof (cases "j < 64")
    case True
    then show ?thesis using j by (simp add: nth_append chacha_stream_def)
  next
    case False
    then show ?thesis using j chacha_stream_next [of j key nonce counter] by (simp add: nth_append)
  qed
qed simp

lemma chacha_loop_crypt:
  assumes "length key = 32" "length nonce = 12"
  shows "chacha_loop (chacha_input key nonce counter) m = chacha_crypt key nonce counter m"
proof (induction m arbitrary: counter rule: length_induct)
  case (1 m)
  show ?case
  proof (cases "m = []")
    case True
    then show ?thesis by (simp add: chacha_loop.simps [of _ "[]"] chacha_crypt_def)
  next
    case False
    have todo: "(if length m < 64 then length m else 64) = min 64 (length m)" and drop: "drop (min 64 (length m)) m = drop 64 m"
      by (simp_all add: min_def)
    have "chacha_loop (chacha_input key nonce counter) m =
      map (\<lambda>i. m ! i XOR chacha_block key nonce counter ! i) [0..<min 64 (length m)] @
      chacha_loop (chacha_input key nonce (counter + 1)) (drop 64 m)"
      using False by (subst chacha_loop.simps)
        (simp only: Let_def chacha_input_next chacha_core_block [OF assms] length_0_conv if_False todo drop)
    moreover have "length (drop 64 m) < length m" using False by simp
    ultimately show ?thesis using 1 chacha_crypt_pieces [OF False] by simp
  qed
qed

lemma CRYPTO_chacha_20_crypt:
  "length key = 32 \<Longrightarrow> length nonce = 12 \<Longrightarrow> CRYPTO_chacha_20 m key nonce counter = chacha_crypt key nonce counter m"
  by (simp add: CRYPTO_chacha_20_def chacha_loop_crypt)

lemma chacha_crypt_crypt [simp]: "chacha_crypt key nonce counter (chacha_crypt key nonce counter m) = m"
  by (rule nth_equalityI) (simp_all add: xor.assoc)

lemma chacha_crypt_append:
  assumes "length a = 64 * n"
  shows "chacha_crypt key nonce counter (a @ b) = chacha_crypt key nonce counter a @ chacha_crypt key nonce (counter + of_nat n) b"
proof (rule nth_equalityI)
  fix j
  assume j: "j < length (chacha_crypt key nonce counter (a @ b))"
  have "chacha_stream key nonce counter j = chacha_stream key nonce (counter + of_nat n) (j - 64 * n)" if le: "64 * n \<le> j"
  proof -
    obtain i where i: "j = 64 * n + i" using le_Suc_ex [OF le] by blast
    show ?thesis unfolding i chacha_stream_def by (simp add: add.assoc)
  qed
  then show "chacha_crypt key nonce counter (a @ b) ! j = (chacha_crypt key nonce counter a @ chacha_crypt key nonce (counter + of_nat n) b) ! j"
    using j assms by (simp add: nth_append)
qed simp

text \<open>C34: CRYPTO_chacha_20 computes the encryption of RFC 8439, which is its own inverse, and a message may be encrypted in
  pieces of whole blocks with the counter advanced.\<close>

theorem chacha_is_rfc8439:
  assumes "length key = 32" and "length nonce = 12"
  shows "CRYPTO_chacha_20 m key nonce counter = chacha_crypt key nonce counter m \<and>
    CRYPTO_chacha_20 (CRYPTO_chacha_20 m key nonce counter) key nonce counter = m \<and>
    (\<forall>a b n. m = a @ b \<and> length a = 64 * n \<longrightarrow>
      CRYPTO_chacha_20 m key nonce counter =
      CRYPTO_chacha_20 a key nonce counter @ CRYPTO_chacha_20 b key nonce (counter + of_nat n))"
  by (simp add: CRYPTO_chacha_20_crypt [OF assms] chacha_crypt_append)

lemma chacha_is_rfc8439_witness:
  "length (replicate 32 (7 :: byte)) = 32 \<and> length (replicate 12 (1 :: byte)) = 12 \<and>
   CRYPTO_chacha_20 [1, 2, 3] (replicate 32 7) (replicate 12 1) (- 1) = chacha_crypt (replicate 32 7) (replicate 12 1) (- 1) [1, 2, 3]"
  using chacha_is_rfc8439 [of "replicate 32 7" "replicate 12 1" "[1, 2, 3]" "- 1"] by simp

end
