(* ===== verification/Poly1305_Limbs.thy ===== *)
theory Poly1305_Limbs
  imports Poly1305
begin

text \<open>
  Poly1305 of RFC 8439 on natural numbers modulo \<open>2 ^ 130 - 5\<close>, and the arithmetic of \<open>poly1305.c\<close> on limbs of 26 bits:
  the bounds under which no product, sum or carry overflows its width, and what a block does to the value of the limbs.
\<close>

section \<open>The standard\<close>

fun le_value :: "byte list \<Rightarrow> nat" where
  "le_value [] = 0"
| "le_value (b # bs) = unat b + 2 ^ 8 * le_value bs"

definition poly_p :: nat where "poly_p = 2 ^ 130 - 5"

definition poly_clamp :: "byte list \<Rightarrow> nat" where
  "poly_clamp key = le_value (take 16 key) AND 0x0ffffffc0ffffffc0ffffffc0fffffff"

text \<open>One block of at most sixteen bytes with a one bit behind it.\<close>

definition poly_block :: "nat \<Rightarrow> nat \<Rightarrow> byte list \<Rightarrow> nat" where
  "poly_block r a m = (a + le_value m + 2 ^ (8 * length m)) * r mod poly_p"

fun poly_blocks :: "nat \<Rightarrow> nat \<Rightarrow> byte list \<Rightarrow> nat" where
  "poly_blocks r a m = (if m = [] then a else poly_blocks r (poly_block r a (take 16 m)) (drop 16 m))"

declare poly_blocks.simps [simp del]

definition nat_le_bytes :: "nat \<Rightarrow> nat \<Rightarrow> byte list" where
  "nat_le_bytes n v = map (\<lambda>i. of_nat (v div 2 ^ (8 * i))) [0..<n]"

definition poly1305_mac :: "byte list \<Rightarrow> byte list \<Rightarrow> byte list" where
  "poly1305_mac key m = nat_le_bytes 16 (poly_blocks (poly_clamp key) 0 m + le_value (take 16 (drop 16 key)))"

section \<open>Limbs\<close>

text \<open>The value of five limbs.\<close>

definition limbs :: "nat \<Rightarrow> nat \<Rightarrow> nat \<Rightarrow> nat \<Rightarrow> nat \<Rightarrow> nat" where
  "limbs a0 a1 a2 a3 a4 = a0 + 2 ^ 26 * a1 + 2 ^ 52 * a2 + 2 ^ 78 * a3 + 2 ^ 104 * a4"

text \<open>Multiplication modulo \<open>2 ^ 130 - 5\<close>: what stands above the fifth limb comes back five times.\<close>

lemma limbs_mult:
  "limbs h0 h1 h2 h3 h4 * limbs r0 r1 r2 r3 r4 =
   limbs (h0 * r0 + 5 * (h1 * r4 + h2 * r3 + h3 * r2 + h4 * r1)) (h0 * r1 + h1 * r0 + 5 * (h2 * r4 + h3 * r3 + h4 * r2))
     (h0 * r2 + h1 * r1 + h2 * r0 + 5 * (h3 * r4 + h4 * r3)) (h0 * r3 + h1 * r2 + h2 * r1 + h3 * r0 + 5 * (h4 * r4))
     (h0 * r4 + h1 * r3 + h2 * r2 + h3 * r1 + h4 * r0) +
   (2 ^ 130 - 5) * (h1 * r4 + h2 * r3 + h3 * r2 + h4 * r1 + 2 ^ 26 * (h2 * r4 + h3 * r3 + h4 * r2) +
     2 ^ 52 * (h3 * r4 + h4 * r3) + 2 ^ 78 * (h4 * r4))"
  by (simp add: limbs_def algebra_simps)

text \<open>The chain of carries.\<close>

lemma limbs_carry:
  fixes t0 t1 t2 t3 t4 :: nat
  defines "u1 \<equiv> t1 + t0 div 2 ^ 26"
  defines "u2 \<equiv> t2 + u1 div 2 ^ 26"
  defines "u3 \<equiv> t3 + u2 div 2 ^ 26"
  defines "u4 \<equiv> t4 + u3 div 2 ^ 26"
  shows "limbs t0 t1 t2 t3 t4 =
    limbs (t0 mod 2 ^ 26 + 5 * (u4 div 2 ^ 26)) (u1 mod 2 ^ 26) (u2 mod 2 ^ 26) (u3 mod 2 ^ 26) (u4 mod 2 ^ 26) +
    (2 ^ 130 - 5) * (u4 div 2 ^ 26)"
proof -
  have e: "x = 2 ^ 26 * (x div 2 ^ 26) + x mod 2 ^ 26" for x :: nat by simp
  define q0 q1 q2 q3 q4 where q: "q0 = t0 div 2 ^ 26" "q1 = u1 div 2 ^ 26" "q2 = u2 div 2 ^ 26" "q3 = u3 div 2 ^ 26" "q4 = u4 div 2 ^ 26"
  define m0 m1 m2 m3 m4 where m: "m0 = t0 mod 2 ^ 26" "m1 = u1 mod 2 ^ 26" "m2 = u2 mod 2 ^ 26" "m3 = u3 mod 2 ^ 26" "m4 = u4 mod 2 ^ 26"
  have E: "t0 = 2 ^ 26 * q0 + m0" "t1 + q0 = 2 ^ 26 * q1 + m1" "t2 + q1 = 2 ^ 26 * q2 + m2" "t3 + q2 = 2 ^ 26 * q3 + m3" "t4 + q3 = 2 ^ 26 * q4 + m4"
    using e [of t0] e [of u1] e [of u2] e [of u3] e [of u4] unfolding q m u1_def u2_def u3_def u4_def by blast+
  show ?thesis unfolding limbs_def q [symmetric] m [symmetric] using E by simp
qed

section \<open>Arithmetic without overflow\<close>

lemma unat_u64 [simp]: "unat (ucast a :: u64) = unat (a :: u32)"
proof -
  have "unat a < 2 ^ LENGTH(32)" by (rule unsigned_less)
  then have "unat a < 2 ^ 64" by simp
  then show ?thesis by (simp add: unsigned_ucast_eq take_bit_nat_eq_self)
qed

lemma unat_mul32x32_64: "unat (mul32x32_64 a b) = unat a * unat b"
proof -
  have "unat a < 2 ^ LENGTH(32)" "unat b < 2 ^ LENGTH(32)" by (rule unsigned_less)+
  then have "unat a * unat b < 2 ^ 32 * 2 ^ 32" by (intro mult_strict_mono) simp_all
  then have "unat (ucast a :: u64) * unat (ucast b :: u64) < 2 ^ LENGTH(64)" by simp
  then show ?thesis unfolding mul32x32_64_def unat_mult_lem by simp
qed

lemma unat_sum5:
  fixes a b c d e :: "'a::len word"
  assumes "unat a + unat b + unat c + unat d + unat e < 2 ^ LENGTH('a)"
  shows "unat (a + b + c + d + e) = unat a + unat b + unat c + unat d + unat e"
proof -
  have 1: "unat (a + b) = unat a + unat b" using assms by (intro unat_add_lem [THEN iffD1]) simp
  have 2: "unat (a + b + c) = unat a + unat b + unat c" unfolding 1 [symmetric] using assms 1 by (intro unat_add_lem [THEN iffD1]) simp
  have 3: "unat (a + b + c + d) = unat a + unat b + unat c + unat d" unfolding 2 [symmetric] using assms 2 by (intro unat_add_lem [THEN iffD1]) simp
  show ?thesis unfolding 3 [symmetric] using assms 3 by (intro unat_add_lem [THEN iffD1]) simp
qed

lemma unat_and_26: "unat (w AND 0x3ffffff) = unat w mod 2 ^ 26" for w :: "'a::len word"
proof -
  have "w AND 0x3ffffff = take_bit 26 w" by (simp add: take_bit_eq_mask mask_eq_exp_minus_1)
  then have "unat (w AND 0x3ffffff) = take_bit 26 (unat w)" by (simp only: unsigned_take_bit_eq)
  then show ?thesis by (simp only: take_bit_eq_mod)
qed

lemma unat_limb_of: "unat (ucast t AND 0x3ffffff :: u32) = unat t mod 2 ^ 26" for t :: u64
  unfolding unat_and_26 by (simp add: unsigned_ucast_eq take_bit_eq_mod mod_mod_cancel)

lemma unat_drop: "unat (drop_bit n w) = unat w div 2 ^ n" for w :: "'a::len word"
proof -
  have "unat (drop_bit n w) = drop_bit n (take_bit LENGTH('a) (unat w))" by (rule unsigned_drop_bit_eq)
  also have "take_bit LENGTH('a) (unat w) = unat w" by (rule take_bit_nat_eq_self) simp
  finally show ?thesis by (simp only: drop_bit_eq_div)
qed

lemma unat_carry: "unat t < 2 ^ 58 \<Longrightarrow> unat (ucast (drop_bit 26 t) :: u32) = unat t div 2 ^ 26" for t :: u64
  by (simp add: unsigned_ucast_eq unat_drop take_bit_nat_eq_self less_mult_imp_div_less)

text \<open>
  The bounds: \<open>2867108863\<close> for the first limb with a block added is stable, and under it every column fits 58
  bits after the carry, except for the first, whose carry has more than 32 bits.
\<close>

lemma column_bounds:
  fixes h0 h1 h2 h3 h4 r0 r1 r2 r3 r4 :: nat
  assumes h: "h0 \<le> 2867108863" "h1 \<le> 2 ^ 27" "h2 \<le> 2 ^ 27" "h3 \<le> 2 ^ 27" "h4 \<le> 2 ^ 26 + 2 ^ 25"
    and r: "r0 \<le> 0x3ffffff" "r1 \<le> 0x3ffff03" "r2 \<le> 0x3ffc0ff" "r3 \<le> 0x3f03fff" "r4 \<le> 0xfffff"
  defines "t0 \<equiv> h0 * r0 + h1 * (r4 * 5) + h2 * (r3 * 5) + h3 * (r2 * 5) + h4 * (r1 * 5)"
  defines "t1 \<equiv> h0 * r1 + h1 * r0 + h2 * (r4 * 5) + h3 * (r3 * 5) + h4 * (r2 * 5)"
  defines "t2 \<equiv> h0 * r2 + h1 * r1 + h2 * r0 + h3 * (r4 * 5) + h4 * (r3 * 5)"
  defines "t3 \<equiv> h0 * r3 + h1 * r2 + h2 * r1 + h3 * r0 + h4 * (r4 * 5)"
  defines "t4 \<equiv> h0 * r4 + h1 * r3 + h2 * r2 + h3 * r1 + h4 * r0"
  defines "u1 \<equiv> t1 + t0 div 2 ^ 26"
  defines "u2 \<equiv> t2 + u1 div 2 ^ 26"
  defines "u3 \<equiv> t3 + u2 div 2 ^ 26"
  defines "u4 \<equiv> t4 + u3 div 2 ^ 26"
  shows "t0 < 2 ^ 59" "u1 < 2 ^ 58" "u2 < 2 ^ 58" "u3 < 2 ^ 58" "u4 div 2 ^ 26 \<le> 546578227"
proof -
  have small: "x div 2 ^ 26 \<le> b" if "x < 2 ^ 26 * (b + 1)" for x b :: nat
    using that by (metis Suc_eq_plus1 less_Suc_eq_le less_mult_imp_div_less mult.commute)
  show t0: "t0 < 2 ^ 59"
    using mult_le_mono [OF h(1) r(1)] mult_le_mono [OF h(2) r(5)] mult_le_mono [OF h(3) r(4)] mult_le_mono [OF h(4) r(3)]
      mult_le_mono [OF h(5) r(2)] unfolding t0_def by simp
  have "t0 div 2 ^ 26 \<le> 2 ^ 33" using t0 by (intro small) simp
  then show u1: "u1 < 2 ^ 58"
    using mult_le_mono [OF h(1) r(2)] mult_le_mono [OF h(2) r(1)] mult_le_mono [OF h(3) r(5)] mult_le_mono [OF h(4) r(4)]
      mult_le_mono [OF h(5) r(3)] unfolding t1_def u1_def by simp
  have "u1 div 2 ^ 26 \<le> 2 ^ 32" using u1 by (intro small) simp
  then show u2: "u2 < 2 ^ 58"
    using mult_le_mono [OF h(1) r(3)] mult_le_mono [OF h(2) r(2)] mult_le_mono [OF h(3) r(1)] mult_le_mono [OF h(4) r(5)]
      mult_le_mono [OF h(5) r(4)] unfolding t2_def u2_def by simp
  have "u2 div 2 ^ 26 \<le> 2 ^ 32" using u2 by (intro small) simp
  then show u3: "u3 < 2 ^ 58"
    using mult_le_mono [OF h(1) r(4)] mult_le_mono [OF h(2) r(3)] mult_le_mono [OF h(3) r(2)] mult_le_mono [OF h(4) r(1)]
      mult_le_mono [OF h(5) r(5)] unfolding t3_def u3_def by simp
  have "u3 div 2 ^ 26 \<le> 2 ^ 32" using u3 by (intro small) simp
  then show "u4 div 2 ^ 26 \<le> 546578227"
    using mult_le_mono [OF h(1) r(5)] mult_le_mono [OF h(2) r(4)] mult_le_mono [OF h(3) r(3)] mult_le_mono [OF h(4) r(2)]
      mult_le_mono [OF h(5) r(1)] unfolding t4_def u4_def by (intro small) simp
qed

section \<open>Multiplication\<close>

definition poly_h :: "poly1305_state \<Rightarrow> nat" where
  "poly_h st = limbs (unat (poly_h0 st)) (unat (poly_h1 st)) (unat (poly_h2 st)) (unat (poly_h3 st)) (unat (poly_h4 st))"

definition poly_r :: "poly1305_state \<Rightarrow> nat" where
  "poly_r st = limbs (unat (poly_r0 st)) (unat (poly_r1 st)) (unat (poly_r2 st)) (unat (poly_r3 st)) (unat (poly_r4 st))"

text \<open>The multipliers as the initialisation leaves them: clamped, and their multiples.\<close>

definition poly_keyed :: "poly1305_state \<Rightarrow> bool" where
  "poly_keyed st \<longleftrightarrow>
     unat (poly_r0 st) \<le> 0x3ffffff \<and> unat (poly_r1 st) \<le> 0x3ffff03 \<and> unat (poly_r2 st) \<le> 0x3ffc0ff \<and>
     unat (poly_r3 st) \<le> 0x3f03fff \<and> unat (poly_r4 st) \<le> 0xfffff \<and>
     poly_s1 st = poly_r1 st * 5 \<and> poly_s2 st = poly_r2 st * 5 \<and> poly_s3 st = poly_r3 st * 5 \<and> poly_s4 st = poly_r4 st * 5"

text \<open>The limbs between blocks, and with a block added.\<close>

definition poly_reduced :: "poly1305_state \<Rightarrow> bool" where
  "poly_reduced st \<longleftrightarrow> unat (poly_h0 st) \<le> 2800000000 \<and> unat (poly_h1 st) < 2 ^ 26 \<and> unat (poly_h2 st) < 2 ^ 26 \<and>
     unat (poly_h3 st) < 2 ^ 26 \<and> unat (poly_h4 st) < 2 ^ 26"

definition poly_loaded :: "poly1305_state \<Rightarrow> bool" where
  "poly_loaded st \<longleftrightarrow> unat (poly_h0 st) \<le> 2867108863 \<and> unat (poly_h1 st) \<le> 2 ^ 27 \<and> unat (poly_h2 st) \<le> 2 ^ 27 \<and>
     unat (poly_h3 st) \<le> 2 ^ 27 \<and> unat (poly_h4 st) \<le> 2 ^ 26 + 2 ^ 25"

text \<open>Only the limbs of the accumulator differ.\<close>

definition poly_same :: "poly1305_state \<Rightarrow> poly1305_state \<Rightarrow> bool" where
  "poly_same st st' \<longleftrightarrow> poly_r0 st' = poly_r0 st \<and> poly_r1 st' = poly_r1 st \<and> poly_r2 st' = poly_r2 st \<and> poly_r3 st' = poly_r3 st \<and>
     poly_r4 st' = poly_r4 st \<and> poly_s1 st' = poly_s1 st \<and> poly_s2 st' = poly_s2 st \<and> poly_s3 st' = poly_s3 st \<and>
     poly_s4 st' = poly_s4 st \<and> poly_buf st' = poly_buf st \<and> poly_buf_used st' = poly_buf_used st \<and> poly_key st' = poly_key st"

lemma poly_same_facts:
  "poly_same st st' \<Longrightarrow> poly_keyed st' = poly_keyed st \<and> poly_r st' = poly_r st \<and> poly_buf st' = poly_buf st \<and>
     poly_buf_used st' = poly_buf_used st \<and> poly_key st' = poly_key st"
  by (simp add: poly_same_def poly_keyed_def poly_r_def)

lemma poly_same_trans: "poly_same a b \<Longrightarrow> poly_same b c \<Longrightarrow> poly_same a c"
  by (simp add: poly_same_def)

lemma unat_times5: "unat w \<le> 0x3ffffff \<Longrightarrow> unat (w * 5) = unat w * 5" for w :: u32
  using unat_mult_lem [of w 5] by simp

text \<open>The columns of the code are those of the bounds.\<close>

lemma poly1305_mul_limbs:
  assumes keyed: "poly_keyed st" and loaded: "poly_loaded st"
  shows "poly_same st (poly1305_mul st)" "poly_reduced (poly1305_mul st)"
    "\<exists>q. poly_h st * poly_r st = poly_h (poly1305_mul st) + (2 ^ 130 - 5) * q"
proof -
  define h0 h1 h2 h3 h4 where h: "h0 = unat (poly_h0 st)" "h1 = unat (poly_h1 st)" "h2 = unat (poly_h2 st)" "h3 = unat (poly_h3 st)" "h4 = unat (poly_h4 st)"
  define r0 r1 r2 r3 r4 where r: "r0 = unat (poly_r0 st)" "r1 = unat (poly_r1 st)" "r2 = unat (poly_r2 st)" "r3 = unat (poly_r3 st)" "r4 = unat (poly_r4 st)"
  have hb: "h0 \<le> 2867108863" "h1 \<le> 2 ^ 27" "h2 \<le> 2 ^ 27" "h3 \<le> 2 ^ 27" "h4 \<le> 2 ^ 26 + 2 ^ 25"
    using loaded by (simp_all add: h poly_loaded_def)
  have rb: "r0 \<le> 0x3ffffff" "r1 \<le> 0x3ffff03" "r2 \<le> 0x3ffc0ff" "r3 \<le> 0x3f03fff" "r4 \<le> 0xfffff"
    using keyed by (simp_all add: r poly_keyed_def)
  have s: "unat (poly_s1 st) = r1 * 5" "unat (poly_s2 st) = r2 * 5" "unat (poly_s3 st) = r3 * 5" "unat (poly_s4 st) = r4 * 5"
    using keyed by (simp_all add: r poly_keyed_def unat_times5)
  define T0 where "T0 = mul32x32_64 (poly_h0 st) (poly_r0 st) + mul32x32_64 (poly_h1 st) (poly_s4 st) + mul32x32_64 (poly_h2 st) (poly_s3 st) + mul32x32_64 (poly_h3 st) (poly_s2 st) + mul32x32_64 (poly_h4 st) (poly_s1 st)"
  define T1 where "T1 = mul32x32_64 (poly_h0 st) (poly_r1 st) + mul32x32_64 (poly_h1 st) (poly_r0 st) + mul32x32_64 (poly_h2 st) (poly_s4 st) + mul32x32_64 (poly_h3 st) (poly_s3 st) + mul32x32_64 (poly_h4 st) (poly_s2 st)"
  define T2 where "T2 = mul32x32_64 (poly_h0 st) (poly_r2 st) + mul32x32_64 (poly_h1 st) (poly_r1 st) + mul32x32_64 (poly_h2 st) (poly_r0 st) + mul32x32_64 (poly_h3 st) (poly_s4 st) + mul32x32_64 (poly_h4 st) (poly_s3 st)"
  define T3 where "T3 = mul32x32_64 (poly_h0 st) (poly_r3 st) + mul32x32_64 (poly_h1 st) (poly_r2 st) + mul32x32_64 (poly_h2 st) (poly_r1 st) + mul32x32_64 (poly_h3 st) (poly_r0 st) + mul32x32_64 (poly_h4 st) (poly_s4 st)"
  define T4 where "T4 = mul32x32_64 (poly_h0 st) (poly_r4 st) + mul32x32_64 (poly_h1 st) (poly_r3 st) + mul32x32_64 (poly_h2 st) (poly_r2 st) + mul32x32_64 (poly_h3 st) (poly_r1 st) + mul32x32_64 (poly_h4 st) (poly_r0 st)"
  define t0 where "t0 = h0 * r0 + h1 * (r4 * 5) + h2 * (r3 * 5) + h3 * (r2 * 5) + h4 * (r1 * 5)"
  define t1 where "t1 = h0 * r1 + h1 * r0 + h2 * (r4 * 5) + h3 * (r3 * 5) + h4 * (r2 * 5)"
  define t2 where "t2 = h0 * r2 + h1 * r1 + h2 * r0 + h3 * (r4 * 5) + h4 * (r3 * 5)"
  define t3 where "t3 = h0 * r3 + h1 * r2 + h2 * r1 + h3 * r0 + h4 * (r4 * 5)"
  define t4 where "t4 = h0 * r4 + h1 * r3 + h2 * r2 + h3 * r1 + h4 * r0"
  define u1 where "u1 = t1 + t0 div 2 ^ 26"
  define u2 where "u2 = t2 + u1 div 2 ^ 26"
  define u3 where "u3 = t3 + u2 div 2 ^ 26"
  define u4 where "u4 = t4 + u3 div 2 ^ 26"
  have b: "t0 < 2 ^ 59" "u1 < 2 ^ 58" "u2 < 2 ^ 58" "u3 < 2 ^ 58" "u4 div 2 ^ 26 \<le> 546578227"
    using column_bounds [OF hb rb, folded t0_def t1_def t2_def t3_def t4_def, folded u1_def, folded u2_def, folded u3_def, folded u4_def] by blast+
  have u4: "u4 < 2 ^ 58" using b(5) by simp
  note col = unat_sum5 [where 'a = 64] unat_mul32x32_64
  have T: "unat T0 = t0" "unat T1 = t1" "unat T2 = t2" "unat T3 = t3" "unat T4 = t4"
    using b u4 unfolding T0_def T1_def T2_def T3_def T4_def u1_def u2_def u3_def u4_def
    by (simp_all add: col s h [symmetric] r [symmetric] t0_def [symmetric] t1_def [symmetric] t2_def [symmetric] t3_def [symmetric] t4_def [symmetric])
  define U1 where "U1 = T1 + drop_bit 26 T0"
  define U2 where "U2 = T2 + ucast (ucast (drop_bit 26 U1) :: u32)"
  define U3 where "U3 = T3 + ucast (ucast (drop_bit 26 U2) :: u32)"
  define U4 where "U4 = T4 + ucast (ucast (drop_bit 26 U3) :: u32)"
  have U1: "unat U1 = u1"
    unfolding U1_def u1_def using b(2) by (subst unat_add_lem [THEN iffD1]) (simp_all add: unat_drop T u1_def)
  have U2: "unat U2 = u2"
    unfolding U2_def u2_def using b(2,3) by (subst unat_add_lem [THEN iffD1]) (simp_all add: unat_carry T U1 u2_def)
  have U3: "unat U3 = u3"
    unfolding U3_def u3_def using b(3,4) by (subst unat_add_lem [THEN iffD1]) (simp_all add: unat_carry T U2 u3_def)
  have U4: "unat U4 = u4"
    unfolding U4_def u4_def using b(4) u4 by (subst unat_add_lem [THEN iffD1]) (simp_all add: unat_carry T U3 u4_def)
  have mul: "poly1305_mul st = st\<lparr>poly_h0 := (ucast T0 AND 0x3ffffff) + ucast (drop_bit 26 U4) * 5, poly_h1 := ucast U1 AND 0x3ffffff,
    poly_h2 := ucast U2 AND 0x3ffffff, poly_h3 := ucast U3 AND 0x3ffffff, poly_h4 := ucast U4 AND 0x3ffffff\<rparr>"
    by (simp add: poly1305_mul_def Let_def T0_def T1_def T2_def T3_def T4_def U1_def U2_def U3_def U4_def)
  show "poly_same st (poly1305_mul st)" by (simp add: mul poly_same_def)
  have m0: "unat (ucast T0 AND 0x3ffffff :: u32) = t0 mod 2 ^ 26" using unat_limb_of [of T0] by (simp only: T)
  have c: "unat (ucast (drop_bit 26 U4) :: u32) = u4 div 2 ^ 26" using u4 by (simp only: unat_carry U4)
  have c5: "unat (ucast (drop_bit 26 U4) * 5 :: u32) = u4 div 2 ^ 26 * 5"
    using b(5) by (subst unat_mult_lem [THEN iffD1]) (simp_all add: c)
  have g0: "unat ((ucast T0 AND 0x3ffffff) + ucast (drop_bit 26 U4) * 5 :: u32) = t0 mod 2 ^ 26 + 5 * (u4 div 2 ^ 26)"
  proof -
    have "t0 mod 2 ^ 26 < 2 ^ 26" by simp
    then have "unat (ucast T0 AND 0x3ffffff :: u32) + unat (ucast (drop_bit 26 U4) * 5 :: u32) < 2 ^ LENGTH(32)"
      unfolding m0 c5 using b(5) by simp
    from unat_add_lem [THEN iffD1, OF this] show ?thesis unfolding m0 c5 by (simp only: mult.commute)
  qed
  note g = g0 unat_limb_of [of U1, unfolded U1] unat_limb_of [of U2, unfolded U2] unat_limb_of [of U3, unfolded U3] unat_limb_of [of U4, unfolded U4]
  have sel: "poly_h0 (poly1305_mul st) = (ucast T0 AND 0x3ffffff) + ucast (drop_bit 26 U4) * 5" "poly_h1 (poly1305_mul st) = ucast U1 AND 0x3ffffff"
    "poly_h2 (poly1305_mul st) = ucast U2 AND 0x3ffffff" "poly_h3 (poly1305_mul st) = ucast U3 AND 0x3ffffff" "poly_h4 (poly1305_mul st) = ucast U4 AND 0x3ffffff"
    by (simp_all add: mul)
  have out: "unat (poly_h0 (poly1305_mul st)) = t0 mod 2 ^ 26 + 5 * (u4 div 2 ^ 26)" "unat (poly_h1 (poly1305_mul st)) = u1 mod 2 ^ 26"
    "unat (poly_h2 (poly1305_mul st)) = u2 mod 2 ^ 26" "unat (poly_h3 (poly1305_mul st)) = u3 mod 2 ^ 26" "unat (poly_h4 (poly1305_mul st)) = u4 mod 2 ^ 26"
    by (simp_all only: sel g)
  have "t0 mod 2 ^ 26 < 2 ^ 26" "u1 mod 2 ^ 26 < 2 ^ 26" "u2 mod 2 ^ 26 < 2 ^ 26" "u3 mod 2 ^ 26 < 2 ^ 26" "u4 mod 2 ^ 26 < 2 ^ 26" by simp_all
  then show "poly_reduced (poly1305_mul st)"
    using b(5) unfolding poly_reduced_def out by simp
  have "poly_h (poly1305_mul st) + (2 ^ 130 - 5) * (u4 div 2 ^ 26) = limbs t0 t1 t2 t3 t4"
    unfolding poly_h_def out limbs_carry [of t0 t1 t2 t3 t4, folded u1_def, folded u2_def, folded u3_def, folded u4_def] ..
  moreover obtain q where "poly_h st * poly_r st = limbs t0 t1 t2 t3 t4 + (2 ^ 130 - 5) * q"
  proof -
    have "t0 = h0 * r0 + 5 * (h1 * r4 + h2 * r3 + h3 * r2 + h4 * r1)" "t1 = h0 * r1 + h1 * r0 + 5 * (h2 * r4 + h3 * r3 + h4 * r2)"
      "t2 = h0 * r2 + h1 * r1 + h2 * r0 + 5 * (h3 * r4 + h4 * r3)" "t3 = h0 * r3 + h1 * r2 + h2 * r1 + h3 * r0 + 5 * (h4 * r4)"
      by (simp_all add: t0_def t1_def t2_def t3_def algebra_simps)
    then show thesis
      using that limbs_mult [of h0 h1 h2 h3 h4 r0 r1 r2 r3 r4] unfolding poly_h_def poly_r_def h [symmetric] r [symmetric] t4_def by metis
  qed
  ultimately have "poly_h st * poly_r st = poly_h (poly1305_mul st) + (2 ^ 130 - 5) * (u4 div 2 ^ 26) + (2 ^ 130 - 5) * q"
    by (simp only:)
  then have "poly_h st * poly_r st = poly_h (poly1305_mul st) + (2 ^ 130 - 5) * (u4 div 2 ^ 26 + q)"
    by (simp only: add.assoc distrib_left)
  then show "\<exists>q. poly_h st * poly_r st = poly_h (poly1305_mul st) + (2 ^ 130 - 5) * q" ..
qed

section \<open>Adding a block\<close>

lemma le_value_append: "le_value (a @ b) = le_value a + 2 ^ (8 * length a) * le_value b"
  by (induction a) (simp_all add: algebra_simps power_add)

lemma le_value_zeros [simp]: "le_value (replicate n 0) = 0"
  by (induction n) simp_all

lemma le_value_less: "le_value bs < 2 ^ (8 * length bs)"
proof (induction bs)
  case (Cons b bs)
  have "unat b < 2 ^ LENGTH(8)" by (rule unsigned_less)
  then have "unat b + 2 ^ 8 * le_value bs < 2 ^ 8 * (1 + le_value bs)" by simp
  also have "\<dots> \<le> 2 ^ 8 * 2 ^ (8 * length bs)" using Cons by (intro mult_le_mono) simp_all
  finally show ?case by (simp add: power_add)
qed simp

lemma unat_of_le: "8 * length bs \<le> LENGTH('a) \<Longrightarrow> unat (of_le bs :: 'a::len word) = le_value bs"
proof (induction bs)
  case (Cons b bs)
  have b: "unat (ucast b :: 'a word) = unat b"
  proof -
    have "unat b < 2 ^ LENGTH(8)" by (rule unsigned_less)
    then have "unat b < 2 ^ 8" by simp
    also have "(2 :: nat) ^ 8 \<le> 2 ^ LENGTH('a)" using Cons.prems by (intro power_increasing) simp_all
    finally show ?thesis by (simp add: unsigned_ucast_eq take_bit_nat_eq_self)
  qed
  have v: "unat (of_le bs :: 'a word) = le_value bs" using Cons by simp
  have "le_value (b # bs) < 2 ^ (8 * length (b # bs))" by (rule le_value_less)
  also have "\<dots> \<le> 2 ^ LENGTH('a)" using Cons.prems by (intro power_increasing) simp_all
  finally have "unat (of_le bs :: 'a word) * 2 ^ 8 + unat (ucast b :: 'a word) < 2 ^ LENGTH('a)" by (simp add: v b mult.commute add.commute)
  moreover have "unat (ucast b :: 'a word) < 2 ^ LENGTH(8)" unfolding b by (rule unsigned_less)
  then have "unat (ucast b :: 'a word) < 2 ^ 8" by simp
  ultimately have "unat (push_bit 8 (of_le bs) OR ucast b :: 'a word) = le_value bs * 2 ^ 8 + unat b"
    by (subst unat_push_or) (simp_all only: v b)
  then show ?case by (simp add: or.commute mult.commute)
qed simp

lemma le_value_words:
  assumes "length m = 16"
  shows "le_value m = unat (U8TO32_LE m 0) + 2 ^ 32 * unat (U8TO32_LE m 4) + 2 ^ 64 * unat (U8TO32_LE m 8) + 2 ^ 96 * unat (U8TO32_LE m 12)"
proof -
  have w: "unat (U8TO32_LE m i) = le_value (take 4 (drop i m))" for i by (simp add: U8TO32_LE_def unat_of_le)
  have "m = take 4 (drop 0 m) @ take 4 (drop 4 m) @ take 4 (drop 8 m) @ take 4 (drop 12 m)"
  proof -
    have "m = take 4 m @ drop 4 m" "drop 4 m = take 4 (drop 4 m) @ drop 8 m" "drop 8 m = take 4 (drop 8 m) @ drop 12 m"
      using append_take_drop_id [of 4 "drop 4 m"] append_take_drop_id [of 4 "drop 8 m"] by simp_all
    moreover have "drop 12 m = take 4 (drop 12 m)" using assms by simp
    ultimately show ?thesis by (metis drop0)
  qed
  then have "le_value m = le_value (take 4 (drop 0 m) @ take 4 (drop 4 m) @ take 4 (drop 8 m) @ take 4 (drop 12 m))" by simp
  then show ?thesis unfolding w le_value_append using assms by (simp add: algebra_simps)
qed

text \<open>A limb that straddles two words.\<close>

lemma straddle:
  fixes a b :: nat
  assumes "b < 2 ^ 32" "6 \<le> k" "k \<le> 32"
  shows "(a * 2 ^ 32 + b) div 2 ^ k mod 2 ^ 26 = (a mod 2 ^ (k - 6)) * 2 ^ (32 - k) + b div 2 ^ k"
proof -
  have x: "(2 :: nat) ^ 32 = 2 ^ (32 - k) * 2 ^ k" "(2 :: nat) ^ 26 = 2 ^ (32 - k) * 2 ^ (k - 6)"
    using assms by (simp_all flip: power_add)
  have b: "b div 2 ^ k < 2 ^ (32 - k)" using assms(1) unfolding x by (simp add: less_mult_imp_div_less)
  have "(a * 2 ^ 32 + b) div 2 ^ k = a * 2 ^ (32 - k) + b div 2 ^ k" unfolding x by (simp add: mult.assoc [symmetric])
  then show ?thesis using b unfolding x(2) by (subst mod_mult2_eq) simp
qed

lemma limbs_of_words:
  fixes t0 t1 t2 t3 :: nat
  assumes "t0 < 2 ^ 32" "t1 < 2 ^ 32" "t2 < 2 ^ 32"
  shows "limbs (t0 mod 2 ^ 26) ((t1 * 2 ^ 32 + t0) div 2 ^ 26 mod 2 ^ 26) ((t2 * 2 ^ 32 + t1) div 2 ^ 20 mod 2 ^ 26)
      ((t3 * 2 ^ 32 + t2) div 2 ^ 14 mod 2 ^ 26) (t3 div 2 ^ 8) = t0 + 2 ^ 32 * t1 + 2 ^ 64 * t2 + 2 ^ 96 * t3"
proof -
  define d0 m0 d1 m1 d2 m2 d3 m3 where d: "d0 = t0 div 2 ^ 26" "m0 = t0 mod 2 ^ 26" "d1 = t1 div 2 ^ 20" "m1 = t1 mod 2 ^ 20"
    "d2 = t2 div 2 ^ 14" "m2 = t2 mod 2 ^ 14" "d3 = t3 div 2 ^ 8" "m3 = t3 mod 2 ^ 8"
  have e: "t0 = 2 ^ 26 * d0 + m0" "t1 = 2 ^ 20 * d1 + m1" "t2 = 2 ^ 14 * d2 + m2" "t3 = 2 ^ 8 * d3 + m3"
    unfolding d by simp_all
  have s: "(t1 * 2 ^ 32 + t0) div 2 ^ 26 mod 2 ^ 26 = t1 mod 2 ^ 20 * 2 ^ 6 + t0 div 2 ^ 26"
    "(t2 * 2 ^ 32 + t1) div 2 ^ 20 mod 2 ^ 26 = t2 mod 2 ^ 14 * 2 ^ 12 + t1 div 2 ^ 20"
    "(t3 * 2 ^ 32 + t2) div 2 ^ 14 mod 2 ^ 26 = t3 mod 2 ^ 8 * 2 ^ 18 + t2 div 2 ^ 14"
    by (subst straddle; simp add: assms [simplified])+
  show ?thesis unfolding limbs_def s d [symmetric] unfolding e by simp
qed

lemma unat_straddle:
  fixes a b :: u32
  shows "unat (ucast (drop_bit k (push_bit 32 (ucast a) OR ucast b :: u64) AND 0x3ffffff) :: u32) =
    (unat a * 2 ^ 32 + unat b) div 2 ^ k mod 2 ^ 26"
proof -
  have ab: "unat a < 2 ^ LENGTH(32)" "unat b < 2 ^ LENGTH(32)" by (rule unsigned_less)+
  then have "unat (push_bit 32 (ucast a) OR ucast b :: u64) = unat a * 2 ^ 32 + unat b"
    by (subst unat_push_or) simp_all
  then have u: "unat (drop_bit k (push_bit 32 (ucast a) OR ucast b :: u64) AND 0x3ffffff) = (unat a * 2 ^ 32 + unat b) div 2 ^ k mod 2 ^ 26"
    by (simp only: unat_and_26 unat_drop)
  have "(unat a * 2 ^ 32 + unat b) div 2 ^ k mod 2 ^ 26 < 2 ^ 32" by (rule less_trans [of _ "2 ^ 26"]) simp_all
  then show ?thesis unfolding unsigned_ucast_eq u by (simp add: take_bit_nat_eq_self)
qed

lemma poly1305_add_limbs:
  assumes red: "poly_reduced st" and m: "length m = 16" and hb: "unat hb \<le> 1"
  shows "poly_same st (poly1305_add (push_bit 24 hb) st m)" "poly_loaded (poly1305_add (push_bit 24 hb) st m)"
    "poly_h (poly1305_add (push_bit 24 hb) st m) = poly_h st + le_value m + 2 ^ 128 * unat hb"
proof -
  define t0 t1 t2 t3 where t: "t0 = U8TO32_LE m 0" "t1 = U8TO32_LE m 4" "t2 = U8TO32_LE m 8" "t3 = U8TO32_LE m 12"
  let ?st = "poly1305_add (push_bit 24 hb) st m"
  define v0 v1 v2 v3 v4 where v: "v0 = unat t0 mod 2 ^ 26" "v1 = (unat t1 * 2 ^ 32 + unat t0) div 2 ^ 26 mod 2 ^ 26"
    "v2 = (unat t2 * 2 ^ 32 + unat t1) div 2 ^ 20 mod 2 ^ 26" "v3 = (unat t3 * 2 ^ 32 + unat t2) div 2 ^ 14 mod 2 ^ 26"
    "v4 = unat hb * 2 ^ 24 + unat t3 div 2 ^ 8"
  have lt: "unat t0 < 2 ^ LENGTH(32)" "unat t1 < 2 ^ LENGTH(32)" "unat t2 < 2 ^ LENGTH(32)" "unat t3 < 2 ^ LENGTH(32)" by (rule unsigned_less)+
  have top: "unat t3 div 2 ^ 8 < 2 ^ 24" using lt(4) by simp
  have vb: "v0 < 2 ^ 26" "v1 < 2 ^ 26" "v2 < 2 ^ 26" "v3 < 2 ^ 26" "v4 < 2 ^ 25"
    using hb top by (simp_all add: v)
  have v4: "unat (drop_bit 8 t3 OR push_bit 24 hb) = v4"
    using hb top by (subst or.commute, subst unat_push_or) (simp_all add: unat_drop v)
  have r: "unat (poly_h0 st) \<le> 2800000000" "unat (poly_h1 st) < 2 ^ 26" "unat (poly_h2 st) < 2 ^ 26"
      "unat (poly_h3 st) < 2 ^ 26" "unat (poly_h4 st) < 2 ^ 26"
    using red by (simp_all add: poly_reduced_def)
  have plus: "unat (a + b) = unat a + n" if "unat b = n" "unat a + n < 2 ^ 32" for a b :: u32 and n
    using that unat_add_lem [of a b] by simp
  have sel: "poly_h0 ?st = poly_h0 st + (t0 AND 0x3ffffff)"
    "poly_h1 ?st = poly_h1 st + ucast (drop_bit 26 (push_bit 32 (ucast t1) OR ucast t0 :: u64) AND 0x3ffffff)"
    "poly_h2 ?st = poly_h2 st + ucast (drop_bit 20 (push_bit 32 (ucast t2) OR ucast t1 :: u64) AND 0x3ffffff)"
    "poly_h3 ?st = poly_h3 st + ucast (drop_bit 14 (push_bit 32 (ucast t3) OR ucast t2 :: u64) AND 0x3ffffff)"
    "poly_h4 ?st = poly_h4 st + (drop_bit 8 t3 OR push_bit 24 hb)"
    by (simp_all add: poly1305_add_def Let_def t)
  have out: "unat (poly_h0 ?st) = unat (poly_h0 st) + v0" "unat (poly_h1 ?st) = unat (poly_h1 st) + v1"
    "unat (poly_h2 ?st) = unat (poly_h2 st) + v2" "unat (poly_h3 ?st) = unat (poly_h3 st) + v3" "unat (poly_h4 ?st) = unat (poly_h4 st) + v4"
    unfolding sel using vb r
    by - (rule plus, simp only: v unat_and_26 unat_straddle v4 [unfolded v], simp)+
  show "poly_same st ?st" by (simp add: poly1305_add_def Let_def poly_same_def)
  show "poly_loaded ?st" unfolding poly_loaded_def out using r vb by simp
  have "limbs v0 v1 v2 v3 (unat t3 div 2 ^ 8) = le_value m"
    unfolding v le_value_words [OF m] t [symmetric] using lt by (intro limbs_of_words) simp_all
  then have "limbs v0 v1 v2 v3 v4 = le_value m + 2 ^ 128 * unat hb" by (simp add: limbs_def v(5) algebra_simps)
  then show "poly_h ?st = poly_h st + le_value m + 2 ^ 128 * unat hb"
    unfolding poly_h_def out by (simp add: limbs_def algebra_simps)
qed

section \<open>Blocks\<close>

text \<open>What one turn of the loop does, for a full block and for the padded rest.\<close>

definition poly_turn :: "poly1305_state \<Rightarrow> byte list \<Rightarrow> poly1305_state" where
  "poly_turn st m = poly1305_mul (if length m = 16 then poly1305_add (push_bit 24 1) st m
     else poly1305_add 0 st (m @ [1] @ replicate (16 - (length m + 1)) 0))"

lemma poly_turn_block:
  assumes key: "poly_keyed st" and red: "poly_reduced st" and m: "length m \<le> 16"
  shows "poly_same st (poly_turn st m)" "poly_reduced (poly_turn st m)"
    "poly_h (poly_turn st m) mod poly_p = poly_block (poly_r st) (poly_h st mod poly_p) m"
proof -
  obtain hb m' where turn: "poly_turn st m = poly1305_mul (poly1305_add (push_bit 24 hb) st m')" and m': "length m' = 16"
    and hb: "unat hb \<le> 1" and val: "le_value m' + 2 ^ 128 * unat hb = le_value m + 2 ^ (8 * length m)"
  proof (cases "length m = 16")
    case True
    then show thesis by (intro that [of 1 m]) (simp_all add: poly_turn_def)
  next
    case False
    then show thesis using m
      by (intro that [of 0 "m @ [1] @ replicate (16 - (length m + 1)) 0"]) (simp_all add: poly_turn_def le_value_append)
  qed
  let ?a = "poly1305_add (push_bit 24 hb) st m'"
  note a = poly1305_add_limbs [OF red m' hb]
  have "poly_keyed ?a" using poly_same_facts [OF a(1)] key by simp
  note mul = poly1305_mul_limbs [OF this a(2)]
  show "poly_same st (poly_turn st m)" unfolding turn using poly_same_trans [OF a(1) mul(1)] .
  show "poly_reduced (poly_turn st m)" unfolding turn by (rule mul(2))
  obtain q where "poly_h ?a * poly_r ?a = poly_h (poly_turn st m) + poly_p * q"
    using mul(3) unfolding turn poly_p_def by blast
  then have "poly_h (poly_turn st m) mod poly_p = poly_h ?a * poly_r ?a mod poly_p" by simp
  also have "poly_h ?a * poly_r ?a = (poly_h st + (le_value m + 2 ^ (8 * length m))) * poly_r st"
    using poly_same_facts [OF a(1)] by (simp only: a(3) val add.assoc)
  also have "\<dots> mod poly_p = (poly_h st mod poly_p + (le_value m + 2 ^ (8 * length m))) * poly_r st mod poly_p"
    by (metis mod_add_left_eq mod_mult_left_eq)
  finally show "poly_h (poly_turn st m) mod poly_p = poly_block (poly_r st) (poly_h st mod poly_p) m"
    by (simp add: poly_block_def add.assoc)
qed

lemma poly1305_update_turns:
  "poly1305_update st m = (if m = [] then st else if 16 \<le> length m then poly1305_update (poly_turn st (take 16 m)) (drop 16 m) else poly_turn st m)"
  by (subst poly1305_update.simps) (simp add: poly_turn_def Let_def)

lemma poly1305_update_blocks:
  assumes "poly_keyed st" "poly_reduced st"
  shows "poly_same st (poly1305_update st m) \<and> poly_reduced (poly1305_update st m) \<and>
    poly_h (poly1305_update st m) mod poly_p = poly_blocks (poly_r st) (poly_h st mod poly_p) m"
  using assms
proof (induction m arbitrary: st rule: length_induct)
  case (1 m)
  show ?case
  proof (cases "m = []")
    case True
    then show ?thesis using 1 by (simp add: poly1305_update_turns [of _ "[]"] poly_blocks.simps [of _ _ "[]"] poly_same_def)
  next
    case False
    let ?st = "poly_turn st (take 16 m)"
    have t: "poly_same st ?st" "poly_reduced ?st" "poly_h ?st mod poly_p = poly_block (poly_r st) (poly_h st mod poly_p) (take 16 m)"
      using poly_turn_block [of st "take 16 m"] 1 by simp_all
    have k: "poly_keyed ?st" "poly_r ?st = poly_r st" using poly_same_facts [OF t(1)] 1 by simp_all
    have "poly1305_update st m = poly1305_update ?st (drop 16 m)"
      using False by (subst poly1305_update_turns) (simp add: poly1305_update_turns [of _ "[]"])
    moreover have "length (drop 16 m) < length m" using False by simp
    ultimately show ?thesis
      using 1 t k False poly_same_trans [OF t(1)] poly_blocks.simps [of "poly_r st" "poly_h st mod poly_p" m] by simp
  qed
qed

lemma poly_blocks_append: "length a = 16 * n \<Longrightarrow> poly_blocks r x (a @ b) = poly_blocks r (poly_blocks r x a) b"
proof (induction n arbitrary: a x)
  case 0
  then show ?case by (simp add: poly_blocks.simps [of _ _ "[]"])
next
  case (Suc n)
  then have "a \<noteq> []" "length (drop 16 a) = 16 * n" "16 \<le> length a" by auto
  then show ?case using Suc.IH [of "drop 16 a"] poly_blocks.simps [of r x a] poly_blocks.simps [of r x "a @ b"] by simp
qed

end
