(* ===== verification/Poly1305_Final.thy ===== *)
theory Poly1305_Final
  imports Poly1305_Limbs
begin

text \<open>
  The end of \<open>CRYPTO_poly1305_finish\<close>: the last carries, the conditional subtraction, the packing of the limbs into
  words and the sum with the key, with the condition under which the limbs do not overlap.
\<close>

section \<open>The final reduction\<close>

text \<open>
  The carry that comes back from the last limb is added to the first one, but not carried on. If it makes the first
  limb overflow, the limbs overlap when they are packed. That needs a residue below \<open>2 ^ 32\<close> that is less than
  5 modulo \<open>2 ^ 26\<close>; for any other residue the limbs are the digits of a number below \<open>2 ^ 130\<close>.
\<close>

definition poly_packs :: "nat \<Rightarrow> bool" where
  "poly_packs a \<longleftrightarrow> 2 ^ 32 \<le> a \<or> 5 \<le> a mod 2 ^ 26"

lemma limbs_mod: "limbs a0 a1 a2 a3 a4 mod 2 ^ 26 = a0 mod 2 ^ 26"
proof -
  have "limbs a0 a1 a2 a3 a4 = a0 + 2 ^ 26 * (a1 + 2 ^ 26 * a2 + 2 ^ 52 * a3 + 2 ^ 78 * a4)" by (simp add: limbs_def algebra_simps)
  then show ?thesis by (simp only: mod_mult_self2)
qed

lemma limbs_less:
  assumes "a0 < 2 ^ 26" "a1 < 2 ^ 26" "a2 < 2 ^ 26" "a3 < 2 ^ 26"
  shows "limbs a0 a1 a2 a3 a4 < 2 ^ 104 * (a4 + 1)"
  using assms unfolding limbs_def by simp

lemma final_carry:
  fixes h0 h1 h2 h3 h4 :: nat
  assumes h: "h0 \<le> 2800000000" "h1 < 2 ^ 26" "h2 < 2 ^ 26" "h3 < 2 ^ 26" "h4 < 2 ^ 26"
    and packs: "poly_packs (limbs h0 h1 h2 h3 h4 mod poly_p)"
  defines "u1 \<equiv> h1 + h0 div 2 ^ 26"
  defines "u2 \<equiv> h2 + u1 div 2 ^ 26"
  defines "u3 \<equiv> h3 + u2 div 2 ^ 26"
  defines "u4 \<equiv> h4 + u3 div 2 ^ 26"
  defines "v \<equiv> limbs (h0 mod 2 ^ 26 + 5 * (u4 div 2 ^ 26)) (u1 mod 2 ^ 26) (u2 mod 2 ^ 26) (u3 mod 2 ^ 26) (u4 mod 2 ^ 26)"
  shows "u1 < 2 ^ 27" "u2 \<le> 2 ^ 26" "u3 \<le> 2 ^ 26" "u4 \<le> 2 ^ 26"
    "h0 mod 2 ^ 26 + 5 * (u4 div 2 ^ 26) < 2 ^ 26" "v mod poly_p = limbs h0 h1 h2 h3 h4 mod poly_p"
proof -
  have q0: "h0 div 2 ^ 26 \<le> 41" using div_le_mono [OF h(1), of "2 ^ 26"] by simp
  show u1: "u1 < 2 ^ 27" using q0 h unfolding u1_def by simp
  then have "u1 div 2 ^ 26 < 2" by (simp add: less_mult_imp_div_less)
  then show u2: "u2 \<le> 2 ^ 26" using h unfolding u2_def by simp
  then have "u2 div 2 ^ 26 \<le> 1" using div_le_mono [OF u2, of "2 ^ 26"] by simp
  then show u3: "u3 \<le> 2 ^ 26" using h unfolding u3_def by simp
  then have "u3 div 2 ^ 26 \<le> 1" using div_le_mono [OF u3, of "2 ^ 26"] by simp
  then show u4: "u4 \<le> 2 ^ 26" using h unfolding u4_def by simp
  have c: "limbs h0 h1 h2 h3 h4 = v + poly_p * (u4 div 2 ^ 26)"
    unfolding v_def poly_p_def using limbs_carry [of h0 h1 h2 h3 h4, folded u1_def, folded u2_def, folded u3_def, folded u4_def] .
  then show v: "v mod poly_p = limbs h0 h1 h2 h3 h4 mod poly_p" by simp
  show "h0 mod 2 ^ 26 + 5 * (u4 div 2 ^ 26) < 2 ^ 26"
  proof (cases "u4 div 2 ^ 26 = 0")
    case True
    then show ?thesis by simp
  next
    case False
    then have 1: "u4 div 2 ^ 26 = 1" using div_le_mono [OF u4, of "2 ^ 26"] by simp
    have "limbs h0 h1 h2 h3 h4 < 2 ^ 130 + 2 ^ 32 - 5" using h unfolding limbs_def by simp
    then have small: "v < 2 ^ 32" unfolding c 1 poly_p_def by simp
    then have "v mod poly_p = v" unfolding poly_p_def by simp
    then have "5 \<le> v mod 2 ^ 26" using packs small unfolding v [symmetric] poly_packs_def by simp
    then have "5 \<le> (h0 mod 2 ^ 26 + 5) mod 2 ^ 26" unfolding v_def limbs_mod 1 by simp
    moreover have "h0 mod 2 ^ 26 < 2 ^ 26" by simp
    ultimately show ?thesis unfolding 1 by (cases "h0 mod 2 ^ 26 + 5 < 2 ^ 26") (simp_all add: le_mod_geq)
  qed
qed

text \<open>The conditional subtraction.\<close>

lemma final_subtract:
  fixes a0 a1 a2 a3 a4 :: nat
  assumes a: "a0 < 2 ^ 26" "a1 < 2 ^ 26" "a2 < 2 ^ 26" "a3 < 2 ^ 26" "a4 < 2 ^ 26"
  defines "g1 \<equiv> a1 + (a0 + 5) div 2 ^ 26"
  defines "g2 \<equiv> a2 + g1 div 2 ^ 26"
  defines "g3 \<equiv> a3 + g2 div 2 ^ 26"
  defines "g4 \<equiv> a4 + g3 div 2 ^ 26"
  shows "g1 \<le> 2 ^ 26" "g2 \<le> 2 ^ 26" "g3 \<le> 2 ^ 26" "g4 \<le> 2 ^ 26"
    "g4 < 2 ^ 26 \<Longrightarrow> limbs a0 a1 a2 a3 a4 mod poly_p = limbs a0 a1 a2 a3 a4"
    "g4 = 2 ^ 26 \<Longrightarrow> limbs a0 a1 a2 a3 a4 mod poly_p = limbs ((a0 + 5) mod 2 ^ 26) (g1 mod 2 ^ 26) (g2 mod 2 ^ 26) (g3 mod 2 ^ 26) 0"
proof -
  have one: "x div 2 ^ 26 \<le> 1" if "x < 2 ^ 27" for x :: nat using less_mult_imp_div_less [of x 2 "2 ^ 26"] that by simp
  show g: "g1 \<le> 2 ^ 26" using a one [of "a0 + 5"] unfolding g1_def by simp
  show g2: "g2 \<le> 2 ^ 26" using a g one [of g1] unfolding g2_def by simp
  show g3: "g3 \<le> 2 ^ 26" using a g2 one [of g2] unfolding g3_def by simp
  show g4: "g4 \<le> 2 ^ 26" using a g3 one [of g3] unfolding g4_def by simp
  have c: "limbs (a0 + 5) a1 a2 a3 a4 =
      limbs ((a0 + 5) mod 2 ^ 26 + 5 * (g4 div 2 ^ 26)) (g1 mod 2 ^ 26) (g2 mod 2 ^ 26) (g3 mod 2 ^ 26) (g4 mod 2 ^ 26) + (2 ^ 130 - 5) * (g4 div 2 ^ 26)"
    using limbs_carry [of "a0 + 5" a1 a2 a3 a4, folded g1_def, folded g2_def, folded g3_def, folded g4_def] .
  have five: "limbs (x + 5) b c d e = limbs x b c d e + 5" for x b c d e by (simp add: limbs_def)
  let ?g = "limbs ((a0 + 5) mod 2 ^ 26) (g1 mod 2 ^ 26) (g2 mod 2 ^ 26) (g3 mod 2 ^ 26)"
  { assume lt: "g4 < 2 ^ 26"
    then have "limbs a0 a1 a2 a3 a4 + 5 = ?g g4" using c unfolding five by simp
    also have "\<dots> < 2 ^ 104 * (g4 + 1)" by (rule limbs_less) simp_all
    also have "\<dots> \<le> 2 ^ 104 * 2 ^ 26" using lt by (intro mult_le_mono2) simp
    finally show "limbs a0 a1 a2 a3 a4 mod poly_p = limbs a0 a1 a2 a3 a4" unfolding poly_p_def by simp }
  { assume eq: "g4 = 2 ^ 26"
    have "limbs a0 a1 a2 a3 a4 + 5 = ?g 0 + 5 + (2 ^ 130 - 5)" using c unfolding five eq by (simp add: five)
    then have "limbs a0 a1 a2 a3 a4 = ?g 0 + poly_p" unfolding poly_p_def by simp
    moreover have "?g 0 < 2 ^ 104 * (0 + 1)" by (rule limbs_less) simp_all
    then have "?g 0 < poly_p" unfolding poly_p_def by simp
    ultimately show "limbs a0 a1 a2 a3 a4 mod poly_p = ?g 0" by simp }
qed

definition poly_limbs :: "poly1305_state \<Rightarrow> nat list" where
  "poly_limbs st = [unat (poly_h0 st), unat (poly_h1 st), unat (poly_h2 st), unat (poly_h3 st), unat (poly_h4 st)]"

lemma unat_plus32: "unat b = n \<Longrightarrow> unat a + n < 2 ^ 32 \<Longrightarrow> unat (a + b) = unat a + n" for a b :: u32
  using unat_add_lem [of a b] by simp

lemma poly1305_carry_limbs:
  assumes red: "poly_reduced st" and packs: "poly_packs (poly_h st mod poly_p)"
  shows "poly_same st (poly1305_carry st)" "\<forall>x \<in> set (poly_limbs (poly1305_carry st)). x < 2 ^ 26"
    "poly_h (poly1305_carry st) mod poly_p = poly_h st mod poly_p"
proof -
  define h0 h1 h2 h3 h4 where h: "h0 = unat (poly_h0 st)" "h1 = unat (poly_h1 st)" "h2 = unat (poly_h2 st)" "h3 = unat (poly_h3 st)" "h4 = unat (poly_h4 st)"
  define u1 where "u1 = h1 + h0 div 2 ^ 26"
  define u2 where "u2 = h2 + u1 div 2 ^ 26"
  define u3 where "u3 = h3 + u2 div 2 ^ 26"
  define u4 where "u4 = h4 + u3 div 2 ^ 26"
  have hb: "h0 \<le> 2800000000" "h1 < 2 ^ 26" "h2 < 2 ^ 26" "h3 < 2 ^ 26" "h4 < 2 ^ 26"
    using red by (simp_all add: h poly_reduced_def)
  note fc = final_carry [OF hb packs [unfolded poly_h_def h [symmetric]], folded u1_def, folded u2_def, folded u3_def, folded u4_def]
  define U1 where "U1 = poly_h1 st + drop_bit 26 (poly_h0 st)"
  define U2 where "U2 = poly_h2 st + drop_bit 26 U1"
  define U3 where "U3 = poly_h3 st + drop_bit 26 U2"
  define U4 where "U4 = poly_h4 st + drop_bit 26 U3"
  have U1: "unat U1 = u1" unfolding U1_def u1_def h(2) using fc(1) by (intro unat_plus32) (simp_all add: unat_drop h u1_def)
  have U2: "unat U2 = u2" unfolding U2_def u2_def h(3) using fc(2) by (intro unat_plus32) (simp_all add: unat_drop U1 h u2_def)
  have U3: "unat U3 = u3" unfolding U3_def u3_def h(4) using fc(3) by (intro unat_plus32) (simp_all add: unat_drop U2 h u3_def)
  have U4: "unat U4 = u4" unfolding U4_def u4_def h(5) using fc(4) by (intro unat_plus32) (simp_all add: unat_drop U3 h u4_def)
  have sel: "poly_h0 (poly1305_carry st) = (poly_h0 st AND 0x3ffffff) + drop_bit 26 U4 * 5" "poly_h1 (poly1305_carry st) = U1 AND 0x3ffffff"
    "poly_h2 (poly1305_carry st) = U2 AND 0x3ffffff" "poly_h3 (poly1305_carry st) = U3 AND 0x3ffffff" "poly_h4 (poly1305_carry st) = U4 AND 0x3ffffff"
    by (simp_all add: poly1305_carry_def Let_def U1_def U2_def U3_def U4_def)
  have c: "u4 div 2 ^ 26 \<le> 1" using div_le_mono [OF fc(4), of "2 ^ 26"] by simp
  have c5: "unat (drop_bit 26 U4 * 5) = 5 * (u4 div 2 ^ 26)"
    using c by (subst unat_mult_lem [THEN iffD1]) (simp_all add: unat_drop U4)
  have m0: "unat (poly_h0 st AND 0x3ffffff) = h0 mod 2 ^ 26" by (simp only: unat_and_26 h)
  have g0: "unat ((poly_h0 st AND 0x3ffffff) + drop_bit 26 U4 * 5) = h0 mod 2 ^ 26 + 5 * (u4 div 2 ^ 26)"
    using fc(5) unfolding m0 [symmetric] by (intro unat_plus32 c5) simp
  have out: "unat (poly_h0 (poly1305_carry st)) = h0 mod 2 ^ 26 + 5 * (u4 div 2 ^ 26)" "unat (poly_h1 (poly1305_carry st)) = u1 mod 2 ^ 26"
    "unat (poly_h2 (poly1305_carry st)) = u2 mod 2 ^ 26" "unat (poly_h3 (poly1305_carry st)) = u3 mod 2 ^ 26" "unat (poly_h4 (poly1305_carry st)) = u4 mod 2 ^ 26"
    by (simp_all only: sel g0 unat_and_26 U1 U2 U3 U4)
  show "poly_same st (poly1305_carry st)" by (simp add: poly1305_carry_def Let_def poly_same_def)
  show "\<forall>x \<in> set (poly_limbs (poly1305_carry st)). x < 2 ^ 26" using fc(5) unfolding poly_limbs_def out by simp
  show "poly_h (poly1305_carry st) mod poly_p = poly_h st mod poly_p" using fc(6) unfolding poly_h_def out h .
qed

lemma select_mask:
  assumes "unat G \<le> 2 ^ 26"
  shows "drop_bit 31 (G - push_bit 26 1) - 1 = (if unat G < 2 ^ 26 then 0 else - 1 :: u32)"
proof (cases "unat G < 2 ^ 26")
  case True
  then have "unat (G - 2 ^ 26) = 2 ^ 32 + unat G - 2 ^ 26"
    by (simp add: unat_sub_if_size word_size word_le_nat_alt)
  then have "unat (drop_bit 31 (G - 2 ^ 26)) = 1" unfolding unat_drop using True by (simp add: div_nat_eqI)
  then have "drop_bit 31 (G - push_bit 26 1) = 1" by (simp add: push_bit_eq_mult word_unat_eq_iff)
  then show ?thesis using True by simp
next
  case False
  then have "G = push_bit 26 1" using assms by (simp add: word_unat_eq_iff push_bit_eq_mult)
  then show ?thesis using False by simp
qed

lemma poly1305_select_limbs:
  assumes small: "\<forall>x \<in> set (poly_limbs st). x < 2 ^ 26"
  shows "poly_same st (poly1305_select st)" "\<forall>x \<in> set (poly_limbs (poly1305_select st)). x < 2 ^ 26"
    "poly_h (poly1305_select st) = poly_h st mod poly_p"
proof -
  define a0 a1 a2 a3 a4 where a: "a0 = unat (poly_h0 st)" "a1 = unat (poly_h1 st)" "a2 = unat (poly_h2 st)" "a3 = unat (poly_h3 st)" "a4 = unat (poly_h4 st)"
  have ab: "a0 < 2 ^ 26" "a1 < 2 ^ 26" "a2 < 2 ^ 26" "a3 < 2 ^ 26" "a4 < 2 ^ 26" using small by (simp_all add: poly_limbs_def a)
  define g1 where "g1 = a1 + (a0 + 5) div 2 ^ 26"
  define g2 where "g2 = a2 + g1 div 2 ^ 26"
  define g3 where "g3 = a3 + g2 div 2 ^ 26"
  define g4 where "g4 = a4 + g3 div 2 ^ 26"
  note fs = final_subtract [OF ab, folded g1_def, folded g2_def, folded g3_def, folded g4_def]
  define G1 where "G1 = poly_h1 st + drop_bit 26 (poly_h0 st + 5)"
  define G2 where "G2 = poly_h2 st + drop_bit 26 G1"
  define G3 where "G3 = poly_h3 st + drop_bit 26 G2"
  define G4 where "G4 = poly_h4 st + drop_bit 26 G3"
  have G0: "unat (poly_h0 st + 5) = a0 + 5" unfolding a using ab by (intro unat_plus32) (simp_all add: a)
  have G1: "unat G1 = g1" unfolding G1_def g1_def a(2) using fs(1) by (intro unat_plus32) (simp_all add: unat_drop G0 a g1_def)
  have G2: "unat G2 = g2" unfolding G2_def g2_def a(3) using fs(2) by (intro unat_plus32) (simp_all add: unat_drop G1 a g2_def)
  have G3: "unat G3 = g3" unfolding G3_def g3_def a(4) using fs(3) by (intro unat_plus32) (simp_all add: unat_drop G2 a g3_def)
  have G4: "unat G4 = g4" unfolding G4_def g4_def a(5) using fs(4) by (intro unat_plus32) (simp_all add: unat_drop G3 a g4_def)
  have mask: "drop_bit 31 (G4 - push_bit 26 1) - 1 = (if g4 < 2 ^ 26 then 0 else - 1)"
    using select_mask [of G4] fs(4) by (simp only: G4)
  show "poly_same st (poly1305_select st)" by (simp add: poly1305_select_def Let_def poly_same_def)
  have sel: "poly1305_select st = (let b = drop_bit 31 (G4 - push_bit 26 1) - 1 in
      st\<lparr>poly_h0 := poly_h0 st AND NOT b OR ((poly_h0 st + 5) AND 0x3ffffff) AND b, poly_h1 := poly_h1 st AND NOT b OR (G1 AND 0x3ffffff) AND b,
        poly_h2 := poly_h2 st AND NOT b OR (G2 AND 0x3ffffff) AND b, poly_h3 := poly_h3 st AND NOT b OR (G3 AND 0x3ffffff) AND b,
        poly_h4 := poly_h4 st AND NOT b OR (G4 - push_bit 26 1) AND b\<rparr>)"
    unfolding poly1305_select_def G1_def G2_def G3_def G4_def Let_def ..
  show "\<forall>x \<in> set (poly_limbs (poly1305_select st)). x < 2 ^ 26" "poly_h (poly1305_select st) = poly_h st mod poly_p"
  proof (atomize (full), cases "g4 < 2 ^ 26")
    case True
    then have "poly1305_select st = st" unfolding sel mask by simp
    then show "(\<forall>x \<in> set (poly_limbs (poly1305_select st)). x < 2 ^ 26) \<and> poly_h (poly1305_select st) = poly_h st mod poly_p"
      using small fs(5) [OF True] unfolding poly_h_def a by simp
  next
    case False
    then have eq: "g4 = 2 ^ 26" using fs(4) by simp
    then have G4': "G4 = push_bit 26 1" using G4 by (simp add: word_unat_eq_iff push_bit_eq_mult)
    have "poly1305_select st = st\<lparr>poly_h0 := (poly_h0 st + 5) AND 0x3ffffff, poly_h1 := G1 AND 0x3ffffff, poly_h2 := G2 AND 0x3ffffff,
        poly_h3 := G3 AND 0x3ffffff, poly_h4 := 0\<rparr>"
      unfolding sel mask using False by (simp add: G4')
    then have s: "poly_h0 (poly1305_select st) = (poly_h0 st + 5) AND 0x3ffffff" "poly_h1 (poly1305_select st) = G1 AND 0x3ffffff"
      "poly_h2 (poly1305_select st) = G2 AND 0x3ffffff" "poly_h3 (poly1305_select st) = G3 AND 0x3ffffff" "poly_h4 (poly1305_select st) = 0" by simp_all
    have out: "unat (poly_h0 (poly1305_select st)) = (a0 + 5) mod 2 ^ 26" "unat (poly_h1 (poly1305_select st)) = g1 mod 2 ^ 26"
      "unat (poly_h2 (poly1305_select st)) = g2 mod 2 ^ 26" "unat (poly_h3 (poly1305_select st)) = g3 mod 2 ^ 26" "unat (poly_h4 (poly1305_select st)) = 0"
      by (simp_all only: s unat_and_26 G0 G1 G2 G3 unsigned_0)
    show "(\<forall>x \<in> set (poly_limbs (poly1305_select st)). x < 2 ^ 26) \<and> poly_h (poly1305_select st) = poly_h st mod poly_p"
      unfolding poly_limbs_def poly_h_def out fs(6) [OF eq, unfolded a, unfolded a [symmetric], symmetric]
      by (simp add: a)
  qed
qed

text \<open>Four words of 32 bits from five limbs.\<close>

lemma unat_or_push:
  fixes a b :: u32
  assumes "unat b < 2 ^ k" "k \<le> 32"
  shows "unat (b OR push_bit k a) = unat b + 2 ^ k * (unat a mod 2 ^ (32 - k))"
proof -
  have p: "push_bit k a = push_bit k (take_bit (32 - k) a)" by (rule bit_eqI) (use assms in \<open>auto simp: bit_simps\<close>)
  have t: "unat (take_bit (32 - k) a) = unat a mod 2 ^ (32 - k)" unfolding unsigned_take_bit_eq by (rule take_bit_eq_mod)
  have "unat a mod 2 ^ (32 - k) + 1 \<le> 2 ^ (32 - k)" by (simp add: Suc_leI)
  then have "(unat a mod 2 ^ (32 - k) + 1) * 2 ^ k \<le> 2 ^ (32 - k) * 2 ^ k" by (rule mult_le_mono1)
  also have "(2 :: nat) ^ (32 - k) * 2 ^ k = 2 ^ 32" using assms(2) by (simp flip: power_add)
  finally have "unat (take_bit (32 - k) a) * 2 ^ k + unat b < 2 ^ LENGTH(32)" unfolding t using assms(1) by simp
  then have "unat (push_bit k (take_bit (32 - k) a) OR b) = unat (take_bit (32 - k) a) * 2 ^ k + unat b"
    using assms(1) by (rule unat_push_or)
  then show ?thesis unfolding p t by (simp add: or.commute mult.commute)
qed

lemma limbs_to_words:
  fixes a0 a1 a2 a3 a4 :: nat
  shows "limbs a0 a1 a2 a3 a4 = (a0 + 2 ^ 26 * (a1 mod 2 ^ 6)) + 2 ^ 32 * (a1 div 2 ^ 6 + 2 ^ 20 * (a2 mod 2 ^ 12)) +
    2 ^ 64 * (a2 div 2 ^ 12 + 2 ^ 14 * (a3 mod 2 ^ 18)) + 2 ^ 96 * (a3 div 2 ^ 18 + 2 ^ 8 * (a4 mod 2 ^ 24)) + 2 ^ 128 * (a4 div 2 ^ 24)"
proof -
  define d1 m1 d2 m2 d3 m3 d4 m4 where d: "d1 = a1 div 2 ^ 6" "m1 = a1 mod 2 ^ 6" "d2 = a2 div 2 ^ 12" "m2 = a2 mod 2 ^ 12"
    "d3 = a3 div 2 ^ 18" "m3 = a3 mod 2 ^ 18" "d4 = a4 div 2 ^ 24" "m4 = a4 mod 2 ^ 24"
  have e: "a1 = 2 ^ 6 * d1 + m1" "a2 = 2 ^ 12 * d2 + m2" "a3 = 2 ^ 18 * d3 + m3" "a4 = 2 ^ 24 * d4 + m4"
    unfolding d by simp_all
  show ?thesis unfolding limbs_def d [symmetric] unfolding e by simp
qed

lemma le_bytes_nat: "unat w = x \<Longrightarrow> le_bytes n (w :: 'a::len word) = nat_le_bytes n x"
proof -
  assume w: "unat w = x"
  have "ucast (drop_bit (8 * i) w) = (of_nat (x div 2 ^ (8 * i)) :: byte)" for i
    by (rule word_unat_eq_iff [THEN iffD2]) (simp add: unsigned_ucast_eq unat_drop w unsigned_of_nat)
  then show ?thesis by (simp add: le_bytes_def nat_le_bytes_def)
qed

lemma nat_le_bytes_mod: "nat_le_bytes 4 (x mod 2 ^ 32) = nat_le_bytes 4 x"
proof -
  have "(of_nat (x mod 2 ^ 32 div 2 ^ (8 * i)) :: byte) = of_nat (x div 2 ^ (8 * i))" if "i < 4" for i
  proof -
    have e: "(2 :: nat) ^ 32 = 2 ^ (8 * i) * 2 ^ (32 - 8 * i)" using that by (simp flip: power_add)
    have "x mod 2 ^ 32 div 2 ^ (8 * i) = x div 2 ^ (8 * i) mod 2 ^ (32 - 8 * i)" unfolding e mod_mult2_eq by simp
    moreover have "x div 2 ^ (8 * i) mod 2 ^ (32 - 8 * i) mod 2 ^ 8 = x div 2 ^ (8 * i) mod 2 ^ 8"
      using that by (intro mod_mod_cancel le_imp_power_dvd) simp
    ultimately show ?thesis by (simp add: word_unat_eq_iff unsigned_of_nat take_bit_eq_mod)
  qed
  then show ?thesis by (simp add: nat_le_bytes_def)
qed

lemma nat_le_bytes_split: "nat_le_bytes (4 + n) x = nat_le_bytes 4 x @ nat_le_bytes n (x div 2 ^ 32)"
proof -
  have "[0..<4 + n] = [0..<4] @ map (\<lambda>i. i + 4) [0..<n]"
    using upt_add_eq_append [of 0 4 n] map_add_upt [of 4 n] by (simp only: add.commute [of n])
  moreover have "x div 2 ^ (8 * (i + 4)) = x div 2 ^ 32 div 2 ^ (8 * i)" for i :: nat
  proof -
    have e: "8 * (i + 4) = 32 + 8 * i" by simp
    show ?thesis unfolding e power_add div_mult2_eq ..
  qed
  ultimately show ?thesis unfolding nat_le_bytes_def by (simp only: map_append map_map comp_def)
qed

text \<open>The sum with the key, word by word.\<close>

lemma words_sum:
  fixes w0 w1 w2 w3 k0 k1 k2 k3 c :: nat
  defines "f0 \<equiv> w0 + k0"
  defines "f1 \<equiv> w1 + k1 + f0 div 2 ^ 32"
  defines "f2 \<equiv> w2 + k2 + f1 div 2 ^ 32"
  defines "f3 \<equiv> w3 + k3 + f2 div 2 ^ 32"
  shows "nat_le_bytes 4 f0 @ nat_le_bytes 4 f1 @ nat_le_bytes 4 f2 @ nat_le_bytes 4 f3 =
    nat_le_bytes 16 (w0 + 2 ^ 32 * w1 + 2 ^ 64 * w2 + 2 ^ 96 * w3 + 2 ^ 128 * c + (k0 + 2 ^ 32 * k1 + 2 ^ 64 * k2 + 2 ^ 96 * k3))"
proof -
  have s: "nat_le_bytes (4 + n) (f + 2 ^ 32 * r) = nat_le_bytes 4 f @ nat_le_bytes n (r + f div 2 ^ 32)" for n f r
    unfolding nat_le_bytes_split using nat_le_bytes_mod [of "f + 2 ^ 32 * r"] nat_le_bytes_mod [of f] by (simp add: mod_mult_self2 add.commute)
  let ?r3 = "w3 + k3 + 2 ^ 32 * c"
  let ?r2 = "w2 + k2 + 2 ^ 32 * ?r3"
  let ?r1 = "w1 + k1 + 2 ^ 32 * ?r2"
  have "w0 + 2 ^ 32 * w1 + 2 ^ 64 * w2 + 2 ^ 96 * w3 + 2 ^ 128 * c + (k0 + 2 ^ 32 * k1 + 2 ^ 64 * k2 + 2 ^ 96 * k3) = f0 + 2 ^ 32 * ?r1"
    by (simp add: f0_def algebra_simps)
  moreover have "nat_le_bytes 16 (f0 + 2 ^ 32 * ?r1) = nat_le_bytes 4 f0 @ nat_le_bytes 12 (?r1 + f0 div 2 ^ 32)" using s [of 12 f0 ?r1] by simp
  moreover have "?r1 + f0 div 2 ^ 32 = f1 + 2 ^ 32 * ?r2" by (simp add: f1_def)
  moreover have "nat_le_bytes 12 (f1 + 2 ^ 32 * ?r2) = nat_le_bytes 4 f1 @ nat_le_bytes 8 (?r2 + f1 div 2 ^ 32)" using s [of 8 f1 ?r2] by simp
  moreover have "?r2 + f1 div 2 ^ 32 = f2 + 2 ^ 32 * ?r3" by (simp add: f2_def)
  moreover have "nat_le_bytes 8 (f2 + 2 ^ 32 * ?r3) = nat_le_bytes 4 f2 @ nat_le_bytes 4 (?r3 + f2 div 2 ^ 32)" using s [of 4 f2 ?r3] by simp
  moreover have "?r3 + f2 div 2 ^ 32 = f3 + 2 ^ 32 * c" by (simp add: f3_def)
  moreover have "nat_le_bytes 4 (f3 + 2 ^ 32 * c) = nat_le_bytes 4 f3" using s [of 0 f3 c] by (simp add: nat_le_bytes_def)
  ultimately show ?thesis by (simp only:)
qed

lemma poly1305_output_bytes:
  assumes small: "\<forall>x \<in> set (poly_limbs st). x < 2 ^ 26" and key: "length (poly_key st) = 16"
  shows "poly1305_output st = nat_le_bytes 16 (poly_h st + le_value (poly_key st))"
proof -
  define a0 a1 a2 a3 a4 where a: "a0 = unat (poly_h0 st)" "a1 = unat (poly_h1 st)" "a2 = unat (poly_h2 st)" "a3 = unat (poly_h3 st)" "a4 = unat (poly_h4 st)"
  have ab: "a0 < 2 ^ 26" "a1 < 2 ^ 26" "a2 < 2 ^ 26" "a3 < 2 ^ 26" using small by (simp_all add: poly_limbs_def a)
  define k0 k1 k2 k3 where k: "k0 = unat (U8TO32_LE (poly_key st) 0)" "k1 = unat (U8TO32_LE (poly_key st) 4)"
    "k2 = unat (U8TO32_LE (poly_key st) 8)" "k3 = unat (U8TO32_LE (poly_key st) 12)"
  define w0 w1 w2 w3 where w: "w0 = a0 + 2 ^ 26 * (a1 mod 2 ^ 6)" "w1 = a1 div 2 ^ 6 + 2 ^ 20 * (a2 mod 2 ^ 12)"
    "w2 = a2 div 2 ^ 12 + 2 ^ 14 * (a3 mod 2 ^ 18)" "w3 = a3 div 2 ^ 18 + 2 ^ 8 * (a4 mod 2 ^ 24)"
  define F0 where "F0 = (ucast (poly_h0 st OR push_bit 26 (poly_h1 st)) + ucast (U8TO32_LE (poly_key st) 0) :: u64)"
  define F1 where "F1 = (ucast (drop_bit 6 (poly_h1 st) OR push_bit 20 (poly_h2 st)) + ucast (U8TO32_LE (poly_key st) 4)) + drop_bit 32 F0"
  define F2 where "F2 = (ucast (drop_bit 12 (poly_h2 st) OR push_bit 14 (poly_h3 st)) + ucast (U8TO32_LE (poly_key st) 8)) + drop_bit 32 F1"
  define F3 where "F3 = (ucast (drop_bit 18 (poly_h3 st) OR push_bit 8 (poly_h4 st)) + ucast (U8TO32_LE (poly_key st) 12)) + drop_bit 32 F2"
  have q: "a1 div 2 ^ 6 < 2 ^ 20" "a2 div 2 ^ 12 < 2 ^ 14" "a3 div 2 ^ 18 < 2 ^ 8" using ab by (simp_all add: less_mult_imp_div_less)
  have W: "unat (poly_h0 st OR push_bit 26 (poly_h1 st)) = w0" "unat (drop_bit 6 (poly_h1 st) OR push_bit 20 (poly_h2 st)) = w1"
    "unat (drop_bit 12 (poly_h2 st) OR push_bit 14 (poly_h3 st)) = w2" "unat (drop_bit 18 (poly_h3 st) OR push_bit 8 (poly_h4 st)) = w3"
    using ab q by (simp_all add: unat_or_push unat_drop a [symmetric] w)
  have sum: "unat (ucast x + ucast y :: u64) = unat x + unat y \<and> unat x + unat y < 2 ^ 33" for x y :: u32
  proof -
    have "unat x < 2 ^ LENGTH(32)" "unat y < 2 ^ LENGTH(32)" by (rule unsigned_less)+
    then show ?thesis using unat_add_lem [of "ucast x :: u64" "ucast y"] by simp
  qed
  have carry: "unat (ucast x + ucast y + drop_bit 32 F :: u64) = unat x + unat y + unat F div 2 ^ 32" for x y :: u32 and F :: u64
  proof -
    have "unat F < 2 ^ LENGTH(64)" by (rule unsigned_less)
    then have "unat F div 2 ^ 32 < 2 ^ 32" by (simp add: less_mult_imp_div_less)
    then show ?thesis using sum [of x y] unat_add_lem [of "ucast x + ucast y :: u64" "drop_bit 32 F"] by (simp add: unat_drop)
  qed
  have F: "unat F0 = w0 + k0" "unat F1 = w1 + k1 + unat F0 div 2 ^ 32" "unat F2 = w2 + k2 + unat F1 div 2 ^ 32" "unat F3 = w3 + k3 + unat F2 div 2 ^ 32"
    unfolding F1_def F2_def F3_def carry using sum by (simp_all add: F0_def W k)
  have le: "U32TO8_LE (ucast f) = nat_le_bytes 4 (unat f)" for f :: u64
    unfolding U32TO8_LE_def using nat_le_bytes_mod [of "unat f"] by (simp add: le_bytes_nat unsigned_ucast_eq take_bit_eq_mod)
  have "poly1305_output st = nat_le_bytes 4 (unat F0) @ nat_le_bytes 4 (unat F1) @ nat_le_bytes 4 (unat F2) @ nat_le_bytes 4 (unat F3)"
    unfolding poly1305_output_def Let_def F0_def [symmetric] F1_def [symmetric] F2_def [symmetric] F3_def [symmetric] le ..
  also have "\<dots> = nat_le_bytes 16 (w0 + 2 ^ 32 * w1 + 2 ^ 64 * w2 + 2 ^ 96 * w3 + 2 ^ 128 * (a4 div 2 ^ 24) + (k0 + 2 ^ 32 * k1 + 2 ^ 64 * k2 + 2 ^ 96 * k3))"
    unfolding F by (rule words_sum)
  also have "w0 + 2 ^ 32 * w1 + 2 ^ 64 * w2 + 2 ^ 96 * w3 + 2 ^ 128 * (a4 div 2 ^ 24) = poly_h st"
    unfolding poly_h_def a [symmetric] w by (rule limbs_to_words [symmetric])
  also have "k0 + 2 ^ 32 * k1 + 2 ^ 64 * k2 + 2 ^ 96 * k3 = le_value (poly_key st)"
    unfolding k by (rule le_value_words [OF key, symmetric])
  finally show ?thesis .
qed

lemma poly_blocks_turn: "m \<noteq> [] \<Longrightarrow> length m \<le> 16 \<Longrightarrow> poly_blocks r a m = poly_block r a m"
  by (simp add: poly_blocks.simps [of r a m] poly_blocks.simps [of r _ "[]"])

end
