(* ===== verification/Poly1305_Spec.thy ===== *)
theory Poly1305_Spec
  imports Poly1305_Final
begin

text \<open>
  Poly1305 for messages in pieces of any lengths, from the key to the tag: the code computes the function of RFC 8439
  except in the residues in which the limbs overlap, and an input that leads into one of these.
\<close>

section \<open>Messages in pieces\<close>

text \<open>The state after the key and the bytes \<open>m\<close>.\<close>

definition poly_holds :: "byte list \<Rightarrow> byte list \<Rightarrow> poly1305_state \<Rightarrow> bool" where
  "poly_holds key m st \<longleftrightarrow> poly_keyed st \<and> poly_reduced st \<and> poly_r st = poly_clamp key \<and> poly_key st = take 16 (drop 16 key) \<and>
     length (poly_buf st) = 16 \<and> poly_buf_used st = length m mod 16 \<and>
     take (length m mod 16) (poly_buf st) = drop (length m - length m mod 16) m \<and>
     poly_h st mod poly_p = poly_blocks (poly_clamp key) 0 (take (length m - length m mod 16) m)"

lemma poly_finish:
  assumes holds: "poly_holds key m st" and key: "length key = 32" and packs: "poly_packs (poly_blocks (poly_clamp key) 0 m)"
  shows "CRYPTO_poly1305_finish st = poly1305_mac key m"
proof -
  let ?n = "length m mod 16" and ?r = "poly_clamp key"
  let ?st = "if poly_buf_used st \<noteq> 0 then poly1305_update st (take (poly_buf_used st) (poly_buf st)) else st"
  have b: "poly_keyed st" "poly_reduced st" "poly_r st = ?r" "poly_key st = take 16 (drop 16 key)" "poly_buf_used st = ?n"
    "take ?n (poly_buf st) = drop (length m - ?n) m" "poly_h st mod poly_p = poly_blocks ?r 0 (take (length m - ?n) m)"
    using holds unfolding poly_holds_def by simp_all
  have "length (take (length m - ?n) m) = 16 * (length m div 16)" by (simp add: minus_mod_eq_mult_div)
  then have split: "poly_blocks ?r 0 m = poly_blocks ?r (poly_h st mod poly_p) (drop (length m - ?n) m)"
    using poly_blocks_append [of "take (length m - ?n) m" "length m div 16" ?r 0 "drop (length m - ?n) m"] b(7) by simp
  have st: "poly_reduced ?st" "poly_same st ?st" "poly_h ?st mod poly_p = poly_blocks ?r 0 m"
  proof (atomize (full), cases "?n = 0")
    case True
    then show "poly_reduced ?st \<and> poly_same st ?st \<and> poly_h ?st mod poly_p = poly_blocks ?r 0 m"
      using b by (simp add: poly_same_def)
  next
    case False
    then show "poly_reduced ?st \<and> poly_same st ?st \<and> poly_h ?st mod poly_p = poly_blocks ?r 0 m"
      using poly1305_update_blocks [OF b(1,2), of "drop (length m - ?n) m"] b(3,5,6) split by simp
  qed
  note c = poly1305_carry_limbs [OF st(1), unfolded st(3), OF packs]
  note s = poly1305_select_limbs [OF c(2)]
  have "poly_key (poly1305_select (poly1305_carry ?st)) = take 16 (drop 16 key)"
    using poly_same_facts [OF poly_same_trans [OF st(2) poly_same_trans [OF c(1) s(1)]]] b(4) by simp
  then show ?thesis
    unfolding CRYPTO_poly1305_finish_def Let_def poly1305_mac_def
    using poly1305_output_bytes [OF s(2)] key s(3) c(3) by simp
qed

section \<open>The clamped key\<close>

lemma and_digits:
  fixes x y x' y' :: nat
  assumes "x < 2 ^ n" "x' < 2 ^ n"
  shows "(x + 2 ^ n * y) AND (x' + 2 ^ n * y') = (x AND x') + 2 ^ n * (y AND y')"
proof -
  let ?p = "x + 2 ^ n * y" and ?q = "x' + 2 ^ n * y'"
  have d: "drop_bit n ?p = y" "drop_bit n ?q = y'" "take_bit n ?p = x" "take_bit n ?q = x'"
    using assms by (simp_all add: drop_bit_eq_div take_bit_eq_mod)
  have "?p AND ?q = take_bit n (?p AND ?q) + 2 ^ n * drop_bit n (?p AND ?q)"
    unfolding drop_bit_eq_div take_bit_eq_mod by simp
  then show ?thesis unfolding take_bit_and drop_bit_and d .
qed

lemma limbs_horner: "limbs a0 a1 a2 a3 a4 = a0 + 2 ^ 26 * (a1 + 2 ^ 26 * (a2 + 2 ^ 26 * (a3 + 2 ^ 26 * a4)))"
  by (simp add: limbs_def)

lemma limbs_and:
  assumes "a0 < 2 ^ 26" "a1 < 2 ^ 26" "a2 < 2 ^ 26" "a3 < 2 ^ 26" "b0 < 2 ^ 26" "b1 < 2 ^ 26" "b2 < 2 ^ 26" "b3 < 2 ^ 26"
  shows "limbs a0 a1 a2 a3 a4 AND limbs b0 b1 b2 b3 b4 = limbs (a0 AND b0) (a1 AND b1) (a2 AND b2) (a3 AND b3) (a4 AND b4)"
  unfolding limbs_horner using assms by (simp only: and_digits)

lemma and_mod:
  fixes x c :: nat
  assumes "c < 2 ^ 26"
  shows "x AND c = (x mod 2 ^ 26) AND c"
proof -
  have c: "take_bit 26 c = c" using assms by (rule take_bit_nat_eq_self)
  then have "take_bit 26 (x AND c) = take_bit 26 x AND c" unfolding take_bit_and by simp
  moreover have "take_bit 26 (x AND c) = x AND c"
    by (rule bit_eqI) (use c in \<open>auto simp: bit_simps dest: arg_cong [where f = "\<lambda>v. bit v _"]\<close>)
  ultimately show ?thesis by (simp only: take_bit_eq_mod)
qed

lemma unat_and: "unat (a AND b) = (unat a AND unat b)" for a b :: "'a::len word"
  by (rule unsigned_and_eq)

text \<open>The word that the initialisation shifts together, and the digit it stands for.\<close>

lemma unat_shifted:
  fixes a b :: u32
  assumes "6 \<le> k" "k \<le> 32" and "unat c < 2 ^ 26"
  shows "unat ((drop_bit k b OR push_bit (32 - k) a) AND c) = ((unat a * 2 ^ 32 + unat b) div 2 ^ k mod 2 ^ 26) AND unat c"
proof -
  have b: "unat b < 2 ^ LENGTH(32)" by (rule unsigned_less)
  have e: "(2 :: nat) ^ 32 = 2 ^ k * 2 ^ (32 - k)" using assms by (simp flip: power_add)
  then have d: "unat b div 2 ^ k < 2 ^ (32 - k)" using b by (simp add: less_mult_imp_div_less mult.commute)
  have "unat (drop_bit k b OR push_bit (32 - k) a) = unat b div 2 ^ k + 2 ^ (32 - k) * (unat a mod 2 ^ k)"
    using unat_or_push [of "drop_bit k b" "32 - k" a] assms d by (simp add: unat_drop)
  moreover have "(unat b div 2 ^ k + 2 ^ (32 - k) * (unat a mod 2 ^ k)) mod 2 ^ 26 = (unat a * 2 ^ 32 + unat b) div 2 ^ k mod 2 ^ 26"
  proof -
    have f: "(2 :: nat) ^ 26 = 2 ^ (32 - k) * 2 ^ (k - 6)" using assms by (simp flip: power_add)
    have "(unat b div 2 ^ k + 2 ^ (32 - k) * (unat a mod 2 ^ k)) mod 2 ^ 26 =
      2 ^ (32 - k) * (unat a mod 2 ^ k mod 2 ^ (k - 6)) + unat b div 2 ^ k"
      unfolding f mod_mult2_eq using d by simp
    also have "unat a mod 2 ^ k mod 2 ^ (k - 6) = unat a mod 2 ^ (k - 6)" by (intro mod_mod_cancel le_imp_power_dvd) simp
    finally show ?thesis using straddle [of "unat b" k "unat a"] assms b by (simp add: mult.commute)
  qed
  ultimately show ?thesis unfolding unat_and by (subst and_mod [OF assms(3)]) (simp only:)
qed

lemma U8TO32_LE_take: "i + 4 \<le> 16 \<Longrightarrow> U8TO32_LE (take 16 key) i = U8TO32_LE key i"
  by (simp add: U8TO32_LE_def drop_take min_def)

lemma poly_init:
  assumes key: "length key = 32" and buf: "length (poly_buf st) = 16"
  shows "poly_holds key [] (CRYPTO_poly1305_init st key)"
proof -
  let ?st = "CRYPTO_poly1305_init st key"
  define t0 t1 t2 t3 where t: "t0 = U8TO32_LE key 0" "t1 = U8TO32_LE key 4" "t2 = U8TO32_LE key 8" "t3 = U8TO32_LE key 12"
  have sel: "poly_r0 ?st = t0 AND 0x3ffffff" "poly_r1 ?st = (drop_bit 26 t0 OR push_bit 6 t1) AND 0x3ffff03"
    "poly_r2 ?st = (drop_bit 20 t1 OR push_bit 12 t2) AND 0x3ffc0ff" "poly_r3 ?st = (drop_bit 14 t2 OR push_bit 18 t3) AND 0x3f03fff"
    "poly_r4 ?st = drop_bit 8 t3 AND 0x00fffff"
    by (simp_all add: CRYPTO_poly1305_init_def Let_def t)
  define d0 d1 d2 d3 d4 where d: "d0 = unat t0 mod 2 ^ 26" "d1 = (unat t1 * 2 ^ 32 + unat t0) div 2 ^ 26 mod 2 ^ 26"
    "d2 = (unat t2 * 2 ^ 32 + unat t1) div 2 ^ 20 mod 2 ^ 26" "d3 = (unat t3 * 2 ^ 32 + unat t2) div 2 ^ 14 mod 2 ^ 26"
    "d4 = unat t3 div 2 ^ 8"
  have r: "unat (poly_r0 ?st) = d0 AND 0x3ffffff" "unat (poly_r1 ?st) = d1 AND 0x3ffff03" "unat (poly_r2 ?st) = d2 AND 0x3ffc0ff"
    "unat (poly_r3 ?st) = d3 AND 0x3f03fff" "unat (poly_r4 ?st) = d4 AND 0x00fffff"
  proof -
    show "unat (poly_r0 ?st) = d0 AND 0x3ffffff" unfolding sel d unat_and using and_mod [of "0x3ffffff" "unat t0"] by simp
    show "unat (poly_r1 ?st) = d1 AND 0x3ffff03" unfolding sel d using unat_shifted [of 26 "0x3ffff03" t0 t1] by simp
    show "unat (poly_r2 ?st) = d2 AND 0x3ffc0ff" unfolding sel d using unat_shifted [of 20 "0x3ffc0ff" t1 t2] by simp
    show "unat (poly_r3 ?st) = d3 AND 0x3f03fff" unfolding sel d using unat_shifted [of 14 "0x3f03fff" t2 t3] by simp
    show "unat (poly_r4 ?st) = d4 AND 0x00fffff" unfolding sel d unat_and unat_drop by simp
  qed
  have db: "d0 < 2 ^ 26" "d1 < 2 ^ 26" "d2 < 2 ^ 26" "d3 < 2 ^ 26" by (simp_all add: d)
  have lt: "unat t0 < 2 ^ LENGTH(32)" "unat t1 < 2 ^ LENGTH(32)" "unat t2 < 2 ^ LENGTH(32)" by (rule unsigned_less)+
  have "le_value (take 16 key) = limbs d0 d1 d2 d3 d4"
  proof -
    have "length (take 16 key) = 16" using key by simp
    note le_value_words [OF this]
    also have "unat (U8TO32_LE (take 16 key) 0) + 2 ^ 32 * unat (U8TO32_LE (take 16 key) 4) + 2 ^ 64 * unat (U8TO32_LE (take 16 key) 8) +
        2 ^ 96 * unat (U8TO32_LE (take 16 key) 12) = unat t0 + 2 ^ 32 * unat t1 + 2 ^ 64 * unat t2 + 2 ^ 96 * unat t3"
      by (simp add: U8TO32_LE_take t)
    also have "\<dots> = limbs d0 d1 d2 d3 d4" unfolding d using lt by (intro limbs_of_words [symmetric]) simp_all
    finally show ?thesis .
  qed
  moreover have "0x0ffffffc0ffffffc0ffffffc0fffffff = limbs 0x3ffffff 0x3ffff03 0x3ffc0ff 0x3f03fff 0x00fffff" by (simp add: limbs_def)
  ultimately have "poly_clamp key = limbs d0 d1 d2 d3 d4 AND limbs 0x3ffffff 0x3ffff03 0x3ffc0ff 0x3f03fff 0x00fffff"
    unfolding poly_clamp_def by (simp only:)
  then have clamp: "poly_r ?st = poly_clamp key"
    unfolding poly_r_def r using limbs_and [of d0 d1 d2 d3 "0x3ffffff" "0x3ffff03" "0x3ffc0ff" "0x3f03fff" d4 "0x00fffff"] db by simp
  have le: "unat (w AND c) \<le> unat c" for w c :: u32 using word_and_le1 [of w c] by (simp add: word_le_nat_alt)
  have "poly_keyed ?st"
    unfolding poly_keyed_def sel
    using le [of t0 "0x3ffffff"] le [of _ "0x3ffff03"] le [of _ "0x3ffc0ff"] le [of _ "0x3f03fff"] le [of _ "0xfffff"]
    by (simp add: CRYPTO_poly1305_init_def Let_def t)
  then show ?thesis
    unfolding poly_holds_def using clamp key buf
    by (simp add: CRYPTO_poly1305_init_def Let_def poly_reduced_def poly_h_def limbs_def poly_blocks.simps [of _ _ "[]"])
qed

lemma length_poly_store [simp]: "i + length bs \<le> length buf \<Longrightarrow> length (poly_store buf i bs) = length buf"
  by (simp add: poly_store_def)

lemma poly_whole:
  assumes "poly_keyed st" "poly_reduced st" "poly_r st = poly_clamp key"
    and "poly_h st mod poly_p = poly_blocks (poly_clamp key) 0 a" "length a = 16 * i"
  shows "poly_h (poly1305_update st b) mod poly_p = poly_blocks (poly_clamp key) 0 (a @ b)"
    "poly_reduced (poly1305_update st b)" "poly_same st (poly1305_update st b)"
  using poly1305_update_blocks [OF assms(1,2), of b] poly_blocks_append [OF assms(5)] assms(3,4) by simp_all

text \<open>The state with whole blocks absorbed, and the rest in the buffer.\<close>

definition poly_parts :: "byte list \<Rightarrow> byte list \<Rightarrow> byte list \<Rightarrow> poly1305_state \<Rightarrow> bool" where
  "poly_parts key a b st \<longleftrightarrow> poly_keyed st \<and> poly_reduced st \<and> poly_r st = poly_clamp key \<and> poly_key st = take 16 (drop 16 key) \<and>
     length (poly_buf st) = 16 \<and> length a mod 16 = 0 \<and> poly_h st mod poly_p = poly_blocks (poly_clamp key) 0 a \<and>
     poly_buf_used st = length b \<and> take (length b) (poly_buf st) = b \<and> length b < 16"

lemma poly_holds_parts: "poly_holds key m st \<longleftrightarrow> (\<exists>a b. m = a @ b \<and> poly_parts key a b st)"
proof
  let ?n = "length m mod 16"
  assume "poly_holds key m st"
  then have "poly_parts key (take (length m - ?n) m) (drop (length m - ?n) m) st"
    by (simp add: poly_holds_def poly_parts_def minus_mod_eq_mult_div minus_mult_div_eq_mod)
  then show "\<exists>a b. m = a @ b \<and> poly_parts key a b st" by (intro exI [of _ "take (length m - ?n) m"] exI [of _ "drop (length m - ?n) m"]) simp
next
  assume "\<exists>a b. m = a @ b \<and> poly_parts key a b st"
  then obtain a b where m: "m = a @ b" and p: "poly_parts key a b st" by blast
  then have "length m mod 16 = length b" using mod_add_left_eq [of "length a" 16 "length b"] by (simp add: poly_parts_def)
  then show "poly_holds key m st" using p by (simp add: poly_holds_def poly_parts_def m)
qed

lemma poly_parts_blocks:
  assumes p: "poly_parts key a b st" and c: "length c mod 16 = 0"
  shows "poly_parts key (a @ c) [] ((poly1305_update st c)\<lparr>poly_buf_used := 0\<rparr>)"
proof -
  have same: "poly_same (poly1305_update st c) ((poly1305_update st c)\<lparr>poly_buf_used := 0\<rparr>) = (poly_buf_used (poly1305_update st c) = 0)"
    by (simp add: poly_same_def)
  obtain i where i: "length a = 16 * i" using p by (auto simp: poly_parts_def)
  have w: "poly_h (poly1305_update st c) mod poly_p = poly_blocks (poly_clamp key) 0 (a @ c)" "poly_reduced (poly1305_update st c)"
    "poly_same st (poly1305_update st c)"
    using poly_whole [of st key a i c] p i by (simp_all add: poly_parts_def)
  have "length (a @ c) mod 16 = 0" using p c by (auto simp: poly_parts_def)
  then show ?thesis using w poly_same_facts [OF w(3)] p
    by (simp add: poly_parts_def poly_keyed_def poly_reduced_def poly_h_def poly_r_def)
qed

lemma poly_parts_buffer:
  assumes p: "poly_parts key a b st" and d: "length b + length d < 16"
  shows "poly_parts key a (b @ d) (st\<lparr>poly_buf := poly_store (poly_buf st) (length b) d, poly_buf_used := length b + length d\<rparr>)"
  using assms by (simp add: poly_parts_def poly_keyed_def poly_reduced_def poly_h_def poly_r_def poly_store_def)

lemma poly1305_mul_used: "poly1305_mul (st\<lparr>poly_buf_used := u\<rparr>) = (poly1305_mul st)\<lparr>poly_buf_used := u\<rparr>"
  unfolding poly1305_mul_def Let_def by simp

lemma poly1305_add_used: "poly1305_add hb (st\<lparr>poly_buf_used := u\<rparr>) m = (poly1305_add hb st m)\<lparr>poly_buf_used := u\<rparr>"
  unfolding poly1305_add_def Let_def by simp

lemma poly1305_update_used: "poly1305_update (st\<lparr>poly_buf_used := u\<rparr>) m = (poly1305_update st m)\<lparr>poly_buf_used := u\<rparr>"
proof (induction m arbitrary: st rule: length_induct)
  case (1 m)
  note turn = poly1305_update_turns [of "st\<lparr>poly_buf_used := u\<rparr>" m] poly1305_update_turns [of st m]
  have t: "poly_turn (st\<lparr>poly_buf_used := u\<rparr>) x = (poly_turn st x)\<lparr>poly_buf_used := u\<rparr>" for x
    by (simp add: poly_turn_def poly1305_mul_used poly1305_add_used)
  show ?case
  proof (cases "16 \<le> length m")
    case True
    then have "length (drop 16 m) < length m" by simp
    then show ?thesis using 1 True turn by (simp add: t)
  next
    case False
    then show ?thesis using turn by (simp add: t)
  qed
qed

text \<open>The three parts of an update.\<close>

lemma poly_update_fill:
  fixes ins :: "byte list"
  assumes p: "poly_parts key a b st" and b: "b \<noteq> []"
  defines "todo \<equiv> min (16 - length b) (length ins)"
  defines "st1 \<equiv> st\<lparr>poly_buf := poly_store (poly_buf st) (length b) (take todo ins), poly_buf_used := length b + todo\<rparr>"
  shows "length b + todo = 16 \<Longrightarrow> poly_parts key (a @ b @ take todo ins) [] ((poly1305_update st1 (take 16 (poly_buf st1)))\<lparr>poly_buf_used := 0\<rparr>)"
    "length b + todo \<noteq> 16 \<Longrightarrow> poly_parts key a (b @ ins) st1 \<and> todo = length ins"
proof -
  have l: "length b < 16" "length (poly_buf st) = 16" "take (length b) (poly_buf st) = b" using p by (simp_all add: poly_parts_def)
  { assume full: "length b + todo = 16"
    have "poly_parts key a [] (st1\<lparr>poly_buf_used := 0\<rparr>)"
      using p full by (simp add: st1_def todo_def poly_parts_def poly_keyed_def poly_reduced_def poly_h_def poly_r_def)
    moreover have buf: "take 16 (poly_buf st1) = b @ take todo ins"
      using full l by (simp add: st1_def poly_store_def todo_def)
    moreover have "length (b @ take todo ins) = 16" using full by (simp add: todo_def)
    ultimately have "poly_parts key (a @ b @ take todo ins) [] ((poly1305_update (st1\<lparr>poly_buf_used := 0\<rparr>) (take 16 (poly_buf st1)))\<lparr>poly_buf_used := 0\<rparr>)"
      using poly_parts_blocks by fastforce
    then show "poly_parts key (a @ b @ take todo ins) [] ((poly1305_update st1 (take 16 (poly_buf st1)))\<lparr>poly_buf_used := 0\<rparr>)"
      by (simp add: poly1305_update_used) }
  { assume "length b + todo \<noteq> 16"
    then have t: "todo = length ins" "length b + length ins < 16" using l(1) by (auto simp: todo_def min_def split: if_splits)
    then show "poly_parts key a (b @ ins) st1 \<and> todo = length ins"
      using poly_parts_buffer [OF p, of ins] by (simp add: st1_def) }
qed

lemma poly1305_fill_parts:
  assumes p: "poly_parts key a b st" and s1: "poly1305_fill st d = (st1, d1)"
  shows "\<exists>a1 b1. a @ b @ d = a1 @ b1 @ d1 \<and> poly_parts key a1 b1 st1 \<and> (b1 = [] \<or> d1 = [])"
proof -
  have used: "poly_buf_used st = length b" using p by (simp add: poly_parts_def)
  let ?todo = "min (16 - length b) (length d)"
  have todo: "(if length d < 16 - length b then length d else 16 - length b) = ?todo" by auto
  show ?thesis
  proof (cases "b = []")
    case True
    then have "st1 = st" "d1 = d" using s1 used unfolding poly1305_fill_def by simp_all
    then show ?thesis using True p by auto
  next
    case False
    note f = poly_update_fill [OF p False, of d]
    show ?thesis
    proof (cases "length b + ?todo = 16")
      case full: True
      then have "d1 = drop ?todo d" "poly_parts key (a @ b @ take ?todo d) [] st1"
        using s1 f(1) [OF full] False used unfolding poly1305_fill_def Let_def todo by (simp_all add: todo split: if_splits)
      then show ?thesis by (intro exI [of _ "a @ b @ take ?todo d"] exI [of _ "[]"]) simp
    next
      case part: False
      then have "d1 = []" "poly_parts key a (b @ d) st1"
        using s1 f(2) [OF part] False used unfolding poly1305_fill_def Let_def todo by (simp_all add: todo split: if_splits)
      then show ?thesis by (intro exI [of _ a] exI [of _ "b @ d"]) simp
    qed
  qed
qed

lemma poly1305_whole_parts:
  assumes p: "poly_parts key a b st" and empty: "b = [] \<or> d = []" and s2: "poly1305_whole st d = (st2, d2)"
  shows "\<exists>a2 b2. a @ b @ d = a2 @ b2 @ d2 \<and> poly_parts key a2 b2 st2 \<and> (b2 = [] \<and> length d2 < 16 \<or> d2 = [])"
proof (cases "16 \<le> length d")
  case True
  let ?todo = "length d - length d mod 16"
  have b: "b = []" using True empty by auto
  have e: "st2 = poly1305_update st (take ?todo d)" "d2 = drop ?todo d" using s2 True by (simp_all add: poly1305_whole_def Let_def)
  have c: "length (take ?todo d) mod 16 = 0" by (simp add: minus_mod_eq_mult_div)
  have "poly_same st st2" using p poly_whole(3) [of st key a "length a div 16" "take ?todo d"] unfolding e by (auto simp: poly_parts_def)
  then have "poly_buf_used st2 = 0" using poly_same_facts [of st st2] p b by (simp add: poly_parts_def)
  then have "st2\<lparr>poly_buf_used := 0\<rparr> = st2" by (cases st2) simp
  then have "poly_parts key (a @ take ?todo d) [] st2" using poly_parts_blocks [OF p c] unfolding e by simp
  then show ?thesis unfolding e b by (intro exI [of _ "a @ take ?todo d"] exI [of _ "[]"]) simp
next
  case False
  then have "st2 = st" "d2 = d" using s2 by (simp_all add: poly1305_whole_def)
  then show ?thesis using p empty False by auto
qed

lemma poly_update:
  assumes "poly_holds key m st"
  shows "poly_holds key (m @ d) (CRYPTO_poly1305_update st d)"
proof -
  obtain a b where m: "m = a @ b" and p: "poly_parts key a b st" using assms unfolding poly_holds_parts by blast
  obtain st1 d1 where s1: "poly1305_fill st d = (st1, d1)" by fastforce
  obtain a1 b1 where e1: "a @ b @ d = a1 @ b1 @ d1" and p1: "poly_parts key a1 b1 st1" and "b1 = [] \<or> d1 = []"
    using poly1305_fill_parts [OF p s1] by blast
  moreover obtain st2 d2 where s2: "poly1305_whole st1 d1 = (st2, d2)" by fastforce
  ultimately obtain a2 b2 where e2: "a1 @ b1 @ d1 = a2 @ b2 @ d2" and p2: "poly_parts key a2 b2 st2" and b2: "b2 = [] \<and> length d2 < 16 \<or> d2 = []"
    using poly1305_whole_parts [OF p1 _ s2] by blast
  have upd: "CRYPTO_poly1305_update st d = (if length d2 \<noteq> 0 then st2\<lparr>poly_buf := poly_store (poly_buf st2) 0 d2, poly_buf_used := length d2\<rparr> else st2)"
    by (simp add: CRYPTO_poly1305_update_def s1 s2)
  have "poly_parts key a2 (b2 @ d2) (CRYPTO_poly1305_update st d)"
  proof (cases "d2 = []")
    case True
    then show ?thesis unfolding upd using p2 by simp
  next
    case False
    then have b2: "b2 = []" "length d2 < 16" using b2 by auto
    then show ?thesis unfolding upd using p2 poly_parts_buffer [OF p2, of d2] False by simp
  qed
  then show ?thesis unfolding poly_holds_parts m using e1 e2 by (metis append.assoc)
qed

lemma poly_fold: "poly_holds key m st \<Longrightarrow> poly_holds key (m @ concat ds) (fold (\<lambda>d st. CRYPTO_poly1305_update st d) ds st)"
proof (induction ds arbitrary: m st)
  case (Cons d ds)
  then show ?case using Cons.IH [OF poly_update [OF Cons.prems, of d]] by simp
qed simp

lemma poly1305_pieces:
  assumes "length key = 32" and "length (poly_buf st) = 16" and "poly_packs (poly_blocks (poly_clamp key) 0 (concat ds))"
  shows "CRYPTO_poly1305_finish (fold (\<lambda>d st. CRYPTO_poly1305_update st d) ds (CRYPTO_poly1305_init st key)) = poly1305_mac key (concat ds)"
  using poly_finish [OF poly_fold [OF poly_init [OF assms(1,2)], of ds]] assms by simp

definition overlap_key :: "byte list" where
  "overlap_key = [245, 177, 101, 34, 74, 88, 183, 145, 223, 106, 241, 216, 48, 62, 97, 205] @ replicate 16 0"

definition overlap_msg :: "byte list" where
  "overlap_msg = [246, 69, 116, 115, 157, 61, 211, 247, 165, 159, 46, 45, 40, 233, 97, 26]"

lemma overlap_blocks: "poly_blocks (poly_clamp overlap_key) 0 overlap_msg = 2 ^ 27"
proof -
  have "poly_clamp overlap_key = 17784878055596747546323870307741708789" by (simp add: poly_clamp_def overlap_key_def)
  then show ?thesis by (simp add: overlap_msg_def poly_blocks.simps poly_block_def poly_p_def)
qed

text \<open>C35: Poly1305 in pieces of any lengths, with an initial state of any contents, is the function of RFC 8439, for every key and
  message whose accumulator does not end in one of the few residues in which the limbs overlap.\<close>

theorem poly1305_is_rfc8439:
  assumes "length key = 32" and "length (poly_buf st) = 16" and "poly_packs (poly_blocks (poly_clamp key) 0 (concat ds))"
  shows "CRYPTO_poly1305_finish (fold (\<lambda>d st. CRYPTO_poly1305_update st d) ds (CRYPTO_poly1305_init st key)) =
    poly1305_mac key (concat ds)"
  using assms by (rule poly1305_pieces)

lemma poly1305_is_rfc8439_witness:
  "length (replicate 32 (1 :: byte)) = 32 \<and> length (poly_buf poly_state0) = 16 \<and>
   CRYPTO_poly1305_finish (fold (\<lambda>d st. CRYPTO_poly1305_update st d) [[7, 8], [9]] (CRYPTO_poly1305_init poly_state0 (replicate 32 1))) =
     poly1305_mac (replicate 32 1) [7, 8, 9]"
proof -
  have r: "replicate 32 (1 :: byte) = [1, 1, 1, 1, 1, 1, 1, 1, 1, 1, 1, 1, 1, 1, 1, 1, 1, 1, 1, 1, 1, 1, 1, 1, 1, 1, 1, 1, 1, 1, 1, 1]"
    by (simp add: numeral_eq_Suc)
  have "poly_packs (poly_blocks (poly_clamp (replicate 32 1)) 0 [7, 8, 9])"
    by (simp add: r poly_packs_def poly_clamp_def poly_blocks.simps poly_block_def poly_p_def)
  then show ?thesis
    using poly1305_is_rfc8439 [of "replicate 32 1" poly_state0 "[[7, 8], [9]]"] by (simp add: poly_state0_def)
qed

lemma replicate_zeros12: "replicate 12 (0 :: byte) = [0, 0, 0, 0, 0, 0, 0, 0, 0, 0, 0, 0]"
  by (simp add: numeral_eq_Suc)

text \<open>The hypothesis is needed: for this key and this block the carry into the first limb is not carried on, the first two
  limbs overlap, and the tag differs from the one of RFC 8439.\<close>

theorem poly1305_limbs_overlap:
  "CRYPTO_poly1305_finish (CRYPTO_poly1305_update (CRYPTO_poly1305_init poly_state0 overlap_key) overlap_msg) = [0, 0, 0, 4] @ replicate 12 0 \<and>
   poly1305_mac overlap_key overlap_msg = [0, 0, 0, 8] @ replicate 12 0"
proof
  show "CRYPTO_poly1305_finish (CRYPTO_poly1305_update (CRYPTO_poly1305_init poly_state0 overlap_key) overlap_msg) = [0, 0, 0, 4] @ replicate 12 0"
    by code_simp
  have "le_value (take 16 (drop 16 overlap_key)) = 0" by (simp add: overlap_key_def)
  then have "poly1305_mac overlap_key overlap_msg = nat_le_bytes 16 (2 ^ 27)" by (simp add: poly1305_mac_def overlap_blocks)
  then show "poly1305_mac overlap_key overlap_msg = [0, 0, 0, 8] @ replicate 12 0" by (simp add: nat_le_bytes_def upt_rec replicate_zeros12)
qed

end
