(* ===== verification/Aead_Spec.thy ===== *)
theory Aead_Spec
  imports Chacha_Poly Chacha_Spec Poly1305_Spec
begin

text \<open>
  What the interface promises for an algorithm: opening accepts exactly what sealing produces, and nothing that has
  not been authenticated is left in the output. The contract of a table is the locale \<open>aead\<close>; the table of
  ChaCha20-Poly1305 satisfies it, with encryption and tag of RFC 8439.
\<close>

section \<open>The contract of a table\<close>

locale aead =
  fixes meth :: "'m \<Rightarrow> ('m, 's) evp_aead" and m :: 'm
    and keyed :: "'k \<Rightarrow> ('m, 's) evp_aead_ctx \<Rightarrow> bool" and fits :: "byte list \<Rightarrow> nat \<Rightarrow> bool"
    and enc dec :: "'k \<Rightarrow> byte list \<Rightarrow> byte list \<Rightarrow> byte list" and tag :: "'k \<Rightarrow> byte list \<Rightarrow> byte list \<Rightarrow> byte list \<Rightarrow> byte list"
  assumes keyed: "keyed k ctx \<Longrightarrow> ctx_aead ctx = Some m \<and> 0 < ctx_tag_len ctx \<and> ctx_tag_len ctx \<le> a_overhead (meth m)"
    and fits: "fits nonce n \<Longrightarrow> n + a_overhead (meth m) < 2 ^ 64"
    and no_open: "a_open (meth m) = None"
    and seal_scatter: "keyed k ctx \<Longrightarrow> length out = length ins \<Longrightarrow>
      a_seal_scatter (meth m) ctx out out_tag nonce ins [] ad =
        (if fits nonce (length ins) \<and> ctx_tag_len ctx \<le> length out_tag
         then Ok (ctx_tag_len ctx) (enc k nonce ins, take (ctx_tag_len ctx) (tag k nonce ad (enc k nonce ins)) @ drop (ctx_tag_len ctx) out_tag)
         else Fail (out, out_tag))"
    and gather: "a_open_gather (meth m) \<noteq> None"
    and gather_ok: "keyed k ctx \<Longrightarrow> length ins \<le> length out \<Longrightarrow> length t = ctx_tag_len ctx \<Longrightarrow>
      fits nonce (length ins) \<Longrightarrow> t = take (ctx_tag_len ctx) (tag k nonce ad ins) \<Longrightarrow>
      the (a_open_gather (meth m)) ctx out nonce ins t ad = Ok () (dec k nonce ins @ drop (length ins) out)"
    and gather_fail: "keyed k ctx \<Longrightarrow> length ins \<le> length out \<Longrightarrow> length t = ctx_tag_len ctx \<Longrightarrow>
      \<not> (fits nonce (length ins) \<and> t = take (ctx_tag_len ctx) (tag k nonce ad ins)) \<Longrightarrow>
      \<exists>out'. the (a_open_gather (meth m)) ctx out nonce ins t ad = Fail out' \<and> length out' = length out"
    and lengths: "length (enc k nonce x) = length x" "length (dec k nonce x) = length x" "length (tag k nonce ad x) = a_overhead (meth m)"
    and inverse: "keyed k ctx \<Longrightarrow> fits nonce (length x) \<Longrightarrow> dec k nonce (enc k nonce x) = x"
      "keyed k ctx \<Longrightarrow> fits nonce (length x) \<Longrightarrow> enc k nonce (dec k nonce x) = x"
begin

definition sealed :: "'k \<Rightarrow> nat \<Rightarrow> byte list \<Rightarrow> byte list \<Rightarrow> byte list \<Rightarrow> byte list" where
  "sealed k taglen nonce ad x = enc k nonce x @ take taglen (tag k nonce ad (enc k nonce x))"

lemma length_sealed: "keyed k ctx \<Longrightarrow> length (sealed k (ctx_tag_len ctx) nonce ad x) = length x + ctx_tag_len ctx"
  using keyed [of k ctx] by (simp add: sealed_def lengths)

lemma seal_eq:
  assumes k: "keyed k ctx" and n: "length ins < 2 ^ 64"
  shows "EVP_AEAD_CTX_seal meth ctx inp outp out nonce ins ad =
    (if fits nonce (length ins) \<and> length ins + ctx_tag_len ctx \<le> length out \<and> check_alias inp (length ins) outp (length out)
     then Ok (length ins + ctx_tag_len ctx) (sealed k (ctx_tag_len ctx) nonce ad ins @ drop (length ins + ctx_tag_len ctx) out)
     else Fail (replicate (length out) 0))"
proof (cases "fits nonce (length ins)")
  case True
  have "unat (of_nat (length ins) :: u64) + unat (of_nat (a_overhead (meth m)) :: u64) < 2 ^ LENGTH(64)"
    using fits [OF True] by (simp add: unsigned_of_nat take_bit_nat_eq_self)
  from no_olen_add_nat [THEN iffD2, OF this]
  have "\<not> (of_nat (length ins) + of_nat (a_overhead (meth m)) :: u64) < of_nat (length ins)" by (simp add: not_less)
  then show ?thesis
    using True k keyed [OF k] seal_scatter [OF k, of "take (length ins) out" ins "drop (length ins) out" nonce ad] lengths(1)
    by (auto simp: EVP_AEAD_CTX_seal_def Let_def sealed_def add.commute)
next
  case False
  then show ?thesis
    using k keyed [OF k] seal_scatter [OF k, of "take (length ins) out" ins "drop (length ins) out" nonce ad]
    by (auto simp: EVP_AEAD_CTX_seal_def Let_def)
qed

lemma open_eq:
  fixes ins :: "byte list"
  assumes k: "keyed k ctx"
  defines "n \<equiv> length ins - ctx_tag_len ctx"
  shows "EVP_AEAD_CTX_open meth ctx inp outp out nonce ins ad =
    (if check_alias inp (length ins) outp (length out) \<and> check_alias inp n outp n \<and> ctx_tag_len ctx \<le> length ins \<and> n \<le> length out \<and> fits nonce n \<and>
       drop n ins = take (ctx_tag_len ctx) (tag k nonce ad (take n ins))
     then Ok n (dec k nonce (take n ins) @ drop n out) else Fail (replicate (length out) 0))"
proof (cases "check_alias inp (length ins) outp (length out) \<and> check_alias inp n outp n \<and> ctx_tag_len ctx \<le> length ins \<and> n \<le> length out")
  case True
  then have l: "length (take n ins) = n" "length (take n ins) \<le> length out" "length (drop n ins) = ctx_tag_len ctx"
    using keyed [OF k] by (simp_all add: n_def)
  obtain f where f: "a_open_gather (meth m) = Some f" using gather by blast
  show ?thesis
  proof (cases "fits nonce n \<and> drop n ins = take (ctx_tag_len ctx) (tag k nonce ad (take n ins))")
    case ok: True
    then show ?thesis
      using True gather_ok [OF k l(2,3), of nonce ad] l(1) f keyed [OF k] no_open
      by (simp add: EVP_AEAD_CTX_open_def EVP_AEAD_CTX_open_gather_def Let_def flip: n_def)
  next
    case bad: False
    then obtain out' where "f ctx out nonce (take n ins) (drop n ins) ad = Fail out'"
      using gather_fail [OF k l(2,3), of nonce ad] l(1) f by auto
    then show ?thesis
      using True bad l(1) f keyed [OF k] no_open
      by (auto simp: EVP_AEAD_CTX_open_def EVP_AEAD_CTX_open_gather_def Let_def simp flip: n_def)
  qed
next
  case False
  have "min (length ins) n = n" by (simp add: n_def)
  with False show ?thesis
    using keyed [OF k] no_open
    by (auto simp: EVP_AEAD_CTX_open_def EVP_AEAD_CTX_open_gather_def Let_def simp flip: n_def)
qed

text \<open>What opens is what was sealed, and the other way round.\<close>

lemma open_sealed:
  assumes k: "keyed k ctx" and x: "fits nonce (length x)" "length x \<le> length out"
    and apart: "check_alias inp (length x + ctx_tag_len ctx) outp (length out)" "check_alias inp (length x) outp (length x)"
  shows "EVP_AEAD_CTX_open meth ctx inp outp out nonce (sealed k (ctx_tag_len ctx) nonce ad x) ad = Ok (length x) (x @ drop (length x) out)"
proof -
  have l: "length (sealed k (ctx_tag_len ctx) nonce ad x) = length x + ctx_tag_len ctx" by (rule length_sealed [OF k])
  have p: "take (length x) (sealed k (ctx_tag_len ctx) nonce ad x) = enc k nonce x"
    "drop (length x) (sealed k (ctx_tag_len ctx) nonce ad x) = take (ctx_tag_len ctx) (tag k nonce ad (enc k nonce x))"
    by (simp_all add: sealed_def lengths)
  show ?thesis
    using x apart by (simp add: open_eq [OF k] l p inverse(1) [OF k x(1)])
qed

lemma opens_sealed:
  assumes k: "keyed k ctx" and ok: "EVP_AEAD_CTX_open meth ctx inp outp out nonce ins ad = Ok n out'"
  shows "length out' = length out \<and> n \<le> length out \<and> fits nonce n \<and> ins = sealed k (ctx_tag_len ctx) nonce ad (take n out')"
proof -
  let ?n = "length ins - ctx_tag_len ctx"
  have c: "ctx_tag_len ctx \<le> length ins" "?n \<le> length out" "fits nonce ?n"
      "drop ?n ins = take (ctx_tag_len ctx) (tag k nonce ad (take ?n ins))"
      "n = ?n" "out' = dec k nonce (take ?n ins) @ drop ?n out"
    using ok unfolding open_eq [OF k] by (auto split: if_splits)
  have l: "length (take ?n ins) = ?n" by simp
  then have "enc k nonce (take n out') = take ?n ins"
    using inverse(2) [OF k, of nonce "take ?n ins"] c by (simp add: lengths)
  then have "sealed k (ctx_tag_len ctx) nonce ad (take n out') = take ?n ins @ drop ?n ins"
    unfolding sealed_def by (simp only: c(4))
  then have "ins = sealed k (ctx_tag_len ctx) nonce ad (take n out')" by (simp only: append_take_drop_id)
  moreover have "length out' = length out" using c by (simp add: lengths)
  moreover have "n \<le> length out" "fits nonce n" using c(2,3) unfolding c(5) .
  ultimately show ?thesis by (intro conjI)
qed

lemma open_fails_clean:
  "keyed k ctx \<Longrightarrow> (\<exists>n out'. EVP_AEAD_CTX_open meth ctx inp outp out nonce ins ad = Ok n out') \<or>
    EVP_AEAD_CTX_open meth ctx inp outp out nonce ins ad = Fail (replicate (length out) 0)"
  by (simp add: open_eq)

end

section \<open>ChaCha20-Poly1305\<close>

definition chacha_keyed :: "byte list \<Rightarrow> (evp_aead_name, byte list) evp_aead_ctx \<Rightarrow> bool" where
  "chacha_keyed key ctx \<longleftrightarrow> ctx_aead ctx = Some EVP_aead_chacha20_poly1305 \<and> aead_state ctx = Some key \<and> length key = 32 \<and>
     0 < ctx_tag_len ctx \<and> ctx_tag_len ctx \<le> 16"

definition chacha_fits :: "byte list \<Rightarrow> nat \<Rightarrow> bool" where
  "chacha_fits nonce n \<longleftrightarrow> length nonce = 12 \<and> n < 2 ^ 38 - 64"

definition chacha_enc :: "byte list \<Rightarrow> byte list \<Rightarrow> byte list \<Rightarrow> byte list" where
  "chacha_enc key nonce x = CRYPTO_chacha_20 x key nonce 1"

definition chacha_tag :: "byte list \<Rightarrow> byte list \<Rightarrow> byte list \<Rightarrow> byte list \<Rightarrow> byte list" where
  "chacha_tag key nonce ad x = calc_tag key nonce ad x []"

lemma length_chacha_loop: "length (chacha_loop input m) = length m"
proof (induction m arbitrary: input rule: length_induct)
  case (1 m)
  show ?case
  proof (cases "m = []")
    case False
    then have "length (drop 64 m) < length m" by simp
    then have "length (chacha_loop (input[12 := input ! 12 + 1]) (drop 64 m)) = length m - 64" using 1 by simp
    moreover have "chacha_loop (input[12 := input ! 12 + 1]) (drop (length m) m) = []" by (simp add: chacha_loop.simps)
    ultimately show ?thesis using False by (subst chacha_loop.simps) (simp add: Let_def del: drop_all)
  qed (simp add: chacha_loop.simps)
qed

lemma length_CRYPTO_chacha_20 [simp]: "length (CRYPTO_chacha_20 m key nonce counter) = length m"
  by (simp add: CRYPTO_chacha_20_def length_chacha_loop)

lemma length_poly1305_finish [simp]: "length (CRYPTO_poly1305_finish st) = 16"
  by (simp add: CRYPTO_poly1305_finish_def poly1305_output_def Let_def U32TO8_LE_def)

lemma length_calc_tag [simp]: "length (calc_tag key nonce ad c e) = 16"
  unfolding calc_tag_def Let_def by simp

lemma chacha_seal_scatter:
  assumes k: "chacha_keyed key ctx" and l: "length out = length ins"
  shows "aead_chacha20_poly1305_seal_scatter ctx out out_tag nonce ins [] ad =
    (if chacha_fits nonce (length ins) \<and> ctx_tag_len ctx \<le> length out_tag
     then Ok (ctx_tag_len ctx) (chacha_enc key nonce ins,
       take (ctx_tag_len ctx) (chacha_tag key nonce ad (chacha_enc key nonce ins)) @ drop (ctx_tag_len ctx) out_tag)
     else Fail (out, out_tag))"
  using k l by (auto simp: aead_chacha20_poly1305_seal_scatter_def Let_def chacha_keyed_def chacha_fits_def chacha_enc_def chacha_tag_def)

lemma chacha_gather:
  assumes k: "chacha_keyed key ctx" and l: "length ins \<le> length out" "length t = ctx_tag_len ctx"
  shows "aead_chacha20_poly1305_open_gather ctx out nonce ins t ad =
    (if \<not> chacha_fits nonce (length ins) then Fail out
     else if t = take (ctx_tag_len ctx) (chacha_tag key nonce ad ins) then Ok () (chacha_enc key nonce ins @ drop (length ins) out)
     else Fail (chacha_enc key nonce ins @ drop (length ins) out))"
proof -
  have "CRYPTO_memcmp (calc_tag key nonce ad ins []) t (ctx_tag_len ctx) = 0 \<longleftrightarrow> t = take (ctx_tag_len ctx) (chacha_tag key nonce ad ins)"
    using k l by (simp add: CRYPTO_memcmp_take chacha_keyed_def chacha_tag_def)
  then show ?thesis
    using k l by (auto simp: aead_chacha20_poly1305_open_gather_def Let_def chacha_keyed_def chacha_fits_def chacha_enc_def)
qed

lemma chacha_enc_enc: "chacha_keyed key ctx \<Longrightarrow> chacha_fits nonce (length x) \<Longrightarrow> chacha_enc key nonce (chacha_enc key nonce x) = x"
  by (simp add: chacha_enc_def chacha_keyed_def chacha_fits_def CRYPTO_chacha_20_crypt)

interpretation c20p1305: aead evp_aead_table EVP_aead_chacha20_poly1305 chacha_keyed chacha_fits chacha_enc chacha_enc chacha_tag
  by unfold_locales
    (simp_all add: chacha_seal_scatter chacha_gather chacha_enc_enc,
     simp_all add: chacha_keyed_def chacha_fits_def chacha_enc_def chacha_tag_def POLY1305_TAG_LEN_def)

section \<open>The tag of RFC 8439\<close>

definition pad16 :: "byte list \<Rightarrow> byte list" where "pad16 x = replicate ((16 - length x mod 16) mod 16) 0"

definition rfc_key :: "byte list \<Rightarrow> byte list \<Rightarrow> byte list" where "rfc_key key nonce = chacha_crypt key nonce 0 (replicate 32 0)"

definition rfc_input :: "byte list \<Rightarrow> byte list \<Rightarrow> byte list" where
  "rfc_input ad c = ad @ pad16 ad @ c @ pad16 c @ nat_le_bytes 8 (length ad) @ nat_le_bytes 8 (length c)"

definition rfc_tag :: "byte list \<Rightarrow> byte list \<Rightarrow> byte list \<Rightarrow> byte list \<Rightarrow> byte list" where
  "rfc_tag key nonce ad c = poly1305_mac (rfc_key key nonce) (rfc_input ad c)"

text \<open>The accumulator of the tag does not end in a residue in which the limbs overlap.\<close>

definition rfc_packs :: "byte list \<Rightarrow> byte list \<Rightarrow> byte list \<Rightarrow> byte list \<Rightarrow> bool" where
  "rfc_packs key nonce ad c \<longleftrightarrow> poly_packs (poly_blocks (poly_clamp (rfc_key key nonce)) 0 (rfc_input ad c))"

lemma update_pad:
  assumes "poly_holds k m st" "length x = n"
  shows "poly_holds k (m @ pad16 x) (if n mod 16 \<noteq> 0 then CRYPTO_poly1305_update st (replicate (16 - n mod 16) 0) else st)"
proof (cases "n mod 16 = 0")
  case True
  then show ?thesis using assms by (simp add: pad16_def)
next
  case False
  then have "pad16 x = replicate (16 - n mod 16) 0" using assms(2) by (simp add: pad16_def)
  then show ?thesis using poly_update [OF assms(1)] False by simp
qed

lemma update_length:
  assumes "poly_holds k m st" "n < 2 ^ 64"
  shows "poly_holds k (m @ nat_le_bytes 8 n) (poly1305_update_length st n)"
proof -
  have "map (\<lambda>i. ucast (drop_bit (8 * i) (of_nat n :: u64))) [0..<8] = nat_le_bytes 8 n"
    using le_bytes_nat [of "of_nat n :: u64" n 8] assms(2) by (simp add: le_bytes_def unsigned_of_nat take_bit_nat_eq_self)
  then show ?thesis using poly_update [OF assms(1)] by (simp add: poly1305_update_length_def)
qed

lemma calc_tag_rfc:
  assumes "length key = 32" "length nonce = 12" "length ad < 2 ^ 64" "length c < 2 ^ 64" and packs: "rfc_packs key nonce ad c"
  shows "calc_tag key nonce ad c [] = rfc_tag key nonce ad c"
proof -
  have key: "CRYPTO_chacha_20 (replicate 32 0) key nonce 0 = rfc_key key nonce"
    using assms by (simp add: rfc_key_def CRYPTO_chacha_20_crypt)
  have l: "length (rfc_key key nonce) = 32" by (simp add: rfc_key_def)
  have "poly_holds (rfc_key key nonce) [] (CRYPTO_poly1305_init poly_state0 (rfc_key key nonce))"
    using l by (intro poly_init) (simp_all add: poly_state0_def)
  note st = poly_update [OF this, of ad]
  note st = update_pad [OF st, of ad, OF refl]
  note st = poly_update [OF poly_update [OF st, of c], of "[]"]
  note st = update_pad [OF st, of c "length c", OF refl]
  note st = update_length [OF update_length [OF st, OF assms(3)], OF assms(4)]
  note fin = poly_finish [OF st l, unfolded append_assoc append_Nil, folded rfc_input_def, OF packs [unfolded rfc_packs_def]]
  show ?thesis unfolding calc_tag_def Let_def key rfc_tag_def list.size add_0_right using fin .
qed

section \<open>Properties\<close>

lemma init_keyed:
  assumes "EVP_AEAD_CTX_init evp_aead_table malloc_ok ctx0 EVP_aead_chacha20_poly1305 key taglen = Ok u ctx"
  shows "chacha_keyed key ctx \<and> ctx_tag_len ctx = (if taglen = 0 then 16 else taglen)"
  using assms by (auto simp: EVP_AEAD_CTX_init_def EVP_AEAD_CTX_init_with_direction_def aead_chacha20_poly1305_init_def Let_def
    chacha_keyed_def POLY1305_TAG_LEN_def split: if_splits res.splits)

lemma fits_less: "chacha_fits nonce n \<Longrightarrow> n < 2 ^ 64"
  by (simp add: chacha_fits_def)

text \<open>C36: Sealing with a context for ChaCha20-Poly1305 writes the ciphertext of RFC 8439 and its (shortened) tag (the one that the
  code computes instead where the limbs overlap) if the buffer has room for them, leaves the bytes behind them as they
  are, and otherwise clears the whole buffer.\<close>

theorem chacha20_poly1305_seals:
  assumes "EVP_AEAD_CTX_init evp_aead_table malloc_ok ctx0 EVP_aead_chacha20_poly1305 key taglen = Ok () ctx"
    and "length ad < 2 ^ 64" and "length x < 2 ^ 64"
  shows "EVP_AEAD_CTX_seal evp_aead_table ctx inp outp out nonce x ad =
    (let n = length x + (if taglen = 0 then 16 else taglen); c = chacha_crypt key nonce 1 x;
       tag = (if rfc_packs key nonce ad c then rfc_tag key nonce ad c else calc_tag key nonce ad c []) in
     if length nonce = 12 \<and> length x < 2 ^ 38 - 64 \<and> n \<le> length out \<and> check_alias inp (length x) outp (length out)
     then Ok n (c @ take (n - length x) tag @ drop n out)
     else Fail (replicate (length out) 0))"
proof -
  note k = init_keyed [OF assms(1)]
  have key: "length key = 32" using k by (simp add: chacha_keyed_def)
  show ?thesis
  proof (cases "length nonce = 12")
    case True
    then have "chacha_enc key nonce x = chacha_crypt key nonce 1 x" using key by (simp add: chacha_enc_def CRYPTO_chacha_20_crypt)
    moreover have "chacha_tag key nonce ad (chacha_crypt key nonce 1 x) =
        (if rfc_packs key nonce ad (chacha_crypt key nonce 1 x) then rfc_tag key nonce ad (chacha_crypt key nonce 1 x)
         else calc_tag key nonce ad (chacha_crypt key nonce 1 x) [])"
      using calc_tag_rfc [OF key True assms(2)] assms(3) by (simp add: chacha_tag_def)
    ultimately show ?thesis
      using c20p1305.seal_eq [OF conjunct1 [OF k] assms(3), of inp outp out nonce ad] k True
      by (simp add: c20p1305.sealed_def chacha_fits_def Let_def)
  next
    case False
    then show ?thesis
      using c20p1305.seal_eq [OF conjunct1 [OF k] assms(3), of inp outp out nonce ad] by (simp add: chacha_fits_def Let_def)
  qed
qed

definition example_ctx :: "(evp_aead_name, byte list) evp_aead_ctx" where
  "example_ctx = \<lparr>ctx_aead = Some EVP_aead_chacha20_poly1305, aead_state = Some (replicate 32 7), ctx_tag_len = 16\<rparr>"

lemma example_init: "EVP_AEAD_CTX_init evp_aead_table True EVP_AEAD_CTX_zero EVP_aead_chacha20_poly1305 (replicate 32 7) 0 = Ok () example_ctx"
  by (simp add: EVP_AEAD_CTX_init_def EVP_AEAD_CTX_init_with_direction_def aead_chacha20_poly1305_init_def example_ctx_def
    POLY1305_TAG_LEN_def EVP_AEAD_CTX_zero_def Let_def)

lemma chacha20_poly1305_seals_witness:
  "EVP_AEAD_CTX_seal evp_aead_table example_ctx 0 1000 (replicate 20 9) (replicate 11 0) [1, 2] [3] = Fail (replicate 20 0) \<and>
   EVP_AEAD_CTX_seal evp_aead_table example_ctx 0 1000 (replicate 20 9) (replicate 12 0) [1, 2] [3] =
     (let c = chacha_crypt (replicate 32 7) (replicate 12 0) 1 [1, 2] in
      Ok 18 (c @ take 16 (if rfc_packs (replicate 32 7) (replicate 12 0) [3] c then rfc_tag (replicate 32 7) (replicate 12 0) [3] c
        else calc_tag (replicate 32 7) (replicate 12 0) [3] c []) @ replicate 2 9))"
proof -
  have "check_alias 0 (Suc (Suc 0)) 1000 20" by (simp add: check_alias_def buffers_alias_def)
  then show ?thesis
    using chacha20_poly1305_seals [OF example_init, of "[3]" "[1, 2]" 0 1000 "replicate 20 9" "replicate 11 0"]
      chacha20_poly1305_seals [OF example_init, of "[3]" "[1, 2]" 0 1000 "replicate 20 9" "replicate 12 0"]
    by (simp add: Let_def)
qed

text \<open>C37: What one context has sealed, any context with the same key opens, in place or into another buffer, for the same nonce and
  additional data.\<close>

theorem aead_opens_sealed:
  assumes "EVP_AEAD_CTX_init evp_aead_table malloc_ok ctx0 EVP_aead_chacha20_poly1305 key taglen = Ok () ctx"
    and "EVP_AEAD_CTX_init evp_aead_table malloc_ok' ctx0' EVP_aead_chacha20_poly1305 key taglen = Ok () ctx'"
    and "length x < 2 ^ 64" and "EVP_AEAD_CTX_seal evp_aead_table ctx inp outp out nonce x ad = Ok n c"
    and "length x \<le> length out'" and "check_alias inp' n outp' (length out')" and "check_alias inp' (length x) outp' (length x)"
  shows "EVP_AEAD_CTX_open evp_aead_table ctx' inp' outp' out' nonce (take n c) ad = Ok (length x) (x @ drop (length x) out')"
proof -
  note k = init_keyed [OF assms(1)] and k' = init_keyed [OF assms(2)]
  let ?s = "c20p1305.sealed key (ctx_tag_len ctx) nonce ad x"
  have s: "chacha_fits nonce (length x)" "n = length x + ctx_tag_len ctx" "c = ?s @ drop n out"
    using assms(4) unfolding c20p1305.seal_eq [OF conjunct1 [OF k] assms(3)] by (auto split: if_splits)
  have "take n c = ?s" unfolding s(3) by (simp add: c20p1305.length_sealed [OF conjunct1 [OF k]] s(2))
  then show ?thesis
    using c20p1305.open_sealed [OF conjunct1 [OF k'] s(1) assms(5), of inp' outp' ad] assms(6,7) s(2) k k' by simp
qed

lemma aead_opens_sealed_witness:
  "\<exists>c. EVP_AEAD_CTX_seal evp_aead_table example_ctx 0 1000 (replicate 20 9) (replicate 12 0) [1, 2] [3] = Ok 18 c \<and>
     EVP_AEAD_CTX_open evp_aead_table example_ctx 1000 1000 (replicate 18 8) (replicate 12 0) (take 18 c) [3] = Ok 2 ([1, 2] @ replicate 16 8)"
proof -
  have "chacha_keyed (replicate 32 7) example_ctx" using init_keyed [OF example_init] by simp
  from c20p1305.seal_eq [OF this, of "[1, 2]" 0 1000 "replicate 20 9" "replicate 12 0" "[3]"]
  obtain c where c: "EVP_AEAD_CTX_seal evp_aead_table example_ctx 0 1000 (replicate 20 9) (replicate 12 0) [1, 2] [3] = Ok 18 c"
    by (simp add: chacha_fits_def example_ctx_def check_alias_def buffers_alias_def)
  show ?thesis
    using aead_opens_sealed [OF example_init example_init _ c, of "replicate 18 8" 1000 1000] c
    by (simp add: check_alias_def)
qed

text \<open>C38: Opening any bytes either returns a plaintext that seals to exactly these bytes, or clears the whole output buffer: no
  plaintext is released that has not been authenticated.\<close>

theorem aead_opens_only_sealed:
  assumes "EVP_AEAD_CTX_init evp_aead_table malloc_ok ctx0 EVP_aead_chacha20_poly1305 key taglen = Ok () ctx"
    and "EVP_AEAD_CTX_open evp_aead_table ctx inp outp out nonce ins ad = r"
  shows "r = Fail (replicate (length out) 0) \<or>
    (\<exists>n out'. r = Ok n out' \<and> length out' = length out \<and> n \<le> length out \<and>
      (\<forall>inp' outp' buf. length ins \<le> length buf \<and> check_alias inp' n outp' (length buf) \<longrightarrow>
        EVP_AEAD_CTX_seal evp_aead_table ctx inp' outp' buf nonce (take n out') ad = Ok (length ins) (ins @ drop (length ins) buf)))"
proof -
  note k = conjunct1 [OF init_keyed [OF assms(1)]]
  show ?thesis
  proof (cases "r = Fail (replicate (length out) 0)")
    case False
    then obtain n out' where ok: "r = Ok n out'" using c20p1305.open_fails_clean [OF k, of inp outp out nonce ins ad] assms(2) by metis
    note o = c20p1305.opens_sealed [OF k assms(2) [unfolded ok]]
    have n: "length (take n out') = n" "chacha_fits nonce n" using o by simp_all
    have len: "length ins = n + ctx_tag_len ctx" using o c20p1305.length_sealed [OF k, of nonce ad "take n out'"] n(1) by simp
    have "EVP_AEAD_CTX_seal evp_aead_table ctx inp' outp' buf nonce (take n out') ad = Ok (length ins) (ins @ drop (length ins) buf)"
      if "length ins \<le> length buf" "check_alias inp' n outp' (length buf)" for inp' outp' buf
      using c20p1305.seal_eq [OF k, of "take n out'" inp' outp' buf nonce ad] fits_less [OF n(2)] n that len o by simp
    then show ?thesis using ok o by blast
  qed simp
qed

lemma aead_opens_only_sealed_witness:
  "EVP_AEAD_CTX_open evp_aead_table example_ctx 0 1000 (replicate 4 1) (replicate 12 0) [1, 2, 3] [] = Fail (replicate 4 0)"
  using aead_opens_only_sealed [OF example_init, of 0 1000 "replicate 4 1" "replicate 12 0" "[1, 2, 3]" "[]", OF refl]
  by (simp add: EVP_AEAD_CTX_open_def EVP_AEAD_CTX_open_gather_def Let_def example_ctx_def check_alias_def buffers_alias_def)

end
