(* ===== verification/Kdf.thy ===== *)
theory Kdf
  imports Hmac
begin

text \<open>
  Functions that derive keys with HMAC: \<open>HKDF\<close> of \<open>crypto/hkdf/hkdf.c\<close>, \<open>PKCS5_PBKDF2_HMAC\<close> of \<open>crypto/evp/pbkdf.c\<close> and the
  pseudorandom function of TLS in \<open>crypto/fipsmodule/tls/kdf.c\<close>. The output is a list of the length that the caller asks
  for, which is returned as it was filled also when a function fails. \<open>mems\<close> are the results of \<open>OPENSSL_malloc\<close>: 0 before a
  loop, and in the loop a number of its own for every round (in HKDF that of the round, otherwise how much of the output or
  how many iterations are left), then the number of the call as in \<open>Hmac\<close>. The contexts of the result are those that
  are cleaned up.
\<close>

definition put_bytes :: "nat \<Rightarrow> byte list \<Rightarrow> byte list \<Rightarrow> byte list" where
  "put_bytes pos d out = take pos out @ d @ drop (pos + length d) out"

text \<open>The output together with one HMAC context.\<close>

definition on_hmac :: "('p hmac_ctx \<Rightarrow> ('a, 'p hmac_ctx) res) \<Rightarrow> byte list \<times> 'p hmac_ctx \<Rightarrow> ('a, byte list \<times> 'p hmac_ctx) res" where
  "on_hmac f = at_ctx f snd (\<lambda>h s. (fst s, h))"

text \<open>The end of a function: the context is cleaned up, also after an error.\<close>

definition finally_cleanup :: "(unit, byte list \<times> 'p hmac_ctx) res \<Rightarrow> (unit, byte list \<times> 'p hmac_ctx) res" where
  "finally_cleanup r =
     (case r of Ok _ s \<Rightarrow> on_hmac HMAC_CTX_cleanup s
      | Fail s \<Rightarrow> rbind (on_hmac HMAC_CTX_cleanup s) (\<lambda>_ s. Fail s) | UB \<Rightarrow> UB | NoFuel \<Rightarrow> NoFuel)"

section \<open>HKDF\<close>

definition HKDF_extract ::
  "(nat \<Rightarrow> byte list option) \<Rightarrow> evp_md \<Rightarrow> byte list \<Rightarrow> byte list option \<Rightarrow> (byte list, 'p hmac_ctx) res" where
  "HKDF_extract mems digest secret salt =
     rbind (HMAC mems (Some digest) salt secret) (\<lambda>out ctx.
       case out of None \<Rightarrow> Fail ctx | Some key \<Rightarrow> if length key \<noteq> EVP_MD_size digest then UB else Ok key ctx)"

fun hkdf_rounds ::
  "(nat \<Rightarrow> nat \<Rightarrow> byte list option) \<Rightarrow> nat \<Rightarrow> byte list \<Rightarrow> nat list \<Rightarrow> byte list \<Rightarrow> nat \<Rightarrow> byte list \<times> 'p hmac_ctx \<Rightarrow>
     (unit, byte list \<times> 'p hmac_ctx) res" where
  "hkdf_rounds mems digest_len info [] previous ndone s = Ok () s"
| "hkdf_rounds mems digest_len info (i # is) previous ndone s =
     rbind (if i \<noteq> 0
       then rbind (on_hmac (HMAC_Init_ex (mems (Suc i)) None None) s) (\<lambda>_. on_hmac (HMAC_Update (take digest_len previous)))
       else Ok () s) (\<lambda>_ s.
     rbind (on_hmac (HMAC_Update info) s) (\<lambda>_ s.
     rbind (on_hmac (HMAC_Update [of_nat (i + 1)]) s) (\<lambda>_ s.
     rbind (on_hmac (HMAC_Final (mems (Suc i) 4)) s) (\<lambda>previous s.
       let todo = (if length (fst s) < ndone + digest_len then length (fst s) - ndone else digest_len) in
       hkdf_rounds mems digest_len info is previous (ndone + todo) (put_bytes ndone (take todo previous) (fst s), snd s)))))"

definition HKDF_expand ::
  "(nat \<Rightarrow> nat \<Rightarrow> byte list option) \<Rightarrow> byte list \<Rightarrow> evp_md \<Rightarrow> byte list \<Rightarrow> byte list \<Rightarrow> (unit, byte list \<times> 'p hmac_ctx) res" where
  "HKDF_expand mems out_key digest prk info =
     (let digest_len = of_nat (EVP_MD_size digest) :: u64; out_len = of_nat (length out_key);
        n = (out_len + digest_len - 1) div digest_len in
      if out_len + digest_len < out_len \<or> 255 < n then Fail (out_key, HMAC_CTX_init)
      else finally_cleanup (rbind (on_hmac (HMAC_Init_ex (mems 0) (Some prk) (Some digest)) (out_key, HMAC_CTX_init))
        (\<lambda>_. hkdf_rounds mems (EVP_MD_size digest) info [0..<unat n] [] 0)))"

text \<open>\<open>mems'\<close> is for the extraction.\<close>

definition HKDF ::
  "(nat \<Rightarrow> byte list option) \<Rightarrow> (nat \<Rightarrow> nat \<Rightarrow> byte list option) \<Rightarrow> byte list \<Rightarrow> evp_md \<Rightarrow> byte list \<Rightarrow> byte list option \<Rightarrow> byte list \<Rightarrow>
     (unit, byte list \<times> 'p hmac_ctx) res" where
  "HKDF mems' mems out_key digest secret salt info =
     (case HKDF_extract mems' digest secret salt of
        Ok prk (_ :: 'p hmac_ctx) \<Rightarrow> HKDF_expand mems out_key digest prk info
      | Fail ctx \<Rightarrow> Fail (out_key, ctx) | UB \<Rightarrow> UB | NoFuel \<Rightarrow> NoFuel)"

section \<open>PBKDF2\<close>

text \<open>The rest of the iterations of one block: \<open>j\<close> of them are left. The block is at \<open>pos\<close> in the output.\<close>

fun pbkdf2_iterations ::
  "(nat \<Rightarrow> nat \<Rightarrow> byte list option) \<Rightarrow> nat \<Rightarrow> nat \<Rightarrow> nat \<Rightarrow> nat \<Rightarrow> byte list \<Rightarrow> byte list \<times> 'p hmac_ctx \<Rightarrow>
     (unit, byte list \<times> 'p hmac_ctx) res" where
  "pbkdf2_iterations mems mdlen pos todo 0 digest_tmp s = Ok () s"
| "pbkdf2_iterations mems mdlen pos todo (Suc j) digest_tmp s =
     rbind (on_hmac (HMAC_Init_ex (mems (Suc j)) None None) s) (\<lambda>_ s.
     rbind (on_hmac (HMAC_Update (take mdlen digest_tmp)) s) (\<lambda>_ s.
     rbind (on_hmac (HMAC_Final (mems (Suc j) 4)) s) (\<lambda>digest_tmp s.
       pbkdf2_iterations mems mdlen pos todo j digest_tmp
         (put_bytes pos (map2 (XOR) (take todo (drop pos (fst s))) (take todo digest_tmp)) (fst s), snd s))))"

function pbkdf2_blocks ::
  "(nat \<Rightarrow> nat \<Rightarrow> nat \<Rightarrow> byte list option) \<Rightarrow> evp_md \<Rightarrow> byte list \<Rightarrow> u32 \<Rightarrow> u32 \<Rightarrow> nat \<Rightarrow> nat \<Rightarrow> byte list \<times> 'p hmac_ctx \<Rightarrow>
     (unit, byte list \<times> 'p hmac_ctx) res" where
  "pbkdf2_blocks mems digest salt iterations i pos key_len s =
     (if key_len = 0 then Ok () s
      else let mdlen = EVP_MD_size digest; todo = (if key_len < mdlen then key_len else mdlen);
          i_buf = [ucast (drop_bit 24 i AND 0xFF), ucast (drop_bit 16 i AND 0xFF), ucast (drop_bit 8 i AND 0xFF), ucast (i AND 0xFF)] in
        rbind (on_hmac (HMAC_Init_ex (mems key_len 0) None None) s) (\<lambda>_ s.
        rbind (on_hmac (HMAC_Update salt) s) (\<lambda>_ s.
        rbind (on_hmac (HMAC_Update i_buf) s) (\<lambda>_ s.
        rbind (on_hmac (HMAC_Final (mems key_len 0 4)) s) (\<lambda>digest_tmp s.
        rbind (pbkdf2_iterations (mems key_len) mdlen pos todo (unat iterations - 1) digest_tmp
          (put_bytes pos (take todo digest_tmp) (fst s), snd s))
        (\<lambda>_. pbkdf2_blocks mems digest salt iterations (i + 1) (pos + todo) (key_len - todo)))))))"
  by auto
termination
proof (relation "measure (\<lambda>(mems, digest, salt, iterations, i, pos, key_len, s). key_len)", goal_cases)
  case (2 mems digest)
  have "0 < EVP_MD_size digest" by (cases digest) (simp_all add: EVP_MD_size_def)
  with 2 show ?case by simp
qed simp

text \<open>After the loop 0 iterations are an error, although the output is that of one.\<close>

definition PKCS5_PBKDF2_HMAC ::
  "(nat \<Rightarrow> nat \<Rightarrow> nat \<Rightarrow> byte list option) \<Rightarrow> byte list \<Rightarrow> byte list \<Rightarrow> u32 \<Rightarrow> evp_md \<Rightarrow> byte list \<Rightarrow> (unit, byte list \<times> 'p hmac_ctx) res" where
  "PKCS5_PBKDF2_HMAC mems password salt iterations digest out_key =
     finally_cleanup
       (rbind (on_hmac (HMAC_Init_ex (mems 0 0) (Some password) (Some digest)) (out_key, HMAC_CTX_init)) (\<lambda>_ s.
        rbind (pbkdf2_blocks mems digest salt iterations 1 0 (length out_key) s) (\<lambda>_ s.
        if iterations = 0 then Fail s else Ok () s)))"

definition PKCS5_PBKDF2_HMAC_SHA1 ::
  "(nat \<Rightarrow> nat \<Rightarrow> nat \<Rightarrow> byte list option) \<Rightarrow> byte list \<Rightarrow> byte list \<Rightarrow> u32 \<Rightarrow> byte list \<Rightarrow> (unit, byte list \<times> 'p hmac_ctx) res" where
  "PKCS5_PBKDF2_HMAC_SHA1 mems password salt iterations out_key =
     PKCS5_PBKDF2_HMAC mems password salt iterations EVP_sha1 out_key"

section \<open>The pseudorandom function of TLS\<close>

record 'p prf_state =
  prf_out :: "byte list"
  prf_ctx :: "'p hmac_ctx"
  prf_tmp :: "'p hmac_ctx"
  prf_init :: "'p hmac_ctx"

definition on_ctx1 :: "('p hmac_ctx \<Rightarrow> ('a, 'p hmac_ctx) res) \<Rightarrow> 'p prf_state \<Rightarrow> ('a, 'p prf_state) res" where
  "on_ctx1 f = at_ctx f prf_ctx (\<lambda>h. prf_ctx_update (\<lambda>_. h))"

definition on_tmp :: "('p hmac_ctx \<Rightarrow> ('a, 'p hmac_ctx) res) \<Rightarrow> 'p prf_state \<Rightarrow> ('a, 'p prf_state) res" where
  "on_tmp f = at_ctx f prf_tmp (\<lambda>h. prf_tmp_update (\<lambda>_. h))"

definition on_init :: "('p hmac_ctx \<Rightarrow> ('a, 'p hmac_ctx) res) \<Rightarrow> 'p prf_state \<Rightarrow> ('a, 'p prf_state) res" where
  "on_init f = at_ctx f prf_init (\<lambda>h. prf_init_update (\<lambda>_. h))"

text \<open>Label and seeds, one after the other.\<close>

definition prf_seed :: "byte list \<Rightarrow> byte list \<Rightarrow> byte list \<Rightarrow> 'p prf_state \<Rightarrow> (unit, 'p prf_state) res" where
  "prf_seed label seed1 seed2 s =
     rbind (on_ctx1 (HMAC_Update label) s) (\<lambda>_ s.
     rbind (on_ctx1 (HMAC_Update seed1) s) (\<lambda>_ s. on_ctx1 (HMAC_Update seed2) s))"

text \<open>The loop; \<open>pos\<close> is how far \<open>out\<close> has been advanced.\<close>

function p_hash_loop ::
  "(nat \<Rightarrow> nat \<Rightarrow> byte list option) \<Rightarrow> evp_md \<Rightarrow> byte list \<Rightarrow> byte list \<Rightarrow> byte list \<Rightarrow> byte list \<Rightarrow> nat \<Rightarrow> nat \<Rightarrow> 'p prf_state \<Rightarrow>
     (unit, 'p prf_state) res" where
  "p_hash_loop mems md label seed1 seed2 A1 pos out_len s =
     (let chunk = EVP_MD_size md; mem = mems (Suc out_len) in
      rbind (on_ctx1 (\<lambda>c. HMAC_CTX_copy_ex mem c (prf_init s)) s) (\<lambda>_ s.
      rbind (on_ctx1 (HMAC_Update A1) s) (\<lambda>_ s.
      rbind (if chunk < out_len then on_tmp (\<lambda>c. HMAC_CTX_copy_ex (\<lambda>i. mem (3 + i)) c (prf_ctx s)) s else Ok () s) (\<lambda>_ s.
      rbind (prf_seed label seed1 seed2 s) (\<lambda>_ s.
      rbind (on_ctx1 (HMAC_Final (mem 6)) s) (\<lambda>hmac s.
        if length hmac \<noteq> chunk then UB
        else let len = (if out_len < chunk then out_len else chunk);
            s = s\<lparr>prf_out := put_bytes pos (map2 (XOR) (take len (drop pos (prf_out s))) (take len hmac)) (prf_out s)\<rparr> in
          if out_len - len = 0 then Ok () s
          else rbind (on_tmp (HMAC_Final (mem 7)) s) (\<lambda>A1.
            p_hash_loop mems md label seed1 seed2 A1 (pos + len) (out_len - len))))))))"
  by auto
termination
proof (relation "measure (\<lambda>(mems, md, label, seed1, seed2, A1, pos, out_len, s). out_len)", goal_cases)
  case (2 mems md)
  have "0 < EVP_MD_size md" by (cases md) (simp_all add: EVP_MD_size_def)
  with 2 show ?case by simp
qed simp

definition tls1_P_hash ::
  "(nat \<Rightarrow> nat \<Rightarrow> byte list option) \<Rightarrow> byte list \<Rightarrow> evp_md \<Rightarrow> byte list \<Rightarrow> byte list \<Rightarrow> byte list \<Rightarrow> byte list \<Rightarrow> (unit, 'p prf_state) res" where
  "tls1_P_hash mems out md secret label seed1 seed2 =
     (let s = \<lparr>prf_out = out, prf_ctx = HMAC_CTX_init, prf_tmp = HMAC_CTX_init, prf_init = HMAC_CTX_init\<rparr>;
        cleanup = (\<lambda>s. rbind (on_ctx1 HMAC_CTX_cleanup s) (\<lambda>_ s. rbind (on_tmp HMAC_CTX_cleanup s) (\<lambda>_. on_init HMAC_CTX_cleanup)));
        r = rbind (on_init (HMAC_Init_ex (mems 0) (Some secret) (Some md)) s) (\<lambda>_ s.
            rbind (on_ctx1 (\<lambda>c. HMAC_CTX_copy_ex (\<lambda>i. mems 0 (4 + i)) c (prf_init s)) s) (\<lambda>_ s.
            rbind (prf_seed label seed1 seed2 s) (\<lambda>_ s.
            rbind (on_ctx1 (HMAC_Final (mems 0 7)) s) (\<lambda>A1.
              p_hash_loop mems md label seed1 seed2 A1 0 (length out)))))
      in case r of Ok _ s \<Rightarrow> cleanup s | Fail s \<Rightarrow> rbind (cleanup s) (\<lambda>_ s. Fail s) | UB \<Rightarrow> UB | NoFuel \<Rightarrow> NoFuel)"

text \<open>Only the output is the result. \<open>mems'\<close> is for the half with MD5.\<close>

definition p_hash_out :: "(unit, 'p prf_state) res \<Rightarrow> (unit, byte list) res" where
  "p_hash_out r = (case r of Ok _ s \<Rightarrow> Ok () (prf_out s) | Fail s \<Rightarrow> Fail (prf_out s) | UB \<Rightarrow> UB | NoFuel \<Rightarrow> NoFuel)"

definition CRYPTO_tls1_prf ::
  "(nat \<Rightarrow> nat \<Rightarrow> byte list option) \<Rightarrow> (nat \<Rightarrow> nat \<Rightarrow> byte list option) \<Rightarrow> 'p itself \<Rightarrow> evp_md \<Rightarrow> byte list \<Rightarrow> byte list \<Rightarrow> byte list \<Rightarrow>
     byte list \<Rightarrow> byte list \<Rightarrow> (unit, byte list) res" where
  "CRYPTO_tls1_prf mems' mems p digest out secret label seed1 seed2 =
     (if length out = 0 then Ok () out
      else let out = replicate (length out) 0 in
        if digest = EVP_md5_sha1
        then let secret_half = length secret - length secret div 2 in
          rbind (p_hash_out (tls1_P_hash mems' out EVP_md5 (take secret_half secret) label seed1 seed2 :: (unit, 'p prf_state) res)) (\<lambda>_ out.
            p_hash_out (tls1_P_hash mems out EVP_sha1 (drop (length secret - secret_half) secret) label seed1 seed2 :: (unit, 'p prf_state) res))
        else p_hash_out (tls1_P_hash mems out digest secret label seed1 seed2 :: (unit, 'p prf_state) res))"

end
