(* ===== verification/Kdf_Streams.thy ===== *)
theory Kdf_Streams
  imports Kdf Hmac_Spec
begin

text \<open>
  What the functions that derive keys share: outputs that are filled with a stream of blocks, and how a function that uses
  HMAC contexts can end.
\<close>

section \<open>Streams of blocks\<close>

text \<open>The first \<open>n\<close> bytes of the blocks \<open>f 1\<close>, \<open>f 2\<close>, and so on; \<open>n\<close> blocks have \<open>n\<close> bytes.\<close>

definition blocks_of :: "(nat \<Rightarrow> byte list) \<Rightarrow> nat \<Rightarrow> byte list" where
  "blocks_of f i = concat (map f [1..<Suc i])"

definition key_stream :: "(nat \<Rightarrow> byte list) \<Rightarrow> nat \<Rightarrow> byte list" where
  "key_stream f n = take n (blocks_of f n)"

lemma blocks_of_0 [simp]: "blocks_of f 0 = []"
  by (simp add: blocks_of_def)

lemma blocks_of_Suc: "blocks_of f (Suc i) = blocks_of f i @ f (Suc i)"
  by (simp add: blocks_of_def)

lemma length_blocks_of: "(\<And>i. length (f i) = k) \<Longrightarrow> length (blocks_of f n) = n * k"
  by (induction n) (simp_all add: blocks_of_Suc)

lemma take_blocks_of: "n \<le> length (blocks_of f i) \<Longrightarrow> i \<le> j \<Longrightarrow> take n (blocks_of f j) = take n (blocks_of f i)"
proof (induction j)
  case (Suc j)
  show ?case
  proof (cases "i = Suc j")
    case False
    then have "i \<le> j" using Suc(3) by simp
    moreover from this have "length (blocks_of f i) \<le> length (blocks_of f j)"
      by (induction j rule: dec_induct) (simp_all add: blocks_of_Suc)
    ultimately show ?thesis using Suc(1,2) by (simp add: blocks_of_Suc)
  qed simp
qed simp

lemma key_stream_eq:
  assumes "\<And>i. length (f i) = k" and "0 < k" and "n \<le> i * k"
  shows "take n (blocks_of f i) = key_stream f n"
proof -
  have "n \<le> length (blocks_of f i)" "n \<le> length (blocks_of f n)"
    using assms length_blocks_of [of f k, OF assms(1)] by simp_all
  then show ?thesis using take_blocks_of [of n f i n] take_blocks_of [of n f n i] unfolding key_stream_def by (cases "i \<le> n") simp_all
qed

text \<open>An output that is filled from the left, and one into which a stream is added.\<close>

definition fill :: "byte list \<Rightarrow> byte list \<Rightarrow> byte list" where
  "fill xs out = take (length out) xs @ drop (length xs) out"

lemma length_fill [simp]: "length (fill xs out) = length out"
  by (simp add: fill_def)

lemma fill_Nil [simp]: "fill [] out = out"
  by (simp add: fill_def)

lemma fill_all: "length out \<le> length xs \<Longrightarrow> fill xs out = take (length out) xs"
  by (simp add: fill_def)

lemma nth_fill: "i < length out \<Longrightarrow> fill xs out ! i = (if i < length xs then xs ! i else out ! i)"
  by (simp add: fill_def nth_append min_def)

lemma length_put_bytes [simp]: "pos + length d \<le> length out \<Longrightarrow> length (put_bytes pos d out) = length out"
  by (simp add: put_bytes_def)

lemma nth_put_bytes:
  "pos + length d \<le> length out \<Longrightarrow> i < length out \<Longrightarrow>
    put_bytes pos d out ! i = (if i < pos then out ! i else if i < pos + length d then d ! (i - pos) else out ! i)"
  by (auto simp: put_bytes_def nth_append min_def)

lemma put_fill:
  "pos = min (length xs) (length out) \<Longrightarrow> todo = min (length ys) (length out - pos) \<Longrightarrow>
    put_bytes pos (take todo ys) (fill xs out) = fill (xs @ ys) out"
  by (rule nth_equalityI) (auto simp: nth_put_bytes nth_fill nth_append min_def)

lemma xor_fill:
  "pos = length xs \<Longrightarrow> pos \<le> length out \<Longrightarrow> length zs = length ys \<Longrightarrow> todo = min (length ys) (length out - pos) \<Longrightarrow>
    put_bytes pos (map2 (XOR) (take todo (drop pos (fill (xs @ ys) out))) (take todo zs)) (fill (xs @ ys) out) =
    fill (xs @ map2 (XOR) ys zs) out"
  by (rule nth_equalityI) (auto simp: nth_put_bytes nth_fill nth_append min_def)

definition xor_into :: "byte list \<Rightarrow> byte list \<Rightarrow> byte list" where
  "xor_into xs out = fill (map2 (XOR) out xs) out"

lemma length_xor_into [simp]: "length (xor_into xs out) = length out"
  by (simp add: xor_into_def)

lemma xor_into_Nil [simp]: "xor_into [] out = out"
  by (simp add: xor_into_def)

lemma nth_xor_into: "i < length out \<Longrightarrow> xor_into xs out ! i = (if i < length xs then out ! i XOR xs ! i else out ! i)"
  by (simp add: xor_into_def nth_fill)

lemma xor_into_all: "length xs = length out \<Longrightarrow> xor_into xs out = map2 (XOR) out xs"
  by (rule nth_equalityI) (simp_all add: nth_xor_into)

lemma xor_into_zero: "length xs = n \<Longrightarrow> xor_into xs (replicate n 0) = xs"
  by (rule nth_equalityI) (simp_all add: nth_xor_into)

lemma xor_into_take: "xor_into (take (length out) xs) out = xor_into xs out"
  by (rule nth_equalityI) (auto simp: nth_xor_into)

lemma put_xor_into:
  "pos = length xs \<Longrightarrow> pos \<le> length out \<Longrightarrow> todo = min (length ys) (length out - pos) \<Longrightarrow>
    put_bytes pos (map2 (XOR) (take todo (drop pos (xor_into xs out))) (take todo ys)) (xor_into xs out) = xor_into (xs @ ys) out"
  by (rule nth_equalityI) (auto simp: nth_put_bytes nth_xor_into nth_append min_def)

section \<open>Endings of the functions\<close>

text \<open>A function ends well with \<open>P\<close>, or fails after memory was \<open>lost\<close>; either way the contexts can be cleaned up (\<open>I\<close>).\<close>

definition ends_in :: "bool \<Rightarrow> ('s \<Rightarrow> bool) \<Rightarrow> ('a \<Rightarrow> 's \<Rightarrow> bool) \<Rightarrow> ('a, 's) res \<Rightarrow> bool" where
  "ends_in lost I P r \<longleftrightarrow> (case r of Ok x s \<Rightarrow> P x s \<and> I s | Fail s \<Rightarrow> I s \<and> lost | _ \<Rightarrow> False)"

lemma ends_in_Ok [simp]: "ends_in lost I P (Ok x s) \<longleftrightarrow> P x s \<and> I s"
  by (simp add: ends_in_def)

lemma ends_in_bind:
  assumes "ends_in lost I P r" and "\<And>x s. P x s \<Longrightarrow> I s \<Longrightarrow> ends_in lost I Q (f x s)"
  shows "ends_in lost I Q (rbind r f)"
  using assms by (cases r) (auto simp: ends_in_def)

lemma ends_in_mono: "ends_in lost I P r \<Longrightarrow> (\<And>x s. P x s \<Longrightarrow> I s \<Longrightarrow> Q x s) \<Longrightarrow> ends_in lost I Q r"
  by (cases r) (auto simp: ends_in_def)

lemma ends_in_at:
  assumes "ends mems P (f (get s))" and "\<exists>i. mems i = None \<Longrightarrow> lost" and "\<And>h. hmac_typed h \<Longrightarrow> I (put h s)"
  shows "ends_in lost I (\<lambda>x s'. \<exists>h. s' = put h s \<and> P x h \<and> hmac_typed h) (at_ctx f get put s)"
  using assms by (cases "f (get s)") (auto simp: ends_def ends_in_def at_ctx_def)

abbreviation typed_hmac :: "byte list \<times> 'p hmac_ctx \<Rightarrow> bool" where
  "typed_hmac s \<equiv> hmac_typed (snd s)"

lemma on_hmac_ends:
  assumes "ends mems P (f (snd s))" and "\<exists>i. mems i = None \<Longrightarrow> lost"
  shows "ends_in lost typed_hmac (\<lambda>x s'. fst s' = fst s \<and> P x (snd s')) (on_hmac f s)"
  unfolding on_hmac_def
  by (rule ends_in_mono [OF ends_in_at [where f = f and get = snd and s = s and put = "\<lambda>h s. (fst s, h)" and I = typed_hmac, OF assms]])
    auto

text \<open>The steps with one context.\<close>

lemma on_hmac_new:
  assumes "typed_hmac s" "\<And>j. block_of md (mems j)" "\<And>j. mems j = None \<Longrightarrow> lost"
  shows "ends_in lost typed_hmac (\<lambda>_ s'. fst s' = fst s \<and> running md key [] (snd s')) (on_hmac (HMAC_Init_ex mems (Some key) (Some md)) s)"
  using on_hmac_ends [where f = "HMAC_Init_ex mems (Some key) (Some md)", OF HMAC_Init_ex_ends [OF assms(1,2)]] assms(3) by fastforce

lemma on_hmac_rewind:
  assumes "keyed md key (snd s)" "\<And>j. mems j = None \<Longrightarrow> lost"
  shows "ends_in lost typed_hmac (\<lambda>_ s'. fst s' = fst s \<and> running md key [] (snd s')) (on_hmac (HMAC_Init_ex mems None None) s)"
  using on_hmac_ends [where f = "HMAC_Init_ex mems None None", OF HMAC_Init_ex_rewind [OF assms(1)]] assms(2) by blast

lemma on_hmac_update:
  assumes "running md key m (snd s)"
  shows "ends_in lost typed_hmac (\<lambda>_ s'. fst s' = fst s \<and> running md key (m @ data) (snd s')) (on_hmac (HMAC_Update data) s)"
  using on_hmac_ends [where f = "HMAC_Update data", OF HMAC_Update_ends [OF assms, of "\<lambda>_. Some []"]] by blast

lemma on_hmac_final:
  assumes "running md key m (snd s)" "mem = None \<Longrightarrow> lost"
  shows "ends_in lost typed_hmac (\<lambda>d s'. fst s' = fst s \<and> d = hmac_of md key m \<and> keyed md key (snd s')) (on_hmac (HMAC_Final mem) s)"
  using on_hmac_ends [where f = "HMAC_Final mem", OF HMAC_Final_ends [OF assms(1), of "\<lambda>_. mem"]] assms(2) by blast

lemma finally_cleanup_ends:
  assumes "ends_in lost typed_hmac (\<lambda>_ s. fst s = out) r"
  shows "finally_cleanup r = Ok () (out, HMAC_CTX_init) \<or> lost \<and> (\<exists>out'. finally_cleanup r = Fail (out', HMAC_CTX_init))"
  using assms by (cases r) (auto simp: ends_in_def finally_cleanup_def on_hmac_def at_ctx_def HMAC_CTX_cleanup_ok)

lemma EVP_MD_size_pos: "0 < EVP_MD_size md" and EVP_MD_size_le: "EVP_MD_size md \<le> 64"
  by (cases md; simp add: EVP_MD_size_def)+

lemma length_hmac_of [simp]: "length (hmac_of md key m) = EVP_MD_size md"
  by (simp add: hmac_of_def length_digest_of EVP_MD_size_def)

end
