(* ===== verification/Kdf_Spec.thy ===== *)
theory Kdf_Spec
  imports Kdf_Streams
begin

text \<open>
  \<open>hkdf.c\<close> computes HKDF of RFC 5869 and \<open>pbkdf.c\<close> PBKDF2 of RFC 8018, and they return an error without undefined behaviour
  when memory runs out.
\<close>

section \<open>HKDF\<close>

text \<open>\<open>T(i)\<close> of RFC 5869; \<open>T(0)\<close> is empty.\<close>

fun hkdf_T :: "evp_md \<Rightarrow> byte list \<Rightarrow> byte list \<Rightarrow> nat \<Rightarrow> byte list" where
  "hkdf_T md prk info 0 = []"
| "hkdf_T md prk info (Suc i) = hmac_of md prk (hkdf_T md prk info i @ info @ [of_nat (Suc i)])"

definition hkdf_of :: "evp_md \<Rightarrow> byte list \<Rightarrow> byte list \<Rightarrow> byte list \<Rightarrow> nat \<Rightarrow> byte list" where
  "hkdf_of md salt secret info n = key_stream (\<lambda>i. hkdf_T md (hmac_of md salt secret) info i) n"

definition hkdf_at :: "evp_md \<Rightarrow> byte list \<Rightarrow> byte list \<Rightarrow> nat \<Rightarrow> byte list \<Rightarrow> 'p hmac_ctx \<Rightarrow> bool" where
  "hkdf_at md prk info i previous h \<longleftrightarrow>
     (if i = 0 then running md prk [] h else keyed md prk h \<and> previous = hkdf_T md prk info i)"

abbreviation hkdf_stream :: "evp_md \<Rightarrow> byte list \<Rightarrow> byte list \<Rightarrow> nat \<Rightarrow> byte list" where
  "hkdf_stream md prk info \<equiv> blocks_of (hkdf_T md prk info)"

lemma hkdf_round_starts:
  assumes at: "hkdf_at md prk info i previous (snd s)" and lost: "\<And>j. mems (Suc i) j = None \<Longrightarrow> lost" and h: "typed_hmac s"
  shows "ends_in lost typed_hmac (\<lambda>_ s'. fst s' = fst s \<and> running md prk (hkdf_T md prk info i) (snd s'))
    (if i \<noteq> 0
     then rbind (on_hmac (HMAC_Init_ex (mems (Suc i)) None None) s) (\<lambda>_. on_hmac (HMAC_Update (take (EVP_MD_size md) previous)))
     else Ok () s)"
proof (cases i)
  case (Suc j)
  then have k: "keyed md prk (snd s)" and p: "take (EVP_MD_size md) previous = hkdf_T md prk info i"
    using at by (simp_all add: hkdf_at_def)
  have "ends_in lost typed_hmac (\<lambda>_ s'. fst s' = fst s \<and> running md prk (hkdf_T md prk info i) (snd s'))
    (rbind (on_hmac (HMAC_Init_ex (mems (Suc i)) None None) s) (\<lambda>_. on_hmac (HMAC_Update (hkdf_T md prk info i))))"
  proof (rule ends_in_bind [OF on_hmac_rewind [OF k lost]], assumption, elim conjE)
    fix s'
    assume s': "fst s' = fst s" "running md prk [] (snd s')"
    from on_hmac_update [OF s'(2), of lost "hkdf_T md prk info i"]
    show "ends_in lost typed_hmac (\<lambda>_ s''. fst s'' = fst s \<and> running md prk (hkdf_T md prk info i) (snd s''))
        (on_hmac (HMAC_Update (hkdf_T md prk info i)) s')"
      by (rule ends_in_mono) (use s' in auto)
  qed
  then show ?thesis using Suc p by simp
qed (use at h in \<open>simp add: hkdf_at_def\<close>)

lemma hkdf_rounds_ends:
  fixes s :: "byte list \<times> 'p hmac_ctx"
  assumes lost: "\<And>i j. mems i j = None \<Longrightarrow> lost" and h: "typed_hmac s"
    and at: "hkdf_at md prk info i previous (snd s)" and ndone: "ndone = min (i * EVP_MD_size md) (length out)"
    and out: "fst s = fill (hkdf_stream md prk info i) out" and i: "i \<le> n"
  shows "ends_in lost typed_hmac (\<lambda>_ s'. fst s' = fill (hkdf_stream md prk info n) out)
    (hkdf_rounds mems (EVP_MD_size md) info [i..<n] previous ndone s)"
  using assms(2-)
proof (induction "n - i" arbitrary: i previous ndone s)
  case 0
  then show ?case by simp
next
  case (Suc k)
  let ?T = "hkdf_T md prk info" and ?dl = "EVP_MD_size md"
  let ?next = "\<lambda>(s :: byte list \<times> 'p hmac_ctx) previous. let todo = (if length (fst s) < ndone + ?dl then length (fst s) - ndone else ?dl) in
       hkdf_rounds mems ?dl info [Suc i..<n] previous (ndone + todo) (put_bytes ndone (take todo previous) (fst s), snd s)"
  have range: "[i..<n] = i # [Suc i..<n]" using Suc(2,7) by (simp add: upt_rec)
  have len: "length (hkdf_stream md prk info i) = i * ?dl"
    by (induction i) (simp_all add: blocks_of_Suc)
  have step: "ends_in lost typed_hmac (\<lambda>_ s'. fst s' = fill (hkdf_stream md prk info n) out) (?next s' (?T (Suc i)))"
    if s': "fst s' = fst s" "keyed md prk (snd s')" "typed_hmac s'" for s' :: "byte list \<times> 'p hmac_ctx"
  proof -
    let ?todo = "if length (fst s') < ndone + ?dl then length (fst s') - ndone else ?dl"
    have todo: "?todo = min (length (?T (Suc i))) (length out - ndone)" using s'(1) Suc(6) by auto
    have "put_bytes ndone (take ?todo (?T (Suc i))) (fst s') = fill (hkdf_stream md prk info (Suc i)) out"
      unfolding blocks_of_Suc s'(1) Suc(6)
      by (rule put_fill) (use Suc(5) len todo [unfolded s'(1) Suc(6)] in simp_all)
    moreover have "ndone + ?todo = min (Suc i * ?dl) (length out)" unfolding todo using Suc(5) by (auto simp: min_def)
    ultimately show ?thesis
      unfolding Let_def using Suc(2,7) s'
      by (intro Suc(1)) (simp_all add: hkdf_at_def)
  qed
  show ?case
    unfolding range hkdf_rounds.simps
  proof (rule ends_in_bind [OF hkdf_round_starts [OF Suc(4) lost Suc(3)]], assumption, elim conjE)
    fix s1 :: "byte list \<times> 'p hmac_ctx"
    assume s1: "fst s1 = fst s" "running md prk (?T i) (snd s1)"
    show "ends_in lost typed_hmac (\<lambda>_ s'. fst s' = fill (hkdf_stream md prk info n) out)
      (rbind (on_hmac (HMAC_Update info) s1) (\<lambda>_ s. rbind (on_hmac (HMAC_Update [of_nat (i + 1)]) s) (\<lambda>_ s.
        rbind (on_hmac (HMAC_Final (mems (Suc i) 4)) s) (\<lambda>previous s. ?next s previous))))"
    proof (rule ends_in_bind [OF on_hmac_update [OF s1(2)]], elim conjE)
      fix s2 :: "byte list \<times> 'p hmac_ctx"
      assume s2: "fst s2 = fst s1" "running md prk (?T i @ info) (snd s2)"
      show "ends_in lost typed_hmac (\<lambda>_ s'. fst s' = fill (hkdf_stream md prk info n) out)
        (rbind (on_hmac (HMAC_Update [of_nat (i + 1)]) s2) (\<lambda>_ s.
          rbind (on_hmac (HMAC_Final (mems (Suc i) 4)) s) (\<lambda>previous s. ?next s previous)))"
      proof (rule ends_in_bind [OF on_hmac_update [OF s2(2)]], elim conjE)
        fix s3 :: "byte list \<times> 'p hmac_ctx"
        assume s3: "fst s3 = fst s2" "running md prk ((?T i @ info) @ [of_nat (i + 1)]) (snd s3)"
        show "ends_in lost typed_hmac (\<lambda>_ s'. fst s' = fill (hkdf_stream md prk info n) out)
          (rbind (on_hmac (HMAC_Final (mems (Suc i) 4)) s3) (\<lambda>previous s. ?next s previous))"
        proof (rule ends_in_bind [OF on_hmac_final [OF s3(2) lost]], assumption, elim conjE)
          fix d and s4 :: "byte list \<times> 'p hmac_ctx"
          assume s4: "fst s4 = fst s3" "d = hmac_of md prk ((?T i @ info) @ [of_nat (i + 1)])" "keyed md prk (snd s4)" "typed_hmac s4"
          have d: "d = ?T (Suc i)" unfolding s4(2) by simp
          show "ends_in lost typed_hmac (\<lambda>_ s'. fst s' = fill (hkdf_stream md prk info n) out) (?next s4 d)"
            unfolding d using s4(1) s3(1) s2(1) s1(1) by (intro step s4(3,4)) simp
        qed
      qed
    qed
  qed
qed

lemma hkdf_limit:
  fixes L dl :: nat
  assumes "L < 2 ^ 64" "0 < dl" "dl \<le> 64"
  defines "out_len \<equiv> of_nat L :: u64" and "digest_len \<equiv> of_nat dl :: u64"
  shows "out_len + digest_len < out_len \<or> 255 < (out_len + digest_len - 1) div digest_len \<longleftrightarrow> 255 * dl < L"
    and "L \<le> 255 * dl \<Longrightarrow> unat ((out_len + digest_len - 1) div digest_len) = (L + dl - 1) div dl"
proof -
  have u: "unat out_len = L" "unat digest_len = dl" using assms by (simp_all add: unsigned_of_nat take_bit_nat_eq_self)
  have "out_len + digest_len < out_len \<longleftrightarrow> 2 ^ 64 \<le> L + dl"
    using no_olen_add_nat [of out_len digest_len] u by (auto simp: not_le [symmetric])
  moreover have div: "unat ((out_len + digest_len - 1) div digest_len) = (L + dl - 1) div dl" if "L + dl < 2 ^ 64"
  proof -
    have e: "out_len + digest_len - 1 = of_nat (L + dl - 1)" using assms(2) by (simp add: out_len_def digest_len_def of_nat_diff)
    have "unat (of_nat (L + dl - 1) :: u64) = L + dl - 1"
      using that by (simp add: unsigned_of_nat take_bit_nat_eq_self)
    then show ?thesis unfolding e unat_div u by simp
  qed
  moreover have "255 < (out_len + digest_len - 1) div digest_len \<longleftrightarrow> 255 * dl < L" if "L + dl < 2 ^ 64"
  proof -
    have "255 < (L + dl - 1) div dl \<longleftrightarrow> 256 * dl \<le> L + dl - 1"
      using less_eq_div_iff_mult_less_eq [OF assms(2), of 256 "L + dl - 1"] by auto
    then show ?thesis using div [OF that] assms(2) by (simp add: word_less_nat_alt) linarith
  qed
  ultimately show "out_len + digest_len < out_len \<or> 255 < (out_len + digest_len - 1) div digest_len \<longleftrightarrow> 255 * dl < L"
    "L \<le> 255 * dl \<Longrightarrow> unat ((out_len + digest_len - 1) div digest_len) = (L + dl - 1) div dl"
    using assms(3) by (cases "L + dl < 2 ^ 64"; simp)+
qed

lemma ceil_mult: "0 < k \<Longrightarrow> n \<le> ((n + k - 1) div k) * k" for n k :: nat
  using div_mult_mod_eq [of "n + k - 1" k] mod_less_divisor [of k "n + k - 1"] by linarith

lemma length_hkdf_T: "length (hkdf_T md prk info (Suc i)) = EVP_MD_size md"
  by simp

lemma key_stream_hkdf:
  assumes "n \<le> i * EVP_MD_size md"
  shows "take n (hkdf_stream md prk info i) = key_stream (hkdf_T md prk info) n"
proof -
  let ?f = "\<lambda>i. if i = 0 then replicate (EVP_MD_size md) 0 else hkdf_T md prk info i"
  have "blocks_of ?f j = hkdf_stream md prk info j" for j by (induction j) (simp_all add: blocks_of_Suc)
  moreover have "length (?f i) = EVP_MD_size md" for i by (cases i) simp_all
  ultimately show ?thesis using key_stream_eq [of ?f "EVP_MD_size md" n i] EVP_MD_size_pos assms by (simp add: key_stream_def)
qed

lemma HKDF_expand_ends:
  assumes mems: "\<And>j. block_of md (mems 0 j)" and L: "length out < 2 ^ 64"
  shows "HKDF_expand mems out md prk info = Ok () (key_stream (hkdf_T md prk info) (length out), HMAC_CTX_init :: 'p hmac_ctx) \<and>
      length out \<le> 255 * EVP_MD_size md \<or>
    (255 * EVP_MD_size md < length out \<or> (\<exists>i j. mems i j = None)) \<and>
      (\<exists>out'. HKDF_expand mems out md prk info = Fail (out', HMAC_CTX_init :: 'p hmac_ctx))"
proof (cases "255 * EVP_MD_size md < length out")
  case True
  then show ?thesis
    using hkdf_limit(1) [OF L EVP_MD_size_pos EVP_MD_size_le, of md] by (simp add: HKDF_expand_def Let_def)
next
  case False
  let ?lost = "\<exists>i j. mems i j = None" and ?n = "(length out + EVP_MD_size md - 1) div EVP_MD_size md" and ?s = "(out, HMAC_CTX_init :: 'p hmac_ctx)"
  have stream: "fill (hkdf_stream md prk info ?n) out = key_stream (hkdf_T md prk info) (length out)"
  proof -
    have n: "length out \<le> ?n * EVP_MD_size md" by (rule ceil_mult) (rule EVP_MD_size_pos)
    have "length (hkdf_stream md prk info i) = i * EVP_MD_size md" for i by (induction i) (simp_all add: blocks_of_Suc)
    then show ?thesis using n key_stream_hkdf [OF n] by (simp add: fill_all)
  qed
  have code: "HKDF_expand mems out md prk info = finally_cleanup (rbind (on_hmac (HMAC_Init_ex (mems 0) (Some prk) (Some md)) ?s)
      (\<lambda>_. hkdf_rounds mems (EVP_MD_size md) info [0..<?n] [] 0))"
    using hkdf_limit [OF L EVP_MD_size_pos EVP_MD_size_le, of md] False by (simp add: HKDF_expand_def Let_def)
  have ends: "ends_in ?lost typed_hmac (\<lambda>_ s. fst s = key_stream (hkdf_T md prk info) (length out))
    (rbind (on_hmac (HMAC_Init_ex (mems 0) (Some prk) (Some md)) ?s) (\<lambda>_. hkdf_rounds mems (EVP_MD_size md) info [0..<?n] [] 0))"
  proof (rule ends_in_bind [OF on_hmac_new], simp, rule mems, blast, elim conjE)
    fix s1 :: "byte list \<times> 'p hmac_ctx"
    assume s1: "fst s1 = fst ?s" "running md prk [] (snd s1)" "typed_hmac s1"
    show "ends_in ?lost typed_hmac (\<lambda>_ s. fst s = key_stream (hkdf_T md prk info) (length out))
      (hkdf_rounds mems (EVP_MD_size md) info [0..<?n] [] 0 s1)"
      unfolding stream [symmetric] by (rule hkdf_rounds_ends) (use s1 in \<open>auto simp: hkdf_at_def\<close>)
  qed
  from finally_cleanup_ends [OF ends] False show ?thesis unfolding code not_less by blast
qed

text \<open>A missing salt is one of as many zeros as a digest has bytes.\<close>

lemma hmac_of_zeros: "n \<le> EVP_MD_block_size md \<Longrightarrow> hmac_of md (replicate n 0) m = hmac_of md [] m"
  by (simp add: hmac_of_def ipad_def opad_def hmac_block_def replicate_add [symmetric])

definition hkdf_salt :: "evp_md \<Rightarrow> byte list option \<Rightarrow> byte list" where
  "hkdf_salt md salt = (case salt of None \<Rightarrow> replicate (EVP_MD_size md) 0 | Some s \<Rightarrow> s)"

lemma HKDF_extract_ends:
  assumes "\<And>j. block_of md (mems j)"
  shows "HKDF_extract mems md secret salt = Ok (hmac_of md (hkdf_salt md salt) secret) (HMAC_CTX_init :: 'p hmac_ctx) \<or>
    (\<exists>j. mems j = None) \<and> HKDF_extract mems md secret salt = Fail (HMAC_CTX_init :: 'p hmac_ctx)"
proof -
  have "EVP_MD_size md \<le> EVP_MD_block_size md" by (cases md) (simp_all add: EVP_MD_size_def EVP_MD_block_size_def)
  then have "hmac_of md (hkdf_salt md salt) secret = hmac_of md (case salt of None \<Rightarrow> [] | Some k \<Rightarrow> k) secret"
    using hmac_of_zeros by (cases salt) (simp_all add: hkdf_salt_def)
  then show ?thesis
    using HMAC_ends [where mems = mems and md = md and key = salt and data = secret and 'p = 'p, OF assms] by (auto simp: HKDF_extract_def)
qed

text \<open>C39: HKDF over any of the hash functions returns the first bytes of the blocks of RFC 5869 (a missing salt counts as zeros) and
  leaves no context behind. It fails if more than 255 blocks are asked for, and otherwise only if memory runs out.\<close>

theorem hkdf_is_rfc5869:
  assumes "\<forall>j. block_of md (mems' j)" "\<forall>i j. block_of md (mems i j)" and "length out < 2 ^ 64"
  shows "HKDF mems' mems out md secret salt info =
      Ok () (hkdf_of md (hkdf_salt md salt) secret info (length out), HMAC_CTX_init :: 'p hmac_ctx) \<and> length out \<le> 255 * EVP_MD_size md \<or>
    (255 * EVP_MD_size md < length out \<or> (\<exists>j. mems' j = None) \<or> (\<exists>i j. mems i j = None)) \<and>
      (\<exists>out'. HKDF mems' mems out md secret salt info = Fail (out', HMAC_CTX_init :: 'p hmac_ctx))"
proof -
  have mems: "block_of md (mems' j)" "block_of md (mems i j)" for i j using assms(1,2) by blast+
  have "HKDF_extract mems' md secret salt = Ok (hmac_of md (hkdf_salt md salt) secret) (HMAC_CTX_init :: 'p hmac_ctx) \<or>
      (\<exists>j. mems' j = None) \<and> HKDF_extract mems' md secret salt = Fail (HMAC_CTX_init :: 'p hmac_ctx)"
    by (rule HKDF_extract_ends) (rule mems(1))
  then show ?thesis
    using HKDF_expand_ends [where mems = mems and md = md and prk = "hmac_of md (hkdf_salt md salt) secret" and info = info and 'p = 'p,
        OF mems(2) assms(3)]
    by (auto simp: HKDF_def hkdf_of_def)
qed

lemma hkdf_is_rfc5869_witness:
  "let mems = \<lambda>_. Some (replicate 112 (5 :: byte)) in
     HKDF mems (\<lambda>_. mems) (replicate 42 0) EVP_sha256 [1, 2] None [3] =
       Ok () (hkdf_of EVP_sha256 (replicate 32 0) [1, 2] [3] 42, HMAC_CTX_init :: unit hmac_ctx)"
  using hkdf_is_rfc5869 [where 'p = unit, of EVP_sha256 "\<lambda>_. Some (replicate 112 5)" "\<lambda>_ _. Some (replicate 112 5)" "replicate 42 0" "[1, 2]" None "[3]"]
  by (simp add: block_of_def EVP_MD_size_def hkdf_salt_def Let_def)

section \<open>PBKDF2\<close>

text \<open>\<open>U\<close> and the sum \<open>F\<close> of RFC 8018, numbered from 0.\<close>

fun pbkdf2_U :: "evp_md \<Rightarrow> byte list \<Rightarrow> byte list \<Rightarrow> nat \<Rightarrow> nat \<Rightarrow> byte list" where
  "pbkdf2_U md password salt i 0 = hmac_of md password (salt @ be_bytes 4 (of_nat i :: u32))"
| "pbkdf2_U md password salt i (Suc k) = hmac_of md password (pbkdf2_U md password salt i k)"

fun pbkdf2_F :: "evp_md \<Rightarrow> byte list \<Rightarrow> byte list \<Rightarrow> nat \<Rightarrow> nat \<Rightarrow> byte list" where
  "pbkdf2_F md password salt i 0 = pbkdf2_U md password salt i 0"
| "pbkdf2_F md password salt i (Suc k) = map2 (XOR) (pbkdf2_F md password salt i k) (pbkdf2_U md password salt i (Suc k))"

definition pbkdf2_of :: "evp_md \<Rightarrow> byte list \<Rightarrow> byte list \<Rightarrow> nat \<Rightarrow> nat \<Rightarrow> byte list" where
  "pbkdf2_of md password salt c n = key_stream (\<lambda>i. pbkdf2_F md password salt i (c - 1)) n"

lemma length_pbkdf2_U [simp]: "length (pbkdf2_U md password salt i k) = EVP_MD_size md"
  by (cases k) simp_all

lemma length_pbkdf2_F [simp]: "length (pbkdf2_F md password salt i k) = EVP_MD_size md"
  by (induction k) simp_all

lemma pbkdf2_iterations_ends:
  fixes s :: "byte list \<times> 'p hmac_ctx"
  assumes lost: "\<And>i j. mems i j = None \<Longrightarrow> lost"
    and "keyed md password (snd s)" "typed_hmac s"
    and "fst s = fill (A @ pbkdf2_F md password salt i k) out" and pos: "pos = length A" "pos \<le> length out"
    and todo: "todo = min (EVP_MD_size md) (length out - pos)"
  shows "ends_in lost typed_hmac (\<lambda>_ s'. keyed md password (snd s') \<and> fst s' = fill (A @ pbkdf2_F md password salt i (k + j)) out)
    (pbkdf2_iterations mems (EVP_MD_size md) pos todo j (pbkdf2_U md password salt i k) s)"
  using assms(2-4)
proof (induction j arbitrary: k s)
  case (Suc j)
  let ?U = "pbkdf2_U md password salt i" and ?F = "pbkdf2_F md password salt i" and ?dl = "EVP_MD_size md"
  let ?Q = "\<lambda>(_ :: unit) (s' :: byte list \<times> 'p hmac_ctx). keyed md password (snd s') \<and> fst s' = fill (A @ ?F (k + Suc j)) out"
  let ?next = "\<lambda>digest_tmp (s :: byte list \<times> 'p hmac_ctx). pbkdf2_iterations mems ?dl pos todo j digest_tmp
      (put_bytes pos (map2 (XOR) (take todo (drop pos (fst s))) (take todo digest_tmp)) (fst s), snd s)"
  have step: "ends_in lost typed_hmac ?Q (?next (?U (Suc k)) s')"
    if s': "fst s' = fst s" "keyed md password (snd s')" "typed_hmac s'" for s' :: "byte list \<times> 'p hmac_ctx"
  proof -
    have "put_bytes pos (map2 (XOR) (take todo (drop pos (fst s'))) (take todo (?U (Suc k)))) (fst s') =
        fill (A @ map2 (XOR) (?F k) (?U (Suc k))) out"
      unfolding s'(1) Suc(4) by (rule xor_fill) (use pos todo in simp_all)
    then show ?thesis using Suc(1) [of "(put_bytes pos (map2 (XOR) (take todo (drop pos (fst s'))) (take todo (?U (Suc k)))) (fst s'), snd s')" "Suc k"] s'
      by simp
  qed
  have U: "take ?dl (?U k) = ?U k" by simp
  show ?case
    unfolding pbkdf2_iterations.simps U
  proof (rule ends_in_bind [OF on_hmac_rewind [OF Suc(2) lost]], assumption, elim conjE)
    fix s1 :: "byte list \<times> 'p hmac_ctx"
    assume s1: "fst s1 = fst s" "running md password [] (snd s1)"
    show "ends_in lost typed_hmac ?Q (rbind (on_hmac (HMAC_Update (?U k)) s1) (\<lambda>_ s.
        rbind (on_hmac (HMAC_Final (mems (Suc j) 4)) s) (\<lambda>digest_tmp s. ?next digest_tmp s)))"
    proof (rule ends_in_bind [OF on_hmac_update [OF s1(2)]], elim conjE)
      fix s2 :: "byte list \<times> 'p hmac_ctx"
      assume s2: "fst s2 = fst s1" "running md password ([] @ ?U k) (snd s2)"
      show "ends_in lost typed_hmac ?Q (rbind (on_hmac (HMAC_Final (mems (Suc j) 4)) s2) (\<lambda>digest_tmp s. ?next digest_tmp s))"
      proof (rule ends_in_bind [OF on_hmac_final [OF s2(2) lost]], assumption, elim conjE)
        fix d and s3 :: "byte list \<times> 'p hmac_ctx"
        assume s3: "fst s3 = fst s2" "d = hmac_of md password ([] @ ?U k)" "keyed md password (snd s3)" "typed_hmac s3"
        have d: "d = ?U (Suc k)" unfolding s3(2) by simp
        show "ends_in lost typed_hmac ?Q (?next d s3)"
          unfolding d using s3(1) s2(1) s1(1) by (intro step s3(3,4)) simp
      qed
    qed
  qed
qed simp

lemma counter_bytes:
  "[ucast (drop_bit 24 w AND 0xFF), ucast (drop_bit 16 w AND 0xFF), ucast (drop_bit 8 w AND 0xFF), ucast (w AND 0xFF)] = be_bytes 4 w"
  for w :: u32
proof -
  have "ucast (v AND 0xFF) = (ucast v :: byte)" for v :: u32
  proof -
    have "(0xFF :: u32) = mask 8" by (simp add: mask_eq_exp_minus_1)
    then show ?thesis by (auto simp: bit_eq_iff bit_simps)
  qed
  then show ?thesis by (simp add: be_bytes_def le_bytes_def numeral_eq_Suc upt_rec)
qed

lemma pbkdf2_blocks_ends:
  fixes s :: "byte list \<times> 'p hmac_ctx" and md password salt
  defines "F \<equiv> \<lambda>c i. pbkdf2_F md password salt i (unat c - 1)"
  assumes lost: "\<And>i j k. mems i j k = None \<Longrightarrow> lost"
    and "keyed md password (snd s)" "typed_hmac s"
    and "fst s = fill (blocks_of (F c) i) out" and "pos = min (i * EVP_MD_size md) (length out)" and "key_len = length out - pos"
  shows "ends_in lost typed_hmac (\<lambda>_ s'. fst s' = key_stream (F c) (length out))
    (pbkdf2_blocks mems md salt c (of_nat (Suc i)) pos key_len s)"
  using assms(3-)
proof (induction key_len arbitrary: i pos s rule: less_induct)
  case (less key_len)
  let ?dl = "EVP_MD_size md" and ?F = "pbkdf2_F md password salt (Suc i)" and ?U = "pbkdf2_U md password salt (Suc i)"
  let ?Q = "\<lambda>(_ :: unit) (s' :: byte list \<times> 'p hmac_ctx). fst s' = key_stream (F c) (length out)"
  let ?todo = "if key_len < ?dl then key_len else ?dl"
  let ?buf = "[ucast (drop_bit 24 (of_nat (Suc i) :: u32) AND 0xFF), ucast (drop_bit 16 (of_nat (Suc i) :: u32) AND 0xFF),
    ucast (drop_bit 8 (of_nat (Suc i) :: u32) AND 0xFF), ucast ((of_nat (Suc i) :: u32) AND 0xFF)] :: byte list"
  have len: "length (F c j) = ?dl" for j by (simp add: F_def)
  have lens: "length (blocks_of (F c) j) = j * ?dl" for j using len by (rule length_blocks_of)
  show ?case
  proof (cases "key_len = 0")
    case True
    then have "length out \<le> i * ?dl" using less(5,6) by auto
    then have "fill (blocks_of (F c) i) out = key_stream (F c) (length out)"
      using key_stream_eq [of "F c" ?dl "length out" i, OF len EVP_MD_size_pos] by (simp add: fill_all lens)
    then show ?thesis using True less(3,4) by (simp add: pbkdf2_blocks.simps)
  next
    case False
    have pos: "pos = length (blocks_of (F c) i)" "pos \<le> length out" using False less(5,6) lens [of i] by (auto simp: min_def split: if_splits)
    have todo: "?todo = min ?dl (length out - pos)" using less(6) by auto
    have buf: "?buf = be_bytes 4 (of_nat (Suc i) :: u32)" by (rule counter_bytes)
    let ?rest = "\<lambda>s. pbkdf2_blocks mems md salt c (of_nat (Suc i) + 1) (pos + ?todo) (key_len - ?todo) (s :: byte list \<times> 'p hmac_ctx)"
    let ?iter = "\<lambda>d (s :: byte list \<times> 'p hmac_ctx). rbind (pbkdf2_iterations (mems key_len) ?dl pos ?todo (unat c - 1) d
        (put_bytes pos (take ?todo d) (fst s), snd s)) (\<lambda>_. ?rest)"
    have code: "pbkdf2_blocks mems md salt c (of_nat (Suc i)) pos key_len s =
        rbind (on_hmac (HMAC_Init_ex (mems key_len 0) None None) s) (\<lambda>_ s. rbind (on_hmac (HMAC_Update salt) s) (\<lambda>_ s.
        rbind (on_hmac (HMAC_Update ?buf) s) (\<lambda>_ s. rbind (on_hmac (HMAC_Final (mems key_len 0 4)) s) (\<lambda>d s. ?iter d s))))"
      using False by (subst pbkdf2_blocks.simps) (simp only: Let_def if_False)
    have rest: "ends_in lost typed_hmac ?Q (?rest s')"
      if "keyed md password (snd s')" "typed_hmac s'" "fst s' = fill (blocks_of (F c) i @ ?F (unat c - 1)) out"
      for s' :: "byte list \<times> 'p hmac_ctx"
    proof -
      have "0 < ?todo" using False EVP_MD_size_pos [of md] by simp
      then have "key_len - ?todo < key_len" using False by simp
      moreover have "fst s' = fill (blocks_of (F c) (Suc i)) out" using that(3) by (simp add: blocks_of_Suc F_def)
      moreover have "pos + ?todo = min (Suc i * ?dl) (length out)"
        unfolding todo using pos lens [of i] by (auto simp: min_def)
      moreover have "key_len - ?todo = length out - (pos + ?todo)" using less(6) by simp
      ultimately have "ends_in lost typed_hmac ?Q (pbkdf2_blocks mems md salt c (of_nat (Suc (Suc i))) (pos + ?todo) (key_len - ?todo) s')"
        using that(1,2) by (intro less(1))
      moreover have "of_nat (Suc (Suc i)) = of_nat (Suc i) + (1 :: u32)" by simp
      ultimately show ?thesis by (simp only:)
    qed
    have iter: "ends_in lost typed_hmac ?Q (?iter (?U 0) s')"
      if "keyed md password (snd s')" "typed_hmac s'" "fst s' = fst s" for s' :: "byte list \<times> 'p hmac_ctx"
    proof -
      let ?s = "(put_bytes pos (take ?todo (?U 0)) (fst s'), snd s')"
      have out: "fst ?s = fill (blocks_of (F c) i @ ?F 0) out"
        using put_fill [of pos "blocks_of (F c) i" out ?todo "?F 0"] pos todo that(3) less(4) by (simp add: min_def)
      note it = pbkdf2_iterations_ends [where mems = "mems key_len" and lost = lost and s = ?s and j = "unat c - 1" and A = "blocks_of (F c) i",
        OF lost _ _ out pos todo]
      show ?thesis
        by (rule ends_in_bind [OF it]) (use that rest in simp_all)
    qed
    show ?thesis
      unfolding code
    proof (rule ends_in_bind [OF on_hmac_rewind [OF less(2) lost]], assumption, elim conjE)
      fix s1 :: "byte list \<times> 'p hmac_ctx"
      assume s1: "fst s1 = fst s" "running md password [] (snd s1)"
      show "ends_in lost typed_hmac ?Q (rbind (on_hmac (HMAC_Update salt) s1) (\<lambda>_ s.
        rbind (on_hmac (HMAC_Update ?buf) s) (\<lambda>_ s. rbind (on_hmac (HMAC_Final (mems key_len 0 4)) s) (\<lambda>d s. ?iter d s))))"
      proof (rule ends_in_bind [OF on_hmac_update [OF s1(2)]], elim conjE)
        fix s2 :: "byte list \<times> 'p hmac_ctx"
        assume s2: "fst s2 = fst s1" "running md password ([] @ salt) (snd s2)"
        show "ends_in lost typed_hmac ?Q (rbind (on_hmac (HMAC_Update ?buf) s2) (\<lambda>_ s.
          rbind (on_hmac (HMAC_Final (mems key_len 0 4)) s) (\<lambda>d s. ?iter d s)))"
        proof (rule ends_in_bind [OF on_hmac_update [OF s2(2)]], elim conjE)
          fix s3 :: "byte list \<times> 'p hmac_ctx"
          assume s3: "fst s3 = fst s2" "running md password (([] @ salt) @ ?buf) (snd s3)"
          show "ends_in lost typed_hmac ?Q (rbind (on_hmac (HMAC_Final (mems key_len 0 4)) s3) (\<lambda>d s. ?iter d s))"
          proof (rule ends_in_bind [OF on_hmac_final [OF s3(2) lost]], assumption, elim conjE)
            fix d and s4 :: "byte list \<times> 'p hmac_ctx"
            assume s4: "fst s4 = fst s3" "d = hmac_of md password (([] @ salt) @ ?buf)" "keyed md password (snd s4)" "typed_hmac s4"
            have d: "d = ?U 0" unfolding s4(2) buf by simp
            show "ends_in lost typed_hmac ?Q (?iter d s4)"
              unfolding d using s4(1) s3(1) s2(1) s1(1) by (intro iter s4(3,4)) simp
          qed
        qed
      qed
    qed
  qed
qed

text \<open>PBKDF2 over any of the hash functions fills the output with the first bytes of the blocks of RFC 8018, for any number of
  iterations and any length of the output (the block counter has 32 bits), and leaves no context behind. For 0 iterations it
  fills it as for 1 and returns an error; otherwise it fails only if memory runs out.\<close>

theorem pbkdf2_is_rfc8018:
  assumes "\<forall>j. block_of md (mems 0 0 j)"
  shows "(PKCS5_PBKDF2_HMAC mems password salt c md out =
      (if c = 0 then Fail else Ok ()) (pbkdf2_of md password salt (unat c) (length out), HMAC_CTX_init :: 'p hmac_ctx)) \<or>
    (\<exists>i j k. mems i j k = None) \<and>
      (\<exists>out'. PKCS5_PBKDF2_HMAC mems password salt c md out = Fail (out', HMAC_CTX_init :: 'p hmac_ctx))"
proof -
  let ?lost = "\<exists>i j k. mems i j k = None" and ?s = "(out, HMAC_CTX_init :: 'p hmac_ctx)"
  let ?dk = "pbkdf2_of md password salt (unat c) (length out)"
  let ?blocks = "rbind (on_hmac (HMAC_Init_ex (mems 0 0) (Some password) (Some md)) ?s)
    (\<lambda>_. pbkdf2_blocks mems md salt c 1 0 (length out))"
  have "ends_in ?lost typed_hmac (\<lambda>_ s. fst s = ?dk) ?blocks"
  proof (rule ends_in_bind [OF on_hmac_new [where s = ?s]], simp, use assms in blast, blast, elim conjE)
    fix s1 :: "byte list \<times> 'p hmac_ctx"
    assume s1: "fst s1 = fst ?s" "running md password [] (snd s1)" "typed_hmac s1"
    have "ends_in ?lost typed_hmac (\<lambda>_ s. fst s = ?dk) (pbkdf2_blocks mems md salt c (of_nat (Suc 0)) 0 (length out) s1)"
      unfolding pbkdf2_of_def by (rule pbkdf2_blocks_ends) (use s1 in \<open>auto simp: running_def\<close>)
    then show "ends_in ?lost typed_hmac (\<lambda>_ s. fst s = ?dk) (pbkdf2_blocks mems md salt c 1 0 (length out) s1)" by simp
  qed
  moreover have code: "PKCS5_PBKDF2_HMAC mems password salt c md out = finally_cleanup (rbind ?blocks (\<lambda>_ s. if c = 0 then Fail s else Ok () s))"
    by (cases "on_hmac (HMAC_Init_ex (mems 0 0) (Some password) (Some md)) ?s") (simp_all add: PKCS5_PBKDF2_HMAC_def)
  ultimately show ?thesis
    unfolding code by (cases ?blocks)
      (auto simp: ends_in_def finally_cleanup_def on_hmac_def at_ctx_def HMAC_CTX_cleanup_ok split: if_splits)
qed

lemma pbkdf2_is_rfc8018_witness:
  "PKCS5_PBKDF2_HMAC (\<lambda>_ _ _. Some (replicate 96 5)) [1, 2] [3] 1000 EVP_sha1 (replicate 50 0) =
     Ok () (pbkdf2_of EVP_sha1 [1, 2] [3] 1000 50, HMAC_CTX_init :: unit hmac_ctx)"
  using pbkdf2_is_rfc8018 [where 'p = unit, of EVP_sha1 "\<lambda>_ _ _. Some (replicate 96 5)" "[1, 2]" "[3]" 1000 "replicate 50 0"]
  by (simp add: block_of_def)

end
