(* ===== verification/Tls_Prf_Spec.thy ===== *)
theory Tls_Prf_Spec
  imports Kdf_Streams
begin

text \<open>
  \<open>kdf.c\<close> computes the pseudorandom functions of RFC 2246 and RFC 5246.
\<close>

section \<open>The pseudorandom function of TLS\<close>

text \<open>\<open>A(i)\<close> and \<open>P_hash\<close> of RFC 5246.\<close>

fun prf_A :: "evp_md \<Rightarrow> byte list \<Rightarrow> byte list \<Rightarrow> nat \<Rightarrow> byte list" where
  "prf_A md secret seed 0 = seed"
| "prf_A md secret seed (Suc i) = hmac_of md secret (prf_A md secret seed i)"

definition p_block :: "evp_md \<Rightarrow> byte list \<Rightarrow> byte list \<Rightarrow> nat \<Rightarrow> byte list" where
  "p_block md secret seed i = hmac_of md secret (prf_A md secret seed i @ seed)"

definition p_hash_of :: "evp_md \<Rightarrow> byte list \<Rightarrow> byte list \<Rightarrow> nat \<Rightarrow> byte list" where
  "p_hash_of md secret seed n = key_stream (p_block md secret seed) n"

text \<open>The function of TLS 1.2, and that of TLS 1.0 and 1.1 for the hash function MD5 with SHA-1, with the two halves
  of the secret as the specification takes them.\<close>

definition tls_prf_of :: "evp_md \<Rightarrow> byte list \<Rightarrow> byte list \<Rightarrow> byte list \<Rightarrow> nat \<Rightarrow> byte list" where
  "tls_prf_of md secret label seed n =
     (if md = EVP_md5_sha1
      then let h = (length secret + 1) div 2 in
        map2 (XOR) (p_hash_of EVP_md5 (take h secret) (label @ seed) n)
          (p_hash_of EVP_sha1 (drop (length secret - h) secret) (label @ seed) n)
      else p_hash_of md secret (label @ seed) n)"

text \<open>Copies of HMAC contexts.\<close>

lemma copy_ends_io:
  assumes "hmac_typed h" and "live md bs inp" "md_pctx inp = None"
  shows "ends mems (\<lambda>_ h'. live md bs (hmac_i_ctx h') \<and> (\<exists>c. h' = h\<lparr>hmac_i_ctx := c\<rparr>))
      (on_i (\<lambda>c. EVP_MD_CTX_copy_ex (mems k) c (Some inp)) h)"
    "ends mems (\<lambda>_ h'. live md bs (hmac_o_ctx h') \<and> (\<exists>c. h' = h\<lparr>hmac_o_ctx := c\<rparr>))
      (on_o (\<lambda>c. EVP_MD_CTX_copy_ex (mems k) c (Some inp)) h)"
proof -
  have t: "typed (hmac_i_ctx h)" "md_pctx (hmac_i_ctx h) = None" "typed (hmac_o_ctx h)" "md_pctx (hmac_o_ctx h) = None"
    using assms(1) by (simp_all add: hmac_typed_def)
  show "ends mems (\<lambda>_ h'. live md bs (hmac_i_ctx h') \<and> (\<exists>c. h' = h\<lparr>hmac_i_ctx := c\<rparr>))
      (on_i (\<lambda>c. EVP_MD_CTX_copy_ex (mems k) c (Some inp)) h)"
    using MD_CTX_copy_ex [OF t(1) assms(2,3), of "mems k"] hmac_typed_update [OF assms(1)] typed_live t
    by (fastforce simp: ends_def on_ctx)
  show "ends mems (\<lambda>_ h'. live md bs (hmac_o_ctx h') \<and> (\<exists>c. h' = h\<lparr>hmac_o_ctx := c\<rparr>))
      (on_o (\<lambda>c. EVP_MD_CTX_copy_ex (mems k) c (Some inp)) h)"
    using MD_CTX_copy_ex [OF t(3) assms(2,3), of "mems k"] hmac_typed_update [OF assms(1)] typed_live t
    by (fastforce simp: ends_def on_ctx)
qed

lemma HMAC_CTX_copy_ends:
  fixes dest src :: "'p hmac_ctx"
  assumes "hmac_typed dest" and "running md key m src"
  shows "ends mems (\<lambda>_. running md key m) (HMAC_CTX_copy_ex mems dest src)"
proof -
  have live: "live md (ipad md key) (hmac_i_ctx src)" "live md (opad md key) (hmac_o_ctx src)" "live md (ipad md key @ m) (hmac_md_ctx src)"
    and pctx: "md_pctx (hmac_i_ctx src) = None" "md_pctx (hmac_o_ctx src) = None" "md_pctx (hmac_md_ctx src) = None"
    and md: "hmac_md src = Some md"
    using assms(2) by (auto simp: running_def keyed_def hmac_typed_def)
  show ?thesis
    unfolding HMAC_CTX_copy_ex_def md
  proof (rule ends_bind [OF copy_ends_io(1) [OF assms(1) live(1) pctx(1)]], elim conjE exE)
    fix h1 :: "'p hmac_ctx"
    assume h1: "hmac_typed h1" "live md (ipad md key) (hmac_i_ctx h1)"
    show "ends mems (\<lambda>_. running md key m) (rbind (on_o (\<lambda>c. EVP_MD_CTX_copy_ex (mems 1) c (Some (hmac_o_ctx src))) h1) (\<lambda>_ dest.
      rbind (on_md (\<lambda>c. EVP_MD_CTX_copy_ex (mems 2) c (Some (hmac_md_ctx src))) dest) (\<lambda>_ dest. Ok () (dest\<lparr>hmac_md := Some md\<rparr>))))"
    proof (rule ends_bind [OF copy_ends_io(2) [OF h1(1) live(2) pctx(2)]], elim conjE exE)
      fix h2 c2
      assume h2: "hmac_typed h2" "live md (opad md key) (hmac_o_ctx h2)" "h2 = h1\<lparr>hmac_o_ctx := c2\<rparr>"
      show "ends mems (\<lambda>_. running md key m) (rbind (on_md (\<lambda>c. EVP_MD_CTX_copy_ex (mems 2) c (Some (hmac_md_ctx src))) h2)
        (\<lambda>_ dest. Ok () (dest\<lparr>hmac_md := Some md\<rparr>)))"
        by (rule ends_bind [OF copy_ends [OF h2(1) live(3) pctx(3)]])
          (use h1 h2 in \<open>auto simp: running_def keyed_def hmac_typed_def\<close>)
    qed
  qed
qed

text \<open>The state of \<open>tls1_P_hash\<close>.\<close>

definition prf_typed :: "'p prf_state \<Rightarrow> bool" where
  "prf_typed s \<longleftrightarrow> hmac_typed (prf_ctx s) \<and> hmac_typed (prf_tmp s) \<and> hmac_typed (prf_init s)"

lemma on_prf_ends:
  assumes "prf_typed s" and "\<exists>i. mems i = None \<Longrightarrow> lost"
  shows "ends mems P (f (prf_ctx s)) \<Longrightarrow>
      ends_in lost prf_typed (\<lambda>x s'. \<exists>h. s' = s\<lparr>prf_ctx := h\<rparr> \<and> P x h \<and> hmac_typed h) (on_ctx1 f s)"
    "ends mems P (f (prf_tmp s)) \<Longrightarrow>
      ends_in lost prf_typed (\<lambda>x s'. \<exists>h. s' = s\<lparr>prf_tmp := h\<rparr> \<and> P x h \<and> hmac_typed h) (on_tmp f s)"
    "ends mems P (f (prf_init s)) \<Longrightarrow>
      ends_in lost prf_typed (\<lambda>x s'. \<exists>h. s' = s\<lparr>prf_init := h\<rparr> \<and> P x h \<and> hmac_typed h) (on_init f s)"
proof -
  show "ends_in lost prf_typed (\<lambda>x s'. \<exists>h. s' = s\<lparr>prf_ctx := h\<rparr> \<and> P x h \<and> hmac_typed h) (on_ctx1 f s)" if "ends mems P (f (prf_ctx s))"
    unfolding on_ctx1_def
    using ends_in_at [where I = prf_typed and put = "\<lambda>h. prf_ctx_update (\<lambda>_. h)" and get = prf_ctx and s = s and f = f and mems = mems and P = P and lost = lost] that assms
    by (simp add: prf_typed_def)
  show "ends_in lost prf_typed (\<lambda>x s'. \<exists>h. s' = s\<lparr>prf_tmp := h\<rparr> \<and> P x h \<and> hmac_typed h) (on_tmp f s)" if "ends mems P (f (prf_tmp s))"
    unfolding on_tmp_def
    using ends_in_at [where I = prf_typed and put = "\<lambda>h. prf_tmp_update (\<lambda>_. h)" and get = prf_tmp and s = s and f = f and mems = mems and P = P and lost = lost] that assms
    by (simp add: prf_typed_def)
  show "ends_in lost prf_typed (\<lambda>x s'. \<exists>h. s' = s\<lparr>prf_init := h\<rparr> \<and> P x h \<and> hmac_typed h) (on_init f s)" if "ends mems P (f (prf_init s))"
    unfolding on_init_def
    using ends_in_at [where I = prf_typed and put = "\<lambda>h. prf_init_update (\<lambda>_. h)" and get = prf_init and s = s and f = f and mems = mems and P = P and lost = lost] that assms
    by (simp add: prf_typed_def)
qed

lemma prf_copy_ends:
  fixes s :: "'p prf_state"
  assumes "prf_typed s" and "running md key m src" and "\<And>i. mems i = None \<Longrightarrow> lost"
  shows "ends_in lost prf_typed (\<lambda>_ s'. \<exists>h. s' = s\<lparr>prf_ctx := h\<rparr> \<and> running md key m h) (on_ctx1 (\<lambda>c. HMAC_CTX_copy_ex mems c src) s)"
    and "ends_in lost prf_typed (\<lambda>_ s'. \<exists>h. s' = s\<lparr>prf_tmp := h\<rparr> \<and> running md key m h) (on_tmp (\<lambda>c. HMAC_CTX_copy_ex mems c src) s)"
proof -
  have lost: "\<exists>i. mems i = None \<Longrightarrow> lost" using assms(3) by blast
  have "hmac_typed (prf_ctx s)" "hmac_typed (prf_tmp s)" using assms(1) by (simp_all add: prf_typed_def)
  note c = HMAC_CTX_copy_ends [OF this(1) assms(2)] HMAC_CTX_copy_ends [OF this(2) assms(2)]
  show "ends_in lost prf_typed (\<lambda>_ s'. \<exists>h. s' = s\<lparr>prf_ctx := h\<rparr> \<and> running md key m h) (on_ctx1 (\<lambda>c. HMAC_CTX_copy_ex mems c src) s)"
    by (rule ends_in_mono [OF on_prf_ends(1) [where f = "\<lambda>c. HMAC_CTX_copy_ex mems c src" and s = s, OF assms(1) lost c(1)]]) auto
  show "ends_in lost prf_typed (\<lambda>_ s'. \<exists>h. s' = s\<lparr>prf_tmp := h\<rparr> \<and> running md key m h) (on_tmp (\<lambda>c. HMAC_CTX_copy_ex mems c src) s)"
    by (rule ends_in_mono [OF on_prf_ends(2) [where f = "\<lambda>c. HMAC_CTX_copy_ex mems c src" and s = s, OF assms(1) lost c(2)]]) auto
qed

lemma prf_update_ends:
  assumes "prf_typed s" and "running md key m (prf_ctx s)"
  shows "ends_in lost prf_typed (\<lambda>_ s'. \<exists>h. s' = s\<lparr>prf_ctx := h\<rparr> \<and> running md key (m @ data) h) (on_ctx1 (HMAC_Update data) s)"
  by (rule ends_in_mono [OF on_prf_ends(1) [where f = "HMAC_Update data" and s = s, OF assms(1) _ HMAC_Update_ends [OF assms(2), of "\<lambda>_. Some []"]]]) auto

lemma prf_final_ends:
  assumes "prf_typed s" and "mem = None \<Longrightarrow> lost"
  shows "running md key m (prf_ctx s) \<Longrightarrow>
      ends_in lost prf_typed (\<lambda>d s'. \<exists>h. s' = s\<lparr>prf_ctx := h\<rparr> \<and> d = hmac_of md key m) (on_ctx1 (HMAC_Final mem) s)"
    "running md key m (prf_tmp s) \<Longrightarrow>
      ends_in lost prf_typed (\<lambda>d s'. \<exists>h. s' = s\<lparr>prf_tmp := h\<rparr> \<and> d = hmac_of md key m) (on_tmp (HMAC_Final mem) s)"
proof -
  have lost: "\<exists>i :: nat. mem = None \<Longrightarrow> lost" using assms(2) by blast
  show "ends_in lost prf_typed (\<lambda>d s'. \<exists>h. s' = s\<lparr>prf_ctx := h\<rparr> \<and> d = hmac_of md key m) (on_ctx1 (HMAC_Final mem) s)"
    if "running md key m (prf_ctx s)"
    by (rule ends_in_mono [OF on_prf_ends(1) [where f = "HMAC_Final mem" and s = s, OF assms(1) lost HMAC_Final_ends [OF that, of "\<lambda>_. mem"]]]) auto
  show "ends_in lost prf_typed (\<lambda>d s'. \<exists>h. s' = s\<lparr>prf_tmp := h\<rparr> \<and> d = hmac_of md key m) (on_tmp (HMAC_Final mem) s)"
    if "running md key m (prf_tmp s)"
    by (rule ends_in_mono [OF on_prf_ends(2) [where f = "HMAC_Final mem" and s = s, OF assms(1) lost HMAC_Final_ends [OF that, of "\<lambda>_. mem"]]]) auto
qed

lemma prf_seed_ends:
  fixes s :: "'p prf_state"
  assumes "prf_typed s" and "running md key m (prf_ctx s)"
  shows "ends_in lost prf_typed (\<lambda>_ s'. \<exists>h. s' = s\<lparr>prf_ctx := h\<rparr> \<and> running md key (m @ label @ seed1 @ seed2) h) (prf_seed label seed1 seed2 s)"
  unfolding prf_seed_def
proof (rule ends_in_bind [OF prf_update_ends [OF assms]], elim exE conjE)
  fix s1 :: "'p prf_state" and h1
  assume s1: "prf_typed s1" "s1 = s\<lparr>prf_ctx := h1\<rparr>" "running md key (m @ label) h1"
  then have r1: "running md key (m @ label) (prf_ctx s1)" by simp
  show "ends_in lost prf_typed (\<lambda>_ s'. \<exists>h. s' = s\<lparr>prf_ctx := h\<rparr> \<and> running md key (m @ label @ seed1 @ seed2) h)
    (rbind (on_ctx1 (HMAC_Update seed1) s1) (\<lambda>_. on_ctx1 (HMAC_Update seed2)))"
  proof (rule ends_in_bind [OF prf_update_ends [OF s1(1) r1]], elim exE conjE)
    fix s2 :: "'p prf_state" and h2
    assume s2: "prf_typed s2" "s2 = s1\<lparr>prf_ctx := h2\<rparr>" "running md key ((m @ label) @ seed1) h2"
    then have r2: "running md key ((m @ label) @ seed1) (prf_ctx s2)" by simp
    show "ends_in lost prf_typed (\<lambda>_ s'. \<exists>h. s' = s\<lparr>prf_ctx := h\<rparr> \<and> running md key (m @ label @ seed1 @ seed2) h)
      (on_ctx1 (HMAC_Update seed2) s2)"
      by (rule ends_in_mono [OF prf_update_ends [OF s2(1) r2]]) (use s1(2) s2(2) in auto)
  qed
qed

lemma length_p_block [simp]: "length (p_block md secret seed i) = EVP_MD_size md"
  by (simp add: p_block_def)

lemma length_p_hash_of [simp]: "length (p_hash_of md secret seed n) = n"
proof -
  have "length (blocks_of (p_block md secret seed) n) = n * EVP_MD_size md" by (rule length_blocks_of) simp
  then show ?thesis using EVP_MD_size_pos [of md] by (simp add: p_hash_of_def key_stream_def)
qed

text \<open>One round of the loop up to the new block, and the rest of it.\<close>

lemma p_hash_loop_ends:
  fixes s :: "'p prf_state" and md label seed1 seed2 secret
  defines "seed \<equiv> label @ seed1 @ seed2"
  assumes lost: "\<And>i j. mems i j = None \<Longrightarrow> lost"
    and "prf_typed s" "running md secret [] (prf_init s)" "prf_out s = xor_into (blocks_of (p_block md secret seed) i) out"
    and "pos = min (i * EVP_MD_size md) (length out)" and "out_len = length out - pos"
  shows "ends_in lost prf_typed (\<lambda>_ s'. prf_out s' = xor_into (p_hash_of md secret seed (length out)) out)
    (p_hash_loop mems md label seed1 seed2 (prf_A md secret seed (Suc i)) pos out_len s)"
  using assms(3-)
proof (induction out_len arbitrary: i pos s rule: less_induct)
  case (less out_len)
  let ?dl = "EVP_MD_size md" and ?A = "prf_A md secret seed" and ?mem = "mems (Suc out_len)" and ?blocks = "blocks_of (p_block md secret seed)"
  let ?Q = "\<lambda>(_ :: unit) (s' :: 'p prf_state). prf_out s' = xor_into (p_hash_of md secret seed (length out)) out"
  let ?len = "if out_len < ?dl then out_len else ?dl"
  let ?rest = "\<lambda>hmac (s :: 'p prf_state). if length hmac \<noteq> ?dl then UB
        else let s = s\<lparr>prf_out := put_bytes pos (map2 (XOR) (take ?len (drop pos (prf_out s))) (take ?len hmac)) (prf_out s)\<rparr> in
          if out_len - ?len = 0 then Ok () s
          else rbind (on_tmp (HMAC_Final (?mem 7)) s) (\<lambda>A1. p_hash_loop mems md label seed1 seed2 A1 (pos + ?len) (out_len - ?len))"
  have code: "p_hash_loop mems md label seed1 seed2 (?A (Suc i)) pos out_len s =
      rbind (on_ctx1 (\<lambda>c. HMAC_CTX_copy_ex ?mem c (prf_init s)) s) (\<lambda>_ s. rbind (on_ctx1 (HMAC_Update (?A (Suc i))) s) (\<lambda>_ s.
      rbind (if ?dl < out_len then on_tmp (\<lambda>c. HMAC_CTX_copy_ex (\<lambda>i. ?mem (3 + i)) c (prf_ctx s)) s else Ok () s) (\<lambda>_ s.
      rbind (prf_seed label seed1 seed2 s) (\<lambda>_ s. rbind (on_ctx1 (HMAC_Final (?mem 6)) s) ?rest))))"
    by (subst p_hash_loop.simps) (simp only: Let_def)
  have lens: "length (?blocks j) = j * ?dl" for j by (rule length_blocks_of) simp
  have rest: "ends_in lost prf_typed ?Q (?rest (p_block md secret seed (Suc i)) s')"
    if s': "prf_typed s'" "prf_init s' = prf_init s" "prf_out s' = prf_out s" "?dl < out_len \<Longrightarrow> running md secret (?A (Suc i)) (prf_tmp s')"
    for s' :: "'p prf_state"
  proof -
    let ?s = "s'\<lparr>prf_out := put_bytes pos (map2 (XOR) (take ?len (drop pos (prf_out s'))) (take ?len (p_block md secret seed (Suc i)))) (prf_out s')\<rparr>"
    have typed: "prf_typed ?s" using s'(1) by (simp add: prf_typed_def)
    have len: "?len = min ?dl (length out - pos)" using less(6) by auto
    have pos: "pos + ?len = min (Suc i * ?dl) (length out)" unfolding len using less(5) by (auto simp: min_def)
    have out: "prf_out ?s = xor_into (?blocks (Suc i)) out"
    proof (cases "out_len = 0")
      case True
      then have "length out \<le> length (?blocks i)" using less(5,6) lens [of i] by (auto simp: min_def split: if_splits)
      then have "xor_into (?blocks (Suc i)) out = xor_into (?blocks i) out"
        using xor_into_take [of out "?blocks (Suc i)"] xor_into_take [of out "?blocks i"] by (simp add: blocks_of_Suc)
      then show ?thesis using True less(4) s'(3) by (simp add: put_bytes_def)
    next
      case False
      then have "pos = length (?blocks i)" "pos \<le> length out" using less(5,6) lens [of i] by (auto simp: min_def split: if_splits)
      then show ?thesis
        using put_xor_into [of pos "?blocks i" out ?len "p_block md secret seed (Suc i)"] len s'(3) less(4) by (simp add: blocks_of_Suc)
    qed
    show ?thesis
    proof (cases "out_len - ?len = 0")
      case True
      then have n: "length out \<le> Suc i * ?dl" using pos less(6) by (auto simp: min_def split: if_splits)
      then have "take (length out) (?blocks (Suc i)) = p_hash_of md secret seed (length out)"
        unfolding p_hash_of_def by (intro key_stream_eq [OF _ EVP_MD_size_pos]) simp_all
      then have "prf_out ?s = xor_into (p_hash_of md secret seed (length out)) out"
        using out xor_into_take [of out "?blocks (Suc i)"] by simp
      then show ?thesis using True typed by (simp add: Let_def)
    next
      case False
      then have "?dl < out_len" by (auto split: if_splits)
      then have tmp: "running md secret (?A (Suc i)) (prf_tmp ?s)" using s'(4) by simp
      have "ends_in lost prf_typed ?Q (rbind (on_tmp (HMAC_Final (?mem 7)) ?s) (\<lambda>A1. p_hash_loop mems md label seed1 seed2 A1 (pos + ?len) (out_len - ?len)))"
      proof (rule ends_in_bind [OF prf_final_ends(2) [OF typed lost tmp]], assumption, elim exE conjE)
        fix d h and s1 :: "'p prf_state"
        assume s1: "prf_typed s1" "s1 = ?s\<lparr>prf_tmp := h\<rparr>" "d = hmac_of md secret (?A (Suc i))"
        have d: "d = ?A (Suc (Suc i))" unfolding s1(3) by simp
        show "ends_in lost prf_typed ?Q (p_hash_loop mems md label seed1 seed2 d (pos + ?len) (out_len - ?len) s1)"
          unfolding d
        proof (rule less(1))
          show "out_len - ?len < out_len" using False EVP_MD_size_pos [of md] by auto
          show "prf_out s1 = xor_into (?blocks (Suc i)) out" unfolding s1(2) using out by simp
          show "running md secret [] (prf_init s1)" unfolding s1(2) using less(3) s'(2) by simp
          show "out_len - ?len = length out - (pos + ?len)" using less(6) by simp
        qed (rule s1(1), rule pos)
      qed
      then show ?thesis using False by (simp add: Let_def)
    qed
  qed
  show ?case
    unfolding code
  proof (rule ends_in_bind [OF prf_copy_ends(1) [OF less(2,3) lost]], assumption, elim exE conjE)
    fix h1 and s1 :: "'p prf_state"
    assume s1: "prf_typed s1" "s1 = s\<lparr>prf_ctx := h1\<rparr>" "running md secret [] h1"
    then have r1: "running md secret [] (prf_ctx s1)" by simp
    show "ends_in lost prf_typed ?Q (rbind (on_ctx1 (HMAC_Update (?A (Suc i))) s1) (\<lambda>_ s.
      rbind (if ?dl < out_len then on_tmp (\<lambda>c. HMAC_CTX_copy_ex (\<lambda>i. ?mem (3 + i)) c (prf_ctx s)) s else Ok () s) (\<lambda>_ s.
      rbind (prf_seed label seed1 seed2 s) (\<lambda>_ s. rbind (on_ctx1 (HMAC_Final (?mem 6)) s) ?rest))))"
    proof (rule ends_in_bind [OF prf_update_ends [OF s1(1) r1]], elim exE conjE)
      fix h2 and s2 :: "'p prf_state"
      assume s2: "prf_typed s2" "s2 = s1\<lparr>prf_ctx := h2\<rparr>" "running md secret ([] @ ?A (Suc i)) h2"
      then have r2: "running md secret (?A (Suc i)) (prf_ctx s2)" by simp
      have "ends_in lost prf_typed (\<lambda>_ s'. prf_typed s' \<and> prf_init s' = prf_init s \<and> prf_out s' = prf_out s \<and> prf_ctx s' = prf_ctx s2 \<and>
          (?dl < out_len \<longrightarrow> running md secret (?A (Suc i)) (prf_tmp s')))
        (if ?dl < out_len then on_tmp (\<lambda>c. HMAC_CTX_copy_ex (\<lambda>i. ?mem (3 + i)) c (prf_ctx s2)) s2 else Ok () s2)"
      proof (cases "?dl < out_len")
        case True
        have "ends_in lost prf_typed (\<lambda>_ s'. \<exists>h. s' = s2\<lparr>prf_tmp := h\<rparr> \<and> running md secret (?A (Suc i)) h)
          (on_tmp (\<lambda>c. HMAC_CTX_copy_ex (\<lambda>i. ?mem (3 + i)) c (prf_ctx s2)) s2)"
          by (rule prf_copy_ends(2) [OF s2(1) r2]) (rule lost)
        then show ?thesis using True s1(2) s2(2) by (simp del: prf_A.simps) (erule ends_in_mono, auto)
      qed (use s1(2) s2(1,2) in simp)
      then show "ends_in lost prf_typed ?Q (rbind (if ?dl < out_len then on_tmp (\<lambda>c. HMAC_CTX_copy_ex (\<lambda>i. ?mem (3 + i)) c (prf_ctx s2)) s2 else Ok () s2) (\<lambda>_ s.
        rbind (prf_seed label seed1 seed2 s) (\<lambda>_ s. rbind (on_ctx1 (HMAC_Final (?mem 6)) s) ?rest)))"
      proof (rule ends_in_bind, elim conjE)
        fix s3 :: "'p prf_state"
        assume s3: "prf_typed s3" "prf_init s3 = prf_init s" "prf_out s3 = prf_out s" "prf_ctx s3 = prf_ctx s2"
          "?dl < out_len \<longrightarrow> running md secret (?A (Suc i)) (prf_tmp s3)"
        have r3: "running md secret (?A (Suc i)) (prf_ctx s3)" using r2 s3(4) by simp
        show "ends_in lost prf_typed ?Q (rbind (prf_seed label seed1 seed2 s3) (\<lambda>_ s. rbind (on_ctx1 (HMAC_Final (?mem 6)) s) ?rest))"
        proof (rule ends_in_bind [OF prf_seed_ends [OF s3(1) r3]], elim exE conjE)
          fix h4 and s4 :: "'p prf_state"
          assume s4: "prf_typed s4" "s4 = s3\<lparr>prf_ctx := h4\<rparr>" "running md secret (?A (Suc i) @ label @ seed1 @ seed2) h4"
          then have r4: "running md secret (?A (Suc i) @ seed) (prf_ctx s4)" by (simp add: seed_def)
          show "ends_in lost prf_typed ?Q (rbind (on_ctx1 (HMAC_Final (?mem 6)) s4) ?rest)"
          proof (rule ends_in_bind [OF prf_final_ends(1) [OF s4(1) lost r4]], assumption, elim exE conjE)
            fix d h5 and s5 :: "'p prf_state"
            assume s5: "prf_typed s5" "s5 = s4\<lparr>prf_ctx := h5\<rparr>" "d = hmac_of md secret (?A (Suc i) @ seed)"
            have d: "d = p_block md secret seed (Suc i)" unfolding s5(3) by (simp only: p_block_def)
            show "ends_in lost prf_typed ?Q (?rest d s5)"
              unfolding d using s5(2) s4(2) s3 by (intro rest s5(1)) simp_all
          qed
        qed
      qed
    qed
  qed
qed

lemma tls1_P_hash_ends:
  fixes mems :: "nat \<Rightarrow> nat \<Rightarrow> byte list option" and md out secret label seed1 seed2
  assumes "\<And>j. block_of md (mems 0 j)"
  defines "r \<equiv> p_hash_out (tls1_P_hash mems out md secret label seed1 seed2 :: (unit, 'p prf_state) res)"
  shows "r = Ok () (xor_into (p_hash_of md secret (label @ seed1 @ seed2) (length out)) out) \<or>
    (\<exists>i j. mems i j = None) \<and> (\<exists>out'. r = Fail out')"
proof -
  let ?lost = "\<exists>i j. mems i j = None" and ?seed = "label @ seed1 @ seed2"
  let ?s = "\<lparr>prf_out = out, prf_ctx = HMAC_CTX_init, prf_tmp = HMAC_CTX_init, prf_init = HMAC_CTX_init\<rparr> :: 'p prf_state"
  let ?Q = "\<lambda>(_ :: unit) (s' :: 'p prf_state). prf_out s' = xor_into (p_hash_of md secret ?seed (length out)) out"
  let ?run = "rbind (on_init (HMAC_Init_ex (mems 0) (Some secret) (Some md)) ?s) (\<lambda>_ s.
            rbind (on_ctx1 (\<lambda>c. HMAC_CTX_copy_ex (\<lambda>i. mems 0 (4 + i)) c (prf_init s)) s) (\<lambda>_ s.
            rbind (prf_seed label seed1 seed2 s) (\<lambda>_ s.
            rbind (on_ctx1 (HMAC_Final (mems 0 7)) s) (\<lambda>A1.
              p_hash_loop mems md label seed1 seed2 A1 0 (length out)))))"
  have lost: "mems i j = None \<Longrightarrow> ?lost" for i j by blast
  have typed: "prf_typed ?s" by (simp add: prf_typed_def)
  have init: "ends (mems 0) (\<lambda>_. running md secret []) (HMAC_Init_ex (mems 0) (Some secret) (Some md) (prf_init ?s))"
    using HMAC_Init_ex_ends [of "prf_init ?s" md "mems 0" "Some secret"] assms(1) by simp
  have ends: "ends_in ?lost prf_typed ?Q ?run"
  proof (rule ends_in_bind [OF on_prf_ends(3) [where f = "HMAC_Init_ex (mems 0) (Some secret) (Some md)" and s = ?s, OF typed _ init]],
      blast, elim exE conjE)
    fix h1 and s1 :: "'p prf_state"
    assume s1: "prf_typed s1" "s1 = ?s\<lparr>prf_init := h1\<rparr>" "running md secret [] h1"
    then have r1: "running md secret [] (prf_init s1)" by simp
    show "ends_in ?lost prf_typed ?Q (rbind (on_ctx1 (\<lambda>c. HMAC_CTX_copy_ex (\<lambda>i. mems 0 (4 + i)) c (prf_init s1)) s1) (\<lambda>_ s.
            rbind (prf_seed label seed1 seed2 s) (\<lambda>_ s.
            rbind (on_ctx1 (HMAC_Final (mems 0 7)) s) (\<lambda>A1. p_hash_loop mems md label seed1 seed2 A1 0 (length out)))))"
    proof (rule ends_in_bind [OF prf_copy_ends(1) [OF s1(1) r1 lost]], assumption, elim exE conjE)
      fix h2 and s2 :: "'p prf_state"
      assume s2: "prf_typed s2" "s2 = s1\<lparr>prf_ctx := h2\<rparr>" "running md secret [] h2"
      then have r2: "running md secret [] (prf_ctx s2)" by simp
      show "ends_in ?lost prf_typed ?Q (rbind (prf_seed label seed1 seed2 s2) (\<lambda>_ s.
            rbind (on_ctx1 (HMAC_Final (mems 0 7)) s) (\<lambda>A1. p_hash_loop mems md label seed1 seed2 A1 0 (length out))))"
      proof (rule ends_in_bind [OF prf_seed_ends [OF s2(1) r2]], elim exE conjE)
        fix h3 and s3 :: "'p prf_state"
        assume s3: "prf_typed s3" "s3 = s2\<lparr>prf_ctx := h3\<rparr>" "running md secret ([] @ ?seed) h3"
        then have r3: "running md secret ?seed (prf_ctx s3)" by simp
        show "ends_in ?lost prf_typed ?Q
          (rbind (on_ctx1 (HMAC_Final (mems 0 7)) s3) (\<lambda>A1. p_hash_loop mems md label seed1 seed2 A1 0 (length out)))"
        proof (rule ends_in_bind [OF prf_final_ends(1) [OF s3(1) lost r3]], assumption, elim exE conjE)
          fix d h4 and s4 :: "'p prf_state"
          assume s4: "prf_typed s4" "s4 = s3\<lparr>prf_ctx := h4\<rparr>" "d = hmac_of md secret ?seed"
          have "d = prf_A md secret ?seed (Suc 0)" using s4(3) by simp
          then show "ends_in ?lost prf_typed ?Q (p_hash_loop mems md label seed1 seed2 d 0 (length out) s4)"
            using s1 s2(2) s3(2) s4(1,2) by (simp only:) (rule p_hash_loop_ends, auto)
        qed
      qed
    qed
  qed
  have clean: "on_ctx1 HMAC_CTX_cleanup s = Ok () (s\<lparr>prf_ctx := HMAC_CTX_init\<rparr>)" "on_tmp HMAC_CTX_cleanup s = Ok () (s\<lparr>prf_tmp := HMAC_CTX_init\<rparr>)"
    "on_init HMAC_CTX_cleanup s = Ok () (s\<lparr>prf_init := HMAC_CTX_init\<rparr>)" if "prf_typed s" for s :: "'p prf_state"
    using that by (simp_all add: on_ctx1_def on_tmp_def on_init_def at_ctx_def HMAC_CTX_cleanup_ok prf_typed_def)
  have "r = p_hash_out ?run"
    using ends clean
    by (cases ?run) (simp_all add: r_def tls1_P_hash_def Let_def p_hash_out_def ends_in_def prf_typed_def)
  then show ?thesis using ends by (cases ?run) (auto simp: ends_in_def p_hash_out_def)
qed

text \<open>C40: \<open>CRYPTO_tls1_prf\<close> computes the pseudorandom function of TLS 1.2 with the given hash function, and for the pair of MD5 and SHA-1
  that of TLS 1.0 and 1.1, in which the two halves of the secret share a byte if its length is odd, for a seed in two
  pieces and any length of the output. It fails only if memory runs out.\<close>

theorem tls_prf_is_rfc5246:
  assumes "\<forall>j. block_of (if md = EVP_md5_sha1 then EVP_md5 else md) (mems' 0 j)"
    and "\<forall>j. block_of (if md = EVP_md5_sha1 then EVP_sha1 else md) (mems 0 j)"
  shows "CRYPTO_tls1_prf mems' mems TYPE('p) md out secret label seed1 seed2 =
      Ok () (tls_prf_of md secret label (seed1 @ seed2) (length out)) \<or>
    ((\<exists>i j. mems' i j = None) \<or> (\<exists>i j. mems i j = None)) \<and>
      (\<exists>out'. CRYPTO_tls1_prf mems' mems TYPE('p) md out secret label seed1 seed2 = Fail out')"
proof (cases "out = []")
  case True
  have "p_hash_of m k x 0 = []" for m k x by (simp add: p_hash_of_def key_stream_def)
  then show ?thesis using True by (simp add: CRYPTO_tls1_prf_def tls_prf_of_def Let_def)
next
  case False
  let ?seed = "label @ seed1 @ seed2" and ?zero = "replicate (length out) (0 :: byte)" and ?half = "length secret - length secret div 2"
  have mems: "block_of EVP_sha1 (mems 0 j)" "block_of EVP_md5 (mems' 0 j)" if "md = EVP_md5_sha1" for j using assms that by auto
  have half: "?half = (length secret + 1) div 2" by linarith
  show ?thesis
  proof (cases "md = EVP_md5_sha1")
    case True
    let ?md5 = "p_hash_of EVP_md5 (take ?half secret) ?seed (length out)" and ?sec = "drop (length secret - ?half) secret"
    have "xor_into (p_hash_of EVP_sha1 ?sec ?seed (length out)) ?md5 =
        map2 (XOR) ?md5 (p_hash_of EVP_sha1 ?sec ?seed (length out))"
      by (rule xor_into_all) simp
    then show ?thesis
      using True False half tls1_P_hash_ends [where 'p = 'p, of EVP_md5 mems' ?zero "take ?half secret" label seed1 seed2, OF mems(2) [OF True]]
        tls1_P_hash_ends [where 'p = 'p, of EVP_sha1 mems ?md5 ?sec label seed1 seed2, OF mems(1) [OF True]]
      by (auto simp: CRYPTO_tls1_prf_def tls_prf_of_def Let_def xor_into_zero)
  next
    case other: False
    then have "block_of md (mems 0 j)" for j using assms(2) by simp
    then show ?thesis
      using other False tls1_P_hash_ends [where 'p = 'p, of md mems ?zero secret label seed1 seed2]
      by (auto simp: CRYPTO_tls1_prf_def tls_prf_of_def Let_def xor_into_zero)
  qed
qed

lemma tls_prf_is_rfc5246_witness:
  "CRYPTO_tls1_prf (\<lambda>_ _. Some (replicate 92 5)) (\<lambda>_ _. Some (replicate 96 5)) TYPE(unit) EVP_md5_sha1 (replicate 40 0) [1, 2, 3] [4] [5] [6] =
     Ok () (tls_prf_of EVP_md5_sha1 [1, 2, 3] [4] [5, 6] 40)"
  using tls_prf_is_rfc5246 [where 'p = unit, of EVP_md5_sha1 "\<lambda>_ _. Some (replicate 92 5)" "\<lambda>_ _. Some (replicate 96 5)" "replicate 40 0" "[1, 2, 3]" "[4]" "[5]" "[6]"]
  by (simp add: block_of_def)

end
