(* ===== verification/Spec2Isabelle.thy ===== *)
theory Spec2Isabelle
  imports Pb_Wire Pb_Encode_Spec Pb_Decode_Safe Cbb_Oid Cbb_Set Pool_Safe Stack_Spec Base64_Spec Tls_Cbc_Spec Tls_Digest_Spec Aead_Spec Kdf_Spec Tls_Prf_Spec
begin

text \<open>
  The app keeps its maintenance log in Firestore. Its own code is Swift; the C code that the repository
  carries is in the pods: nanopb, which encodes and decodes the messages of the Firebase client libraries,
  and BoringSSL (in the copy that gRPC builds), which carries the connection. This development models
  the parts of both that compute: nanopb completely, and of BoringSSL the byte-string library, the
  containers, the constant-time code and the symmetric cryptography from the hash functions up.
  All paths below are relative to \<open>src/KarbantartasNaplo/Pods\<close>.

  \<^bold>\<open>How programs are modelled.\<close> A C function is a HOL function with the name it has in the source. A function
  with a success flag and a mutable state returns \<open>Ok result state\<close>, \<open>Fail state\<close>, \<open>UB\<close> (undefined
  behaviour: an access outside of the memory, a failed assertion, a call of a null function pointer) or
  \<open>NoFuel\<close> (only in the recursive functions of nanopb, whose fuel bounds the nesting of messages; the theorems
  say how much fuel is enough, and that it always suffices for messages of static fields: two per level of nesting
  of the descriptors and one per field of a table). Loops are recursive functions that terminate without fuel.
  Machine integers are words; a \<open>size_t\<close> that is only a length is a natural number where no
  overflow can matter and otherwise a 64-bit word or a number with the bound written out.
  The outcome of every \<open>malloc\<close> is a parameter. The theorems hold for all outcomes, except those on what the builder of
  byte strings writes and on the load of a hash table, which have the hypothesis that memory is granted.
  User callbacks (nanopb callbacks, comparison functions of stacks and hash tables) are parameters as well, with
  what the code relies on as the assumptions of a locale or a hypothesis.
  Where the source has variants the portable C code is modelled, for a little-endian machine with 64-bit
  \<open>size_t\<close>, as the build of the pods selects it (no assembly, \<open>PB_FIELD_32BIT\<close>, 64-bit integers,
  \<open>PB_ENABLE_MALLOC\<close>).

  \<^bold>\<open>nanopb\<close> (\<open>nanopb/pb.h\<close>, \<open>pb_common.c\<close>, \<open>pb_encode.c\<close>, \<open>pb_decode.c\<close>).
  \<^item> \<open>Prelude\<close>: machine types, results, byte order. \<open>C_Memory\<close>: bytes at addresses and a heap with
    \<open>realloc\<close> and \<open>free\<close>.
  \<^item> \<open>Pb_Types\<close>, \<open>Pb_Common\<close>: the field descriptors, whose offsets are relative to the end of the previous field, and
    the iterator over them; \<open>pb_field_iter_find\<close> is a cyclic search with the addresses of the table.
  \<^item> \<open>Pb_Ostream\<close>, \<open>Pb_Encode\<close>: streams (buffer, sizing, callback), wire-level encoders, message encoder.
    \<open>Pb_Emits\<close> says what it means to emit a string of bytes whatever the stream is, \<open>Pb_Encode_Spec\<close> defines the
    bytes of a message in one pass and proves that the streaming encoder, which encodes a submessage
    twice to learn its length, produces them or fails without leaving its buffer (locale \<open>sub_encoder\<close>
    for the recursion through submessages, interpreted on \<open>pb_encode\<close>).
  \<^item> \<open>Pb_Istream\<close>, \<open>Pb_Memory_Ops\<close>, \<open>Pb_Decode\<close>: input streams, defaults and release, the message decoder with its
    static, pointer, callback, oneof and extension fields. \<open>Pb_Reader\<close>: the readers take
    bytes from the front and never more than the stream has. \<open>Pb_Wire\<close>: round trips (locale \<open>wire_codec\<close>, interpreted on
    each codec). \<open>Pb_Safe_Mem\<close> and \<open>Pb_Decode_Safe\<close>: decoding any bytes into a message of static fields is memory
    safe and ends (locales \<open>static_op\<close>, \<open>static_decoder\<close>, \<open>static_fields\<close>, interpreted on defaults, release and the decoder).

  \<^bold>\<open>BoringSSL byte strings and containers\<close> (\<open>BoringSSL-GRPC/crypto\<close>).
  \<^item> \<open>Cbs\<close> (\<open>bytestring/cbs.c\<close>) parses, \<open>Cbb\<close> (\<open>bytestring/cbb.c\<close>) builds. \<open>Der\<close>: the parsers accept exactly the
    distinguished encodings (locale \<open>exact_parser\<close>). \<open>Cbb_Spec\<close>: the builder, whose children share one
    growing buffer and get their length when the parent is flushed, writes these encodings (locale \<open>codec\<close>, the
    contract of a parser together with its writer). \<open>Cbb_Oid\<close>: object identifiers as text. \<open>Cbb_Set\<close>: the order of a SET OF.
  \<^item> \<open>C_Library\<close>: \<open>memcmp\<close>, \<open>qsort\<close>, \<open>bsearch\<close> with the contract of a comparison function (locale \<open>comparator\<close>).
  \<^item> \<open>Lhash\<close>, \<open>Lhash_Spec\<close> (\<open>lhash/lhash.c\<close>): the hash table, whose two
    functions are an argument \<open>lh_funcs\<close> of the operations instead of fields of the table, refines a map (locale \<open>dictionary\<close>), resizing included.
    \<open>Stack\<close>, \<open>Stack_Spec\<close> (\<open>stack/stack.c\<close>): the array refines a list.
  \<^item> \<open>Pool\<close>, \<open>Pool_Safe\<close> (\<open>pool/pool.c\<close>, \<open>refcount_c11.c\<close>, \<open>refcount_lock.c\<close>): the pool of shared buffers as a step relation of
    threads over the hash table of \<open>Lhash\<close>, with the steps between the lock operations, and its safety by rule induction.

  \<^bold>\<open>BoringSSL symmetric cryptography\<close> (\<open>BoringSSL-GRPC/crypto\<close>).
  \<^item> \<open>Constant_Time\<close> (\<open>internal.h\<close>): branch-free comparisons and selections.
    \<open>Base64\<close>, \<open>Base64_Spec\<close> (\<open>base64/base64.c\<close>): the streaming codec against its one-shot functions.
  \<^item> \<open>Md32\<close> (\<open>fipsmodule/digest/md32_common.h\<close>), \<open>Sha\<close>, \<open>Sha512\<close> (\<open>fipsmodule/sha\<close>), \<open>Md5\<close> (\<open>fipsmodule/md4\<close>, \<open>md5\<close>): the
    hash functions with unrolled rounds and collectors of blocks. \<open>Sha_Spec\<close>, \<open>Sha512_Spec\<close>, \<open>Md5_Spec\<close>: they compute
    FIPS 180-4, RFC 1320 and RFC 1321 for messages in any pieces (locale \<open>sha2\<close>: both word sizes).
  \<^item> \<open>Digest\<close>, \<open>Digest_Spec\<close> (\<open>fipsmodule/digest\<close>): the tables of the functions and the contexts that own their memory,
    with the contract of a hash function as locale \<open>digest_method\<close>. \<open>Hmac\<close>, \<open>Hmac_Spec\<close> (\<open>fipsmodule/hmac/hmac.c\<close>): RFC 2104.
  \<^item> \<open>Tls_Cbc\<close>, \<open>Tls_Cbc_Spec\<close>, \<open>Tls_Digest\<close>, \<open>Tls_Digest_Spec\<close> (\<open>cipher_extra/tls_cbc.c\<close>): padding and MAC of a TLS record in
    constant time are what a decoder with branches computes (locale \<open>tls_hash\<close> for the three hash functions).
  \<^item> \<open>Chacha\<close>, \<open>Chacha_Spec\<close> (\<open>chacha/chacha.c\<close>): the cipher computes ChaCha20 of RFC 8439 and is its own inverse.
    \<open>Poly1305\<close> (\<open>poly1305/poly1305.c\<close>): the authenticator with five limbs of 26 bits. \<open>Poly1305_Limbs\<close>: no product or sum
    of the multiplication overflows its 32 or 64 bits, since the key is clamped and the limbs stay below the bounds
    written out there. \<open>Poly1305_Final\<close>: the last reduction and the packing of the limbs, which is exact unless the
    accumulator ends in one of a few residues; \<open>Poly1305_Spec\<close>: RFC 8439 for a message in any pieces, and a key
    and a message for which the limbs overlap and the tag is wrong.
  \<^item> \<open>Aead\<close> (\<open>fipsmodule/cipher/aead.c\<close>): the interface to ciphers with authentication. \<open>Chacha_Poly\<close>
    (\<open>cipher_extra/e_chacha20poly1305.c\<close>): its algorithm ChaCha20-Poly1305. \<open>Aead_Spec\<close>: opening accepts exactly what
    sealing has produced and clears its output otherwise (locale \<open>aead\<close>, the contract of a table of functions, interpreted
    on the table of ChaCha20-Poly1305).
  \<^item> \<open>Kdf\<close> (\<open>hkdf/hkdf.c\<close>, \<open>evp/pbkdf.c\<close>, \<open>fipsmodule/tls/kdf.c\<close>): keys derived with HMAC. \<open>Kdf_Streams\<close>: outputs filled with
    blocks, and the endings of functions that share contexts; \<open>Kdf_Spec\<close>: HKDF of RFC 5869 and PBKDF2 of RFC 8018; \<open>Tls_Prf_Spec\<close>:
    the pseudorandom functions of RFC 2246 and RFC 5246.

  \<^bold>\<open>Interpretations.\<close> Every locale is interpreted on the definitions of the code in the theory that proves its
  laws, and the properties rest on the facts of the interpretations.

  \<^bold>\<open>Not modelled.\<close> The Swift application; Objective-C and C++ pods (Firebase, gRPC, abseil, leveldb), which have no C of
  their own except generated tables of nanopb descriptors; of BoringSSL the public-key cryptography, ASN.1 templates,
  X.509, PEM, BIO and the TLS state machine (C++), and files that only call the operating system. Timing
  is not modelled: constant-time code is proved to compute the right values, not to take constant time.
  \<open>OPENSSL_cleanse\<close> of memory that is not read again is without effect here.
\<close>

end
